(* ===== verification/Prelude.thy ===== *)
theory Prelude
  imports Main "HOL-Library.Word"
begin

section \<open>Prelude: types, collections and generic lemmas\<close>

text \<open>
  What every component theory shares: the names of the C integer types of the S3C2440 port
  (\<^verbatim>\<open>src/lwip-1.4.1/src/include/arch/cc.h\<close>,
  \<^verbatim>\<open>src/FreeRTOS-Kernel/portable/GCC/ARM9_s3c2440/portmacro.h\<close>), the theorem
  collections the component proofs draw on, and the facts on lists that have no place in one
  component only.
\<close>

unbundle bit_operations_syntax

type_synonym u8_t = "8 word"
type_synonym u16_t = "16 word"
type_synonym u32_t = "32 word"

text \<open>\<^verbatim>\<open>store_simps\<close>: how a read of a record store behaves after a write.
  \<^verbatim>\<open>inv_intros\<close>: introduction rules of the components' invariants.\<close>

named_theorems store_simps
named_theorems inv_intros

subsection \<open>Lists\<close>

lemma takeWhile_all_sorted:
  assumes "sorted (map f xs)" and "x \<in> set (dropWhile (\<lambda>y. f y \<le> v) xs)"
  shows "v < f x"
  using assms
proof (induction xs)
  case Nil
  then show ?case by simp
next
  case (Cons a xs)
  then show ?case by (cases "f a \<le> v") auto
qed

lemma split_at_unique:
  assumes "distinct (as @ x # bs)" and "as @ x # bs = cs @ x # ds"
  shows "as = cs \<and> bs = ds"
proof -
  have "x \<notin> set as" "x \<notin> set bs" using assms(1) by auto
  with assms(2) show ?thesis by (auto simp: append_Cons_eq_iff)
qed

lemma last_notin_butlast: "distinct xs \<Longrightarrow> xs \<noteq> [] \<Longrightarrow> last xs \<notin> set (butlast xs)"
  by (induction xs) (auto dest: in_set_butlastD)

lemma unat_bounds:
  "unat (x :: u8_t) < 2 ^ 8" "unat (y :: u16_t) < 2 ^ 16" "unat (z :: u32_t) < 2 ^ 32"
  by (rule order_less_le_trans[OF unsigned_less], simp)+

lemma ucast_up_down [simp]:
  "ucast (ucast (x :: u8_t) :: u32_t) = x" "ucast (ucast (y :: u16_t) :: u32_t) = y"
  "ucast (ucast (x :: u8_t) :: u16_t) = x"
  by (rule bit_word_eqI; simp add: bit_simps)+

lemma unat_ucast_up [simp]:
  "unat (ucast (x :: u8_t) :: u16_t) = unat x" "unat (ucast (x :: u8_t) :: u32_t) = unat x"
  "unat (ucast (y :: u16_t) :: u32_t) = unat y"
  using unat_bounds(1)[of x] unat_bounds(2)[of y]
  by (simp_all add: unsigned_ucast_eq take_bit_nat_eq_self_iff)

lemma byte_masks:
  "(0xff :: u16_t) = mask 8" "(0xff00 :: u16_t) = push_bit 8 (mask 8)"
  "(0xff :: u32_t) = mask 8" "(0xff00 :: u32_t) = push_bit 8 (mask 8)"
  "(0xff0000 :: u32_t) = push_bit 16 (mask 8)" "(0xff000000 :: u32_t) = push_bit 24 (mask 8)"
  "(0xffff :: u32_t) = mask 16"
  by (simp_all add: mask_eq_exp_minus_1 push_bit_eq_mult)

text \<open>Masks and shifts as arithmetic on the values.\<close>

lemma unat_and_mask:
  "unat (x AND mask n) = unat x mod 2 ^ n"
  by (metis take_bit_eq_mask take_bit_eq_mod unsigned_take_bit_eq)

lemma unat_and_masks:
  "unat (x AND 0x1 :: u32_t) = unat x mod 2" "unat (x AND 0xf :: u32_t) = unat x mod 16"
  "unat (x AND 0xff :: u32_t) = unat x mod 256"
  using unat_and_mask[of x 1] unat_and_mask[of x 4] unat_and_mask[of x 8]
  by (simp_all add: mask_eq_exp_minus_1)

lemma unat_drop_bit: "unat (drop_bit n x) = unat x div 2 ^ n"
  by (metis drop_bit_eq_div take_bit_nat_eq_self unsigned_drop_bit_eq unsigned_less)

lemma of_nat_eq_0_u32: "n < 2 ^ 32 \<Longrightarrow> (of_nat n :: 32 word) = 0 \<longleftrightarrow> n = 0"
  by (simp add: word_of_nat_eq_0_iff dvd_eq_mod_eq_0)

text \<open>Counters that wrap around.\<close>

lemma tick_less: "(x :: u32_t) + 1 \<noteq> 0 \<Longrightarrow> x < x + 1"
  using unatSuc[of x] by (simp add: word_less_nat_alt add.commute)

lemma tick_max: "(x :: u32_t) + 1 = 0 \<Longrightarrow> y \<le> x"
  by (metis add_eq_0_iff word_order.extremum add.commute)

lemma ticks_left_1: "unat (v - x) = 1 \<longleftrightarrow> v = x + (1 :: u32_t)"
proof -
  have "unat (v - x) = 1 \<longleftrightarrow> v - x = 1" by (metis unat_1 unsigned_word_eqI)
  then show ?thesis by (auto simp: algebra_simps)
qed

lemma ticks_left_less: "v \<noteq> x \<Longrightarrow> unat (v - (x + 1 :: u32_t)) = unat (v - x) - 1"
  using unat_minus_one[of "v - x"] by (simp add: diff_diff_eq)

lemma in_set_tlD: "x \<in> set (tl xs) \<Longrightarrow> x \<in> set xs"
  by (cases xs) auto

lemma last_append_Cons: "last (xs @ y # ys) = (if ys = [] then y else last ys)"
  by simp

subsection \<open>Round robin service\<close>

text \<open>Running a step function a number of times, collecting what each step returns.\<close>

fun run_n :: "('s \<Rightarrow> 'a \<times> 's) \<Rightarrow> nat \<Rightarrow> 's \<Rightarrow> 'a list \<times> 's" where
  "run_n f 0 s = ([], s)"
| "run_n f (Suc n) s = (let (x, t) = f s; (xs, u) = run_n f n t in (x # xs, u))"

text \<open>The contract of a server that keeps its clients in a queue: a step serves the first client
  and moves it to the back. \<open>outp\<close> is what a client gets when it is served.\<close>

locale round_robin =
  fixes step :: "'s \<Rightarrow> 'a \<times> 's"
    and serves :: "'s \<Rightarrow> 'b list \<Rightarrow> bool"
    and outp :: "'s \<Rightarrow> 'b \<Rightarrow> 'a"
  assumes serve: "serves s (y # ys) \<Longrightarrow>
    \<exists>t. step s = (outp s y, t) \<and> serves t (ys @ [y]) \<and> (\<forall>z. outp t z = outp s z)"
begin

lemma serve_prefix:
  "serves s (ys @ zs) \<Longrightarrow> \<exists>t. run_n step (length ys) s = (map (outp s) ys, t) \<and>
     serves t (zs @ ys) \<and> (\<forall>z. outp t z = outp s z)"
proof (induction ys arbitrary: s zs)
  case Nil
  then show ?case by simp
next
  case (Cons y ys)
  from Cons.prems obtain t where t: "step s = (outp s y, t)" "serves t (ys @ (zs @ [y]))"
      "\<forall>z. outp t z = outp s z"
    using serve[of s y "ys @ zs"] by auto
  from Cons.IH[OF t(2)] obtain u where "run_n step (length ys) t = (map (outp t) ys, u)"
      "serves u ((zs @ [y]) @ ys)" "\<forall>z. outp u z = outp t z"
    by blast
  with t show ?case by auto
qed

lemma full_turn:
  "serves s ys \<Longrightarrow> \<exists>t. run_n step (length ys) s = (map (outp s) ys, t) \<and> serves t ys"
  using serve_prefix[of s ys "[]"] by auto

end

subsection \<open>Byte memory\<close>

text \<open>Little-endian 32-bit accesses to a byte memory. Addresses and 32-bit values are natural
  numbers; a store keeps the value modulo 2^32, as the machine does.\<close>

type_synonym bytes = "nat \<Rightarrow> u8_t"

definition read32 :: "bytes \<Rightarrow> nat \<Rightarrow> nat" where
  "read32 m a = unat (m a) + 2 ^ 8 * unat (m (a + 1)) + 2 ^ 16 * unat (m (a + 2)) + 2 ^ 24 * unat (m (a + 3))"

definition write32 :: "nat \<Rightarrow> nat \<Rightarrow> bytes \<Rightarrow> bytes" where
  "write32 a v m = m(a := of_nat v, a + 1 := of_nat (v div 2 ^ 8), a + 2 := of_nat (v div 2 ^ 16),
     a + 3 := of_nat (v div 2 ^ 24))"

lemma read32_bound: "read32 m a < 2 ^ 32"
proof -
  have "unat (m x) < 2 ^ 8" for x by (rule order_less_le_trans[OF unsigned_less]) simp
  from this[of a] this[of "a + 1"] this[of "a + 2"] this[of "a + 3"] show ?thesis
    by (simp add: read32_def)
qed

lemma read32_write32_same: "read32 (write32 a v m) a = v mod 2 ^ 32"
proof -
  have "v mod 2 ^ 32 = v mod 2 ^ 8 + 2 ^ 8 * (v div 2 ^ 8 mod 2 ^ 8) +
      2 ^ 16 * (v div 2 ^ 16 mod 2 ^ 8) + 2 ^ 24 * (v div 2 ^ 24 mod 2 ^ 8)"
    using mod_mult2_eq[of v "2 ^ 24" "2 ^ 8"] mod_mult2_eq[of v "2 ^ 16" "2 ^ 8"]
      mod_mult2_eq[of v "2 ^ 8" "2 ^ 8"] by simp
  then show ?thesis by (simp add: read32_def write32_def unat_of_nat)
qed

lemma read32_cong:
  assumes "\<And>x. a \<le> x \<Longrightarrow> x < a + 4 \<Longrightarrow> m x = m' x"
  shows "read32 m a = read32 m' a"
  using assms[of a] assms[of "a + 1"] assms[of "a + 2"] assms[of "a + 3"] by (simp add: read32_def)

lemma read32_write32_other: "a + 4 \<le> b \<or> b + 4 \<le> a \<Longrightarrow> read32 (write32 b v m) a = read32 m a"
  by (auto simp: read32_def write32_def)

lemma write32_outside: "x < a \<or> a + 4 \<le> x \<Longrightarrow> write32 a v m x = m x"
  by (auto simp: write32_def)

subsection \<open>32-bit unsigned arithmetic on natural numbers\<close>

definition add32 :: "nat \<Rightarrow> nat \<Rightarrow> nat" where
  "add32 a b = (a + b) mod 2 ^ 32"

definition sub32 :: "nat \<Rightarrow> nat \<Rightarrow> nat" where
  "sub32 a b = (a + (2 ^ 32 - b mod 2 ^ 32)) mod 2 ^ 32"

lemma add32_exact: "a + b < 2 ^ 32 \<Longrightarrow> add32 a b = a + b"
  by (simp add: add32_def)

lemma sub32_exact: "b \<le> a \<Longrightarrow> a < 2 ^ 32 \<Longrightarrow> sub32 a b = a - b"
proof -
  assume "b \<le> a" "a < 2 ^ 32"
  then have "a + (2 ^ 32 - b mod 2 ^ 32) = (a - b) + 2 ^ 32" "a - b < 2 ^ 32" by simp_all
  then show ?thesis unfolding sub32_def by (metis mod_add_self2 mod_less)
qed

lemma sub32_add32: "a < 2 ^ 32 \<Longrightarrow> sub32 (add32 a b) b = a"
proof -
  assume a: "a < 2 ^ 32"
  have "b mod 2 ^ 32 < 2 ^ 32" by simp
  then have "a + b mod 2 ^ 32 + (2 ^ 32 - b mod 2 ^ 32) = a + 2 ^ 32" by linarith
  moreover have "sub32 (add32 a b) b = (a + b mod 2 ^ 32 + (2 ^ 32 - b mod 2 ^ 32)) mod 2 ^ 32"
    unfolding sub32_def add32_def by (metis mod_add_left_eq mod_add_right_eq)
  ultimately show ?thesis using a by (metis mod_add_self2 mod_less)
qed

subsection \<open>Clients of a memory allocator\<close>

text \<open>A client that keeps to the rules of an allocator: it frees and writes only what it was given
  and has not freed yet. It remembers its blocks (address and requested size) and the bytes it
  wrote into them.\<close>

datatype request = Alloc nat | Release nat | Store nat u8_t

type_synonym holdings = "(nat \<times> nat) list"

definition owns :: "holdings \<Rightarrow> nat \<Rightarrow> bool" where
  "owns L x \<longleftrightarrow> (\<exists>(p, n)\<in>set L. p \<le> x \<and> x < p + n)"

definition separate :: "holdings \<Rightarrow> bool" where
  "separate L \<longleftrightarrow> distinct (map fst L) \<and>
     (\<forall>(p, n)\<in>set L. \<forall>(q, k)\<in>set L. p \<noteq> q \<longrightarrow> p + n \<le> q \<or> q + k \<le> p)"

definition keeps :: "holdings \<Rightarrow> bytes \<Rightarrow> bytes \<Rightarrow> bool" where
  "keeps L m m' \<longleftrightarrow> (\<forall>x. owns L x \<longrightarrow> m' x = m x)"

fun play :: "(nat \<Rightarrow> 's \<Rightarrow> (nat \<times> 's) option) \<Rightarrow> (nat \<Rightarrow> 's \<Rightarrow> 's option) \<Rightarrow> (nat \<Rightarrow> u8_t \<Rightarrow> 's \<Rightarrow> 's) \<Rightarrow>
    request list \<Rightarrow> 's \<Rightarrow> holdings \<Rightarrow> (nat \<rightharpoonup> u8_t) \<Rightarrow> ('s \<times> holdings \<times> (nat \<rightharpoonup> u8_t)) option" where
  "play al fr pu [] s L c = Some (s, L, c)"
| "play al fr pu (Alloc n # rs) s L c =
     (case al n s of None \<Rightarrow> None
      | Some (r, t) \<Rightarrow> play al fr pu rs t (if r = 0 then L else (r, n) # L) c)"
| "play al fr pu (Release p # rs) s L c =
     (if p \<in> fst ` set L
      then case fr p s of None \<Rightarrow> None
           | Some t \<Rightarrow> (let L' = filter (\<lambda>b. fst b \<noteq> p) L
                        in play al fr pu rs t L' (\<lambda>x. if owns L' x then c x else None))
      else play al fr pu rs s L c)"
| "play al fr pu (Store x b # rs) s L c =
     (if owns L x then play al fr pu rs (pu x b s) L (c(x \<mapsto> b)) else play al fr pu rs s L c)"

text \<open>What such a client relies on.\<close>

locale allocator =
  fixes al :: "nat \<Rightarrow> 's \<Rightarrow> (nat \<times> 's) option" and fr :: "nat \<Rightarrow> 's \<Rightarrow> 's option"
    and pu :: "nat \<Rightarrow> u8_t \<Rightarrow> 's \<Rightarrow> 's" and mem_of :: "'s \<Rightarrow> bytes"
    and live :: "'s \<Rightarrow> holdings \<Rightarrow> bool"
  assumes live_separate: "live s L \<Longrightarrow> separate L"
    and alloc_law: "live s L \<Longrightarrow> \<exists>r t. al n s = Some (r, t) \<and> keeps L (mem_of s) (mem_of t) \<and>
      live t (if r = 0 then L else (r, n) # L)"
    and free_law: "live s L \<Longrightarrow> p \<in> fst ` set L \<Longrightarrow> \<exists>t. fr p s = Some t \<and>
      live t (filter (\<lambda>b. fst b \<noteq> p) L) \<and> keeps (filter (\<lambda>b. fst b \<noteq> p) L) (mem_of s) (mem_of t)"
    and put_law: "live s L \<Longrightarrow> owns L x \<Longrightarrow> live (pu x b s) L \<and> mem_of (pu x b s) = (mem_of s)(x := b)"
begin

lemma play_reads_back:
  assumes "live s L" "\<And>x b. c x = Some b \<Longrightarrow> owns L x \<and> mem_of s x = b"
  shows "\<exists>t L' c'. play al fr pu rs s L c = Some (t, L', c') \<and> live t L' \<and> separate L' \<and>
    (\<forall>x b. c' x = Some b \<longrightarrow> owns L' x \<and> mem_of t x = b)"
  using assms
proof (induction rs arbitrary: s L c)
  case Nil
  then show ?case using live_separate by auto
next
  case (Cons r rs)
  show ?case
  proof (cases r)
    case (Alloc n)
    obtain p t where t: "al n s = Some (p, t)" "keeps L (mem_of s) (mem_of t)"
        "live t (if p = 0 then L else (p, n) # L)"
      using alloc_law[OF Cons.prems(1), of n] by blast
    have "owns (if p = 0 then L else (p, n) # L) x \<and> mem_of t x = b" if "c x = Some b" for x b
      using Cons.prems(2)[OF that] t(2) by (auto simp: keeps_def owns_def)
    from Cons.IH[OF t(3) this] t(1) Alloc show ?thesis by simp
  next
    case (Release p)
    show ?thesis
    proof (cases "p \<in> fst ` set L")
      case True
      let ?L = "filter (\<lambda>b. fst b \<noteq> p) L"
      obtain t where t: "fr p s = Some t" "live t ?L" "keeps ?L (mem_of s) (mem_of t)"
        using free_law[OF Cons.prems(1) True] by blast
      have "owns ?L x \<and> mem_of t x = b" if "(if owns ?L x then c x else None) = Some b" for x b
        using Cons.prems(2)[of x b] that t(3) by (auto simp: keeps_def split: if_splits)
      from Cons.IH[OF t(2) this] t(1) True Release show ?thesis by (simp add: Let_def)
    next
      case False
      then show ?thesis using Cons Release by simp
    qed
  next
    case (Store x b)
    show ?thesis
    proof (cases "owns L x")
      case True
      have l: "live (pu x b s) L" and m: "mem_of (pu x b s) = (mem_of s)(x := b)"
        using put_law[OF Cons.prems(1) True] by blast+
      have "owns L y \<and> mem_of (pu x b s) y = d" if "(c(x \<mapsto> b)) y = Some d" for y d
        using that Cons.prems(2)[of y d] True m by (auto split: if_splits)
      from Cons.IH[OF l this] show ?thesis unfolding Store play.simps using True by (simp only: if_True)
    next
      case False
      then show ?thesis using Cons Store by simp
    qed
  qed
qed

end

end
