(* ===== verification/FreeRTOS_List.thy ===== *)
theory FreeRTOS_List
  imports Prelude
begin

section \<open>The kernel's intrusive lists (list.c, list.h)\<close>

text \<open>
  The doubly linked lists of \<^verbatim>\<open>src/FreeRTOS-Kernel/list.c\<close> as the configuration builds them:
  \<^verbatim>\<open>configUSE_MINI_LIST_ITEM\<close> is 1 and the integrity check bytes are off. Lists and items live in
  a store, and a pointer to an item is either a pointer to a \<^verbatim>\<open>ListItem_t\<close> or the address of the
  \<^verbatim>\<open>xListEnd\<close> marker inside a \<^verbatim>\<open>List_t\<close>. Every operation below writes the fields the C code
  writes, in its order. \<open>ring\<close> relates the store to the sequence of items a list holds and
  \<open>order\<close> to the sequence in which \<^verbatim>\<open>listGET_OWNER_OF_NEXT_ENTRY\<close> serves them; the lemmas show
  what each operation does to those sequences and that it leaves every other list alone.
\<close>

type_synonym TickType_t = "32 word"
type_synonym UBaseType_t = "32 word"

definition portMAX_DELAY :: TickType_t where
  "portMAX_DELAY = 0xffffffff"

subsection \<open>Data\<close>

datatype item_ptr = Item nat | ListEnd nat

record ListItem_t =
  xItemValue :: TickType_t
  pxNext :: item_ptr
  pxPrevious :: item_ptr
  pvOwner :: nat
  pxContainer :: "nat option"

record MiniListItem_t =
  mini_xItemValue :: TickType_t
  mini_pxNext :: item_ptr
  mini_pxPrevious :: item_ptr

record List_t =
  uxNumberOfItems :: UBaseType_t
  pxIndex :: item_ptr
  xListEnd :: MiniListItem_t

record list_store =
  items :: "nat \<Rightarrow> ListItem_t"
  lists :: "nat \<Rightarrow> List_t"

subsection \<open>Reads and writes through an item pointer\<close>

fun get_value :: "list_store \<Rightarrow> item_ptr \<Rightarrow> TickType_t" where
  "get_value s (Item i) = xItemValue (items s i)"
| "get_value s (ListEnd l) = mini_xItemValue (xListEnd (lists s l))"

fun get_next :: "list_store \<Rightarrow> item_ptr \<Rightarrow> item_ptr" where
  "get_next s (Item i) = pxNext (items s i)"
| "get_next s (ListEnd l) = mini_pxNext (xListEnd (lists s l))"

fun get_prev :: "list_store \<Rightarrow> item_ptr \<Rightarrow> item_ptr" where
  "get_prev s (Item i) = pxPrevious (items s i)"
| "get_prev s (ListEnd l) = mini_pxPrevious (xListEnd (lists s l))"

definition upd_item :: "nat \<Rightarrow> (ListItem_t \<Rightarrow> ListItem_t) \<Rightarrow> list_store \<Rightarrow> list_store" where
  "upd_item i f s = s\<lparr>items := (items s)(i := f (items s i))\<rparr>"

definition upd_list :: "nat \<Rightarrow> (List_t \<Rightarrow> List_t) \<Rightarrow> list_store \<Rightarrow> list_store" where
  "upd_list l f s = s\<lparr>lists := (lists s)(l := f (lists s l))\<rparr>"

fun set_next :: "item_ptr \<Rightarrow> item_ptr \<Rightarrow> list_store \<Rightarrow> list_store" where
  "set_next (Item i) p s = upd_item i (pxNext_update (\<lambda>_. p)) s"
| "set_next (ListEnd l) p s = upd_list l (xListEnd_update (mini_pxNext_update (\<lambda>_. p))) s"

fun set_prev :: "item_ptr \<Rightarrow> item_ptr \<Rightarrow> list_store \<Rightarrow> list_store" where
  "set_prev (Item i) p s = upd_item i (pxPrevious_update (\<lambda>_. p)) s"
| "set_prev (ListEnd l) p s = upd_list l (xListEnd_update (mini_pxPrevious_update (\<lambda>_. p))) s"

definition set_container :: "nat \<Rightarrow> nat option \<Rightarrow> list_store \<Rightarrow> list_store" where
  "set_container i c s = upd_item i (pxContainer_update (\<lambda>_. c)) s"

definition set_index :: "nat \<Rightarrow> item_ptr \<Rightarrow> list_store \<Rightarrow> list_store" where
  "set_index l p s = upd_list l (pxIndex_update (\<lambda>_. p)) s"

definition add_count :: "nat \<Rightarrow> UBaseType_t \<Rightarrow> list_store \<Rightarrow> list_store" where
  "add_count l d s = upd_list l (uxNumberOfItems_update (\<lambda>n. n + d)) s"

subsection \<open>Operations\<close>

definition vListInitialise :: "nat \<Rightarrow> list_store \<Rightarrow> list_store" where
  "vListInitialise l s =
     (let s1 = set_index l (ListEnd l) s;
          s2 = upd_list l (xListEnd_update (mini_xItemValue_update (\<lambda>_. portMAX_DELAY))) s1;
          s3 = set_next (ListEnd l) (ListEnd l) s2;
          s4 = set_prev (ListEnd l) (ListEnd l) s3
      in upd_list l (uxNumberOfItems_update (\<lambda>_. 0)) s4)"

definition vListInitialiseItem :: "nat \<Rightarrow> list_store \<Rightarrow> list_store" where
  "vListInitialiseItem i s = set_container i None s"

definition vListInsertEnd :: "nat \<Rightarrow> nat \<Rightarrow> list_store \<Rightarrow> list_store" where
  "vListInsertEnd l i s =
     (let idx = pxIndex (lists s l);
          s1 = set_next (Item i) idx s;
          s2 = set_prev (Item i) (get_prev s1 idx) s1;
          s3 = set_next (get_prev s2 idx) (Item i) s2;
          s4 = set_prev idx (Item i) s3;
          s5 = set_container i (Some l) s4
      in add_count l 1 s5)"

text \<open>The search loop of \<^verbatim>\<open>vListInsert\<close>: \<open>None\<close> is a loop that does not end.\<close>

partial_function (option) insert_scan ::
    "list_store \<Rightarrow> TickType_t \<Rightarrow> item_ptr \<Rightarrow> item_ptr option" where
  "insert_scan s v p =
     (if get_value s (get_next s p) \<le> v then insert_scan s v (get_next s p) else Some p)"

definition vListInsert :: "nat \<Rightarrow> nat \<Rightarrow> list_store \<Rightarrow> list_store option" where
  "vListInsert l i s =
     (let v = xItemValue (items s i);
          scan = (if v = portMAX_DELAY then Some (get_prev s (ListEnd l))
                  else insert_scan s v (ListEnd l))
      in case scan of
           None \<Rightarrow> None
         | Some it \<Rightarrow>
             (let s1 = set_next (Item i) (get_next s it) s;
                  s2 = set_prev (get_next s1 (Item i)) (Item i) s1;
                  s3 = set_prev (Item i) it s2;
                  s4 = set_next it (Item i) s3;
                  s5 = set_container i (Some l) s4
              in Some (add_count l 1 s5)))"

text \<open>\<^verbatim>\<open>uxListRemove\<close> dereferences the item's container: \<open>None\<close> is the null dereference.\<close>

definition uxListRemove :: "nat \<Rightarrow> list_store \<Rightarrow> (UBaseType_t \<times> list_store) option" where
  "uxListRemove i s =
     (case pxContainer (items s i) of
        None \<Rightarrow> None
      | Some l \<Rightarrow>
          (let s1 = set_prev (get_next s (Item i)) (get_prev s (Item i)) s;
               s2 = set_next (get_prev s1 (Item i)) (get_next s1 (Item i)) s1;
               s3 = (if pxIndex (lists s2 l) = Item i
                     then set_index l (get_prev s2 (Item i)) s2 else s2);
               s4 = set_container i None s3;
               s5 = add_count l (- 1) s4
           in Some (uxNumberOfItems (lists s5 l), s5)))"

text \<open>The macros \<^verbatim>\<open>listREMOVE_ITEM\<close> and \<^verbatim>\<open>listINSERT_END\<close> are inline versions of the two functions.\<close>

definition listREMOVE_ITEM :: "nat \<Rightarrow> list_store \<Rightarrow> list_store option" where
  "listREMOVE_ITEM i s =
     (case pxContainer (items s i) of
        None \<Rightarrow> None
      | Some l \<Rightarrow>
          (let s = set_prev (get_next s (Item i)) (get_prev s (Item i)) s;
               s = set_next (get_prev s (Item i)) (get_next s (Item i)) s;
               s = (if pxIndex (lists s l) = Item i then set_index l (get_prev s (Item i)) s else s);
               s = set_container i None s
           in Some (add_count l (- 1) s)))"

definition listINSERT_END :: "nat \<Rightarrow> nat \<Rightarrow> list_store \<Rightarrow> list_store" where
  "listINSERT_END l i s =
     (let idx = pxIndex (lists s l);
          s = set_next (Item i) idx s;
          s = set_prev (Item i) (get_prev s idx) s;
          s = set_next (get_prev s idx) (Item i) s;
          s = set_prev idx (Item i) s;
          s = set_container i (Some l) s
      in add_count l 1 s)"

definition listSET_LIST_ITEM_OWNER :: "nat \<Rightarrow> nat \<Rightarrow> list_store \<Rightarrow> list_store" where
  "listSET_LIST_ITEM_OWNER i t s = upd_item i (pvOwner_update (\<lambda>_. t)) s"

definition listSET_LIST_ITEM_VALUE :: "nat \<Rightarrow> TickType_t \<Rightarrow> list_store \<Rightarrow> list_store" where
  "listSET_LIST_ITEM_VALUE i v s = upd_item i (xItemValue_update (\<lambda>_. v)) s"

definition listGET_LIST_ITEM_VALUE :: "nat \<Rightarrow> list_store \<Rightarrow> TickType_t" where
  "listGET_LIST_ITEM_VALUE i s = xItemValue (items s i)"

definition listLIST_ITEM_CONTAINER :: "nat \<Rightarrow> list_store \<Rightarrow> nat option" where
  "listLIST_ITEM_CONTAINER i s = pxContainer (items s i)"

definition listCURRENT_LIST_LENGTH :: "nat \<Rightarrow> list_store \<Rightarrow> UBaseType_t" where
  "listCURRENT_LIST_LENGTH l s = uxNumberOfItems (lists s l)"

text \<open>The owner field is not part of the end marker: reading it there is \<open>None\<close>.\<close>

fun get_owner :: "list_store \<Rightarrow> item_ptr \<Rightarrow> nat option" where
  "get_owner s (Item i) = Some (pvOwner (items s i))"
| "get_owner s (ListEnd l) = None"

definition listGET_OWNER_OF_NEXT_ENTRY :: "nat \<Rightarrow> list_store \<Rightarrow> nat option \<times> list_store" where
  "listGET_OWNER_OF_NEXT_ENTRY l s =
     (let s1 = set_index l (get_next s (pxIndex (lists s l))) s;
          s2 = (if pxIndex (lists s1 l) = ListEnd l
                then set_index l (get_next s1 (pxIndex (lists s1 l))) s1 else s1)
      in (get_owner s2 (pxIndex (lists s2 l)), s2))"

definition listLIST_IS_EMPTY :: "nat \<Rightarrow> list_store \<Rightarrow> bool" where
  "listLIST_IS_EMPTY l s \<longleftrightarrow> uxNumberOfItems (lists s l) = 0"

definition listGET_OWNER_OF_HEAD_ENTRY :: "nat \<Rightarrow> list_store \<Rightarrow> nat option" where
  "listGET_OWNER_OF_HEAD_ENTRY l s = get_owner s (get_next s (ListEnd l))"

definition listGET_ITEM_VALUE_OF_HEAD_ENTRY :: "nat \<Rightarrow> list_store \<Rightarrow> TickType_t" where
  "listGET_ITEM_VALUE_OF_HEAD_ENTRY l s = get_value s (get_next s (ListEnd l))"

definition listIS_CONTAINED_WITHIN :: "nat \<Rightarrow> nat \<Rightarrow> list_store \<Rightarrow> bool" where
  "listIS_CONTAINED_WITHIN l i s \<longleftrightarrow> pxContainer (items s i) = Some l"

subsection \<open>Reads after writes\<close>

lemma get_next_set_next [store_simps]:
  "get_next (set_next p q s) r = (if r = p then q else get_next s r)"
  by (cases p; cases r) (auto simp: upd_item_def upd_list_def)

lemma get_prev_set_prev [store_simps]:
  "get_prev (set_prev p q s) r = (if r = p then q else get_prev s r)"
  by (cases p; cases r) (auto simp: upd_item_def upd_list_def)

lemma get_prev_set_next [store_simps]: "get_prev (set_next p q s) r = get_prev s r"
  by (cases p; cases r) (auto simp: upd_item_def upd_list_def)

lemma get_next_set_prev [store_simps]: "get_next (set_prev p q s) r = get_next s r"
  by (cases p; cases r) (auto simp: upd_item_def upd_list_def)

lemma get_value_set_links [store_simps]:
  "get_value (set_next p q s) r = get_value s r" "get_value (set_prev p q s) r = get_value s r"
  by (cases p; cases r; auto simp: upd_item_def upd_list_def)+

lemma get_owner_set_links [store_simps]:
  "get_owner (set_next p q s) r = get_owner s r" "get_owner (set_prev p q s) r = get_owner s r"
  by (cases p; cases r; auto simp: upd_item_def upd_list_def)+

lemma links_set_container [store_simps]:
  "get_next (set_container i c s) r = get_next s r"
  "get_prev (set_container i c s) r = get_prev s r"
  "get_value (set_container i c s) r = get_value s r"
  "get_owner (set_container i c s) r = get_owner s r"
  by (cases r; auto simp: upd_item_def set_container_def)+

lemma links_set_index [store_simps]:
  "get_next (set_index l p s) r = get_next s r"
  "get_prev (set_index l p s) r = get_prev s r"
  "get_value (set_index l p s) r = get_value s r"
  "get_owner (set_index l p s) r = get_owner s r"
  by (cases r; auto simp: upd_list_def set_index_def)+

lemma links_add_count [store_simps]:
  "get_next (add_count l d s) r = get_next s r"
  "get_prev (add_count l d s) r = get_prev s r"
  "get_value (add_count l d s) r = get_value s r"
  "get_owner (add_count l d s) r = get_owner s r"
  by (cases r; auto simp: upd_list_def add_count_def)+

lemma container_store [store_simps]:
  "pxContainer (items (set_next p q s) j) = pxContainer (items s j)"
  "pxContainer (items (set_prev p q s) j) = pxContainer (items s j)"
  "pxContainer (items (set_container i c s) j) = (if j = i then c else pxContainer (items s j))"
  "pxContainer (items (set_index l p s) j) = pxContainer (items s j)"
  "pxContainer (items (add_count l d s) j) = pxContainer (items s j)"
  by (cases p; auto simp: upd_list_def upd_item_def set_index_def add_count_def set_container_def)+

lemma index_store [store_simps]:
  "pxIndex (lists (set_next p q s) k) = pxIndex (lists s k)"
  "pxIndex (lists (set_prev p q s) k) = pxIndex (lists s k)"
  "pxIndex (lists (set_container i c s) k) = pxIndex (lists s k)"
  "pxIndex (lists (set_index l r s) k) = (if k = l then r else pxIndex (lists s k))"
  "pxIndex (lists (add_count l d s) k) = pxIndex (lists s k)"
  by (cases p; auto simp: upd_list_def upd_item_def set_index_def add_count_def set_container_def)+

lemma count_store [store_simps]:
  "uxNumberOfItems (lists (set_next p q s) k) = uxNumberOfItems (lists s k)"
  "uxNumberOfItems (lists (set_prev p q s) k) = uxNumberOfItems (lists s k)"
  "uxNumberOfItems (lists (set_container i c s) k) = uxNumberOfItems (lists s k)"
  "uxNumberOfItems (lists (set_index l r s) k) = uxNumberOfItems (lists s k)"
  "uxNumberOfItems (lists (add_count l d s) k) =
     (if k = l then uxNumberOfItems (lists s k) + d else uxNumberOfItems (lists s k))"
  by (cases p; auto simp: upd_list_def upd_item_def set_index_def add_count_def set_container_def)+

lemma item_fields_store [store_simps]:
  "xItemValue (items s j) = get_value s (Item j)"
  by simp

lemmas ptr_simps = get_next.simps get_prev.simps get_value.simps set_next.simps set_prev.simps

declare ptr_simps [simp del]

subsection \<open>Chains of links\<close>

fun chain :: "list_store \<Rightarrow> item_ptr list \<Rightarrow> bool" where
  "chain s (p # q # ps) \<longleftrightarrow> get_next s p = q \<and> get_prev s q = p \<and> chain s (q # ps)"
| "chain s ps \<longleftrightarrow> True"

lemma chain_append: "chain s (xs @ p # ys) \<longleftrightarrow> chain s (xs @ [p]) \<and> chain s (p # ys)"
  by (induction s xs rule: chain.induct) auto

lemma chain_cong:
  assumes "\<And>p. p \<in> set (butlast ps) \<Longrightarrow> get_next t p = get_next s p"
    and "\<And>p. p \<in> set (tl ps) \<Longrightarrow> get_prev t p = get_prev s p"
  shows "chain t ps = chain s ps"
  using assms by (induction s ps rule: chain.induct) auto


lemma chain_link:
  assumes "chain s (as @ bs)" "as \<noteq> []" "bs \<noteq> []"
  shows "get_next s (last as) = hd bs" "get_prev s (hd bs) = last as" "chain s as" "chain s bs"
proof -
  obtain a as' where as: "as = as' @ [a]" using assms(2) by (metis rev_exhaust)
  obtain b bs' where bs: "bs = b # bs'" using assms(3) by (cases bs) auto
  have c: "chain s (as' @ a # b # bs')" using assms(1) by (simp add: as bs)
  then have "chain s (as' @ [a])" "chain s (a # b # bs')"
    using chain_append[of s as' a "b # bs'"] by auto
  then show "get_next s (last as) = hd bs" "get_prev s (hd bs) = last as" "chain s as" "chain s bs"
    by (auto simp: as bs)
qed

lemma chain_join:
  assumes "chain s as" "chain s bs" "as \<noteq> []" "bs \<noteq> []"
    and "get_next s (last as) = hd bs" "get_prev s (hd bs) = last as"
  shows "chain s (as @ bs)"
proof -
  obtain a as' where as: "as = as' @ [a]" using assms(3) by (metis rev_exhaust)
  obtain b bs' where bs: "bs = b # bs'" using assms(4) by (cases bs) auto
  show ?thesis using assms by (simp add: as bs chain_append[of s as' a "b # bs'"])
qed

text \<open>Splicing one item in between two neighbours, and out again.\<close>

definition splice_in :: "item_ptr \<Rightarrow> item_ptr \<Rightarrow> nat \<Rightarrow> list_store \<Rightarrow> list_store \<Rightarrow> bool" where
  "splice_in a b i s t \<longleftrightarrow>
     get_next t = (get_next s)(Item i := b, a := Item i) \<and>
     get_prev t = (get_prev s)(Item i := a, b := Item i)"

definition splice_out :: "item_ptr \<Rightarrow> item_ptr \<Rightarrow> list_store \<Rightarrow> list_store \<Rightarrow> bool" where
  "splice_out a b s t \<longleftrightarrow> get_next t = (get_next s)(a := b) \<and> get_prev t = (get_prev s)(b := a)"

lemma chain_splice_in:
  assumes "chain s (as @ bs)" "as \<noteq> []" "bs \<noteq> []"
    and "splice_in (last as) (hd bs) i s t" and "Item i \<notin> set (as @ bs)"
    and "distinct as" "distinct bs" "last as \<notin> set (butlast bs)" "hd bs \<notin> set (tl as)"
  shows "chain t (as @ Item i # bs)"
proof -
  note c = chain_link[OF assms(1-3)]
  have nin: "Item i \<notin> set as" "Item i \<notin> set bs" "Item i \<notin> set (tl as)" "Item i \<notin> set (tl bs)"
    using assms(2,3,5) by (auto dest: list.set_sel(2))
  have hd: "hd bs \<notin> set (tl bs)" using assms(3,7) by (cases bs) auto
  have la: "last as \<notin> set (butlast as)"
    using assms(2,6) by (simp add: last_notin_butlast)
  have "chain t as"
    using c(3) by (subst chain_cong) (use assms(4,9) nin la in \<open>auto simp: splice_in_def dest: in_set_butlastD\<close>)
  moreover have "chain t bs"
    using c(4) by (subst chain_cong) (use assms(4,8) nin hd in \<open>auto simp: splice_in_def dest: in_set_butlastD\<close>)
  moreover have "chain t (Item i # bs)"
    using calculation(2) assms(2,3,4) nin by (cases bs) (auto simp: splice_in_def dest: last_in_set)
  moreover have "last as \<noteq> Item i" using nin assms(2) by (metis last_in_set)
  moreover have "hd bs \<noteq> Item i" using nin assms(3) by (metis list.set_sel(1))
  ultimately show ?thesis
    using assms(2,4) by (intro chain_join) (auto simp: splice_in_def)
qed

lemma chain_splice_out:
  assumes "chain s (as @ p # bs)" "as \<noteq> []" "bs \<noteq> []"
    and "splice_out (last as) (hd bs) s t" and "p \<notin> set (as @ bs)"
    and "distinct as" "distinct bs" "last as \<notin> set (butlast bs)" "hd bs \<notin> set (tl as)"
  shows "chain t (as @ bs)"
proof -
  have c1: "chain s as" using chain_link[OF assms(1,2)] by simp
  have c2: "chain s bs" using chain_link[of s "as @ [p]" bs] assms(1,3) by simp
  have hd: "hd bs \<notin> set (tl bs)" using assms(3,7) by (cases bs) auto
  have la: "last as \<notin> set (butlast as)"
    using assms(2,6) by (simp add: last_notin_butlast)
  have "chain t as"
    using c1 by (subst chain_cong) (use assms(4,9) la in \<open>auto simp: splice_out_def\<close>)
  moreover have "chain t bs"
    using c2 by (subst chain_cong) (use assms(4,8) hd in \<open>auto simp: splice_out_def\<close>)
  ultimately show ?thesis
    using assms(2,3,4) by (intro chain_join) (auto simp: splice_out_def)
qed

subsection \<open>The items a list holds\<close>

definition ring :: "list_store \<Rightarrow> nat \<Rightarrow> nat list \<Rightarrow> bool" where
  "ring s l xs \<longleftrightarrow>
     chain s (ListEnd l # map Item xs @ [ListEnd l]) \<and> distinct xs \<and>
     (\<forall>i\<in>set xs. pxContainer (items s i) = Some l) \<and>
     uxNumberOfItems (lists s l) = of_nat (length xs) \<and> length xs < 2 ^ 32 \<and>
     pxIndex (lists s l) \<in> insert (ListEnd l) (Item ` set xs) \<and>
     get_value s (ListEnd l) = portMAX_DELAY"

lemma ring_empty_iff: "ring s l xs \<Longrightarrow> listLIST_IS_EMPTY l s \<longleftrightarrow> xs = []"
  by (auto simp: ring_def listLIST_IS_EMPTY_def of_nat_eq_0_u32)

lemma ring_cong:
  assumes "\<And>p. p \<in> insert (ListEnd l) (Item ` set xs) \<Longrightarrow>
      get_next t p = get_next s p \<and> get_prev t p = get_prev s p"
    and "\<And>i. i \<in> set xs \<Longrightarrow> pxContainer (items t i) = pxContainer (items s i)"
    and "uxNumberOfItems (lists t l) = uxNumberOfItems (lists s l)"
    and "pxIndex (lists t l) = pxIndex (lists s l)"
    and "get_value t (ListEnd l) = get_value s (ListEnd l)"
  shows "ring t l xs = ring s l xs"
proof -
  have "chain t (ListEnd l # map Item xs @ [ListEnd l]) =
        chain s (ListEnd l # map Item xs @ [ListEnd l])"
    by (rule chain_cong) (use assms(1) in \<open>auto dest!: in_set_butlastD\<close>)
  then show ?thesis using assms by (simp add: ring_def)
qed

lemma ring_disjoint:
  assumes "ring s l xs" "ring s k ys" "l \<noteq> k"
  shows "set xs \<inter> set ys = {}"
proof -
  have "pxContainer (items s i) = Some l" if "i \<in> set xs" for i
    using assms(1) that by (simp add: ring_def)
  moreover have "pxContainer (items s i) = Some k" if "i \<in> set ys" for i
    using assms(2) that by (simp add: ring_def)
  ultimately show ?thesis using assms(3) by (metis disjoint_iff option.inject)
qed

lemma ring_neighbours:
  assumes "ring s l (us @ vs)"
  shows "get_next s (last (ListEnd l # map Item us)) = hd (map Item vs @ [ListEnd l])"
    and "get_prev s (hd (map Item vs @ [ListEnd l])) = last (ListEnd l # map Item us)"
  using chain_link[of s "ListEnd l # map Item us" "map Item vs @ [ListEnd l]"] assms
  by (auto simp: ring_def)

subsection \<open>What the operations do to the links\<close>

definition inserted ::
    "nat \<Rightarrow> item_ptr \<Rightarrow> item_ptr \<Rightarrow> nat \<Rightarrow> list_store \<Rightarrow> list_store \<Rightarrow> bool" where
  "inserted l a b i s t \<longleftrightarrow> splice_in a b i s t \<and>
     (\<forall>j. pxContainer (items t j) = (if j = i then Some l else pxContainer (items s j))) \<and>
     (\<forall>k. uxNumberOfItems (lists t k) = uxNumberOfItems (lists s k) + (if k = l then 1 else 0)) \<and>
     (\<forall>k. pxIndex (lists t k) = pxIndex (lists s k)) \<and>
     get_value t = get_value s \<and> get_owner t = get_owner s"

definition removed :: "nat \<Rightarrow> nat \<Rightarrow> list_store \<Rightarrow> list_store \<Rightarrow> bool" where
  "removed l i s t \<longleftrightarrow> splice_out (get_prev s (Item i)) (get_next s (Item i)) s t \<and>
     (\<forall>j. pxContainer (items t j) = (if j = i then None else pxContainer (items s j))) \<and>
     (\<forall>k. uxNumberOfItems (lists t k) = uxNumberOfItems (lists s k) - (if k = l then 1 else 0)) \<and>
     (\<forall>k. pxIndex (lists t k) =
        (if k = l \<and> pxIndex (lists s l) = Item i then get_prev s (Item i)
         else pxIndex (lists s k))) \<and>
     get_value t = get_value s \<and> get_owner t = get_owner s"

lemma vListInsertEnd_inserted:
  assumes "pxIndex (lists s l) \<noteq> Item i"
  shows "inserted l (get_prev s (pxIndex (lists s l))) (pxIndex (lists s l)) i s (vListInsertEnd l i s)"
  using assms
  by (auto simp: inserted_def splice_in_def vListInsertEnd_def Let_def store_simps fun_eq_iff)

lemma vListInsert_inserted:
  assumes "it \<noteq> Item i" and "get_next s it \<noteq> Item i"
    and "(if xItemValue (items s i) = portMAX_DELAY then Some (get_prev s (ListEnd l))
          else insert_scan s (xItemValue (items s i)) (ListEnd l)) = Some it"
  shows "\<exists>t. vListInsert l i s = Some t \<and> inserted l it (get_next s it) i s t"
  using assms
  by (auto simp: inserted_def splice_in_def vListInsert_def Let_def store_simps fun_eq_iff
      )

lemma uxListRemove_removed:
  assumes "pxContainer (items s i) = Some l"
    and "get_next s (Item i) \<noteq> Item i" and "get_prev s (Item i) \<noteq> Item i"
  shows "\<exists>t. uxListRemove i s = Some (uxNumberOfItems (lists s l) - 1, t) \<and> removed l i s t"
  using assms
  by (auto simp: removed_def splice_out_def uxListRemove_def Let_def store_simps fun_eq_iff
      )

subsection \<open>What the operations do to the rings\<close>

lemma inserted_ring:
  assumes "ring s l (us @ vs)" and "i \<notin> set (us @ vs)" and "length (us @ vs) < 2 ^ 32 - 1"
    and ins: "inserted l (last (ListEnd l # map Item us)) (hd (map Item vs @ [ListEnd l])) i s t"
  shows "ring t l (us @ i # vs)"
proof -
  have d: "distinct (us @ vs)" using assms(1) by (simp add: ring_def)
  have "chain t ((ListEnd l # map Item us) @ Item i # (map Item vs @ [ListEnd l]))"
  proof (rule chain_splice_in[where s = s])
    show "chain s ((ListEnd l # map Item us) @ map Item vs @ [ListEnd l])"
      using assms(1) by (simp add: ring_def)
  qed (use assms(2) d ins in \<open>auto simp: inserted_def distinct_map inj_on_def butlast_append
         hd_append last_map hd_map disjoint_iff dest: last_in_set\<close>)
  then show ?thesis
    using assms by (auto simp: ring_def inserted_def)
qed

lemma inserted_other_ring:
  assumes "ring s l (us @ vs)" and "ring s k ys" and "k \<noteq> l" and "i \<notin> set ys"
    and ins: "inserted l (last (ListEnd l # map Item us)) (hd (map Item vs @ [ListEnd l])) i s t"
  shows "ring t k ys"
proof -
  have disj: "set (us @ vs) \<inter> set ys = {}" using ring_disjoint assms(1-3) by blast
  have "last (ListEnd l # map Item us) \<notin> insert (ListEnd k) (Item ` set ys)"
    using disj assms(3) by (auto simp: last_map disjoint_iff dest: last_in_set)
  moreover have "hd (map Item vs @ [ListEnd l]) \<notin> insert (ListEnd k) (Item ` set ys)"
    using disj assms(3) by (cases vs) auto
  moreover have "Item i \<notin> insert (ListEnd k) (Item ` set ys)" using assms(4) by auto
  ultimately have "p \<noteq> last (ListEnd l # map Item us) \<and> p \<noteq> hd (map Item vs @ [ListEnd l]) \<and> p \<noteq> Item i"
    if "p \<in> insert (ListEnd k) (Item ` set ys)" for p
    using that by metis
  then have "ring t k ys = ring s k ys"
    using ins assms(3,4)
    by (intro ring_cong) (simp_all add: inserted_def splice_in_def, auto)
  with assms(2) show ?thesis by simp
qed

lemma removed_ring:
  assumes "ring s l (us @ i # vs)" and rem: "removed l i s t"
  shows "ring t l (us @ vs)"
proof -
  have d: "distinct (us @ i # vs)" using assms(1) by (simp add: ring_def)
  have p: "get_prev s (Item i) = last (ListEnd l # map Item us)"
    using ring_neighbours(2)[OF assms(1)] by simp
  have n: "get_next s (Item i) = hd (map Item vs @ [ListEnd l])"
    using ring_neighbours(1)[of s l "us @ [i]" vs] assms(1) by simp
  have "chain t ((ListEnd l # map Item us) @ (map Item vs @ [ListEnd l]))"
  proof (rule chain_splice_out[where s = s])
    show "chain s ((ListEnd l # map Item us) @ Item i # (map Item vs @ [ListEnd l]))"
      using assms(1) by (simp add: ring_def)
  qed (use d rem p n in \<open>auto simp: removed_def distinct_map inj_on_def butlast_append
         hd_append last_map hd_map disjoint_iff dest: last_in_set\<close>)
  moreover have "last (ListEnd l # map Item us) \<in> insert (ListEnd l) (Item ` set (us @ vs))"
    by (auto simp: last_map)
  ultimately show ?thesis
    using assms(1) rem p d by (auto simp: ring_def removed_def)
qed

lemma removed_other_ring:
  assumes "ring s l (us @ i # vs)" and "ring s k ys" and "k \<noteq> l" and rem: "removed l i s t"
  shows "ring t k ys"
proof -
  have disj: "set (us @ i # vs) \<inter> set ys = {}" using ring_disjoint assms(1-3) by blast
  have "get_prev s (Item i) \<notin> insert (ListEnd k) (Item ` set ys)"
    using ring_neighbours(2)[OF assms(1)] disj assms(3)
    by (auto simp: last_map disjoint_iff dest: last_in_set)
  moreover have "get_next s (Item i) \<notin> insert (ListEnd k) (Item ` set ys)"
    using ring_neighbours(1)[of s l "us @ [i]" vs] assms(1,3) disj by (cases vs) auto
  ultimately have "p \<noteq> get_prev s (Item i) \<and> p \<noteq> get_next s (Item i)"
    if "p \<in> insert (ListEnd k) (Item ` set ys)" for p
    using that by metis
  then have "ring t k ys = ring s k ys"
    using rem assms(3) disj
    by (intro ring_cong) (simp_all add: removed_def splice_out_def, auto)
  with assms(2) show ?thesis by simp
qed

subsection \<open>Sorted insertion\<close>

abbreviation val :: "list_store \<Rightarrow> nat \<Rightarrow> TickType_t" where
  "val s i \<equiv> get_value s (Item i)"

definition insort_after :: "list_store \<Rightarrow> nat \<Rightarrow> nat list \<Rightarrow> nat list" where
  "insort_after s i xs =
     takeWhile (\<lambda>j. val s j \<le> val s i) xs @ i # dropWhile (\<lambda>j. val s j \<le> val s i) xs"

lemma le_portMAX_DELAY: "v \<le> portMAX_DELAY"
proof -
  have "(0xffffffff :: 32 word) = - 1" by simp
  then show ?thesis unfolding portMAX_DELAY_def by (metis word_order.extremum)
qed

lemma insert_scan_finds:
  assumes "ring s l (as @ bs)" and "v \<noteq> portMAX_DELAY"
  shows "insert_scan s v (last (ListEnd l # map Item as)) =
         Some (last (ListEnd l # map Item (as @ takeWhile (\<lambda>j. val s j \<le> v) bs)))"
  using assms
proof (induction bs arbitrary: as)
  case Nil
  have "get_value s (ListEnd l) = portMAX_DELAY" using Nil.prems by (simp add: ring_def)
  moreover have "\<not> portMAX_DELAY \<le> v" using Nil.prems(2) le_portMAX_DELAY[of v] by simp
  moreover have "get_next s (last (ListEnd l # map Item as)) = ListEnd l"
    using ring_neighbours(1)[of s l as "[]"] Nil.prems(1) by simp
  ultimately show ?case by (simp only: insert_scan.simps[of s v "last (ListEnd l # map Item as)"]) simp
next
  case (Cons b bs)
  have n: "get_next s (last (ListEnd l # map Item as)) = Item b"
    using ring_neighbours(1)[of s l as "b # bs"] Cons.prems(1) by simp
  show ?case
  proof (cases "val s b \<le> v")
    case True
    have "insert_scan s v (last (ListEnd l # map Item (as @ [b]))) =
          Some (last (ListEnd l # map Item ((as @ [b]) @ takeWhile (\<lambda>j. val s j \<le> v) bs)))"
      by (rule Cons.IH) (use Cons.prems in auto)
    with n True show ?thesis
      by (simp only: insert_scan.simps[of s v "last (ListEnd l # map Item as)"]) simp
  next
    case False
    with n show ?thesis
      by (simp only: insert_scan.simps[of s v "last (ListEnd l # map Item as)"]) simp
  qed
qed

lemma takeWhile_le_max: "takeWhile (\<lambda>j. f j \<le> portMAX_DELAY) xs = xs"
  by (simp add: takeWhile_eq_all_conv le_portMAX_DELAY)

lemma dropWhile_le_max: "dropWhile (\<lambda>j. f j \<le> portMAX_DELAY) xs = []"
  by (simp add: dropWhile_eq_Nil_conv le_portMAX_DELAY)

lemma vListInsert_finds:
  assumes "ring s l xs"
  shows "(if xItemValue (items s i) = portMAX_DELAY then Some (get_prev s (ListEnd l))
          else insert_scan s (xItemValue (items s i)) (ListEnd l)) =
         Some (last (ListEnd l # map Item (takeWhile (\<lambda>j. val s j \<le> val s i) xs)))"
  using insert_scan_finds[of s l "[]" xs] ring_neighbours(2)[of s l xs "[]"] assms
  by (auto simp: item_fields_store takeWhile_le_max)

lemma vListInsert_spec:
  assumes r: "ring s l xs" and nin: "i \<notin> set xs" and len: "length xs < 2 ^ 32 - 1"
  obtains t us vs where "vListInsert l i s = Some t" "xs = us @ vs" "insort_after s i xs = us @ i # vs"
    "inserted l (last (ListEnd l # map Item us)) (hd (map Item vs @ [ListEnd l])) i s t"
proof -
  define us where "us = takeWhile (\<lambda>j. val s j \<le> val s i) xs"
  define vs where "vs = dropWhile (\<lambda>j. val s j \<le> val s i) xs"
  have xs: "xs = us @ vs" by (simp add: us_def vs_def)
  let ?it = "last (ListEnd l # map Item us)"
  have n: "get_next s ?it = hd (map Item vs @ [ListEnd l])"
    using ring_neighbours(1)[of s l us vs] r xs by simp
  have it1: "?it \<noteq> Item i" using nin xs by (cases us rule: rev_cases) auto
  have it2: "get_next s ?it \<noteq> Item i" using nin xs n by (cases vs) auto
  have it3: "(if xItemValue (items s i) = portMAX_DELAY then Some (get_prev s (ListEnd l))
      else insert_scan s (xItemValue (items s i)) (ListEnd l)) = Some ?it"
    unfolding us_def by (rule vListInsert_finds[OF r])
  from vListInsert_inserted[OF it1 it2 it3]
  obtain t where "vListInsert l i s = Some t" "inserted l ?it (get_next s ?it) i s t"
    by (elim exE conjE)
  moreover have "insort_after s i xs = us @ i # vs" by (simp add: insort_after_def us_def vs_def)
  ultimately show ?thesis using that[OF _ xs] n by simp
qed

lemma insort_after_sorted:
  assumes "sorted (map (val s) xs)"
  shows "sorted (map (val s) (insort_after s i xs))"
proof -
  obtain us vs where uv: "us = takeWhile (\<lambda>j. val s j \<le> val s i) xs"
      "vs = dropWhile (\<lambda>j. val s j \<le> val s i) xs" by simp
  then have "xs = us @ vs" by simp
  moreover have "\<forall>x\<in>set us. val s x \<le> val s i" using uv by (auto dest: set_takeWhileD)
  moreover have "\<forall>x\<in>set vs. val s i \<le> val s x"
    using takeWhile_all_sorted[OF assms] uv by (auto intro: less_imp_le)
  ultimately have "sorted (map (val s) (us @ i # vs))" using assms by (auto simp: sorted_append)
  then show ?thesis by (simp add: insort_after_def uv)
qed

subsection \<open>The serving order\<close>

text \<open>The order in which \<^verbatim>\<open>listGET_OWNER_OF_NEXT_ENTRY\<close> will serve the items from the current
  index on: what follows the index, then what precedes it, then the item at the index.\<close>

definition order :: "list_store \<Rightarrow> nat \<Rightarrow> nat list \<Rightarrow> nat list" where
  "order s l xs =
     (case pxIndex (lists s l) of
        ListEnd _ \<Rightarrow> xs
      | Item x \<Rightarrow> tl (dropWhile (\<lambda>y. y \<noteq> x) xs) @ takeWhile (\<lambda>y. y \<noteq> x) xs @ [x])"

lemma order_End: "pxIndex (lists s l) = ListEnd k \<Longrightarrow> order s l xs = xs"
  by (simp add: order_def)

lemma order_Item:
  "pxIndex (lists s l) = Item x \<Longrightarrow> distinct (as @ x # bs) \<Longrightarrow> order s l (as @ x # bs) = bs @ as @ [x]"
  by (simp add: order_def takeWhile_append dropWhile_append)

lemma ring_index_cases:
  assumes "ring s l xs"
  obtains (end_marker) "pxIndex (lists s l) = ListEnd l"
  | (at) as x bs where "pxIndex (lists s l) = Item x" "xs = as @ x # bs"
proof -
  have "pxIndex (lists s l) = ListEnd l \<or> (\<exists>x\<in>set xs. pxIndex (lists s l) = Item x)"
    using assms by (auto simp: ring_def)
  then show ?thesis using that by (metis split_list)
qed

lemma set_order:
  assumes "ring s l xs"
  shows "set (order s l xs) = set xs" "distinct (order s l xs)"
proof -
  have d: "distinct xs" using assms by (simp add: ring_def)
  show "set (order s l xs) = set xs" "distinct (order s l xs)"
    using assms by (cases rule: ring_index_cases; use d in \<open>auto simp: order_End order_Item\<close>)+
qed

lemma set_index_index: "pxIndex (lists (set_index l p s) l) = p"
  by (simp add: store_simps)

lemma order_set_index:
  assumes r: "ring s l xs" and o: "order s l xs = y # ys"
  shows "order (set_index l (Item y) s) l xs = ys @ [y]"
proof -
  have d: "distinct xs" using r by (simp add: ring_def)
  obtain as bs where "xs = as @ y # bs" "ys = bs @ as"
    using r
  proof (cases rule: ring_index_cases)
    case end_marker
    with o that[of "[]" ys] show ?thesis by (simp add: order_End)
  next
    case (at as x bs)
    then have o': "bs @ as @ [x] = y # ys" using o d by (simp add: order_Item)
    show ?thesis
    proof (cases bs)
      case Nil
      then show ?thesis using that[of "[]" ys] o' at(2) by simp
    next
      case (Cons b bs')
      then show ?thesis using that[of "as @ [x]" bs'] o' at(2) by simp
    qed
  qed
  then show ?thesis
    using d order_Item[of "set_index l (Item y) s" l y as bs] by (simp add: set_index_index)
qed

lemma order_next:
  assumes r: "ring s l xs" and o: "order s l xs = y # ys"
  shows "get_next s (pxIndex (lists s l)) = Item y \<or>
     get_next s (pxIndex (lists s l)) = ListEnd l \<and> get_next s (ListEnd l) = Item y"
proof -
  have d: "distinct xs" using r by (simp add: ring_def)
  have ne: "get_next s (ListEnd l) = hd (map Item xs @ [ListEnd l])"
    using ring_neighbours(1)[of s l "[]" xs] r by simp
  show ?thesis using r
  proof (cases rule: ring_index_cases)
    case end_marker
    with o ne show ?thesis by (simp add: order_End)
  next
    case (at as x bs)
    then have "bs @ as @ [x] = y # ys" using o d by (simp add: order_Item)
    moreover have "get_next s (Item x) = hd (map Item bs @ [ListEnd l])"
      using ring_neighbours(1)[of s l "as @ [x]" bs] r at(2) by simp
    ultimately show ?thesis using ne at by (cases bs; cases as) auto
  qed
qed

lemma next_entry_index:
  assumes r: "ring s l xs" and o: "order s l xs = y # ys"
  shows "listGET_OWNER_OF_NEXT_ENTRY l s = (Some (pvOwner (items s y)), set_index l (Item y) s)"
proof -
  have twice: "set_index l p (set_index l q s) = set_index l p s" for p q
    by (simp add: set_index_def upd_list_def)
  have own: "get_owner (set_index l (Item y) s) (Item y) = Some (pvOwner (items s y))"
    by (simp add: set_index_def upd_list_def)
  show ?thesis
    using order_next[OF r o] by (auto simp: listGET_OWNER_OF_NEXT_ENTRY_def Let_def store_simps twice own)
qed

lemma set_index_ring:
  assumes "ring s l xs" "y \<in> set xs"
  shows "ring (set_index l (Item y) s) l xs"
proof -
  have "chain (set_index l (Item y) s) ps = chain s ps" for ps
    by (rule chain_cong) (auto simp: store_simps)
  with assms show ?thesis by (simp add: ring_def store_simps)
qed

lemma set_index_other_ring: "ring s k zs \<Longrightarrow> k \<noteq> l \<Longrightarrow> ring (set_index l p s) k zs"
  by (subst ring_cong[where s = s]) (auto simp: store_simps)

lemma vListInsertEnd_spec:
  assumes "ring s l xs" and "i \<notin> set xs"
  obtains us vs where "xs = us @ vs" "pxIndex (lists s l) = hd (map Item vs @ [ListEnd l])"
    "inserted l (last (ListEnd l # map Item us)) (hd (map Item vs @ [ListEnd l])) i s (vListInsertEnd l i s)"
proof -
  obtain us vs where uv: "xs = us @ vs" "pxIndex (lists s l) = hd (map Item vs @ [ListEnd l])"
    using assms(1)
  proof (cases rule: ring_index_cases)
    case end_marker with that[of xs "[]"] show ?thesis by simp
  next
    case (at as x bs) with that[of as "x # bs"] show ?thesis by simp
  qed
  have r: "ring s l (us @ vs)" using assms(1) uv(1) by simp
  have ne: "pxIndex (lists s l) \<noteq> Item i" using assms(2) uv by (cases vs) auto
  have "get_prev s (pxIndex (lists s l)) = last (ListEnd l # map Item us)"
    unfolding uv(2) by (rule ring_neighbours(2)[OF r])
  then show ?thesis using vListInsertEnd_inserted[OF ne] uv that by simp
qed

lemma uxListRemove_spec:
  assumes "ring s l xs" and "i \<in> set xs"
  obtains t us vs where "uxListRemove i s = Some (of_nat (length xs - 1), t)" "xs = us @ i # vs"
    "remove1 i xs = us @ vs" "removed l i s t"
proof -
  obtain us vs where xs: "xs = us @ i # vs" using assms(2) by (meson split_list)
  have d: "distinct (us @ i # vs)" using assms(1) xs by (simp add: ring_def)
  then have rm: "remove1 i xs = us @ vs" using xs by (simp add: remove1_append)
  have r: "ring s l (us @ i # vs)" using assms(1) xs by simp
  have c: "pxContainer (items s i) = Some l" using r by (simp add: ring_def)
  have n: "get_next s (Item i) = hd (map Item vs @ [ListEnd l])"
    using ring_neighbours(1)[of s l "us @ [i]" vs] r by simp
  have n': "get_next s (Item i) \<noteq> Item i" using n d by (cases vs) auto
  have p: "get_prev s (Item i) \<noteq> Item i"
    using ring_neighbours(2)[OF r] d by (cases us rule: rev_cases) auto
  obtain t where t: "uxListRemove i s = Some (uxNumberOfItems (lists s l) - 1, t)" "removed l i s t"
    using uxListRemove_removed[OF c n' p] by blast
  have "uxNumberOfItems (lists s l) - 1 = of_nat (length xs - 1)"
    using assms(1) xs by (simp add: ring_def)
  with t xs rm show ?thesis by (intro that) auto
qed

text \<open>The inline versions do what the functions do.\<close>

lemma listREMOVE_ITEM_eq: "listREMOVE_ITEM i s = map_option snd (uxListRemove i s)"
  by (simp add: listREMOVE_ITEM_def uxListRemove_def Let_def split: option.split)

lemma listINSERT_END_eq: "listINSERT_END l i s = vListInsertEnd l i s"
  by (simp add: listINSERT_END_def vListInsertEnd_def Let_def)

subsection \<open>Contracts of the operations\<close>

lemma vListInitialise_ring:
  "ring (vListInitialise l s) l []"
  by (simp add: ring_def vListInitialise_def Let_def store_simps ptr_simps set_index_def upd_list_def)

text \<open>C17. Sorted insertion: on a list sorted by item value, \<^verbatim>\<open>vListInsert\<close> ends, puts the item
  after every item whose value is not greater, keeps the list sorted and touches no other list
  and no item value.\<close>

theorem vListInsert_sorted:
  assumes "ring s l xs" and "sorted (map (val s) xs)" and "pxContainer (items s i) = None"
    and "length xs < 2 ^ 32 - 1"
  shows "\<exists>t. vListInsert l i s = Some t \<and> ring t l (insort_after s i xs) \<and>
     sorted (map (val t) (insort_after s i xs)) \<and> val t = val s \<and>
     (\<forall>k ys. k \<noteq> l \<longrightarrow> ring s k ys \<longrightarrow> ring t k ys)"
proof -
  have fresh: "i \<notin> set ys" if "ring s k ys" for k ys
    using assms(3) that by (auto simp: ring_def)
  obtain t us vs where t: "vListInsert l i s = Some t" "xs = us @ vs"
      "insort_after s i xs = us @ i # vs"
      "inserted l (last (ListEnd l # map Item us)) (hd (map Item vs @ [ListEnd l])) i s t"
    using vListInsert_spec[OF assms(1) fresh[OF assms(1)] assms(4)] by blast
  have v: "get_value t = get_value s" using t(4) by (simp add: inserted_def)
  have "ring t l (us @ i # vs)"
    using inserted_ring[OF _ _ _ t(4)] assms(1,4) fresh t(2) by blast
  moreover have "ring t k ys" if "k \<noteq> l" "ring s k ys" for k ys
    using inserted_other_ring[OF _ that(2,1) fresh[OF that(2)] t(4)] assms(1) t(2) by simp
  ultimately show ?thesis
    using t(1,3) insort_after_sorted[OF assms(2), of i] v by simp
qed

text \<open>\<^verbatim>\<open>vListInsertEnd\<close> adds the item in front of the index, so that it is served after every
  item that is now on the list, the item at the index apart, and leaves every other list alone.\<close>

theorem vListInsertEnd_order:
  assumes "ring s l xs" and "pxContainer (items s i) = None" and "length xs < 2 ^ 32 - 1"
  shows "\<exists>zs. ring (vListInsertEnd l i s) l zs \<and> set zs = insert i (set xs) \<and>
     order (vListInsertEnd l i s) l zs =
       (if pxIndex (lists s l) = ListEnd l then order s l xs @ [i]
        else butlast (order s l xs) @ [i, last (order s l xs)]) \<and>
     (\<forall>k ys. k \<noteq> l \<longrightarrow> ring s k ys \<longrightarrow> ring (vListInsertEnd l i s) k ys)"
  (is "\<exists>zs. ?P zs")
proof -
  let ?t = "vListInsertEnd l i s"
  have fresh: "i \<notin> set ys" if "ring s k ys" for k ys
    using assms(2) that by (auto simp: ring_def)
  have d: "distinct xs" using assms(1) by (simp add: ring_def)
  obtain us vs where uv: "xs = us @ vs" "pxIndex (lists s l) = hd (map Item vs @ [ListEnd l])"
      and ins: "inserted l (last (ListEnd l # map Item us)) (hd (map Item vs @ [ListEnd l])) i s ?t"
    by (rule vListInsertEnd_spec[OF assms(1) fresh[OF assms(1)]])
  have r: "ring s l (us @ vs)" using assms(1) uv(1) by simp
  have idx: "pxIndex (lists ?t l) = pxIndex (lists s l)" using ins by (simp add: inserted_def)
  have "ring ?t l (us @ i # vs)" using inserted_ring[OF r fresh[OF r] _ ins] assms(3) uv(1) by simp
  moreover have "ring ?t k ys" if "k \<noteq> l" "ring s k ys" for k ys
    using inserted_other_ring[OF r that(2,1) fresh[OF that(2)] ins] .
  moreover have "order ?t l (us @ i # vs) =
       (if pxIndex (lists s l) = ListEnd l then order s l xs @ [i]
        else butlast (order s l xs) @ [i, last (order s l xs)])"
  proof (cases vs)
    case Nil
    then show ?thesis using uv idx by (simp add: order_End)
  next
    case (Cons x bs)
    then show ?thesis
      using uv idx d fresh[OF r] order_Item[of ?t l x "us @ [i]" bs] order_Item[of s l x us bs]
      by (simp add: butlast_append)
  qed
  ultimately have "?P (us @ i # vs)" using uv(1) by auto
  then show ?thesis ..
qed

lemma removed_order:
  assumes "ring s l (us @ i # vs)" and "removed l i s t"
  shows "order t l (us @ vs) = remove1 i (order s l (us @ i # vs))"
proof -
  have d: "distinct (us @ i # vs)" using assms(1) by (simp add: ring_def)
  have p: "get_prev s (Item i) = last (ListEnd l # map Item us)"
    using ring_neighbours(2)[OF assms(1)] by simp
  have idx: "pxIndex (lists t l) = (if pxIndex (lists s l) = Item i
      then last (ListEnd l # map Item us) else pxIndex (lists s l))"
    using assms(2) p by (simp add: removed_def)
  show ?thesis using assms(1)
  proof (cases rule: ring_index_cases)
    case end_marker
    with idx d show ?thesis by (simp add: order_End remove1_append)
  next
    case (at as x bs)
    then consider "x = i" | "x \<in> set us" "x \<noteq> i" | "x \<in> set vs" "x \<noteq> i" 
      by (metis UnE in_set_conv_decomp set_ConsD set_append)
    then show ?thesis
    proof cases
      case 1
      then show ?thesis using at(1) idx d order_Item[OF at(1)[unfolded 1] d]
        by (cases us rule: rev_cases) (auto simp: order_End order_Item remove1_append)
    next
      case 2
      then obtain a b where us: "us = a @ x # b" by (meson split_list)
      then show ?thesis
        using at(1) idx d 2 order_Item[of s l x a "b @ i # vs"] order_Item[of t l x a "b @ vs"]
        by (auto simp: remove1_append)
    next
      case 3
      then obtain a b where vs: "vs = a @ x # b" by (meson split_list)
      then show ?thesis
        using at(1) idx d 3 order_Item[of s l x "us @ i # a" b] order_Item[of t l x "us @ a" b]
        by (auto simp: remove1_append)
    qed
  qed
qed

text \<open>\<^verbatim>\<open>uxListRemove\<close> takes exactly the item out, returns the number of items left, keeps
  the serving order of the others even when it removes the item at the index, and leaves every
  other list alone.\<close>

theorem uxListRemove_order:
  assumes "ring s l xs" and "i \<in> set xs"
  shows "\<exists>t. uxListRemove i s = Some (of_nat (length xs - 1), t) \<and> ring t l (remove1 i xs) \<and>
     order t l (remove1 i xs) = remove1 i (order s l xs) \<and> pxContainer (items t i) = None \<and>
     (\<forall>k ys. k \<noteq> l \<longrightarrow> ring s k ys \<longrightarrow> ring t k ys)"
proof -
  obtain t us vs where t: "uxListRemove i s = Some (of_nat (length xs - 1), t)" "xs = us @ i # vs"
      "remove1 i xs = us @ vs" "removed l i s t"
    by (rule uxListRemove_spec[OF assms])
  have r: "ring s l (us @ i # vs)" using assms(1) t(2) by simp
  have "ring u k ys" if "k \<noteq> l" "ring s k ys" "removed l i s u" for u k ys
    by (rule removed_other_ring[OF r that(2,1,3)])
  moreover have "pxContainer (items t i) = None" using t(4) by (simp add: removed_def)
  ultimately show ?thesis
    using t removed_ring[OF r t(4)] removed_order[OF r t(4)] by auto
qed

text \<open>The list provides the round robin contract to the scheduler.\<close>

interpretation rr: round_robin "listGET_OWNER_OF_NEXT_ENTRY l"
  "\<lambda>s ys. \<exists>xs. ring s l xs \<and> order s l xs = ys" "\<lambda>s i. Some (pvOwner (items s i))" for l
proof unfold_locales
  fix s y ys
  assume "\<exists>xs. ring s l xs \<and> order s l xs = y # ys"
  then obtain xs where xs: "ring s l xs" "order s l xs = y # ys" by blast
  then have "y \<in> set xs" using set_order(1)[of s l xs] by auto
  then have "ring (set_index l (Item y) s) l xs" using set_index_ring xs(1) by blast
  moreover have "pvOwner (items (set_index l (Item y) s) z) = pvOwner (items s z)" for z
    by (simp add: set_index_def upd_list_def)
  ultimately show "\<exists>t. listGET_OWNER_OF_NEXT_ENTRY l s = (Some (pvOwner (items s y)), t) \<and>
      (\<exists>xs. ring t l xs \<and> order t l xs = ys @ [y]) \<and>
      (\<forall>z. Some (pvOwner (items t z)) = Some (pvOwner (items s z)))"
    using next_entry_index[OF xs] order_set_index[OF xs] by auto
qed

text \<open>Fairness: as many calls of \<^verbatim>\<open>listGET_OWNER_OF_NEXT_ENTRY\<close> as the list has items
  return the owner of every item exactly once, in the serving order.\<close>

theorem next_entry_full_turn:
  assumes "ring s l xs"
  shows "fst (run_n (listGET_OWNER_OF_NEXT_ENTRY l) (length xs) s) =
    map (\<lambda>i. Some (pvOwner (items s i))) (order s l xs)"
proof -
  have "length (order s l xs) = length xs"
    using assms set_order[OF assms] distinct_card by (metis ring_def)
  then show ?thesis using rr.full_turn[where s = s and l = l and ys = "order s l xs"] assms by fastforce
qed


subsection \<open>Witnesses\<close>

text \<open>List 0 holds items 5 and 6 (values 10 and 20); item 7 (value 10) is on no list.\<close>

definition ex_list :: list_store where
  "ex_list = \<lparr>
     items = (\<lambda>i. \<lparr>xItemValue = 10, pxNext = Item i, pxPrevious = Item i, pvOwner = 100 + i,
                  pxContainer = None\<rparr>)
       (5 := \<lparr>xItemValue = 10, pxNext = Item 6, pxPrevious = ListEnd 0, pvOwner = 105, pxContainer = Some 0\<rparr>,
        6 := \<lparr>xItemValue = 20, pxNext = ListEnd 0, pxPrevious = Item 5, pvOwner = 106, pxContainer = Some 0\<rparr>),
     lists = (\<lambda>l. \<lparr>uxNumberOfItems = 2, pxIndex = Item 5,
       xListEnd = \<lparr>mini_xItemValue = portMAX_DELAY, mini_pxNext = Item 5, mini_pxPrevious = Item 6\<rparr>\<rparr>)\<rparr>"

lemma ex_list_ring: "ring ex_list 0 [5, 6]"
  by (simp add: ring_def ex_list_def ptr_simps)

lemma ex_list_order: "order ex_list 0 [5, 6] = [6, 5]"
  by (simp add: order_def ex_list_def)

theorem vListInsert_sorted_witness:
  "\<exists>t. vListInsert 0 7 ex_list = Some t \<and> ring t 0 [5, 7, 6]"
proof -
  have "insort_after ex_list 7 [5, 6] = [5, 7, 6]"
    by (simp add: insort_after_def ex_list_def ptr_simps)
  moreover have "sorted (map (val ex_list) [5, 6])" "pxContainer (items ex_list 7) = None"
    by (simp_all add: ex_list_def ptr_simps)
  ultimately show ?thesis using vListInsert_sorted[OF ex_list_ring, of 7] by auto
qed

theorem vListInsertEnd_order_witness:
  "\<exists>zs. ring (vListInsertEnd 0 7 ex_list) 0 zs \<and> order (vListInsertEnd 0 7 ex_list) 0 zs = [6, 7, 5]"
proof -
  have "pxContainer (items ex_list 7) = None" "pxIndex (lists ex_list 0) \<noteq> ListEnd 0"
    by (simp_all add: ex_list_def)
  then show ?thesis using vListInsertEnd_order[OF ex_list_ring, of 7] ex_list_order by auto
qed

theorem uxListRemove_order_witness:
  "\<exists>t. uxListRemove 5 ex_list = Some (1, t) \<and> ring t 0 [6] \<and> order t 0 [6] = [6]"
proof -
  have "remove1 5 [5, 6 :: nat] = [6]" "of_nat (length [5, 6 :: nat] - 1) = (1 :: 32 word)"
    "remove1 5 [6, 5 :: nat] = [6]" by simp_all
  then show ?thesis using uxListRemove_order[OF ex_list_ring, of 5] unfolding ex_list_order by auto
qed

theorem next_entry_full_turn_witness:
  "fst (run_n (listGET_OWNER_OF_NEXT_ENTRY 0) (length [5, 6 :: nat]) ex_list) = [Some 106, Some 105]"
  unfolding next_entry_full_turn[OF ex_list_ring] ex_list_order by (simp add: ex_list_def)

end
