(* ===== verification/Heap4.thy ===== *)
theory Heap4
  imports Prelude
begin

section \<open>The FreeRTOS heap (portable/MemMang/heap\_4.c)\<close>

text \<open>
  \<^verbatim>\<open>pvPortMalloc\<close>, \<^verbatim>\<open>vPortFree\<close> and their helpers over a byte memory. The block headers
  (\<^verbatim>\<open>BlockLink_t\<close>: next pointer, then size) live in that memory in front of the payload they
  describe, as in the C code, so that a stray write could destroy them. The memory holds the
  array \<^verbatim>\<open>ucHeap\<close> and the list head \<^verbatim>\<open>xStart\<close>; where the linker puts the two is part of the
  state. The configuration is the one of \<^verbatim>\<open>FreeRTOSConfig.h\<close>: 1 MiB of heap, 8-byte alignment,
  payload cleared on free. \<^verbatim>\<open>configASSERT\<close> prints and goes on there, so it has no effect on the
  state. The bodies run between \<^verbatim>\<open>vTaskSuspendAll\<close> and \<^verbatim>\<open>xTaskResumeAll\<close> and are modelled as
  one step. A search loop that would not end is \<open>None\<close>.
\<close>

subsection \<open>Constants and state\<close>

definition configTOTAL_HEAP_SIZE :: nat where
  "configTOTAL_HEAP_SIZE = 1024 * 1024"

definition portBYTE_ALIGNMENT :: nat where
  "portBYTE_ALIGNMENT = 8"

text \<open>\<^verbatim>\<open>sizeof(BlockLink_t)\<close> is 8, rounded up to the alignment.\<close>

definition xHeapStructSize :: nat where
  "xHeapStructSize = (8 + (portBYTE_ALIGNMENT - 1)) div 8 * 8"

definition heapMINIMUM_BLOCK_SIZE :: nat where
  "heapMINIMUM_BLOCK_SIZE = push_bit 1 xHeapStructSize"

definition heapSIZE_MAX :: nat where
  "heapSIZE_MAX = 2 ^ 32 - 1"

definition heapMULTIPLY_WILL_OVERFLOW :: "nat \<Rightarrow> nat \<Rightarrow> bool" where
  "heapMULTIPLY_WILL_OVERFLOW a b \<longleftrightarrow> a > 0 \<and> b > heapSIZE_MAX div a"

definition heapADD_WILL_OVERFLOW :: "nat \<Rightarrow> nat \<Rightarrow> bool" where
  "heapADD_WILL_OVERFLOW a b \<longleftrightarrow> a > heapSIZE_MAX - b"

text \<open>Bit 31 of a block's size says that the application owns the block.\<close>

definition heapBLOCK_SIZE_IS_VALID :: "nat \<Rightarrow> bool" where
  "heapBLOCK_SIZE_IS_VALID n \<longleftrightarrow> \<not> bit n 31"

definition heapALLOCATE_BLOCK :: "nat \<Rightarrow> nat" where
  "heapALLOCATE_BLOCK n = set_bit 31 n"

definition heapFREE_BLOCK :: "nat \<Rightarrow> nat" where
  "heapFREE_BLOCK n = unset_bit 31 n"

record heap4 =
  hmem :: bytes
  ucHeap_at :: nat
  xStart_at :: nat
  pxEnd :: nat
  xFreeBytesRemaining :: nat
  xMinimumEverFreeBytesRemaining :: nat
  xNumberOfSuccessfulAllocations :: nat
  xNumberOfSuccessfulFrees :: nat

text \<open>The fields of the \<^verbatim>\<open>BlockLink_t\<close> at an address. \<^verbatim>\<open>NULL\<close> is 0.\<close>

definition pxNextFreeBlock :: "bytes \<Rightarrow> nat \<Rightarrow> nat" where
  "pxNextFreeBlock m p = read32 m p"

definition xBlockSize :: "bytes \<Rightarrow> nat \<Rightarrow> nat" where
  "xBlockSize m p = read32 m (p + 4)"

definition set_pxNextFreeBlock :: "nat \<Rightarrow> nat \<Rightarrow> bytes \<Rightarrow> bytes" where
  "set_pxNextFreeBlock p v m = write32 p v m"

definition set_xBlockSize :: "nat \<Rightarrow> nat \<Rightarrow> bytes \<Rightarrow> bytes" where
  "set_xBlockSize p v m = write32 (p + 4) v m"

definition memset0 :: "nat \<Rightarrow> nat \<Rightarrow> bytes \<Rightarrow> bytes" where
  "memset0 a n m = (\<lambda>x. if a \<le> x \<and> x < a + n then 0 else m x)"

subsection \<open>prvInsertBlockIntoFreeList\<close>

partial_function (option) free_scan :: "bytes \<Rightarrow> nat \<Rightarrow> nat \<Rightarrow> nat option" where
  "free_scan m b it =
     (if pxNextFreeBlock m it < b then free_scan m b (pxNextFreeBlock m it) else Some it)"

definition prvInsertBlockIntoFreeList :: "nat \<Rightarrow> nat \<Rightarrow> nat \<Rightarrow> bytes \<Rightarrow> bytes option" where
  "prvInsertBlockIntoFreeList xStart pEnd blk m =
     (case free_scan m blk xStart of
        None \<Rightarrow> None
      | Some it \<Rightarrow>
          (let (m1, b1) =
             (if add32 it (xBlockSize m it) = blk
              then (set_xBlockSize it (add32 (xBlockSize m it) (xBlockSize m blk)) m, it)
              else (m, blk));
               m2 =
             (if add32 b1 (xBlockSize m1 b1) = pxNextFreeBlock m1 it
              then if pxNextFreeBlock m1 it \<noteq> pEnd
                   then (let m1' = set_xBlockSize b1
                               (add32 (xBlockSize m1 b1) (xBlockSize m1 (pxNextFreeBlock m1 it))) m1
                         in set_pxNextFreeBlock b1
                              (pxNextFreeBlock m1' (pxNextFreeBlock m1' it)) m1')
                   else set_pxNextFreeBlock b1 pEnd m1
              else set_pxNextFreeBlock b1 (pxNextFreeBlock m1 it) m1)
           in Some (if it \<noteq> b1 then set_pxNextFreeBlock it b1 m2 else m2)))"

subsection \<open>prvHeapInit\<close>

definition prvHeapInit :: "heap4 \<Rightarrow> heap4" where
  "prvHeapInit s =
     (let xTotalHeapSize = configTOTAL_HEAP_SIZE;
          uxAddress = ucHeap_at s;
          (uxAddress, xTotalHeapSize) =
            (if uxAddress mod 8 \<noteq> 0
             then (let a = add32 uxAddress (portBYTE_ALIGNMENT - 1) div 8 * 8
                   in (a, sub32 xTotalHeapSize (sub32 a (ucHeap_at s))))
             else (uxAddress, xTotalHeapSize));
          pucAlignedHeap = uxAddress;
          m1 = set_pxNextFreeBlock (xStart_at s) pucAlignedHeap (hmem s);
          m2 = set_xBlockSize (xStart_at s) 0 m1;
          uxAddress = sub32 (add32 pucAlignedHeap xTotalHeapSize) xHeapStructSize div 8 * 8;
          pEnd = uxAddress;
          m3 = set_xBlockSize pEnd 0 m2;
          m4 = set_pxNextFreeBlock pEnd 0 m3;
          m5 = set_xBlockSize pucAlignedHeap (sub32 uxAddress pucAlignedHeap) m4;
          m6 = set_pxNextFreeBlock pucAlignedHeap pEnd m5
      in s\<lparr>hmem := m6, pxEnd := pEnd,
            xMinimumEverFreeBytesRemaining := xBlockSize m6 pucAlignedHeap,
            xFreeBytesRemaining := xBlockSize m6 pucAlignedHeap\<rparr>)"

subsection \<open>pvPortMalloc\<close>

partial_function (option) malloc_scan :: "bytes \<Rightarrow> nat \<Rightarrow> nat \<Rightarrow> nat \<Rightarrow> (nat \<times> nat) option" where
  "malloc_scan m w prev blk =
     (if xBlockSize m blk < w \<and> pxNextFreeBlock m blk \<noteq> 0
      then malloc_scan m w blk (pxNextFreeBlock m blk) else Some (prev, blk))"

text \<open>The size that is asked of the free list: header and alignment added, 0 on overflow.\<close>

definition adjust_size :: "nat \<Rightarrow> nat" where
  "adjust_size w =
     (if w > 0
      then (let add = xHeapStructSize + portBYTE_ALIGNMENT - w mod 8
            in if \<not> heapADD_WILL_OVERFLOW w add then w + add else 0)
      else w)"

text \<open>The part of \<^verbatim>\<open>pvPortMalloc\<close> that runs once a block was found.\<close>

definition take_block :: "nat \<Rightarrow> nat \<Rightarrow> nat \<Rightarrow> heap4 \<Rightarrow> (nat \<times> heap4) option" where
  "take_block w prev blk s =
     (let pvReturn = add32 (pxNextFreeBlock (hmem s) prev) xHeapStructSize;
          m1 = set_pxNextFreeBlock prev (pxNextFreeBlock (hmem s) blk) (hmem s);
          split =
            (if sub32 (xBlockSize m1 blk) w > heapMINIMUM_BLOCK_SIZE
             then (let new = add32 blk w;
                       m2 = set_xBlockSize new (sub32 (xBlockSize m1 blk) w) m1;
                       m3 = set_xBlockSize blk w m2
                   in prvInsertBlockIntoFreeList (xStart_at s) (pxEnd s) new m3)
             else Some m1)
      in case split of
           None \<Rightarrow> None
         | Some m4 \<Rightarrow>
             (let free = sub32 (xFreeBytesRemaining s) (xBlockSize m4 blk);
                  mn = (if free < xMinimumEverFreeBytesRemaining s then free
                        else xMinimumEverFreeBytesRemaining s);
                  m5 = set_xBlockSize blk (heapALLOCATE_BLOCK (xBlockSize m4 blk)) m4;
                  m6 = set_pxNextFreeBlock blk 0 m5
              in Some (pvReturn,
                   s\<lparr>hmem := m6, xFreeBytesRemaining := free,
                     xMinimumEverFreeBytesRemaining := mn,
                     xNumberOfSuccessfulAllocations :=
                       (xNumberOfSuccessfulAllocations s + 1) mod 2 ^ 32\<rparr>)))"

definition pvPortMalloc :: "nat \<Rightarrow> heap4 \<Rightarrow> (nat \<times> heap4) option" where
  "pvPortMalloc xWantedSize s0 =
     (let s = (if pxEnd s0 = 0 then prvHeapInit s0 else s0);
          w = adjust_size xWantedSize
      in if heapBLOCK_SIZE_IS_VALID w \<and> w > 0 \<and> w \<le> xFreeBytesRemaining s
         then case malloc_scan (hmem s) w (xStart_at s) (pxNextFreeBlock (hmem s) (xStart_at s)) of
                None \<Rightarrow> None
              | Some (prev, blk) \<Rightarrow>
                  if blk \<noteq> pxEnd s then take_block w prev blk s else Some (0, s)
         else Some (0, s))"

subsection \<open>vPortFree, pvPortCalloc and the queries\<close>

definition vPortFree :: "nat \<Rightarrow> heap4 \<Rightarrow> heap4 option" where
  "vPortFree pv s =
     (if pv \<noteq> 0
      then (let link = sub32 pv xHeapStructSize; m = hmem s
            in if bit (xBlockSize m link) 31 \<and> pxNextFreeBlock m link = 0
               then (let m1 = set_xBlockSize link (heapFREE_BLOCK (xBlockSize m link)) m;
                         m2 = memset0 (add32 link xHeapStructSize)
                                (sub32 (xBlockSize m1 link) xHeapStructSize) m1;
                         free = add32 (xFreeBytesRemaining s) (xBlockSize m2 link)
                     in case prvInsertBlockIntoFreeList (xStart_at s) (pxEnd s) link m2 of
                          None \<Rightarrow> None
                        | Some m3 \<Rightarrow>
                            Some (s\<lparr>hmem := m3, xFreeBytesRemaining := free,
                                    xNumberOfSuccessfulFrees :=
                                      (xNumberOfSuccessfulFrees s + 1) mod 2 ^ 32\<rparr>))
               else Some s)
      else Some s)"

definition pvPortCalloc :: "nat \<Rightarrow> nat \<Rightarrow> heap4 \<Rightarrow> (nat \<times> heap4) option" where
  "pvPortCalloc xNum xSize s =
     (if \<not> heapMULTIPLY_WILL_OVERFLOW xNum xSize
      then case pvPortMalloc (xNum * xSize) s of
             None \<Rightarrow> None
           | Some (pv, t) \<Rightarrow>
               Some (pv, if pv \<noteq> 0 then t\<lparr>hmem := memset0 pv (xNum * xSize) (hmem t)\<rparr> else t)
      else Some (0, s))"

definition xPortGetFreeHeapSize :: "heap4 \<Rightarrow> nat" where
  "xPortGetFreeHeapSize s = xFreeBytesRemaining s"

definition xPortGetMinimumEverFreeHeapSize :: "heap4 \<Rightarrow> nat" where
  "xPortGetMinimumEverFreeHeapSize s = xMinimumEverFreeBytesRemaining s"

record HeapStats_t =
  xAvailableHeapSpaceInBytes :: nat
  xSizeOfLargestFreeBlockInBytes :: nat
  xSizeOfSmallestFreeBlockInBytes :: nat
  xNumberOfFreeBlocks :: nat
  st_xMinimumEverFreeBytesRemaining :: nat
  st_xNumberOfSuccessfulAllocations :: nat
  st_xNumberOfSuccessfulFrees :: nat

partial_function (option) stats_scan ::
    "bytes \<Rightarrow> nat \<Rightarrow> nat \<Rightarrow> nat \<times> nat \<times> nat \<Rightarrow> (nat \<times> nat \<times> nat) option" where
  "stats_scan m pEnd blk acc =
     (if blk \<noteq> pEnd
      then (case acc of (xBlocks, xMaxSize, xMinSize) \<Rightarrow>
              stats_scan m pEnd (pxNextFreeBlock m blk)
                (xBlocks + 1, if xBlockSize m blk > xMaxSize then xBlockSize m blk else xMaxSize,
                 if xBlockSize m blk < xMinSize then xBlockSize m blk else xMinSize))
      else Some acc)"

definition vPortGetHeapStats :: "heap4 \<Rightarrow> HeapStats_t option" where
  "vPortGetHeapStats s =
     (let blk = pxNextFreeBlock (hmem s) (xStart_at s);
          init = (0, 0, 0xffffffff)
      in case (if blk \<noteq> 0 then stats_scan (hmem s) (pxEnd s) blk init else Some init) of
           None \<Rightarrow> None
         | Some (xBlocks, xMaxSize, xMinSize) \<Rightarrow>
             Some \<lparr>xAvailableHeapSpaceInBytes = xFreeBytesRemaining s,
               xSizeOfLargestFreeBlockInBytes = xMaxSize,
               xSizeOfSmallestFreeBlockInBytes = xMinSize,
               xNumberOfFreeBlocks = xBlocks,
               st_xMinimumEverFreeBytesRemaining = xMinimumEverFreeBytesRemaining s,
               st_xNumberOfSuccessfulAllocations = xNumberOfSuccessfulAllocations s,
               st_xNumberOfSuccessfulFrees = xNumberOfSuccessfulFrees s\<rparr>)"

end
