(* ===== verification/Heap4_Shape.thy ===== *)
theory Heap4_Shape
  imports Heap4
begin

section \<open>The shape of the heap\_4 heap\<close>

text \<open>
  The heap as a list of blocks (address, size, kind) that tiles the array between its aligned base
  and \<^verbatim>\<open>pxEnd\<close>, the singly linked list of the free ones in address order, and what each step of
  malloc and free does to it: insertion with coalescing, unlinking, splitting, marking and
  releasing. A \<open>Limbo\<close> block is one that a call in progress has taken off the free list and not
  handed out yet.
\<close>

subsection \<open>Field accesses\<close>

lemmas heap_consts = configTOTAL_HEAP_SIZE_def portBYTE_ALIGNMENT_def xHeapStructSize_def
  heapMINIMUM_BLOCK_SIZE_def heapSIZE_MAX_def

lemma xHeapStructSize_8 [simp]: "xHeapStructSize = 8"
  by (simp add: heap_consts)

lemma heapMINIMUM_BLOCK_SIZE_16 [simp]: "heapMINIMUM_BLOCK_SIZE = 16"
  by (simp add: heapMINIMUM_BLOCK_SIZE_def push_bit_eq_mult)

definition apart :: "nat \<Rightarrow> nat \<Rightarrow> bool" where
  "apart p q \<longleftrightarrow> p + 8 \<le> q \<or> q + 8 \<le> p"

lemma fields_same:
  "pxNextFreeBlock (set_pxNextFreeBlock p v m) p = v mod 2 ^ 32"
  "xBlockSize (set_xBlockSize p v m) p = v mod 2 ^ 32"
  "pxNextFreeBlock (set_xBlockSize p v m) p = pxNextFreeBlock m p"
  "xBlockSize (set_pxNextFreeBlock p v m) p = xBlockSize m p"
  by (simp_all add: pxNextFreeBlock_def xBlockSize_def set_pxNextFreeBlock_def set_xBlockSize_def
      read32_write32_same read32_write32_other)

lemma fields_apart:
  assumes "apart p q"
  shows "pxNextFreeBlock (set_pxNextFreeBlock p v m) q = pxNextFreeBlock m q"
    "xBlockSize (set_xBlockSize p v m) q = xBlockSize m q"
    "pxNextFreeBlock (set_xBlockSize p v m) q = pxNextFreeBlock m q"
    "xBlockSize (set_pxNextFreeBlock p v m) q = xBlockSize m q"
  using assms by (auto simp: apart_def pxNextFreeBlock_def xBlockSize_def set_pxNextFreeBlock_def
      set_xBlockSize_def read32_write32_other)

lemma fields_bound: "pxNextFreeBlock m p < 2 ^ 32" "xBlockSize m p < 2 ^ 32"
  using read32_bound by (simp_all add: pxNextFreeBlock_def xBlockSize_def)

lemma set_fields_outside:
  "x < p \<or> p + 8 \<le> x \<Longrightarrow> set_pxNextFreeBlock p v m x = m x"
  "x < p \<or> p + 8 \<le> x \<Longrightarrow> set_xBlockSize p v m x = m x"
  by (auto simp: set_pxNextFreeBlock_def set_xBlockSize_def write32_outside)

lemma valid_size: "n < 2 ^ 31 \<Longrightarrow> heapBLOCK_SIZE_IS_VALID n"
  by (simp add: heapBLOCK_SIZE_IS_VALID_def bit_iff_odd)

lemma allocate_bit: "n < 2 ^ 31 \<Longrightarrow> heapALLOCATE_BLOCK n = n + 2 ^ 31"
  by (simp add: heapALLOCATE_BLOCK_def set_bit_eq bit_iff_odd)

lemma allocated_bit: "n < 2 ^ 31 \<Longrightarrow> bit (n + 2 ^ 31 :: nat) 31"
  by (simp add: bit_iff_odd div_add_self2)

lemma free_bit:
  assumes "n < 2 ^ 31"
  shows "heapFREE_BLOCK (n + 2 ^ 31) = n"
proof -
  have "\<not> bit n 31" using valid_size[OF assms] by (simp add: heapBLOCK_SIZE_IS_VALID_def)
  then have "unset_bit 31 (set_bit 31 n) = n" by (intro bit_eqI) (auto simp: bit_simps)
  then show ?thesis using allocate_bit[OF assms] by (simp add: heapFREE_BLOCK_def heapALLOCATE_BLOCK_def)
qed

subsection \<open>Tilings\<close>

datatype kind = Free | Used | Limbo

type_synonym block = "nat \<times> nat \<times> kind"

fun tiles :: "nat \<Rightarrow> block list \<Rightarrow> nat \<Rightarrow> bool" where
  "tiles a [] e \<longleftrightarrow> a = e"
| "tiles a ((p, n, k) # bs) e \<longleftrightarrow> p = a \<and> 16 \<le> n \<and> 8 dvd n \<and> tiles (a + n) bs e"

lemma tiles_append: "tiles a (xs @ ys) e \<longleftrightarrow> (\<exists>b. tiles a xs b \<and> tiles b ys e)"
  by (induction a xs e rule: tiles.induct) auto

lemma tiles_le: "tiles a bs e \<Longrightarrow> a \<le> e"
  by (induction a bs e rule: tiles.induct) auto

lemma tiles_mem: "tiles a bs e \<Longrightarrow> (p, n, k) \<in> set bs \<Longrightarrow> a \<le> p \<and> p + n \<le> e \<and> 16 \<le> n \<and> 8 dvd n"
  by (induction a bs e rule: tiles.induct) (auto dest: tiles_le)

lemma tiles_ordered:
  assumes "tiles a (xs @ (p, n, k) # ys) e"
  shows "(q, l, j) \<in> set xs \<Longrightarrow> q + l \<le> p" "(q, l, j) \<in> set ys \<Longrightarrow> p + n \<le> q"
  using assms by (auto simp: tiles_append dest: tiles_mem)

lemma tiles_apart:
  assumes "tiles a bs e" "p \<in> fst ` set bs" "q \<in> insert e (fst ` set bs)" "p \<noteq> q"
  shows "apart p q"
proof -
  obtain n k where p: "(p, n, k) \<in> set bs" using assms(2) by auto
  then obtain xs ys where bs: "bs = xs @ (p, n, k) # ys" by (meson split_list)
  show ?thesis
  proof (cases "q = e")
    case True
    then show ?thesis using tiles_mem[OF assms(1) p] by (auto simp: apart_def)
  next
    case False
    then obtain l j where "(q, l, j) \<in> set xs \<union> set ys" using assms(3,4) bs by fastforce
    then show ?thesis
      using tiles_ordered[of a xs p n k ys e q l j] assms(1) bs
        tiles_mem[OF assms(1) p] tiles_mem[OF assms(1), of q l j]
      by (auto simp: apart_def)
  qed
qed

definition frees :: "block list \<Rightarrow> nat list" where
  "frees bs = map fst (filter (\<lambda>(p, n, k). k = Free) bs)"

lemma frees_simps [simp]:
  "frees [] = []" "frees ((p, n, k) # bs) = (if k = Free then p # frees bs else frees bs)"
  "frees (xs @ ys) = frees xs @ frees ys"
  by (auto simp: frees_def)

lemma set_frees: "set (frees bs) \<subseteq> fst ` set bs"
  by (auto simp: frees_def)

subsection \<open>The free list\<close>

fun linked :: "bytes \<Rightarrow> nat list \<Rightarrow> bool" where
  "linked m (p # q # ps) \<longleftrightarrow> pxNextFreeBlock m p = q \<and> linked m (q # ps)"
| "linked m ps \<longleftrightarrow> True"

lemma linked_append: "linked m (xs @ p # ys) \<longleftrightarrow> linked m (xs @ [p]) \<and> linked m (p # ys)"
  by (induction m xs rule: linked.induct) auto

lemma linked_cong:
  "(\<And>p. p \<in> set (butlast ps) \<Longrightarrow> pxNextFreeBlock m' p = pxNextFreeBlock m p) \<Longrightarrow>
    linked m' ps = linked m ps"
  by (induction m ps rule: linked.induct) auto

lemma linked_split:
  assumes "linked m (xs @ ys)" "xs \<noteq> []" "ys \<noteq> []"
  shows "pxNextFreeBlock m (last xs) = hd ys" "linked m xs" "linked m ys"
proof -
  obtain x xs' where xs: "xs = xs' @ [x]" using assms(2) by (metis rev_exhaust)
  obtain y ys' where ys: "ys = y # ys'" using assms(3) by (cases ys) auto
  show "pxNextFreeBlock m (last xs) = hd ys" "linked m xs" "linked m ys"
    using assms(1) by (auto simp: xs ys linked_append[of m xs' x "y # ys'"])
qed

lemma linked_join:
  assumes "linked m xs" "linked m ys" "xs \<noteq> []" "ys \<noteq> []" "pxNextFreeBlock m (last xs) = hd ys"
  shows "linked m (xs @ ys)"
proof -
  obtain x xs' where xs: "xs = xs' @ [x]" using assms(3) by (metis rev_exhaust)
  obtain y ys' where ys: "ys = y # ys'" using assms(4) by (cases ys) auto
  show ?thesis using assms by (auto simp: xs ys linked_append[of m xs' x "y # ys'"])
qed

lemma free_scan_finds:
  assumes "linked m (c # fs @ gs)" "gs \<noteq> []" "\<forall>f\<in>set fs. f < b" "\<not> hd gs < b"
  shows "free_scan m b c = Some (last (c # fs))"
  using assms
proof (induction fs arbitrary: c)
  case Nil
  then have "pxNextFreeBlock m c = hd gs" using linked_split(1)[of m "[c]" gs] by simp
  then show ?case using Nil.prems by (subst free_scan.simps) simp
next
  case (Cons f fs)
  then show ?case by (subst free_scan.simps) auto
qed


subsection \<open>The shape of the heap\<close>

definition header_ok :: "bytes \<Rightarrow> block \<Rightarrow> bool" where
  "header_ok m b = (case b of (p, n, k) \<Rightarrow>
     xBlockSize m p = (if k = Used then n + 2 ^ 31 else n) \<and> (k = Used \<longrightarrow> pxNextFreeBlock m p = 0))"

definition heap_geom :: "nat \<Rightarrow> nat \<Rightarrow> nat \<Rightarrow> bool" where
  "heap_geom xst a e \<longleftrightarrow> 0 < a \<and> 8 dvd a \<and> a \<le> e \<and> e + 8 \<le> 2 ^ 32 \<and> e - a < 2 ^ 31 \<and>
     xst + 8 \<le> 2 ^ 32 \<and> (xst + 8 \<le> a \<or> e + 8 \<le> xst)"

definition heap_shape :: "bytes \<Rightarrow> nat \<Rightarrow> nat \<Rightarrow> nat \<Rightarrow> block list \<Rightarrow> bool" where
  "heap_shape m xst a e bs \<longleftrightarrow> heap_geom xst a e \<and> tiles a bs e \<and>
     linked m (xst # frees bs @ [e]) \<and> (\<forall>b\<in>set bs. header_ok m b) \<and>
     xBlockSize m xst = 0 \<and> xBlockSize m e = 0 \<and> pxNextFreeBlock m e = 0"

definition headers :: "nat \<Rightarrow> nat \<Rightarrow> block list \<Rightarrow> nat set" where
  "headers xst e bs = insert xst (insert e (fst ` set bs))"

lemma headers_apart:
  assumes "heap_geom xst a e" "tiles a bs e" "p \<in> headers xst e bs" "q \<in> headers xst e bs" "p \<noteq> q"
  shows "apart p q"
proof -
  have *: "apart xst r" if "r \<in> insert e (fst ` set bs)" for r
    using that assms(1) tiles_mem[OF assms(2)] by (fastforce simp: heap_geom_def apart_def)
  have sym: "apart r t \<Longrightarrow> apart t r" for r t by (auto simp: apart_def)
  consider "p = xst" | "q = xst" | "p \<in> fst ` set bs" "q \<in> insert e (fst ` set bs)"
    | "p = e" "q \<in> fst ` set bs"
    using assms(3,4,5) by (auto simp: headers_def)
  then show ?thesis
  proof cases
    case 1 then show ?thesis using * assms(4,5) by (auto simp: headers_def)
  next
    case 2 then show ?thesis using * assms(3,5) by (auto simp: headers_def intro: sym)
  next
    case 3 then show ?thesis using tiles_apart[OF assms(2)] assms(5) by blast
  next
    case 4 then show ?thesis using tiles_apart[OF assms(2), of q p] assms(5) by (auto intro: sym)
  qed
qed

text \<open>Reads after writes at header addresses.\<close>

lemma header_fields:
  assumes "heap_geom xst a e" "tiles a bs e" "p \<in> headers xst e bs" "q \<in> headers xst e bs"
  shows "pxNextFreeBlock (set_pxNextFreeBlock p v m) q =
           (if q = p then v mod 2 ^ 32 else pxNextFreeBlock m q)"
    "xBlockSize (set_xBlockSize p v m) q = (if q = p then v mod 2 ^ 32 else xBlockSize m q)"
    "pxNextFreeBlock (set_xBlockSize p v m) q = pxNextFreeBlock m q"
    "xBlockSize (set_pxNextFreeBlock p v m) q = xBlockSize m q"
  using headers_apart[OF assms] by (cases "q = p"; auto simp: fields_same fields_apart)+

text \<open>Where the free list enters and leaves the part of the heap below a block.\<close>

lemma insertion_point:
  assumes "heap_shape m xst a e (xs @ (p, n, Limbo) # ys)"
  shows "free_scan m p xst = Some (last (xst # frees xs))"
    and "pxNextFreeBlock m (last (xst # frees xs)) = hd (frees ys @ [e])"
    and "linked m (xst # frees xs)" and "linked m (frees ys @ [e])"
    and "last (xst # frees xs) \<notin> set (frees ys @ [e])" and "last (xst # frees xs) \<noteq> p"
proof -
  have t: "tiles a (xs @ (p, n, Limbo) # ys) e" and g: "heap_geom xst a e"
    and l: "linked m ((xst # frees xs) @ frees ys @ [e])"
    using assms by (auto simp: heap_shape_def)
  have lt: "f + 16 \<le> p" if "f \<in> set (frees xs)" for f
    using that tiles_ordered(1)[OF t] t
    by (force simp: frees_def tiles_append dest: tiles_mem)
  have gt: "p + 16 \<le> f" if "f \<in> set (frees ys @ [e])" for f
  proof -
    have "p + n \<le> f" using that tiles_ordered(2)[OF t] tiles_mem[OF t, of p n Limbo]
      by (auto simp: frees_def)
    then show ?thesis using tiles_mem[OF t, of p n Limbo] by simp
  qed
  show "free_scan m p xst = Some (last (xst # frees xs))"
  proof (rule free_scan_finds[where gs = "frees ys @ [e]"])
    show "\<not> hd (frees ys @ [e]) < p" using gt[of "hd (frees ys @ [e])"] hd_in_set[of "frees ys @ [e]"] by simp
  qed (use l lt in force)+
  show "pxNextFreeBlock m (last (xst # frees xs)) = hd (frees ys @ [e])"
    "linked m (xst # frees xs)" "linked m (frees ys @ [e])"
    using linked_split[OF l] by simp_all
  have range: "a \<le> f \<and> f \<le> e" if "f \<in> set (frees ys @ [e])" for f
    using that tiles_mem[OF t] tiles_le[OF t] by (fastforce simp: frees_def)
  have "a \<le> p" "p \<le> e" using tiles_mem[OF t, of p n Limbo] by auto
  then show "last (xst # frees xs) \<notin> set (frees ys @ [e])" "last (xst # frees xs) \<noteq> p"
    using lt[of "last (frees xs)"] gt range g
    by (cases "frees xs = []"; force simp: heap_geom_def dest: last_in_set)+
qed

subsection \<open>Inserting a block into the free list\<close>

text \<open>What insertion computes for the block that ends up holding the freed bytes.\<close>

lemma last_free_split:
  "frees xs \<noteq> [] \<Longrightarrow> \<exists>ws k zs. xs = ws @ (last (frees xs), k, Free) # zs \<and> frees zs = []"
proof (induction xs rule: rev_induct)
  case Nil then show ?case by simp
next
  case (snoc b xs)
  obtain q l j where b: "b = (q, l, j)" by (cases b)
  show ?case
  proof (cases "j = Free")
    case True
    then have "xs @ [b] = xs @ (last (frees (xs @ [b])), l, Free) # []" using b by simp
    then show ?thesis by (metis frees_simps(1))
  next
    case F: False
    then obtain ws k zs where "xs = ws @ (last (frees xs), k, Free) # zs" "frees zs = []"
      using snoc b by auto
    then have "xs @ [b] = ws @ (last (frees (xs @ [b])), k, Free) # (zs @ [b])" "frees (zs @ [b]) = []"
      using F b by auto
    then show ?thesis by metis
  qed
qed

lemma left_adjacent:
  assumes s: "heap_shape m xst a e (xs @ (p, n, Limbo) # ys)"
  defines "it \<equiv> last (xst # frees xs)"
  shows "add32 it (xBlockSize m it) = p \<longleftrightarrow> (\<exists>ws l. xs = ws @ [(it, l, Free)])"
proof (cases "frees xs = []")
  case True
  have g: "heap_geom xst a e" and t: "tiles a (xs @ (p, n, Limbo) # ys) e"
    using s by (auto simp: heap_shape_def)
  have "add32 it (xBlockSize m it) = xst"
    using True s g by (simp add: it_def heap_shape_def heap_geom_def add32_def)
  moreover have "xst \<noteq> p" using g tiles_mem[OF t, of p n Limbo] by (auto simp: heap_geom_def)
  moreover have "\<not> (\<exists>ws l. xs = ws @ [(it, l, Free)])" using True by auto
  ultimately show ?thesis by simp
next
  case False
  have t: "tiles a (xs @ (p, n, Limbo) # ys) e" and g: "heap_geom xst a e"
    using s by (auto simp: heap_shape_def)
  obtain ws zs k where xs: "xs = ws @ (it, k, Free) # zs" and z: "frees zs = []"
    using last_free_split[OF False] False by (auto simp: it_def)
  have k: "xBlockSize m it = k" using s xs by (auto simp: heap_shape_def header_ok_def)
  have tz: "tiles (it + k) zs p" using t xs by (auto simp: tiles_append)
  have "it + k \<le> e" using tiles_mem[OF t, of it k Free] xs by simp
  then have "add32 it (xBlockSize m it) = it + k" using g k by (simp add: add32_exact heap_geom_def)
  moreover have "it + k = p \<longleftrightarrow> zs = []"
  proof (cases zs)
    case Nil then show ?thesis using tz by simp
  next
    case (Cons b bs)
    then show ?thesis using tz tiles_le by (cases b) fastforce
  qed
  moreover have "(\<exists>ws l. xs = ws @ [(it, l, Free)]) \<longleftrightarrow> zs = []"
    using xs z by (cases zs rule: rev_cases) auto
  ultimately show ?thesis by simp
qed

lemma right_adjacent:
  assumes s: "heap_shape m xst a e (xs @ (p, n, k) # ys)"
  shows "p + n = hd (frees ys @ [e]) \<longleftrightarrow> ys = [] \<or> (\<exists>l zs. ys = (p + n, l, Free) # zs)"
proof (cases ys)
  case Nil
  then show ?thesis using s by (auto simp: heap_shape_def tiles_append)
next
  case (Cons b zs)
  obtain q l j where b: "b = (q, l, j)" by (cases b)
  have t: "tiles (p + n) ((q, l, j) # zs) e" using s Cons b by (auto simp: heap_shape_def tiles_append)
  then have q: "q = p + n" and tz: "tiles (q + l) zs e" and l: "16 \<le> l" by auto
  have "q + l \<le> f" if "f \<in> set (frees zs @ [e])" for f
    using that tiles_mem[OF tz] tiles_le[OF tz] by (auto simp: frees_def)
  then have "q + l \<le> hd (frees zs @ [e])" using hd_in_set[of "frees zs @ [e]"] by blast
  then show ?thesis using Cons b q l by auto
qed

text \<open>The effect of the insertion on the header fields, in terms of the block list.\<close>

definition joins_left :: "block list \<Rightarrow> bool" where
  "joins_left xs \<longleftrightarrow> xs \<noteq> [] \<and> snd (snd (last xs)) = Free"

definition joins_right :: "block list \<Rightarrow> bool" where
  "joins_right ys \<longleftrightarrow> ys \<noteq> [] \<and> snd (snd (hd ys)) = Free"

lemma joins_left_ex: "joins_left xs \<longleftrightarrow> (\<exists>ws q l. xs = ws @ [(q, l, Free)])"
  by (cases xs rule: rev_cases) (auto simp: joins_left_def)

lemma joins_right_ex: "joins_right ys \<longleftrightarrow> (\<exists>q l zs. ys = (q, l, Free) # zs)"
  by (cases ys) (auto simp: joins_right_def)

lemma left_adjacent_iff:
  assumes s: "heap_shape m xst a e (xs @ (p, n, Limbo) # ys)"
  shows "add32 (last (xst # frees xs)) (xBlockSize m (last (xst # frees xs))) = p \<longleftrightarrow> joins_left xs"
  unfolding left_adjacent[OF s] joins_left_ex by fastforce

lemma right_adjacent_iff:
  assumes s: "heap_shape m xst a e (xs @ (p, n, k) # ys)"
  shows "joins_right ys \<Longrightarrow> p + n = hd (frees ys @ [e]) \<and> hd (frees ys @ [e]) \<noteq> e \<and>
      hd (frees ys @ [e]) + xBlockSize m (hd (frees ys @ [e])) \<le> e"
    and "\<not> joins_right ys \<Longrightarrow> p + n = hd (frees ys @ [e]) \<Longrightarrow> hd (frees ys @ [e]) = e"
proof -
  have t: "tiles a (xs @ (p, n, k) # ys) e" using s by (simp add: heap_shape_def)
  show "p + n = hd (frees ys @ [e]) \<and> hd (frees ys @ [e]) \<noteq> e \<and>
      hd (frees ys @ [e]) + xBlockSize m (hd (frees ys @ [e])) \<le> e" if j: "joins_right ys"
  proof -
    obtain q l zs where ys: "ys = (q, l, Free) # zs" using j by (auto simp: joins_right_ex)
    have "xBlockSize m q = l" using s ys by (auto simp: heap_shape_def header_ok_def)
    moreover have "q = p + n" using t ys by (auto simp: tiles_append)
    moreover have "q + l \<le> e" "16 \<le> l" using tiles_mem[OF t, of q l Free] ys by auto
    ultimately show ?thesis using ys by simp
  qed
  show "hd (frees ys @ [e]) = e" if "\<not> joins_right ys" "p + n = hd (frees ys @ [e])"
    using that right_adjacent[OF s] by (auto simp: joins_right_ex)
qed

lemma insert_effect:
  assumes s: "heap_shape m xst a e (xs @ (p, n, Limbo) # ys)"
  defines "it \<equiv> last (xst # frees xs)" and "nxt \<equiv> hd (frees ys @ [e])"
  defines "b \<equiv> (if joins_left xs then it else p)"
  defines "sz \<equiv> (if joins_left xs then xBlockSize m it + n else n) +
                (if joins_right ys then xBlockSize m nxt else 0)"
  shows "\<exists>m'. prvInsertBlockIntoFreeList xst e p m = Some m' \<and>
     (\<forall>q\<in>headers xst e (xs @ (p, n, Limbo) # ys).
        pxNextFreeBlock m' q =
          (if q = it \<and> \<not> joins_left xs then p
           else if q = b then (if joins_right ys then pxNextFreeBlock m nxt else nxt)
           else pxNextFreeBlock m q) \<and>
        xBlockSize m' q = (if q = b then sz else xBlockSize m q)) \<and>
     (\<forall>x. (x < it \<or> it + 8 \<le> x) \<longrightarrow> (x < p \<or> p + 8 \<le> x) \<longrightarrow> m' x = m x)"
proof -
  let ?bs = "xs @ (p, n, Limbo) # ys"
  let ?H = "headers xst e ?bs"
  note ip = insertion_point[OF s, folded it_def nxt_def]
  have t: "tiles a ?bs e" and g: "heap_geom xst a e" using s by (auto simp: heap_shape_def)
  note F = header_fields[OF g t]
  have H: "it \<in> ?H" "p \<in> ?H" "nxt \<in> ?H"
  proof -
    show "p \<in> ?H" by (simp add: headers_def)
    show "it \<in> ?H" using set_frees[of xs] unfolding it_def headers_def
      by (cases "frees xs = []") (auto dest: last_in_set)
    show "nxt \<in> ?H" using set_frees[of ys] hd_in_set[of "frees ys @ [e]"]
      unfolding nxt_def headers_def by auto
  qed
  have n: "xBlockSize m p = n" using s by (auto simp: heap_shape_def header_ok_def)
  have pn: "p + n \<le> e" "16 \<le> n" using tiles_mem[OF t, of p n Limbo] by auto
  have e32: "e < 2 ^ 32" using g by (simp add: heap_geom_def)
  have nb: "nxt < 2 ^ 32" "p < 2 ^ 32" "e mod 2 ^ 32 = e" using fields_bound(1)[of m it] ip(2) pn e32 by simp_all
  have left: "add32 it (xBlockSize m it) = p \<longleftrightarrow> joins_left xs"
    unfolding it_def by (rule left_adjacent_iff[OF s])
  have jl: "it + xBlockSize m it = p" if j: "joins_left xs"
  proof -
    obtain ws q l where xs: "xs = ws @ [(q, l, Free)]" using j by (auto simp: joins_left_ex)
    then show ?thesis using s t by (auto simp: it_def heap_shape_def header_ok_def tiles_append)
  qed
  note right = right_adjacent_iff[OF s, folded nxt_def]
  have it: "it \<noteq> p" "it \<noteq> nxt" using ip(5,6) hd_in_set[of "frees ys @ [e]"] by (auto simp: nxt_def)
  have nmod: "nxt mod 2 ^ 32 = nxt" "p mod 2 ^ 32 = p"
    "pxNextFreeBlock m q mod 2 ^ 32 = pxNextFreeBlock m q" for q
    using nb fields_bound(1)[of m q] by auto
  show ?thesis
  proof (cases "joins_left xs")
    case L: True
    have sum: "xBlockSize m it + n < 2 ^ 32" "it + (xBlockSize m it + n) = p + n"
      using jl[OF L] pn e32 by simp_all
    have a1: "add32 (xBlockSize m it) n = xBlockSize m it + n" "add32 it (xBlockSize m it + n) = p + n"
      using sum pn e32 by (simp_all add: add32_exact)
    have a2: "add32 (xBlockSize m it + n) (xBlockSize m nxt) = xBlockSize m it + n + xBlockSize m nxt"
      "xBlockSize m it + n + xBlockSize m nxt < 2 ^ 32" if "joins_right ys"
      using right(1)[OF that] sum e32 jl[OF L] by (auto intro!: add32_exact)
    show ?thesis
      using L left ip(1,2) n it right a1 a2 sum nmod
      by (cases "joins_right ys"; cases "p + n = nxt")
        (auto simp: prvInsertBlockIntoFreeList_def it_def[symmetric] Let_def F H b_def sz_def set_fields_outside)
  next
    case L: False
    have a1: "add32 p n = p + n" using pn e32 by (simp add: add32_exact)
    have a2: "add32 n (xBlockSize m nxt) = n + xBlockSize m nxt"
      "n + xBlockSize m nxt < 2 ^ 32" if "joins_right ys"
      using right(1)[OF that] e32 by (auto intro!: add32_exact)
    show ?thesis
      using L left ip(1,2) n it right a1 a2 pn nmod
      by (cases "joins_right ys"; cases "p + n = nxt")
        (auto simp: prvInsertBlockIntoFreeList_def it_def[symmetric] Let_def F H b_def sz_def set_fields_outside)
  qed
qed

text \<open>The block list after the insertion: the block is free and joined with free neighbours.\<close>

definition coal :: "block list \<Rightarrow> nat \<Rightarrow> nat \<Rightarrow> block list \<Rightarrow> block list" where
  "coal xs p n ys =
     (let (ws, q, l) = (if joins_left xs
                        then (butlast xs, fst (last xs), fst (snd (last xs)) + n) else (xs, p, n));
          (k, zs) = (if joins_right ys then (l + fst (snd (hd ys)), tl ys) else (l, ys))
      in ws @ (q, k, Free) # zs)"

lemma tiles_distinct: "tiles a bs e \<Longrightarrow> distinct (map fst bs @ [e])"
proof (induction a bs e rule: tiles.induct)
  case (2 a p n k bs e)
  then have "a + n \<le> q" if "q \<in> set (map fst bs @ [e])" for q
    using that tiles_mem[of "a + n" bs e] tiles_le[of "a + n" bs e] by auto
  moreover have "16 \<le> n" "p = a" using 2 by auto
  ultimately have "p \<notin> set (map fst bs @ [e])" by fastforce
  then show ?case using 2 by auto
qed simp

lemma headers_distinct:
  "heap_geom xst a e \<Longrightarrow> tiles a bs e \<Longrightarrow> distinct (xst # map fst bs @ [e])"
  using tiles_distinct[of a bs e] tiles_mem[of a bs e]
  by (fastforce simp: heap_geom_def)

lemma coal_cases:
  obtains (none) "\<not> joins_left xs" "\<not> joins_right ys" "coal xs p n ys = xs @ (p, n, Free) # ys"
  | (right) r l zs where "\<not> joins_left xs" "joins_right ys" "ys = (r, l, Free) # zs"
      "coal xs p n ys = xs @ (p, n + l, Free) # zs"
  | (left) ws q k where "joins_left xs" "\<not> joins_right ys" "xs = ws @ [(q, k, Free)]"
      "coal xs p n ys = ws @ (q, k + n, Free) # ys"
  | (both) ws q k r l zs where "joins_left xs" "joins_right ys" "xs = ws @ [(q, k, Free)]"
      "ys = (r, l, Free) # zs" "coal xs p n ys = ws @ (q, k + n + l, Free) # zs"
proof -
  consider "\<not> joins_left xs" "\<not> joins_right ys" | "\<not> joins_left xs" "joins_right ys"
    | "joins_left xs" "\<not> joins_right ys" | "joins_left xs" "joins_right ys" by blast
  then show thesis
  proof cases
    case 1 then show thesis by (intro none) (auto simp: coal_def)
  next
    case 2
    obtain r l zs where "ys = (r, l, Free) # zs" using 2(2) unfolding joins_right_ex by blast
    with 2 show thesis by (intro right) (auto simp: coal_def)
  next
    case 3
    obtain ws q k where "xs = ws @ [(q, k, Free)]" using 3(1) unfolding joins_left_ex by blast
    with 3 show thesis by (intro left) (auto simp: coal_def)
  next
    case 4
    obtain ws q k where "xs = ws @ [(q, k, Free)]" using 4(1) unfolding joins_left_ex by blast
    moreover obtain r l zs where "ys = (r, l, Free) # zs" using 4(2) unfolding joins_right_ex by blast
    ultimately show thesis using 4 by (intro both) (auto simp: coal_def)
  qed
qed

lemma coal_tiles:
  assumes "tiles a (xs @ (p, n, k) # ys) e"
  shows "tiles a (coal xs p n ys) e"
  using assms by (cases rule: coal_cases[of xs ys p n]) (auto simp: tiles_append add.assoc)

lemma frees_coal:
  "frees (coal xs p n ys) = (if joins_left xs then frees xs else frees xs @ [p]) @
     (if joins_right ys then tl (frees ys) else frees ys)"
  by (cases rule: coal_cases[of xs ys p n]) auto

lemma linked_insert:
  assumes s: "heap_shape m xst a e (xs @ (p, n, Limbo) # ys)"
  defines "it \<equiv> last (xst # frees xs)" and "nxt \<equiv> hd (frees ys @ [e])"
  defines "b \<equiv> (if joins_left xs then it else p)"
  assumes eff: "\<And>q. q \<in> headers xst e (xs @ (p, n, Limbo) # ys) \<Longrightarrow>
      pxNextFreeBlock m' q =
          (if q = it \<and> \<not> joins_left xs then p
           else if q = b then (if joins_right ys then pxNextFreeBlock m nxt else nxt)
           else pxNextFreeBlock m q)"
  shows "linked m' (xst # frees (coal xs p n ys) @ [e])"
proof -
  let ?bs = "xs @ (p, n, Limbo) # ys"
  let ?zs = "if joins_right ys then tl (frees ys) else frees ys"
  note ip = insertion_point[OF s, folded it_def nxt_def]
  have t: "tiles a ?bs e" and g: "heap_geom xst a e" using s by (auto simp: heap_shape_def)
  have d: "distinct (xst # map fst ?bs @ [e])" by (rule headers_distinct[OF g t])
  have fx: "set (frees xs) \<subseteq> fst ` set xs" "set (frees ys) \<subseteq> fst ` set ys"
    using set_frees by blast+
  have dx: "distinct (xst # frees xs)" using d fx by (auto simp: frees_def distinct_map filter_map intro: distinct_filter inj_on_subset)
  have l1: "linked m' (xst # frees xs)"
  proof -
    have "pxNextFreeBlock m' q = pxNextFreeBlock m q" if q: "q \<in> set (butlast (xst # frees xs))" for q
    proof -
      have "q \<noteq> it" using q dx last_notin_butlast[of "xst # frees xs"] by (auto simp: it_def)
      moreover have "q \<noteq> p" "q \<in> headers xst e ?bs"
        using in_set_butlastD[OF q] d fx by (auto simp: headers_def)
      ultimately show ?thesis using eff[of q] by (simp add: b_def)
    qed
    then show ?thesis using ip(3) linked_cong[of "xst # frees xs" m' m] by blast
  qed
  have l2: "linked m' (?zs @ [e])"
  proof -
    have "linked m (?zs @ [e])"
    proof (cases "joins_right ys")
      case True
      then obtain r l zs where "ys = (r, l, Free) # zs" unfolding joins_right_ex by blast
      then show ?thesis using ip(4) True by (cases "frees zs") auto
    qed (use ip(4) in simp)
    moreover have "pxNextFreeBlock m' q = pxNextFreeBlock m q" if q: "q \<in> set (butlast (?zs @ [e]))" for q
    proof -
      have qy: "q \<in> set (frees ys)" using q by (auto split: if_splits dest: in_set_tlD)
      then have "q \<noteq> p" "q \<in> headers xst e ?bs" "q \<noteq> it"
        using d fx ip(5) by (auto simp: headers_def)
      then show ?thesis using eff[of q] by (simp add: b_def)
    qed
    ultimately show ?thesis using linked_cong[of "?zs @ [e]" m' m] by blast
  qed
  have nb: "pxNextFreeBlock m' b = hd (?zs @ [e])"
  proof -
    have bH: "b \<in> headers xst e ?bs" using fx unfolding b_def it_def headers_def
      by (cases "frees xs = []") (auto dest: last_in_set)
    have "pxNextFreeBlock m nxt = hd (tl (frees ys) @ [e])" if j: "joins_right ys"
    proof -
      obtain r l zs where ys: "ys = (r, l, Free) # zs" using j unfolding joins_right_ex by blast
      then show ?thesis using ip(4) by (cases "frees zs") (auto simp: nxt_def)
    qed
    then show ?thesis using eff[OF bH] ip(6) by (auto simp: b_def nxt_def)
  qed
  show ?thesis
  proof (cases "joins_left xs")
    case True
    then show ?thesis
      using linked_join[OF l1 l2] nb by (simp add: frees_coal b_def it_def)
  next
    case False
    have "it \<in> headers xst e ?bs" using fx unfolding it_def headers_def
      by (cases "frees xs = []") (auto dest: last_in_set)
    then have "pxNextFreeBlock m' it = p" using eff[of it] False by simp
    moreover have "linked m' (p # ?zs @ [e])"
      using l2 nb False linked_join[of m' "[p]" "?zs @ [e]"] by (simp add: b_def)
    ultimately show ?thesis
      using linked_join[OF l1, of "p # ?zs @ [e]"] False by (simp add: frees_coal it_def)
  qed
qed

lemma it_not_used:
  assumes "heap_shape m xst a e (xs @ (p, n, j) # ys)" "(u, l, Used) \<in> set (xs @ ys)"
  shows "u \<noteq> last (xst # frees xs)" "u \<noteq> p"
proof -
  let ?bs = "xs @ (p, n, j) # ys"
  have d: "distinct (xst # map fst ?bs @ [e])"
    by (rule headers_distinct) (use assms(1) in \<open>auto simp: heap_shape_def\<close>)
  have u: "u \<in> fst ` set (xs @ ys)" using assms(2) by (metis fst_conv imageI)
  moreover have "p \<notin> fst ` set (xs @ ys)" "xst \<notin> fst ` set (xs @ ys)" using d by auto
  ultimately have up: "u \<noteq> p" and ux: "u \<noteq> xst" by metis+
  show "u \<noteq> p" by (rule up)
  show "u \<noteq> last (xst # frees xs)"
  proof (cases "frees xs = []")
    case True
    then show ?thesis using ux by simp
  next
    case False
    then obtain k where k: "(last (frees xs), k, Free) \<in> set xs"
      using last_free_split by (metis in_set_conv_decomp)
    have "distinct (map fst ?bs)" using d by simp
    then have "inj_on fst (set ?bs)" by (simp only: distinct_map)
    moreover have "(u, l, Used) \<in> set ?bs" "(last (frees xs), k, Free) \<in> set ?bs"
      using k assms(2) by auto
    ultimately have "u \<noteq> last (frees xs)" by (metis fst_conv snd_conv inj_onD kind.distinct(1))
    then show ?thesis using False by simp
  qed
qed

lemma insert_shape:
  assumes s: "heap_shape m xst a e (xs @ (p, n, Limbo) # ys)"
  shows "\<exists>m'. prvInsertBlockIntoFreeList xst e p m = Some m' \<and> heap_shape m' xst a e (coal xs p n ys) \<and>
     (\<forall>x. (x < last (xst # frees xs) \<or> last (xst # frees xs) + 8 \<le> x) \<longrightarrow>
        (x < p \<or> p + 8 \<le> x) \<longrightarrow> m' x = m x)"
proof -
  let ?bs = "xs @ (p, n, Limbo) # ys"
  let ?it = "last (xst # frees xs)"
  let ?nxt = "hd (frees ys @ [e])"
  let ?b = "if joins_left xs then ?it else p"
  let ?sz = "(if joins_left xs then xBlockSize m ?it + n else n) +
                (if joins_right ys then xBlockSize m ?nxt else 0)"
  obtain m' where m': "prvInsertBlockIntoFreeList xst e p m = Some m'"
    and eff: "\<And>q. q \<in> headers xst e ?bs \<Longrightarrow>
        pxNextFreeBlock m' q =
          (if q = ?it \<and> \<not> joins_left xs then p
           else if q = ?b then (if joins_right ys then pxNextFreeBlock m ?nxt else ?nxt)
           else pxNextFreeBlock m q) \<and>
        xBlockSize m' q = (if q = ?b then ?sz else xBlockSize m q)"
    and out: "\<forall>x. (x < ?it \<or> ?it + 8 \<le> x) \<longrightarrow> (x < p \<or> p + 8 \<le> x) \<longrightarrow> m' x = m x"
    using insert_effect[OF s] by blast
  have t: "tiles a ?bs e" and g: "heap_geom xst a e" using s by (auto simp: heap_shape_def)
  have d: "distinct (xst # map fst ?bs @ [e])" by (rule headers_distinct[OF g t])
  have l: "linked m' (xst # frees (coal xs p n ys) @ [e])"
    by (rule linked_insert[OF s]) (use eff in blast)
  have itb: "?it \<in> insert xst (fst ` set xs)" using set_frees[of xs]
    by (cases "frees xs = []") (auto dest: last_in_set)
  have old: "header_ok m' (u, k, j)" if u: "(u, k, j) \<in> set (xs @ ys)" "u \<noteq> ?b" for u k j
  proof -
    have "header_ok m (u, k, j)" using s u(1) by (auto simp: heap_shape_def)
    moreover have "u \<in> headers xst e ?bs" using u(1) by (force simp: headers_def)
    moreover have "u \<noteq> ?it \<and> u \<noteq> p" if "j = Used" using it_not_used[OF s, of u k] u(1) that by blast
    ultimately show ?thesis using eff[of u] u(2) by (auto simp: header_ok_def)
  qed
  have bH: "?b \<in> headers xst e ?bs" using itb by (force simp: headers_def)
  have new: "header_ok m' (?b, ?sz, Free)" using eff[OF bH] by (simp add: header_ok_def)
  have bne: "?b \<noteq> xst" "?b \<noteq> e" "?it \<noteq> e"
  proof -
    have "e \<notin> insert xst (fst ` set xs)" using d by auto
    then show "?it \<noteq> e" using itb by metis
    then show "?b \<noteq> e" using d by auto
    show "?b \<noteq> xst" using d joins_left_ex[of xs] by (auto simp: joins_left_def)
  qed
  have hs: "\<forall>b\<in>set (coal xs p n ys). header_ok m' b"
  proof (cases rule: coal_cases[of xs ys p n])
    case none
    with new old d show ?thesis by (auto simp: image_iff)
  next
    case (right r l zs)
    moreover have "xBlockSize m r = l" using s right(3) by (auto simp: heap_shape_def header_ok_def)
    ultimately show ?thesis using new old d by (auto simp: image_iff)
  next
    case (left ws q k)
    moreover have "xBlockSize m q = k" using s left(3) by (auto simp: heap_shape_def header_ok_def)
    ultimately show ?thesis using new old d by (auto simp: image_iff)
  next
    case (both ws q k r l zs)
    moreover have "xBlockSize m q = k" "xBlockSize m r = l"
      using s both(3,4) by (auto simp: heap_shape_def header_ok_def)
    ultimately show ?thesis using new old d by (auto simp: image_iff)
  qed
  have "xBlockSize m' xst = 0" "xBlockSize m' e = 0" "pxNextFreeBlock m' e = 0"
    using eff[of xst] eff[of e] bne s by (auto simp: headers_def heap_shape_def)
  then have "heap_shape m' xst a e (coal xs p n ys)"
    using g coal_tiles[OF t] l hs by (simp add: heap_shape_def)
  with m' out show ?thesis by blast
qed

subsection \<open>Steps of malloc and free on the shape\<close>

lemma shape_geom: "heap_shape m xst a e bs \<Longrightarrow> heap_geom xst a e"
  and shape_tiles: "heap_shape m xst a e bs \<Longrightarrow> tiles a bs e"
  by (simp_all add: heap_shape_def)

lemma shape_prev_in_headers:
  "last (xst # frees xs) \<in> headers xst e (xs @ b # ys)"
  using set_frees[of xs] by (cases "frees xs = []") (force simp: headers_def dest: last_in_set)+

text \<open>The free list without one block.\<close>

lemma unlink_shape:
  assumes s: "heap_shape m xst a e (xs @ (p, n, Free) # ys)"
  defines "prev \<equiv> last (xst # frees xs)"
  shows "heap_shape (set_pxNextFreeBlock prev (pxNextFreeBlock m p) m) xst a e (xs @ (p, n, Limbo) # ys)"
    (is "heap_shape ?m xst a e ?bs")
    and "pxNextFreeBlock m prev = p"
proof -
  have g: "heap_geom xst a e" and t: "tiles a (xs @ (p, n, Free) # ys) e"
    and l: "linked m ((xst # frees xs) @ p # frees ys @ [e])"
    using s by (auto simp: heap_shape_def)
  have t': "tiles a ?bs e" using t by (auto simp: tiles_append)
  note F = header_fields[OF g t', OF shape_prev_in_headers, folded prev_def]
  have d: "distinct (xst # map fst ?bs @ [e])" by (rule headers_distinct[OF g t'])
  have fx: "set (frees xs) \<subseteq> fst ` set xs" "set (frees ys) \<subseteq> fst ` set ys" using set_frees by blast+
  have dx: "distinct (xst # frees xs)"
    using d fx by (auto simp: frees_def distinct_map intro: inj_on_subset)
  have prev: "prev \<in> insert xst (fst ` set xs)" using fx
    by (cases "frees xs = []") (auto simp: prev_def dest: last_in_set)
  have nprev: "prev \<noteq> e" "prev \<noteq> p" "prev \<notin> fst ` set ys"
    using prev d by (auto simp: image_iff)
  show np: "pxNextFreeBlock m prev = p"
    using linked_split(1)[OF l] by (simp add: prev_def)
  have lp: "linked m (xst # frees xs)" "linked m (p # frees ys @ [e])"
    using linked_split(2,3)[OF l] by simp_all
  have npy: "pxNextFreeBlock m p = hd (frees ys @ [e])"
    using lp(2) by (cases "frees ys") auto
  have l1: "linked ?m (xst # frees xs)"
  proof -
    have "pxNextFreeBlock ?m q = pxNextFreeBlock m q" if q: "q \<in> set (butlast (xst # frees xs))" for q
    proof -
      have "q \<noteq> prev" using q dx last_notin_butlast[of "xst # frees xs"] by (auto simp: prev_def)
      moreover have "q \<in> headers xst e ?bs" using in_set_butlastD[OF q] fx by (auto simp: headers_def)
      ultimately show ?thesis by (simp add: F(1))
    qed
    then show ?thesis using lp(1) linked_cong[of "xst # frees xs" ?m m] by blast
  qed
  have l2: "linked ?m (frees ys @ [e])"
  proof -
    have "pxNextFreeBlock ?m q = pxNextFreeBlock m q" if q: "q \<in> set (butlast (frees ys @ [e]))" for q
    proof -
      have "q \<in> fst ` set ys" using q fx by auto
      then have "q \<noteq> prev" "q \<in> headers xst e ?bs" using nprev by (auto simp: headers_def)
      then show ?thesis by (simp add: F(1))
    qed
    moreover have "linked m (frees ys @ [e])" using lp(2) by (cases "frees ys") auto
    ultimately show ?thesis using linked_cong[of "frees ys @ [e]" ?m m] by blast
  qed
  have "pxNextFreeBlock ?m prev = hd (frees ys @ [e])"
    using F(1)[of prev] shape_prev_in_headers npy fields_bound(1)[of m p] by (simp add: prev_def)
  then have "linked ?m (xst # frees ?bs @ [e])"
    using linked_join[OF l1 l2] by (simp add: prev_def)
  moreover have "header_ok ?m (u, k, j)" if u: "(u, k, j) \<in> set ?bs" for u k j
  proof -
    have uH: "u \<in> headers xst e ?bs" using u by (force simp: headers_def)
    have "prev \<noteq> u" if j: "j = Used"
    proof -
      have "(u, k, Used) \<in> set (xs @ ys)" using u j by auto
      then show ?thesis using it_not_used(1)[OF s] unfolding prev_def by metis
    qed
    moreover have "header_ok m (u, k, j) \<or> j = Limbo \<and> xBlockSize m u = k"
    proof (cases "(u, k, j) = (p, n, Limbo)")
      case True
      moreover have "header_ok m (p, n, Free)" using s by (simp add: heap_shape_def)
      ultimately show ?thesis by (simp add: header_ok_def)
    next
      case False
      then have "(u, k, j) \<in> set (xs @ (p, n, Free) # ys)" using u by auto
      then show ?thesis using s by (auto simp: heap_shape_def)
    qed
    ultimately show ?thesis using F(1,4)[OF uH] by (auto simp: header_ok_def)
  qed
  moreover have "xst \<in> headers xst e ?bs" "e \<in> headers xst e ?bs" by (auto simp: headers_def)
  ultimately show "heap_shape ?m xst a e ?bs"
    using s g t' nprev F by (auto simp: heap_shape_def)
qed

text \<open>A block that is not on the free list is replaced by others; nothing outside it is written.\<close>

lemma headers_outside:
  assumes "heap_geom xst a e" "tiles a (xs @ (p, n, k) # ys) e" "q \<in> headers xst e (xs @ ys)"
  shows "q + 8 \<le> p \<or> p + n \<le> q"
proof -
  have "a \<le> p" "p + n \<le> e" using tiles_mem[OF assms(2), of p n k] by auto
  moreover have "q + 8 \<le> p" if "q \<in> fst ` set xs"
    using that tiles_ordered(1)[OF assms(2)] tiles_mem[OF assms(2)] by fastforce
  moreover have "p + n \<le> q" if "q \<in> fst ` set ys"
    using that tiles_ordered(2)[OF assms(2)] by fastforce
  ultimately show ?thesis using assms(1,3) by (auto simp: headers_def heap_geom_def)
qed

lemma fields_cong:
  assumes "\<And>x. q \<le> x \<Longrightarrow> x < q + 8 \<Longrightarrow> m' x = m x"
  shows "pxNextFreeBlock m' q = pxNextFreeBlock m q" "xBlockSize m' q = xBlockSize m q"
  using assms by (auto simp: pxNextFreeBlock_def xBlockSize_def intro!: read32_cong)

lemma reshape:
  assumes s: "heap_shape m xst a e (xs @ (p, n, k) # ys)" and k: "k \<noteq> Free"
    and z: "tiles p zs (p + n)" "frees zs = []" "\<And>b. b \<in> set zs \<Longrightarrow> header_ok m' b"
    and out: "\<And>x. x < p \<or> p + n \<le> x \<Longrightarrow> m' x = m x"
  shows "heap_shape m' xst a e (xs @ zs @ ys)"
proof -
  have g: "heap_geom xst a e" and t: "tiles a (xs @ (p, n, k) # ys) e" using s by (auto simp: heap_shape_def)
  have eq: "pxNextFreeBlock m' q = pxNextFreeBlock m q" "xBlockSize m' q = xBlockSize m q"
    if q: "q \<in> headers xst e (xs @ ys)" for q
    using headers_outside[OF g t q] by (auto intro!: fields_cong out)
  have fx: "set (xst # frees xs @ frees ys @ [e]) \<subseteq> headers xst e (xs @ ys)"
    using set_frees[of xs] set_frees[of ys] by (auto simp: headers_def)
  have "linked m' (xst # frees xs @ frees ys @ [e]) = linked m (xst # frees xs @ frees ys @ [e])"
    using fx in_set_butlastD by (intro linked_cong eq(1)) fast
  moreover have "header_ok m' b" if b: "b \<in> set (xs @ ys)" for b
  proof -
    have "fst b \<in> headers xst e (xs @ ys)" using b by (auto simp: headers_def)
    moreover have "header_ok m b" using s b by (auto simp: heap_shape_def)
    ultimately show ?thesis using eq[of "fst b"] by (auto simp: header_ok_def)
  qed
  moreover have "tiles a (xs @ zs @ ys) e" using t z(1) by (auto simp: tiles_append)
  moreover have "xst \<in> headers xst e (xs @ ys)" "e \<in> headers xst e (xs @ ys)" by (auto simp: headers_def)
  ultimately show ?thesis using s g k z(2,3) eq by (auto simp: heap_shape_def)
qed

lemma split_shape:
  assumes s: "heap_shape m xst a e (xs @ (p, n, Limbo) # ys)"
    and w: "16 \<le> w" "8 dvd w" "w + 16 \<le> n"
  shows "heap_shape (set_xBlockSize p w (set_xBlockSize (p + w) (n - w) m)) xst a e
           (xs @ (p, w, Limbo) # (p + w, n - w, Limbo) # ys)"
proof -
  have t: "tiles a (xs @ (p, n, Limbo) # ys) e" and g: "heap_geom xst a e" using s by (auto simp: heap_shape_def)
  have n: "8 dvd n" "n < 2 ^ 32" using tiles_mem[OF t, of p n Limbo] g by (auto simp: heap_geom_def)
  have "heap_shape (set_xBlockSize p w (set_xBlockSize (p + w) (n - w) m)) xst a e
           (xs @ [(p, w, Limbo), (p + w, n - w, Limbo)] @ ys)"
  proof (rule reshape[OF s])
    show "tiles p [(p, w, Limbo), (p + w, n - w, Limbo)] (p + n)" using w n by auto
    show "header_ok (set_xBlockSize p w (set_xBlockSize (p + w) (n - w) m)) b"
      if "b \<in> set [(p, w, Limbo), (p + w, n - w, Limbo)]" for b
      using that w n by (auto simp: header_ok_def fields_same fields_apart apart_def)
    show "set_xBlockSize p w (set_xBlockSize (p + w) (n - w) m) x = m x" if "x < p \<or> p + n \<le> x" for x
      using that w by (auto simp: set_fields_outside)
  qed auto
  then show ?thesis by simp
qed

lemma mark_used_shape:
  assumes s: "heap_shape m xst a e (xs @ (p, n, Limbo) # ys)"
  shows "heap_shape (set_pxNextFreeBlock p 0 (set_xBlockSize p (heapALLOCATE_BLOCK (xBlockSize m p)) m))
           xst a e (xs @ (p, n, Used) # ys)" (is "heap_shape ?m _ _ _ _")
    and "xBlockSize m p = n"
proof -
  have t: "tiles a (xs @ (p, n, Limbo) # ys) e" and g: "heap_geom xst a e" using s by (auto simp: heap_shape_def)
  have n: "16 \<le> n" "8 dvd n" "n < 2 ^ 31" using tiles_mem[OF t, of p n Limbo] g by (auto simp: heap_geom_def)
  show sz: "xBlockSize m p = n" using s by (auto simp: heap_shape_def header_ok_def)
  have "heap_shape ?m xst a e (xs @ [(p, n, Used)] @ ys)"
  proof (rule reshape[OF s])
    show "header_ok ?m b" if "b \<in> set [(p, n, Used)]" for b
      using that n sz allocate_bit[of n] by (simp add: header_ok_def fields_same)
    show "?m x = m x" if "x < p \<or> p + n \<le> x" for x using that n by (auto simp: set_fields_outside)
  qed (use n in auto)
  then show "heap_shape ?m xst a e (xs @ (p, n, Used) # ys)" by simp
qed

lemma release_shape:
  assumes s: "heap_shape m xst a e (xs @ (p, n, Used) # ys)"
  shows "heap_shape (memset0 (p + 8) (n - 8) (set_xBlockSize p n m)) xst a e (xs @ (p, n, Limbo) # ys)"
    (is "heap_shape ?m _ _ _ _")
proof -
  have t: "tiles a (xs @ (p, n, Used) # ys) e" and g: "heap_geom xst a e" using s by (auto simp: heap_shape_def)
  have n: "16 \<le> n" "8 dvd n" "n < 2 ^ 31" using tiles_mem[OF t, of p n Used] g by (auto simp: heap_geom_def)
  have "heap_shape ?m xst a e (xs @ [(p, n, Limbo)] @ ys)"
  proof (rule reshape[OF s])
    have "xBlockSize ?m p = xBlockSize (set_xBlockSize p n m) p"
      by (rule fields_cong(2)) (simp add: memset0_def)
    then show "header_ok ?m b" if "b \<in> set [(p, n, Limbo)]" for b
      using that n by (simp add: header_ok_def fields_same)
    show "?m x = m x" if "x < p \<or> p + n \<le> x" for x using that n by (auto simp: memset0_def set_fields_outside)
  qed (use n in auto)
  then show ?thesis by simp
qed

text \<open>First fit: the scan stops at the first free block that is large enough, or at the end marker.\<close>

lemma malloc_scan_finds:
  assumes "linked m (c # fs @ gs)" "gs \<noteq> []" "0 \<notin> set (fs @ gs)"
    and "\<forall>f\<in>set fs. xBlockSize m f < w"
    and "xBlockSize m (hd gs) \<ge> w \<or> pxNextFreeBlock m (hd gs) = 0"
  shows "malloc_scan m w c (hd (fs @ gs)) = Some (last (c # fs), hd gs)"
  using assms
proof (induction fs arbitrary: c)
  case Nil
  then show ?case by (subst malloc_scan.simps) auto
next
  case (Cons f fs)
  have "pxNextFreeBlock m f = hd (fs @ gs)" using Cons.prems(1,2) by (cases fs; cases gs) auto
  moreover have "hd (fs @ gs) \<noteq> 0" using Cons.prems(2,3) hd_in_set[of "fs @ gs"] by (metis append_is_Nil_conv in_set_conv_decomp list.set_intros(2) append_Cons)
  ultimately show ?case using Cons by (subst malloc_scan.simps) auto
qed

end
