(* ===== verification/Heap4_Alloc.thy ===== *)
theory Heap4_Alloc
  imports Heap4_Shape
begin

section \<open>heap\_4 as an allocator\<close>

text \<open>
  The heap invariant \<open>heap_ok\<close>, the reference allocator \<open>amalloc\<close>/\<open>coal\<close> on block lists, the
  functional behaviour of \<^verbatim>\<open>pvPortMalloc\<close>, \<^verbatim>\<open>vPortFree\<close>, \<^verbatim>\<open>pvPortCalloc\<close>, \<^verbatim>\<open>prvHeapInit\<close> and
  \<^verbatim>\<open>vPortGetHeapStats\<close> against it, and the interpretation of the \<open>allocator\<close> interface.
\<close>

subsection \<open>The abstract allocator\<close>

fun coalesced :: "block list \<Rightarrow> bool" where
  "coalesced ((p, n, k) # (q, l, j) # bs) \<longleftrightarrow> \<not> (k = Free \<and> j = Free) \<and> coalesced ((q, l, j) # bs)"
| "coalesced bs \<longleftrightarrow> True"

definition free_bytes :: "block list \<Rightarrow> nat" where
  "free_bytes bs = (\<Sum>(p, n, k)\<leftarrow>bs. if k = Free then n else 0)"

fun amalloc :: "nat \<Rightarrow> block list \<Rightarrow> (nat \<times> block list) option" where
  "amalloc w [] = None"
| "amalloc w ((p, n, k) # bs) =
     (if k = Free \<and> w \<le> n
      then Some (p, if n - w > 16 then (p, w, Used) # (p + w, n - w, Free) # bs else (p, n, Used) # bs)
      else map_option (\<lambda>(q, cs). (q, (p, n, k) # cs)) (amalloc w bs))"

definition heap_ok :: "heap4 \<Rightarrow> nat \<Rightarrow> block list \<Rightarrow> bool" where
  "heap_ok s a bs \<longleftrightarrow> heap_shape (hmem s) (xStart_at s) a (pxEnd s) bs \<and>
     (\<forall>b\<in>set bs. snd (snd b) \<noteq> Limbo) \<and> coalesced bs \<and>
     xFreeBytesRemaining s = free_bytes bs \<and>
     xMinimumEverFreeBytesRemaining s \<le> xFreeBytesRemaining s"

lemma coalesced_append:
  "coalesced (xs @ ys) \<longleftrightarrow> coalesced xs \<and> coalesced ys \<and> \<not> (joins_left xs \<and> joins_right ys)"
  by (induction xs rule: coalesced.induct; cases ys) (auto simp: joins_left_def joins_right_def)

lemma coalesced_Cons: "coalesced ((p, n, k) # ys) \<longleftrightarrow> coalesced ys \<and> \<not> (k = Free \<and> joins_right ys)"
  by (cases ys) (auto simp: joins_right_def)

lemma free_bytes_simps [simp]:
  "free_bytes [] = 0" "free_bytes ((p, n, k) # bs) = (if k = Free then n else 0) + free_bytes bs"
  "free_bytes (xs @ ys) = free_bytes xs + free_bytes ys"
  by (auto simp: free_bytes_def)

lemma amalloc_None: "amalloc w bs = None \<longleftrightarrow> (\<forall>(p, n, k)\<in>set bs. k = Free \<longrightarrow> n < w)"
  by (induction w bs rule: amalloc.induct) auto

lemma amalloc_Some:
  assumes "amalloc w bs = Some (p, cs)"
  obtains xs n ys where "bs = xs @ (p, n, Free) # ys" "w \<le> n" "\<forall>(q, l, j)\<in>set xs. j = Free \<longrightarrow> l < w"
    "cs = xs @ (if n - w > 16 then (p, w, Used) # (p + w, n - w, Free) # ys else (p, n, Used) # ys)"
  using assms
proof (induction w bs arbitrary: cs thesis rule: amalloc.induct)
  case (2 w q l k bs)
  show ?case
  proof (cases "k = Free \<and> w \<le> l")
    case True
    then show ?thesis using 2(3) by (intro 2(2)[of "[]" l bs]) auto
  next
    case False
    then obtain ds where ds: "amalloc w bs = Some (p, ds)" "cs = (q, l, k) # ds" using 2(3) by auto
    obtain xs n ys where *: "bs = xs @ (p, n, Free) # ys" "w \<le> n" "\<forall>(q, l, j)\<in>set xs. j = Free \<longrightarrow> l < w"
      "ds = xs @ (if n - w > 16 then (p, w, Used) # (p + w, n - w, Free) # ys else (p, n, Used) # ys)"
      using 2(1)[OF False _ ds(1)] by blast
    show ?thesis by (rule 2(2)[of "(q, l, k) # xs" n ys]) (use * ds False in auto)
  qed
qed simp

lemma free_bytes_ge: "(p, n, Free) \<in> set bs \<Longrightarrow> n \<le> free_bytes bs"
  by (induction bs) auto

lemma free_bytes_le: "tiles a bs e \<Longrightarrow> a + free_bytes bs \<le> e"
  by (induction a bs e rule: tiles.induct) auto

lemma free_bytes_coal: "free_bytes (coal xs p n ys) = free_bytes xs + n + free_bytes ys"
  by (cases rule: coal_cases[of xs ys p n]) auto

lemma coalesced_coal: "coalesced (xs @ (p, n, k) # ys) \<Longrightarrow> coalesced (coal xs p n ys)"
  by (cases rule: coal_cases[of xs ys p n])
    (auto simp: coalesced_append coalesced_Cons joins_left_def joins_right_def)

lemma set_coal: "b \<in> set (coal xs p n ys) \<Longrightarrow> b \<in> set (xs @ ys) \<or> snd (snd b) = Free"
  by (cases rule: coal_cases[of xs ys p n]) auto

lemma used_coal: "(u, l, Used) \<in> set (coal xs p n ys) \<longleftrightarrow> (u, l, Used) \<in> set (xs @ ys)"
  by (cases rule: coal_cases[of xs ys p n]) auto

text \<open>Freeing what \<open>amalloc\<close> returned gives the old block list back.\<close>

lemma amalloc_coal:
  assumes "amalloc w bs = Some (p, cs)" "coalesced bs"
  shows "\<exists>xs k ys. cs = xs @ (p, k, Used) # ys \<and> w \<le> k \<and> coal xs p k ys = bs"
proof -
  obtain xs n ys where *: "bs = xs @ (p, n, Free) # ys" "w \<le> n"
    "cs = xs @ (if n - w > 16 then (p, w, Used) # (p + w, n - w, Free) # ys else (p, n, Used) # ys)"
    using amalloc_Some[OF assms(1)] by metis
  have j: "\<not> joins_left xs" "\<not> joins_right ys" using assms(2) *(1)
    by (auto simp: coalesced_append coalesced_Cons joins_right_def)
  show ?thesis
  proof (cases "n - w > 16")
    case True
    then have "coal xs p w ((p + w, n - w, Free) # ys) = bs" using j * by (simp add: coal_def joins_right_def)
    then show ?thesis using * True by auto
  next
    case False
    have "coal xs p n ys = bs" using j * by (simp add: coal_def)
    then show ?thesis using * False by auto
  qed
qed

subsection \<open>Requested sizes\<close>

lemma adjust_size_bounds:
  assumes "adjust_size n = w" "0 < w"
  shows "n + 8 < w" "8 dvd w" "w \<le> n + 16" "16 \<le> w"
proof -
  have n: "0 < n" using assms by (auto simp: adjust_size_def split: if_splits)
  then have w: "w = n + (16 - n mod 8)"
    using assms by (auto simp: adjust_size_def Let_def portBYTE_ALIGNMENT_def split: if_splits)
  have "n mod 8 < 8" by simp
  then show "n + 8 < w" "w \<le> n + 16" "16 \<le> w" using w n by linarith+
  have "w = 8 * (n div 8 + 2)" using w by presburger
  then show "8 dvd w" by simp
qed

subsection \<open>Functional behaviour of malloc and free\<close>

lemma shape_below: "heap_shape m xst a e bs \<Longrightarrow> (p, n, k) \<in> set bs \<Longrightarrow> p + n < 2 ^ 32 \<and> n < 2 ^ 31 \<and> 0 < p \<and> 8 dvd p"
proof -
  have "8 dvd p" if "tiles a bs e" "8 dvd a" "(p, n, k) \<in> set bs" for a bs e
    using that by (induction a bs e rule: tiles.induct) auto
  then show "heap_shape m xst a e bs \<Longrightarrow> (p, n, k) \<in> set bs \<Longrightarrow> ?thesis"
    using tiles_mem[of a bs e p n k] by (fastforce simp: heap_shape_def heap_geom_def)
qed

lemma shape_size: "heap_shape m xst a e bs \<Longrightarrow> (p, n, k) \<in> set bs \<Longrightarrow> k \<noteq> Used \<Longrightarrow> xBlockSize m p = n"
  by (fastforce simp: heap_shape_def header_ok_def)

lemma malloc_scan_shape:
  assumes s: "heap_shape m xst a e bs"
  shows "amalloc w bs = None \<Longrightarrow> \<exists>prev. malloc_scan m w xst (pxNextFreeBlock m xst) = Some (prev, e)"
    and "bs = xs @ (p, n, Free) # ys \<Longrightarrow> w \<le> n \<Longrightarrow> \<forall>(q, l, j)\<in>set xs. j = Free \<longrightarrow> l < w \<Longrightarrow>
      malloc_scan m w xst (pxNextFreeBlock m xst) = Some (last (xst # frees xs), p)"
proof -
  have g: "heap_geom xst a e" and t: "tiles a bs e" and l: "linked m (xst # frees bs @ [e])"
    and e: "xBlockSize m e = 0" "pxNextFreeBlock m e = 0"
    using s by (auto simp: heap_shape_def)
  have nz: "0 \<notin> set (frees bs @ [e])"
    using tiles_mem[OF t] g tiles_le[OF t] by (fastforce simp: frees_def heap_geom_def)
  have h: "pxNextFreeBlock m xst = hd (frees bs @ [e])" using l by (cases "frees bs") auto
  have small: "xBlockSize m f < w" if z: "\<forall>(q, l, j)\<in>set zs. j = Free \<longrightarrow> l < w" "set zs \<subseteq> set bs" "f \<in> set (frees zs)" for zs f
    using z shape_size[OF s] by (fastforce simp: frees_def)
  show "\<exists>prev. malloc_scan m w xst (pxNextFreeBlock m xst) = Some (prev, e)" if "amalloc w bs = None"
    using malloc_scan_finds[of m xst "frees bs" "[e]" w] l nz e small[of bs] that
    unfolding h amalloc_None by auto
  show "malloc_scan m w xst (pxNextFreeBlock m xst) = Some (last (xst # frees xs), p)"
    if b: "bs = xs @ (p, n, Free) # ys" "w \<le> n" "\<forall>(q, l, j)\<in>set xs. j = Free \<longrightarrow> l < w"
  proof -
    have "xBlockSize m p = n" using shape_size[OF s, of p n Free] b by auto
    then have "malloc_scan m w xst (hd (frees xs @ p # frees ys @ [e])) =
        Some (last (xst # frees xs), hd (p # frees ys @ [e]))"
      using l nz small[of xs] b by (intro malloc_scan_finds) auto
    then show ?thesis using b h by simp
  qed
qed

text \<open>Bytes of the blocks that the application owns.\<close>

definition same_used :: "block list \<Rightarrow> bytes \<Rightarrow> bytes \<Rightarrow> bool" where
  "same_used bs m m' \<longleftrightarrow> (\<forall>p n x. (p, n, Used) \<in> set bs \<longrightarrow> p \<le> x \<longrightarrow> x < p + n \<longrightarrow> m' x = m x)"

lemma same_used_trans:
  "same_used bs m m' \<Longrightarrow> same_used bs m' m'' \<Longrightarrow> same_used bs m m''"
  by (simp add: same_used_def)

text \<open>A block owned by the application is apart from the list head, from the end marker, and from every other block.\<close>

lemma used_apart:
  assumes s: "heap_shape m xst a e bs" and u: "(u, l, Used) \<in> set bs" "u \<le> x" "x < u + l"
  shows "x < xst \<or> xst + 8 \<le> x" "(p, n, k) \<in> set bs \<Longrightarrow> k \<noteq> Used \<Longrightarrow> x < p \<or> p + n \<le> x"
proof -
  have t: "tiles a bs e" and g: "heap_geom xst a e" using s by (auto simp: heap_shape_def)
  show "x < xst \<or> xst + 8 \<le> x" using tiles_mem[OF t u(1)] u g by (auto simp: heap_geom_def)
  assume p: "(p, n, k) \<in> set bs" "k \<noteq> Used"
  then obtain xs ys where bs: "bs = xs @ (p, n, k) # ys" by (meson split_list)
  have "(u, l, Used) \<in> set xs \<or> (u, l, Used) \<in> set ys" using u(1) p(2) bs by auto
  then show "x < p \<or> p + n \<le> x" using tiles_ordered[OF t[unfolded bs], of u l Used] u by auto
qed

lemma prev_cases: "last (xst # frees xs) = xst \<or> (\<exists>k. (last (xst # frees xs), k, Free) \<in> set xs)"
proof (cases "frees xs = []")
  case False
  then show ?thesis using last_free_split[OF False] by (metis in_set_conv_decomp last_ConsR)
qed simp

lemma used_off_prev:
  assumes s: "heap_shape m xst a e bs" and u: "(u, l, Used) \<in> set bs" "u \<le> x" "x < u + l"
    and xs: "set xs \<subseteq> set bs"
  shows "x < last (xst # frees xs) \<or> last (xst # frees xs) + 8 \<le> x"
proof -
  consider "last (xst # frees xs) = xst" | k where "(last (xst # frees xs), k, Free) \<in> set bs"
    using prev_cases[of xst xs] xs by blast
  then show ?thesis
  proof cases
    case 1 then show ?thesis using used_apart(1)[OF s u] by simp
  next
    case 2
    have "16 \<le> k" using tiles_mem[OF shape_tiles[OF s] 2] by simp
    then show ?thesis using used_apart(2)[OF s u 2] by auto
  qed
qed

lemma insert_block:
  assumes s: "heap_shape m xst a e (xs @ (p, n, Limbo) # ys)"
  obtains m' where "prvInsertBlockIntoFreeList xst e p m = Some m'" "heap_shape m' xst a e (coal xs p n ys)"
    "same_used (xs @ ys) m m'" "\<And>x. p + 8 \<le> x \<Longrightarrow> x < p + n \<Longrightarrow> m' x = m x"
    "\<And>q l. (q, l, Limbo) \<in> set (xs @ ys) \<Longrightarrow> xBlockSize m' q = xBlockSize m q"
proof -
  let ?bs = "xs @ (p, n, Limbo) # ys"
  obtain m' where m': "prvInsertBlockIntoFreeList xst e p m = Some m'" "heap_shape m' xst a e (coal xs p n ys)"
    and out: "\<And>x. (x < last (xst # frees xs) \<or> last (xst # frees xs) + 8 \<le> x) \<Longrightarrow>
        (x < p \<or> p + 8 \<le> x) \<Longrightarrow> m' x = m x"
    using insert_shape[OF s] by blast
  have t: "tiles a ?bs e" using s by (simp add: heap_shape_def)
  have n: "16 \<le> n" using tiles_mem[OF t, of p n Limbo] by simp
  have "same_used (xs @ ys) m m'" unfolding same_used_def
  proof (intro allI impI)
    fix u l x assume u: "(u, l, Used) \<in> set (xs @ ys)" "u \<le> x" "x < u + l"
    have u': "(u, l, Used) \<in> set ?bs" using u by auto
    have sub: "set xs \<subseteq> set ?bs" by auto
    show "m' x = m x"
      using used_off_prev[OF s u' u(2,3) sub] used_apart(2)[OF s u' u(2,3), of p n Limbo] n by (intro out) auto
  qed
  moreover have "m' x = m x" if x: "p + 8 \<le> x" "x < p + n" for x
  proof (rule out)
    show "x < last (xst # frees xs) \<or> last (xst # frees xs) + 8 \<le> x"
    proof (cases "frees xs = []")
      case True
      then show ?thesis using s x tiles_mem[OF t, of p n Limbo] by (auto simp: heap_shape_def heap_geom_def)
    next
      case False
      then obtain k where "(last (xst # frees xs), k, Free) \<in> set xs"
        using last_free_split[OF False] by (metis in_set_conv_decomp last_ConsR)
      then show ?thesis using tiles_ordered(1)[OF t] tiles_mem[OF t] x by fastforce
    qed
  qed (use x in auto)
  moreover have "xBlockSize m' q = xBlockSize m q" if q: "(q, l, Limbo) \<in> set (xs @ ys)" for q l
  proof -
    have "(q, l, Limbo) \<in> set (coal xs p n ys)" using q by (cases rule: coal_cases[of xs ys p n]) auto
    moreover have "(q, l, Limbo) \<in> set ?bs" using q by auto
    ultimately show ?thesis using shape_size[OF m'(2)] shape_size[OF s] by (metis kind.distinct(5))
  qed
  ultimately show thesis using m' that by blast
qed

lemma memset0_simps: "memset0 b n m x = (if b \<le> x \<and> x < b + n then 0 else m x)"
  by (simp add: memset0_def)

lemma used_frame:
  assumes s: "heap_shape m xst a e (xs @ (p, n, k) # ys)" "k \<noteq> Used"
    and out: "\<And>x. x < p \<or> p + n \<le> x \<Longrightarrow> m' x = m x"
  shows "same_used (xs @ ys) m m'"
  unfolding same_used_def
proof (intro allI impI)
  fix u l x assume u: "(u, l, Used) \<in> set (xs @ ys)" "u \<le> x" "x < u + l"
  then have "(u, l, Used) \<in> set (xs @ (p, n, k) # ys)" by auto
  from used_apart(2)[OF s(1) this u(2,3), of p n k] s(2) show "m' x = m x" by (intro out) auto
qed

text \<open>The part of \<^verbatim>\<open>pvPortMalloc\<close> after the search.\<close>

lemma take_block_eq:
  assumes "pxNextFreeBlock (hmem s) prev = p"
    and m1: "m1 = set_pxNextFreeBlock prev (pxNextFreeBlock (hmem s) p) (hmem s)"
    and "xBlockSize m1 p = n" "sub32 n w = n - w" "add32 p 8 = p + 8" "add32 p w = p + w"
    and "(if n - w > 16 then prvInsertBlockIntoFreeList (xStart_at s) (pxEnd s) (p + w)
        (set_xBlockSize p w (set_xBlockSize (p + w) (n - w) m1)) else Some m1) = Some m4"
    and "xBlockSize m4 p = c" "xFreeBytesRemaining s = f" "sub32 f c = f - c"
  shows "take_block w prev p s = Some (p + 8,
      s\<lparr>hmem := set_pxNextFreeBlock p 0 (set_xBlockSize p (heapALLOCATE_BLOCK (xBlockSize m4 p)) m4),
        xFreeBytesRemaining := f - c,
        xMinimumEverFreeBytesRemaining := min (f - c) (xMinimumEverFreeBytesRemaining s),
        xNumberOfSuccessfulAllocations := (xNumberOfSuccessfulAllocations s + 1) mod 2 ^ 32\<rparr>)"
  unfolding take_block_def m1[symmetric] assms(1)
  using assms by (auto simp: Let_def m1[symmetric] min_def simp del: fields_apart)

lemma take_block_shape:
  assumes s: "heap_shape (hmem s) (xStart_at s) a (pxEnd s) (xs @ (p, n, Free) # ys)"
    and w: "16 \<le> w" "8 dvd w" "w \<le> n" and j: "\<not> joins_right ys" "\<not> joins_left xs"
    and f: "xFreeBytesRemaining s = free_bytes (xs @ (p, n, Free) # ys)"
  defines "c \<equiv> (if n - w > 16 then w else n)"
  obtains m where "take_block w (last (xStart_at s # frees xs)) p s = Some (p + 8,
      s\<lparr>hmem := m, xFreeBytesRemaining := free_bytes (xs @ (p, n, Free) # ys) - c,
        xMinimumEverFreeBytesRemaining :=
          min (free_bytes (xs @ (p, n, Free) # ys) - c) (xMinimumEverFreeBytesRemaining s),
        xNumberOfSuccessfulAllocations := (xNumberOfSuccessfulAllocations s + 1) mod 2 ^ 32\<rparr>)"
    "heap_shape m (xStart_at s) a (pxEnd s)
       (xs @ (if n - w > 16 then (p, w, Used) # (p + w, n - w, Free) # ys else (p, n, Used) # ys))"
    "same_used (xs @ ys) (hmem s) m"
proof -
  let ?bs = "xs @ (p, n, Free) # ys" and ?xst = "xStart_at s" and ?e = "pxEnd s"
  let ?prev = "last (xStart_at s # frees xs)"
  note result = that
  have b: "p + n < 2 ^ 32" "n < 2 ^ 31" "0 < p" using shape_below[OF s, of p n Free] by auto
  have fb: "n \<le> free_bytes ?bs" "free_bytes ?bs < 2 ^ 32"
    using free_bytes_le[of a ?bs ?e] s by (auto simp: heap_shape_def heap_geom_def)
  define m1 where "m1 = set_pxNextFreeBlock ?prev (pxNextFreeBlock (hmem s) p) (hmem s)"
  have s1: "heap_shape m1 ?xst a ?e (xs @ (p, n, Limbo) # ys)" and np: "pxNextFreeBlock (hmem s) ?prev = p"
    using unlink_shape[OF s] by (auto simp: m1_def)
  have u1: "same_used (xs @ ys) (hmem s) m1" unfolding same_used_def
  proof (intro allI impI)
    fix u l x assume u: "(u, l, Used) \<in> set (xs @ ys)" "u \<le> x" "x < u + l"
    then have u': "(u, l, Used) \<in> set ?bs" by auto
    have sub: "set xs \<subseteq> set ?bs" by auto
    from used_off_prev[OF s u' u(2,3) sub] show "m1 x = hmem s x"
      unfolding m1_def by (rule set_fields_outside(1))
  qed
  have n1: "xBlockSize m1 p = n" using shape_size[OF s1, of p n Limbo] by auto
  have ex: "sub32 n w = n - w" "add32 p 8 = p + 8" "add32 p w = p + w"
    using b w by (simp_all add: sub32_exact add32_exact)
  have fin: "thesis" if m4: "(if n - w > 16 then prvInsertBlockIntoFreeList ?xst ?e (p + w)
        (set_xBlockSize p w (set_xBlockSize (p + w) (n - w) m1)) else Some m1) = Some m4"
    and s4: "heap_shape m4 ?xst a ?e (xs @ (p, c, Limbo) # zs)"
    and zs: "xs @ (p, c, Used) # zs = xs @ (if n - w > 16 then (p, w, Used) # (p + w, n - w, Free) # ys else (p, n, Used) # ys)"
    and u4: "same_used (xs @ ys) m1 m4" for m4 zs
  proof -
    define m6 where "m6 = set_pxNextFreeBlock p 0 (set_xBlockSize p (heapALLOCATE_BLOCK (xBlockSize m4 p)) m4)"
    have c: "c \<le> n" "16 \<le> c" using w by (auto simp: c_def)
    have n4: "xBlockSize m4 p = c" by (rule mark_used_shape(2)[OF s4])
    have s6: "heap_shape m6 ?xst a ?e (xs @ (p, c, Used) # zs)"
      unfolding m6_def by (rule mark_used_shape(1)[OF s4])
    have "same_used (xs @ zs) m4 m6"
      using c(2) unfolding m6_def by (intro used_frame[OF s4]) (auto simp: set_fields_outside)
    moreover have "(u, l, Used) \<in> set zs \<longleftrightarrow> (u, l, Used) \<in> set ys" for u l using zs by (auto split: if_splits)
    ultimately have u6: "same_used (xs @ ys) m4 m6" by (auto simp: same_used_def)
    have fr: "sub32 (free_bytes ?bs) c = free_bytes ?bs - c" using fb c by (intro sub32_exact) auto
    have "take_block w ?prev p s = Some (p + 8,
      s\<lparr>hmem := m6, xFreeBytesRemaining := free_bytes ?bs - c,
        xMinimumEverFreeBytesRemaining := min (free_bytes ?bs - c) (xMinimumEverFreeBytesRemaining s),
        xNumberOfSuccessfulAllocations := (xNumberOfSuccessfulAllocations s + 1) mod 2 ^ 32\<rparr>)"
      unfolding m6_def by (rule take_block_eq[OF np m1_def n1 ex m4 n4 f fr])
    moreover have "same_used (xs @ ys) (hmem s) m6" using u1 u4 u6 same_used_trans by blast
    ultimately show thesis by (rule result[OF _ s6[unfolded zs]])
  qed
  show thesis
  proof (cases "n - w > 16")
    case False
    then show thesis using s1 by (intro fin[of m1 ys]) (auto simp: c_def same_used_def)
  next
    case True
    define m3 where "m3 = set_xBlockSize p w (set_xBlockSize (p + w) (n - w) m1)"
    have s3: "heap_shape m3 ?xst a ?e ((xs @ [(p, w, Limbo)]) @ (p + w, n - w, Limbo) # ys)"
      using split_shape[OF s1 w(1,2)] True by (simp add: m3_def)
    have co: "coal (xs @ [(p, w, Limbo)]) (p + w) (n - w) ys = xs @ (p, w, Limbo) # (p + w, n - w, Free) # ys"
      using j by (simp add: coal_def joins_left_def)
    obtain m4 where m4: "prvInsertBlockIntoFreeList ?xst ?e (p + w) m3 = Some m4"
      "heap_shape m4 ?xst a ?e (xs @ (p, w, Limbo) # (p + w, n - w, Free) # ys)"
      "same_used ((xs @ [(p, w, Limbo)]) @ ys) m3 m4"
      using insert_block[OF s3] unfolding co by metis
    have "w + 16 \<le> n" using True by simp
    then have "same_used (xs @ ys) m1 m3"
      unfolding m3_def by (intro used_frame[OF s1]) (auto simp: set_fields_outside)
    then have "same_used (xs @ ys) m1 m4" using m4(3) by (auto simp: same_used_def)
    then show thesis using m4 True by (intro fin[of m4 "(p + w, n - w, Free) # ys"]) (auto simp: c_def m3_def)
  qed
qed

lemma heap_ok_end: "heap_ok s a bs \<Longrightarrow> pxEnd s \<noteq> 0"
  by (auto simp: heap_ok_def heap_shape_def heap_geom_def)

lemma malloc_null:
  assumes "heap_ok s a bs" "adjust_size n = 0 \<or> amalloc (adjust_size n) bs = None"
  shows "pvPortMalloc n s = Some (0, s)"
proof -
  have s: "heap_shape (hmem s) (xStart_at s) a (pxEnd s) bs" using assms(1) by (simp add: heap_ok_def)
  show ?thesis
    using malloc_scan_shape(1)[OF s, of "adjust_size n"] assms(2) heap_ok_end[OF assms(1)]
    by (auto simp: pvPortMalloc_def Let_def)
qed

lemma malloc_block:
  assumes ok: "heap_ok s a bs" and am: "amalloc (adjust_size n) bs = Some (p, cs)"
    and n: "adjust_size n \<noteq> 0"
  obtains t where "pvPortMalloc n s = Some (p + 8, t)" "heap_ok t a cs" "same_used bs (hmem s) (hmem t)"
    "xStart_at t = xStart_at s" "pxEnd t = pxEnd s"
proof -
  let ?w = "adjust_size n"
  have s: "heap_shape (hmem s) (xStart_at s) a (pxEnd s) bs" and c: "coalesced bs"
    and nl: "\<forall>b\<in>set bs. snd (snd b) \<noteq> Limbo" and f: "xFreeBytesRemaining s = free_bytes bs"
    using ok by (auto simp: heap_ok_def)
  obtain xs k ys where bs: "bs = xs @ (p, k, Free) # ys" "?w \<le> k" "\<forall>(q, l, j)\<in>set xs. j = Free \<longrightarrow> l < ?w"
    and cs: "cs = xs @ (if k - ?w > 16 then (p, ?w, Used) # (p + ?w, k - ?w, Free) # ys else (p, k, Used) # ys)"
    using amalloc_Some[OF am] by metis
  have w: "16 \<le> ?w" "8 dvd ?w" using adjust_size_bounds[OF refl, of n] n by auto
  have j: "\<not> joins_left xs" "\<not> joins_right ys" "coalesced xs" "coalesced ys" using c bs(1)
    by (auto simp: coalesced_append coalesced_Cons joins_right_def)
  have k: "k < 2 ^ 31" "p + 8 \<noteq> 0" using shape_below[OF s, of p k Free] bs(1) by auto
  have scan: "malloc_scan (hmem s) ?w (xStart_at s) (pxNextFreeBlock (hmem s) (xStart_at s)) =
      Some (last (xStart_at s # frees xs), p)"
    by (rule malloc_scan_shape(2)[OF s bs])
  have pe: "p \<noteq> pxEnd s" using tiles_mem[of a bs "pxEnd s" p k Free] s bs(1) w(1) bs(2) by (auto simp: heap_shape_def)
  have guard: "heapBLOCK_SIZE_IS_VALID ?w" "0 < ?w" "?w \<le> xFreeBytesRemaining s"
    using valid_size[of ?w] k bs(1,2) w(1) f by auto
  obtain m where tb: "take_block ?w (last (xStart_at s # frees xs)) p s = Some (p + 8,
      s\<lparr>hmem := m, xFreeBytesRemaining := free_bytes bs - (if k - ?w > 16 then ?w else k),
        xMinimumEverFreeBytesRemaining :=
          min (free_bytes bs - (if k - ?w > 16 then ?w else k)) (xMinimumEverFreeBytesRemaining s),
        xNumberOfSuccessfulAllocations := (xNumberOfSuccessfulAllocations s + 1) mod 2 ^ 32\<rparr>)"
    and m: "heap_shape m (xStart_at s) a (pxEnd s) cs" "same_used (xs @ ys) (hmem s) m"
    using take_block_shape[OF s[unfolded bs(1)] w bs(2) j(2,1) f[unfolded bs(1)]]
    unfolding bs(1)[symmetric] cs[symmetric] by metis
  let ?t = "s\<lparr>hmem := m, xFreeBytesRemaining := free_bytes bs - (if k - ?w > 16 then ?w else k),
        xMinimumEverFreeBytesRemaining :=
          min (free_bytes bs - (if k - ?w > 16 then ?w else k)) (xMinimumEverFreeBytesRemaining s),
        xNumberOfSuccessfulAllocations := (xNumberOfSuccessfulAllocations s + 1) mod 2 ^ 32\<rparr>"
  have "pvPortMalloc n s = Some (p + 8, ?t)"
    unfolding pvPortMalloc_def using heap_ok_end[OF ok] guard scan pe tb by (simp add: Let_def)
  moreover have "coalesced cs" using j by (auto simp: cs coalesced_append coalesced_Cons joins_right_def)
  then have "heap_ok ?t a cs" using m(1) nl bs(1,2) by (auto simp: heap_ok_def cs)
  moreover have "same_used bs (hmem s) (hmem ?t)" using m(2) bs(1) by (auto simp: same_used_def)
  ultimately show thesis by (intro that[of ?t]) simp_all
qed

lemma free_block:
  assumes ok: "heap_ok s a (xs @ (p, n, Used) # ys)"
  obtains t where "vPortFree (p + 8) s = Some t" "heap_ok t a (coal xs p n ys)"
    "same_used (xs @ ys) (hmem s) (hmem t)" "\<And>x. p + 8 \<le> x \<Longrightarrow> x < p + n \<Longrightarrow> hmem t x = 0"
    "xStart_at t = xStart_at s" "pxEnd t = pxEnd s"
proof -
  let ?bs = "xs @ (p, n, Used) # ys" and ?xst = "xStart_at s" and ?e = "pxEnd s"
  have s: "heap_shape (hmem s) ?xst a ?e ?bs" and c: "coalesced ?bs"
    and nl: "\<forall>b\<in>set ?bs. snd (snd b) \<noteq> Limbo" and f: "xFreeBytesRemaining s = free_bytes ?bs"
    using ok by (auto simp: heap_ok_def)
  have b: "p + n < 2 ^ 32" "n < 2 ^ 31" using shape_below[OF s, of p n Used] by auto
  have t: "tiles a ?bs ?e" using s by (simp add: heap_shape_def)
  have n: "16 \<le> n" using tiles_mem[OF t, of p n Used] by auto
  have hd: "xBlockSize (hmem s) p = n + 2 ^ 31" "pxNextFreeBlock (hmem s) p = 0"
    using s by (auto simp: heap_shape_def header_ok_def)
  define m1 where "m1 = set_xBlockSize p n (hmem s)"
  define m2 where "m2 = memset0 (p + 8) (n - 8) m1"
  have s2: "heap_shape m2 ?xst a ?e (xs @ (p, n, Limbo) # ys)"
    unfolding m2_def m1_def by (rule release_shape[OF s])
  have sz: "xBlockSize m1 p = n" "xBlockSize m2 p = n"
    using b shape_size[OF s2, of p n Limbo] by (auto simp: m1_def fields_same)
  obtain m3 where m3: "prvInsertBlockIntoFreeList ?xst ?e p m2 = Some m3" "heap_shape m3 ?xst a ?e (coal xs p n ys)"
    "same_used (xs @ ys) m2 m3" "\<And>x. p + 8 \<le> x \<Longrightarrow> x < p + n \<Longrightarrow> m3 x = m2 x"
    using insert_block[OF s2] by metis
  have ex: "sub32 (p + 8) 8 = p" "add32 p 8 = p + 8" "sub32 n 8 = n - 8"
    using b n by (simp_all add: sub32_exact add32_exact)
  have fb: "add32 (free_bytes ?bs) n = free_bytes ?bs + n"
    using free_bytes_le[of a "xs @ (p, n, Free) # ys" ?e] t s
    by (intro add32_exact) (auto simp: tiles_append heap_shape_def heap_geom_def)
  let ?t = "s\<lparr>hmem := m3, xFreeBytesRemaining := free_bytes ?bs + n,
      xNumberOfSuccessfulFrees := (xNumberOfSuccessfulFrees s + 1) mod 2 ^ 32\<rparr>"
  have "vPortFree (p + 8) s = Some ?t"
    unfolding vPortFree_def
    using hd b ex sz m3(1) fb f allocated_bit[of n] free_bit[of n]
    by (simp add: Let_def m1_def[symmetric] m2_def[symmetric] del: free_bytes_simps)
  moreover have "heap_ok ?t a (coal xs p n ys)"
    using m3(2) coalesced_coal[OF c] nl f ok set_coal[of _ xs p n ys]
    by (fastforce simp: heap_ok_def free_bytes_coal)
  moreover have "same_used (xs @ ys) (hmem s) m2"
    unfolding same_used_def
  proof (intro allI impI)
    fix u l x assume u: "(u, l, Used) \<in> set (xs @ ys)" "u \<le> x" "x < u + l"
    then have "(u, l, Used) \<in> set (xs @ (p, n, Limbo) # ys)" by auto
    from used_apart(2)[OF s2 this u(2,3), of p n Limbo] n
    show "m2 x = hmem s x" by (auto simp: m2_def m1_def memset0_def set_fields_outside)
  qed
  then have "same_used (xs @ ys) (hmem s) (hmem ?t)" using m3(3) by (auto intro: same_used_trans)
  moreover have "hmem ?t x = 0" if "p + 8 \<le> x" "x < p + n" for x
    using m3(4)[OF that] that by (simp add: m2_def memset0_def)
  ultimately show thesis by (intro that[of ?t]) simp_all
qed

subsection \<open>The empty heap\<close>

text \<open>Where the linker may put the array and the list head.\<close>

definition heap_placed :: "heap4 \<Rightarrow> bool" where
  "heap_placed s \<longleftrightarrow> 0 < ucHeap_at s \<and> ucHeap_at s + configTOTAL_HEAP_SIZE \<le> 2 ^ 32 \<and>
     xStart_at s + 8 \<le> 2 ^ 32 \<and>
     (xStart_at s + 8 \<le> ucHeap_at s \<or> ucHeap_at s + configTOTAL_HEAP_SIZE \<le> xStart_at s)"

definition heap_base :: "heap4 \<Rightarrow> nat" where
  "heap_base s = (ucHeap_at s + 7) div 8 * 8"

definition heap_top :: "heap4 \<Rightarrow> nat" where
  "heap_top s = (ucHeap_at s + configTOTAL_HEAP_SIZE - 8) div 8 * 8"

lemma base_top:
  assumes "heap_placed s"
  shows "heap_geom (xStart_at s) (heap_base s) (heap_top s)"
    "heap_base s + (configTOTAL_HEAP_SIZE - 24) \<le> heap_top s" "8 dvd heap_top s - heap_base s"
    "ucHeap_at s \<le> heap_base s" "heap_base s < ucHeap_at s + 8" "heap_top s + 8 \<le> ucHeap_at s + configTOTAL_HEAP_SIZE"
proof -
  define u where "u = ucHeap_at s"
  have b: "heap_base s \<ge> u" "heap_base s < u + 8" "8 dvd heap_base s"
    unfolding heap_base_def u_def by presburger+
  have t: "heap_top s + 8 \<le> u + 1048576" "u + 1048576 < heap_top s + 16" "8 dvd heap_top s"
    unfolding heap_top_def u_def configTOTAL_HEAP_SIZE_def by presburger+
  show "heap_geom (xStart_at s) (heap_base s) (heap_top s)"
    using assms b t by (auto simp: heap_geom_def heap_placed_def u_def[symmetric] configTOTAL_HEAP_SIZE_def)
  show "heap_base s + (configTOTAL_HEAP_SIZE - 24) \<le> heap_top s"
    using b t by (simp add: configTOTAL_HEAP_SIZE_def)
  show "8 dvd heap_top s - heap_base s" using b t by (simp add: dvd_diff_nat)
  show "ucHeap_at s \<le> heap_base s" "heap_base s < ucHeap_at s + 8" "heap_top s + 8 \<le> ucHeap_at s + configTOTAL_HEAP_SIZE"
    using b t by (simp_all add: u_def configTOTAL_HEAP_SIZE_def)
qed

lemma heap_init_eq:
  assumes "heap_placed s"
  shows "prvHeapInit s = (let a = heap_base s; e = heap_top s;
     m = set_pxNextFreeBlock a e (set_xBlockSize a (e - a) (set_pxNextFreeBlock e 0 (set_xBlockSize e 0
           (set_xBlockSize (xStart_at s) 0 (set_pxNextFreeBlock (xStart_at s) a (hmem s))))))
     in s\<lparr>hmem := m, pxEnd := e, xMinimumEverFreeBytesRemaining := xBlockSize m a,
          xFreeBytesRemaining := xBlockSize m a\<rparr>)"
proof -
  note b = base_top[OF assms]
  have u: "ucHeap_at s + 1048576 \<le> 2 ^ 32" using assms by (simp add: heap_placed_def configTOTAL_HEAP_SIZE_def)
  have al: "heap_base s = ucHeap_at s" if "ucHeap_at s mod 8 = 0"
    using that b(4,5) unfolding heap_base_def by presburger
  have e1: "add32 (ucHeap_at s) 7 = ucHeap_at s + 7" using u by (intro add32_exact) simp
  have e2: "sub32 (heap_base s) (ucHeap_at s) = heap_base s - ucHeap_at s"
    using u b(4,5) by (intro sub32_exact) auto
  have e3: "sub32 1048576 (heap_base s - ucHeap_at s) = 1048576 - (heap_base s - ucHeap_at s)"
    using b(4,5) by (intro sub32_exact) auto
  have e4: "sub32 (add32 (heap_base s) (1048576 - (heap_base s - ucHeap_at s))) 8 div 8 * 8 = heap_top s"
  proof (cases "ucHeap_at s + 1048576 = 2 ^ 32")
    case True
    then have "ucHeap_at s = 4293918720" by simp
    then show ?thesis by (simp add: heap_base_def heap_top_def configTOTAL_HEAP_SIZE_def add32_def sub32_def)
  next
    case False
    then have "add32 (heap_base s) (1048576 - (heap_base s - ucHeap_at s)) = ucHeap_at s + 1048576"
      using u b(4,5) by (subst add32_exact) auto
    moreover have "sub32 (ucHeap_at s + 1048576) 8 = ucHeap_at s + 1048576 - 8"
      using u False by (intro sub32_exact) auto
    ultimately show ?thesis by (simp add: heap_top_def configTOTAL_HEAP_SIZE_def)
  qed
  have e5: "sub32 (heap_top s) (heap_base s) = heap_top s - heap_base s"
    using b(1) by (intro sub32_exact) (auto simp: heap_geom_def)
  show ?thesis
    unfolding prvHeapInit_def
    using al e1 e2 e3 e4 e5
    by (cases "ucHeap_at s mod 8 = 0")
      (simp_all add: Let_def portBYTE_ALIGNMENT_def configTOTAL_HEAP_SIZE_def heap_base_def[symmetric])
qed

lemma heap_init_ok:
  assumes p: "heap_placed s"
  shows "heap_ok (prvHeapInit s) (heap_base s) [(heap_base s, heap_top s - heap_base s, Free)]"
    "xStart_at (prvHeapInit s) = xStart_at s" "pxEnd (prvHeapInit s) = heap_top s"
proof -
  note b = base_top[OF p]
  let ?a = "heap_base s" and ?e = "heap_top s" and ?x = "xStart_at s"
  let ?bs = "[(?a, ?e - ?a, Free)]"
  have t: "tiles ?a ?bs ?e" using b(2,3) by (simp add: configTOTAL_HEAP_SIZE_def)
  note F = header_fields[OF b(1) t]
  have H: "?a \<in> headers ?x ?e ?bs" "?e \<in> headers ?x ?e ?bs" "?x \<in> headers ?x ?e ?bs"
    by (simp_all add: headers_def)
  have d: "?a \<noteq> ?e" "?x \<noteq> ?a" "?x \<noteq> ?e" using headers_distinct[OF b(1) t] by auto
  have lt: "?a < 2 ^ 32" "?e < 2 ^ 32" "?e - ?a < 2 ^ 32" using b(1) by (auto simp: heap_geom_def)
  show "xStart_at (prvHeapInit s) = xStart_at s" "pxEnd (prvHeapInit s) = heap_top s"
    unfolding heap_init_eq[OF p] by (simp_all add: Let_def)
  show "heap_ok (prvHeapInit s) ?a ?bs"
    unfolding heap_init_eq[OF p] heap_ok_def heap_shape_def
    using b(1) t lt d by (simp add: Let_def F H header_ok_def)
qed

subsection \<open>heap\_4 as an allocator\<close>

definition heap_put :: "nat \<Rightarrow> u8_t \<Rightarrow> heap4 \<Rightarrow> heap4" where
  "heap_put x b s = s\<lparr>hmem := (hmem s)(x := b)\<rparr>"

definition lodged :: "block list \<Rightarrow> holdings \<Rightarrow> bool" where
  "lodged bs L \<longleftrightarrow> distinct (map fst L) \<and>
     (\<forall>(r, n)\<in>set L. \<exists>p k. r = p + 8 \<and> n + 8 \<le> k \<and> (p, k, Used) \<in> set bs)"

definition heap_live :: "heap4 \<Rightarrow> holdings \<Rightarrow> bool" where
  "heap_live s L \<longleftrightarrow> (\<exists>a bs. heap_ok s a bs \<and> lodged bs L) \<or> L = [] \<and> heap_placed s \<and> pxEnd s = 0"

lemma lodged_used:
  "lodged bs L \<Longrightarrow> owns L x \<Longrightarrow> \<exists>p k. (p, k, Used) \<in> set bs \<and> p + 8 \<le> x \<and> x < p + k"
  by (fastforce simp: lodged_def owns_def)

lemma lodged_keeps: "lodged bs L \<Longrightarrow> same_used bs m m' \<Longrightarrow> keeps L m m'"
  unfolding keeps_def same_used_def by (meson lodged_used le_add1 le_trans)

lemma lodged_mono:
  "lodged bs L \<Longrightarrow> (\<And>p k. (p, k, Used) \<in> set bs \<Longrightarrow> (p, k, Used) \<in> set cs) \<Longrightarrow> lodged cs L"
  by (fastforce simp: lodged_def)

lemma used_unique:
  assumes "tiles a bs e" "(p, k, j) \<in> set bs" "(p, l, i) \<in> set bs"
  shows "k = l \<and> j = i"
proof -
  have "inj_on fst (set bs)" using tiles_distinct[OF assms(1)] by (simp add: distinct_map)
  then show ?thesis using assms(2,3) by (metis fst_conv inj_onD prod.inject)
qed

lemma lodged_separate:
  assumes "tiles a bs e" "lodged bs L"
  shows "separate L"
proof -
  have "r + n \<le> q \<or> q + l \<le> r" if L: "(r, n) \<in> set L" "(q, l) \<in> set L" "r \<noteq> q" for r n q l
  proof -
    obtain p k where p: "r = p + 8" "n + 8 \<le> k" "(p, k, Used) \<in> set bs" using assms(2) L(1) by (fastforce simp: lodged_def)
    obtain u j where u: "q = u + 8" "l + 8 \<le> j" "(u, j, Used) \<in> set bs" using assms(2) L(2) by (fastforce simp: lodged_def)
    obtain xs ys where bs: "bs = xs @ (p, k, Used) # ys" using p(3) by (meson split_list)
    have "(u, j, Used) \<in> set xs \<union> set ys" using u bs p(1) L(3) by auto
    then show ?thesis using tiles_ordered[OF assms(1)[unfolded bs], of u j Used] p u by auto
  qed
  then show ?thesis using assms(2) by (auto simp: separate_def lodged_def)
qed

lemma malloc_lodged:
  assumes ok: "heap_ok s a bs" and l: "lodged bs L"
  shows "\<exists>r t. pvPortMalloc n s = Some (r, t) \<and> keeps L (hmem s) (hmem t) \<and>
    (\<exists>cs. heap_ok t a cs \<and> lodged cs (if r = 0 then L else (r, n) # L))"
proof (cases "adjust_size n = 0 \<or> amalloc (adjust_size n) bs = None")
  case True
  then show ?thesis using malloc_null[OF ok True] ok l by (auto simp: keeps_def)
next
  case False
  then obtain p cs where am: "amalloc (adjust_size n) bs = Some (p, cs)" by auto
  obtain t where t: "pvPortMalloc n s = Some (p + 8, t)" "heap_ok t a cs" "same_used bs (hmem s) (hmem t)"
    using malloc_block[OF ok am] False by metis
  obtain xs k ys where x: "bs = xs @ (p, k, Free) # ys" "adjust_size n \<le> k"
    "cs = xs @ (if k - adjust_size n > 16 then (p, adjust_size n, Used) # (p + adjust_size n, k - adjust_size n, Free) # ys
                else (p, k, Used) # ys)"
    using amalloc_Some[OF am] by metis
  have tb: "tiles a bs (pxEnd s)" using ok by (simp add: heap_ok_def heap_shape_def)
  have "lodged cs L" using l x by (auto intro: lodged_mono split: if_splits)
  moreover have "p + 8 \<notin> fst ` set L"
  proof
    assume "p + 8 \<in> fst ` set L"
    then obtain k' where "(p, k', Used) \<in> set bs" using l by (fastforce simp: lodged_def)
    then show False using used_unique[OF tb, of p k' Used k Free] x(1) by auto
  qed
  moreover have "\<exists>k'. n + 8 \<le> k' \<and> (p, k', Used) \<in> set cs"
    using x adjust_size_bounds(1)[OF refl, of n] False
    by (intro exI[of _ "if k - adjust_size n > 16 then adjust_size n else k"]) auto
  ultimately have "lodged cs ((p + 8, n) # L)" by (auto simp: lodged_def)
  then show ?thesis using t lodged_keeps[OF l t(3)] by auto
qed

lemma free_lodged:
  assumes ok: "heap_ok s a bs" and l: "lodged bs L" and r: "r \<in> fst ` set L"
  shows "\<exists>t. vPortFree r s = Some t \<and> keeps (filter (\<lambda>b. fst b \<noteq> r) L) (hmem s) (hmem t) \<and>
    (\<exists>cs. heap_ok t a cs \<and> lodged cs (filter (\<lambda>b. fst b \<noteq> r) L))"
proof -
  obtain p k where p: "r = p + 8" "(p, k, Used) \<in> set bs" using l r by (fastforce simp: lodged_def)
  then obtain xs ys where bs: "bs = xs @ (p, k, Used) # ys" by (meson split_list)
  have ok': "heap_ok s a (xs @ (p, k, Used) # ys)" using ok bs by simp
  obtain t where t: "vPortFree (p + 8) s = Some t" "heap_ok t a (coal xs p k ys)"
    "same_used (xs @ ys) (hmem s) (hmem t)"
    using free_block[OF ok'] by metis
  have "lodged (xs @ ys) (filter (\<lambda>b. fst b \<noteq> r) L)"
    using l p(1) unfolding lodged_def bs by (fastforce simp: distinct_map_filter)
  then have "lodged (coal xs p k ys) (filter (\<lambda>b. fst b \<noteq> r) L)" "keeps (filter (\<lambda>b. fst b \<noteq> r) L) (hmem s) (hmem t)"
    using lodged_keeps t(3) by (auto intro: lodged_mono simp: used_coal)
  then show ?thesis using t p(1) by blast
qed

lemma put_lodged:
  assumes ok: "heap_ok s a bs" and l: "lodged bs L" and x: "owns L x"
  shows "heap_ok (heap_put x b s) a bs"
proof -
  let ?m = "(hmem s)(x := b)"
  have s: "heap_shape (hmem s) (xStart_at s) a (pxEnd s) bs" using ok by (simp add: heap_ok_def)
  obtain p k where p: "(p, k, Used) \<in> set bs" "p + 8 \<le> x" "x < p + k" using lodged_used[OF l x] by blast
  then obtain xs ys where bs: "bs = xs @ (p, k, Used) # ys" by (meson split_list)
  have "16 \<le> k" "8 dvd k" using tiles_mem[of a bs "pxEnd s" p k Used] s p(1) by (auto simp: heap_shape_def)
  moreover have "header_ok (hmem s) (p, k, Used)" using s p(1) by (auto simp: heap_shape_def)
  moreover have "pxNextFreeBlock ?m p = pxNextFreeBlock (hmem s) p" "xBlockSize ?m p = xBlockSize (hmem s) p"
    using p by (auto intro!: fields_cong)
  ultimately have "heap_shape ?m (xStart_at s) a (pxEnd s) (xs @ [(p, k, Used)] @ ys)"
    using p by (intro reshape[OF s[unfolded bs]]) (auto simp: header_ok_def)
  then show ?thesis using ok bs by (simp add: heap_ok_def heap_put_def)
qed

lemma malloc_first:
  assumes "heap_placed s" "pxEnd s = 0"
  shows "pvPortMalloc n s = pvPortMalloc n (prvHeapInit s)"
  using heap_ok_end[OF heap_init_ok(1)[OF assms(1)]] assms(2) by (simp add: pvPortMalloc_def)

interpretation h4: allocator pvPortMalloc vPortFree heap_put hmem heap_live
proof
  fix s L n r x b
  show "heap_live s L \<Longrightarrow> separate L"
    unfolding heap_live_def heap_ok_def
    by (elim disjE exE conjE, rule lodged_separate[OF shape_tiles]) (auto simp: separate_def)
  show "\<exists>r t. pvPortMalloc n s = Some (r, t) \<and> keeps L (hmem s) (hmem t) \<and>
      heap_live t (if r = 0 then L else (r, n) # L)" (is ?goal) if lv: "heap_live s L"
  proof -
    consider a bs where "heap_ok s a bs" "lodged bs L" | "L = []" "heap_placed s" "pxEnd s = 0"
      using lv by (auto simp: heap_live_def)
    then show ?goal
    proof cases
      case 1
      from malloc_lodged[OF this, of n] show ?goal unfolding heap_live_def by metis
    next
      case 2
      have "lodged bs []" for bs by (simp add: lodged_def)
      from malloc_lodged[OF heap_init_ok(1)[OF 2(2)] this, of n] show ?goal
        unfolding heap_live_def malloc_first[OF 2(2,3)] 2(1) by (fastforce simp: keeps_def owns_def)
    qed
  qed
  show "\<exists>t. vPortFree r s = Some t \<and> heap_live t (filter (\<lambda>b. fst b \<noteq> r) L) \<and>
      keeps (filter (\<lambda>b. fst b \<noteq> r) L) (hmem s) (hmem t)" if lv: "heap_live s L" "r \<in> fst ` set L"
  proof -
    obtain a bs where "heap_ok s a bs" "lodged bs L" using lv by (auto simp: heap_live_def)
    from free_lodged[OF this lv(2)] show ?thesis by (auto simp: heap_live_def)
  qed
  show "heap_live (heap_put x b s) L \<and> hmem (heap_put x b s) = (hmem s)(x := b)" if "heap_live s L" "owns L x"
    using that put_lodged[of s _ _ L x b] unfolding heap_live_def
    by (auto simp: heap_put_def owns_def)
qed

subsection \<open>Properties\<close>

text \<open>C15. On a well-formed heap \<^verbatim>\<open>pvPortMalloc\<close> returns, and it behaves as first fit: when no free
  block of the list can hold the request plus header (or the size computation overflows) the
  result is \<^verbatim>\<open>NULL\<close> and nothing changes; otherwise the first free block that is large enough is
  taken, split when more than 16 bytes would be left over, the result is 8-byte aligned, points at
  room for the request, the heap stays well formed with exactly that block list, and no byte of a
  block the application already owns changes.\<close>

theorem pvPortMalloc_first_fit:
  assumes "heap_ok s a bs"
  shows "case (if adjust_size n = 0 then None else amalloc (adjust_size n) bs) of
      None \<Rightarrow> pvPortMalloc n s = Some (0, s)
    | Some (p, cs) \<Rightarrow> \<exists>t. pvPortMalloc n s = Some (p + 8, t) \<and> (p + 8) mod 8 = 0 \<and>
        (\<exists>k. (p, k, Used) \<in> set cs \<and> n + 8 \<le> k) \<and> heap_ok t a cs \<and> same_used bs (hmem s) (hmem t)"
proof (cases "adjust_size n = 0 \<or> amalloc (adjust_size n) bs = None")
  case True
  then show ?thesis using malloc_null[OF assms True] by auto
next
  case False
  then obtain p cs where am: "amalloc (adjust_size n) bs = Some (p, cs)" by auto
  obtain t where t: "pvPortMalloc n s = Some (p + 8, t)" "heap_ok t a cs" "same_used bs (hmem s) (hmem t)"
    using malloc_block[OF assms am] False by metis
  have "coalesced bs" using assms by (simp add: heap_ok_def)
  then obtain k where k: "(p, k, Used) \<in> set cs" "adjust_size n \<le> k"
    using amalloc_coal[OF am] by fastforce
  have "8 dvd p" using shape_below[OF _ k(1)] t(2) by (auto simp: heap_ok_def)
  then show ?thesis using am t k False adjust_size_bounds(1)[OF refl, of n] by fastforce
qed

text \<open>The heap right after initialisation, placed at 0x30000000 with \<^verbatim>\<open>xStart\<close> elsewhere.\<close>

definition boot_heap :: heap4 where
  "boot_heap = \<lparr>hmem = (\<lambda>_. 0), ucHeap_at = 0x30000000, xStart_at = 0x20000000, pxEnd = 0,
     xFreeBytesRemaining = 0, xMinimumEverFreeBytesRemaining = 0,
     xNumberOfSuccessfulAllocations = 0, xNumberOfSuccessfulFrees = 0\<rparr>"

lemma boot_placed: "heap_placed boot_heap" "heap_base boot_heap = 0x30000000" "heap_top boot_heap = 0x300FFFF8"
  by (simp_all add: boot_heap_def heap_placed_def heap_base_def heap_top_def configTOTAL_HEAP_SIZE_def)

lemma boot_ok: "heap_ok (prvHeapInit boot_heap) 0x30000000 [(0x30000000, 0xFFFF8, Free)]"
  using heap_init_ok(1)[OF boot_placed(1)] by (simp add: boot_placed)

theorem pvPortMalloc_first_fit_witness:
  "\<exists>t. pvPortMalloc 100 (prvHeapInit boot_heap) = Some (0x30000008, t) \<and>
     heap_ok t 0x30000000 [(0x30000000, 112, Used), (0x30000070, 0xFFF88, Free)]"
  using pvPortMalloc_first_fit[OF boot_ok, of 100]
  by (auto simp: adjust_size_def Let_def portBYTE_ALIGNMENT_def heapADD_WILL_OVERFLOW_def heapSIZE_MAX_def)

text \<open>C16. \<^verbatim>\<open>vPortFree\<close> of a block the application owns returns with the block on the free list and
  merged with its free neighbours on either side, the payload cleared to zero, every byte of the
  other owned blocks untouched, and the free byte count exact; the invariant (no two adjacent free
  blocks) is kept.\<close>

theorem vPortFree_coalesces:
  assumes "heap_ok s a (xs @ (p, n, Used) # ys)"
  shows "\<exists>t. vPortFree (p + 8) s = Some t \<and> heap_ok t a (coal xs p n ys) \<and>
    same_used (xs @ ys) (hmem s) (hmem t) \<and> (\<forall>x. p + 8 \<le> x \<and> x < p + n \<longrightarrow> hmem t x = 0) \<and>
    xPortGetFreeHeapSize t = xPortGetFreeHeapSize s + n"
proof -
  obtain t where t: "vPortFree (p + 8) s = Some t" "heap_ok t a (coal xs p n ys)"
    "same_used (xs @ ys) (hmem s) (hmem t)" "\<And>x. p + 8 \<le> x \<Longrightarrow> x < p + n \<Longrightarrow> hmem t x = 0"
    using free_block[OF assms] by metis
  have "xPortGetFreeHeapSize t = xPortGetFreeHeapSize s + n"
    using t(2) assms by (simp add: heap_ok_def xPortGetFreeHeapSize_def free_bytes_coal)
  then show ?thesis using t by blast
qed

lemma boot_malloc:
  obtains t where "pvPortMalloc 100 (prvHeapInit boot_heap) = Some (0x30000008, t)"
    "heap_ok t 0x30000000 [(0x30000000, 112, Used), (0x30000070, 0xFFF88, Free)]"
proof -
  have "amalloc (adjust_size 100) [(0x30000000, 0xFFFF8, Free)] =
      Some (0x30000000, [(0x30000000, 112, Used), (0x30000070, 0xFFF88, Free)])" "adjust_size 100 \<noteq> 0"
    by (simp_all add: adjust_size_def Let_def portBYTE_ALIGNMENT_def heapADD_WILL_OVERFLOW_def heapSIZE_MAX_def)
  from malloc_block[OF boot_ok this] obtain t where
      "pvPortMalloc 100 (prvHeapInit boot_heap) = Some (0x30000000 + 8, t)"
      "heap_ok t 0x30000000 [(0x30000000, 112, Used), (0x30000070, 0xFFF88, Free)]"
    by metis
  then show thesis by (intro that) simp_all
qed

theorem vPortFree_coalesces_witness:
  "\<exists>s t. pvPortMalloc 100 (prvHeapInit boot_heap) = Some (0x30000008, s) \<and> vPortFree 0x30000008 s = Some t \<and>
     heap_ok t 0x30000000 [(0x30000000, 0xFFFF8, Free)]"
proof -
  obtain s where s: "pvPortMalloc 100 (prvHeapInit boot_heap) = Some (0x30000008, s)"
    "heap_ok s 0x30000000 ([] @ (0x30000000, 112, Used) # [(0x30000070, 0xFFF88, Free)])"
    using boot_malloc by auto
  from vPortFree_coalesces[OF s(2)] s(1) show ?thesis
    by (auto simp: coal_def joins_left_def joins_right_def)
qed

text \<open>Freeing what \<^verbatim>\<open>pvPortMalloc\<close> just returned restores the block structure of the heap: no
  memory is lost to fragmentation, and the amount of free memory is what it was.\<close>

theorem malloc_free_round_trip:
  assumes "heap_ok s a bs" "pvPortMalloc n s = Some (r, t)" "r \<noteq> 0"
  shows "\<exists>u. vPortFree r t = Some u \<and> heap_ok u a bs \<and> xPortGetFreeHeapSize u = xPortGetFreeHeapSize s"
proof -
  have nz: "adjust_size n \<noteq> 0" "amalloc (adjust_size n) bs \<noteq> None"
    using malloc_null[OF assms(1), of n] assms(2,3) by (metis option.inject prod.inject)+
  then obtain p cs where am: "amalloc (adjust_size n) bs = Some (p, cs)" by auto
  obtain t' where t': "pvPortMalloc n s = Some (p + 8, t')" "heap_ok t' a cs"
    using malloc_block[OF assms(1) am nz(1)] by metis
  then have t: "r = p + 8" "heap_ok t a cs" using assms(2) by auto
  have "coalesced bs" using assms(1) by (simp add: heap_ok_def)
  then obtain xs k ys where x: "cs = xs @ (p, k, Used) # ys" "coal xs p k ys = bs"
    using amalloc_coal[OF am] by blast
  obtain u where "vPortFree (p + 8) t = Some u" "heap_ok u a (coal xs p k ys)"
    using free_block[OF t(2)[unfolded x(1)]] by metis
  then show ?thesis using t(1) x(2) assms(1) by (auto simp: heap_ok_def xPortGetFreeHeapSize_def)
qed

theorem malloc_free_round_trip_witness:
  "\<exists>t u. pvPortMalloc 100 (prvHeapInit boot_heap) = Some (0x30000008, t) \<and> vPortFree 0x30000008 t = Some u \<and>
     heap_ok u 0x30000000 [(0x30000000, 0xFFFF8, Free)]"
proof -
  obtain t where t: "pvPortMalloc 100 (prvHeapInit boot_heap) = Some (0x30000008, t)" by (rule boot_malloc)
  from malloc_free_round_trip[OF boot_ok t] t show ?thesis by auto
qed

text \<open>C2. From power-on, for every sequence of allocations, releases and writes of a client that
  only touches blocks it holds: every call returns, the blocks held at any time never overlap, and
  every byte the client wrote into a block it still holds reads back as written, so the allocator
  never writes its bookkeeping into memory that is in use.\<close>

theorem heap_client_reads_back:
  assumes "heap_placed s" "pxEnd s = 0"
  shows "\<exists>t L c. play pvPortMalloc vPortFree heap_put rs s [] Map.empty = Some (t, L, c) \<and> separate L \<and>
    (\<forall>x b. c x = Some b \<longrightarrow> owns L x \<and> hmem t x = b)"
proof -
  have "heap_live s []" using assms by (simp add: heap_live_def)
  from h4.play_reads_back[OF this, of Map.empty rs] show ?thesis by auto
qed

theorem heap_client_reads_back_witness:
  "\<exists>t L c. play pvPortMalloc vPortFree heap_put [Alloc 4, Store 0x30000008 7] boot_heap [] Map.empty
     = Some (t, L, c) \<and> separate L"
  using heap_client_reads_back[OF boot_placed(1), of "[Alloc 4, Store 0x30000008 7]"]
  by (auto simp: boot_heap_def simp del: play.simps)

text \<open>The free list walk of \<^verbatim>\<open>vPortGetHeapStats\<close>.\<close>

definition free_sizes :: "block list \<Rightarrow> nat list" where
  "free_sizes bs = map (\<lambda>(p, n, k). n) (filter (\<lambda>(p, n, k). k = Free) bs)"

lemma free_sizes_simps [simp]:
  "free_sizes [] = []" "free_sizes ((p, n, k) # bs) = (if k = Free then n # free_sizes bs else free_sizes bs)"
  by (auto simp: free_sizes_def)

lemma stats_scan_finds:
  assumes "linked m (frees bs @ [e])" "\<forall>b\<in>set bs. header_ok m b" "e \<notin> set (frees bs)"
  shows "stats_scan m e (hd (frees bs @ [e])) (c, mx, mn) =
    Some (c + length (free_sizes bs), fold max (free_sizes bs) mx, fold min (free_sizes bs) mn)"
  using assms
proof (induction bs arbitrary: c mx mn)
  case Nil
  then show ?case by (subst stats_scan.simps) simp
next
  case (Cons b bs)
  obtain p n k where b: "b = (p, n, k)" by (cases b)
  show ?case
  proof (cases "k = Free")
    case False
    then show ?thesis using Cons b by auto
  next
    case True
    have "xBlockSize m p = n" using Cons.prems(2) b True by (auto simp: header_ok_def)
    moreover have "pxNextFreeBlock m p = hd (frees bs @ [e])" "linked m (frees bs @ [e])"
      using Cons.prems(1) b True by (cases "frees bs"; auto)+
    moreover have "(if n > mx then n else mx) = max n mx" "(if n < mn then n else mn) = min n mn" by auto
    ultimately show ?thesis
      using Cons b True by (subst stats_scan.simps) auto
  qed
qed

text \<open>\<^verbatim>\<open>vPortGetHeapStats\<close> reports the heap as it is: the number of free blocks, the largest and
  the smallest of them (0xffffffff when there is none) and the exact number of free bytes.\<close>

lemma vPortGetHeapStats_exact:
  assumes "heap_ok s a bs"
  shows "\<exists>st. vPortGetHeapStats s = Some st \<and> xNumberOfFreeBlocks st = length (free_sizes bs) \<and>
    xSizeOfLargestFreeBlockInBytes st = fold max (free_sizes bs) 0 \<and>
    xSizeOfSmallestFreeBlockInBytes st = fold min (free_sizes bs) 0xffffffff \<and>
    xAvailableHeapSpaceInBytes st = sum_list (free_sizes bs)"
proof -
  have s: "heap_shape (hmem s) (xStart_at s) a (pxEnd s) bs" and f: "xFreeBytesRemaining s = free_bytes bs"
    using assms by (auto simp: heap_ok_def)
  then have l: "linked (hmem s) (xStart_at s # frees bs @ [pxEnd s])" and h: "\<forall>b\<in>set bs. header_ok (hmem s) b"
    and g: "heap_geom (xStart_at s) a (pxEnd s)" and t: "tiles a bs (pxEnd s)"
    by (auto simp: heap_shape_def)
  have "linked (hmem s) (frees bs @ [pxEnd s])"
    and n: "pxNextFreeBlock (hmem s) (xStart_at s) = hd (frees bs @ [pxEnd s])"
    using l by (cases "frees bs"; auto)+
  moreover have "pxEnd s \<notin> set (frees bs)" using tiles_distinct[OF t] set_frees by fastforce
  ultimately have "stats_scan (hmem s) (pxEnd s) (hd (frees bs @ [pxEnd s])) (0, 0, 0xffffffff) =
      Some (length (free_sizes bs), fold max (free_sizes bs) 0, fold min (free_sizes bs) 0xffffffff)"
    using stats_scan_finds[OF _ h] by fastforce
  moreover have "hd (frees bs @ [pxEnd s]) \<noteq> 0"
    using malloc_scan_shape(1)[OF s] tiles_mem[OF t] g hd_in_set[of "frees bs @ [pxEnd s]"]
    by (fastforce simp: frees_def heap_geom_def)
  moreover have "free_bytes bs = sum_list (free_sizes bs)" by (induction bs) auto
  ultimately show ?thesis using n f by (simp add: vPortGetHeapStats_def)
qed

lemma vPortGetHeapStats_exact_example:
  "\<exists>st. vPortGetHeapStats (prvHeapInit boot_heap) = Some st \<and> xNumberOfFreeBlocks st = 1 \<and>
     xSizeOfLargestFreeBlockInBytes st = 0xFFFF8"
  using vPortGetHeapStats_exact[OF boot_ok] by auto

text \<open>\<^verbatim>\<open>pvPortCalloc\<close> returns \<^verbatim>\<open>NULL\<close> without touching the heap when the product of its
  arguments exceeds 32 bits; otherwise a non-null result is a block of that many zero bytes, the
  heap stays well formed and the blocks in use keep their contents.\<close>

lemma pvPortCalloc_zeroed:
  assumes "heap_ok s a bs"
  shows "(xNum * xSize \<ge> 2 ^ 32 \<longrightarrow> pvPortCalloc xNum xSize s = Some (0, s)) \<and>
    (xNum * xSize < 2 ^ 32 \<longrightarrow> (\<exists>r t cs. pvPortCalloc xNum xSize s = Some (r, t) \<and> heap_ok t a cs \<and>
       same_used bs (hmem s) (hmem t) \<and>
       (r \<noteq> 0 \<longrightarrow> (\<forall>x. r \<le> x \<and> x < r + xNum * xSize \<longrightarrow> hmem t x = 0))))"
proof (intro conjI impI)
  have ov: "heapMULTIPLY_WILL_OVERFLOW xNum xSize \<longleftrightarrow> xNum * xSize \<ge> 2 ^ 32"
  proof (cases "xNum = 0")
    case False
    then have "heapSIZE_MAX div xNum < xSize \<longleftrightarrow> heapSIZE_MAX < xNum * xSize"
      using div_less_iff_less_mult[of xNum heapSIZE_MAX xSize] by (simp add: mult.commute)
    then show ?thesis using False by (auto simp: heapMULTIPLY_WILL_OVERFLOW_def heapSIZE_MAX_def)
  qed (simp add: heapMULTIPLY_WILL_OVERFLOW_def)
  show "pvPortCalloc xNum xSize s = Some (0, s)" if "2 ^ 32 \<le> xNum * xSize"
    using that ov by (simp add: pvPortCalloc_def)
  assume "xNum * xSize < 2 ^ 32"
  then have nov: "\<not> heapMULTIPLY_WILL_OVERFLOW xNum xSize" using ov by simp
  let ?n = "xNum * xSize"
  show "\<exists>r t cs. pvPortCalloc xNum xSize s = Some (r, t) \<and> heap_ok t a cs \<and> same_used bs (hmem s) (hmem t) \<and>
       (r \<noteq> 0 \<longrightarrow> (\<forall>x. r \<le> x \<and> x < r + ?n \<longrightarrow> hmem t x = 0))"
  proof (cases "adjust_size ?n = 0 \<or> amalloc (adjust_size ?n) bs = None")
    case True
    then show ?thesis using malloc_null[OF assms True] assms nov by (auto simp: pvPortCalloc_def same_used_def)
  next
    case False
    then obtain p cs where am: "amalloc (adjust_size ?n) bs = Some (p, cs)" by auto
    obtain t where t: "pvPortMalloc ?n s = Some (p + 8, t)" "heap_ok t a cs" "same_used bs (hmem s) (hmem t)"
      using malloc_block[OF assms am] False by metis
    have co: "coalesced bs" and tb: "tiles a bs (pxEnd s)" using assms by (auto simp: heap_ok_def heap_shape_def)
    obtain xs k ys where x: "cs = xs @ (p, k, Used) # ys" "adjust_size ?n \<le> k" "coal xs p k ys = bs"
      using amalloc_coal[OF am co] by blast
    let ?m = "memset0 (p + 8) ?n (hmem t)"
    have k: "?n + 8 \<le> k" using x(2) adjust_size_bounds(1)[OF refl, of ?n] False by simp
    have sh: "heap_shape (hmem t) (xStart_at t) a (pxEnd t) (xs @ (p, k, Used) # ys)"
      using t(2) x(1) by (simp add: heap_ok_def)
    have kk: "16 \<le> k" "8 dvd k" using tiles_mem[OF shape_tiles[OF sh], of p k Used] by auto
    have "pxNextFreeBlock ?m p = pxNextFreeBlock (hmem t) p" "xBlockSize ?m p = xBlockSize (hmem t) p"
      by (auto intro!: fields_cong simp: memset0_def)
    moreover have "header_ok (hmem t) (p, k, Used)" using sh by (auto simp: heap_shape_def)
    ultimately have "heap_shape ?m (xStart_at t) a (pxEnd t) (xs @ [(p, k, Used)] @ ys)"
      using k kk by (intro reshape[OF sh]) (auto simp: header_ok_def memset0_def)
    then have ok: "heap_ok (t\<lparr>hmem := ?m\<rparr>) a cs" using t(2) x(1) by (simp add: heap_ok_def)
    have "same_used (xs @ ys) (hmem t) ?m" unfolding same_used_def
    proof (intro allI impI)
      fix u l z assume u: "(u, l, Used) \<in> set (xs @ ys)" "u \<le> z" "z < u + l"
      then have "z < p \<or> p + k \<le> z" using tiles_ordered[OF shape_tiles[OF sh], of u l Used] by auto
      then show "?m z = hmem t z" using k by (auto simp: memset0_def)
    qed
    moreover have "(u, l, Used) \<in> set bs \<longleftrightarrow> (u, l, Used) \<in> set (xs @ ys)" for u l
      using used_coal[of u l xs p k ys] x(3) by simp
    ultimately have "same_used bs (hmem s) ?m" using t(3) by (simp add: same_used_def)
    then show ?thesis using t(1) nov ok
      by (intro exI[of _ "p + 8"] exI[of _ "t\<lparr>hmem := ?m\<rparr>"] exI[of _ cs])
        (simp add: pvPortCalloc_def memset0_def)
  qed
qed

lemma pvPortCalloc_zeroed_example:
  "(\<exists>r t cs. pvPortCalloc 5 20 (prvHeapInit boot_heap) = Some (r, t) \<and> heap_ok t 0x30000000 cs) \<and>
   pvPortCalloc 65536 65536 (prvHeapInit boot_heap) = Some (0, prvHeapInit boot_heap)"
  using pvPortCalloc_zeroed[OF boot_ok, of 5 20] pvPortCalloc_zeroed[OF boot_ok, of 65536 65536] by auto

end
