(* ===== verification/Board.thy ===== *)
theory Board
  imports Prelude "HOL-Library.Monad_Syntax"
begin

section \<open>Board support: the bus, the tick timer and the serial port\<close>

text \<open>
  The drivers of \<^verbatim>\<open>2440bsp\<close> talk to hardware through volatile accesses. The hardware is not code of
  the repository, so it is a parameter: a \<open>world\<close> says what a volatile load returns, what a store
  does, and what the tick counter \<^verbatim>\<open>uwTick\<close> reads (the timer interrupt increments it behind the
  back of the polling code). The state of the hardware is of any type \<open>'d\<close> and is passed through.
  What a theorem needs of the hardware is a named hypothesis. A busy loop that never ends is \<open>None\<close>.

  This theory holds \<^verbatim>\<open>timer.c\<close> (\<^verbatim>\<open>HAL_Delay\<close>, timer set-up) and \<^verbatim>\<open>usart.c\<close>.
\<close>

subsection \<open>Volatile accesses\<close>

datatype width = W8 | W16 | W32

record 'd world =
  bus_rd :: "width \<Rightarrow> nat \<Rightarrow> 'd \<Rightarrow> u32_t \<times> 'd"
  bus_wr :: "width \<Rightarrow> nat \<Rightarrow> u32_t \<Rightarrow> 'd \<Rightarrow> 'd"
  uwTick_rd :: "'d \<Rightarrow> u32_t \<times> 'd"

definition in8 :: "'d world \<Rightarrow> nat \<Rightarrow> 'd \<Rightarrow> u8_t \<times> 'd" where
  "in8 w a d = (case bus_rd w W8 a d of (v, d') \<Rightarrow> (ucast v, d'))"

definition in16 :: "'d world \<Rightarrow> nat \<Rightarrow> 'd \<Rightarrow> u16_t \<times> 'd" where
  "in16 w a d = (case bus_rd w W16 a d of (v, d') \<Rightarrow> (ucast v, d'))"

definition in32 :: "'d world \<Rightarrow> nat \<Rightarrow> 'd \<Rightarrow> u32_t \<times> 'd" where
  "in32 w a d = bus_rd w W32 a d"

definition out8 :: "'d world \<Rightarrow> nat \<Rightarrow> u8_t \<Rightarrow> 'd \<Rightarrow> 'd" where
  "out8 w a v d = bus_wr w W8 a (ucast v) d"

definition out16 :: "'d world \<Rightarrow> nat \<Rightarrow> u16_t \<Rightarrow> 'd \<Rightarrow> 'd" where
  "out16 w a v d = bus_wr w W16 a (ucast v) d"

definition out32 :: "'d world \<Rightarrow> nat \<Rightarrow> u32_t \<Rightarrow> 'd \<Rightarrow> 'd" where
  "out32 w a v d = bus_wr w W32 a v d"

text \<open>\<^verbatim>\<open>reg |= v\<close> and \<^verbatim>\<open>reg &= ~v\<close> on a 32-bit register.\<close>

definition or32 :: "'d world \<Rightarrow> nat \<Rightarrow> u32_t \<Rightarrow> 'd \<Rightarrow> 'd" where
  "or32 w a v d = (case in32 w a d of (x, d') \<Rightarrow> out32 w a (x OR v) d')"

definition clr32 :: "'d world \<Rightarrow> nat \<Rightarrow> u32_t \<Rightarrow> 'd \<Rightarrow> 'd" where
  "clr32 w a v d = (case in32 w a d of (x, d') \<Rightarrow> out32 w a (x AND NOT v) d')"

text \<open>A busy loop: poll until the test holds of what was read.\<close>

partial_function (option) poll :: "('d \<Rightarrow> 'a \<times> 'd) \<Rightarrow> ('a \<Rightarrow> bool) \<Rightarrow> 'd \<Rightarrow> 'd option" where
  "poll rdf ok d = (case rdf d of (v, d') \<Rightarrow> if ok v then Some d' else poll rdf ok d')"

text \<open>\<open>n\<close> successive reads.\<close>

fun after_reads :: "('d \<Rightarrow> 'a \<times> 'd) \<Rightarrow> nat \<Rightarrow> 'd \<Rightarrow> 'd" where
  "after_reads rdf 0 d = d"
| "after_reads rdf (Suc n) d = after_reads rdf n (snd (rdf d))"

lemma poll_ends:
  assumes "ok (fst (rdf (after_reads rdf n d)))"
  shows "\<exists>k\<le>n. poll rdf ok d = Some (after_reads rdf (Suc k) d) \<and> ok (fst (rdf (after_reads rdf k d))) \<and>
    (\<forall>j<k. \<not> ok (fst (rdf (after_reads rdf j d))))"
  using assms
proof (induction n arbitrary: d)
  case 0
  then show ?case by (subst poll.simps) (auto split: prod.splits)
next
  case (Suc n)
  show ?case
  proof (cases "ok (fst (rdf d))")
    case True
    then show ?thesis by (intro exI[of _ 0]) (subst poll.simps, auto split: prod.splits)
  next
    case False
    obtain k where k: "k \<le> n" "poll rdf ok (snd (rdf d)) = Some (after_reads rdf (Suc k) (snd (rdf d)))"
      "ok (fst (rdf (after_reads rdf k (snd (rdf d)))))"
      "\<forall>j<k. \<not> ok (fst (rdf (after_reads rdf j (snd (rdf d)))))"
      using Suc.IH[of "snd (rdf d)"] Suc.prems by auto
    have "poll rdf ok d = poll rdf ok (snd (rdf d))" using False by (subst poll.simps) (auto split: prod.splits)
    moreover have "\<not> ok (fst (rdf (after_reads rdf j d)))" if "j < Suc k" for j
      using that k(4) False by (cases j) auto
    ultimately show ?thesis using k by (intro exI[of _ "Suc k"]) auto
  qed
qed

text \<open>What every read keeps, the loop keeps.\<close>

lemma poll_keeps:
  assumes "poll r ok d = Some d'" "\<And>d. Q d \<Longrightarrow> Q (snd (r d))" "Q d"
  shows "Q d'"
proof -
  have "(\<forall>d. Q d \<longrightarrow> Q (snd (r d))) \<longrightarrow> Q d \<longrightarrow> Q d'"
  proof (rule poll.raw_induct[OF _ assms(1), where P = "\<lambda>r _ d d'. (\<forall>d. Q d \<longrightarrow> Q (snd (r d))) \<longrightarrow> Q d \<longrightarrow> Q d'"], goal_cases)
    case (1 loop r ok d y)
    show ?case
    proof (intro impI)
      assume q: "\<forall>d. Q d \<longrightarrow> Q (snd (r d))" "Q d"
      obtain v d1 where v: "r d = (v, d1)" by (cases "r d")
      have "Q d1" using q v by (metis snd_conv)
      then show "Q y" using 1(1)[of r ok d1 y] 1(2) q(1) by (auto simp: v split: if_splits)
    qed
  qed
  then show ?thesis using assms(2,3) by blast
qed

lemma after_reads_Suc: "after_reads rdf (Suc n) d = snd (rdf (after_reads rdf n d))"
  by (induction n arbitrary: d) auto

subsection \<open>Interrupt and timer registers, timer.c\<close>

definition SRCPND :: nat where "SRCPND = 0x4A000000"
definition INTPND :: nat where "INTPND = 0x4A000010"
definition INTOFFSET :: nat where "INTOFFSET = 0x4A000014"
definition GPFCON :: nat where "GPFCON = 0x56000050"
definition EXTINT0 :: nat where "EXTINT0 = 0x56000088"
definition EINTMASK :: nat where "EINTMASK = 0x560000a4"
definition EINTPEND :: nat where "EINTPEND = 0x560000a8"
definition INTMSK :: nat where "INTMSK = 0x4A000008"
definition INTMOD :: nat where "INTMOD = 0x4A000004"
definition TCFG0 :: nat where "TCFG0 = 0x51000000"
definition TCON :: nat where "TCON = 0x51000008"
definition TCNTB0 :: nat where "TCNTB0 = 0x5100000c"
definition TCNTB4 :: nat where "TCNTB4 = 0x5100003c"

definition tim4_init :: "'d world \<Rightarrow> 'd \<Rightarrow> 'd" where
  "tim4_init w d =
     (let d = or32 w TCFG0 (push_bit 8 (50 div 2 - 1)) d;
          d = or32 w TCON (push_bit 22 1) d;
          d = out32 w TCNTB4 2000 d;
          d = or32 w TCON (push_bit 21 1) d;
          d = clr32 w TCON (push_bit 21 1) d;
          d = clr32 w INTMSK (push_bit 14 1) d;
          d = or32 w INTMOD (push_bit 14 1) d
      in or32 w TCON (push_bit 20 1) d)"

definition tim0_init :: "'d world \<Rightarrow> 'd \<Rightarrow> 'd" where
  "tim0_init w d =
     (let d = out32 w TCFG0 (50 div 2 - 1) d;
          d = or32 w TCON (push_bit 3 1) d;
          d = out32 w TCNTB0 1000 d;
          d = or32 w TCON (push_bit 1 1) d;
          d = clr32 w TCON (push_bit 1 1) d;
          d = clr32 w INTMSK (push_bit 10 1) d
      in or32 w TCON (push_bit 0 1) d)"

definition HAL_GetTick :: "'d world \<Rightarrow> 'd \<Rightarrow> u32_t \<times> 'd" where
  "HAL_GetTick w d = uwTick_rd w d"

definition sys_now :: "'d world \<Rightarrow> 'd \<Rightarrow> u32_t \<times> 'd" where
  "sys_now w d = HAL_GetTick w d"

definition HAL_MAX_DELAY :: u32_t where "HAL_MAX_DELAY = 0xFFFFFFFF"

definition HAL_Delay :: "'d world \<Rightarrow> u32_t \<Rightarrow> 'd \<Rightarrow> 'd option" where
  "HAL_Delay w Delay d =
     (let (tickstart, d1) = HAL_GetTick w d;
          wait = (if Delay < HAL_MAX_DELAY then Delay + 1 else Delay)
      in poll (HAL_GetTick w) (\<lambda>t. \<not> t - tickstart < wait) d1)"

text \<open>The clock: \<open>T d\<close> counts the timer interrupts since power-on. A read of \<^verbatim>\<open>uwTick\<close> returns
  that count modulo 2^32; between two reads of a polling loop at most one interrupt occurs, and
  polling long enough sees the next one.\<close>

definition clock_ok :: "'d world \<Rightarrow> ('d \<Rightarrow> nat) \<Rightarrow> bool" where
  "clock_ok w T \<longleftrightarrow>
     (\<forall>d. fst (uwTick_rd w d) = of_nat (T (snd (uwTick_rd w d)))) \<and>
     (\<forall>d. T d \<le> T (snd (uwTick_rd w d)) \<and> T (snd (uwTick_rd w d)) \<le> T d + 1) \<and>
     (\<forall>d. \<exists>n. T (after_reads (uwTick_rd w) n d) = T d + 1)"

lemma clock_reaches:
  assumes "clock_ok w T"
  shows "\<exists>n. T (after_reads (uwTick_rd w) n d) = T d + k"
proof (induction k)
  case 0
  show ?case by (intro exI[of _ 0]) simp
next
  case (Suc k)
  have add: "after_reads r (n + m) d = after_reads r m (after_reads r n d)" for r :: "'a \<Rightarrow> u32_t \<times> 'a" and n m d
    by (induction n arbitrary: d) auto
  obtain n where n: "T (after_reads (uwTick_rd w) n d) = T d + k" using Suc by blast
  obtain m where "T (after_reads (uwTick_rd w) m (after_reads (uwTick_rd w) n d)) = T d + k + 1"
    using assms unfolding clock_ok_def by (metis n)
  then show ?case using add[of "uwTick_rd w" n m d] by (intro exI[of _ "n + m"]) auto
qed

lemma clock_mono:
  assumes "clock_ok w T" "i \<le> j"
  shows "T (after_reads (uwTick_rd w) i d) \<le> T (after_reads (uwTick_rd w) j d)"
  using assms(2)
proof (induction j rule: dec_induct)
  case (step j)
  then show ?case using assms(1) after_reads_Suc[of "uwTick_rd w" j d]
    by (auto simp: clock_ok_def intro: le_trans)
qed simp

text \<open>The first poll that sees the deadline sees it exactly.\<close>

lemma elapsed_word:
  fixes k :: nat and s :: nat and wt :: u32_t
  assumes "k \<le> unat wt"
  shows "of_nat (s + k) - (of_nat s :: u32_t) < wt \<longleftrightarrow> k < unat wt"
proof -
  have "k < 2 ^ 32" using assms unat_bounds(3)[of wt] by simp
  then have "unat (of_nat k :: u32_t) = k" by (simp add: unat_of_nat)
  then show ?thesis by (simp add: word_less_nat_alt)
qed

lemma HAL_Delay_waits:
  fixes w :: "'d world" and Delay :: u32_t
  assumes c: "clock_ok w T"
  defines "wait \<equiv> (if Delay < HAL_MAX_DELAY then Delay + 1 else Delay)"
  shows "\<exists>d'. HAL_Delay w Delay d = Some d' \<and> T d' = T (snd (HAL_GetTick w d)) + unat wait"
proof -
  let ?r = "uwTick_rd w"
  define d1 where "d1 = snd (?r d)"
  have tick: "fst (?r x) = of_nat (T (snd (?r x)))" for x using c by (auto simp: clock_ok_def)
  have w0: "0 < unat wait"
  proof -
    have "Delay + 1 \<noteq> 0" if "Delay < HAL_MAX_DELAY"
    proof
      assume "Delay + 1 = 0"
      then have "Delay = - 1" by (simp add: eq_neg_iff_add_eq_0)
      then show False using that by (simp add: HAL_MAX_DELAY_def)
    qed
    then have "wait \<noteq> 0" by (auto simp: wait_def HAL_MAX_DELAY_def)
    then show ?thesis by (simp add: unat_gt_0)
  qed
  obtain n where n: "T (after_reads ?r n d1) = T d1 + unat wait" using clock_reaches[OF c] by blast
  then obtain m where m: "n = Suc m" using w0 by (cases n) auto
  have val: "fst (?r (after_reads ?r j d1)) = of_nat (T (after_reads ?r (Suc j) d1))" for j
    unfolding after_reads_Suc[of _ j] by (rule tick)
  let ?ok = "\<lambda>t. \<not> t - fst (?r d) < wait"
  have start: "fst (?r d) = of_nat (T d1)" using tick d1_def by simp
  have "?ok (fst (?r (after_reads ?r m d1)))"
    unfolding val start n[unfolded m] using elapsed_word[of "unat wait" wait "T d1"] by simp
  from poll_ends[of ?ok ?r m d1, OF this]
  obtain k where k: "k \<le> m" "poll ?r ?ok d1 = Some (after_reads ?r (Suc k) d1)" "?ok (fst (?r (after_reads ?r k d1)))"
    by blast
  define e where "e = T (after_reads ?r (Suc k) d1) - T d1"
  have e: "T (after_reads ?r (Suc k) d1) = T d1 + e"
    using clock_mono[OF c, of 0 "Suc k" d1] by (simp add: e_def)
  have "e \<le> unat wait" using clock_mono[OF c, of "Suc k" "Suc m" d1] k(1) n m e by simp
  then have "e = unat wait"
    using k(3) elapsed_word[of e wait "T d1"] unfolding val start e by simp
  then have "T (after_reads ?r (Suc k) d1) = T d1 + unat wait" using e by simp
  moreover have "HAL_Delay w Delay d = Some (after_reads ?r (Suc k) d1)"
    unfolding HAL_Delay_def Let_def HAL_GetTick_def wait_def[symmetric]
    using k(2) by (simp add: d1_def case_prod_beta)
  ultimately show ?thesis by (auto simp: HAL_GetTick_def d1_def)
qed

subsection \<open>usart.c\<close>

definition GPHCON :: nat where "GPHCON = 0x56000070"
definition GPHUP :: nat where "GPHUP = 0x56000078"
definition ULCON0 :: nat where "ULCON0 = 0x50000000"
definition UCON0 :: nat where "UCON0 = 0x50000004"
definition UFCON0 :: nat where "UFCON0 = 0x50000008"
definition UMCON0 :: nat where "UMCON0 = 0x5000000c"
definition UTRSTAT0 :: nat where "UTRSTAT0 = 0x50000010"
definition UTXH0 :: nat where "UTXH0 = 0x50000020"
definition UBRDIV0 :: nat where "UBRDIV0 = 0x50000028"

definition TXD0READY :: u32_t where "TXD0READY = push_bit 2 1"

definition UART_BRD :: u32_t where "UART_BRD = 50000000 div (115200 * 16) - 1"

definition uart0_init :: "'d world \<Rightarrow> 'd \<Rightarrow> 'd" where
  "uart0_init w d =
     (let d = or32 w GPHCON 0xa0 d;
          d = out32 w GPHUP 0x0c d;
          d = out32 w ULCON0 0x03 d;
          d = out32 w UCON0 0x05 d;
          d = out32 w UFCON0 0x00 d;
          d = out32 w UMCON0 0x00 d
      in out32 w UBRDIV0 UART_BRD d)"

definition uart0_sendbyte :: "'d world \<Rightarrow> u8_t \<Rightarrow> 'd \<Rightarrow> 'd option" where
  "uart0_sendbyte w b d =
     do { d \<leftarrow> poll (in32 w UTRSTAT0) (\<lambda>v. v AND TXD0READY \<noteq> 0) d; Some (out8 w UTXH0 b d) }"

text \<open>\<^verbatim>\<open>_write\<close> returns its length argument; the loop sends \<^verbatim>\<open>len\<close> bytes from \<^verbatim>\<open>ptr\<close>.\<close>

fun write_loop :: "'d world \<Rightarrow> u8_t list \<Rightarrow> 'd \<Rightarrow> 'd option" where
  "write_loop w [] d = Some d"
| "write_loop w (b # bs) d = do { d \<leftarrow> uart0_sendbyte w b d; write_loop w bs d }"

definition uart_write :: "'d world \<Rightarrow> u8_t list \<Rightarrow> 'd \<Rightarrow> (int \<times> 'd) option" where
  "uart_write w bs d = do { d \<leftarrow> write_loop w bs d; Some (int (length bs), d) }"

definition isDigit :: "u8_t \<Rightarrow> bool" where
  "isDigit c \<longleftrightarrow> 48 \<le> c \<and> c \<le> 57"

definition isLetter :: "u8_t \<Rightarrow> bool" where
  "isLetter c \<longleftrightarrow> 97 \<le> c \<and> c \<le> 122 \<or> 65 \<le> c \<and> c \<le> 90"

text \<open>One digit of \<^verbatim>\<open>puthex\<close>; \<^verbatim>\<open>j\<close> is an \<^verbatim>\<open>int\<close> between 0 and 15.\<close>

definition hex_digit :: "u32_t \<Rightarrow> nat \<Rightarrow> u8_t" where
  "hex_digit val i =
     (let j = drop_bit ((7 - i) * 4) val AND 0x0f
      in if j \<le> 9 then 48 + ucast j else 65 + ucast j - 0x0a)"

definition puthex :: "'d world \<Rightarrow> u32_t \<Rightarrow> 'd \<Rightarrow> 'd option" where
  "puthex w val d =
     do { (_, d) \<leftarrow> uart_write w [48, 120] d;
          d \<leftarrow> write_loop w (map (hex_digit val) [0..<8]) d;
          (_, d) \<leftarrow> uart_write w [13, 10] d;
          Some d }"

text \<open>The serial port: polling the status leaves what was sent alone and sees the transmitter
  ready after some reads; a byte stored to the transmit register while ready is sent.\<close>

definition uart_ok :: "'d world \<Rightarrow> ('d \<Rightarrow> u8_t list) \<Rightarrow> bool" where
  "uart_ok w sent \<longleftrightarrow>
     (\<forall>d. sent (snd (in32 w UTRSTAT0 d)) = sent d) \<and>
     (\<forall>d. \<exists>n. fst (in32 w UTRSTAT0 (after_reads (in32 w UTRSTAT0) n d)) AND TXD0READY \<noteq> 0) \<and>
     (\<forall>d b. fst (in32 w UTRSTAT0 d) AND TXD0READY \<noteq> 0 \<longrightarrow>
        sent (out8 w UTXH0 b (snd (in32 w UTRSTAT0 d))) = sent d @ [b])"

lemma sendbyte_sends:
  assumes "uart_ok w sent"
  shows "\<exists>d'. uart0_sendbyte w b d = Some d' \<and> sent d' = sent d @ [b]"
proof -
  let ?r = "in32 w UTRSTAT0" and ?ok = "\<lambda>v. v AND TXD0READY \<noteq> 0"
  obtain n where "?ok (fst (?r (after_reads ?r n d)))" using assms unfolding uart_ok_def by blast
  from poll_ends[of ?ok ?r n d, OF this] obtain k where
    k: "poll ?r ?ok d = Some (after_reads ?r (Suc k) d)" "?ok (fst (?r (after_reads ?r k d)))"
    by blast
  have "sent (after_reads ?r j d) = sent d" for j
    using assms by (induction j arbitrary: d) (auto simp: uart_ok_def)
  moreover have "sent (out8 w UTXH0 b (after_reads ?r (Suc k) d)) = sent (after_reads ?r k d) @ [b]"
    using assms k(2) unfolding after_reads_Suc uart_ok_def by blast
  ultimately show ?thesis using k(1) by (simp add: uart0_sendbyte_def)
qed

lemma write_loop_sends:
  assumes "uart_ok w sent"
  shows "\<exists>d'. write_loop w bs d = Some d' \<and> sent d' = sent d @ bs"
proof (induction bs arbitrary: d)
  case (Cons b bs)
  obtain d1 where d1: "uart0_sendbyte w b d = Some d1" "sent d1 = sent d @ [b]"
    using sendbyte_sends[OF assms] by blast
  obtain d2 where "write_loop w bs d1 = Some d2" "sent d2 = sent d1 @ bs" using Cons by blast
  with d1 show ?case by simp
qed simp

text \<open>Reading hexadecimal digits back.\<close>

definition hex_value :: "u8_t \<Rightarrow> nat" where
  "hex_value c = (if isDigit c then unat c - 48 else unat c - 55)"

fun hex_number :: "u8_t list \<Rightarrow> nat" where
  "hex_number [] = 0"
| "hex_number (c # cs) = hex_value c * 16 ^ length cs + hex_number cs"

lemma hex_digit_char:
  fixes val :: u32_t and i :: nat
  defines "n \<equiv> unat val div 16 ^ (7 - i) mod 16"
  shows "hex_digit val i = of_nat (if n \<le> 9 then 48 + n else 55 + n)"
proof -
  let ?j = "drop_bit ((7 - i) * 4) val AND (0x0f :: u32_t)"
  have j: "unat ?j = unat val div 16 ^ (7 - i) mod 16"
  proof -
    have "unat ?j = unat val div 2 ^ ((7 - i) * 4) mod 16" by (simp add: unat_and_masks unat_drop_bit)
    then show ?thesis by (simp add: power_mult mult.commute[of "7 - i"])
  qed
  have n: "n < 16" "unat ?j = n" using j by (simp_all add: n_def)
  have "ucast ?j = (of_nat (unat ?j) :: u8_t)" by (simp add: of_nat_unat)
  then have c: "ucast ?j = (of_nat n :: u8_t)" using n(2) by simp
  show ?thesis
    using c n by (auto simp: hex_digit_def Let_def word_le_nat_alt)
qed

lemma hex_digit_value:
  "hex_value (hex_digit val i) = unat val div 16 ^ (7 - i) mod 16"
  "isDigit (hex_digit val i) \<or> isLetter (hex_digit val i)"
proof -
  define n where "n = unat val div 16 ^ (7 - i) mod 16"
  have n: "n < 16" by (simp add: n_def)
  then have "unat (of_nat (48 + n) :: u8_t) = 48 + n" "unat (of_nat (55 + n) :: u8_t) = 55 + n"
    by (simp_all add: unat_of_nat del: of_nat_add)
  then show "hex_value (hex_digit val i) = unat val div 16 ^ (7 - i) mod 16"
    "isDigit (hex_digit val i) \<or> isLetter (hex_digit val i)"
    using n unfolding hex_digit_char n_def[symmetric]
    by (auto simp: hex_value_def isDigit_def isLetter_def word_le_nat_alt simp del: of_nat_add)
qed

lemma hex_number_digits:
  "k \<le> 8 \<Longrightarrow> hex_number (map (hex_digit val) [8 - k..<8]) = unat val mod 16 ^ k"
proof (induction k)
  case (Suc k)
  have u: "[8 - Suc k..<8] = (8 - Suc k) # [8 - k..<8]"
    using Suc.prems by (metis Suc_diff_le Suc_diff_Suc diff_Suc_Suc diff_less le_imp_less_Suc less_Suc_eq_le upt_conv_Cons zero_less_Suc numeral_less_iff Suc_le_lessD diff_le_self zero_less_numeral)
  have "hex_value (hex_digit val (8 - Suc k)) = unat val div 16 ^ k mod 16"
    using hex_digit_value(1)[of val "8 - Suc k"] Suc.prems by simp
  then have "hex_number (map (hex_digit val) [8 - Suc k..<8]) =
      (unat val div 16 ^ k mod 16) * 16 ^ k + unat val mod 16 ^ k"
    using Suc u by simp
  also have "\<dots> = unat val mod 16 ^ Suc k"
    using mod_mult2_eq[of "unat val" "16 ^ k" 16] by (simp add: mult.commute)
  finally show ?case .
qed simp

subsection \<open>Properties\<close>

text \<open>C27. \<^verbatim>\<open>HAL_Delay\<close> returns, and it does so when exactly \<^verbatim>\<open>Delay + 1\<close> tick interrupts have occurred
  since it read the counter (\<^verbatim>\<open>Delay\<close> for the largest value), for every start value of the
  wrapping 32-bit counter: at least \<^verbatim>\<open>Delay\<close> full tick periods pass, and no wrap-around
  shortens or prolongs the wait.\<close>

theorem HAL_Delay_exact:
  assumes "clock_ok w T"
  shows "\<exists>d'. HAL_Delay w Delay d = Some d' \<and>
    T d' = T (snd (HAL_GetTick w d)) + (if Delay = 0xFFFFFFFF then 2 ^ 32 - 1 else unat Delay + 1)"
proof -
  have "unat (if Delay < HAL_MAX_DELAY then Delay + 1 else Delay) =
      (if Delay = 0xFFFFFFFF then 2 ^ 32 - 1 else unat Delay + 1)"
  proof (cases "Delay = 0xFFFFFFFF")
    case True
    then show ?thesis by (simp add: HAL_MAX_DELAY_def)
  next
    case False
    have e: "(0xFFFFFFFF :: u32_t) = - 1" by simp
    have m: "Delay \<noteq> - 1" using False unfolding e .
    then have "Delay < HAL_MAX_DELAY" unfolding HAL_MAX_DELAY_def e by (simp add: word_order.not_eq_extremum)
    moreover have "1 + Delay \<noteq> 0" using m by (metis add.commute eq_neg_iff_add_eq_0)
    then have "unat (Delay + 1) = unat Delay + 1" using unatSuc[of Delay] by (simp add: add.commute)
    ultimately show ?thesis using False by simp
  qed
  then show ?thesis using HAL_Delay_waits[OF assms, of Delay d] by simp
qed

text \<open>A clock that ticks at every read.\<close>

definition ticking :: "nat world" where
  "ticking = \<lparr>bus_rd = (\<lambda>_ _ d. (0, d)), bus_wr = (\<lambda>_ _ _ d. d), uwTick_rd = (\<lambda>d. (of_nat (d + 1), d + 1))\<rparr>"

lemma ticking_ok: "clock_ok ticking (\<lambda>d. d)"
  unfolding clock_ok_def ticking_def by (auto intro: exI[of _ "Suc 0"])

theorem HAL_Delay_exact_witness:
  "\<exists>d'. HAL_Delay ticking 3 (2 ^ 32 - 2) = Some d' \<and> d' = 2 ^ 32 - 1 + 4"
  using HAL_Delay_exact[OF ticking_ok, of 3 "2 ^ 32 - 2"] by (simp add: HAL_GetTick_def ticking_def)

text \<open>\<^verbatim>\<open>puthex\<close> sends \<^verbatim>\<open>0x\<close>, eight hexadecimal digits, most significant first, whose value is
  the argument, and a line end; \<^verbatim>\<open>_write\<close> sends exactly the bytes it is given and returns their
  number.\<close>

theorem puthex_sends:
  assumes "uart_ok w sent"
  shows "(\<exists>d'. uart_write w bs d = Some (int (length bs), d') \<and> sent d' = sent d @ bs) \<and>
    (\<exists>d' ds. puthex w val d = Some d' \<and> sent d' = sent d @ [48, 120] @ ds @ [13, 10] \<and>
       length ds = 8 \<and> hex_number ds = unat val \<and> (\<forall>c\<in>set ds. isDigit c \<or> isLetter c))"
proof -
  have wr: "\<exists>d'. uart_write w bs d = Some (int (length bs), d') \<and> sent d' = sent d @ bs" for bs d
    using write_loop_sends[OF assms, of bs d] by (auto simp: uart_write_def)
  let ?ds = "map (hex_digit val) [0..<8]"
  obtain d1 where d1: "uart_write w [48, 120] d = Some (2, d1)" "sent d1 = sent d @ [48, 120]"
    using wr[of "[48, 120]" d] by auto
  obtain d2 where d2: "write_loop w ?ds d1 = Some d2" "sent d2 = sent d1 @ ?ds"
    using write_loop_sends[OF assms] by blast
  obtain d3 where d3: "uart_write w [13, 10] d2 = Some (2, d3)" "sent d3 = sent d2 @ [13, 10]"
    using wr[of "[13, 10]" d2] by auto
  have "puthex w val d = Some d3" using d1 d2 d3 by (simp add: puthex_def)
  moreover have "hex_number ?ds = unat val"
    using hex_number_digits[of 8 val] unat_bounds(3)[of val] by simp
  moreover have "isDigit c \<or> isLetter c" if c: "c \<in> set ?ds" for c
  proof -
    obtain i where "c = hex_digit val i" using c by auto
    then show ?thesis using hex_digit_value(2) by simp
  qed
  moreover have "sent d3 = sent d @ [48, 120] @ ?ds @ [13, 10]" "length ?ds = 8" using d1 d2 d3 by simp_all
  ultimately show ?thesis using wr[of bs d] by blast
qed

definition serial :: "u8_t list world" where
  "serial = \<lparr>bus_rd = (\<lambda>_ _ d. (4, d)), bus_wr = (\<lambda>_ a v d. if a = UTXH0 then d @ [ucast v] else d),
     uwTick_rd = (\<lambda>d. (0, d))\<rparr>"

lemma serial_ok: "uart_ok serial (\<lambda>d. d)"
  by (auto simp: uart_ok_def serial_def in32_def out8_def UTXH0_def TXD0READY_def)

theorem puthex_sends_witness:
  "\<exists>d' ds. puthex serial 0x30001A5F [] = Some d' \<and> d' = [48, 120] @ ds @ [13, 10] \<and> hex_number ds = 0x30001A5F"
  using puthex_sends[OF serial_ok, of "[]" "[]" "0x30001A5F"] by auto

end
