(* ===== verification/Port.thy ===== *)
theory Port
  imports Board
begin

section \<open>The ARM9 port of the kernel: task contexts and critical sections\<close>

text \<open>
  \<^verbatim>\<open>port.c\<close>, \<^verbatim>\<open>portISR.c\<close> and the context macros of \<^verbatim>\<open>portmacro.h\<close>. The machine has the registers
  of the interrupted task (system mode: \<^verbatim>\<open>R0-R12\<close>, \<^verbatim>\<open>SP\<close>, \<^verbatim>\<open>LR\<close>), the banked registers of the
  exception mode in which the macros run (\<^verbatim>\<open>SP\<close>, \<^verbatim>\<open>LR\<close>, \<^verbatim>\<open>SPSR\<close>), and a memory of 32-bit words
  indexed by (word-aligned) address. The macros are translated one instruction per line. The
  kernel functions that they call are parameters.
\<close>

record arm =
  R :: "nat \<Rightarrow> u32_t"
  SPu :: u32_t
  LRu :: u32_t
  SPx :: u32_t
  LRx :: u32_t
  SPSRx :: u32_t
  CPSR :: u32_t
  PC :: u32_t
  words :: "u32_t \<Rightarrow> u32_t"
  current_tcb :: u32_t
  ulCriticalNesting :: u32_t

definition setR0 :: "u32_t \<Rightarrow> arm \<Rightarrow> arm" where
  "setR0 v s = s\<lparr>R := (R s)(0 := v)\<rparr>"

definition poke :: "u32_t \<Rightarrow> u32_t \<Rightarrow> arm \<Rightarrow> arm" where
  "poke a v s = s\<lparr>words := (words s)(a := v)\<rparr>"

text \<open>The registers \<^verbatim>\<open>R0-R14\<close> of system mode, as \<^verbatim>\<open>{R0-LR}^\<close> names them.\<close>

definition user_reg :: "arm \<Rightarrow> nat \<Rightarrow> u32_t" where
  "user_reg s i = (if i = 13 then SPu s else if i = 14 then LRu s else R s i)"

definition user_regs :: "arm \<Rightarrow> u32_t list" where
  "user_regs s = map (user_reg s) [0..<15]"

text \<open>Store a list at consecutive words; load the 15 registers from consecutive words.\<close>

fun store_words :: "u32_t \<Rightarrow> u32_t list \<Rightarrow> (u32_t \<Rightarrow> u32_t) \<Rightarrow> (u32_t \<Rightarrow> u32_t)" where
  "store_words a [] m = m"
| "store_words a (v # vs) m = store_words (a + 4) vs (m(a := v))"

definition load_user :: "u32_t \<Rightarrow> arm \<Rightarrow> arm" where
  "load_user a s = s\<lparr>R := (\<lambda>i. if i < 13 then words s (a + 4 * of_nat i) else R s i),
     SPu := words s (a + 52), LRu := words s (a + 56)\<rparr>"

subsection \<open>portSAVE\_CONTEXT and portRESTORE\_CONTEXT\<close>

definition portSAVE_CONTEXT :: "arm \<Rightarrow> arm" where
  "portSAVE_CONTEXT s =
     (let s = poke (SPx s - 4) (R s 0) s; s = s\<lparr>SPx := SPx s - 4\<rparr>;          \<comment> \<open>STMDB SP!, {R0}\<close>
          s = poke (SPx s - 4) (SPu s) s;                                     \<comment> \<open>STMDB SP, {SP}^\<close>
          s = s\<lparr>SPx := SPx s - 4\<rparr>;                                            \<comment> \<open>SUB SP, SP, #4\<close>
          s = setR0 (words s (SPx s)) s; s = s\<lparr>SPx := SPx s + 4\<rparr>;            \<comment> \<open>LDMIA SP!, {R0}\<close>
          s = poke (R s 0 - 4) (LRx s) s; s = setR0 (R s 0 - 4) s;            \<comment> \<open>STMDB R0!, {LR}\<close>
          s = s\<lparr>LRx := R s 0\<rparr>;                                                \<comment> \<open>MOV LR, R0\<close>
          s = setR0 (words s (SPx s)) s; s = s\<lparr>SPx := SPx s + 4\<rparr>;            \<comment> \<open>LDMIA SP!, {R0}\<close>
          s = s\<lparr>words := store_words (LRx s - 60) (user_regs s) (words s)\<rparr>;   \<comment> \<open>STMDB LR, {R0-LR}^\<close>
          s = s\<lparr>LRx := LRx s - 60\<rparr>;                                           \<comment> \<open>SUB LR, LR, #60\<close>
          s = setR0 (SPSRx s) s;                                              \<comment> \<open>MRS R0, SPSR\<close>
          s = poke (LRx s - 4) (R s 0) s; s = s\<lparr>LRx := LRx s - 4\<rparr>;          \<comment> \<open>STMDB LR!, {R0}\<close>
          s = setR0 (ulCriticalNesting s) s;                                  \<comment> \<open>LDR R0, [ulCriticalNesting]\<close>
          s = poke (LRx s - 4) (R s 0) s; s = s\<lparr>LRx := LRx s - 4\<rparr>;          \<comment> \<open>STMDB LR!, {R0}\<close>
          s = setR0 (current_tcb s) s                                        \<comment> \<open>LDR R0, [pxCurrentTCB]\<close>
      in poke (R s 0) (LRx s) s)"

definition portRESTORE_CONTEXT :: "arm \<Rightarrow> arm" where
  "portRESTORE_CONTEXT s =
     (let s = setR0 (current_tcb s) s;                                       \<comment> \<open>LDR R0, [pxCurrentTCB]\<close>
          s = s\<lparr>LRx := words s (R s 0)\<rparr>;                                      \<comment> \<open>LDR LR, [R0]\<close>
          v = words s (LRx s); s = s\<lparr>LRx := LRx s + 4\<rparr>;                      \<comment> \<open>LDMFD LR!, {R1}\<close>
          s = s\<lparr>R := (R s)(1 := v)\<rparr>; s = s\<lparr>ulCriticalNesting := R s 1\<rparr>;       \<comment> \<open>STR R1, [ulCriticalNesting]\<close>
          s = setR0 (words s (LRx s)) s; s = s\<lparr>LRx := LRx s + 4\<rparr>;            \<comment> \<open>LDMFD LR!, {R0}\<close>
          s = s\<lparr>SPSRx := R s 0\<rparr>;                                              \<comment> \<open>MSR SPSR, R0\<close>
          s = load_user (LRx s) s;                                            \<comment> \<open>LDMFD LR, {R0-R14}^\<close>
          s = s\<lparr>LRx := words s (LRx s + 60)\<rparr>                                  \<comment> \<open>LDR LR, [LR, #+60]\<close>
      in s\<lparr>PC := LRx s - 4, CPSR := SPSRx s\<rparr>)"                               

subsection \<open>port.c\<close>

definition portINITIAL_SPSR :: u32_t where "portINITIAL_SPSR = 0x1f"
definition portTHUMB_MODE_BIT :: u32_t where "portTHUMB_MODE_BIT = 0x20"
definition portINSTRUCTION_SIZE :: u32_t where "portINSTRUCTION_SIZE = 4"
definition portNO_CRITICAL_SECTION_NESTING :: u32_t where "portNO_CRITICAL_SECTION_NESTING = 0"

text \<open>Each store goes to the word below the previous one.\<close>

fun push_down :: "u32_t \<Rightarrow> u32_t list \<Rightarrow> (u32_t \<Rightarrow> u32_t) \<Rightarrow> u32_t \<times> (u32_t \<Rightarrow> u32_t)" where
  "push_down p [] m = (p, m)"
| "push_down p (v # vs) m = push_down (p - 4) vs (m(p - 4 := v))"

definition pxPortInitialiseStack :: "u32_t \<Rightarrow> u32_t \<Rightarrow> u32_t \<Rightarrow> (u32_t \<Rightarrow> u32_t) \<Rightarrow> u32_t \<times> (u32_t \<Rightarrow> u32_t)" where
  "pxPortInitialiseStack pxTopOfStack pxCode pvParameters m =
     push_down pxTopOfStack
       [pxCode + portINSTRUCTION_SIZE, 0xaaaaaaaa, pxTopOfStack, 0x12121212, 0x11111111, 0x10101010, 0x09090909,
        0x08080808, 0x07070707, 0x06060606, 0x05050505, 0x04040404, 0x03030303, 0x02020202, 0x01010101,
        pvParameters,
        (if pxCode AND 0x01 \<noteq> 0 then portINITIAL_SPSR OR portTHUMB_MODE_BIT else portINITIAL_SPSR),
        portNO_CRITICAL_SECTION_NESTING] m"

text \<open>\<^verbatim>\<open>vPortISRStartFirstTask\<close>: FIQ mode with interrupts off, then the first task.\<close>

definition vPortISRStartFirstTask :: "arm \<Rightarrow> arm" where
  "vPortISRStartFirstTask s = portRESTORE_CONTEXT (s\<lparr>CPSR := (CPSR s AND NOT 0xff) OR 0xd1\<rparr>)"

definition prvSetupTimerInterrupt :: "'d world \<Rightarrow> 'd \<Rightarrow> 'd" where
  "prvSetupTimerInterrupt w d = tim4_init w d"

definition xPortStartScheduler :: "'d world \<Rightarrow> 'd \<times> arm \<Rightarrow> 'd \<times> arm" where
  "xPortStartScheduler w = (\<lambda>(d, s). (prvSetupTimerInterrupt w d, vPortISRStartFirstTask s))"

definition vPortEndScheduler :: "arm \<Rightarrow> arm" where
  "vPortEndScheduler s = s"

subsection \<open>portISR.c\<close>

text \<open>The yield (software interrupt) and the tick (FIQ). \<open>sw\<close> is \<^verbatim>\<open>vTaskSwitchContext\<close>, \<open>inc\<close> is
  \<^verbatim>\<open>xTaskIncrementTick\<close>.\<close>

definition vPortYieldProcessor :: "(arm \<Rightarrow> arm) \<Rightarrow> arm \<Rightarrow> arm" where
  "vPortYieldProcessor sw s =
     (let s = s\<lparr>LRx := LRx s + 4\<rparr>; s = portSAVE_CONTEXT s; s = sw s in portRESTORE_CONTEXT s)"

definition vTickISR :: "'d world \<Rightarrow> (arm \<Rightarrow> bool \<times> arm) \<Rightarrow> (arm \<Rightarrow> arm) \<Rightarrow> 'd \<times> arm \<Rightarrow> 'd \<times> arm" where
  "vTickISR w inc sw = (\<lambda>(d, s).
     (let s = portSAVE_CONTEXT s;
          (switch, s) = inc s;
          s = (if switch then sw s else s);
          d = out32 w SRCPND (push_bit 14 1) d
      in (d, portRESTORE_CONTEXT s)))"

definition portDISABLE_INTERRUPTS :: "arm \<Rightarrow> arm" where
  "portDISABLE_INTERRUPTS s = s\<lparr>CPSR := CPSR s OR 0xC0\<rparr>"

definition portENABLE_INTERRUPTS :: "arm \<Rightarrow> arm" where
  "portENABLE_INTERRUPTS s = s\<lparr>CPSR := CPSR s AND NOT 0xC0\<rparr>"

definition vPortEnterCritical :: "arm \<Rightarrow> arm" where
  "vPortEnterCritical s =
     (let s = portDISABLE_INTERRUPTS s in s\<lparr>ulCriticalNesting := ulCriticalNesting s + 1\<rparr>)"

definition vPortExitCritical :: "arm \<Rightarrow> arm" where
  "vPortExitCritical s =
     (if ulCriticalNesting s > 0
      then (let s = s\<lparr>ulCriticalNesting := ulCriticalNesting s - 1\<rparr>
            in if ulCriticalNesting s = 0 then portENABLE_INTERRUPTS s else s)
      else s)"

definition context_at :: "(u32_t \<Rightarrow> u32_t) \<Rightarrow> u32_t \<Rightarrow> u32_t \<Rightarrow> u32_t \<Rightarrow> u32_t list \<Rightarrow> u32_t \<Rightarrow> bool" where
  "context_at m p nest spsr regs ret \<longleftrightarrow>
     map (\<lambda>i. m (p + 4 * of_nat i)) [0..<18] = nest # spsr # regs @ [ret]"

definition frame :: "u32_t \<Rightarrow> u32_t set" where
  "frame p = (\<lambda>i. p + 4 * of_nat i) ` {0..<18}"

lemma upt18: "[0..<18] = [0, 1, 2, 3, 4, 5, 6, 7, 8, 9, 10, 11, 12, 13, 14, 15, 16, 17]"
  "[0..<15] = [0, 1, 2, 3, 4, 5, 6, 7, 8, 9, 10, 11, 12, 13, 14]"
  by (simp_all add: upt_rec)

lemma save_words:
  assumes q: "SPu s = q + 72" and d: "SPx s \<noteq> q + 72"
  shows "words (portSAVE_CONTEXT s) =
    (store_words q (ulCriticalNesting s # SPSRx s # user_regs s @ [LRx s])
       ((words s)(SPx s - 4 := R s 0, SPx s - 8 := SPu s)))(current_tcb s := q)"
    "SPx (portSAVE_CONTEXT s) = SPx s" "current_tcb (portSAVE_CONTEXT s) = current_tcb s"
  using d
  by (simp_all add: portSAVE_CONTEXT_def q poke_def setR0_def user_regs_def user_reg_def upt18 Let_def fun_eq_iff)

lemma store_words_frame:
  assumes "length vs = 18"
  shows "map (\<lambda>i. store_words q vs m (q + 4 * of_nat i)) [0..<18] = vs"
    "x \<notin> frame q \<Longrightarrow> store_words q vs m x = m x"
proof -
  obtain v0 v1 v2 v3 v4 v5 v6 v7 v8 v9 v10 v11 v12 v13 v14 v15 v16 v17 where
    vs: "vs = [v0, v1, v2, v3, v4, v5, v6, v7, v8, v9, v10, v11, v12, v13, v14, v15, v16, v17]"
    using assms by (auto simp: numeral_eq_Suc length_Suc_conv)
  show "map (\<lambda>i. store_words q vs m (q + 4 * of_nat i)) [0..<18] = vs" by (simp add: vs upt18)
  show "store_words q vs m x = m x" if "x \<notin> frame q"
  proof -
    have "x \<notin> set (map (\<lambda>i. q + 4 * of_nat i) [0..<18])"
      using that by (simp add: frame_def)
    then show ?thesis unfolding upt18 by (simp add: vs add.assoc)
  qed
qed

lemma push_down_frame:
  assumes "length vs = 18"
  shows "push_down (q + 72) vs m = (q, store_words q (rev vs) m)"
proof -
  obtain v0 v1 v2 v3 v4 v5 v6 v7 v8 v9 v10 v11 v12 v13 v14 v15 v16 v17 where
    vs: "vs = [v0, v1, v2, v3, v4, v5, v6, v7, v8, v9, v10, v11, v12, v13, v14, v15, v16, v17]"
    using assms by (auto simp: numeral_eq_Suc length_Suc_conv)
  show ?thesis by (simp add: vs fun_eq_iff)
qed

lemma context_at_regs:
  assumes "context_at m p nest spsr regs ret" "length regs = 15"
  shows "m p = nest" "m (p + 4) = spsr" "map (\<lambda>i. m (p + 8 + 4 * of_nat i)) [0..<15] = regs" "m (p + 68) = ret"
proof -
  obtain r0 r1 r2 r3 r4 r5 r6 r7 r8 r9 r10 r11 r12 r13 r14 where
    r: "regs = [r0, r1, r2, r3, r4, r5, r6, r7, r8, r9, r10, r11, r12, r13, r14]"
    using assms(2) by (auto simp: numeral_eq_Suc length_Suc_conv)
  show "m p = nest" "m (p + 4) = spsr" "map (\<lambda>i. m (p + 8 + 4 * of_nat i)) [0..<15] = regs" "m (p + 68) = ret"
    using assms(1) by (simp_all add: context_at_def r upt18 add.assoc)
qed

lemma restore_state:
  assumes "words s (current_tcb s) = p" "context_at (words s) p nest spsr regs ret" "length regs = 15"
  defines "t \<equiv> portRESTORE_CONTEXT s"
  shows "user_regs t = regs" "PC t = ret - 4" "CPSR t = spsr" "ulCriticalNesting t = nest" "words t = words s"
    "SPx t = SPx s" "current_tcb t = current_tcb s"
  using context_at_regs[OF assms(2,3)] assms(1)
  by (auto simp: t_def portRESTORE_CONTEXT_def Let_def setR0_def load_user_def user_regs_def user_reg_def upt18 add.assoc)

text \<open>Room for the context on the task stack, away from the two words of exception stack that the
  macro uses and from the task control block.\<close>

definition stack_ok :: "arm \<Rightarrow> bool" where
  "stack_ok s \<longleftrightarrow> SPx s \<noteq> SPu s \<and> SPx s - 4 \<notin> frame (SPu s - 72) \<and> SPx s - 8 \<notin> frame (SPu s - 72) \<and>
     current_tcb s \<notin> frame (SPu s - 72)"

lemma save_context:
  assumes "stack_ok s"
  defines "t \<equiv> portSAVE_CONTEXT s" and "p \<equiv> SPu s - 72"
  shows "words t (current_tcb s) = p" "context_at (words t) p (ulCriticalNesting s) (SPSRx s) (user_regs s) (LRx s)"
    "x \<notin> frame p \<Longrightarrow> x \<noteq> SPx s - 4 \<Longrightarrow> x \<noteq> SPx s - 8 \<Longrightarrow> x \<noteq> current_tcb s \<Longrightarrow> words t x = words s x"
    "SPx t = SPx s" "current_tcb t = current_tcb s"
proof -
  let ?vs = "ulCriticalNesting s # SPSRx s # user_regs s @ [LRx s]"
  have q: "SPu s = p + 72" by (simp add: p_def)
  have d: "SPx s \<noteq> p + 72" using assms(1) q by (simp add: stack_ok_def)
  have l: "length ?vs = 18" by (simp add: user_regs_def)
  note w = save_words[OF q d, folded t_def]
  show "words t (current_tcb s) = p" by (simp add: w)
  show "SPx t = SPx s" "current_tcb t = current_tcb s" using w by simp_all
  have n: "current_tcb s \<noteq> p + 4 * of_nat i" if "i \<in> set [0..<18]" for i
    using assms(1) that by (auto simp: stack_ok_def p_def frame_def)
  have "map (\<lambda>i. words t (p + 4 * of_nat i)) [0..<18] =
      map (\<lambda>i. store_words p ?vs ((words s)(SPx s - 4 := R s 0, SPx s - 8 := SPu s)) (p + 4 * of_nat i)) [0..<18]"
    unfolding w using n by (intro map_cong) (metis fun_upd_other)+
  then show "context_at (words t) p (ulCriticalNesting s) (SPSRx s) (user_regs s) (LRx s)"
    unfolding context_at_def store_words_frame(1)[OF l] .
  show "words t x = words s x"
    if "x \<notin> frame p" "x \<noteq> SPx s - 4" "x \<noteq> SPx s - 8" "x \<noteq> current_tcb s"
    unfolding w using that store_words_frame(2)[OF l that(1)] by simp
qed

subsection \<open>Properties\<close>

text \<open>C18. A context switch is transparent to the task: after \<^verbatim>\<open>portSAVE_CONTEXT\<close>, let any code run
  (other tasks, the scheduler) that leaves the saved frame and the saved stack pointer alone; when
  \<^verbatim>\<open>portRESTORE_CONTEXT\<close> later runs with the task current again, the task continues at the
  interrupted instruction with all fifteen registers, its status register and its critical nesting
  count as they were.\<close>

theorem context_switch_transparent:
  assumes "stack_ok s"
    and "\<And>x. x \<in> frame (SPu s - 72) \<or> x = current_tcb s \<Longrightarrow> words u x = words (portSAVE_CONTEXT s) x"
    and "current_tcb u = current_tcb s"
  shows "let t = portRESTORE_CONTEXT u in user_regs t = user_regs s \<and> PC t = LRx s - 4 \<and> CPSR t = SPSRx s \<and>
    ulCriticalNesting t = ulCriticalNesting s"
proof -
  note c = save_context[OF assms(1)]
  have p: "words u (current_tcb u) = SPu s - 72" using c(1) assms(2,3) by simp
  have "words u (SPu s - 72 + 4 * of_nat i) = words (portSAVE_CONTEXT s) (SPu s - 72 + 4 * of_nat i)"
    if "i \<in> set [0..<18]" for i
    using that assms(2) by (auto simp: frame_def)
  then have "map (\<lambda>i. words u (SPu s - 72 + 4 * of_nat i)) [0..<18] =
      map (\<lambda>i. words (portSAVE_CONTEXT s) (SPu s - 72 + 4 * of_nat i)) [0..<18]"
    by (intro map_cong) auto
  then have "context_at (words u) (SPu s - 72) (ulCriticalNesting s) (SPSRx s) (user_regs s) (LRx s)"
    using c(2) unfolding context_at_def by (rule trans)
  moreover have "length (user_regs s) = 15" by (simp add: user_regs_def)
  ultimately show ?thesis using restore_state[OF p] by (simp add: Let_def)
qed

definition arm0 :: arm where
  "arm0 = \<lparr>R = (\<lambda>i. of_nat i), SPu = 0x30001000, LRu = 14, SPx = 0x33ff0000, LRx = 0x30000104, SPSRx = 0x1f,
     CPSR = 0xd1, PC = 0, words = (\<lambda>_. 0), current_tcb = 0x30200000, ulCriticalNesting = 2\<rparr>"

lemma frame_set: "frame p = set (map (\<lambda>i. p + 4 * of_nat i) [0..<18])"
  by (simp add: frame_def)

lemma arm0_ok: "stack_ok arm0"
  unfolding stack_ok_def frame_set upt18 by (simp add: arm0_def)

theorem context_switch_transparent_witness:
  "let t = portRESTORE_CONTEXT (portSAVE_CONTEXT arm0) in user_regs t = user_regs arm0 \<and> PC t = 0x30000100 \<and>
     ulCriticalNesting t = 2"
  using context_switch_transparent[OF arm0_ok refl save_context(5)[OF arm0_ok]]
  by (simp add: Let_def arm0_def)

text \<open>C25. The first run of a task: the frame that \<^verbatim>\<open>pxPortInitialiseStack\<close> builds makes
  \<^verbatim>\<open>portRESTORE_CONTEXT\<close> enter the task function with its parameter in \<^verbatim>\<open>R0\<close>, the stack pointer at
  the given top of stack, system mode with interrupts enabled (Thumb state for an odd address) and
  no critical section open, and the frame is exactly the 18 words below the top of stack.\<close>

theorem first_run_starts_task:
  assumes "pxPortInitialiseStack tos pxCode pvParameters m = (p, m')"
    and "\<And>x. x \<in> frame p \<Longrightarrow> words u x = m' x" "words u (current_tcb u) = p"
  shows "p = tos - 72 \<and> (\<forall>x. x \<notin> frame p \<longrightarrow> m' x = m x) \<and>
    (let t = vPortISRStartFirstTask u in PC t = pxCode \<and> R t 0 = pvParameters \<and> SPu t = tos \<and>
       CPSR t = (if pxCode AND 1 = 0 then 0x1f else 0x3f) \<and> ulCriticalNesting t = 0)"
proof -
  define q where "q = tos - 72"
  have tos: "tos = q + 72" by (simp add: q_def)
  let ?spsr = "if pxCode AND 1 = 0 then 0x1f else 0x3f :: u32_t"
  let ?regs = "[pvParameters, 0x01010101, 0x02020202, 0x03030303, 0x04040404, 0x05050505, 0x06060606, 0x07070707,
    0x08080808, 0x09090909, 0x10101010, 0x11111111, 0x12121212, tos, 0xaaaaaaaa]"
  let ?vs = "0 # ?spsr # ?regs @ [pxCode + 4]"
  have l: "length ?vs = 18" "length ?regs = 15" by simp_all
  have "pxPortInitialiseStack tos pxCode pvParameters m = push_down (q + 72) (rev ?vs) m"
    by (simp add: pxPortInitialiseStack_def tos portINITIAL_SPSR_def portTHUMB_MODE_BIT_def
        portINSTRUCTION_SIZE_def portNO_CRITICAL_SECTION_NESTING_def)
  then have e: "p = q" "m' = store_words q ?vs m"
    using assms(1) push_down_frame[of "rev ?vs" q m] l(1) by simp_all
  have "map (\<lambda>i. words u (p + 4 * of_nat i)) [0..<18] = map (\<lambda>i. m' (p + 4 * of_nat i)) [0..<18]"
    using assms(2) by (intro map_cong) (auto simp: frame_def)
  then have c: "context_at (words u) p 0 ?spsr ?regs (pxCode + 4)"
    unfolding context_at_def e store_words_frame(1)[OF l(1)] .
  let ?u = "u\<lparr>CPSR := (CPSR u AND NOT 0xff) OR 0xd1\<rparr>"
  have r: "words ?u (current_tcb ?u) = p" "context_at (words ?u) p 0 ?spsr ?regs (pxCode + 4)"
    using assms(3) c by simp_all
  note t = restore_state[OF r l(2)]
  have regs: "R (portRESTORE_CONTEXT ?u) 0 = pvParameters" "SPu (portRESTORE_CONTEXT ?u) = tos"
    using t(1) by (simp_all add: user_regs_def user_reg_def upt18)
  have "m' x = m x" if "x \<notin> frame p" for x using that store_words_frame(2)[OF l(1)] e by blast
  then show ?thesis using t regs e q_def by (simp add: vPortISRStartFirstTask_def Let_def)
qed

definition arm1 :: arm where
  "arm1 = arm0\<lparr>words := (snd (pxPortInitialiseStack 0x30001000 0x30000200 7 (\<lambda>_. 0)))(0x30200000 := 0x30001000 - 72)\<rparr>"

theorem first_run_starts_task_witness:
  "PC (vPortISRStartFirstTask arm1) = 0x30000200 \<and> R (vPortISRStartFirstTask arm1) 0 = 7"
proof -
  let ?i = "pxPortInitialiseStack 0x30001000 0x30000200 7 (\<lambda>_. 0)"
  have p: "fst ?i = 0x30000FB8" by (simp add: pxPortInitialiseStack_def)
  have "0x30200000 \<notin> frame 0x30000FB8" unfolding frame_set upt18 by simp
  then have "words arm1 x = snd ?i x" if "x \<in> frame 0x30000FB8" for x using that by (auto simp: arm1_def)
  moreover have "words arm1 (current_tcb arm1) = 0x30000FB8" by (simp add: arm1_def arm0_def)
  moreover have "?i = (0x30000FB8, snd ?i)" using p by (metis prod.collapse)
  ultimately show ?thesis using first_run_starts_task[of "0x30001000" "0x30000200" 7 "\<lambda>_. 0" "0x30000FB8" "snd ?i" arm1]
    by (auto simp: Let_def)
qed

text \<open>Critical sections as they are entered and left.\<close>

datatype crit = Enter | Exit

definition crit_step :: "crit \<Rightarrow> arm \<Rightarrow> arm" where
  "crit_step c s = (case c of Enter \<Rightarrow> vPortEnterCritical s | Exit \<Rightarrow> vPortExitCritical s)"

definition depth :: "crit list \<Rightarrow> nat" where
  "depth cs = fold (\<lambda>c n. case c of Enter \<Rightarrow> n + 1 | Exit \<Rightarrow> n - 1) cs 0"

lemma crit_step_simps:
  "crit_step Enter s = vPortEnterCritical s" "crit_step Exit s = vPortExitCritical s"
  by (simp_all add: crit_step_def)

lemma depth_snoc: "depth (cs @ [c]) = (case c of Enter \<Rightarrow> depth cs + 1 | Exit \<Rightarrow> depth cs - 1)"
  by (cases c) (simp_all add: depth_def)

lemma depth_le: "depth cs \<le> length cs"
  by (induction cs rule: rev_induct) (auto simp: depth_snoc depth_def[of "[]"] split: crit.splits)

lemma irq_bits:
  "(x OR 0xC0) AND 0xC0 = (0xC0 :: u32_t)" "(x AND NOT 0xC0) AND 0xC0 = (0 :: u32_t)"
  "(x AND - 193) AND 0xC0 = (0 :: u32_t)"
proof -
  show "(x OR 0xC0) AND 0xC0 = (0xC0 :: u32_t)" "(x AND NOT 0xC0) AND 0xC0 = (0 :: u32_t)"
    by (rule bit_word_eqI; auto simp: bit_simps)+
  then show "(x AND - 193) AND 0xC0 = (0 :: u32_t)" by simp
qed

text \<open>C26. Nested critical sections: starting with interrupts enabled and no section open, after any
  sequence of \<^verbatim>\<open>vPortEnterCritical\<close> and \<^verbatim>\<open>vPortExitCritical\<close> the counter equals the nesting depth
  (surplus exits are ignored), both interrupt bits are masked while a section is open, and they are
  enabled exactly when the outermost section was left.\<close>

theorem critical_sections_nest:
  assumes "ulCriticalNesting s = 0" "CPSR s AND 0xC0 = 0" "length cs < 2 ^ 32"
  shows "let t = fold crit_step cs s in unat (ulCriticalNesting t) = depth cs \<and>
    CPSR t AND 0xC0 = (if depth cs = 0 then 0 else 0xC0)"
  using assms(3)
proof (induction cs rule: rev_induct)
  case Nil
  then show ?case using assms by (simp add: depth_def)
next
  case (snoc c cs)
  let ?t = "fold crit_step cs s"
  have t: "unat (ulCriticalNesting ?t) = depth cs" "CPSR ?t AND 0xC0 = (if depth cs = 0 then 0 else 0xC0)"
    using snoc by (simp_all add: Let_def)
  have n: "ulCriticalNesting ?t = of_nat (depth cs)" using t(1)[symmetric] by simp
  have d: "depth cs + 1 < 2 ^ 32" using depth_le[of cs] snoc.prems by simp
  show ?case
  proof (cases c)
    case Enter
    have "unat (ulCriticalNesting ?t + 1) = depth cs + 1" using d t(1) by (simp add: unat_word_ariths(1))
    then show ?thesis using Enter
      by (simp add: crit_step_simps depth_snoc vPortEnterCritical_def portDISABLE_INTERRUPTS_def Let_def irq_bits)
  next
    case Exit
    show ?thesis
    proof (cases "depth cs = 0")
      case True
      then show ?thesis using Exit t n
        by (simp add: crit_step_simps depth_snoc vPortExitCritical_def Let_def)
    next
      case False
      then have "ulCriticalNesting ?t > 0" using t(1) by (simp add: word_less_nat_alt)
      moreover have "unat (ulCriticalNesting ?t - 1) = depth cs - 1" using t(1) False
        by (subst unat_minus_one) auto
      ultimately show ?thesis using Exit t False
        by (auto simp: crit_step_simps depth_snoc vPortExitCritical_def Let_def portENABLE_INTERRUPTS_def irq_bits unat_eq_0)
    qed
  qed
qed

theorem critical_sections_nest_witness:
  "let t = fold crit_step [Enter, Enter, Exit] (arm0\<lparr>CPSR := 0x1f, ulCriticalNesting := 0\<rparr>)
   in unat (ulCriticalNesting t) = 1 \<and> CPSR t AND 0xC0 = 0xC0"
  using critical_sections_nest[of "arm0\<lparr>CPSR := 0x1f, ulCriticalNesting := 0\<rparr>" "[Enter, Enter, Exit]"]
  by (simp add: depth_def)

end
