(* ===== verification/Irq.thy ===== *)
theory Irq
  imports Board
begin

section \<open>Interrupt dispatch and the receive handshake\<close>

text \<open>
  \<^verbatim>\<open>irq.c\<close>, \<^verbatim>\<open>exti.c\<close>, the handlers of \<^verbatim>\<open>timer.c\<close> and the service loop of \<^verbatim>\<open>main.c\<close>. The program's
  own variables are a record; the interrupt controller is behind the \<open>world\<close> of the theory Board.
  A call through a null entry of the vector table is \<open>None\<close>. What \<^verbatim>\<open>printf\<close> prints is collected
  in \<open>console\<close>.
\<close>

record 'd sys =
  dev :: 'd
  uwTick :: u32_t
  exti_status :: u8_t
  console :: "string list"

definition printf :: "string \<Rightarrow> 'd sys \<Rightarrow> 'd sys" where
  "printf m s = s\<lparr>console := console s @ [m]\<rparr>"

definition on_dev :: "('d \<Rightarrow> 'd) \<Rightarrow> 'd sys \<Rightarrow> 'd sys" where
  "on_dev f s = s\<lparr>dev := f (dev s)\<rparr>"

subsection \<open>exti.c\<close>

definition exti_init :: "'d world \<Rightarrow> 'd \<Rightarrow> 'd" where
  "exti_init w d =
     (let d = or32 w GPFCON (push_bit (0 * 2) 2 OR push_bit (1 * 2) 2 OR push_bit (2 * 2) 2 OR push_bit (4 * 2) 2) d;
          d = or32 w EXTINT0 (push_bit 0 2 OR push_bit 4 2 OR push_bit 8 2 OR push_bit 16 2) d;
          d = clr32 w EINTMASK (push_bit 4 1) d
      in clr32 w INTMSK 0x00000017 d)"

definition exti0_handler :: "'d world \<Rightarrow> 'd sys \<Rightarrow> 'd sys" where
  "exti0_handler w s = printf ''exti0'' (on_dev (out32 w EINTPEND (push_bit 0 1)) s)"

definition exti1_handler :: "'d world \<Rightarrow> 'd sys \<Rightarrow> 'd sys" where
  "exti1_handler w s = printf ''exti1'' (on_dev (out32 w EINTPEND (push_bit 1 1)) s)"

definition exti2_handler :: "'d world \<Rightarrow> 'd sys \<Rightarrow> 'd sys" where
  "exti2_handler w s = printf ''exti2'' (on_dev (out32 w EINTPEND (push_bit 2 1)) s)"

definition exti4_7_handler :: "'d world \<Rightarrow> 'd sys \<Rightarrow> 'd sys" where
  "exti4_7_handler w s =
     (let (p, d) = in32 w EINTPEND (dev s)
      in if p AND push_bit 4 1 \<noteq> 0
         then printf ''exti4'' (s\<lparr>dev := out32 w EINTPEND (push_bit 4 1) d\<rparr>)
         else (let (p, d) = in32 w EINTPEND d
               in if p AND push_bit 7 1 \<noteq> 0
                  then (let d = or32 w INTMSK (push_bit 4 1) d
                        in s\<lparr>exti_status := 1, dev := out32 w EINTPEND (push_bit 7 1) d\<rparr>)
                  else s\<lparr>dev := d\<rparr>))"

subsection \<open>Handlers of timer.c, irq.c\<close>

definition tim4_handler :: "'d world \<Rightarrow> 'd sys \<Rightarrow> 'd sys" where
  "tim4_handler w s = s\<lparr>uwTick := uwTick s + 1\<rparr>"

definition tim0_handler :: "'d world \<Rightarrow> 'd sys \<Rightarrow> 'd sys" where
  "tim0_handler w s = s\<lparr>uwTick := uwTick s + 1\<rparr>"

definition p_irqList :: "('d world \<Rightarrow> 'd sys \<Rightarrow> 'd sys) option list" where
  "p_irqList = [Some exti0_handler, Some exti1_handler, Some exti2_handler, None, Some exti4_7_handler,
     None, None, None, None, None,
     Some tim0_handler, None, None, None, Some tim4_handler,
     None, None, None, None, None,
     None, None, None, None, None,
     None, None, None, None, None,
     None, None]"

text \<open>A call through entry \<open>n\<close> of the table: nothing sensible happens for a null entry or outside
  the array.\<close>

definition call_irq :: "'d world \<Rightarrow> nat \<Rightarrow> 'd sys \<Rightarrow> 'd sys option" where
  "call_irq w n s = (if n < length (p_irqList :: ('d world \<Rightarrow> 'd sys \<Rightarrow> 'd sys) option list)
     then map_option (\<lambda>h. h w s) (p_irqList ! n) else None)"

text \<open>\<^verbatim>\<open>irq_init\<close> clears the I and F bits of the program status register.\<close>

definition irq_init :: "u32_t \<Rightarrow> u32_t" where
  "irq_init cpsr = cpsr AND NOT 0xC0"

definition irq_handle :: "'d world \<Rightarrow> 'd sys \<Rightarrow> 'd sys option" where
  "irq_handle w s =
     (let (irqNumber, d) = in32 w INTOFFSET (dev s)
      in do { s \<leftarrow> call_irq w (unat irqNumber) (s\<lparr>dev := d\<rparr>);
              let s = on_dev (out32 w SRCPND (push_bit (unat irqNumber) 1)) s;
              Some (on_dev (out32 w INTPND (push_bit (unat irqNumber) 1)) s) })"

definition FIQ_OFFSET :: nat where "FIQ_OFFSET = 14"

definition fiq_handle :: "'d world \<Rightarrow> 'd sys \<Rightarrow> 'd sys option" where
  "fiq_handle w s =
     do { s \<leftarrow> call_irq w FIQ_OFFSET s; Some (on_dev (out32 w SRCPND (push_bit FIQ_OFFSET 1)) s) }"

subsection \<open>The service loop of main\<close>

text \<open>The loop after the scheduler returned, cut where an interrupt can come in between:
  test of \<^verbatim>\<open>exti_status\<close>, \<^verbatim>\<open>ethernetif_input\<close> (the parameter \<open>inp\<close>), unmasking of EINT4-7.\<close>

datatype main_pc = Poll | Input | Unmask

definition main_step :: "'d world \<Rightarrow> ('d sys \<Rightarrow> 'd sys) \<Rightarrow> main_pc \<times> 'd sys \<Rightarrow> main_pc \<times> 'd sys" where
  "main_step w inp = (\<lambda>(pc, s). case pc of
       Poll \<Rightarrow> if exti_status s = 1 then (Input, s\<lparr>exti_status := 0\<rparr>) else (Poll, s)
     | Input \<Rightarrow> (Unmask, inp s)
     | Unmask \<Rightarrow> (Poll, on_dev (clr32 w INTMSK (push_bit 4 1)) s))"

text \<open>Interleaving of the loop with interrupts: the controller raises an unmasked source.\<close>

inductive run :: "'d world \<Rightarrow> ('d sys \<Rightarrow> 'd sys) \<Rightarrow> ('d \<Rightarrow> u32_t) \<Rightarrow>
    main_pc \<times> 'd sys \<Rightarrow> main_pc \<times> 'd sys \<Rightarrow> bool"
  for w :: "'d world" and inp msk where
  main: "run w inp msk c (main_step w inp c)"
| irq: "fst (in32 w INTOFFSET (dev s)) = n \<Longrightarrow> \<not> bit (msk (dev s)) (unat n) \<Longrightarrow>
    irq_handle w s = Some t \<Longrightarrow> run w inp msk (pc, s) (pc, t)"
| fiq: "fiq_handle w s = Some t \<Longrightarrow> run w inp msk (pc, s) (pc, t)"

inductive reach :: "'d world \<Rightarrow> ('d sys \<Rightarrow> 'd sys) \<Rightarrow> ('d \<Rightarrow> u32_t) \<Rightarrow>
    main_pc \<times> 'd sys \<Rightarrow> main_pc \<times> 'd sys \<Rightarrow> bool"
  for w :: "'d world" and inp msk c where
  start: "reach w inp msk c c"
| step: "reach w inp msk c c' \<Longrightarrow> run w inp msk c' c'' \<Longrightarrow> reach w inp msk c c''"

text \<open>The mask register of the interrupt controller holds what is stored to it, and no other access
  changes it.\<close>

definition intmsk_ok :: "'d world \<Rightarrow> ('d \<Rightarrow> u32_t) \<Rightarrow> bool" where
  "intmsk_ok w msk \<longleftrightarrow>
     (\<forall>d. fst (in32 w INTMSK d) = msk d) \<and> (\<forall>a d. msk (snd (in32 w a d)) = msk d) \<and>
     (\<forall>a v d. msk (out32 w a v d) = (if a = INTMSK then v else msk d))"

text \<open>The invariant of the handshake.\<close>

definition handshake :: "('d \<Rightarrow> u32_t) \<Rightarrow> main_pc \<times> 'd sys \<Rightarrow> bool" where
  "handshake msk = (\<lambda>(pc, s). exti_status s \<in> {0, 1} \<and> (exti_status s = 1 \<longrightarrow> pc = Poll) \<and>
     (bit (msk (dev s)) 4 \<longleftrightarrow> exti_status s = 1 \<or> pc \<noteq> Poll))"

subsection \<open>Lemmas\<close>

lemmas reg_defs = INTMSK_def SRCPND_def INTPND_def INTOFFSET_def GPFCON_def EXTINT0_def EINTMASK_def
  EINTPEND_def INTMOD_def

lemma vector_table:
  "list_all (\<lambda>n. Option.is_none (p_irqList ! n) \<longleftrightarrow> n \<notin> set [0, 1, 2, 4, 10, 14]) [0..<32]"
  by code_simp

lemma vector_length: "length p_irqList = 32"
  by (simp add: p_irqList_def)

lemma vector_entries:
  "p_irqList ! 0 = Some exti0_handler" "p_irqList ! 1 = Some exti1_handler" "p_irqList ! 2 = Some exti2_handler"
  "p_irqList ! 4 = Some exti4_7_handler" "p_irqList ! 10 = Some tim0_handler" "p_irqList ! 14 = Some tim4_handler"
  "p_irqList ! Suc 0 = Some exti1_handler"
  by (simp_all add: p_irqList_def)

lemma vector_cases:
  assumes "call_irq w n s = Some t"
  obtains "n = 0" "t = exti0_handler w s" | "n = 1" "t = exti1_handler w s" | "n = 2" "t = exti2_handler w s"
  | "n = 4" "t = exti4_7_handler w s" | "n = 10" "t = tim0_handler w s" | "n = 14" "t = tim4_handler w s"
proof -
  have n: "n < 32" "\<not> Option.is_none (p_irqList ! n :: ('a world \<Rightarrow> 'a sys \<Rightarrow> 'a sys) option)"
    using assms by (auto simp: call_irq_def vector_length Option.is_none_def split: if_splits)
  then have "n \<in> set [0, 1, 2, 4, 10, 14]"
    using vector_table unfolding list_all_iff by (metis atLeastLessThan_iff set_upt zero_le)
  then consider "n = 0" | "n = 1" | "n = 2" | "n = 4" | "n = 10" | "n = 14" by auto
  then show thesis
    using assms that by cases (simp_all add: call_irq_def vector_length vector_entries)
qed

lemma call_irq_handles:
  "call_irq w n s \<noteq> None \<longleftrightarrow> n \<in> {0, 1, 2, 4, 10, 14}"
proof
  assume "call_irq w n s \<noteq> None"
  then show "n \<in> {0, 1, 2, 4, 10, 14}" by (auto elim: vector_cases)
qed (auto simp: call_irq_def vector_length vector_entries)

text \<open>What the handlers do to the mask and to the status flag.\<close>

lemma handler_frame:
  assumes m: "intmsk_ok w msk"
  shows "call_irq w n s = Some t \<Longrightarrow>
      (msk (dev t) = msk (dev s) \<and> exti_status t = exti_status s) \<or>
      (n = 4 \<and> msk (dev t) = msk (dev s) OR push_bit 4 1 \<and> exti_status t = 1)"
proof (elim vector_cases)
  assume n: "n = 4" and t: "t = exti4_7_handler w s"
  have o: "msk (or32 w INTMSK v d) = msk d OR v" for v d
    using m by (auto simp: intmsk_ok_def or32_def case_prod_beta)
  show ?thesis using m n t o
    by (auto simp: exti4_7_handler_def intmsk_ok_def printf_def Let_def reg_defs case_prod_beta)
qed (use m in \<open>auto simp: exti0_handler_def exti1_handler_def exti2_handler_def tim0_handler_def tim4_handler_def
      printf_def on_dev_def intmsk_ok_def reg_defs\<close>)

lemma irq_frame:
  assumes m: "intmsk_ok w msk" and i: "irq_handle w s = Some t"
  shows "(msk (dev t) = msk (dev s) \<and> exti_status t = exti_status s) \<or>
      (fst (in32 w INTOFFSET (dev s)) = 4 \<and> msk (dev t) = msk (dev s) OR push_bit 4 1 \<and> exti_status t = 1)"
proof -
  let ?n = "fst (in32 w INTOFFSET (dev s))" and ?s = "s\<lparr>dev := snd (in32 w INTOFFSET (dev s))\<rparr>"
  obtain u where u: "call_irq w (unat ?n) ?s = Some u"
    and t: "t = on_dev (out32 w INTPND (push_bit (unat ?n) 1)) (on_dev (out32 w SRCPND (push_bit (unat ?n) 1)) u)"
    using i by (auto simp: irq_handle_def Let_def case_prod_beta split: bind_splits)
  have "unat ?n = 4 \<longleftrightarrow> ?n = 4" using word_unat_eq_iff[of ?n 4] by simp
  then show ?thesis using handler_frame[OF m u] m by (auto simp: t on_dev_def intmsk_ok_def reg_defs)
qed

lemma handshake_run:
  assumes m: "intmsk_ok w msk"
    and inp: "\<And>s. msk (dev (inp s)) = msk (dev s) \<and> exti_status (inp s) = exti_status s"
    and h: "handshake msk c" and r: "run w inp msk c c'"
  shows "handshake msk c'"
  using r
proof cases
  case main
  have "msk (clr32 w INTMSK v d) = msk d AND NOT v" for v d
    using m by (auto simp: intmsk_ok_def clr32_def case_prod_beta)
  then show ?thesis using h inp main
    by (auto simp: handshake_def main_step_def on_dev_def bit_simps split: prod.splits main_pc.splits)
next
  case (irq s n t pc)
  then show ?thesis using irq_frame[OF m irq(5)] h by (auto simp: handshake_def bit_simps)
next
  case (fiq s t pc)
  then obtain u where u: "call_irq w 14 s = Some u" "t = on_dev (out32 w SRCPND (push_bit 14 1)) u"
    by (auto simp: fiq_handle_def FIQ_OFFSET_def split: bind_splits)
  then have "msk (dev t) = msk (dev s)" "exti_status t = exti_status s"
    using handler_frame[OF m u(1)] m by (auto simp: on_dev_def intmsk_ok_def reg_defs)
  then show ?thesis using h fiq by (auto simp: handshake_def)
qed

subsection \<open>Properties\<close>

text \<open>C24. The receive handshake between the interrupt handler and the service loop of \<^verbatim>\<open>main\<close>, over all
  interleavings with all interrupts: in every reachable state the Ethernet interrupt is masked
  exactly while a reception is announced or being processed. So no second interrupt can set
  \<^verbatim>\<open>exti_status\<close> while \<^verbatim>\<open>ethernetif_input\<close> reads the controller, and an announced reception is
  never overwritten; once the loop is idle with nothing announced, the interrupt is enabled again.\<close>

theorem rx_handshake:
  assumes "intmsk_ok w msk"
    and "\<And>s. msk (dev (inp s)) = msk (dev s) \<and> exti_status (inp s) = exti_status s"
    and "exti_status s = 0" "\<not> bit (msk (dev s)) 4"
    and "reach w inp msk (Poll, s) (pc, t)"
  shows "(bit (msk (dev t)) 4 \<longleftrightarrow> exti_status t = 1 \<or> pc \<noteq> Poll) \<and> (exti_status t = 1 \<longrightarrow> pc = Poll)"
proof -
  have "handshake msk c" if "reach w inp msk (Poll, s) c" for c
    using that by induction (use assms(3,4) handshake_run[OF assms(1,2)] in \<open>auto simp: handshake_def\<close>)
  from this[OF assms(5)] show ?thesis by (auto simp: handshake_def)
qed

text \<open>A controller whose state is the mask, with EINT7 pending.\<close>

definition eint7_world :: "u32_t world" where
  "eint7_world = \<lparr>bus_rd = (\<lambda>_ a d. (if a = INTMSK then d else if a = INTOFFSET then 4 else push_bit 7 1, d)),
     bus_wr = (\<lambda>_ a v d. if a = INTMSK then v else d), uwTick_rd = (\<lambda>d. (0, d))\<rparr>"

definition idle_sys :: "u32_t sys" where
  "idle_sys = \<lparr>dev = 0, uwTick = 0, exti_status = 0, console = []\<rparr>"

lemma eint7_ok: "intmsk_ok eint7_world (\<lambda>d. d)"
  by (auto simp: intmsk_ok_def eint7_world_def in32_def out32_def INTMSK_def)

lemma eint7_fires:
  "irq_handle eint7_world idle_sys = Some (idle_sys\<lparr>dev := 16, exti_status := 1\<rparr>)"
  by (simp add: irq_handle_def eint7_world_def idle_sys_def in32_def out32_def or32_def call_irq_def vector_length
      vector_entries exti4_7_handler_def on_dev_def reg_defs)

theorem rx_handshake_witness:
  "\<exists>t. reach eint7_world (\<lambda>s. s) (\<lambda>d. d) (Poll, idle_sys) (Poll, t) \<and> exti_status t = 1 \<and> bit (dev t) 4"
proof -
  let ?t = "idle_sys\<lparr>dev := 16, exti_status := 1\<rparr>"
  have "run eint7_world (\<lambda>s. s) (\<lambda>d. d) (Poll, idle_sys) (Poll, ?t)"
    by (rule run.irq[OF refl _ eint7_fires]) (simp add: idle_sys_def)
  then have r: "reach eint7_world (\<lambda>s. s) (\<lambda>d. d) (Poll, idle_sys) (Poll, ?t)"
    by (rule reach.step[OF reach.start])
  from rx_handshake[OF eint7_ok _ _ _ r] have "bit (dev ?t) 4" by (simp add: idle_sys_def)
  then show ?thesis using r by (intro exI[of _ ?t]) simp
qed

text \<open>\<^verbatim>\<open>irq_handle\<close> runs the handler of the source that the controller reports and acknowledges
  exactly that source in both pending registers, for the six sources with a handler; for any other
  number it calls through a null pointer (or past the table).\<close>

theorem irq_handle_dispatch:
  "irq_handle w s =
     (let (n, d) = in32 w INTOFFSET (dev s); s' = s\<lparr>dev := d\<rparr>;
          ack = (\<lambda>t. Some (t\<lparr>dev := out32 w INTPND (push_bit (unat n) 1)
                                  (out32 w SRCPND (push_bit (unat n) 1) (dev t))\<rparr>))
      in if n = 0 then ack (exti0_handler w s') else if n = 1 then ack (exti1_handler w s')
         else if n = 2 then ack (exti2_handler w s') else if n = 4 then ack (exti4_7_handler w s')
         else if n = 10 then ack (tim0_handler w s') else if n = 14 then ack (tim4_handler w s')
         else None)"
proof -
  obtain n d where nd: "in32 w INTOFFSET (dev s) = (n, d)" by (cases "in32 w INTOFFSET (dev s)")
  let ?s = "s\<lparr>dev := d\<rparr>"
  have e: "irq_handle w s = map_option (\<lambda>t. t\<lparr>dev := out32 w INTPND (push_bit (unat n) 1)
          (out32 w SRCPND (push_bit (unat n) 1) (dev t))\<rparr>) (call_irq w (unat n) ?s)"
    by (cases "call_irq w (unat n) ?s") (simp_all add: irq_handle_def nd on_dev_def)
  have u: "unat n = unat k \<longleftrightarrow> n = k" for k by (simp add: word_unat_eq_iff)
  show ?thesis
  proof (cases "unat n \<in> {0, 1, 2, 4, 10, 14}")
    case True
    then consider "n = 0" | "n = 1" | "n = 2" | "n = 4" | "n = 10" | "n = 14"
      using u[of 0] u[of 1] u[of 2] u[of 4] u[of 10] u[of 14] by auto
    then show ?thesis
      by cases (simp_all add: e nd Let_def call_irq_def vector_length vector_entries)
  next
    case False
    then have "call_irq w (unat n) ?s = None" using call_irq_handles[of w "unat n" ?s] by blast
    then show ?thesis using False unfolding e nd by (auto simp: Let_def)
  qed
qed

end
