(* ===== verification/Nand.thy ===== *)
theory Nand
  imports Board
begin

section \<open>NAND flash driver and start-up copy (nand.c, start.c)\<close>

text \<open>
  \<^verbatim>\<open>nand_read\<close> copies a range of the flash into memory page by page; the start-up code uses it to
  load the program into SDRAM. The chip is behind the bus; the destination is the byte memory.
  \<^verbatim>\<open>int\<close> counters stay far below 2^31 here, so they are natural numbers; \<^verbatim>\<open>addr\<close> is a 32-bit word.
  The delay loops of ten iterations have no effect on the state.
\<close>

definition NFCONF :: nat where "NFCONF = 0x4e000000"
definition NFCONT :: nat where "NFCONT = 0x4e000004"
definition NFCMMD :: nat where "NFCMMD = 0x4e000008"
definition NFADDR :: nat where "NFADDR = 0x4e00000c"
definition NFDATA :: nat where "NFDATA = 0x4e000010"
definition NFSTAT :: nat where "NFSTAT = 0x4e000020"

definition nand_select :: "'d world \<Rightarrow> 'd \<Rightarrow> 'd" where
  "nand_select w d = clr32 w NFCONT (push_bit 1 1) d"

definition nand_deselect :: "'d world \<Rightarrow> 'd \<Rightarrow> 'd" where
  "nand_deselect w d = or32 w NFCONT (push_bit 1 1) d"

definition nand_cmd :: "'d world \<Rightarrow> u8_t \<Rightarrow> 'd \<Rightarrow> 'd" where
  "nand_cmd w cmd d = out8 w NFCMMD cmd d"

definition nand_addr :: "'d world \<Rightarrow> u32_t \<Rightarrow> 'd \<Rightarrow> 'd" where
  "nand_addr w addr d =
     (let col = addr mod 2048; page = addr div 2048;
          d = out8 w NFADDR (ucast (col AND 0xff)) d;
          d = out8 w NFADDR (ucast (drop_bit 8 col AND 0x0f)) d;
          d = out8 w NFADDR (ucast (page AND 0xff)) d;
          d = out8 w NFADDR (ucast (drop_bit 8 page AND 0xff)) d
      in out8 w NFADDR (ucast (drop_bit 16 page AND 0x01)) d)"

definition nand_wait_ready :: "'d world \<Rightarrow> 'd \<Rightarrow> 'd option" where
  "nand_wait_ready w d = poll (in32 w NFSTAT) (\<lambda>v. v AND 0x01 \<noteq> 0) d"

definition nand_data :: "'d world \<Rightarrow> 'd \<Rightarrow> u8_t \<times> 'd" where
  "nand_data w d = in8 w NFDATA d"

definition nand_init :: "'d world \<Rightarrow> 'd \<Rightarrow> 'd" where
  "nand_init w d =
     (let d = out32 w NFCONF (push_bit 12 1 OR push_bit 8 3 OR push_bit 4 1) d
      in out32 w NFCONT (push_bit 4 1 OR push_bit 1 1 OR push_bit 0 1) d)"

text \<open>The inner loop: bytes up to the end of the page or of the request.\<close>

function page_loop :: "'d world \<Rightarrow> nat \<Rightarrow> nat \<Rightarrow> nat \<Rightarrow> nat \<Rightarrow> u32_t \<Rightarrow> bytes \<Rightarrow> 'd \<Rightarrow> nat \<times> u32_t \<times> bytes \<times> 'd" where
  "page_loop w buf len col i addr m d =
     (if col < 2048 \<and> i < len
      then (let (b, d) = nand_data w d
            in page_loop w buf len (col + 1) (i + 1) (addr + 1) (m(buf + i := b)) d)
      else (i, addr, m, d))"
  by pat_completeness auto
termination by (relation "measure (\<lambda>(w, buf, len, col, i, addr, m, d). 2048 - col)") auto

declare page_loop.simps [simp del]

partial_function (option) read_loop ::
    "'d world \<Rightarrow> nat \<Rightarrow> nat \<Rightarrow> nat \<Rightarrow> nat \<Rightarrow> u32_t \<Rightarrow> bytes \<Rightarrow> 'd \<Rightarrow> (bytes \<times> 'd) option" where
  "read_loop w buf len col i addr m d =
     (if i < len
      then (let d = nand_cmd w 0x00 d;
                d = nand_addr w addr d;
                d = nand_cmd w 0x30 d
            in case nand_wait_ready w d of None \<Rightarrow> None
               | Some d \<Rightarrow> (case page_loop w buf len col i addr m d of (i, addr, m, d) \<Rightarrow>
                   read_loop w buf len 0 i addr m d))
      else Some (m, d))"

definition nand_read :: "'d world \<Rightarrow> u32_t \<Rightarrow> nat \<Rightarrow> nat \<Rightarrow> bytes \<Rightarrow> 'd \<Rightarrow> (bytes \<times> 'd) option" where
  "nand_read w addr buf len m d =
     (let col = unat (addr mod 2048);
          d = nand_select w d
      in case read_loop w buf len col 0 addr m d of None \<Rightarrow> None
         | Some (m, d) \<Rightarrow> Some (m, nand_deselect w d))"

definition copy_code_to_sdram :: "'d world \<Rightarrow> u32_t \<Rightarrow> nat \<Rightarrow> nat \<Rightarrow> bytes \<Rightarrow> 'd \<Rightarrow> (bytes \<times> 'd) option" where
  "copy_code_to_sdram w src target len m d = nand_read w src target len m d"

text \<open>\<^verbatim>\<open>clean_bss\<close> clears the words from \<^verbatim>\<open>__bss_start__\<close> up to \<^verbatim>\<open>__bss_end__\<close>.\<close>

function clean_bss :: "nat \<Rightarrow> nat \<Rightarrow> bytes \<Rightarrow> bytes" where
  "clean_bss p e m = (if p < e then clean_bss (p + 4) e (write32 p 0 m) else m)"
  by pat_completeness auto
termination by (relation "measure (\<lambda>(p, e, m). e - p)") auto

declare clean_bss.simps [simp del]

subsection \<open>What the chip promises\<close>

text \<open>\<open>ready p d\<close>: the chip is selected and its data register will deliver the flash contents from
  address \<open>p\<close> on; \<open>sel d\<close>: it is selected. Selecting, the read sequence with a full address, and
  data reads within a page behave as the data sheet says.\<close>

definition nand_chip_ok :: "'d world \<Rightarrow> (nat \<Rightarrow> u8_t) \<Rightarrow> ('d \<Rightarrow> bool) \<Rightarrow> (nat \<Rightarrow> 'd \<Rightarrow> bool) \<Rightarrow> bool" where
  "nand_chip_ok w flash sel ready \<longleftrightarrow>
     (\<forall>d. sel (nand_select w d)) \<and>
     (\<forall>d a. sel d \<longrightarrow> a < 2 ^ 28 \<longrightarrow>
        (\<exists>d'. nand_wait_ready w (out8 w NFCMMD 0x30 (out8 w NFADDR (of_nat (a div 2 ^ 27))
           (out8 w NFADDR (of_nat (a div 2 ^ 19 mod 256)) (out8 w NFADDR (of_nat (a div 2 ^ 11 mod 256))
           (out8 w NFADDR (of_nat (a mod 2048 div 256)) (out8 w NFADDR (of_nat (a mod 256))
           (out8 w NFCMMD 0 d))))))) = Some d' \<and> ready a d')) \<and>
     (\<forall>d a. ready a d \<longrightarrow> fst (nand_data w d) = flash a \<and>
        (if (a + 1) mod 2048 = 0 then sel (snd (nand_data w d)) else ready (a + 1) (snd (nand_data w d)))) \<and>
     (\<forall>d a. ready a d \<longrightarrow> sel d)"

text \<open>The address bytes that \<^verbatim>\<open>nand_addr\<close> sends, as numbers.\<close>

lemma nand_addr_bytes:
  assumes "unat addr < 2 ^ 28"
  shows "nand_addr w addr d = out8 w NFADDR (of_nat (unat addr div 2 ^ 27))
           (out8 w NFADDR (of_nat (unat addr div 2 ^ 19 mod 256)) (out8 w NFADDR (of_nat (unat addr div 2 ^ 11 mod 256))
           (out8 w NFADDR (of_nat (unat addr mod 2048 div 256)) (out8 w NFADDR (of_nat (unat addr mod 256)) d))))"
proof -
  have ucast: "ucast x = (of_nat (unat x) :: u8_t)" for x :: u32_t by (simp add: of_nat_unat)
  have u: "unat (addr mod 2048) = unat addr mod 2048" "unat (addr div 2048) = unat addr div 2048"
    by (simp_all add: unat_mod unat_div)
  have n: "unat addr mod 2048 div 256 mod 16 = unat addr mod 2048 div 256"
    "unat addr div 2048 div 65536 mod 2 = unat addr div 134217728"
    using assms by (simp_all add: div_mult2_eq[symmetric])
  show ?thesis
    unfolding nand_addr_def Let_def ucast unat_and_masks unat_drop_bit u
    using n by (simp add: mod_mod_cancel div_mult2_eq[symmetric])
qed

lemma nand_read_start:
  assumes "nand_chip_ok w flash sel ready" "sel d" "unat addr < 2 ^ 28"
  shows "\<exists>d'. nand_wait_ready w (nand_cmd w 0x30 (nand_addr w addr (nand_cmd w 0 d))) = Some d' \<and> ready (unat addr) d'"
  using assms unfolding nand_chip_ok_def nand_cmd_def nand_addr_bytes[OF assms(3)] by blast

text \<open>The memory after \<open>n\<close> bytes from flash address \<open>a\<close> were stored at \<open>buf\<close>.\<close>

definition copied :: "(nat \<Rightarrow> u8_t) \<Rightarrow> nat \<Rightarrow> nat \<Rightarrow> nat \<Rightarrow> bytes \<Rightarrow> bytes" where
  "copied flash a buf n m = (\<lambda>x. if buf \<le> x \<and> x < buf + n then flash (a + (x - buf)) else m x)"

lemma copied_Suc: "(copied flash a buf n m)(buf + n := flash (a + n)) = copied flash a buf (n + 1) m"
  by (auto simp: copied_def)

lemma page_loop_copies:
  assumes c: "nand_chip_ok w flash sel ready"
  shows "(a + i) mod 2048 = col mod 2048 \<Longrightarrow> col \<le> 2048 \<Longrightarrow> i \<le> len \<Longrightarrow> unat addr = a + i \<Longrightarrow> a + len < 2 ^ 32 \<Longrightarrow>
     (if col < 2048 then ready (a + i) d else sel d) \<Longrightarrow>
     (case page_loop w buf len col i addr (copied flash a buf i m) d of (i', addr', m', d') \<Rightarrow>
        i' = min len (i + (2048 - col)) \<and> unat addr' = a + i' \<and> m' = copied flash a buf i' m \<and> sel d')"
proof (induction "2048 - col" arbitrary: col i addr d)
  case 0
  then show ?case using c by (subst page_loop.simps) (auto simp: nand_chip_ok_def)
next
  case (Suc k)
  show ?case
  proof (cases "i < len")
    case False
    moreover have "col < 2048" using Suc.hyps(2) by simp
    then have "sel d" using Suc.prems(6) c by (auto simp: nand_chip_ok_def)
    ultimately show ?thesis using Suc.prems by (subst page_loop.simps) auto
  next
    case True
    have col: "col < 2048" using Suc.hyps(2) by simp
    then have rd: "ready (a + i) d" using Suc.prems(6) by simp
    obtain b d1 where b: "nand_data w d = (b, d1)" by (cases "nand_data w d")
    have fb: "b = flash (a + i)" and d1: "if (a + i + 1) mod 2048 = 0 then sel d1 else ready (a + i + 1) d1"
      using c rd b unfolding nand_chip_ok_def by (metis fst_conv, metis snd_conv)
    have e: "(a + i + 1) mod 2048 = (col + 1) mod 2048" using Suc.prems(1) by (metis mod_add_left_eq)
    have z: "(a + i + 1) mod 2048 = 0 \<longleftrightarrow> col + 1 = 2048" unfolding e using col by (cases "col + 1 = 2048") auto
    have ad: "unat (addr + 1) = a + (i + 1)"
      using Suc.prems(4,5) True by (simp add: unat_word_ariths(1))
    have "case page_loop w buf len (col + 1) (i + 1) (addr + 1) (copied flash a buf (i + 1) m) d1 of (i', addr', m', d') \<Rightarrow>
        i' = min len (i + 1 + (2048 - (col + 1))) \<and> unat addr' = a + i' \<and> m' = copied flash a buf i' m \<and> sel d'"
      using Suc.hyps(2) Suc.prems(5) True col e z d1 ad
      by (intro Suc.hyps(1)) (auto simp: add.assoc)
    then show ?thesis using True col b fb copied_Suc[of flash a buf i m] by (subst page_loop.simps) auto
  qed
qed

lemma read_loop_copies:
  assumes c: "nand_chip_ok w flash sel ready" and a: "a + len \<le> 2 ^ 28"
  shows "i \<le> len \<Longrightarrow> i = len \<or> (a + i) mod 2048 = col \<Longrightarrow> unat addr = a + i \<Longrightarrow> sel d \<Longrightarrow>
    \<exists>d'. read_loop w buf len col i addr (copied flash a buf i m) d = Some (copied flash a buf len m, d')"
proof (induction "len - i" arbitrary: i col addr d rule: less_induct)
  case less
  show ?case
  proof (cases "i < len")
    case False
    then show ?thesis using less.prems by (subst read_loop.simps) auto
  next
    case True
    then have col: "(a + i) mod 2048 = col" "col < 2048" using less.prems(2) by auto
    have "unat addr < 2 ^ 28" using less.prems(3) True a by simp
    then obtain d1 where d1: "nand_wait_ready w (nand_cmd w 0x30 (nand_addr w addr (nand_cmd w 0 d))) = Some d1"
        "ready (a + i) d1"
      using nand_read_start[OF c less.prems(4)] less.prems(3) by metis
    obtain i' addr' m' d2 where p: "page_loop w buf len col i addr (copied flash a buf i m) d1 = (i', addr', m', d2)"
      using prod_cases4 by blast
    have i': "i' = min len (i + (2048 - col))" "unat addr' = a + i'" "m' = copied flash a buf i' m" "sel d2"
      using page_loop_copies[OF c, of a i col len addr d1 buf m] col less.prems(3) True d1(2) a p by auto
    have next_page: "i' = len \<or> (a + i') mod 2048 = 0"
    proof (cases "i + (2048 - col) < len")
      case True
      have "a + i = 2048 * ((a + i) div 2048) + col" using col(1) mult_div_mod_eq[of 2048 "a + i"] by simp
      then have "a + i' = 2048 * ((a + i) div 2048) + 2048" using i'(1) True col(2) by simp
      then have "2048 dvd a + i'" by (metis dvd_add dvd_refl dvd_triv_left)
      then show ?thesis by (simp add: dvd_eq_mod_eq_0)
    qed (use i'(1) in simp)
    have "\<exists>d'. read_loop w buf len 0 i' addr' (copied flash a buf i' m) d2 = Some (copied flash a buf len m, d')"
      using i' True col(2) next_page by (intro less.hyps) auto
    then show ?thesis using True d1(1) p i'(3) by (subst read_loop.simps) (auto simp: Let_def)
  qed
qed

lemma clean_bss_clears:
  "4 dvd e - p \<Longrightarrow> p \<le> e \<Longrightarrow> clean_bss p e m = (\<lambda>x. if p \<le> x \<and> x < e then 0 else m x)"
proof (induction p e m rule: clean_bss.induct)
  case (1 p e m)
  show ?case
  proof (cases "p < e")
    case True
    then have p4: "p + 4 \<le> e" "4 dvd e - (p + 4)" using "1.prems"(1)
      by (metis dvd_imp_le le_diff_conv2 less_imp_le zero_less_diff add.commute)
        (use "1.prems"(1) in presburger)
    have "clean_bss p e m = clean_bss (p + 4) e (write32 p 0 m)" using True by (subst clean_bss.simps) simp
    also have "\<dots> = (\<lambda>x. if p + 4 \<le> x \<and> x < e then 0 else write32 p 0 m x)" by (rule "1.IH"[OF True p4(2,1)])
    also have "\<dots> = (\<lambda>x. if p \<le> x \<and> x < e then 0 else m x)"
    proof
      fix x
      consider "x < p \<or> p + 4 \<le> x" | "x = p" | "x = p + 1" | "x = p + 2" | "x = p + 3" by linarith
      then show "(if p + 4 \<le> x \<and> x < e then 0 else write32 p 0 m x) = (if p \<le> x \<and> x < e then 0 else m x)"
        using p4 by cases (auto simp: write32_def)
    qed
    finally show ?thesis .
  next
    case False
    then show ?thesis using "1.prems" by (subst clean_bss.simps) (auto simp: fun_eq_iff)
  qed
qed

subsection \<open>Properties\<close>

text \<open>C23. On a chip that follows the data sheet, \<^verbatim>\<open>nand_read\<close> (and with it the start-up copy) returns
  with the requested range of the flash copied to the destination, byte for byte and across page
  boundaries, for every start address and length within the 256 MB device, and it writes nothing
  else.\<close>

theorem nand_read_copies:
  assumes "nand_chip_ok w flash sel ready" "unat addr + len \<le> 2 ^ 28"
  shows "\<exists>d'. copy_code_to_sdram w addr buf len m d = Some (copied flash (unat addr) buf len m, d')"
proof -
  have "copied flash (unat addr) buf 0 m = m" by (auto simp: copied_def fun_eq_iff)
  moreover have "sel (nand_select w d)" using assms(1) by (simp add: nand_chip_ok_def)
  moreover have "unat (addr mod 2048) = unat addr mod 2048" by (simp add: unat_mod)
  ultimately have "\<exists>d'. read_loop w buf len (unat (addr mod 2048)) 0 addr m (nand_select w d) =
      Some (copied flash (unat addr) buf len m, d')"
    using read_loop_copies[OF assms, of 0 "unat (addr mod 2048)" addr "nand_select w d" buf m] by simp
  then show ?thesis by (auto simp: copy_code_to_sdram_def nand_read_def)
qed

text \<open>A chip: the address bytes latched so far and the read pointer; byte \<open>n\<close> of the flash is
  \<open>n mod 256\<close>.\<close>

definition latch :: "u8_t list \<Rightarrow> nat" where
  "latch bs = unat (bs ! 0) + 256 * unat (bs ! 1) +
     2048 * (unat (bs ! 2) + 256 * unat (bs ! 3) + 65536 * unat (bs ! 4))"

definition chip :: "(u8_t list \<times> nat) world" where
  "chip = \<lparr>bus_rd = (\<lambda>_ a (bs, p). if a = NFDATA then (of_nat p, (bs, p + 1)) else (1, (bs, p))),
     bus_wr = (\<lambda>_ a v (bs, p). if a = NFCMMD then (if v = 0 then ([], p) else ([], latch bs))
                 else if a = NFADDR then (bs @ [ucast v], p) else (bs, p)),
     uwTick_rd = (\<lambda>d. (0, d))\<rparr>"

lemma chip_ok: "nand_chip_ok chip of_nat (\<lambda>_. True) (\<lambda>a d. snd d = a)"
proof -
  have l: "latch [of_nat (a mod 256), of_nat (a mod 2048 div 256), of_nat (a div 2048 mod 256),
      of_nat (a div 524288 mod 256), of_nat (a div 134217728)] = a" if "a < 2 ^ 28" for a
  proof -
    have "a div 134217728 < 256" "a mod 2048 div 256 < 256" using that by (auto simp: less_mult_imp_div_less)
    then have "latch [of_nat (a mod 256), of_nat (a mod 2048 div 256), of_nat (a div 2048 mod 256),
      of_nat (a div 524288 mod 256), of_nat (a div 134217728)] = a mod 256 + 256 * (a mod 2048 div 256) +
        2048 * (a div 2048 mod 256 + 256 * (a div 524288 mod 256) + 65536 * (a div 134217728))"
      by (simp add: latch_def unat_of_nat)
    also have "a mod 256 + 256 * (a mod 2048 div 256) = a mod 2048"
      using div_mult_mod_eq[of "a mod 2048" 256] by (simp add: mod_mod_cancel)
    also have "a div 2048 mod 256 + 256 * (a div 524288 mod 256) + 65536 * (a div 134217728) = a div 2048"
    proof -
      have "a div 524288 = a div 2048 div 256" "a div 134217728 = a div 2048 div 256 div 256"
        by (simp_all add: div_mult2_eq[symmetric])
      moreover have "z mod 256 + 256 * (z div 256 mod 256) + 65536 * (z div 256 div 256) = z" for z :: nat
      proof -
        define u v where "u = z div 256" and "v = u div 256"
        have "u = v * 256 + u mod 256" "z = u * 256 + z mod 256" by (simp_all add: u_def v_def)
        then show ?thesis unfolding u_def[symmetric] v_def[symmetric] by linarith
      qed
      ultimately show ?thesis by metis
    qed
    also have "a mod 2048 + 2048 * (a div 2048) = a" by simp
    finally show ?thesis .
  qed
  have uo: "(ucast (of_nat n :: u32_t) :: u8_t) = of_nat n" for n by (rule bit_word_eqI) (simp add: bit_simps)
  have wait: "nand_wait_ready chip d = Some d" for d
    unfolding nand_wait_ready_def by (subst poll.simps) (auto simp: chip_def in32_def NFDATA_def NFSTAT_def)
  show ?thesis
    unfolding nand_chip_ok_def wait
    by (auto simp: chip_def nand_data_def in8_def out8_def NFCMMD_def NFADDR_def NFDATA_def l uo)
qed

theorem nand_read_copies_witness:
  "\<exists>d'. copy_code_to_sdram chip 2040 0x30000000 100 (\<lambda>_. 0) ([], 0) = Some (copied of_nat 2040 0x30000000 100 (\<lambda>_. 0), d')"
  using nand_read_copies[OF chip_ok, of 2040 100 "0x30000000" "\<lambda>_. 0" "([], 0)"] by simp

text \<open>\<^verbatim>\<open>clean_bss\<close> ends, clears every byte of a word-aligned section and leaves the rest of the
  memory alone.\<close>

lemma clean_bss_exact:
  assumes "4 dvd e - p" "p \<le> e"
  shows "clean_bss p e m x = (if p \<le> x \<and> x < e then 0 else m x)"
  using clean_bss_clears[OF assms] by simp

lemma clean_bss_exact_example: "clean_bss 16 24 (\<lambda>_. 5) 23 = 0 \<and> clean_bss 16 24 (\<lambda>_. 5) 24 = 5"
  using clean_bss_exact[of 24 16 "\<lambda>_. 5" 23] clean_bss_exact[of 24 16 "\<lambda>_. 5" 24] by simp

end
