(* ===== verification/Dm9000.thy ===== *)
theory Dm9000
  imports Board
begin

section \<open>The DM9000 Ethernet driver (dm9000.c)\<close>

text \<open>
  The controller has an index port and a data port on the bus. The state of the driver is the
  device, the memory that holds the packets, the buffer pointers and what was printed. The build
  uses 16-bit data transfers (\<^verbatim>\<open>CONFIG_DM9000_USE_16BIT\<close>) and no debug output.
\<close>

subsection \<open>Constants and state\<close>

definition DM9000_IO :: nat where "DM9000_IO = 0x20000300"
definition DM9000_DATA :: nat where "DM9000_DATA = 0x20000300 + 4"

definition DM9000_ID :: u32_t where "DM9000_ID = 0x90000A46"
definition DM9000_PKT_MAX :: nat where "DM9000_PKT_MAX = 1536"

definition DM9000_NCR :: u8_t where "DM9000_NCR = 0x00"
definition DM9000_NSR :: u8_t where "DM9000_NSR = 0x01"
definition DM9000_TCR :: u8_t where "DM9000_TCR = 0x02"
definition DM9000_RCR :: u8_t where "DM9000_RCR = 0x05"
definition DM9000_BPTR :: u8_t where "DM9000_BPTR = 0x08"
definition DM9000_FCTR :: u8_t where "DM9000_FCTR = 0x09"
definition DM9000_FCR :: u8_t where "DM9000_FCR = 0x0A"
definition DM9000_EPCR :: u8_t where "DM9000_EPCR = 0x0B"
definition DM9000_EPAR :: u8_t where "DM9000_EPAR = 0x0C"
definition DM9000_EPDRL :: u8_t where "DM9000_EPDRL = 0x0D"
definition DM9000_EPDRH :: u8_t where "DM9000_EPDRH = 0x0E"
definition DM9000_GPCR :: u8_t where "DM9000_GPCR = 0x1e"
definition DM9000_GPR :: u8_t where "DM9000_GPR = 0x1f"
definition DM9000_VIDL :: u8_t where "DM9000_VIDL = 0x28"
definition DM9000_VIDH :: u8_t where "DM9000_VIDH = 0x29"
definition DM9000_PIDL :: u8_t where "DM9000_PIDL = 0x2A"
definition DM9000_PIDH :: u8_t where "DM9000_PIDH = 0x2B"
definition DM9000_SMCR :: u8_t where "DM9000_SMCR = 0x2F"
definition DM9000_PHY :: u8_t where "DM9000_PHY = 0x40"
definition DM9000_MRCMDX :: u8_t where "DM9000_MRCMDX = 0xF0"
definition DM9000_MRCMD :: u8_t where "DM9000_MRCMD = 0xF2"
definition DM9000_MWCMD :: u8_t where "DM9000_MWCMD = 0xF8"
definition DM9000_TXPLL :: u8_t where "DM9000_TXPLL = 0xFC"
definition DM9000_TXPLH :: u8_t where "DM9000_TXPLH = 0xFD"
definition DM9000_ISR :: u8_t where "DM9000_ISR = 0xFE"
definition DM9000_IMR :: u8_t where "DM9000_IMR = 0xFF"

definition NCR_RST :: u8_t where "NCR_RST = push_bit 0 1"
definition NSR_WAKEST :: u8_t where "NSR_WAKEST = push_bit 5 1"
definition NSR_TX2END :: u8_t where "NSR_TX2END = push_bit 3 1"
definition NSR_TX1END :: u8_t where "NSR_TX1END = push_bit 2 1"
definition TCR_TXREQ :: u8_t where "TCR_TXREQ = push_bit 0 1"
definition RCR_DIS_LONG :: u8_t where "RCR_DIS_LONG = push_bit 5 1"
definition RCR_DIS_CRC :: u8_t where "RCR_DIS_CRC = push_bit 4 1"
definition RCR_RXEN :: u8_t where "RCR_RXEN = push_bit 0 1"
definition IMR_PAR :: u8_t where "IMR_PAR = push_bit 7 1"

definition FCTR_HWOT :: "u8_t \<Rightarrow> u8_t" where "FCTR_HWOT t = push_bit 4 (t AND 0xf)"
definition FCTR_LWOT :: "u8_t \<Rightarrow> u8_t" where "FCTR_LWOT t = t AND 0xf"

definition PKTSIZE_ALIGN :: nat where "PKTSIZE_ALIGN = 1536"
definition PKTALIGN :: nat where "PKTALIGN = 32"
definition PKTBUFSRX :: nat where "PKTBUFSRX = 4"
definition PktBuf_size :: nat where "PktBuf_size = (PKTBUFSRX + 1) * PKTSIZE_ALIGN + PKTALIGN"

text \<open>\<open>PktBuf_at\<close> is where the linker put the array \<^verbatim>\<open>PktBuf\<close>.\<close>

record 'd nic =
  dev :: 'd
  mem :: bytes
  PktBuf_at :: nat
  NetTxPacket :: nat
  NetRxPackets :: "nat list"
  printed :: "string list"

definition bi_enetaddr :: "u8_t list" where
  "bi_enetaddr = [0x00, 0x01, 0x02, 0x0f, 0x0e, 0x0d]"

subsection \<open>Port accesses\<close>

definition prt :: "string \<Rightarrow> 'd nic \<Rightarrow> 'd nic" where
  "prt t s = s\<lparr>printed := printed s @ [t]\<rparr>"

definition DM9000_ior :: "'d world \<Rightarrow> u8_t \<Rightarrow> 'd nic \<Rightarrow> u8_t \<times> 'd nic" where
  "DM9000_ior w reg s =
     (case in8 w DM9000_DATA (out8 w DM9000_IO reg (dev s)) of (v, d) \<Rightarrow> (v, s\<lparr>dev := d\<rparr>))"

definition DM9000_iow :: "'d world \<Rightarrow> u8_t \<Rightarrow> u8_t \<Rightarrow> 'd nic \<Rightarrow> 'd nic" where
  "DM9000_iow w reg v s = s\<lparr>dev := out8 w DM9000_DATA v (out8 w DM9000_IO reg (dev s))\<rparr>"

definition DM9000_index :: "'d world \<Rightarrow> u8_t \<Rightarrow> 'd nic \<Rightarrow> 'd nic" where
  "DM9000_index w reg s = s\<lparr>dev := out8 w DM9000_IO reg (dev s)\<rparr>"

definition DM9000_inw :: "'d world \<Rightarrow> 'd nic \<Rightarrow> u16_t \<times> 'd nic" where
  "DM9000_inw w s = (case in16 w DM9000_DATA (dev s) of (v, d) \<Rightarrow> (v, s\<lparr>dev := d\<rparr>))"

definition DM9000_outw :: "'d world \<Rightarrow> u16_t \<Rightarrow> 'd nic \<Rightarrow> 'd nic" where
  "DM9000_outw w v s = s\<lparr>dev := out16 w DM9000_DATA v (dev s)\<rparr>"

definition iows :: "'d world \<Rightarrow> (u8_t \<times> u8_t) list \<Rightarrow> 'd nic \<Rightarrow> 'd nic" where
  "iows w rvs s = fold (\<lambda>(r, v). DM9000_iow w r v) rvs s"

definition delay :: "'d world \<Rightarrow> u32_t \<Rightarrow> 'd nic \<Rightarrow> 'd nic option" where
  "delay w n s = map_option (\<lambda>d. s\<lparr>dev := d\<rparr>) (HAL_Delay w n (dev s))"

definition tick :: "'d world \<Rightarrow> 'd nic \<Rightarrow> u32_t \<times> 'd nic" where
  "tick w s = (case HAL_GetTick w (dev s) of (t, d) \<Rightarrow> (t, s\<lparr>dev := d\<rparr>))"

subsection \<open>PHY access, reset, probe\<close>

text \<open>\<^verbatim>\<open>do { HAL_Delay(1); } while (v != DM9000_ior(DM9000_EPCR));\<close>\<close>

partial_function (option) epcr_wait :: "'d world \<Rightarrow> u8_t \<Rightarrow> 'd nic \<Rightarrow> 'd nic option" where
  "epcr_wait w v s =
     (case delay w 1 s of None \<Rightarrow> None
      | Some s \<Rightarrow> (case DM9000_ior w DM9000_EPCR s of (x, s) \<Rightarrow>
          if v \<noteq> x then epcr_wait w v s else Some s))"

definition phy_read :: "'d world \<Rightarrow> u8_t \<Rightarrow> 'd nic \<Rightarrow> (u16_t \<times> 'd nic) option" where
  "phy_read w reg s =
     (let s = DM9000_iow w DM9000_EPAR (DM9000_PHY OR reg) s;
          s = DM9000_iow w DM9000_EPCR 0xc s
      in do { s \<leftarrow> epcr_wait w 0x0c s;
              let s = DM9000_iow w DM9000_EPCR 0x0 s;
              let (h, s) = DM9000_ior w DM9000_EPDRH s;
              let (l, s) = DM9000_ior w DM9000_EPDRL s;
              Some (push_bit 8 (ucast h) OR ucast l, s) })"

definition phy_write :: "'d world \<Rightarrow> u8_t \<Rightarrow> u16_t \<Rightarrow> 'd nic \<Rightarrow> 'd nic option" where
  "phy_write w reg value s =
     (let s = DM9000_iow w DM9000_EPAR (DM9000_PHY OR (reg AND 0x3f)) s;
          s = DM9000_iow w DM9000_EPDRL (ucast (value AND 0xff)) s;
          s = DM9000_iow w DM9000_EPDRH (ucast (drop_bit 8 value AND 0xff)) s;
          s = DM9000_iow w DM9000_EPCR 0xa s
      in do { s \<leftarrow> epcr_wait w 0x0a s; Some (DM9000_iow w DM9000_EPCR 0x0 s) })"

definition dm9000_reset :: "'d world \<Rightarrow> 'd nic \<Rightarrow> 'd nic option" where
  "dm9000_reset w s =
     do { s \<leftarrow> delay w 3 (DM9000_iow w DM9000_NCR NCR_RST s);
          let s = DM9000_iow w DM9000_NCR 0x00 s;
          s \<leftarrow> delay w 3 (DM9000_iow w DM9000_NCR NCR_RST s);
          Some (DM9000_iow w DM9000_NCR 0x00 s) }"

definition dm9000_probe :: "'d world \<Rightarrow> 'd nic \<Rightarrow> int \<times> 'd nic" where
  "dm9000_probe w s =
     (let (vl, s) = DM9000_ior w DM9000_VIDL s;
          (vh, s) = DM9000_ior w DM9000_VIDH s;
          (pl, s) = DM9000_ior w DM9000_PIDL s;
          (ph, s) = DM9000_ior w DM9000_PIDH s;
          id_val = ((ucast vl OR push_bit 8 (ucast vh)) OR push_bit 16 (ucast pl)) OR push_bit 24 (ucast ph)
      in if id_val = DM9000_ID then (0, prt ''dm9000 i/o'' s) else (- 1, prt ''dm9000 not found'' s))"

subsection \<open>Initialisation\<close>

definition MEM_BWSCON :: nat where "MEM_BWSCON = 0x48000000"
definition MEM_BANKCON4 :: nat where "MEM_BANKCON4 = 0x48000014"
definition BIT_EINT4_7 :: u32_t where "BIT_EINT4_7 = push_bit 4 1"

definition dm9k_io_init :: "'d world \<Rightarrow> 'd \<Rightarrow> 'd" where
  "dm9k_io_init w d =
     (let d = clr32 w MEM_BWSCON (push_bit 16 0x0f) d;
          d = or32 w MEM_BWSCON (push_bit 16 0x05) d;
          d = out32 w MEM_BANKCON4 (push_bit 13 0 OR push_bit 11 3 OR push_bit 8 7 OR push_bit 6 1 OR push_bit 4 0
                OR push_bit 2 3 OR push_bit 0 0) d;
          d = clr32 w GPFCON (push_bit 14 3) d;
          d = or32 w GPFCON (push_bit 14 2) d;
          d = clr32 w EXTINT0 (push_bit 28 7) d;
          d = or32 w EXTINT0 (push_bit 28 1) d;
          d = out32 w EINTPEND (push_bit 7 1) d;
          d = or32 w SRCPND BIT_EINT4_7 d;
          d = or32 w INTPND BIT_EINT4_7 d;
          d = clr32 w EINTMASK (push_bit 7 1) d
      in clr32 w INTMSK BIT_EINT4_7 d)"

text \<open>The wait for the vendor id: \<^verbatim>\<open>i\<close> before a round is the argument; the result is \<^verbatim>\<open>i\<close> after the
  loop.\<close>

fun vid_loop :: "'d world \<Rightarrow> nat \<Rightarrow> 'd nic \<Rightarrow> (int \<times> 'd nic) option" where
  "vid_loop w i s =
     (case delay w 3 s of None \<Rightarrow> None
      | Some s \<Rightarrow>
          (case i of 0 \<Rightarrow> Some (- 1, s)
           | Suc j \<Rightarrow> (case DM9000_ior w DM9000_VIDL s of (v, s) \<Rightarrow>
               if 0x46 \<noteq> v then vid_loop w j s else Some (int j, s))))"

declare vid_loop.simps [simp del]

text \<open>The wait for the link; \<open>tmo\<close> is the deadline.\<close>

partial_function (option) link_loop :: "'d world \<Rightarrow> u32_t \<Rightarrow> 'd nic \<Rightarrow> 'd nic option" where
  "link_loop w tmo s =
     (case tick w s of (t, s) \<Rightarrow>
        if tmo > t
        then (case DM9000_ior w DM9000_NSR s of (v, s) \<Rightarrow>
                if v AND push_bit 6 0x01 = 0x01 then Some s else link_loop w tmo s)
        else Some (prt ''check linkup timeout'' s))"

definition dm9k_pbuff_init :: "'d nic \<Rightarrow> 'd nic" where
  "dm9k_pbuff_init s =
     (let p = PktBuf_at s + (PKTALIGN - 1);
          tx = p - p mod PKTALIGN
      in prt ''dm9k memp inited'' (s\<lparr>NetTxPacket := tx,
           NetRxPackets := map (\<lambda>i. tx + (i + 1) * PKTSIZE_ALIGN) [0..<PKTBUFSRX]\<rparr>))"

definition eth_init :: "'d world \<Rightarrow> 'd nic \<Rightarrow> (int \<times> 'd nic) option" where
  "eth_init w s =
     do { let s = s\<lparr>dev := dm9k_io_init w (dev s)\<rparr>;
          let s = iows w [(DM9000_GPCR, 0x01), (DM9000_GPR, 0x00)] s;
          s \<leftarrow> dm9000_reset w s;
          (i, s) \<leftarrow> vid_loop w 100 s;
          if i = 0 then Some (- 1, s)
          else (let (r, s) = dm9000_probe w s
                in if r < 0 then Some (- 1, s)
                   else do {
                     s \<leftarrow> phy_write w 0x04 0x00a1 s;
                     s \<leftarrow> phy_write w 0x00 0x1200 s;
                     s \<leftarrow> dm9000_reset w s;
                     let s = iows w [(DM9000_NCR, 0x0), (DM9000_IMR, IMR_PAR), (DM9000_TCR, 0), (DM9000_BPTR, 0x3f),
                       (DM9000_FCTR, FCTR_HWOT 3 OR FCTR_LWOT 8), (DM9000_FCR, 0x28),
                       (DM9000_NSR, NSR_WAKEST OR NSR_TX2END OR NSR_TX1END), (DM9000_ISR, 0x0f), (0x38, 0x6b),
                       (DM9000_SMCR, 0)] s;
                     let s = prt ''MAC'' s;
                     let s = iows w (map (\<lambda>i. (0x10 + of_nat i, bi_enetaddr ! i)) [0..<6]) s;
                     let s = iows w (map (\<lambda>i. (0x16 + of_nat i, if i = 7 then 0x80 else 0x00)) [0..<8]) s;
                     let (t, s) = tick w s;
                     s \<leftarrow> link_loop w (t + 3000) s;
                     let s = iows w [(DM9000_NSR, 0x2c), (DM9000_ISR, 0x0f),
                       (DM9000_RCR, RCR_DIS_LONG OR RCR_DIS_CRC OR RCR_RXEN), (DM9000_IMR, IMR_PAR OR 0x01)] s;
                     Some (0, dm9k_pbuff_init s) }) }"

subsection \<open>Transmit, halt, receive\<close>

definition load16 :: "bytes \<Rightarrow> nat \<Rightarrow> u16_t" where
  "load16 m a = ucast (m a) OR push_bit 8 (ucast (m (a + 1)))"

definition store16 :: "nat \<Rightarrow> u16_t \<Rightarrow> bytes \<Rightarrow> bytes" where
  "store16 a v m = m(a := ucast v, a + 1 := ucast (drop_bit 8 v))"

fun send_words :: "'d world \<Rightarrow> nat \<Rightarrow> nat \<Rightarrow> 'd nic \<Rightarrow> 'd nic" where
  "send_words w p 0 s = s"
| "send_words w p (Suc n) s = send_words w (p + 2) n (DM9000_outw w (load16 (mem s) p) s)"

text \<open>The wait for the end of the transmission. \<^verbatim>\<open>tmo\<close> is an \<^verbatim>\<open>int\<close> there, but the comparison with
  the unsigned tick is unsigned.\<close>

partial_function (option) tx_wait :: "'d world \<Rightarrow> u32_t \<Rightarrow> 'd nic \<Rightarrow> 'd nic option" where
  "tx_wait w tmo s =
     (case DM9000_ior w DM9000_TCR s of (v, s) \<Rightarrow>
        if v AND TCR_TXREQ \<noteq> 0
        then (case tick w s of (t, s) \<Rightarrow>
                if t \<ge> tmo then Some (prt ''transmission timeout'' s) else tx_wait w tmo s)
        else Some s)"

definition eth_send :: "'d world \<Rightarrow> nat \<Rightarrow> nat \<Rightarrow> 'd nic \<Rightarrow> (int \<times> 'd nic) option" where
  "eth_send w packet len s =
     do { let s = DM9000_iow w DM9000_IMR IMR_PAR s;
          let s = DM9000_index w DM9000_MWCMD s;
          let s = send_words w packet ((len + 1) div 2) s;
          let s = DM9000_iow w DM9000_TXPLL (of_nat (len mod 256)) s;
          let s = DM9000_iow w DM9000_TXPLH (of_nat (len div 256 mod 256)) s;
          let s = DM9000_iow w DM9000_TCR TCR_TXREQ s;
          let (t, s) = tick w s;
          s \<leftarrow> tx_wait w (t + 500) s;
          Some (0, DM9000_iow w DM9000_IMR (IMR_PAR OR 0x01) s) }"

definition eth_halt :: "'d world \<Rightarrow> 'd nic \<Rightarrow> 'd nic option" where
  "eth_halt w s =
     do { s \<leftarrow> phy_write w 0 0x8000 s;
          s \<leftarrow> delay w 1 (DM9000_iow w DM9000_GPR 0x01 s);
          Some (iows w [(DM9000_IMR, 0x80), (DM9000_RCR, 0x00)] s) }"

fun recv_words :: "'d world \<Rightarrow> nat \<Rightarrow> nat \<Rightarrow> 'd nic \<Rightarrow> 'd nic" where
  "recv_words w p 0 s = s"
| "recv_words w p (Suc n) s =
     (case DM9000_inw w s of (v, s) \<Rightarrow> recv_words w (p + 2) n (s\<lparr>mem := store16 p v (mem s)\<rparr>))"

definition rx_report :: "u16_t \<Rightarrow> 'd nic \<Rightarrow> 'd nic" where
  "rx_report RxStatus s =
     (let s = (if RxStatus AND 0x100 \<noteq> 0 then prt ''rx fifo error'' s else s);
          s = (if RxStatus AND 0x200 \<noteq> 0 then prt ''rx crc error'' s else s)
      in if RxStatus AND 0x8000 \<noteq> 0 then prt ''rx length error'' s else s)"

definition eth_rx :: "'d world \<Rightarrow> 'd nic \<Rightarrow> (nat \<times> 'd nic) option" where
  "eth_rx w s =
     (let rdptr = NetRxPackets s ! 0;
          (_, s) = DM9000_ior w DM9000_MRCMDX s;
          (_, s) = DM9000_ior w 0xf5 s;
          (_, s) = DM9000_ior w 0xf4 s;
          (rxbyte, s) = DM9000_ior w DM9000_MRCMDX s
      in if rxbyte \<noteq> 1
         then Some (0, if rxbyte > 1 then iows w [(DM9000_RCR, 0x00), (DM9000_ISR, 0x80)] s else s)
         else (let s = DM9000_index w DM9000_MRCMD s;
                   (RxStatus, s) = DM9000_inw w s;
                   (RxLen, s) = DM9000_inw w s;
                   n = unat RxLen;
                   s = recv_words w rdptr ((n + 1) div 2) s
               in if RxStatus AND 0xbf00 \<noteq> 0 \<or> n < 0x40 \<or> n > DM9000_PKT_MAX
                  then (let s = rx_report RxStatus s
                        in do { s \<leftarrow> (if n > DM9000_PKT_MAX
                                     then dm9000_reset w (prt ''rx length too big'' s) else Some s);
                                Some (0, DM9000_iow w DM9000_ISR 0x0f s) })
                  else Some (n, DM9000_iow w DM9000_ISR 0x0f s)))"

subsection \<open>Frame facts\<close>

lemma port_frame [simp]:
  "mem (DM9000_iow w r v s) = mem s" "mem (DM9000_index w r s) = mem s" "mem (DM9000_outw w x s) = mem s"
  "mem (snd (DM9000_ior w r s)) = mem s" "mem (snd (DM9000_inw w s)) = mem s" "mem (prt t s) = mem s"
  "mem (snd (tick w s)) = mem s"
  "NetRxPackets (DM9000_iow w r v s) = NetRxPackets s" "NetRxPackets (DM9000_index w r s) = NetRxPackets s"
  "NetRxPackets (snd (DM9000_ior w r s)) = NetRxPackets s" "NetRxPackets (snd (DM9000_inw w s)) = NetRxPackets s"
  "dev (prt t s) = dev s"
  by (simp_all add: DM9000_iow_def DM9000_index_def DM9000_outw_def DM9000_ior_def DM9000_inw_def prt_def tick_def
      split: prod.splits)

lemma iows_mem [simp]: "mem (iows w rvs s) = mem s"
  unfolding iows_def by (induction rvs arbitrary: s) (auto split: prod.splits)

lemma report_mem [simp]: "mem (rx_report x s) = mem s"
  by (simp add: rx_report_def Let_def)

lemma delay_mem: "delay w n s = Some t \<Longrightarrow> mem t = mem s"
  by (auto simp: delay_def)

lemma reset_mem: "dm9000_reset w s = Some t \<Longrightarrow> mem t = mem s"
  by (auto simp: dm9000_reset_def dest!: delay_mem split: bind_splits)

subsection \<open>Receive\<close>

text \<open>The bytes of a list of little-endian words.\<close>

definition unpack :: "u16_t list \<Rightarrow> u8_t list" where
  "unpack vs = concat (map (\<lambda>v. [ucast v, ucast (drop_bit 8 v)]) vs)"

definition stored :: "nat \<Rightarrow> u8_t list \<Rightarrow> bytes \<Rightarrow> bytes" where
  "stored p bs m = (\<lambda>x. if p \<le> x \<and> x < p + length bs then bs ! (x - p) else m x)"

lemma unpack_simps [simp]:
  "unpack [] = []" "unpack (v # vs) = ucast v # ucast (drop_bit 8 v) # unpack vs" "length (unpack vs) = 2 * length vs"
  by (induction vs) (auto simp: unpack_def)

lemma stored_Nil [simp]: "stored p [] m = m"
  by (auto simp: stored_def fun_eq_iff)

lemma stored_word: "stored (p + 2) bs (store16 p v m) = stored p (ucast v # ucast (drop_bit 8 v) # bs) m"
proof
  fix x
  consider "x < p" | "x = p" | "x = p + 1" | k where "x = p + 2 + k"
    by (metis add.commute add.left_commute le_Suc_ex less_Suc_eq_le linorder_not_le nat_1_add_1 not_less_eq_eq plus_1_eq_Suc Suc_leI le_antisym)
  then show "stored (p + 2) bs (store16 p v m) x = stored p (ucast v # ucast (drop_bit 8 v) # bs) m x"
    by cases (auto simp: stored_def store16_def)
qed

text \<open>The receive side of the controller: \<open>idx\<close> is the selected register, \<open>fifo\<close> the words that reads
  through \<^verbatim>\<open>MRCMD\<close> will return. \<^verbatim>\<open>MRCMDX\<close> reads the packet-ready flag.\<close>

definition rx_chip_ok :: "'d world \<Rightarrow> ('d \<Rightarrow> u8_t) \<Rightarrow> ('d \<Rightarrow> u16_t list) \<Rightarrow> bool" where
  "rx_chip_ok w idx fifo \<longleftrightarrow>
     (\<forall>d v. idx (out8 w DM9000_IO v d) = v \<and> fifo (out8 w DM9000_IO v d) = fifo d) \<and>
     (\<forall>d v. fifo (out8 w DM9000_DATA v d) = fifo d) \<and>
     (\<forall>d. idx d \<noteq> DM9000_MRCMD \<longrightarrow> fifo (snd (in8 w DM9000_DATA d)) = fifo d) \<and>
     (\<forall>d. idx d = DM9000_MRCMDX \<longrightarrow> fst (in8 w DM9000_DATA d) = (if fifo d = [] then 0 else 1)) \<and>
     (\<forall>d v vs. idx d = DM9000_MRCMD \<longrightarrow> fifo d = v # vs \<longrightarrow>
        fst (in16 w DM9000_DATA d) = v \<and> fifo (snd (in16 w DM9000_DATA d)) = vs \<and>
        idx (snd (in16 w DM9000_DATA d)) = DM9000_MRCMD)"

lemma ior_fifo:
  assumes "rx_chip_ok w idx fifo" "r \<noteq> DM9000_MRCMD"
  shows "fifo (dev (snd (DM9000_ior w r s))) = fifo (dev s)"
    "fst (DM9000_ior w DM9000_MRCMDX s) = (if fifo (dev s) = [] then 0 else 1)"
  using assms by (auto simp: rx_chip_ok_def DM9000_ior_def split: prod.splits) (metis fst_conv snd_conv)+

lemma iow_fifo: "rx_chip_ok w idx fifo \<Longrightarrow> fifo (dev (DM9000_iow w r v s)) = fifo (dev s)"
  by (simp add: rx_chip_ok_def DM9000_iow_def)

lemma inw_fifo:
  assumes "rx_chip_ok w idx fifo" "idx (dev s) = DM9000_MRCMD" "fifo (dev s) = v # vs"
  shows "\<exists>t. DM9000_inw w s = (v, t) \<and> fifo (dev t) = vs \<and> idx (dev t) = DM9000_MRCMD \<and> mem t = mem s"
proof -
  have "fst (in16 w DM9000_DATA (dev s)) = v \<and> fifo (snd (in16 w DM9000_DATA (dev s))) = vs \<and>
      idx (snd (in16 w DM9000_DATA (dev s))) = DM9000_MRCMD"
    using assms unfolding rx_chip_ok_def by blast
  then show ?thesis
    by (intro exI[of _ "s\<lparr>dev := snd (in16 w DM9000_DATA (dev s))\<rparr>"]) (simp add: DM9000_inw_def case_prod_beta)
qed

lemma recv_words_stores:
  assumes c: "rx_chip_ok w idx fifo"
  shows "idx (dev s) = DM9000_MRCMD \<Longrightarrow> fifo (dev s) = ws @ rest \<Longrightarrow>
    fifo (dev (recv_words w p (length ws) s)) = rest \<and> mem (recv_words w p (length ws) s) = stored p (unpack ws) (mem s)"
proof (induction ws arbitrary: s p)
  case (Cons v ws)
  obtain t where t: "DM9000_inw w s = (v, t)" "fifo (dev t) = ws @ rest" "idx (dev t) = DM9000_MRCMD" "mem t = mem s"
    using inw_fifo[OF c Cons.prems(1)] Cons.prems(2) by auto
  have "fifo (dev (recv_words w (p + 2) (length ws) (t\<lparr>mem := store16 p v (mem t)\<rparr>))) = rest \<and>
      mem (recv_words w (p + 2) (length ws) (t\<lparr>mem := store16 p v (mem t)\<rparr>)) =
        stored (p + 2) (unpack ws) (store16 p v (mem t))"
    using Cons.IH[of "t\<lparr>mem := store16 p v (mem t)\<rparr>" "p + 2"] t by simp
  then show ?case using t stored_word[of p "unpack ws" v "mem s"] by simp
qed simp

text \<open>What \<^verbatim>\<open>eth_rx\<close> does when a packet is waiting.\<close>

definition rx_good :: "u16_t \<Rightarrow> u16_t \<Rightarrow> bool" where
  "rx_good status len \<longleftrightarrow> status AND 0xbf00 = 0 \<and> 0x40 \<le> unat len \<and> unat len \<le> DM9000_PKT_MAX"

lemma eth_rx_packet:
  assumes c: "rx_chip_ok w idx fifo" and f: "fifo (dev s) = status # len # ws @ rest"
    and n: "length ws = (unat len + 1) div 2"
  obtains u where "mem u = stored (NetRxPackets s ! 0) (unpack ws) (mem s)" "fifo (dev u) = rest"
    "rx_good status len \<Longrightarrow> eth_rx w s = Some (unat len, DM9000_iow w DM9000_ISR 0x0f u)"
    "\<not> rx_good status len \<Longrightarrow> eth_rx w s =
       do { v \<leftarrow> (if unat len > DM9000_PKT_MAX then dm9000_reset w (prt ''rx length too big'' (rx_report status u))
                 else Some (rx_report status u));
            Some (0, DM9000_iow w DM9000_ISR 0x0f v) }"
proof -
  have ne: "DM9000_MRCMDX \<noteq> DM9000_MRCMD" "0xf5 \<noteq> DM9000_MRCMD" "0xf4 \<noteq> DM9000_MRCMD"
    by (simp_all add: DM9000_MRCMDX_def DM9000_MRCMD_def)
  define s1 where "s1 = snd (DM9000_ior w DM9000_MRCMDX s)"
  define s2 where "s2 = snd (DM9000_ior w 0xf5 s1)"
  define s3 where "s3 = snd (DM9000_ior w 0xf4 s2)"
  define s4 where "s4 = snd (DM9000_ior w DM9000_MRCMDX s3)"
  have fs: "fifo (dev s3) = fifo (dev s)" "fifo (dev s4) = fifo (dev s)"
    by (simp_all add: s1_def s2_def s3_def s4_def ior_fifo(1)[OF c] ne)
  have rdy: "fst (DM9000_ior w DM9000_MRCMDX s3) = 1" using ior_fifo(2)[OF c ne(1), of s3] fs f by simp
  define s5 where "s5 = DM9000_index w DM9000_MRCMD s4"
  have s5: "idx (dev s5) = DM9000_MRCMD" "fifo (dev s5) = status # len # ws @ rest"
    using c fs f by (simp_all add: s5_def DM9000_index_def rx_chip_ok_def)
  obtain s6 where s6: "DM9000_inw w s5 = (status, s6)" "fifo (dev s6) = len # ws @ rest" "idx (dev s6) = DM9000_MRCMD"
      "mem s6 = mem s5" using inw_fifo[OF c s5] by blast
  obtain s7 where s7: "DM9000_inw w s6 = (len, s7)" "fifo (dev s7) = ws @ rest" "idx (dev s7) = DM9000_MRCMD"
      "mem s7 = mem s6" using inw_fifo[OF c s6(3,2)] by blast
  define u where "u = recv_words w (NetRxPackets s ! 0) (Suc (unat len) div 2) s7"
  have u: "mem u = stored (NetRxPackets s ! 0) (unpack ws) (mem s)" "fifo (dev u) = rest"
    using recv_words_stores[OF c s7(3,2), of "NetRxPackets s ! 0"] n s6 s7
    by (simp_all add: u_def s5_def s4_def s3_def s2_def s1_def)
  have e: "eth_rx w s = (if status AND 0xbf00 \<noteq> 0 \<or> unat len < 0x40 \<or> unat len > DM9000_PKT_MAX
     then do { v \<leftarrow> (if unat len > DM9000_PKT_MAX then dm9000_reset w (prt ''rx length too big'' (rx_report status u))
                 else Some (rx_report status u));
            Some (0, DM9000_iow w DM9000_ISR 0x0f v) }
     else Some (unat len, DM9000_iow w DM9000_ISR 0x0f u))"
    unfolding eth_rx_def
    by (simp add: case_prod_beta s1_def[symmetric] s2_def[symmetric] s3_def[symmetric] s4_def[symmetric] rdy
        s5_def[symmetric] s6(1) s7(1) u_def[symmetric] cong: if_cong)
  show thesis
    by (rule that[OF u]) (use e in \<open>auto simp: rx_good_def not_le\<close>)
qed

subsection \<open>Packet buffers\<close>

lemma pbuff_layout:
  fixes s :: "'d nic"
  defines "t \<equiv> dm9k_pbuff_init s"
  shows "NetTxPacket t mod 32 = 0" "PktBuf_at s \<le> NetTxPacket t" "NetTxPacket t < PktBuf_at s + 32"
    "NetRxPackets t = map (\<lambda>i. NetTxPacket t + (i + 1) * 1536) [0..<4]" "dev t = dev s" "mem t = mem s"
    "PktBuf_at t = PktBuf_at s"
proof -
  have e: "NetTxPacket t = PktBuf_at s + 31 - (PktBuf_at s + 31) mod 32"
    by (simp add: t_def dm9k_pbuff_init_def Let_def prt_def PKTALIGN_def)
  have "\<exists>q. NetTxPacket t = 32 * q" unfolding e by (metis minus_mod_eq_mult_div)
  then show "NetTxPacket t mod 32 = 0" by auto
  have "(PktBuf_at s + 31) mod 32 < 32" by simp
  then show "PktBuf_at s \<le> NetTxPacket t" "NetTxPacket t < PktBuf_at s + 32" unfolding e by linarith+
  show "NetRxPackets t = map (\<lambda>i. NetTxPacket t + (i + 1) * 1536) [0..<4]" "dev t = dev s" "mem t = mem s"
    "PktBuf_at t = PktBuf_at s"
    by (simp_all add: t_def dm9k_pbuff_init_def Let_def prt_def PKTALIGN_def PKTSIZE_ALIGN_def PKTBUFSRX_def)
qed

lemma delay_returns: "clock_ok w T \<Longrightarrow> \<exists>t. delay w n s = Some t"
  using HAL_Delay_waits[of w T n "dev s"] by (auto simp: delay_def)

lemma reset_returns: "clock_ok w T \<Longrightarrow> \<exists>t. dm9000_reset w s = Some t"
  unfolding dm9000_reset_def Let_def
  using delay_returns[of w T 3] by (auto simp: Option.bind_eq_Some_conv) metis

lemma eth_rx_memory:
  assumes c: "rx_chip_ok w idx fifo" "clock_ok w T" and f: "fifo (dev s) = status # len # ws @ rest"
    and n: "length ws = (unat len + 1) div 2"
  shows "\<exists>t. eth_rx w s = Some (if rx_good status len then unat len else 0, t) \<and>
    mem t = stored (NetRxPackets s ! 0) (unpack ws) (mem s)"
proof -
  obtain u where u: "mem u = stored (NetRxPackets s ! 0) (unpack ws) (mem s)"
    "rx_good status len \<Longrightarrow> eth_rx w s = Some (unat len, DM9000_iow w DM9000_ISR 0x0f u)"
    "\<not> rx_good status len \<Longrightarrow> eth_rx w s =
       do { v \<leftarrow> (if unat len > DM9000_PKT_MAX then dm9000_reset w (prt ''rx length too big'' (rx_report status u))
                 else Some (rx_report status u));
            Some (0, DM9000_iow w DM9000_ISR 0x0f v) }"
    using eth_rx_packet[OF c(1) f n] by metis
  obtain v where v: "dm9000_reset w (prt ''rx length too big'' (rx_report status u)) = Some v"
    using reset_returns[OF c(2)] by blast
  then have "mem v = mem u" using reset_mem[OF v] by simp
  then show ?thesis using u v by (cases "rx_good status len"; cases "unat len > DM9000_PKT_MAX") auto
qed

subsection \<open>Properties\<close>

text \<open>C21. A waiting packet with good status and a length between 64 and 1536 is received: \<^verbatim>\<open>eth_rx\<close>
  returns its length, the bytes of the controller's FIFO are in the first receive buffer in order,
  exactly the packet is taken from the FIFO, and no byte of memory outside the packet area
  \<^verbatim>\<open>PktBuf\<close> is written (buffers as set up by \<^verbatim>\<open>dm9k_pbuff_init\<close>). A packet with bad status or a
  length under 64 gives 0, within the same bounds.\<close>

theorem eth_rx_receives:
  assumes "rx_chip_ok w idx fifo" "clock_ok w T" "fifo (dev s) = status # len # ws @ rest"
    and "length ws = (unat len + 1) div 2" "unat len \<le> DM9000_PKT_MAX"
  shows "\<exists>t. eth_rx w (dm9k_pbuff_init s) = Some (if rx_good status len then unat len else 0, t) \<and>
    (\<forall>k < unat len. mem t (NetRxPackets (dm9k_pbuff_init s) ! 0 + k) = unpack ws ! k) \<and>
    (\<forall>x. x < PktBuf_at s \<or> PktBuf_at s + PktBuf_size \<le> x \<longrightarrow> mem t x = mem s x)"
proof -
  let ?s = "dm9k_pbuff_init s"
  note l = pbuff_layout[of s]
  have f: "fifo (dev ?s) = status # len # ws @ rest" using assms(3) l(5) by simp
  obtain t where t: "eth_rx w ?s = Some (if rx_good status len then unat len else 0, t)"
    "mem t = stored (NetRxPackets ?s ! 0) (unpack ws) (mem ?s)"
    using eth_rx_memory[OF assms(1,2) f assms(4)] by blast
  have r: "NetRxPackets ?s ! 0 = NetTxPacket ?s + 1536" using l(4) by simp
  have n: "unat len \<le> 2 * length ws" "2 * length ws \<le> 1536" using assms(4,5) by (auto simp: DM9000_PKT_MAX_def)
  have "mem t (NetRxPackets ?s ! 0 + k) = unpack ws ! k" if "k < unat len" for k
    using that n by (simp add: t(2) stored_def)
  moreover have "mem t x = mem s x" if "x < PktBuf_at s \<or> PktBuf_at s + PktBuf_size \<le> x" for x
    using that n l(2,3,6) unfolding t(2) stored_def r
    by (auto simp: PktBuf_size_def PKTBUFSRX_def PKTSIZE_ALIGN_def PKTALIGN_def)
  ultimately show ?thesis using t(1) by blast
qed

text \<open>A controller with a FIFO, on which every tick read ticks.\<close>

type_synonym fifo_chip = "u8_t \<times> u16_t list \<times> nat"

definition rx_chip :: "fifo_chip world" where
  "rx_chip = \<lparr>bus_rd = (\<lambda>wd a (i, f, t). if wd = W16 \<and> i = DM9000_MRCMD then (ucast (hd f), (i, tl f, t))
                 else (if f = [] then 0 else 1, (i, f, t))),
     bus_wr = (\<lambda>wd a v (i, f, t). if a = DM9000_IO then (ucast v, f, t) else (i, f, t)),
     uwTick_rd = (\<lambda>(i, f, t). (of_nat (t + 1), (i, f, t + 1)))\<rparr>"

lemma rx_chip_good: "rx_chip_ok rx_chip fst (\<lambda>d. fst (snd d))" "clock_ok rx_chip (\<lambda>d. snd (snd d))"
proof -
  show "rx_chip_ok rx_chip fst (\<lambda>d. fst (snd d))"
    by (auto simp: rx_chip_ok_def rx_chip_def in8_def in16_def out8_def DM9000_IO_def DM9000_DATA_def
        DM9000_MRCMDX_def DM9000_MRCMD_def)
  show "clock_ok rx_chip (\<lambda>d. snd (snd d))"
    unfolding clock_ok_def rx_chip_def by (auto intro: exI[of _ "Suc 0"])
qed

definition nic0 :: "'d \<Rightarrow> 'd nic" where
  "nic0 d = \<lparr>dev = d, mem = (\<lambda>_. 0), PktBuf_at = 0x30100004, NetTxPacket = 0, NetRxPackets = [], printed = []\<rparr>"

definition rx_demo :: "u16_t \<Rightarrow> nat \<Rightarrow> fifo_chip nic" where
  "rx_demo len n = nic0 (0, 0x4001 # len # replicate n 0x1234 @ [], 0)"

lemma rx_demo_simps:
  "fst (snd (dev (rx_demo len n))) = 0x4001 # len # replicate n 0x1234 @ []"
  "PktBuf_at (rx_demo len n) = 0x30100004" "mem (rx_demo len n) x = 0"
  "NetRxPackets (dm9k_pbuff_init (rx_demo len n)) ! 0 = 0x30100620"
  by (simp_all add: rx_demo_def dm9k_pbuff_init_def nic0_def prt_def PKTALIGN_def PKTSIZE_ALIGN_def PKTBUFSRX_def)

theorem eth_rx_receives_witness:
  "\<exists>t. eth_rx rx_chip (dm9k_pbuff_init (rx_demo 64 32)) = Some (64, t) \<and> mem t 0x30100621 = 0x12"
proof -
  have g: "rx_good 0x4001 64" "unat (64 :: u16_t) = 64" by (simp_all add: rx_good_def DM9000_PKT_MAX_def)
  have "length (replicate 32 (0x1234 :: u16_t)) = (unat (64 :: u16_t) + 1) div 2" "unat (64 :: u16_t) \<le> DM9000_PKT_MAX"
    by (simp_all add: DM9000_PKT_MAX_def)
  from eth_rx_receives[OF rx_chip_good rx_demo_simps(1) this] obtain t where
    t: "eth_rx rx_chip (dm9k_pbuff_init (rx_demo 64 32)) = Some (64, t)"
      "\<forall>k<64. mem t (0x30100620 + k) = unpack (replicate 32 0x1234) ! k"
    unfolding rx_demo_simps(4) using g by auto
  have "mem t (0x30100620 + 1) = unpack (replicate 32 0x1234) ! 1" using t(2)[rule_format, of 1] by simp
  moreover have "unpack (replicate (Suc n) (0x1234 :: u16_t)) ! 1 = 0x12" for n by simp
  from this[of 31] have "unpack (replicate 32 (0x1234 :: u16_t)) ! 1 = 0x12" by simp
  ultimately have "mem t 0x30100621 = 0x12" by simp
  then show ?thesis using t(1) by blast
qed

text \<open>C28. The length of a packet is checked only after the packet was copied: for a length of at
  least the size of \<^verbatim>\<open>PktBuf\<close>, which the 16-bit length field allows, \<^verbatim>\<open>eth_rx\<close> returns 0 after it
  overwrote the byte right behind the packet area with packet data.\<close>

theorem eth_rx_overflow:
  assumes "rx_chip_ok w idx fifo" "clock_ok w T" "fifo (dev s) = status # len # ws @ rest"
    and "length ws = (unat len + 1) div 2" "PktBuf_size \<le> unat len"
  shows "\<exists>t. eth_rx w (dm9k_pbuff_init s) = Some (0, t) \<and>
    mem t (PktBuf_at s + PktBuf_size) =
      unpack ws ! (PktBuf_at s + PktBuf_size - NetRxPackets (dm9k_pbuff_init s) ! 0)"
proof -
  let ?s = "dm9k_pbuff_init s"
  note l = pbuff_layout[of s]
  have f: "fifo (dev ?s) = status # len # ws @ rest" using assms(3) l(5) by simp
  have "\<not> rx_good status len"
    using assms(5) by (auto simp: rx_good_def PktBuf_size_def PKTBUFSRX_def PKTSIZE_ALIGN_def PKTALIGN_def DM9000_PKT_MAX_def)
  then obtain t where t: "eth_rx w ?s = Some (0, t)" "mem t = stored (NetRxPackets ?s ! 0) (unpack ws) (mem ?s)"
    using eth_rx_memory[OF assms(1,2) f assms(4)] by auto
  have "NetRxPackets ?s ! 0 = NetTxPacket ?s + 1536" using l(4) by simp
  moreover have "unat len \<le> length (unpack ws)" using assms(4) by simp
  ultimately have "NetRxPackets ?s ! 0 \<le> PktBuf_at s + PktBuf_size \<and>
      PktBuf_at s + PktBuf_size < NetRxPackets ?s ! 0 + length (unpack ws)"
    using l(2,3) assms(5) by (simp add: PktBuf_size_def PKTBUFSRX_def PKTSIZE_ALIGN_def PKTALIGN_def)
  then show ?thesis using t by (simp add: stored_def)
qed

theorem eth_rx_overflow_witness:
  "\<exists>t. eth_rx rx_chip (dm9k_pbuff_init (rx_demo 8000 4000)) = Some (0, t)"
proof -
  have "length (replicate 4000 (0x1234 :: u16_t)) = (unat (8000 :: u16_t) + 1) div 2" "PktBuf_size \<le> unat (8000 :: u16_t)"
    by (simp_all add: PktBuf_size_def PKTBUFSRX_def PKTSIZE_ALIGN_def PKTALIGN_def)
  from eth_rx_overflow[OF rx_chip_good rx_demo_simps(1) this] show ?thesis by blast
qed

text \<open>The packet buffers lie in \<^verbatim>\<open>PktBuf\<close> without overlap and are 32-byte aligned, wherever the
  linker puts the array.\<close>

lemma dm9k_pbuff_layout:
  "let t = dm9k_pbuff_init s; ps = NetTxPacket t # NetRxPackets t
   in length ps = 5 \<and> list_all (\<lambda>p. p mod 32 = 0 \<and> PktBuf_at s \<le> p \<and> p + 1536 \<le> PktBuf_at s + PktBuf_size) ps \<and>
      sorted_wrt (\<lambda>p q. p + 1536 \<le> q) ps"
proof -
  let ?t = "dm9k_pbuff_init s"
  note l = pbuff_layout[of s]
  have r: "NetRxPackets ?t = [NetTxPacket ?t + 1536, NetTxPacket ?t + 3072, NetTxPacket ?t + 4608, NetTxPacket ?t + 6144]"
    by (simp add: l(4) upt_rec)
  have "(NetTxPacket ?t + 32 * k) mod 32 = 0" for k using l(1) by simp
  from this[of 48] this[of 96] this[of 144] this[of 192] show ?thesis
    using l(1,2,3) by (simp add: r PktBuf_size_def PKTBUFSRX_def PKTSIZE_ALIGN_def PKTALIGN_def)
qed

subsection \<open>Initialisation and the link check\<close>

lemma nsr_test: "\<not> (v AND push_bit 6 0x01 = (0x01 :: u8_t))"
proof
  assume "v AND push_bit 6 0x01 = (0x01 :: u8_t)"
  then have "bit (v AND push_bit 6 0x01) 0 = bit (0x01 :: u8_t) 0" by simp
  then show False by (simp add: bit_simps)
qed

text \<open>One access to the status register, and the clock as the link loop reads it, with such an access
  before each read of the tick count.\<close>

definition nsr_read :: "'d world \<Rightarrow> 'd \<Rightarrow> 'd" where
  "nsr_read w d = snd (in8 w DM9000_DATA (out8 w DM9000_IO DM9000_NSR d))"

definition link_clock :: "'d world \<Rightarrow> 'd world" where
  "link_clock w = w\<lparr>uwTick_rd := (\<lambda>d. uwTick_rd w (nsr_read w d))\<rparr>"

lemma link_loop_step:
  "link_loop w tmo s = (case uwTick_rd w (dev s) of (t, d) \<Rightarrow>
     if tmo > t then link_loop w tmo (s\<lparr>dev := nsr_read w d\<rparr>) else Some (prt ''check linkup timeout'' (s\<lparr>dev := d\<rparr>)))"
  by (subst link_loop.simps)
    (auto simp: tick_def HAL_GetTick_def DM9000_ior_def nsr_read_def nsr_test[simplified] split: prod.splits)

text \<open>Once the first read is done, the loop polls the clock.\<close>

lemma link_loop_polls:
  fixes s :: "'d nic" and w :: "'d world" and tmo :: u32_t
  defines "r \<equiv> uwTick_rd (link_clock w)" and "ok \<equiv> \<lambda>t. \<not> tmo > t"
  assumes "ok (fst (r (after_reads r m d)))"
  shows "link_loop w tmo (s\<lparr>dev := nsr_read w d\<rparr>) =
    map_option (\<lambda>d. prt ''check linkup timeout'' (s\<lparr>dev := d\<rparr>)) (poll r ok d)"
  using assms(3)
proof (induction m arbitrary: d)
  case 0
  then show ?case
    by (subst link_loop_step, subst poll.simps) (auto simp: r_def ok_def link_clock_def split: prod.splits)
next
  case (Suc m)
  obtain t d' where r: "r d = (t, d')" by (cases "r d")
  have IH: "link_loop w tmo (s\<lparr>dev := nsr_read w d'\<rparr>) =
      map_option (\<lambda>d. prt ''check linkup timeout'' (s\<lparr>dev := d\<rparr>)) (poll r ok d')"
    by (rule Suc.IH) (use Suc.prems r in simp)
  have "uwTick_rd w (nsr_read w d) = (t, d')" using r by (simp add: r_def link_clock_def)
  then show ?case using r IH by (subst link_loop_step, subst poll.simps) (simp add: ok_def)
qed

text \<open>A deadline that does not wrap around is seen when it is reached, and not before.\<close>

lemma deadline:
  assumes "T0 \<le> N" "N \<le> T0 + k" "\<not> (of_nat (T0 + k) :: u32_t) > of_nat N" "T0 mod 2 ^ 32 + k < 2 ^ 32"
  shows "N = T0 + k"
proof -
  have m: "(T0 + j) mod 2 ^ 32 = T0 mod 2 ^ 32 + j" if "j \<le> k" for j :: nat
    using assms(4) that mod_less[of "T0 mod 2 ^ 32 + j" "2 ^ 32"] by (simp add: mod_add_left_eq)
  obtain e where e: "N = T0 + e" "e \<le> k" using assms(1,2) by (metis add_le_cancel_left le_Suc_ex)
  then show ?thesis using assms(3) m[of k] m[of e] by (simp add: word_less_nat_alt unat_of_nat del: of_nat_add)
qed

lemma link_loop_waits:
  assumes c: "clock_ok w T" "clock_ok (link_clock w) T" and k: "0 < k"
  obtains d where "link_loop w (of_nat (T (dev s) + k)) s = Some (prt ''check linkup timeout'' (s\<lparr>dev := d\<rparr>))"
    "T d \<le> T (dev s) + k" "T (dev s) mod 2 ^ 32 + k < 2 ^ 32 \<longrightarrow> T d = T (dev s) + k"
proof -
  let ?T0 = "T (dev s)" and ?tmo = "of_nat (T (dev s) + k) :: u32_t" and ?r = "uwTick_rd (link_clock w)"
  let ?ok = "\<lambda>t. \<not> ?tmo > t"
  obtain t d1 where u: "uwTick_rd w (dev s) = (t, d1)" by (cases "uwTick_rd w (dev s)")
  have d1: "t = of_nat (T d1)" "?T0 \<le> T d1" "T d1 \<le> ?T0 + 1"
    using c(1) u unfolding clock_ok_def by (metis fst_conv snd_conv)+
  have e1: "link_loop w ?tmo s = (if ?tmo > t then link_loop w ?tmo (s\<lparr>dev := nsr_read w d1\<rparr>)
      else Some (prt ''check linkup timeout'' (s\<lparr>dev := d1\<rparr>)))"
    by (subst link_loop_step) (simp add: u)
  show thesis
  proof (cases "?ok t")
    case True
    have "T d1 \<le> ?T0 + k" using d1(3) k by simp
    moreover have "T d1 = ?T0 + k" if "?T0 mod 2 ^ 32 + k < 2 ^ 32"
      using deadline[of ?T0 "T d1" k] d1 True that k by simp
    ultimately show thesis using True e1 by (intro that[of d1]) simp_all
  next
    case False
    have val: "fst (?r (after_reads ?r j d1)) = of_nat (T (after_reads ?r (Suc j) d1))" for j
      unfolding after_reads_Suc[of _ j] using c(2) by (auto simp: clock_ok_def)
    have lt: "T d1 < ?T0 + k \<or> T d1 = ?T0 + k" using d1(3) k by auto
    then have "T d1 \<noteq> ?T0 + k" using False d1(1) by auto
    then have "?T0 + k = T d1 + (?T0 + k - T d1)" "?T0 + k - T d1 > 0" using lt by auto
    then obtain n where n: "T (after_reads ?r n d1) = ?T0 + k" using clock_reaches[OF c(2), of d1 "?T0 + k - T d1"] by auto
    then obtain m where m: "n = Suc m" using \<open>T d1 \<noteq> ?T0 + k\<close> by (cases n) auto
    have okm: "?ok (fst (?r (after_reads ?r m d1)))" unfolding val n[unfolded m] by simp
    obtain j where j: "j \<le> m" "poll ?r ?ok d1 = Some (after_reads ?r (Suc j) d1)" "?ok (fst (?r (after_reads ?r j d1)))"
      using poll_ends[of ?ok ?r m d1, OF okm] by blast
    let ?d = "after_reads ?r (Suc j) d1"
    have le: "T ?d \<le> ?T0 + k" using clock_mono[OF c(2), of "Suc j" "Suc m" d1] j(1) n m by simp
    have ge: "?T0 \<le> T ?d" using clock_mono[OF c(2), of 0 "Suc j" d1] d1(2) by simp
    have "T ?d = ?T0 + k" if "?T0 mod 2 ^ 32 + k < 2 ^ 32"
      using deadline[OF ge le _ that] j(3) unfolding val by simp
    moreover have "link_loop w ?tmo s = Some (prt ''check linkup timeout'' (s\<lparr>dev := ?d\<rparr>))"
      using e1 False link_loop_polls[where w = w and tmo = ?tmo and s = s, OF okm] j(2) by simp
    ultimately show thesis using le by (intro that[of ?d]) simp_all
  qed
qed

text \<open>The controller during initialisation. \<open>pc\<close> is the command register of the PHY interface; it reads
  back what was written, with the busy bit set until \<open>busy\<close> more reads. The identification registers hold
  the vendor and product number. Nothing is said of the status register with the link bit.\<close>

definition init_chip_ok :: "'d world \<Rightarrow> ('d \<Rightarrow> u8_t) \<Rightarrow> ('d \<Rightarrow> u8_t) \<Rightarrow> ('d \<Rightarrow> nat) \<Rightarrow> bool" where
  "init_chip_ok w idx pc busy \<longleftrightarrow>
     (\<forall>d v. idx (out8 w DM9000_IO v d) = v \<and> pc (out8 w DM9000_IO v d) = pc d \<and> busy (out8 w DM9000_IO v d) = busy d) \<and>
     (\<forall>d v. idx d = DM9000_EPCR \<longrightarrow> pc (out8 w DM9000_DATA v d) = v) \<and>
     (\<forall>d. idx d = DM9000_EPCR \<longrightarrow> fst (in8 w DM9000_DATA d) = (if busy d = 0 then pc d else pc d OR 1) \<and>
        pc (snd (in8 w DM9000_DATA d)) = pc d \<and> busy (snd (in8 w DM9000_DATA d)) = busy d - 1) \<and>
     (\<forall>d. (idx d = DM9000_VIDL \<longrightarrow> fst (in8 w DM9000_DATA d) = 0x46) \<and> (idx d = DM9000_VIDH \<longrightarrow> fst (in8 w DM9000_DATA d) = 0x0A) \<and>
        (idx d = DM9000_PIDL \<longrightarrow> fst (in8 w DM9000_DATA d) = 0x00) \<and> (idx d = DM9000_PIDH \<longrightarrow> fst (in8 w DM9000_DATA d) = 0x90)) \<and>
     (\<forall>d. pc (snd (uwTick_rd w d)) = pc d \<and> busy (snd (uwTick_rd w d)) \<le> busy d)"

lemma delay_chip:
  assumes "init_chip_ok w idx pc busy" "delay w n s = Some t"
  shows "pc (dev t) = pc (dev s)" "busy (dev t) \<le> busy (dev s)" "printed t = printed s"
proof -
  obtain d where d: "HAL_Delay w n (dev s) = Some d" "t = s\<lparr>dev := d\<rparr>" using assms(2) by (auto simp: delay_def)
  let ?Q = "\<lambda>x. pc x = pc (dev s) \<and> busy x \<le> busy (dev s)"
  have q: "?Q (snd (uwTick_rd w x))" if "?Q x" for x
    using assms(1) that unfolding init_chip_ok_def by (metis le_trans)
  have "?Q d"
    by (rule poll_keeps[where Q = ?Q, OF d(1)[unfolded HAL_Delay_def HAL_GetTick_def Let_def case_prod_beta]])
      (use q in blast)+
  then show "pc (dev t) = pc (dev s)" "busy (dev t) \<le> busy (dev s)" "printed t = printed s" using d(2) by simp_all
qed

lemma printed_frame:
  "printed (DM9000_iow w r v s) = printed s" "printed (snd (DM9000_ior w r s)) = printed s" "printed (snd (tick w s)) = printed s"
  "printed (iows w rvs s) = printed s"
proof -
  show iow: "printed (DM9000_iow w r v s) = printed s" for r v and s :: "'a nic" by (simp add: DM9000_iow_def)
  show "printed (snd (DM9000_ior w r s)) = printed s" "printed (snd (tick w s)) = printed s"
    by (simp_all add: DM9000_ior_def tick_def split: prod.splits)
  show "printed (iows w rvs s) = printed s"
    unfolding iows_def by (induction rvs arbitrary: s) (auto simp: iow split: prod.splits)
qed

lemma ior_chip:
  assumes "init_chip_ok w idx pc busy"
  shows "fst (DM9000_ior w DM9000_VIDL s) = 0x46" "fst (DM9000_ior w DM9000_VIDH s) = 0x0A"
    "fst (DM9000_ior w DM9000_PIDL s) = 0x00" "fst (DM9000_ior w DM9000_PIDH s) = 0x90"
    "fst (DM9000_ior w DM9000_EPCR s) = (if busy (dev s) = 0 then pc (dev s) else pc (dev s) OR 1)"
    "pc (dev (snd (DM9000_ior w DM9000_EPCR s))) = pc (dev s)" "busy (dev (snd (DM9000_ior w DM9000_EPCR s))) = busy (dev s) - 1"
    "pc (dev (DM9000_iow w DM9000_EPCR v s)) = v"
  using assms unfolding init_chip_ok_def DM9000_ior_def DM9000_iow_def case_prod_beta by simp_all

lemma epcr_returns:
  assumes c: "clock_ok w T" and chip: "init_chip_ok w idx pc busy" and pc: "pc (dev s) = v"
  shows "\<exists>t. epcr_wait w v s = Some t"
  using pc
proof (induction "busy (dev s)" arbitrary: s rule: less_induct)
  case less
  obtain s1 where 1: "delay w 1 s = Some s1" using delay_returns[OF c] by blast
  note d = delay_chip[OF chip 1]
  obtain x s2 where 2: "DM9000_ior w DM9000_EPCR s1 = (x, s2)" by (cases "DM9000_ior w DM9000_EPCR s1")
  have i: "x = (if busy (dev s1) = 0 then v else v OR 1)" "pc (dev s2) = v" "busy (dev s2) = busy (dev s1) - 1"
    using ior_chip(5-7)[OF chip, of s1] 2 d(1) less.prems by simp_all
  have e: "epcr_wait w v s = (if v \<noteq> x then epcr_wait w v s2 else Some s2)" by (subst epcr_wait.simps) (simp add: 1 2)
  show ?case
  proof (cases "v = x")
    case False
    then have "busy (dev s2) < busy (dev s)" using i d(2) by (auto split: if_splits)
    from less.hyps[OF this i(2)] show ?thesis using e False by simp
  qed (use e in simp)
qed

lemma phy_write_returns:
  assumes "clock_ok w T" "init_chip_ok w idx pc busy"
  shows "\<exists>t. phy_write w reg v s = Some t"
  unfolding phy_write_def Let_def using epcr_returns[OF assms] ior_chip(8)[OF assms(2)] by (auto simp: bind_eq_Some_conv) metis

lemma vid_loop_finds:
  assumes "clock_ok w T" "init_chip_ok w idx pc busy"
  shows "\<exists>t. vid_loop w (Suc j) s = Some (int j, t)"
proof -
  obtain s1 where "delay w 3 s = Some s1" using delay_returns[OF assms(1)] by blast
  then show ?thesis using ior_chip(1)[OF assms(2), of s1] by (subst vid_loop.simps) (auto split: prod.splits)
qed

lemma probe_finds:
  assumes "init_chip_ok w idx pc busy"
  shows "\<exists>t. dm9000_probe w s = (0, t)"
  using ior_chip(1-4)[OF assms]
  by (simp add: dm9000_probe_def Let_def DM9000_ID_def case_prod_beta)

lemma bind_returns:
  assumes "\<exists>y. x = Some y" "\<And>y. \<exists>t. f y = Some (r, t) \<and> P t"
  shows "\<exists>t. Option.bind x f = Some (r, t) \<and> P t"
  using assms by auto

text \<open>C29. The test for an established link compares a masked bit 6 with 1, so it can never succeed. With the chip present and
  whatever its status register says, link up or not, \<^verbatim>\<open>eth_init\<close> returns 0 and has reported a link timeout. The wait
  for the link ends in the timeout whenever it is entered: after the whole 3000 ticks, unless the deadline
  wraps around, when it may end earlier.\<close>

theorem eth_init_link_timeout:
  assumes "clock_ok w T" "clock_ok (link_clock w) T" "init_chip_ok w idx pc busy"
  shows "(\<exists>t ps. eth_init w s = Some (0, t) \<and> printed t = ps @ [''check linkup timeout'', ''dm9k memp inited'']) \<and>
    (case tick w u of (t0, u0) \<Rightarrow> \<exists>d. link_loop w (t0 + 3000) u0 = Some (prt ''check linkup timeout'' (u0\<lparr>dev := d\<rparr>)) \<and>
       T d \<le> T (dev u0) + 3000 \<and> (unat t0 + 3000 < 2 ^ 32 \<longrightarrow> T d = T (dev u0) + 3000))"
proof -
  have link: "\<exists>d. link_loop w (fst (tick w u) + 3000) (snd (tick w u)) =
        Some (prt ''check linkup timeout'' ((snd (tick w u))\<lparr>dev := d\<rparr>)) \<and> T d \<le> T (dev (snd (tick w u))) + 3000 \<and>
      (unat (fst (tick w u)) + 3000 < 2 ^ 32 \<longrightarrow> T d = T (dev (snd (tick w u))) + 3000)" for u
  proof -
    let ?u = "snd (tick w u)"
    have f: "fst (tick w u) = of_nat (T (dev ?u))"
      using assms(1) by (simp add: clock_ok_def tick_def HAL_GetTick_def split: prod.splits) (metis fst_conv snd_conv)
    obtain d where "link_loop w (of_nat (T (dev ?u) + 3000)) ?u = Some (prt ''check linkup timeout'' (?u\<lparr>dev := d\<rparr>))"
      "T d \<le> T (dev ?u) + 3000" "T (dev ?u) mod 2 ^ 32 + 3000 < 2 ^ 32 \<longrightarrow> T d = T (dev ?u) + 3000"
      by (rule link_loop_waits[OF assms(1,2), of 3000 ?u]) simp
    then show ?thesis by (intro exI[of _ d]) (simp add: f unat_of_nat)
  qed
  have fin: "printed (dm9k_pbuff_init (iows w rvs (prt m v))) = printed v @ [m, ''dm9k memp inited'']" for rvs m and v :: "'a nic"
    by (simp add: dm9k_pbuff_init_def Let_def prt_def printed_frame)
  have "\<exists>t. eth_init w s = Some (0, t) \<and> (\<exists>ps. printed t = ps @ [''check linkup timeout'', ''dm9k memp inited''])"
    unfolding eth_init_def Let_def
  proof (rule bind_returns[OF reset_returns[OF assms(1)]], goal_cases)
    case (1 s2)
    obtain s3 where 3: "vid_loop w 100 s2 = Some (99, s3)" using vid_loop_finds[OF assms(1,3), of 99 s2] by auto
    obtain s4 where 4: "dm9000_probe w s3 = (0, s4)" using probe_finds[OF assms(3)] by blast
    have n: "((99 :: int) = 0) = False" "((0 :: int) < 0) = False" by simp_all
    have tail: "\<exists>t. Option.bind (link_loop w (fst (tick w v) + 3000) (snd (tick w v))) (\<lambda>s. Some (0 :: int, dm9k_pbuff_init (iows w rvs s))) =
        Some (0, t) \<and> (\<exists>ps. printed t = ps @ [''check linkup timeout'', ''dm9k memp inited''])" for v rvs
      using link[of v] fin by auto
    show ?case unfolding 3 case_prod_beta bind.bind_lunit fst_conv snd_conv 4 n if_False
      by (intro bind_returns phy_write_returns[OF assms(1,3)] reset_returns[OF assms(1)] tail)
  qed
  then show ?thesis using link[of u] by (auto simp: case_prod_beta)
qed

text \<open>A controller with the link up: clock, selected register and PHY command register.\<close>

definition up_chip :: "(nat \<times> u8_t \<times> u8_t) world" where
  "up_chip = \<lparr>bus_rd = (\<lambda>_ _ (c, i, p). (if i = DM9000_VIDL then 0x46 else if i = DM9000_VIDH then 0x0A else
       if i = DM9000_PIDL then 0x00 else if i = DM9000_PIDH then 0x90 else if i = DM9000_EPCR then ucast p else 0xff, (c, i, p))),
     bus_wr = (\<lambda>_ a v (c, i, p). if a = DM9000_IO then (c, ucast v, p) else if a = DM9000_DATA \<and> i = DM9000_EPCR then (c, i, ucast v)
       else (c, i, p)),
     uwTick_rd = (\<lambda>(c, i, p). (of_nat (c + 1), (c + 1, i, p)))\<rparr>"

lemma up_chip_good:
  "clock_ok up_chip fst" "clock_ok (link_clock up_chip) fst" "init_chip_ok up_chip (\<lambda>(_, i, _). i) (\<lambda>(_, _, p). p) (\<lambda>_. 0)"
proof -
  have a: "DM9000_DATA \<noteq> DM9000_IO" by (simp add: DM9000_DATA_def DM9000_IO_def)
  show "clock_ok up_chip fst" unfolding clock_ok_def by (auto simp: up_chip_def intro!: exI[of _ "Suc 0"])
  have n: "nsr_read up_chip d = (fst d, DM9000_NSR, snd (snd d))" for d
    by (cases d) (simp add: nsr_read_def in8_def out8_def up_chip_def)
  have u: "uwTick_rd up_chip (c, i, p) = (of_nat (c + 1), (c + 1, i, p))" for c i p by (simp add: up_chip_def)
  show "clock_ok (link_clock up_chip) fst"
    unfolding clock_ok_def by (auto simp: link_clock_def n u intro!: exI[of _ "Suc 0"])
  have r: "DM9000_VIDL \<noteq> DM9000_EPCR" "DM9000_VIDH \<noteq> DM9000_EPCR" "DM9000_VIDH \<noteq> DM9000_VIDL" "DM9000_PIDL \<noteq> DM9000_EPCR"
    "DM9000_PIDL \<noteq> DM9000_VIDL" "DM9000_PIDL \<noteq> DM9000_VIDH" "DM9000_PIDH \<noteq> DM9000_EPCR" "DM9000_PIDH \<noteq> DM9000_VIDL"
    "DM9000_PIDH \<noteq> DM9000_VIDH" "DM9000_PIDH \<noteq> DM9000_PIDL"
    by (simp_all add: DM9000_VIDL_def DM9000_VIDH_def DM9000_PIDL_def DM9000_PIDH_def DM9000_EPCR_def)
  show "init_chip_ok up_chip (\<lambda>(_, i, _). i) (\<lambda>(_, _, p). p) (\<lambda>_. 0)"
    unfolding init_chip_ok_def using a r r[symmetric] by (auto simp: up_chip_def in8_def out8_def)
qed

theorem eth_init_link_timeout_witness:
  "\<exists>t. eth_init up_chip (nic0 (0, 0, 0)) = Some (0, t) \<and> ''check linkup timeout'' \<in> set (printed t)"
  using eth_init_link_timeout[OF up_chip_good, of "nic0 (0, 0, 0)" "nic0 (0, 0, 0)"] by auto

subsection \<open>Transmit\<close>

text \<open>The transmit side of the controller: words written through \<^verbatim>\<open>MWCMD\<close> fill the transmit memory
  \<open>tx\<close>; a transmit request sends as many bytes of it as the length registers say and empties it;
  the request bit reads as set until \<open>busy\<close> more reads.\<close>

definition tx_chip_ok :: "'d world \<Rightarrow> ('d \<Rightarrow> u8_t) \<Rightarrow> ('d \<Rightarrow> u8_t list \<times> u8_t \<times> u8_t) \<Rightarrow>
    ('d \<Rightarrow> u8_t list list) \<Rightarrow> ('d \<Rightarrow> nat) \<Rightarrow> bool" where
  "tx_chip_ok w idx tx sent busy \<longleftrightarrow>
     (\<forall>d v. idx (out8 w DM9000_IO v d) = v \<and> tx (out8 w DM9000_IO v d) = tx d \<and>
        sent (out8 w DM9000_IO v d) = sent d \<and> busy (out8 w DM9000_IO v d) = busy d) \<and>
     (\<forall>d v bs lo hi. idx d = DM9000_MWCMD \<longrightarrow> tx d = (bs, lo, hi) \<longrightarrow>
        tx (out16 w DM9000_DATA v d) = (bs @ [ucast v, ucast (drop_bit 8 v)], lo, hi) \<and>
        idx (out16 w DM9000_DATA v d) = DM9000_MWCMD \<and> sent (out16 w DM9000_DATA v d) = sent d) \<and>
     (\<forall>d v bs lo hi. tx d = (bs, lo, hi) \<longrightarrow>
        tx (out8 w DM9000_DATA v d) =
          (if idx d = DM9000_TXPLL then (bs, v, hi) else if idx d = DM9000_TXPLH then (bs, lo, v)
           else if idx d = DM9000_TCR \<and> v AND TCR_TXREQ \<noteq> 0 then ([], lo, hi) else (bs, lo, hi)) \<and>
        sent (out8 w DM9000_DATA v d) =
          (if idx d = DM9000_TCR \<and> v AND TCR_TXREQ \<noteq> 0 then sent d @ [take (unat lo + 256 * unat hi) bs] else sent d)) \<and>
     (\<forall>d. sent (snd (in8 w DM9000_DATA d)) = sent d \<and>
        (idx d = DM9000_TCR \<longrightarrow> (fst (in8 w DM9000_DATA d) AND TCR_TXREQ \<noteq> 0) = (busy d > 0) \<and>
           busy (snd (in8 w DM9000_DATA d)) = busy d - 1)) \<and>
     (\<forall>d. sent (snd (uwTick_rd w d)) = sent d \<and> busy (snd (uwTick_rd w d)) = busy d)"

definition packet :: "bytes \<Rightarrow> nat \<Rightarrow> nat \<Rightarrow> u8_t list" where
  "packet m p n = map (\<lambda>k. m (p + k)) [0..<n]"

lemma load16_bytes: "ucast (load16 m a) = m a" "ucast (drop_bit 8 (load16 m a)) = m (a + 1)"
  by (rule bit_word_eqI; auto simp: load16_def bit_simps dest: bit_imp_le_length)+

lemma packet_Suc: "packet m p (Suc n) = m p # packet m (Suc p) n"
  by (simp add: packet_def upt_conv_Cons map_Suc_upt[symmetric] del: upt_Suc map_Suc_upt)

lemma packet_Suc2: "m p # m (p + 1) # packet m (p + 2) (2 * n) = packet m p (2 * Suc n)"
  by (simp add: packet_Suc)

lemma send_words_tx:
  assumes c: "tx_chip_ok w idx tx sent busy"
  shows "idx (dev s) = DM9000_MWCMD \<Longrightarrow> tx (dev s) = (bs, lo, hi) \<Longrightarrow>
    tx (dev (send_words w p n s)) = (bs @ packet (mem s) p (2 * n), lo, hi) \<and>
    sent (dev (send_words w p n s)) = sent (dev s) \<and> mem (send_words w p n s) = mem s"
proof (induction n arbitrary: s bs p)
  case 0
  then show ?case by (simp add: packet_def)
next
  case (Suc n)
  let ?v = "load16 (mem s) p" and ?s = "DM9000_outw w (load16 (mem s) p) s"
  have "tx (dev ?s) = (bs @ [mem s p, mem s (p + 1)], lo, hi)" "idx (dev ?s) = DM9000_MWCMD"
    "sent (dev ?s) = sent (dev s)"
    using c Suc.prems unfolding tx_chip_ok_def DM9000_outw_def by (auto simp: load16_bytes[simplified])
  then show ?case
    using Suc.IH[of ?s "bs @ [mem s p, mem s (p + 1)]" "p + 2"] packet_Suc2[of "mem s" p n] by simp
qed

lemma tx_wait_returns:
  assumes c: "tx_chip_ok w idx tx sent busy"
  shows "\<exists>t. tx_wait w tmo s = Some t \<and> sent (dev t) = sent (dev s) \<and> mem t = mem s"
proof (induction "busy (dev s)" arbitrary: s)
  case 0
  let ?d = "out8 w DM9000_IO DM9000_TCR (dev s)"
  have "busy ?d = 0" "idx ?d = DM9000_TCR" "sent ?d = sent (dev s)" using c 0 by (auto simp: tx_chip_ok_def)
  then have "\<not> fst (in8 w DM9000_DATA ?d) AND TCR_TXREQ \<noteq> 0" "sent (snd (in8 w DM9000_DATA ?d)) = sent (dev s)"
    using c unfolding tx_chip_ok_def by (metis less_numeral_extra(3))+
  then show ?case by (subst tx_wait.simps) (auto simp: DM9000_ior_def split: prod.splits)
next
  case (Suc n)
  let ?d = "out8 w DM9000_IO DM9000_TCR (dev s)"
  let ?d2 = "snd (in8 w DM9000_DATA ?d)"
  let ?s2 = "s\<lparr>dev := ?d2\<rparr>"
  let ?s3 = "s\<lparr>dev := snd (uwTick_rd w ?d2)\<rparr>"
  have b: "busy ?d = Suc n" "idx ?d = DM9000_TCR" "sent ?d = sent (dev s)" using c Suc(2) by (auto simp: tx_chip_ok_def)
  then have f: "fst (in8 w DM9000_DATA ?d) AND TCR_TXREQ \<noteq> 0" and d2: "busy ?d2 = n" "sent ?d2 = sent (dev s)"
    using c unfolding tx_chip_ok_def by (metis zero_less_Suc, metis diff_Suc_1, metis)
  have s3: "busy (dev ?s3) = n" "sent (dev ?s3) = sent (dev s)" using c d2 by (auto simp: tx_chip_ok_def)
  have e: "tx_wait w tmo s = (if fst (uwTick_rd w ?d2) \<ge> tmo then Some (prt ''transmission timeout'' ?s3) else tx_wait w tmo ?s3)"
    using f by (subst tx_wait.simps) (simp add: DM9000_ior_def tick_def HAL_GetTick_def case_prod_beta)
  show ?case
  proof (cases "fst (uwTick_rd w ?d2) \<ge> tmo")
    case True
    then show ?thesis using e s3 by simp
  next
    case False
    then show ?thesis using e Suc(1)[of ?s3] s3 by auto
  qed
qed

text \<open>C22. \<^verbatim>\<open>eth_send\<close> returns 0 and makes the controller send exactly the packet: the \<^verbatim>\<open>len\<close> bytes of
  memory at the packet pointer, for every length that fits the 16-bit length register, odd lengths
  included; memory is unchanged.\<close>

theorem eth_send_sends:
  assumes "tx_chip_ok w idx tx sent busy" "tx (dev s) = ([], lo, hi)" "len < 2 ^ 16"
  shows "\<exists>t. eth_send w p len s = Some (0, t) \<and> sent (dev t) = sent (dev s) @ [packet (mem s) p len] \<and> mem t = mem s"
proof -
  note c = assms(1)[unfolded tx_chip_ok_def]
  have iow: "tx (dev (DM9000_iow w r v u)) =
        (if r = DM9000_TXPLL then (bs, v, hi) else if r = DM9000_TXPLH then (bs, lo, v)
         else if r = DM9000_TCR \<and> v AND TCR_TXREQ \<noteq> 0 then ([], lo, hi) else (bs, lo, hi))"
      "sent (dev (DM9000_iow w r v u)) =
        (if r = DM9000_TCR \<and> v AND TCR_TXREQ \<noteq> 0 then sent (dev u) @ [take (unat lo + 256 * unat hi) bs] else sent (dev u))"
    if "tx (dev u) = (bs, lo, hi)" for r v u bs lo hi
    using c that by (auto simp: DM9000_iow_def)
  have regs: "DM9000_IMR \<noteq> DM9000_TXPLL" "DM9000_IMR \<noteq> DM9000_TXPLH" "DM9000_IMR \<noteq> DM9000_TCR"
    "DM9000_TXPLL \<noteq> DM9000_TXPLH" "DM9000_TXPLL \<noteq> DM9000_TCR" "DM9000_TXPLH \<noteq> DM9000_TCR" "TCR_TXREQ AND TCR_TXREQ \<noteq> 0"
    by (simp_all add: DM9000_IMR_def DM9000_TXPLL_def DM9000_TXPLH_def DM9000_TCR_def TCR_TXREQ_def)
  define s1 where "s1 = DM9000_index w DM9000_MWCMD (DM9000_iow w DM9000_IMR IMR_PAR s)"
  have s1: "tx (dev s1) = ([], lo, hi)" "sent (dev s1) = sent (dev s)" "idx (dev s1) = DM9000_MWCMD" "mem s1 = mem s"
    using iow[OF assms(2), of DM9000_IMR IMR_PAR] regs c by (auto simp: s1_def DM9000_index_def)
  define n where "n = (len + 1) div 2"
  define s2 where "s2 = send_words w p n s1"
  have s2: "tx (dev s2) = (packet (mem s) p (2 * n), lo, hi)" "sent (dev s2) = sent (dev s)" "mem s2 = mem s"
    using send_words_tx[OF assms(1) s1(3,1), of p n] s1 by (auto simp: s2_def)
  define s3 where "s3 = DM9000_iow w DM9000_TXPLL (of_nat (len mod 256)) s2"
  define s4 where "s4 = DM9000_iow w DM9000_TXPLH (of_nat (len div 256 mod 256)) s3"
  define s5 where "s5 = DM9000_iow w DM9000_TCR TCR_TXREQ s4"
  have s3: "tx (dev s3) = (packet (mem s) p (2 * n), of_nat (len mod 256), hi)" "sent (dev s3) = sent (dev s)"
    using iow[OF s2(1)] regs s2 by (auto simp: s3_def)
  have s4: "tx (dev s4) = (packet (mem s) p (2 * n), of_nat (len mod 256), of_nat (len div 256 mod 256))"
      "sent (dev s4) = sent (dev s)"
    using iow[OF s3(1)] regs s3 by (auto simp: s4_def)
  have "unat (of_nat (len mod 256) :: u8_t) + 256 * unat (of_nat (len div 256 mod 256) :: u8_t) = len"
    using assms(3) by (simp add: unat_of_nat)
  moreover have "take len (packet (mem s) p (2 * n)) = packet (mem s) p len"
    by (simp add: packet_def take_map n_def min_def)
  ultimately have s5: "sent (dev s5) = sent (dev s) @ [packet (mem s) p len]"
    using iow[OF s4(1)] regs s4 by (auto simp: s5_def)
  define s6 where "s6 = snd (tick w s5)"
  have s6: "sent (dev s6) = sent (dev s5)" "mem s6 = mem s"
    using c s2(3) by (auto simp: s6_def tick_def HAL_GetTick_def s5_def s4_def s3_def case_prod_beta)
  obtain s7 where s7: "tx_wait w (fst (tick w s5) + 500) s6 = Some s7" "sent (dev s7) = sent (dev s6)" "mem s7 = mem s6"
    using tx_wait_returns[OF assms(1)] by blast
  obtain bs lo' hi' where "tx (dev s7) = (bs, lo', hi')" by (cases "tx (dev s7)")
  then have "sent (dev (DM9000_iow w DM9000_IMR (IMR_PAR OR 0x01) s7)) = sent (dev s7)" using iow(2) regs by auto
  moreover have "eth_send w p len s = Some (0, DM9000_iow w DM9000_IMR (IMR_PAR OR 0x01) s7)"
    using s7(1) unfolding eth_send_def Let_def s1_def[symmetric] n_def[symmetric] s2_def[symmetric] s3_def[symmetric]
      s4_def[symmetric] s5_def[symmetric]
    by (simp add: case_prod_beta s6_def[symmetric])
  ultimately show ?thesis using s7 s6 s5 by auto
qed

text \<open>A controller that sends at once.\<close>

type_synonym send_chip = "u8_t \<times> (u8_t list \<times> u8_t \<times> u8_t) \<times> u8_t list list"

definition tx_chip :: "send_chip world" where
  "tx_chip = \<lparr>bus_rd = (\<lambda>_ _ d. (0, d)),
     bus_wr = (\<lambda>wd a v (i, (bs, lo, hi), out).
       if a = DM9000_IO then (ucast v, (bs, lo, hi), out)
       else if wd = W16 then (i, (bs @ [ucast v, ucast (drop_bit 8 v)], lo, hi), out)
       else if i = DM9000_TXPLL then (i, (bs, ucast v, hi), out)
       else if i = DM9000_TXPLH then (i, (bs, lo, ucast v), out)
       else if i = DM9000_TCR \<and> ucast v AND TCR_TXREQ \<noteq> 0
       then (i, ([], lo, hi), out @ [take (unat lo + 256 * unat hi) bs])
       else (i, (bs, lo, hi), out)),
     uwTick_rd = (\<lambda>d. (0, d))\<rparr>"

lemma tx_chip_good: "tx_chip_ok tx_chip fst (\<lambda>d. fst (snd d)) (\<lambda>d. snd (snd d)) (\<lambda>_. 0)"
proof -
  have "ucast (drop_bit 8 (ucast v :: u32_t)) = (ucast (drop_bit 8 v) :: u8_t)" for v :: u16_t
    by (rule bit_word_eqI) (auto simp: bit_simps dest: bit_imp_le_length)
  moreover have "ucast (ucast v :: u32_t) = (ucast v :: u8_t)" for v :: u16_t
    by (rule bit_word_eqI) (auto simp: bit_simps)
  ultimately show ?thesis
    unfolding tx_chip_ok_def
    by (auto simp: tx_chip_def in8_def out8_def out16_def DM9000_IO_def DM9000_DATA_def DM9000_TCR_def
        DM9000_TXPLL_def DM9000_TXPLH_def)
qed

theorem eth_send_sends_witness:
  "\<exists>t. eth_send tx_chip 0x1000 61 (nic0 (0, ([], 0, 0), [])) = Some (0, t) \<and> length (hd (snd (snd (dev t)))) = 61"
  using eth_send_sends[OF tx_chip_good, of "nic0 (0, ([], 0, 0), [])" 0 0 61 "0x1000"]
  by (auto simp: nic0_def packet_def)

end
