(* ===== verification/Inet.thy ===== *)
theory Inet
  imports Prelude
begin

section \<open>Byte order and the Internet checksum\<close>

text \<open>
  \<^verbatim>\<open>core/def.c\<close> (byte order conversions on the little-endian ARM9) and the memory part of
  \<^verbatim>\<open>core/ipv4/inet_chksum.c\<close>: \<^verbatim>\<open>lwip_standard_chksum\<close> in the version the build selects
  (\<^verbatim>\<open>LWIP_CHKSUM_ALGORITHM\<close> 2), which reads the data by aligned halfwords and swaps the sum
  when the data starts at an odd address. The reference it is compared with is the sum of the
  16-bit words of the data as a natural number, reduced to its ones' complement representative
  in 0..65535 (RFC 1071). The checksums of packet buffer chains are in theory \<^verbatim>\<open>Pbuf_Chksum\<close>.
\<close>

subsection \<open>def.c\<close>

definition lwip_htons :: "u16_t \<Rightarrow> u16_t" where
  "lwip_htons n = push_bit 8 (n AND 0xff) OR drop_bit 8 (n AND 0xff00)"

definition lwip_ntohs :: "u16_t \<Rightarrow> u16_t" where
  "lwip_ntohs n = lwip_htons n"

definition lwip_htonl :: "u32_t \<Rightarrow> u32_t" where
  "lwip_htonl n = push_bit 24 (n AND 0xff) OR push_bit 8 (n AND 0xff00) OR
     drop_bit 8 (n AND 0xff0000) OR drop_bit 24 (n AND 0xff000000)"

definition lwip_ntohl :: "u32_t \<Rightarrow> u32_t" where
  "lwip_ntohl n = lwip_htonl n"

subsection \<open>inet\_chksum.c: memory\<close>

definition FOLD_U32T :: "u32_t \<Rightarrow> u32_t" where
  "FOLD_U32T u = drop_bit 16 u + (u AND 0x0000ffff)"

definition SWAP_BYTES_IN_WORD :: "u32_t \<Rightarrow> u32_t" where
  "SWAP_BYTES_IN_WORD w = push_bit 8 (w AND 0xff) OR drop_bit 8 (w AND 0xff00)"

definition read16 :: "bytes \<Rightarrow> nat \<Rightarrow> u16_t" where
  "read16 m a = ucast (m a) OR push_bit 8 (ucast (m (a + 1)))"

text \<open>\<^verbatim>\<open>((u8_t *)&t)[i] = b\<close> on a little-endian halfword.\<close>

definition set_byte0 :: "u16_t \<Rightarrow> u8_t \<Rightarrow> u16_t" where
  "set_byte0 t b = (t AND 0xff00) OR ucast b"

definition set_byte1 :: "u16_t \<Rightarrow> u8_t \<Rightarrow> u16_t" where
  "set_byte1 t b = (t AND 0x00ff) OR push_bit 8 (ucast b)"

function chksum_bulk :: "bytes \<Rightarrow> nat \<Rightarrow> int \<Rightarrow> u32_t \<Rightarrow> nat \<times> int \<times> u32_t" where
  "chksum_bulk m ps len sm =
     (if len > 1 then chksum_bulk m (ps + 2) (len - 2) (sm + ucast (read16 m ps)) else (ps, len, sm))"
  by pat_completeness auto
termination by (relation "measure (\<lambda>(m, ps, len, sm). nat len)") auto

declare chksum_bulk.simps [simp del]

definition lwip_standard_chksum :: "bytes \<Rightarrow> nat \<Rightarrow> int \<Rightarrow> u16_t" where
  "lwip_standard_chksum m dataptr len =
     (let odd = dataptr mod 2 = 1;
          (pb, t, len) = (if odd \<and> len > 0 then (dataptr + 1, set_byte1 0 (m dataptr), len - 1)
                          else (dataptr, 0, len));
          (ps, len, sum) = chksum_bulk m pb len 0;
          t = (if len > 0 then set_byte0 t (m ps) else t);
          sum = sum + ucast t;
          sum = FOLD_U32T sum;
          sum = FOLD_U32T sum;
          sum = (if odd then SWAP_BYTES_IN_WORD sum else sum)
      in ucast sum)"

definition inet_chksum :: "bytes \<Rightarrow> nat \<Rightarrow> u16_t \<Rightarrow> u16_t" where
  "inet_chksum m dataptr len = NOT (lwip_standard_chksum m dataptr (int (unat len)))"

subsection \<open>The reference: ones' complement sums\<close>

text \<open>The sum of the 16-bit words of the data, first byte low, a last single byte padded with
  zero; and the representative of a sum in 0..65535, which is 0 only for the sum 0.\<close>

fun word_sum :: "u8_t list \<Rightarrow> nat" where
  "word_sum [] = 0"
| "word_sum [x] = unat x"
| "word_sum (x # y # r) = unat x + 256 * unat y + word_sum r"

definition ones_rep :: "nat \<Rightarrow> nat" where
  "ones_rep s = (if s = 0 then 0 else (s - 1) mod 65535 + 1)"

definition data_at :: "bytes \<Rightarrow> nat \<Rightarrow> nat \<Rightarrow> u8_t list" where
  "data_at m p n = map (\<lambda>i. m (p + i)) [0..<n]"

text \<open>\<open>same_sum a b\<close>: the two numbers have the same representative.\<close>

definition same_sum :: "nat \<Rightarrow> nat \<Rightarrow> bool" where
  "same_sum a b \<longleftrightarrow> a mod 65535 = b mod 65535 \<and> (a = 0 \<longleftrightarrow> b = 0)"

lemma same_sum_refl [simp]: "same_sum a a"
  by (simp add: same_sum_def)

lemma same_sum_sym: "same_sum a b \<Longrightarrow> same_sum b a"
  by (auto simp: same_sum_def)

lemma same_sum_trans [trans]: "same_sum a b \<Longrightarrow> same_sum b c \<Longrightarrow> same_sum a c"
  by (auto simp: same_sum_def)

lemma same_sum_add: "same_sum a b \<Longrightarrow> same_sum c d \<Longrightarrow> same_sum (a + c) (b + d)"
  by (auto simp: same_sum_def intro: mod_add_cong)

lemma same_sum_mult: "same_sum a b \<Longrightarrow> same_sum (k * a) (k * b)"
  by (auto simp: same_sum_def intro: mod_mult_cong)

lemma same_sum_65536: "same_sum (65536 * a) a"
proof -
  have "65536 * a = a + a * 65535" by simp
  then show ?thesis unfolding same_sum_def by (metis mod_mult_self1 mult_eq_0_iff add_eq_0_iff_both_eq_0)
qed

lemma ones_rep_le: "ones_rep s \<le> 65535"
proof -
  have "(s - 1) mod 65535 < 65535" by simp
  then show ?thesis unfolding ones_rep_def by (simp del: mod_less_divisor)
qed

lemma ones_rep_mod: "ones_rep s mod 65535 = s mod 65535"
proof (cases s)
  case 0
  then show ?thesis by (simp add: ones_rep_def)
next
  case (Suc n)
  have "(n mod 65535 + 1) mod 65535 = (n + 1) mod 65535" by (rule mod_add_left_eq)
  with Suc show ?thesis by (simp add: ones_rep_def)
qed

lemma ones_rep_same: "same_sum (ones_rep s) s"
  by (simp add: same_sum_def ones_rep_mod) (simp add: ones_rep_def)

lemma ones_rep_unique:
  assumes "r \<le> 65535" "same_sum r s"
  shows "r = ones_rep s"
proof -
  have *: "r mod 65535 = ones_rep s mod 65535" "r = 0 \<longleftrightarrow> ones_rep s = 0"
    using assms(2) ones_rep_same[of s] by (simp_all add: same_sum_def)
  consider "r = 0" | "0 < r" "r < 65535" | "r = 65535" using assms(1) by linarith
  then show ?thesis
  proof cases
    case 1
    then show ?thesis using * by simp
  next
    case 2
    then show ?thesis using * ones_rep_le[of s] by (cases "ones_rep s = 65535") auto
  next
    case 3
    then show ?thesis using * ones_rep_le[of s] by (cases "ones_rep s = 65535") auto
  qed
qed

lemma same_sum_ones_rep: "same_sum a b \<Longrightarrow> ones_rep a = ones_rep b"
  by (rule ones_rep_unique[OF ones_rep_le same_sum_trans[OF ones_rep_same]])

lemma word_sum_Cons: "same_sum (word_sum (x # xs)) (unat x + 256 * word_sum xs)"
proof (induction xs arbitrary: x rule: word_sum.induct)
  case (3 y z r)
  have "same_sum (word_sum (z # r)) (unat z + 256 * word_sum r)" by (rule 3)
  also have "same_sum \<dots> (65536 * unat z + 256 * word_sum r)"
    by (rule same_sum_add[OF same_sum_sym[OF same_sum_65536] same_sum_refl])
  finally have "same_sum (unat x + 256 * unat y + word_sum (z # r))
      (unat x + 256 * unat y + (65536 * unat z + 256 * word_sum r))"
    by (rule same_sum_add[OF same_sum_refl])
  then show ?case by (simp add: algebra_simps)
qed simp_all

lemma word_sum_append:
  "same_sum (word_sum (xs @ ys)) (word_sum xs + (if even (length xs) then word_sum ys else 256 * word_sum ys))"
proof (induction xs rule: word_sum.induct)
  case (2 x)
  then show ?case using word_sum_Cons[of x ys] by simp
next
  case (3 x y r)
  from same_sum_add[OF same_sum_refl 3, of "unat x + 256 * unat y"] show ?case
    by (simp add: algebra_simps)
qed simp

lemma data_at_0 [simp]: "data_at m p 0 = []"
  by (simp add: data_at_def)

lemma length_data_at [simp]: "length (data_at m p n) = n"
  by (simp add: data_at_def)

lemma data_at_Suc: "data_at m p (Suc n) = m p # data_at m (p + 1) n"
  by (simp add: data_at_def upt_conv_Cons map_Suc_upt[symmetric] del: upt_Suc)

lemma data_at_add: "data_at m p (a + b) = data_at m p a @ data_at m (p + a) b"
  by (induction a arbitrary: p) (simp_all add: data_at_Suc)

lemma word_sum_bound: "even (length xs) \<Longrightarrow> word_sum xs \<le> 65535 * (length xs div 2)"
proof (induction xs rule: word_sum.induct)
  case (3 x y r)
  have "unat x < 256" "unat y < 256" using unat_bounds(1)[of x] unat_bounds(1)[of y] by simp_all
  then show ?case using 3 by simp
qed simp_all

subsection \<open>The machine operations on representatives\<close>

lemma unat_or_push8:
  "unat (ucast (a :: u8_t) OR push_bit 8 (ucast (b :: u8_t)) :: u16_t) = unat a + 256 * unat b"
proof -
  have "(ucast a OR push_bit 8 (ucast b) :: u16_t) = ucast a + push_bit 8 (ucast b)"
    by (rule disjunctive_add_eq_or[symmetric], rule bit_word_eqI)
      (auto simp: bit_simps dest: bit_imp_le_length)
  moreover have "unat a < 256" "unat b < 256" using unat_bounds(1)[of a] unat_bounds(1)[of b] by simp_all
  ultimately show ?thesis by (simp add: unat_word_ariths push_bit_eq_mult)
qed

lemma unat_read16: "unat (read16 m a) = unat (m a) + 256 * unat (m (a + 1))"
  by (simp add: read16_def unat_or_push8)

lemma unat_FOLD: "unat (FOLD_U32T u) = unat u div 65536 + unat u mod 65536"
proof -
  have u: "unat u < 65536 * 65536" using unat_bounds(3)[of u] by simp
  have "unat u div 65536 < 65536" using u by (rule less_mult_imp_div_less)
  moreover have "unat (drop_bit 16 u) = unat u div 65536" by (simp add: unat_drop_bit)
  moreover have "unat (u AND 0xffff) = unat u mod 65536"
    using unat_and_mask[of u 16] by (simp add: mask_eq_exp_minus_1)
  moreover have "unat u mod 65536 < 65536" by simp
  ultimately show ?thesis unfolding FOLD_U32T_def by (simp add: unat_word_ariths)
qed

lemma FOLD_same: "same_sum (unat (FOLD_U32T u)) (unat u)"
proof -
  have "same_sum (unat u div 65536 + unat u mod 65536) (65536 * (unat u div 65536) + unat u mod 65536)"
    by (rule same_sum_add[OF same_sum_sym[OF same_sum_65536] same_sum_refl])
  then show ?thesis by (simp add: unat_FOLD)
qed

lemma FOLD_le:
  "unat (FOLD_U32T u) \<le> 131070" "unat u \<le> 131070 \<Longrightarrow> unat (FOLD_U32T u) \<le> 65535"
proof -
  have "unat u < 65536 * 65536" using unat_bounds(3)[of u] by simp
  then have "unat u div 65536 < 65536" by (rule less_mult_imp_div_less)
  moreover have "unat u mod 65536 < 65536" by simp
  ultimately show "unat (FOLD_U32T u) \<le> 131070" unfolding unat_FOLD by linarith
  assume "unat u \<le> 131070"
  then have "unat u div 65536 < 2" by (intro less_mult_imp_div_less) simp
  moreover have "unat u = 65536 * (unat u div 65536) + unat u mod 65536" "unat u mod 65536 < 65536"
    by simp_all
  ultimately show "unat (FOLD_U32T u) \<le> 65535"
    unfolding unat_FOLD using \<open>unat u \<le> 131070\<close> by linarith
qed

lemma FOLD_twice: "unat (FOLD_U32T (FOLD_U32T u)) = ones_rep (unat u)"
  by (rule ones_rep_unique[OF FOLD_le(2)[OF FOLD_le(1)] same_sum_trans[OF FOLD_same FOLD_same]])

lemma unat_SWAP: "unat (SWAP_BYTES_IN_WORD u) = 256 * (unat u mod 256) + unat u div 256 mod 256"
proof -
  have e: "SWAP_BYTES_IN_WORD u = push_bit 8 (u AND 0xff) + (drop_bit 8 u AND 0xff)"
    unfolding SWAP_BYTES_IN_WORD_def byte_masks
    by (subst disjunctive_add_eq_or; rule bit_word_eqI; auto simp: bit_simps)
  have "unat (push_bit 8 (u AND 0xff)) = 256 * (unat u mod 256)"
    by (simp add: push_bit_eq_mult unat_word_ariths unat_and_masks)
  moreover have "unat (drop_bit 8 u AND 0xff) = unat u div 256 mod 256"
    by (simp add: unat_and_masks unat_drop_bit)
  ultimately show ?thesis unfolding e by (simp add: unat_word_ariths)
qed

lemma SWAP_same:
  assumes "unat u \<le> 65535"
  shows "same_sum (unat (SWAP_BYTES_IN_WORD u)) (256 * unat u)" "unat (SWAP_BYTES_IN_WORD u) \<le> 65535"
proof -
  have d: "unat u div 256 mod 256 = unat u div 256" using assms by simp
  have "same_sum (256 * (unat u mod 256) + unat u div 256) (256 * (unat u mod 256) + 65536 * (unat u div 256))"
    by (rule same_sum_add[OF same_sum_refl same_sum_sym[OF same_sum_65536]])
  also have "256 * (unat u mod 256) + 65536 * (unat u div 256) = 256 * (unat u mod 256 + 256 * (unat u div 256))"
    by (simp only: distrib_left mult.assoc[symmetric])
  also have "\<dots> = 256 * unat u" by (simp only: mod_mult_div_eq)
  finally show "same_sum (unat (SWAP_BYTES_IN_WORD u)) (256 * unat u)" by (simp add: unat_SWAP d)
  have "unat u mod 256 < 256" "unat u div 256 mod 256 < 256" by simp_all
  then show "unat (SWAP_BYTES_IN_WORD u) \<le> 65535" unfolding unat_SWAP by linarith
qed

subsection \<open>What the checksum routine computes\<close>

lemma chksum_bulk_spec:
  "unat sm + 65535 * (n div 2) < 2 ^ 32 \<Longrightarrow>
   \<exists>r. chksum_bulk m ps (int n) sm = (ps + 2 * (n div 2), int (n mod 2), r) \<and>
     unat r = unat sm + word_sum (data_at m ps (2 * (n div 2)))"
proof (induction n arbitrary: ps sm rule: less_induct)
  case (less n)
  show ?case
  proof (cases "n < 2")
    case True
    then have "n div 2 = 0" "n mod 2 = n" by simp_all
    then show ?thesis using True by (subst chksum_bulk.simps) simp
  next
    case False
    define k where "k = n - 2"
    have n: "n = k + 2" using False by (simp add: k_def)
    have r: "unat (read16 m ps) \<le> 65535" using unat_bounds(2)[of "read16 m ps"] by simp
    then have "unat (sm + ucast (read16 m ps)) = unat sm + unat (read16 m ps)"
      using less.prems n by (simp add: unat_word_ariths)
    moreover obtain q where "chksum_bulk m (ps + 2) (int k) (sm + ucast (read16 m ps)) =
        (ps + 2 + 2 * (k div 2), int (k mod 2), q)"
        "unat q = unat (sm + ucast (read16 m ps)) + word_sum (data_at m (ps + 2) (2 * (k div 2)))"
      using less.IH[of k "sm + ucast (read16 m ps)" "ps + 2"] less.prems n calculation r by auto
    ultimately show ?thesis
      using n by (subst chksum_bulk.simps) (simp add: data_at_Suc unat_read16)
  qed
qed

lemma unat_set_byte:
  "unat (set_byte0 0 b) = unat b" "unat (set_byte1 0 b) = 256 * unat b"
  "unat (set_byte0 (set_byte1 0 c) b) = unat b + 256 * unat c"
proof -
  show "unat (set_byte0 0 b) = unat b" by (simp add: set_byte0_def)
  show "unat (set_byte1 0 b) = 256 * unat b" using unat_or_push8[of 0 b] by (simp add: set_byte1_def)
  have "set_byte0 (set_byte1 0 c) b = ucast b OR push_bit 8 (ucast c)"
    unfolding set_byte0_def set_byte1_def byte_masks by (rule bit_word_eqI) (auto simp: bit_simps)
  then show "unat (set_byte0 (set_byte1 0 c) b) = unat b + 256 * unat c" by (simp add: unat_or_push8)
qed

text \<open>The sum before folding: that of the data from an even address on, and 256 times that of the
  data (modulo 65535) from an odd one.\<close>

lemma chksum_words:
  assumes "n \<le> 0x20000"
  obtains r where "chksum_bulk m p (int n) 0 = (p + 2 * (n div 2), int (n mod 2), r)"
    "unat r = word_sum (data_at m p (2 * (n div 2)))" "unat r \<le> 65535 * (n div 2)"
proof -
  have n2: "n div 2 \<le> 0x10000" using div_le_mono[OF assms, of 2] by simp
  then obtain r where r: "chksum_bulk m p (int n) 0 = (p + 2 * (n div 2), int (n mod 2), r)"
      "unat r = word_sum (data_at m p (2 * (n div 2)))"
    using chksum_bulk_spec[of 0 n m p] by auto
  moreover have "unat r \<le> 65535 * (n div 2)"
    using r word_sum_bound[of "data_at m p (2 * (n div 2))"] by simp
  ultimately show ?thesis using that by blast
qed

lemma data_at_parity:
  "data_at m p n = data_at m p (2 * (n div 2)) @ (if n mod 2 = 1 then [m (p + 2 * (n div 2))] else [])"
proof -
  have n: "n = 2 * (n div 2) + n mod 2" by simp
  have "data_at m p n = data_at m p (2 * (n div 2)) @ data_at m (p + 2 * (n div 2)) (n mod 2)"
    by (subst (1) n) (rule data_at_add)
  then show ?thesis by (cases "n mod 2 = 1") (simp_all add: data_at_Suc)
qed

lemma word_sum_even_append: "even (length xs) \<Longrightarrow> word_sum (xs @ ys) = word_sum xs + word_sum ys"
  by (induction xs rule: word_sum.induct) simp_all

lemma unat_add_u16: "unat (r :: u32_t) + unat (t :: u16_t) < 2 ^ 32 \<Longrightarrow> unat (r + ucast t) = unat r + unat t"
  by (simp add: unat_word_ariths)

lemma unat_low_half: "unat (x :: u32_t) \<le> 65535 \<Longrightarrow> unat (ucast x :: u16_t) = unat x"
  by (simp add: unsigned_ucast_eq take_bit_nat_eq_self_iff)

lemma chksum_even:
  assumes "n \<le> 0x20000" "p mod 2 = 0"
  shows "unat (lwip_standard_chksum m p (int n)) = ones_rep (word_sum (data_at m p n))"
proof -
  obtain r where r: "chksum_bulk m p (int n) 0 = (p + 2 * (n div 2), int (n mod 2), r)"
      "unat r = word_sum (data_at m p (2 * (n div 2)))" "unat r \<le> 65535 * (n div 2)"
    using chksum_words[OF assms(1)] .
  define t where "t = (if n mod 2 = 1 then set_byte0 0 (m (p + 2 * (n div 2))) else 0)"
  have "unat t \<le> 65535" using unat_bounds(2)[of t] by simp
  moreover have "n div 2 \<le> 0x10000" using div_le_mono[OF assms(1), of 2] by simp
  ultimately have "unat (r + ucast t) = unat r + unat t"
    using r(3) by (intro unat_add_u16) simp
  moreover have "word_sum (data_at m p n) = unat r + unat t"
    by (subst data_at_parity) (simp add: word_sum_even_append r(2) t_def unat_set_byte)
  moreover have "lwip_standard_chksum m p (int n) = ucast (FOLD_U32T (FOLD_U32T (r + ucast t)))"
    using assms(2) r(1) by (auto simp: lwip_standard_chksum_def Let_def t_def)
  ultimately show ?thesis by (simp add: unat_low_half FOLD_twice ones_rep_le)
qed

lemma chksum_odd:
  assumes "n \<le> 0x20000" "p mod 2 = 1"
  shows "unat (lwip_standard_chksum m p (int n)) = ones_rep (word_sum (data_at m p n))"
proof (cases n)
  case 0
  then show ?thesis using assms(2)
    by (simp add: lwip_standard_chksum_def chksum_bulk.simps FOLD_U32T_def SWAP_BYTES_IN_WORD_def ones_rep_def)
next
  case (Suc k)
  then have k: "k \<le> 0x20000" using assms(1) by simp
  obtain r where r: "chksum_bulk m (p + 1) (int k) 0 = (p + 1 + 2 * (k div 2), int (k mod 2), r)"
      "unat r = word_sum (data_at m (p + 1) (2 * (k div 2)))" "unat r \<le> 65535 * (k div 2)"
    using chksum_words[OF k] .
  define t where "t = (let t = set_byte1 0 (m p)
    in if k mod 2 = 1 then set_byte0 t (m (p + 1 + 2 * (k div 2))) else t)"
  have "unat t \<le> 65535" using unat_bounds(2)[of t] by simp
  moreover have "k div 2 \<le> 0x10000" using div_le_mono[OF k, of 2] by simp
  ultimately have u: "unat (r + ucast t) = unat r + unat t"
    using r(3) by (intro unat_add_u16) simp
  have d: "unat r + unat t = 256 * unat (m p) + word_sum (data_at m (p + 1) k)"
    by (subst data_at_parity) (simp add: word_sum_even_append r(2) t_def unat_set_byte Let_def)
  let ?f = "FOLD_U32T (FOLD_U32T (r + ucast t))"
  have f: "unat ?f = ones_rep (unat r + unat t)" by (simp add: FOLD_twice u)
  then have f_le: "unat ?f \<le> 65535" by (simp add: ones_rep_le)
  have "same_sum (unat (SWAP_BYTES_IN_WORD ?f)) (256 * ones_rep (unat r + unat t))"
    using SWAP_same(1)[OF f_le] f by simp
  also have "same_sum \<dots> (256 * (256 * unat (m p) + word_sum (data_at m (p + 1) k)))"
    unfolding d by (rule same_sum_mult[OF ones_rep_same])
  also have "\<dots> = 65536 * unat (m p) + 256 * word_sum (data_at m (p + 1) k)" by simp
  also have "same_sum \<dots> (unat (m p) + 256 * word_sum (data_at m (p + 1) k))"
    by (rule same_sum_add[OF same_sum_65536 same_sum_refl])
  also have "same_sum \<dots> (word_sum (data_at m p n))"
    unfolding Suc data_at_Suc by (rule same_sum_sym[OF word_sum_Cons])
  finally have "unat (SWAP_BYTES_IN_WORD ?f) = ones_rep (word_sum (data_at m p n))"
    by (rule ones_rep_unique[OF SWAP_same(2)[OF f_le]])
  moreover have "lwip_standard_chksum m p (int n) = ucast (SWAP_BYTES_IN_WORD ?f)"
    using assms(2) r(1) Suc by (auto simp: lwip_standard_chksum_def Let_def t_def)
  ultimately show ?thesis by (simp add: unat_low_half ones_rep_le)
qed

lemma chksum_value:
  "n \<le> 0x20000 \<Longrightarrow> unat (lwip_standard_chksum m p (int n)) = ones_rep (word_sum (data_at m p n))"
  using chksum_even[of n p m] chksum_odd[of n p m] by (cases "p mod 2 = 0") auto

lemma unat_not_u16: "unat (NOT x :: u16_t) = 65535 - unat x"
proof -
  have "NOT x = - 1 - x" by (simp add: not_eq_complement)
  moreover have "unat (- 1 :: u16_t) = 65535" by (simp add: unsigned_minus_1_eq_mask mask_eq_exp_minus_1)
  ultimately show ?thesis using unat_sub[of x "- 1"] by simp
qed

lemma inet_chksum_value:
  "unat (inet_chksum m p len) = 65535 - ones_rep (word_sum (data_at m p (unat len)))"
  using unat_bounds(2)[of len] chksum_value[of "unat len" m p] by (simp add: inet_chksum_def unat_not_u16)

subsection \<open>Filling in and verifying a checksum\<close>

definition store16 :: "nat \<Rightarrow> u16_t \<Rightarrow> bytes \<Rightarrow> bytes" where
  "store16 a v m = m(a := ucast v, a + 1 := ucast (drop_bit 8 v))"

lemma ones_rep_fill: "ones_rep (s + (65535 - ones_rep s)) = 65535"
proof -
  have "same_sum (ones_rep s + (65535 - ones_rep s)) (s + (65535 - ones_rep s))"
    by (rule same_sum_add[OF ones_rep_same same_sum_refl])
  then have "same_sum 65535 (s + (65535 - ones_rep s))" using ones_rep_le[of s] by simp
  then show ?thesis using ones_rep_unique[of 65535] by simp
qed

lemma data_at_split_field:
  assumes "k + 2 \<le> n"
  shows "data_at m p n = data_at m p k @ [m (p + k), m (p + k + 1)] @ data_at m (p + k + 2) (n - k - 2)"
proof -
  have n: "n = k + Suc (Suc (n - k - 2))" using assms by simp
  show ?thesis by (subst n) (simp only: data_at_add data_at_Suc, simp)
qed

lemma data_at_cong: "(\<And>x. p \<le> x \<Longrightarrow> x < p + n \<Longrightarrow> m x = m' x) \<Longrightarrow> data_at m p n = data_at m' p n"
  by (simp add: data_at_def)

lemma word_sum_store16:
  assumes "k + 2 \<le> n" "even k"
  shows "word_sum (data_at (store16 (p + k) v m) p n) =
    word_sum (data_at (store16 (p + k) 0 m) p n) + unat v"
proof -
  let ?s = "\<lambda>v. store16 (p + k) v m"
  have "unat (ucast v :: u8_t) = unat v mod 256" for v :: u16_t
    by (simp add: unsigned_ucast_eq take_bit_eq_mod)
  moreover have "unat (ucast (drop_bit 8 v) :: u8_t) = unat v div 256" for v :: u16_t
    using unat_bounds(2)[of v] by (simp add: unsigned_ucast_eq unat_drop_bit take_bit_nat_eq_self_iff)
  ultimately have "unat (?s v (p + k)) + 256 * unat (?s v (p + k + 1)) = unat v" for v :: u16_t
    by (simp add: store16_def)
  moreover have "data_at (?s v) p k = data_at m p k"
      "data_at (?s v) (p + k + 2) (n - k - 2) = data_at m (p + k + 2) (n - k - 2)" for v
    by (auto intro!: data_at_cong simp: store16_def)
  ultimately show ?thesis
    using assms by (simp add: data_at_split_field[OF assms(1)] word_sum_even_append)
qed

lemma ones_rep_top_iff:
  assumes "w \<le> 65535"
  shows "ones_rep (s + w) = 65535 \<longleftrightarrow>
    w = 65535 - ones_rep s \<or> (65535 - ones_rep s = 0 \<and> w = 65535)"
proof -
  have le: "ones_rep s \<le> 65535" by (rule ones_rep_le)
  have "ones_rep (s + w) = ones_rep (ones_rep s + w)"
    by (rule same_sum_ones_rep[OF same_sum_add[OF same_sum_sym[OF ones_rep_same] same_sum_refl]])
  moreover have "ones_rep x = 65535 \<longleftrightarrow> x = 65535 \<or> x = 131070" if "x \<le> 131070" for x
  proof -
    consider "x = 0" | "0 < x" "x \<le> 65535" | "65535 < x" by linarith
    then show ?thesis
    proof cases
      case 3
      then have "x - 1 = (x - 65536) + 65535" "x - 65536 < 65535" using that by simp_all
      then have "(x - 1) mod 65535 = x - 65536" by (metis mod_add_self2 mod_less)
      then show ?thesis using 3 that by (auto simp: ones_rep_def)
    qed (auto simp: ones_rep_def)
  qed
  ultimately show ?thesis using le assms by auto
qed

lemma lwip_htons_involution [simp]: "lwip_htons (lwip_htons n) = n"
  unfolding lwip_htons_def byte_masks by (rule bit_word_eqI) (auto simp: bit_simps)

lemma bit_lwip_htonl:
  "j < 8 \<Longrightarrow> bit (lwip_htonl n) j \<longleftrightarrow> bit n (24 + j)"
  "j < 8 \<Longrightarrow> bit (lwip_htonl n) (8 + j) \<longleftrightarrow> bit n (16 + j)"
  "j < 8 \<Longrightarrow> bit (lwip_htonl n) (16 + j) \<longleftrightarrow> bit n (8 + j)"
  "j < 8 \<Longrightarrow> bit (lwip_htonl n) (24 + j) \<longleftrightarrow> bit n j"
  unfolding lwip_htonl_def byte_masks by (simp_all add: bit_simps)

lemma byte_of_bit:
  assumes "(i :: nat) < 32"
  obtains j where "j < 8" "i = j \<or> i = 8 + j \<or> i = 16 + j \<or> i = 24 + j"
proof -
  consider "i < 8" | "8 \<le> i" "i < 16" | "16 \<le> i" "i < 24" | "24 \<le> i" by linarith
  then show ?thesis
  proof cases
    case 1
    then show ?thesis using that[of i] by simp
  next
    case 2
    then show ?thesis using that[of "i - 8"] by simp
  next
    case 3
    then show ?thesis using that[of "i - 16"] by simp
  next
    case 4
    then show ?thesis using that[of "i - 24"] assms by simp
  qed
qed

lemma lwip_htonl_involution [simp]: "lwip_htonl (lwip_htonl n) = n"
proof (rule bit_word_eqI)
  fix i assume "i < LENGTH(32)"
  then obtain j where "j < 8" "i = j \<or> i = 8 + j \<or> i = 16 + j \<or> i = 24 + j"
    using byte_of_bit[of i] by auto
  then show "bit (lwip_htonl (lwip_htonl n)) i = bit n i" by (auto simp: bit_lwip_htonl)
qed

subsection \<open>Properties\<close>

text \<open>C30. The optimised checksum routine, which reads aligned halfwords and treats the first
  and the last byte apart, returns the ones' complement sum of the data for every start address,
  even or odd, and every length up to the 0x20000 its comment promises: the value does not depend
  on the alignment, and the 32-bit accumulator does not lose a carry.\<close>

theorem lwip_standard_chksum_correct:
  assumes "0 \<le> len" "len \<le> 0x20000"
  shows "unat (lwip_standard_chksum m p len) = ones_rep (word_sum (data_at m p (nat len)))"
  using chksum_value[of "nat len" m p] assms by simp

theorem lwip_standard_chksum_correct_witness:
  "unat (lwip_standard_chksum (\<lambda>a. of_nat (a * 77)) 3 5) =
   ones_rep (word_sum (data_at (\<lambda>a. of_nat (a * 77)) 3 5))"
  using lwip_standard_chksum_correct[of 5 "\<lambda>a. of_nat (a * 77)" 3] by simp

text \<open>C31. A header whose checksum field (at an even offset) was cleared, summed with
  \<^verbatim>\<open>inet_chksum\<close> and filled with the result verifies: \<^verbatim>\<open>inet_chksum\<close> over it is 0, which is what
  \<^verbatim>\<open>ip_input\<close> and \<^verbatim>\<open>icmp_input\<close> test. Any other value in the field is rejected, but for the two
  representations of zero.\<close>

theorem inet_chksum_fill_verify:
  assumes "even k" "k + 2 \<le> unat len"
    and "c = inet_chksum (store16 (p + k) 0 m) p len"
  shows "inet_chksum (store16 (p + k) w m) p len = 0 \<longleftrightarrow> w = c \<or> (c = 0 \<and> w = 0xffff)"
proof -
  let ?s = "word_sum (data_at (store16 (p + k) 0 m) p (unat len))"
  have c: "unat c = 65535 - ones_rep ?s" unfolding assms(3) by (rule inet_chksum_value)
  have "unat (inet_chksum (store16 (p + k) w m) p len) = 65535 - ones_rep (?s + unat w)"
    by (simp only: inet_chksum_value word_sum_store16[OF assms(2,1), of p w m])
  then have "inet_chksum (store16 (p + k) w m) p len = 0 \<longleftrightarrow> ones_rep (?s + unat w) = 65535"
    unfolding word_unat_eq_iff using ones_rep_le[of "?s + unat w"] by auto
  also have "\<dots> \<longleftrightarrow> unat w = unat c \<or> (unat c = 0 \<and> unat w = 65535)"
    unfolding c by (rule ones_rep_top_iff) (use unat_bounds(2)[of w] in simp)
  finally show ?thesis by (simp add: word_unat_eq_iff)
qed

theorem inet_chksum_fill_verify_witness:
  "inet_chksum (store16 14 (inet_chksum (store16 14 0 (\<lambda>a. of_nat a)) 4 20) (\<lambda>a. of_nat a)) 4 20 = 0"
  using inet_chksum_fill_verify[of 10 20 "inet_chksum (store16 14 0 (\<lambda>a. of_nat a)) 4 20" 4 "\<lambda>a. of_nat a"
    "inet_chksum (store16 14 0 (\<lambda>a. of_nat a)) 4 20"] by simp

text \<open>The byte order conversions are their own inverses, and the converted value has the most
  significant byte of the argument at the lowest address.\<close>

lemma byte_order_round_trip:
  "lwip_ntohs (lwip_htons h) = h \<and> lwip_ntohl (lwip_htonl n) = n \<and>
   (ucast (lwip_htons h) :: u8_t) = ucast (drop_bit 8 h) \<and>
   (ucast (lwip_htonl n) :: u8_t) = ucast (drop_bit 24 n) \<and>
   (ucast (drop_bit 8 (lwip_htonl n)) :: u8_t) = ucast (drop_bit 16 n) \<and>
   (ucast (drop_bit 16 (lwip_htonl n)) :: u8_t) = ucast (drop_bit 8 n)"
proof (intro conjI)
  show "(ucast (lwip_htons h) :: u8_t) = ucast (drop_bit 8 h)"
    unfolding lwip_htons_def byte_masks by (rule bit_word_eqI) (auto simp: bit_simps)
  show "(ucast (lwip_htonl n) :: u8_t) = ucast (drop_bit 24 n)"
    "(ucast (drop_bit 8 (lwip_htonl n)) :: u8_t) = ucast (drop_bit 16 n)"
    "(ucast (drop_bit 16 (lwip_htonl n)) :: u8_t) = ucast (drop_bit 8 n)"
    by (rule bit_word_eqI; simp add: bit_simps bit_lwip_htonl)+
qed (simp_all add: lwip_ntohs_def lwip_ntohl_def)

end
