(* ===== verification/Ip_Addr.thy ===== *)
theory Ip_Addr
  imports Inet
begin

section \<open>IPv4 addresses\<close>

text \<open>
  \<^verbatim>\<open>core/ipv4/ip_addr.c\<close>: broadcast and netmask tests, and the conversions between addresses
  and dotted text. An address is the 32-bit value in network byte order, so on this little-endian
  machine its first byte is the low one. A C string is the list of its characters before the
  terminating NUL; \<open>peek\<close> reads the character a pointer is at, and the NUL at the end.
\<close>

subsection \<open>The fields of a network interface these functions read\<close>

record netif_addrs =
  nif_ip_addr :: u32_t
  nif_netmask :: u32_t
  nif_gw :: u32_t
  nif_flags :: u8_t

abbreviation (input) IPADDR_ANY :: u32_t where "IPADDR_ANY \<equiv> 0x00000000"
abbreviation (input) IPADDR_NONE :: u32_t where "IPADDR_NONE \<equiv> 0xffffffff"
abbreviation (input) IPADDR_BROADCAST :: u32_t where "IPADDR_BROADCAST \<equiv> 0xffffffff"
abbreviation (input) NETIF_FLAG_BROADCAST :: u8_t where "NETIF_FLAG_BROADCAST \<equiv> 0x02"

definition ip_addr_netcmp :: "u32_t \<Rightarrow> u32_t \<Rightarrow> u32_t \<Rightarrow> bool" where
  "ip_addr_netcmp addr1 addr2 msk \<longleftrightarrow> addr1 AND msk = addr2 AND msk"

definition ip4_addr_isbroadcast :: "u32_t \<Rightarrow> 'a netif_addrs_scheme \<Rightarrow> u8_t" where
  "ip4_addr_isbroadcast addr netif =
     (if NOT addr = IPADDR_ANY \<or> addr = IPADDR_ANY then 1
      else if nif_flags netif AND NETIF_FLAG_BROADCAST = 0 then 0
      else if addr = nif_ip_addr netif then 0
      else if ip_addr_netcmp addr (nif_ip_addr netif) (nif_netmask netif) \<and>
        addr AND NOT (nif_netmask netif) = IPADDR_BROADCAST AND NOT (nif_netmask netif) then 1
      else 0)"

subsection \<open>Netmasks\<close>

text \<open>The two loops of \<^verbatim>\<open>ip4_addr_netmask_valid\<close>: the first stops at the first zero bit, the
  second looks for a one from there on. The mask is shifted right until it is 0.\<close>

function netmask_ones :: "u32_t \<Rightarrow> u32_t \<Rightarrow> u32_t" where
  "netmask_ones nm msk =
     (if msk \<noteq> 0 then if nm AND msk = 0 then msk else netmask_ones nm (drop_bit 1 msk) else msk)"
  by pat_completeness auto
termination
  by (relation "measure (\<lambda>(nm, msk). unat msk)")
    (auto simp: unat_drop_bit word_unat_eq_iff)

function netmask_zeros :: "u32_t \<Rightarrow> u32_t \<Rightarrow> u8_t" where
  "netmask_zeros nm msk =
     (if msk \<noteq> 0 then if nm AND msk \<noteq> 0 then 0 else netmask_zeros nm (drop_bit 1 msk) else 1)"
  by pat_completeness auto
termination
  by (relation "measure (\<lambda>(nm, msk). unat msk)")
    (auto simp: unat_drop_bit word_unat_eq_iff)

declare netmask_ones.simps [simp del] netmask_zeros.simps [simp del]

definition ip4_addr_netmask_valid :: "u32_t \<Rightarrow> u8_t" where
  "ip4_addr_netmask_valid netmask =
     (let nm_hostorder = lwip_htonl netmask;
          mask = netmask_ones nm_hostorder (push_bit 31 1)
      in netmask_zeros nm_hostorder mask)"

subsection \<open>From text to addresses\<close>

definition in_range :: "char \<Rightarrow> char \<Rightarrow> char \<Rightarrow> bool" where
  "in_range c lo up \<longleftrightarrow> (of_char lo :: nat) \<le> of_char c \<and> (of_char c :: nat) \<le> of_char up"

definition isdigit :: "char \<Rightarrow> bool" where "isdigit c \<longleftrightarrow> in_range c CHR ''0'' CHR ''9''"

definition isxdigit :: "char \<Rightarrow> bool" where
  "isxdigit c \<longleftrightarrow> isdigit c \<or> in_range c CHR ''a'' CHR ''f'' \<or> in_range c CHR ''A'' CHR ''F''"

definition islower :: "char \<Rightarrow> bool" where "islower c \<longleftrightarrow> in_range c CHR ''a'' CHR ''z''"

definition isspace :: "char \<Rightarrow> bool" where
  "isspace c \<longleftrightarrow> c = CHR '' '' \<or> c = CHR 0x0c \<or> c = CHR 0x0a \<or> c = CHR 0x0d \<or> c = CHR 0x09 \<or> c = CHR 0x0b"

definition peek :: "string \<Rightarrow> char" where
  "peek s = (case s of [] \<Rightarrow> CHR 0x00 | c # _ \<Rightarrow> c)"

text \<open>The inner loop of \<^verbatim>\<open>ipaddr_aton\<close>: the digits of one number. The value wraps at 32 bits.\<close>

fun aton_digits :: "u32_t \<Rightarrow> u32_t \<Rightarrow> string \<Rightarrow> u32_t \<times> string" where
  "aton_digits base val [] = (val, [])"
| "aton_digits base val (c # cs) =
     (if isdigit c then aton_digits base (val * base + of_nat (of_char c - of_char CHR ''0'')) cs
      else if base = 16 \<and> isxdigit c
      then aton_digits base (push_bit 4 val OR
             of_nat (of_char c + 10 - of_char (if islower c then CHR ''a'' else CHR ''A''))) cs
      else (val, c # cs))"

text \<open>The prefix that selects the base of a number.\<close>

definition aton_base :: "string \<Rightarrow> u32_t \<times> string" where
  "aton_base s =
     (if peek s = CHR ''0''
      then if peek (tl s) = CHR ''x'' \<or> peek (tl s) = CHR ''X'' then (16, tl (tl s)) else (8, tl s)
      else (10, s))"

lemma aton_digits_shorter: "length (snd (aton_digits base val s)) \<le> length s"
  by (induction base val s rule: aton_digits.induct) auto

text \<open>The outer loop: numbers separated by dots. \<open>None\<close> is \<^verbatim>\<open>return (0)\<close>; otherwise the parts stored
  so far, the last number and the rest of the text.\<close>

function aton_loop :: "u32_t list \<Rightarrow> string \<Rightarrow> (u32_t list \<times> u32_t \<times> string) option" where
  "aton_loop parts s =
     (if \<not> isdigit (peek s) then None
      else let (base, s1) = aton_base s;
               (val, s2) = aton_digits base 0 s1
           in if peek s2 = CHR ''.''
              then if length parts \<ge> 3 then None else aton_loop (parts @ [val]) (tl s2)
              else Some (parts, val, s2))"
  by pat_completeness auto
termination
proof (relation "measure (\<lambda>(parts, s). length s)", simp)
  fix parts :: "u32_t list" and s x base s1 y val s2
  assume a: "x = aton_base s" "(base, s1) = x" "y = aton_digits base 0 s1" "(val, s2) = y"
    "peek s2 = CHR ''.''"
  have "length s1 \<le> length s" using a(1,2) by (auto simp: aton_base_def split: if_splits)
  moreover have "length s2 \<le> length s1" using aton_digits_shorter[of base 0 s1] a(3,4) by (metis snd_conv)
  moreover have "s2 \<noteq> []" using a(5) by (auto simp: peek_def)
  ultimately show "((parts @ [val], tl s2), parts, s) \<in> measure (\<lambda>(parts, s). length s)"
    by (cases s2) auto
qed

declare aton_loop.simps [simp del]

definition ipaddr_aton :: "string \<Rightarrow> u32_t option \<Rightarrow> int \<times> u32_t option" where
  "ipaddr_aton cp addr =
     (case aton_loop [] cp of
        None \<Rightarrow> (0, addr)
      | Some (parts, val, rest) \<Rightarrow>
          if peek rest \<noteq> CHR 0x00 \<and> \<not> isspace (peek rest) then (0, addr)
          else let ok = (\<lambda>val. (1, map_option (\<lambda>_. lwip_htonl val) addr))
               in if length parts + 1 = 1 then ok val
                  else if length parts + 1 = 2 then
                    (if val > 0xffffff then (0, addr) else ok (val OR push_bit 24 (parts ! 0)))
                  else if length parts + 1 = 3 then
                    (if val > 0xffff then (0, addr)
                     else ok (val OR push_bit 24 (parts ! 0) OR push_bit 16 (parts ! 1)))
                  else
                    (if val > 0xff then (0, addr)
                     else ok (val OR push_bit 24 (parts ! 0) OR push_bit 16 (parts ! 1) OR push_bit 8 (parts ! 2))))"

definition ipaddr_addr :: "string \<Rightarrow> u32_t" where
  "ipaddr_addr cp = (case ipaddr_aton cp (Some 0) of
     (r, val) \<Rightarrow> if r \<noteq> 0 then the val else IPADDR_NONE)"

subsection \<open>From addresses to text\<close>

text \<open>The digits of one byte, least significant first, as the \<^verbatim>\<open>do ... while\<close> loop leaves them in
  \<^verbatim>\<open>inv\<close>; the entry count is the length of the list.\<close>

function inv_digits :: "u8_t \<Rightarrow> string \<Rightarrow> string" where
  "inv_digits ap ds =
     (let rem = ap mod 10; ap' = ap div 10; ds' = ds @ [char_of (unat (0x30 + rem))]
      in if ap' \<noteq> 0 then inv_digits ap' ds' else ds')"
  by pat_completeness auto
termination
  by (relation "measure (\<lambda>(ap, ds). unat ap)")
    (auto simp: unat_div word_unat_eq_iff)

declare inv_digits.simps [simp del]

text \<open>The buffer with the count of characters written (\<^verbatim>\<open>len\<close>, which \<^verbatim>\<open>rp\<close> follows). \<open>put\<close> is
  \<^verbatim>\<open>if (len++ >= buflen) return NULL; *rp++ = c;\<close> and \<open>put_all\<close> repeats it.\<close>

definition put :: "int \<Rightarrow> char \<Rightarrow> string \<times> nat \<Rightarrow> (string \<times> nat) option" where
  "put buflen c = (\<lambda>(buf, len). if int len \<ge> buflen then None else Some (buf[len := c], len + 1))"

fun put_all :: "int \<Rightarrow> string \<Rightarrow> string \<times> nat \<Rightarrow> (string \<times> nat) option" where
  "put_all buflen [] st = Some st"
| "put_all buflen (c # cs) st = Option.bind (put buflen c st) (put_all buflen cs)"

definition ntoa_byte :: "int \<Rightarrow> u8_t \<Rightarrow> string \<times> nat \<Rightarrow> (string \<times> nat) option" where
  "ntoa_byte buflen ap st =
     Option.bind (put_all buflen (rev (inv_digits ap [])) st) (put buflen CHR ''.'')"

fun ntoa_bytes :: "int \<Rightarrow> u8_t list \<Rightarrow> string \<times> nat \<Rightarrow> (string \<times> nat) option" where
  "ntoa_bytes buflen [] st = Some st"
| "ntoa_bytes buflen (ap # aps) st = Option.bind (ntoa_byte buflen ap st) (ntoa_bytes buflen aps)"

definition addr_bytes :: "u32_t \<Rightarrow> u8_t list" where
  "addr_bytes a = [ucast a, ucast (drop_bit 8 a), ucast (drop_bit 16 a), ucast (drop_bit 24 a)]"

definition ipaddr_ntoa_r :: "u32_t \<Rightarrow> string \<Rightarrow> int \<Rightarrow> string option" where
  "ipaddr_ntoa_r addr buf buflen =
     (case ntoa_bytes buflen (addr_bytes addr) (buf, 0) of
        None \<Rightarrow> None
      | Some (buf, rp) \<Rightarrow> Some (buf[rp - 1 := CHR 0x00]))"

definition ipaddr_ntoa :: "u32_t \<Rightarrow> string \<Rightarrow> string option" where
  "ipaddr_ntoa addr str = ipaddr_ntoa_r addr str 16"

text \<open>The C string a buffer holds.\<close>

definition cstr :: "string \<Rightarrow> string" where
  "cstr buf = takeWhile (\<lambda>c. c \<noteq> CHR 0x00) buf"

subsection \<open>Netmasks: ones, then zeros\<close>

definition one_bit :: "nat \<Rightarrow> u32_t" where "one_bit i = push_bit i 1"

lemma bit_one_bit: "bit (one_bit i) j \<longleftrightarrow> i = j \<and> j < 32"
  by (auto simp: one_bit_def bit_simps)

lemma one_bit_simps:
  "i < 32 \<Longrightarrow> one_bit i \<noteq> 0"
  "nm AND one_bit i = 0 \<longleftrightarrow> \<not> bit nm i"
  "drop_bit 1 (one_bit 0) = 0"
  "Suc i < 32 \<Longrightarrow> drop_bit 1 (one_bit (Suc i)) = one_bit i"
proof -
  show "i < 32 \<Longrightarrow> one_bit i \<noteq> 0" using bit_one_bit[of i i] by auto
  show "nm AND one_bit i = 0 \<longleftrightarrow> \<not> bit nm i" by (simp add: one_bit_def and_exp_eq_0_iff_not_bit)
  show "drop_bit 1 (one_bit 0) = 0" by (rule bit_word_eqI) (simp add: bit_drop_bit_eq bit_one_bit)
  show "drop_bit 1 (one_bit (Suc i)) = one_bit i" if "Suc i < 32"
    by (rule bit_word_eqI) (use that in \<open>auto simp: bit_drop_bit_eq bit_one_bit\<close>)
qed

lemma netmask_zeros_bits:
  "i < 32 \<Longrightarrow> netmask_zeros nm (one_bit i) = (if \<forall>j\<le>i. \<not> bit nm j then 1 else 0)"
proof (induction i)
  case 0
  then show ?case
    by (subst netmask_zeros.simps, subst netmask_zeros.simps) (simp add: one_bit_simps del: One_nat_def)
next
  case (Suc i)
  then show ?case
    by (subst netmask_zeros.simps) (auto simp: one_bit_simps le_Suc_eq simp del: One_nat_def)
qed

lemma netmask_ones_bits:
  "i < 32 \<Longrightarrow> if \<forall>j\<le>i. bit nm j then netmask_ones nm (one_bit i) = 0
     else \<exists>z\<le>i. netmask_ones nm (one_bit i) = one_bit z \<and> \<not> bit nm z \<and> (\<forall>j. z < j \<and> j \<le> i \<longrightarrow> bit nm j)"
proof (induction i)
  case 0
  have "netmask_ones nm (one_bit 0) = (if bit nm 0 then 0 else one_bit 0)"
    by (subst netmask_ones.simps) (simp add: one_bit_simps netmask_ones.simps[of nm 0] del: One_nat_def)
  then show ?case by simp
next
  case (Suc i)
  have s: "netmask_ones nm (one_bit (Suc i)) =
      (if bit nm (Suc i) then netmask_ones nm (one_bit i) else one_bit (Suc i))"
    using Suc.prems by (subst netmask_ones.simps) (simp add: one_bit_simps del: One_nat_def)
  show ?case
  proof (cases "bit nm (Suc i)")
    case True
    then show ?thesis using Suc s by (auto simp: le_Suc_eq split: if_splits)
  next
    case False
    then show ?thesis using s by auto
  qed
qed

lemma netmask_valid_bits:
  "ip4_addr_netmask_valid m = (if \<exists>k\<le>32. \<forall>j<32. bit (lwip_htonl m) j \<longleftrightarrow> k \<le> j then 1 else 0)"
proof -
  let ?n = "lwip_htonl m"
  have v: "ip4_addr_netmask_valid m = netmask_zeros ?n (netmask_ones ?n (one_bit 31))"
    by (simp add: ip4_addr_netmask_valid_def one_bit_def Let_def)
  let ?v = "\<exists>k\<le>32. \<forall>j<32. bit ?n j \<longleftrightarrow> k \<le> j"
  show ?thesis
  proof (cases "\<forall>j\<le>31. bit ?n j")
    case True
    then have "netmask_ones ?n (one_bit 31) = 0" using netmask_ones_bits[of 31 ?n] by simp
    moreover have ?v using True by (intro exI[of _ 0]) auto
    ultimately show ?thesis by (simp add: v netmask_zeros.simps)
  next
    case False
    then obtain z where z: "z \<le> 31" "netmask_ones ?n (one_bit 31) = one_bit z" "\<not> bit ?n z"
        "\<And>j. z < j \<Longrightarrow> j \<le> 31 \<Longrightarrow> bit ?n j"
      using netmask_ones_bits[of 31 ?n] by (auto split: if_splits)
    have "ip4_addr_netmask_valid m = (if \<forall>j\<le>z. \<not> bit ?n j then 1 else 0)"
      using z netmask_zeros_bits[of z ?n] by (simp add: v)
    moreover have "(\<forall>j\<le>z. \<not> bit ?n j) \<longleftrightarrow> ?v"
    proof
      assume "\<forall>j\<le>z. \<not> bit ?n j"
      then show ?v using z by (intro exI[of _ "Suc z"]) (auto simp: Suc_le_eq not_le[symmetric])
    next
      assume ?v
      then show "\<forall>j\<le>z. \<not> bit ?n j" using z(1,3) by fastforce
    qed
    ultimately show ?thesis by simp
  qed
qed

lemma bit_not_mask: "x = NOT (mask k :: u32_t) \<longleftrightarrow> (\<forall>j<32. bit x j \<longleftrightarrow> k \<le> j)"
  by (auto simp: bit_eq_iff bit_simps not_less dest: bit_imp_le_length)

subsection \<open>Decimal text\<close>

definition dch :: "nat \<Rightarrow> char" where "dch d = char_of (48 + d)"

definition dec :: "nat \<Rightarrow> string" where
  "dec n = (if n < 10 then [dch n] else if n < 100 then [dch (n div 10), dch (n mod 10)]
     else [dch (n div 100), dch (n div 10 mod 10), dch (n mod 10)])"

lemma of_char_dch: "d < 10 \<Longrightarrow> of_char (dch d) = 48 + d"
  by (simp add: dch_def)

lemma isdigit_dch [simp]: "d < 10 \<Longrightarrow> isdigit (dch d)"
  by (simp add: isdigit_def in_range_def of_char_dch)

lemma dch_zero: "d < 10 \<Longrightarrow> dch d = CHR ''0'' \<longleftrightarrow> d = 0"
  using of_char_dch[of d] of_char_eq_iff[of "dch d" "CHR ''0''", where 'a = nat] by auto

lemma inv_digits_dec: "rev (inv_digits ap []) = dec (unat ap)"
proof -
  have c: "char_of (unat (0x30 + x mod 10 :: u8_t)) = dch (unat x mod 10)" for x :: u8_t
  proof -
    have "unat x mod 10 < 10" by simp
    then show ?thesis by (simp add: dch_def unat_word_ariths unat_mod)
  qed
  have s: "inv_digits x ds = (if unat x < 10 then ds @ [dch (unat x)]
      else inv_digits (x div 10) (ds @ [dch (unat x mod 10)]))" for x ds
    by (subst inv_digits.simps) (auto simp: c Let_def word_unat_eq_iff unat_div)
  have "unat ap < 256" using unat_bounds(1)[of ap] by simp
  then have "unat ap div 10 div 10 < 10" by simp
  then show ?thesis
    by (subst s, subst s, subst s) (auto simp: unat_div dec_def div_mult2_eq[symmetric])
qed
subsection \<open>The text the conversion writes\<close>

definition dotted :: "u32_t \<Rightarrow> string" where
  "dotted a = (let b = map unat (addr_bytes a)
     in dec (b ! 0) @ ''.'' @ dec (b ! 1) @ ''.'' @ dec (b ! 2) @ ''.'' @ dec (b ! 3))"

lemma put_all_append: "put_all n (xs @ ys) st = Option.bind (put_all n xs st) (put_all n ys)"
proof (induction xs arbitrary: st)
  case (Cons x xs)
  then show ?case by (cases "put n x st") simp_all
qed simp

lemma bind_put_all_Nil [simp]: "Option.bind x (put_all n []) = x"
  by (cases x) simp_all

lemma put_all_spec:
  assumes "length buf = n" "k \<le> n"
  shows "put_all (int n) cs (buf, k) =
    (if k + length cs \<le> n then Some (take k buf @ cs @ drop (k + length cs) buf, k + length cs) else None)"
  using assms
proof (induction cs arbitrary: buf k)
  case (Cons c cs)
  show ?case
  proof (cases "k < n")
    case True
    then have "put_all (int n) (c # cs) (buf, k) = put_all (int n) cs (buf[k := c], Suc k)"
      by (simp add: put_def)
    moreover have "take (Suc k) (buf[k := c]) = take k buf @ [c]"
      using True Cons.prems by (simp add: take_Suc_conv_app_nth)
    ultimately show ?thesis using Cons.IH[of "buf[k := c]" "Suc k"] True Cons.prems by simp
  next
    case False
    then show ?thesis by (simp add: put_def)
  qed
qed simp

lemma ntoa_bytes_put_all:
  "ntoa_bytes n aps st = put_all n (concat (map (\<lambda>b. dec (unat b) @ ''.'') aps)) st"
proof (induction aps arbitrary: st)
  case (Cons b aps)
  have "ntoa_byte n b st = put_all n (dec (unat b) @ ''.'') st" for st
    by (simp add: ntoa_byte_def inv_digits_dec put_all_append)
      (cases "put_all n (dec (unat b)) st"; simp)
  moreover have "ntoa_bytes n aps = put_all n (concat (map (\<lambda>b. dec (unat b) @ ''.'') aps))"
    using Cons by auto
  ultimately show ?case
    by (simp only: ntoa_bytes.simps list.map concat.simps put_all_append)
qed simp

lemma ntoa_r_spec:
  assumes "length buf = n"
  shows "ipaddr_ntoa_r a buf (int n) =
    (if length (dotted a) < n then Some (dotted a @ CHR 0x00 # drop (Suc (length (dotted a))) buf) else None)"
proof -
  let ?d = "dotted a"
  have "concat (map (\<lambda>b. dec (unat b) @ ''.'') (addr_bytes a)) = ?d @ ''.''"
    by (simp add: addr_bytes_def dotted_def Let_def)
  then have "ntoa_bytes (int n) (addr_bytes a) (buf, 0) =
      (if Suc (length ?d) \<le> n then Some ((?d @ ''.'') @ drop (Suc (length ?d)) buf, Suc (length ?d)) else None)"
    using put_all_spec[OF assms, of 0 "?d @ ''.''"] by (simp add: ntoa_bytes_put_all)
  then show ?thesis by (simp add: ipaddr_ntoa_r_def list_update_append Suc_le_eq)
qed

lemma dch_nonzero: "d < 10 \<Longrightarrow> dch d \<noteq> CHR 0x00"
  using of_char_dch[of d] of_char_eq_iff[of "dch d" "CHR 0x00", where 'a = nat] by auto

lemma dec_no_nul: "n < 256 \<Longrightarrow> CHR 0x00 \<notin> set (dec n)"
proof -
  assume n: "n < 256"
  then have "n div 100 < 10" by simp
  then show ?thesis using n by (auto simp: dec_def dch_nonzero dch_nonzero[symmetric] simp del: not_less)
qed

lemma addr_bytes_bound: "i < 4 \<Longrightarrow> map unat (addr_bytes a) ! i < 256"
proof -
  assume "i < 4"
  then have "i < length (addr_bytes a)" by (simp add: addr_bytes_def)
  then show ?thesis using unat_bounds(1)[of "addr_bytes a ! i"] by simp
qed

lemma dotted_no_nul: "CHR 0x00 \<notin> set (dotted a)"
  using dec_no_nul[OF addr_bytes_bound[of 0 a]] dec_no_nul[OF addr_bytes_bound[of 1 a]]
    dec_no_nul[OF addr_bytes_bound[of 2 a]] dec_no_nul[OF addr_bytes_bound[of 3 a]]
  by (simp add: dotted_def Let_def del: nth_map)

lemma dotted_length: "length (dotted a) \<le> 15"
proof -
  have "length (dec n) \<le> 3" for n by (simp add: dec_def)
  from this[of "map unat (addr_bytes a) ! 0"] this[of "map unat (addr_bytes a) ! 1"]
    this[of "map unat (addr_bytes a) ! 2"] this[of "map unat (addr_bytes a) ! 3"]
  show ?thesis unfolding dotted_def Let_def length_append by simp
qed

lemma cstr_dotted: "cstr (dotted a @ CHR 0x00 # r) = dotted a"
proof -
  have "takeWhile (\<lambda>c. c \<noteq> CHR 0x00) (dotted a) = dotted a"
    using dotted_no_nul[of a] by (auto simp: takeWhile_eq_all_conv)
  then show ?thesis using dotted_no_nul[of a] by (simp add: cstr_def takeWhile_append)
qed

subsection \<open>Reading the text back\<close>

lemma aton_digits_step:
  "d < 10 \<Longrightarrow> aton_digits b v (dch d # cs) = aton_digits b (v * b + of_nat d) cs"
  by (simp add: of_char_dch)

lemma aton_digits_stop: "rest = [] \<or> (\<exists>r. rest = CHR ''.'' # r) \<Longrightarrow> aton_digits b v rest = (v, rest)"
  by (auto simp: isdigit_def isxdigit_def in_range_def)

lemma aton_number:
  assumes "n < 256" "rest = [] \<or> (\<exists>r. rest = CHR ''.'' # r)"
  shows "isdigit (peek (dec n @ rest))"
    "\<exists>b s. aton_base (dec n @ rest) = (b, s) \<and> aton_digits b 0 s = (of_nat n, rest)"
proof -
  have d: "n div 100 < 10" "n div 10 mod 10 < 10" "n mod 10 < 10" using assms(1) by simp_all
  show "isdigit (peek (dec n @ rest))"
    using d by (simp add: dec_def peek_def)
  consider "n = 0" | "0 < n" "n < 10" | "10 \<le> n" "n < 100" | "100 \<le> n" by linarith
  then show "\<exists>b s. aton_base (dec n @ rest) = (b, s) \<and> aton_digits b 0 s = (of_nat n, rest)"
  proof cases
    case 1
    have "dec 0 = ''0''" using dch_zero[of 0] by (simp add: dec_def)
    then show ?thesis using 1 assms(2) by (auto simp: aton_base_def peek_def aton_digits_stop)
  next
    case 2
    then show ?thesis
      using assms(2) by (simp add: dec_def aton_base_def peek_def dch_zero aton_digits_step aton_digits_stop
        del: aton_digits.simps)
  next
    case 3
    then have "n div 10 < 10" "n div 10 \<noteq> 0" by auto
    moreover have "of_nat (n div 10) * 10 + of_nat (n mod 10) = (of_nat n :: u32_t)"
      by (metis div_mult_mod_eq of_nat_add of_nat_mult of_nat_numeral)
    ultimately show ?thesis
      using 3 d assms(2) by (simp add: dec_def aton_base_def peek_def dch_zero aton_digits_step aton_digits_stop
        del: aton_digits.simps)
  next
    case 4
    then have "n div 100 \<noteq> 0" by auto
    moreover have "(of_nat (n div 100) * 10 + of_nat (n div 10 mod 10)) * 10 + of_nat (n mod 10) = (of_nat n :: u32_t)"
    proof -
      have "(n div 100 * 10 + n div 10 mod 10) * 10 + n mod 10 = n"
        using div_mult_mod_eq[of n 10] div_mult_mod_eq[of "n div 10" 10] by (simp add: div_mult2_eq[symmetric])
      then show ?thesis by (metis of_nat_add of_nat_mult of_nat_numeral)
    qed
    ultimately show ?thesis
      using 4 d assms(2) by (simp add: dec_def aton_base_def peek_def dch_zero aton_digits_step aton_digits_stop
        del: aton_digits.simps)
  qed
qed

lemma aton_loop_dot:
  assumes "n < 256" "length parts < 3"
  shows "aton_loop parts (dec n @ CHR ''.'' # r) = aton_loop (parts @ [of_nat n]) r"
  using aton_number[OF assms(1), of "CHR ''.'' # r"] assms(2)
  by (subst aton_loop.simps) (auto simp: peek_def)

lemma aton_loop_end:
  assumes "n < 256"
  shows "aton_loop parts (dec n) = Some (parts, of_nat n, [])"
  using aton_number[OF assms(1), of "[]"]
  by (subst aton_loop.simps) (auto simp: peek_def)

lemma aton_loop_dotted:
  "aton_loop [] (dotted a) = (let b = map (\<lambda>x. of_nat (unat x)) (addr_bytes a)
     in Some ([b ! 0, b ! 1, b ! 2], b ! 3, []))"
  using addr_bytes_bound[of 0 a] addr_bytes_bound[of 1 a] addr_bytes_bound[of 2 a] addr_bytes_bound[of 3 a]
  by (simp add: dotted_def Let_def aton_loop_dot aton_loop_end addr_bytes_def)

lemma addr_bytes_join:
  "lwip_htonl (ucast (ucast (drop_bit 24 a) :: u8_t) OR push_bit 24 (ucast (ucast a :: u8_t)) OR
     push_bit 16 (ucast (ucast (drop_bit 8 a) :: u8_t)) OR push_bit 8 (ucast (ucast (drop_bit 16 a) :: u8_t))) = a"
proof (rule bit_word_eqI)
  fix i assume "i < LENGTH(32)"
  then obtain j where "j < 8" "i = j \<or> i = 8 + j \<or> i = 16 + j \<or> i = 24 + j"
    using byte_of_bit[of i] by auto
  then show "bit (lwip_htonl (ucast (ucast (drop_bit 24 a) :: u8_t) OR push_bit 24 (ucast (ucast a :: u8_t)) OR
     push_bit 16 (ucast (ucast (drop_bit 8 a) :: u8_t)) OR push_bit 8 (ucast (ucast (drop_bit 16 a) :: u8_t)))) i
     = bit a i"
    by (elim disjE) (simp_all add: bit_lwip_htonl bit_simps)
qed

lemma aton_dotted: "ipaddr_aton (dotted a) (Some x) = (1, Some a)"
proof -
  have le: "\<not> (0xff :: u32_t) < ucast (ucast (drop_bit 24 a) :: u8_t)"
    using unat_bounds(1)[of "ucast (drop_bit 24 a)"] by (simp add: word_less_nat_alt not_less)
  show ?thesis unfolding ipaddr_aton_def aton_loop_dotted
    using le addr_bytes_join[of a]
    by (simp add: Let_def addr_bytes_def peek_def)
qed

subsection \<open>Properties\<close>

text \<open>C33. Printing an address and parsing the text gives the address back. The 16 bytes of
  \<^verbatim>\<open>ipaddr_ntoa\<close> are enough for every address (it never returns NULL), and the reentrant version
  returns NULL exactly when the buffer cannot hold the text and its terminator.\<close>

theorem ipaddr_ntoa_aton:
  assumes "length str = 16" "length buf = n"
  shows "(\<exists>s. ipaddr_ntoa a str = Some s \<and> length s = 16 \<and>
      ipaddr_aton (cstr s) (Some x) = (1, Some a) \<and> ipaddr_addr (cstr s) = a) \<and>
    (case ipaddr_ntoa_r a buf (int n) of None \<Rightarrow> n \<le> length (dotted a)
     | Some s \<Rightarrow> length (dotted a) < n \<and> cstr s = dotted a \<and> ipaddr_aton (cstr s) (Some x) = (1, Some a))"
proof -
  have "ipaddr_ntoa a str = Some (dotted a @ CHR 0x00 # drop (Suc (length (dotted a))) str)"
    using ntoa_r_spec[OF assms(1), of a] dotted_length[of a] by (simp add: ipaddr_ntoa_def)
  moreover have "length (dotted a @ CHR 0x00 # drop (Suc (length (dotted a))) str) = 16"
    using assms(1) dotted_length[of a] by simp
  ultimately show ?thesis
    using ntoa_r_spec[OF assms(2), of a] by (auto simp: cstr_dotted aton_dotted ipaddr_addr_def)
qed

theorem ipaddr_ntoa_aton_witness:
  "\<exists>s. ipaddr_ntoa 0x0100a8c0 (replicate 16 CHR ''?'') = Some s \<and>
     ipaddr_aton (cstr s) (Some 0) = (1, Some 0x0100a8c0)"
  using ipaddr_ntoa_aton[of "replicate 16 CHR ''?''" "[]" 0 "0x0100a8c0" 0] by auto

text \<open>The netmask test accepts exactly the masks that are ones followed by zeros when read in
  host byte order.\<close>

lemma ip4_addr_netmask_valid_iff:
  "ip4_addr_netmask_valid m = 1 \<longleftrightarrow> (\<exists>k\<le>32. lwip_ntohl m = NOT (mask k))"
  by (simp add: netmask_valid_bits bit_not_mask lwip_ntohl_def)

text \<open>An interface with broadcast support has one directed broadcast address, its network with
  all host bits set, besides the all-ones and all-zeros addresses.\<close>

lemma isbroadcast_iff:
  "ip4_addr_isbroadcast addr n \<noteq> 0 \<longleftrightarrow> addr = 0 \<or> addr = IPADDR_BROADCAST \<or>
     (bit (nif_flags n) 1 \<and> addr \<noteq> nif_ip_addr n \<and> addr = nif_ip_addr n OR NOT (nif_netmask n))"
proof -
  have "addr = i OR NOT k \<longleftrightarrow> addr AND k = i AND k \<and> addr AND NOT k = 0xffffffff AND NOT k" for i k :: u32_t
  proof -
    have ff: "(0xffffffff :: u32_t) = mask 32" by (simp add: mask_eq_exp_minus_1)
    show ?thesis unfolding ff bit_eq_iff by (auto simp: bit_simps)
  qed
  moreover have "nif_flags n AND 2 = 0 \<longleftrightarrow> \<not> bit (nif_flags n) 1"
    using and_exp_eq_0_iff_not_bit[of "nif_flags n" 1] by simp
  moreover have "NOT addr = 0 \<longleftrightarrow> addr = 0xffffffff"
  proof -
    have ff: "(0xffffffff :: u32_t) = NOT 0" by simp
    show ?thesis unfolding ff by (metis bit.double_compl)
  qed
  ultimately show ?thesis by (simp add: ip4_addr_isbroadcast_def ip_addr_netcmp_def)
qed

text \<open>The parts before the last are not checked to fit in a byte: the excess of one is merged into
  its neighbour.\<close>

lemma ipaddr_aton_unchecked_part:
  "ipaddr_aton ''1.2.300.4'' (Some 0) = (1, Some (lwip_htonl 0x01032c04))"
  by code_simp

end
