(* ===== verification/Mem.thy ===== *)
theory Mem
  imports Prelude
begin

section \<open>The lwIP heap: mem.c\<close>

text \<open>
  \<^verbatim>\<open>core/mem.c\<close> as the build configures it: one heap of \<^verbatim>\<open>MEM_SIZE\<close> bytes, no pools, no
  operating system (\<^verbatim>\<open>NO_SYS\<close>, the mutex macros are empty), statistics on. The heap is a list of
  areas, each preceded by a \<^verbatim>\<open>struct mem\<close> with the offsets of its neighbours and a use mark; the
  structs lie in the byte memory, so an overlap of a struct with user data would show in the
  model. Addresses and \<^verbatim>\<open>mem_size_t\<close> values are natural numbers, with 32-bit wrap-around written
  out. \<open>None\<close> is a call that does not return: \<^verbatim>\<open>LWIP_PLATFORM_ASSERT\<close> of this port prints and
  loops for ever.
\<close>

subsection \<open>Configuration and data\<close>

abbreviation (input) MEM_ALIGNMENT :: nat where "MEM_ALIGNMENT \<equiv> 4"

definition LWIP_MEM_ALIGN_SIZE :: "nat \<Rightarrow> nat" where
  "LWIP_MEM_ALIGN_SIZE sz = (let t = add32 sz (MEM_ALIGNMENT - 1) in t - t mod MEM_ALIGNMENT)"

definition LWIP_MEM_ALIGN :: "nat \<Rightarrow> nat" where
  "LWIP_MEM_ALIGN addr = (let t = add32 addr (MEM_ALIGNMENT - 1) in t - t mod MEM_ALIGNMENT)"

definition MIN_SIZE :: nat where "MIN_SIZE = 12"
definition MIN_SIZE_ALIGNED :: nat where "MIN_SIZE_ALIGNED = LWIP_MEM_ALIGN_SIZE MIN_SIZE"
text \<open>\<^verbatim>\<open>struct mem\<close>: two 32-bit offsets and a byte, 9 bytes, aligned to 12.\<close>
definition SIZEOF_STRUCT_MEM :: nat where "SIZEOF_STRUCT_MEM = LWIP_MEM_ALIGN_SIZE 9"
definition MEM_SIZE :: nat where "MEM_SIZE = 1024 * 100"
definition MEM_SIZE_ALIGNED :: nat where "MEM_SIZE_ALIGNED = LWIP_MEM_ALIGN_SIZE MEM_SIZE"

lemma mem_sizes [simp]:
  "MIN_SIZE_ALIGNED = 12" "SIZEOF_STRUCT_MEM = 12" "MEM_SIZE_ALIGNED = 102400"
  by (simp_all add: MIN_SIZE_ALIGNED_def MIN_SIZE_def SIZEOF_STRUCT_MEM_def MEM_SIZE_ALIGNED_def
      MEM_SIZE_def LWIP_MEM_ALIGN_SIZE_def add32_def)

record stats_mem =
  st_avail :: u32_t
  st_used :: u32_t
  st_max :: u32_t
  st_err :: u16_t
  st_illegal :: u16_t

definition STATS_INC_USED :: "u32_t \<Rightarrow> stats_mem \<Rightarrow> stats_mem" where
  "STATS_INC_USED y st =
     (let st = st\<lparr>st_used := st_used st + y\<rparr>
      in if st_max st < st_used st then st\<lparr>st_max := st_used st\<rparr> else st)"

record mem_state =
  ram :: nat
  ram_end :: nat
  lfree :: nat
  mbytes :: bytes
  mstats :: stats_mem

text \<open>The fields of the struct at an address.\<close>

definition mnext :: "bytes \<Rightarrow> nat \<Rightarrow> nat" where "mnext m a = read32 m a"
definition mprev :: "bytes \<Rightarrow> nat \<Rightarrow> nat" where "mprev m a = read32 m (a + 4)"
definition mused :: "bytes \<Rightarrow> nat \<Rightarrow> u8_t" where "mused m a = m (a + 8)"
definition set_mnext :: "nat \<Rightarrow> nat \<Rightarrow> bytes \<Rightarrow> bytes" where "set_mnext a v m = write32 a v m"
definition set_mprev :: "nat \<Rightarrow> nat \<Rightarrow> bytes \<Rightarrow> bytes" where "set_mprev a v m = write32 (a + 4) v m"
definition set_mused :: "nat \<Rightarrow> u8_t \<Rightarrow> bytes \<Rightarrow> bytes" where "set_mused a v m = m(a + 8 := v)"

definition LWIP_ASSERT :: "bool \<Rightarrow> 'a option \<Rightarrow> 'a option" where
  "LWIP_ASSERT c k = (if c then k else None)"

subsection \<open>Operations\<close>

definition plug_holes :: "nat \<Rightarrow> mem_state \<Rightarrow> mem_state option" where
  "plug_holes mem s =
     LWIP_ASSERT (mem \<ge> ram s) (LWIP_ASSERT (mem < ram_end s)
     (LWIP_ASSERT (mused (mbytes s) mem = 0) (LWIP_ASSERT (mnext (mbytes s) mem \<le> MEM_SIZE_ALIGNED)
       (let nmem = ram s + mnext (mbytes s) mem;
            s = (if mem \<noteq> nmem \<and> mused (mbytes s) nmem = 0 \<and> nmem \<noteq> ram_end s
                 then let s = (if lfree s = nmem then s\<lparr>lfree := mem\<rparr> else s);
                          m = set_mnext mem (mnext (mbytes s) nmem) (mbytes s);
                          m = set_mprev (ram s + mnext m nmem) (mem - ram s) m
                      in s\<lparr>mbytes := m\<rparr>
                 else s);
            pmem = ram s + mprev (mbytes s) mem
        in Some (if pmem \<noteq> mem \<and> mused (mbytes s) pmem = 0
                 then let s = (if lfree s = mem then s\<lparr>lfree := pmem\<rparr> else s);
                          m = set_mnext pmem (mnext (mbytes s) mem) (mbytes s);
                          m = set_mprev (ram s + mnext m mem) (pmem - ram s) m
                      in s\<lparr>mbytes := m\<rparr>
                 else s)))))"

text \<open>\<open>ram_heap\<close> is where the linker put the array; \<open>s\<close> what the memory and the statistics held
  before.\<close>

definition mem_init :: "nat \<Rightarrow> mem_state \<Rightarrow> mem_state option" where
  "mem_init ram_heap s =
     LWIP_ASSERT (SIZEOF_STRUCT_MEM mod MEM_ALIGNMENT = 0)
       (let r = LWIP_MEM_ALIGN ram_heap;
            m = set_mused r 0 (set_mprev r 0 (set_mnext r MEM_SIZE_ALIGNED (mbytes s)));
            e = r + MEM_SIZE_ALIGNED;
            m = set_mprev e MEM_SIZE_ALIGNED (set_mnext e MEM_SIZE_ALIGNED (set_mused e 1 m))
        in Some (s\<lparr>ram := r, ram_end := e, lfree := r, mbytes := m,
                   mstats := (mstats s)\<lparr>st_avail := of_nat MEM_SIZE_ALIGNED\<rparr>\<rparr>))"

definition mem_free :: "nat \<Rightarrow> mem_state \<Rightarrow> mem_state option" where
  "mem_free rmem s =
     (if rmem = 0 then Some s
      else LWIP_ASSERT (rmem mod MEM_ALIGNMENT = 0) (LWIP_ASSERT (rmem \<ge> ram s \<and> rmem < ram_end s)
       (if rmem < ram s \<or> rmem \<ge> ram_end s
        then Some (s\<lparr>mstats := (mstats s)\<lparr>st_illegal := st_illegal (mstats s) + 1\<rparr>\<rparr>)
        else let mem = sub32 rmem SIZEOF_STRUCT_MEM
             in LWIP_ASSERT (mused (mbytes s) mem \<noteq> 0)
                 (let s = s\<lparr>mbytes := set_mused mem 0 (mbytes s)\<rparr>;
                      s = (if mem < lfree s then s\<lparr>lfree := mem\<rparr> else s);
                      s = s\<lparr>mstats := (mstats s)\<lparr>st_used := st_used (mstats s) -
                            of_nat (sub32 (mnext (mbytes s) mem) (sub32 mem (ram s)))\<rparr>\<rparr>
                  in plug_holes mem s))))"

definition mem_trim :: "nat \<Rightarrow> nat \<Rightarrow> mem_state \<Rightarrow> (nat \<times> mem_state) option" where
  "mem_trim rmem newsize s =
     (let newsize = LWIP_MEM_ALIGN_SIZE newsize;
          newsize = (if newsize < MIN_SIZE_ALIGNED then MIN_SIZE_ALIGNED else newsize)
      in if newsize > MEM_SIZE_ALIGNED then Some (0, s)
      else LWIP_ASSERT (rmem \<ge> ram s \<and> rmem < ram_end s)
       (if rmem < ram s \<or> rmem \<ge> ram_end s
        then Some (rmem, s\<lparr>mstats := (mstats s)\<lparr>st_illegal := st_illegal (mstats s) + 1\<rparr>\<rparr>)
        else let mem = sub32 rmem SIZEOF_STRUCT_MEM;
                 ptr = sub32 mem (ram s);
                 sz = sub32 (sub32 (mnext (mbytes s) mem) ptr) SIZEOF_STRUCT_MEM
             in LWIP_ASSERT (newsize \<le> sz)
               (if newsize > sz then Some (0, s)
                else if newsize = sz then Some (rmem, s)
                else let mem2 = ram s + mnext (mbytes s) mem;
                         ptr2 = ptr + SIZEOF_STRUCT_MEM + newsize
                     in if mused (mbytes s) mem2 = 0
                     then let next = mnext (mbytes s) mem2;
                              s = (if lfree s = mem2 then s\<lparr>lfree := ram s + ptr2\<rparr> else s);
                              mem2 = ram s + ptr2;
                              m = set_mused mem2 0 (mbytes s);
                              m = set_mnext mem2 next m;
                              m = set_mprev mem2 ptr m;
                              m = set_mnext mem ptr2 m;
                              m = (if mnext m mem2 \<noteq> MEM_SIZE_ALIGNED
                                   then set_mprev (ram s + mnext m mem2) ptr2 m else m)
                          in Some (rmem, s\<lparr>mbytes := m,
                               mstats := (mstats s)\<lparr>st_used := st_used (mstats s) - of_nat (sz - newsize)\<rparr>\<rparr>)
                     else if newsize + SIZEOF_STRUCT_MEM + MIN_SIZE_ALIGNED \<le> sz
                     then let mem2 = ram s + ptr2;
                              s = (if mem2 < lfree s then s\<lparr>lfree := mem2\<rparr> else s);
                              m = set_mused mem2 0 (mbytes s);
                              m = set_mnext mem2 (mnext m mem) m;
                              m = set_mprev mem2 ptr m;
                              m = set_mnext mem ptr2 m;
                              m = (if mnext m mem2 \<noteq> MEM_SIZE_ALIGNED
                                   then set_mprev (ram s + mnext m mem2) ptr2 m else m)
                          in Some (rmem, s\<lparr>mbytes := m,
                               mstats := (mstats s)\<lparr>st_used := st_used (mstats s) - of_nat (sz - newsize)\<rparr>\<rparr>)
                     else Some (rmem, s))))"

text \<open>The scan of \<^verbatim>\<open>mem_malloc\<close>: the offset of the first free area that is big enough, or \<open>None\<close>
  inside when the end is reached. The outer \<open>None\<close> is a scan that does not end.\<close>

partial_function (option) mem_scan :: "nat \<Rightarrow> mem_state \<Rightarrow> nat \<Rightarrow> nat option option" where
  "mem_scan sz s ptr =
     (if ptr < MEM_SIZE_ALIGNED - sz
      then if mused (mbytes s) (ram s + ptr) = 0 \<and>
              sub32 (mnext (mbytes s) (ram s + ptr)) (ptr + SIZEOF_STRUCT_MEM) \<ge> sz
           then Some (Some ptr)
           else mem_scan sz s (mnext (mbytes s) (ram s + ptr))
      else Some None)"

partial_function (option) lfree_scan :: "mem_state \<Rightarrow> nat \<Rightarrow> nat option" where
  "lfree_scan s cur =
     (if mused (mbytes s) cur \<noteq> 0 \<and> cur \<noteq> ram_end s
      then lfree_scan s (ram s + mnext (mbytes s) cur)
      else Some cur)"

text \<open>What \<^verbatim>\<open>mem_malloc\<close> does with the area it found: split it or take it whole.\<close>

definition mem_take :: "nat \<Rightarrow> nat \<Rightarrow> mem_state \<Rightarrow> mem_state" where
  "mem_take sz ptr s =
     (let mem = ram s + ptr
      in if sub32 (mnext (mbytes s) mem) (ptr + SIZEOF_STRUCT_MEM) \<ge> sz + SIZEOF_STRUCT_MEM + MIN_SIZE_ALIGNED
         then let ptr2 = ptr + SIZEOF_STRUCT_MEM + sz;
                  mem2 = ram s + ptr2;
                  m = set_mused mem2 0 (mbytes s);
                  m = set_mnext mem2 (mnext m mem) m;
                  m = set_mprev mem2 ptr m;
                  m = set_mnext mem ptr2 m;
                  m = set_mused mem 1 m;
                  m = (if mnext m mem2 \<noteq> MEM_SIZE_ALIGNED
                       then set_mprev (ram s + mnext m mem2) ptr2 m else m)
              in s\<lparr>mbytes := m, mstats := STATS_INC_USED (of_nat (sz + SIZEOF_STRUCT_MEM)) (mstats s)\<rparr>
         else s\<lparr>mbytes := set_mused mem 1 (mbytes s),
                mstats := STATS_INC_USED (of_nat (sub32 (mnext (mbytes s) mem) (sub32 mem (ram s)))) (mstats s)\<rparr>)"

definition mem_malloc :: "nat \<Rightarrow> mem_state \<Rightarrow> (nat \<times> mem_state) option" where
  "mem_malloc sz s =
     (if sz = 0 then Some (0, s)
      else let sz = LWIP_MEM_ALIGN_SIZE sz;
               sz = (if sz < MIN_SIZE_ALIGNED then MIN_SIZE_ALIGNED else sz)
      in if sz > MEM_SIZE_ALIGNED then Some (0, s)
      else case mem_scan sz s (sub32 (lfree s) (ram s)) of
          None \<Rightarrow> None
        | Some None \<Rightarrow> Some (0, s\<lparr>mstats := (mstats s)\<lparr>st_err := st_err (mstats s) + 1\<rparr>\<rparr>)
        | Some (Some ptr) \<Rightarrow>
           (let mem = ram s + ptr;
                s = mem_take sz ptr s
            in case (if mem = lfree s
                     then case lfree_scan s (lfree s) of
                            None \<Rightarrow> None
                          | Some cur \<Rightarrow> LWIP_ASSERT (cur = ram_end s \<or> mused (mbytes s) cur = 0)
                                         (Some (s\<lparr>lfree := cur\<rparr>))
                     else Some s) of
                 None \<Rightarrow> None
               | Some s \<Rightarrow>
                   LWIP_ASSERT (mem + SIZEOF_STRUCT_MEM + sz \<le> ram_end s)
                   (LWIP_ASSERT ((mem + SIZEOF_STRUCT_MEM) mod MEM_ALIGNMENT = 0)
                   (LWIP_ASSERT (mem mod MEM_ALIGNMENT = 0)
                     (Some (mem + SIZEOF_STRUCT_MEM, s))))))"

definition memzero :: "nat \<Rightarrow> nat \<Rightarrow> bytes \<Rightarrow> bytes" where
  "memzero a n m = (\<lambda>x. if a \<le> x \<and> x < a + n then 0 else m x)"

definition mem_calloc :: "nat \<Rightarrow> nat \<Rightarrow> mem_state \<Rightarrow> (nat \<times> mem_state) option" where
  "mem_calloc count sz s =
     (case mem_malloc (count * sz mod 2 ^ 32) s of
        None \<Rightarrow> None
      | Some (p, s) \<Rightarrow>
          Some (p, if p \<noteq> 0 then s\<lparr>mbytes := memzero p (count * sz mod 2 ^ 32) (mbytes s)\<rparr> else s))"

declare mem_scan.simps [code] lfree_scan.simps [code]

lemma LWIP_MEM_ALIGN_bounds:
  assumes "a + 4 \<le> 2 ^ 32"
  shows "a \<le> LWIP_MEM_ALIGN a" "LWIP_MEM_ALIGN a \<le> a + 3" "LWIP_MEM_ALIGN a mod 4 = 0"
proof -
  have "add32 a 3 = a + 3" using assms by (simp add: add32_exact)
  then have a: "LWIP_MEM_ALIGN a = a + 3 - (a + 3) mod 4" by (simp add: LWIP_MEM_ALIGN_def Let_def)
  show "a \<le> LWIP_MEM_ALIGN a" "LWIP_MEM_ALIGN a \<le> a + 3" "LWIP_MEM_ALIGN a mod 4 = 0"
    unfolding a by presburger+
qed

end
