(* ===== verification/Memp.thy ===== *)
theory Memp
  imports Mem
begin

section \<open>The lwIP memory pools: memp.c\<close>

text \<open>
  \<^verbatim>\<open>core/memp.c\<close> with the pools this configuration has (\<^verbatim>\<open>memp_std.h\<close>): no overflow and no sanity
  checks, all pools in one array. A free element holds the address of the next free one in its
  first word, so \<^verbatim>\<open>struct memp\<close> is that word of the byte memory; an element in use belongs to the
  client. The element sizes are \<^verbatim>\<open>sizeof\<close> of the protocol structs as the compiler lays them out:
  the parameter \<open>sizes\<close>, of which only alignment and bounds are used. \<open>None\<close> is a failed assertion.
\<close>

datatype memp_t = MEMP_RAW_PCB | MEMP_UDP_PCB | MEMP_TCP_PCB | MEMP_TCP_PCB_LISTEN | MEMP_TCP_SEG
  | MEMP_REASSDATA | MEMP_FRAG_PBUF | MEMP_SYS_TIMEOUT | MEMP_PBUF | MEMP_PBUF_POOL

text \<open>The order of the pools in the array, and \<^verbatim>\<open>memp_num\<close>.\<close>

definition memp_types :: "memp_t list" where
  "memp_types = [MEMP_RAW_PCB, MEMP_UDP_PCB, MEMP_TCP_PCB, MEMP_TCP_PCB_LISTEN, MEMP_TCP_SEG,
     MEMP_REASSDATA, MEMP_FRAG_PBUF, MEMP_SYS_TIMEOUT, MEMP_PBUF, MEMP_PBUF_POOL]"

fun memp_num :: "memp_t \<Rightarrow> nat" where
  "memp_num MEMP_RAW_PCB = 4"
| "memp_num MEMP_UDP_PCB = 4"
| "memp_num MEMP_TCP_PCB = 5"
| "memp_num MEMP_TCP_PCB_LISTEN = 8"
| "memp_num MEMP_TCP_SEG = 16"
| "memp_num MEMP_REASSDATA = 5"
| "memp_num MEMP_FRAG_PBUF = 15"
| "memp_num MEMP_SYS_TIMEOUT = 3"
| "memp_num MEMP_PBUF = 16"
| "memp_num MEMP_PBUF_POOL = 16"

record memp_state =
  memp_tab :: "memp_t \<Rightarrow> nat"
  pbytes :: bytes
  pstats :: "memp_t \<Rightarrow> stats_mem"

definition memp_stat :: "memp_t \<Rightarrow> (stats_mem \<Rightarrow> stats_mem) \<Rightarrow> memp_state \<Rightarrow> memp_state" where
  "memp_stat i f s = s\<lparr>pstats := (pstats s)(i := f (pstats s i))\<rparr>"

text \<open>The inner loop of \<^verbatim>\<open>memp_init\<close>: \<open>n\<close> elements are put on the free list of pool \<open>i\<close>.\<close>

fun carve :: "nat \<Rightarrow> memp_t \<Rightarrow> nat \<Rightarrow> nat \<times> memp_state \<Rightarrow> nat \<times> memp_state" where
  "carve 0 i sz st = st"
| "carve (Suc n) i sz (memp, s) =
     carve n i sz (memp + sz, s\<lparr>pbytes := write32 memp (memp_tab s i) (pbytes s),
                               memp_tab := (memp_tab s)(i := memp)\<rparr>)"

fun carve_all :: "(memp_t \<Rightarrow> nat) \<Rightarrow> memp_t list \<Rightarrow> nat \<times> memp_state \<Rightarrow> nat \<times> memp_state" where
  "carve_all sizes [] st = st"
| "carve_all sizes (i # is) (memp, s) =
     carve_all sizes is (carve (memp_num i) i (sizes i) (memp, s\<lparr>memp_tab := (memp_tab s)(i := 0)\<rparr>))"

definition memp_init :: "(memp_t \<Rightarrow> nat) \<Rightarrow> nat \<Rightarrow> memp_state \<Rightarrow> memp_state" where
  "memp_init sizes memp_memory s =
     (let s = s\<lparr>pstats := (\<lambda>i. (pstats s i)\<lparr>st_used := 0, st_max := 0, st_err := 0,
                                            st_avail := of_nat (memp_num i)\<rparr>)\<rparr>
      in snd (carve_all sizes memp_types (LWIP_MEM_ALIGN memp_memory, s)))"

definition memp_malloc :: "memp_t \<Rightarrow> memp_state \<Rightarrow> (nat \<times> memp_state) option" where
  "memp_malloc type s =
     (let memp = memp_tab s type
      in if memp \<noteq> 0
         then let s = s\<lparr>memp_tab := (memp_tab s)(type := read32 (pbytes s) memp)\<rparr>;
                  s = memp_stat type (STATS_INC_USED 1) s
              in LWIP_ASSERT (memp mod MEM_ALIGNMENT = 0) (Some (memp, s))
         else Some (0, memp_stat type (\<lambda>st. st\<lparr>st_err := st_err st + 1\<rparr>) s))"

definition memp_free :: "memp_t \<Rightarrow> nat \<Rightarrow> memp_state \<Rightarrow> memp_state option" where
  "memp_free type mem s =
     (if mem = 0 then Some s
      else LWIP_ASSERT (mem mod MEM_ALIGNMENT = 0)
       (let s = memp_stat type (\<lambda>st. st\<lparr>st_used := st_used st - 1\<rparr>) s;
            s = s\<lparr>pbytes := write32 mem (memp_tab s type) (pbytes s)\<rparr>
        in Some (s\<lparr>memp_tab := (memp_tab s)(type := mem)\<rparr>)))"

subsection \<open>Free lists\<close>

fun chain :: "bytes \<Rightarrow> nat \<Rightarrow> nat list \<Rightarrow> bool" where
  "chain m p [] \<longleftrightarrow> p = 0"
| "chain m p (a # as) \<longleftrightarrow> p = a \<and> a \<noteq> 0 \<and> chain m (read32 m a) as"

text \<open>\<open>spaced sz as\<close>: elements of \<open>sz\<close> bytes at these addresses are aligned and do not overlap.\<close>

definition spaced :: "nat \<Rightarrow> nat list \<Rightarrow> bool" where
  "spaced sz as \<longleftrightarrow> distinct as \<and> (\<forall>a\<in>set as. a mod 4 = 0 \<and> a \<noteq> 0 \<and> a < 2 ^ 32) \<and>
     (\<forall>a\<in>set as. \<forall>b\<in>set as. a \<noteq> b \<longrightarrow> a + sz \<le> b \<or> b + sz \<le> a)"

lemma spacedD:
  assumes "spaced sz as"
  shows "distinct as" "a \<in> set as \<Longrightarrow> a mod 4 = 0" "a \<in> set as \<Longrightarrow> a \<noteq> 0" "a \<in> set as \<Longrightarrow> a < 2 ^ 32"
    "a \<in> set as \<Longrightarrow> b \<in> set as \<Longrightarrow> a \<noteq> b \<Longrightarrow> a + sz \<le> b \<or> b + sz \<le> a"
  using assms unfolding spaced_def by blast+

lemma free_chain_cong: "(\<And>a x. a \<in> set as \<Longrightarrow> a \<le> x \<Longrightarrow> x < a + 4 \<Longrightarrow> m' x = m x) \<Longrightarrow> chain m p as \<Longrightarrow> chain m' p as"
proof (induction m p as rule: chain.induct)
  case (2 m p a as)
  have "read32 m' a = read32 m a" by (rule read32_cong) (use "2.prems"(1) in auto)
  then show ?case using 2 by auto
qed simp

lemma chain_Cons_push:
  assumes "chain m p as" "spaced sz (a # as)" "4 \<le> sz" "p < 2 ^ 32"
  shows "chain (write32 a p m) a (a # as)"
proof -
  have "chain (write32 a p m) p as"
  proof (rule free_chain_cong[OF _ assms(1)])
    fix b x assume bx: "b \<in> set as" "b \<le> x" "x < b + 4"
    then have "a \<noteq> b" using spacedD(1)[OF assms(2)] by auto
    then have "a + sz \<le> b \<or> b + sz \<le> a" using spacedD(5)[OF assms(2), of a b] bx(1) by simp
    then show "write32 a p m x = m x" using bx assms(3) by (auto intro!: write32_outside)
  qed
  moreover have "a \<noteq> 0" using spacedD(3)[OF assms(2), of a] by simp
  ultimately show ?thesis using assms(4) by (simp add: read32_write32_same)
qed

lemma chain_head: "chain m p as \<Longrightarrow> spaced sz as \<Longrightarrow> p < 2 ^ 32"
  by (cases as) (auto dest: spacedD(4))

lemma spaced_subset: "spaced sz as \<Longrightarrow> distinct bs \<Longrightarrow> set bs \<subseteq> set as \<Longrightarrow> spaced sz bs"
proof -
  assume a: "spaced sz as" "distinct bs" "set bs \<subseteq> set as"
  have "x \<in> set as" if "x \<in> set bs" for x using that a(3) by blast
  note m = this
  show ?thesis unfolding spaced_def
  proof (intro conjI ballI impI)
    fix x y assume "x \<in> set bs" "y \<in> set bs" "x \<noteq> y"
    then show "x + sz \<le> y \<or> y + sz \<le> x" using spacedD(5)[OF a(1)] m by metis
  qed (use a(2) spacedD(2-4)[OF a(1)] m in simp_all)
qed

subsection \<open>A pool is an allocator of elements of one size\<close>

definition memp_request :: "nat \<Rightarrow> memp_t \<Rightarrow> nat \<Rightarrow> memp_state \<Rightarrow> (nat \<times> memp_state) option" where
  "memp_request sz type n s = (if n \<le> sz then memp_malloc type s else Some (0, s))"

definition memp_put :: "nat \<Rightarrow> u8_t \<Rightarrow> memp_state \<Rightarrow> memp_state" where
  "memp_put x b s = s\<lparr>pbytes := (pbytes s)(x := b)\<rparr>"

definition memp_live :: "nat \<Rightarrow> memp_t \<Rightarrow> memp_state \<Rightarrow> holdings \<Rightarrow> bool" where
  "memp_live sz i s L \<longleftrightarrow> 4 \<le> sz \<and> (\<exists>fl. chain (pbytes s) (memp_tab s i) fl \<and>
     spaced sz (fl @ map fst L) \<and> (\<forall>(p, n)\<in>set L. n \<le> sz))"

lemma memp_live_separate: "memp_live sz i s L \<Longrightarrow> separate L"
proof -
  assume "memp_live sz i s L"
  then obtain fl where s: "spaced sz (fl @ map fst L)" and n: "\<And>p n. (p, n) \<in> set L \<Longrightarrow> n \<le> sz"
    by (fastforce simp: memp_live_def)
  have "p + n \<le> q \<or> q + k \<le> p" if pn: "(p, n) \<in> set L" and qk: "(q, k) \<in> set L" and ne: "p \<noteq> q" for p n q k
  proof -
    have "p \<in> fst ` set L" "q \<in> fst ` set L" using pn qk by force+
    then have "p + sz \<le> q \<or> q + sz \<le> p" using spacedD(5)[OF s, of p q] ne by simp
    then show ?thesis using n[OF pn] n[OF qk] by auto
  qed
  then show ?thesis using spacedD(1)[OF s] by (auto simp: separate_def)
qed

lemma memp_malloc_pop:
  assumes "chain (pbytes s) (memp_tab s i) fl" "spaced sz fl"
  shows "case fl of
      [] \<Rightarrow> \<exists>t. memp_malloc i s = Some (0, t) \<and> memp_tab t = memp_tab s \<and> pbytes t = pbytes s
    | a # as \<Rightarrow> \<exists>t. memp_malloc i s = Some (a, t) \<and> chain (pbytes t) (memp_tab t i) as \<and> pbytes t = pbytes s \<and>
        (\<forall>j. j \<noteq> i \<longrightarrow> memp_tab t j = memp_tab s j)"
  using assms
    spacedD(2)[OF assms(2), of "hd fl"]
  by (cases fl) (auto simp: memp_malloc_def memp_stat_def LWIP_ASSERT_def)

lemma memp_free_push:
  assumes "chain (pbytes s) (memp_tab s i) fl" "spaced sz (a # fl)" "4 \<le> sz"
  shows "\<exists>t. memp_free i a s = Some t \<and> chain (pbytes t) (memp_tab t i) (a # fl) \<and>
    (\<forall>x. x < a \<or> a + 4 \<le> x \<longrightarrow> pbytes t x = pbytes s x) \<and> (\<forall>j. j \<noteq> i \<longrightarrow> memp_tab t j = memp_tab s j)"
proof -
  have "spaced sz fl" by (rule spaced_subset[OF assms(2)]) (use spacedD(1)[OF assms(2)] in auto)
  then have "chain (write32 a (memp_tab s i) (pbytes s)) a (a # fl)"
    using chain_Cons_push[OF assms(1-3) chain_head[OF assms(1)]] by simp
  then show ?thesis
    using spacedD(2,3)[OF assms(2), of a] by (auto simp: memp_free_def memp_stat_def LWIP_ASSERT_def write32_outside)
qed

lemma memp_live_alloc:
  assumes "memp_live sz i s L"
  shows "\<exists>r t. memp_request sz i n s = Some (r, t) \<and> keeps L (pbytes s) (pbytes t) \<and>
    memp_live sz i t (if r = 0 then L else (r, n) # L)"
proof -
  obtain fl where c: "chain (pbytes s) (memp_tab s i) fl" and sp: "spaced sz (fl @ map fst L)"
    and n: "\<forall>(p, n)\<in>set L. n \<le> sz" and sz: "4 \<le> sz" using assms by (auto simp: memp_live_def)
  have spf: "spaced sz fl" by (rule spaced_subset[OF sp]) (use spacedD(1)[OF sp] in auto)
  show ?thesis
  proof (cases "n \<le> sz")
    case False
    then show ?thesis using assms by (simp add: memp_request_def keeps_def)
  next
    case True
    show ?thesis
    proof (cases fl)
      case Nil
      then obtain t where "memp_malloc i s = Some (0, t)" "memp_tab t = memp_tab s" "pbytes t = pbytes s"
        using memp_malloc_pop[OF c spf] by auto
      then show ?thesis using True assms by (simp add: memp_request_def keeps_def memp_live_def)
    next
      case (Cons a as)
      then obtain t where t: "memp_malloc i s = Some (a, t)" "chain (pbytes t) (memp_tab t i) as" "pbytes t = pbytes s"
        using memp_malloc_pop[OF c spf] by auto
      have "a \<noteq> 0" using spacedD(3)[OF spf, of a] Cons by simp
      moreover have "spaced sz (as @ map fst ((a, n) # L))"
        by (rule spaced_subset[OF sp]) (use spacedD(1)[OF sp] Cons in auto)
      ultimately show ?thesis using t True n sz
        by (auto simp: memp_request_def keeps_def memp_live_def intro!: exI[of _ as])
    qed
  qed
qed

lemma memp_live_free:
  assumes "memp_live sz i s L" "p \<in> fst ` set L"
  shows "\<exists>t. memp_free i p s = Some t \<and> memp_live sz i t (filter (\<lambda>b. fst b \<noteq> p) L) \<and>
    keeps (filter (\<lambda>b. fst b \<noteq> p) L) (pbytes s) (pbytes t)"
proof -
  obtain fl where c: "chain (pbytes s) (memp_tab s i) fl" and sp: "spaced sz (fl @ map fst L)"
    and n: "\<forall>(p, n)\<in>set L. n \<le> sz" and sz: "4 \<le> sz" using assms(1) by (auto simp: memp_live_def)
  let ?L = "filter (\<lambda>b. fst b \<noteq> p) L"
  have d: "distinct (fl @ map fst L)" by (rule spacedD(1)[OF sp])
  have "spaced sz (p # fl)" by (rule spaced_subset[OF sp]) (use d assms(2) in auto)
  from memp_free_push[OF c this sz] obtain t where t: "memp_free i p s = Some t" "chain (pbytes t) (memp_tab t i) (p # fl)"
      "\<And>x. x < p \<or> p + 4 \<le> x \<Longrightarrow> pbytes t x = pbytes s x" by blast
  have "spaced sz ((p # fl) @ map fst ?L)"
    by (rule spaced_subset[OF sp]) (use d assms(2) in \<open>auto simp: distinct_map_filter\<close>)
  then have "memp_live sz i t ?L" using t(2) n sz unfolding memp_live_def by (intro conjI exI[of _ "p # fl"]) auto
  moreover have "keeps ?L (pbytes s) (pbytes t)"
    unfolding keeps_def
  proof (intro allI impI)
    fix x assume "owns ?L x"
    then obtain q k where q: "(q, k) \<in> set L" "q \<noteq> p" "q \<le> x" "x < q + k" by (auto simp: owns_def)
    have "q \<in> fst ` set L" "k \<le> sz" using q(1) n by force+
    then have "p + sz \<le> q \<or> q + sz \<le> p" using spacedD(5)[OF sp, of p q] assms(2) q(2) by auto
    then show "pbytes t x = pbytes s x" using t(3)[of x] q \<open>k \<le> sz\<close> sz by auto
  qed
  ultimately show ?thesis using t(1) by blast
qed

lemma memp_live_put:
  assumes "memp_live sz i s L" "owns L x"
  shows "memp_live sz i (memp_put x b s) L \<and> pbytes (memp_put x b s) = (pbytes s)(x := b)"
proof -
  obtain fl where c: "chain (pbytes s) (memp_tab s i) fl" and sp: "spaced sz (fl @ map fst L)"
    and n: "\<forall>(p, n)\<in>set L. n \<le> sz" and sz: "4 \<le> sz" using assms(1) by (auto simp: memp_live_def)
  obtain q k where q: "(q, k) \<in> set L" "q \<le> x" "x < q + k" using assms(2) by (auto simp: owns_def)
  have k: "q \<in> fst ` set L" "k \<le> sz" using q(1) n by force+
  have "chain ((pbytes s)(x := b)) (memp_tab s i) fl"
  proof (rule free_chain_cong[OF _ c])
    fix a y assume a: "a \<in> set fl" "a \<le> y" "y < a + 4"
    then have "a \<noteq> q" using spacedD(1)[OF sp] k(1) by auto
    then have "a + sz \<le> q \<or> q + sz \<le> a" using spacedD(5)[OF sp, of a q] a(1) k(1) by simp
    then show "((pbytes s)(x := b)) y = pbytes s y" using a q k(2) sz by auto
  qed
  then show ?thesis using sp n sz by (auto simp: memp_live_def memp_put_def)
qed

interpretation mp: allocator "memp_request sz i" "memp_free i" memp_put pbytes "memp_live sz i" for sz i
  by unfold_locales
    (erule memp_live_separate, erule memp_live_alloc, erule (1) memp_live_free, erule (1) memp_live_put)

subsection \<open>Initialisation\<close>

definition elems :: "nat \<Rightarrow> nat \<Rightarrow> nat \<Rightarrow> nat list" where
  "elems a sz n = rev (map (\<lambda>j. a + j * sz) [0..<n])"

lemma elems_Suc: "elems a sz (Suc n) = elems (a + sz) sz n @ [a]"
proof -
  have "map (\<lambda>j. a + j * sz) [0..<Suc n] = a # map (\<lambda>j. a + sz + j * sz) [0..<n]"
    by (simp add: upt_conv_Cons map_Suc_upt[symmetric] algebra_simps del: upt_Suc)
  then show ?thesis by (simp add: elems_def del: upt_Suc)
qed

lemma in_elems: "x \<in> set (elems a sz n) \<longleftrightarrow> (\<exists>j<n. x = a + j * sz)"
  by (auto simp: elems_def)

lemma elems_gap:
  assumes "i < (j :: nat)" shows "a + i * sz + sz \<le> a + j * sz"
proof -
  have "Suc i * sz \<le> j * sz" using assms by (intro mult_le_mono1) simp
  then show ?thesis by simp
qed

lemma spaced_elems:
  assumes "a mod 4 = 0" "sz mod 4 = 0" "0 < sz" "0 < a" "a + n * sz \<le> 2 ^ 32"
  shows "spaced sz (elems a sz n)"
proof -
  have "distinct (elems a sz n)" using assms(3) by (simp add: elems_def distinct_map inj_on_def)
  moreover have "x mod 4 = 0 \<and> x \<noteq> 0 \<and> x < 2 ^ 32" if "x \<in> set (elems a sz n)" for x
  proof -
    obtain j where j: "j < n" "x = a + j * sz" using \<open>x \<in> set (elems a sz n)\<close> unfolding in_elems by blast
    then have "x + sz \<le> 2 ^ 32" using elems_gap[of j n a sz] assms(5) by simp
    moreover have "x mod 4 = 0" using assms(1,2) j(2) by (auto simp: mod_eq_0_iff_dvd)
    ultimately show ?thesis using assms(3,4) j by simp
  qed
  moreover have "x + sz \<le> y \<or> y + sz \<le> x" if x: "x \<in> set (elems a sz n)" and y: "y \<in> set (elems a sz n)" and ne: "x \<noteq> y" for x y
  proof -
    obtain i j where "x = a + i * sz" "y = a + j * sz" using x y by (auto simp: in_elems)
    then show ?thesis using elems_gap[of i j a sz] elems_gap[of j i a sz] ne by (cases i j rule: linorder_cases) auto
  qed
  ultimately show ?thesis unfolding spaced_def by blast
qed

lemma carve_spec:
  assumes "chain (pbytes s) (memp_tab s i) fl" "spaced sz (elems memp sz n @ fl)" "4 \<le> sz"
    "\<forall>a\<in>set fl. a < memp"
  shows "case carve n i sz (memp, s) of (memp', t) \<Rightarrow> memp' = memp + n * sz \<and>
    chain (pbytes t) (memp_tab t i) (elems memp sz n @ fl) \<and>
    (\<forall>x. x < memp \<or> memp + n * sz \<le> x \<longrightarrow> pbytes t x = pbytes s x) \<and> (\<forall>j. j \<noteq> i \<longrightarrow> memp_tab t j = memp_tab s j) \<and>
    pstats t = pstats s"
  using assms
proof (induction n arbitrary: memp s fl)
  case 0
  then show ?case by (simp add: elems_def)
next
  case (Suc n)
  define s1 where "s1 = s\<lparr>pbytes := write32 memp (memp_tab s i) (pbytes s), memp_tab := (memp_tab s)(i := memp)\<rparr>"
  have e: "elems memp sz (Suc n) @ fl = elems (memp + sz) sz n @ (memp # fl)" by (simp add: elems_Suc)
  have sp: "spaced sz (memp # fl)" by (rule spaced_subset[OF Suc.prems(2)]) (use spacedD(1)[OF Suc.prems(2)] e in auto)
  have spf: "spaced sz fl" by (rule spaced_subset[OF sp]) (use spacedD(1)[OF sp] in auto)
  have ch: "chain (pbytes s1) (memp_tab s1 i) (memp # fl)"
    using chain_Cons_push[OF Suc.prems(1) sp Suc.prems(3) chain_head[OF Suc.prems(1) spf]] by (simp add: s1_def)
  have lt: "\<forall>a\<in>set (memp # fl). a < memp + sz" using Suc.prems(3,4) by auto
  have "case carve n i sz (memp + sz, s1) of (memp', t) \<Rightarrow> memp' = memp + sz + n * sz \<and>
    chain (pbytes t) (memp_tab t i) (elems (memp + sz) sz n @ (memp # fl)) \<and>
    (\<forall>x. x < memp + sz \<or> memp + sz + n * sz \<le> x \<longrightarrow> pbytes t x = pbytes s1 x) \<and>
    (\<forall>j. j \<noteq> i \<longrightarrow> memp_tab t j = memp_tab s1 j) \<and> pstats t = pstats s1"
    by (rule Suc.IH[OF ch Suc.prems(2)[unfolded e] Suc.prems(3) lt])
  moreover have "pbytes s1 x = pbytes s x" if "x < memp \<or> memp + Suc n * sz \<le> x" for x
    using that Suc.prems(3) by (auto simp: s1_def write32_outside)
  ultimately show ?case using Suc.prems(3) unfolding e
    by (simp add: s1_def[symmetric] split: prod.split) (auto simp: s1_def add.assoc)
qed

definition pool_bytes :: "(memp_t \<Rightarrow> nat) \<Rightarrow> memp_t list \<Rightarrow> nat" where
  "pool_bytes sizes ts = sum_list (map (\<lambda>i. memp_num i * sizes i) ts)"

definition sized :: "(memp_t \<Rightarrow> nat) \<Rightarrow> bool" where
  "sized sizes \<longleftrightarrow> (\<forall>i. 4 \<le> sizes i \<and> sizes i mod 4 = 0)"

lemma carve_all_spec:
  assumes "distinct ts" "0 < memp" "memp mod 4 = 0" "sized sizes" "memp + pool_bytes sizes ts \<le> 2 ^ 32"
  shows "case carve_all sizes ts (memp, s) of (memp', t) \<Rightarrow> memp' = memp + pool_bytes sizes ts \<and>
    (\<forall>i\<in>set ts. \<exists>a. memp \<le> a \<and> a + memp_num i * sizes i \<le> memp' \<and>
       chain (pbytes t) (memp_tab t i) (elems a (sizes i) (memp_num i)) \<and> spaced (sizes i) (elems a (sizes i) (memp_num i))) \<and>
    (\<forall>x<memp. pbytes t x = pbytes s x) \<and> (\<forall>i. i \<notin> set ts \<longrightarrow> memp_tab t i = memp_tab s i)"
  using assms
proof (induction ts arbitrary: memp s)
  case Nil
  then show ?case by (simp add: pool_bytes_def)
next
  case (Cons i ts)
  have z: "4 \<le> sizes i" "sizes i mod 4 = 0" using Cons.prems(4) by (simp_all add: sized_def)
  let ?n = "memp_num i" and ?z = "sizes i"
  have pb: "pool_bytes sizes (i # ts) = ?n * ?z + pool_bytes sizes ts" by (simp add: pool_bytes_def)
  obtain m1 s1 where c: "carve ?n i ?z (memp, s\<lparr>memp_tab := (memp_tab s)(i := 0)\<rparr>) = (m1, s1)" by fastforce
  have sp: "spaced ?z (elems memp ?z ?n)"
    by (rule spaced_elems) (use Cons.prems z pb in auto)
  have k: "m1 = memp + ?n * ?z" "chain (pbytes s1) (memp_tab s1 i) (elems memp ?z ?n)"
      "\<And>x. x < memp \<Longrightarrow> pbytes s1 x = pbytes s x" "\<And>j. j \<noteq> i \<Longrightarrow> memp_tab s1 j = memp_tab s j"
    using carve_spec[of "s\<lparr>memp_tab := (memp_tab s)(i := 0)\<rparr>" i "[]" ?z memp ?n] sp z c by auto
  have m4: "m1 mod 4 = 0" using Cons.prems(3) z(2) k(1) by (auto simp: mod_eq_0_iff_dvd)
  obtain m2 t where ca: "carve_all sizes ts (m1, s1) = (m2, t)" by fastforce
  have IH: "m2 = m1 + pool_bytes sizes ts"
      "\<And>j. j \<in> set ts \<Longrightarrow> \<exists>a. m1 \<le> a \<and> a + memp_num j * sizes j \<le> m2 \<and>
       chain (pbytes t) (memp_tab t j) (elems a (sizes j) (memp_num j)) \<and> spaced (sizes j) (elems a (sizes j) (memp_num j))"
      "\<And>x. x < m1 \<Longrightarrow> pbytes t x = pbytes s1 x" "\<And>j. j \<notin> set ts \<Longrightarrow> memp_tab t j = memp_tab s1 j"
    using Cons.IH[of m1 s1] Cons.prems m4 k(1) ca pb by auto
  have "chain (pbytes t) (memp_tab s1 i) (elems memp ?z ?n)"
  proof (rule free_chain_cong[OF _ k(2)])
    fix a x assume a: "a \<in> set (elems memp ?z ?n)" "a \<le> x" "x < a + 4"
    then obtain j where "j < ?n" "a = memp + j * ?z" unfolding in_elems by blast
    then have "a + ?z \<le> m1" using elems_gap[of j ?n memp ?z] k(1) by simp
    then show "pbytes t x = pbytes s1 x" using IH(3)[of x] a z by simp
  qed
  then have own: "chain (pbytes t) (memp_tab t i) (elems memp ?z ?n)" using IH(4)[of i] Cons.prems(1) by simp
  have all: "\<exists>a. memp \<le> a \<and> a + memp_num j * sizes j \<le> m2 \<and> chain (pbytes t) (memp_tab t j) (elems a (sizes j) (memp_num j)) \<and>
      spaced (sizes j) (elems a (sizes j) (memp_num j))" if jm: "j \<in> set (i # ts)" for j
  proof (cases "j = i")
    case True
    then show ?thesis using own sp k(1) IH(1) by (intro exI[of _ memp]) simp
  next
    case False
    then obtain a where "m1 \<le> a" "a + memp_num j * sizes j \<le> m2" "chain (pbytes t) (memp_tab t j) (elems a (sizes j) (memp_num j))"
        "spaced (sizes j) (elems a (sizes j) (memp_num j))" using IH(2)[of j] jm by auto
    then show ?thesis using k(1) by (intro exI[of _ a]) simp
  qed
  have r: "carve_all sizes (i # ts) (memp, s) = (m2, t)" using c ca by simp
  show ?case unfolding r prod.case
  proof (intro conjI allI impI ballI)
    show "m2 = memp + pool_bytes sizes (i # ts)" using k(1) IH(1) pb by simp
    show "pbytes t x = pbytes s x" if "x < memp" for x using that k(1,3) IH(3)[of x] by simp
    show "memp_tab t j = memp_tab s j" if "j \<notin> set (i # ts)" for j using that k(4)[of j] IH(4)[of j] by simp
  qed (rule all)
qed

lemma memp_types_all: "distinct memp_types" "i \<in> set memp_types"
  by (simp_all add: memp_types_def) (cases i; simp)

lemma length_elems [simp]: "length (elems a sz n) = n" by (simp add: elems_def)

lemma memp_init_pool:
  assumes "sized sizes" "0 < base" "base + 4 + pool_bytes sizes memp_types \<le> 2 ^ 32"
  shows "\<exists>fl. chain (pbytes (memp_init sizes base s)) (memp_tab (memp_init sizes base s) i) fl \<and>
    spaced (sizes i) fl \<and> length fl = memp_num i \<and>
    (\<forall>a\<in>set fl. base \<le> a \<and> a + sizes i \<le> base + 3 + pool_bytes sizes memp_types)"
proof -
  have al: "base \<le> LWIP_MEM_ALIGN base" "LWIP_MEM_ALIGN base \<le> base + 3" "LWIP_MEM_ALIGN base mod 4 = 0"
    using LWIP_MEM_ALIGN_bounds[of base] assms(3) by simp_all
  let ?s = "s\<lparr>pstats := (\<lambda>i. (pstats s i)\<lparr>st_used := 0, st_max := 0, st_err := 0, st_avail := of_nat (memp_num i)\<rparr>)\<rparr>"
  obtain m t where c: "carve_all sizes memp_types (LWIP_MEM_ALIGN base, ?s) = (m, t)" by fastforce
  then have t: "memp_init sizes base s = t" by (simp add: memp_init_def Let_def)
  have "case carve_all sizes memp_types (LWIP_MEM_ALIGN base, ?s) of (memp', t) \<Rightarrow>
      memp' = LWIP_MEM_ALIGN base + pool_bytes sizes memp_types \<and>
      (\<forall>i\<in>set memp_types. \<exists>a. LWIP_MEM_ALIGN base \<le> a \<and> a + memp_num i * sizes i \<le> memp' \<and>
       chain (pbytes t) (memp_tab t i) (elems a (sizes i) (memp_num i)) \<and> spaced (sizes i) (elems a (sizes i) (memp_num i))) \<and>
      (\<forall>x<LWIP_MEM_ALIGN base. pbytes t x = pbytes ?s x) \<and> (\<forall>i. i \<notin> set memp_types \<longrightarrow> memp_tab t i = memp_tab ?s i)"
    by (rule carve_all_spec) (use memp_types_all(1) al assms in auto)
  then obtain a where a: "LWIP_MEM_ALIGN base \<le> a" "a + memp_num i * sizes i \<le> LWIP_MEM_ALIGN base + pool_bytes sizes memp_types"
      "chain (pbytes t) (memp_tab t i) (elems a (sizes i) (memp_num i))" "spaced (sizes i) (elems a (sizes i) (memp_num i))"
    using memp_types_all(2)[of i] unfolding c by auto
  have "base \<le> x \<and> x + sizes i \<le> base + 3 + pool_bytes sizes memp_types" if "x \<in> set (elems a (sizes i) (memp_num i))" for x
  proof -
    from that obtain j where j: "j < memp_num i" "x = a + j * sizes i" unfolding in_elems by blast
    then show ?thesis using elems_gap[OF j(1), of a "sizes i"] a(1,2) al by simp
  qed
  then show ?thesis using a t by (intro exI[of _ "elems a (sizes i) (memp_num i)"]) simp
qed

subsection \<open>Property\<close>

text \<open>After \<^verbatim>\<open>memp_init\<close> every pool has its \<^verbatim>\<open>memp_num\<close> free elements, aligned, disjoint and inside
  the pool array, and a client of the pool that frees what it got and writes only into elements it
  holds never gets an element twice and reads back what it wrote, for every sequence of requests.\<close>

theorem memp_client_reads_back:
  assumes "sized sizes" "0 < memp_memory" "memp_memory + 4 + pool_bytes sizes memp_types \<le> 2 ^ 32"
    and "t = memp_init sizes memp_memory s"
  shows "(\<exists>fl. chain (pbytes t) (memp_tab t i) fl \<and> spaced (sizes i) fl \<and> length fl = memp_num i \<and>
      (\<forall>a\<in>set fl. memp_memory \<le> a \<and> a + sizes i \<le> memp_memory + 3 + pool_bytes sizes memp_types)) \<and>
    (\<exists>u L c. play (memp_request (sizes i) i) (memp_free i) memp_put rs t [] Map.empty = Some (u, L, c) \<and> separate L \<and>
      (\<forall>x b. c x = Some b \<longrightarrow> owns L x \<and> pbytes u x = b))"
proof -
  obtain fl where fl: "chain (pbytes t) (memp_tab t i) fl" "spaced (sizes i) fl" "length fl = memp_num i"
      "\<forall>a\<in>set fl. memp_memory \<le> a \<and> a + sizes i \<le> memp_memory + 3 + pool_bytes sizes memp_types"
    using memp_init_pool[OF assms(1-3), of s i] assms(4) by blast
  then have "memp_live (sizes i) i t []" using assms(1) by (auto simp: memp_live_def sized_def)
  from mp.play_reads_back[OF this, of Map.empty rs] have
    "\<exists>u L c. play (memp_request (sizes i) i) (memp_free i) memp_put rs t [] Map.empty = Some (u, L, c) \<and> separate L \<and>
      (\<forall>x b. c x = Some b \<longrightarrow> owns L x \<and> pbytes u x = b)" by auto
  then show ?thesis using fl by blast
qed

theorem memp_client_reads_back_witness:
  "\<exists>u L c. play (memp_request 64 MEMP_PBUF) (memp_free MEMP_PBUF) memp_put [Alloc 16, Alloc 16, Alloc 16]
     (memp_init (\<lambda>_. 64) 0x30000001 \<lparr>memp_tab = (\<lambda>_. 7), pbytes = (\<lambda>_. 1),
        pstats = (\<lambda>_. \<lparr>st_avail = 0, st_used = 0, st_max = 0, st_err = 0, st_illegal = 0\<rparr>)\<rparr>) [] Map.empty = Some (u, L, c) \<and> separate L"
  using memp_client_reads_back[of "\<lambda>_. 64" "0x30000001" _ "\<lparr>memp_tab = (\<lambda>_. 7), pbytes = (\<lambda>_. 1),
        pstats = (\<lambda>_. \<lparr>st_avail = 0, st_used = 0, st_max = 0, st_err = 0, st_illegal = 0\<rparr>)\<rparr>" MEMP_PBUF "[Alloc 16, Alloc 16, Alloc 16]",
    OF _ _ _ refl]
  by (auto simp: sized_def pool_bytes_def memp_types_def)

end
