(* ===== verification/Pbuf.thy ===== *)
theory Pbuf
  imports Mem Memp Inet
begin

section \<open>Packet buffers: pbuf.c\<close>

text \<open>
  \<^verbatim>\<open>core/pbuf.c\<close>: reference counted buffers linked to chains. A \<^verbatim>\<open>struct pbuf\<close> is a record found by
  its address (0 is NULL); the payloads lie in one byte memory; the structs come from the heap of
  \<^verbatim>\<open>mem.c\<close> and the pools of \<^verbatim>\<open>memp.c\<close>, whose states are fields of the state here. Lengths are 16-bit
  words and wrap as in C. Loops that follow \<^verbatim>\<open>next\<close> pointers are partial: \<open>None\<close> is a call that does
  not return, on a cyclic chain or at a failed \<^verbatim>\<open>LWIP_ASSERT\<close>. \<^verbatim>\<open>LWIP_ERROR\<close> of this port prints and
  runs its handler. \<^verbatim>\<open>custom\<close> stands for the \<^verbatim>\<open>custom_free_function\<close> pointers of custom buffers.
\<close>

lemma LWIP_ASSERT_mono [partial_function_mono]:
  "mono_option F \<Longrightarrow> mono_option (\<lambda>f. LWIP_ASSERT c (F f))"
  by (cases c) (simp_all add: LWIP_ASSERT_def option.const_mono)

subsection \<open>Data\<close>

datatype pbuf_layer = PBUF_TRANSPORT | PBUF_IP | PBUF_LINK | PBUF_RAW

datatype pbuf_type = PBUF_RAM | PBUF_ROM | PBUF_REF | PBUF_POOL

record pbuf =
  pb_next :: nat
  pb_payload :: nat
  pb_tot_len :: u16_t
  pb_len :: u16_t
  pb_type :: pbuf_type
  pb_flags :: u8_t
  pb_ref :: u16_t

record pbuf_state =
  pbufs :: "nat \<Rightarrow> pbuf"
  pdata :: bytes
  pheap :: mem_state
  ppools :: memp_state
  pbuf_free_ooseq_pending :: u8_t

type_synonym custom_free = "nat \<Rightarrow> (pbuf_state \<Rightarrow> pbuf_state option) option"

type_synonym err_t = int
abbreviation (input) ERR_OK :: err_t where "ERR_OK \<equiv> 0"
abbreviation (input) ERR_VAL :: err_t where "ERR_VAL \<equiv> -6"
abbreviation (input) ERR_ARG :: err_t where "ERR_ARG \<equiv> -14"

definition PBUF_LINK_HLEN :: nat where "PBUF_LINK_HLEN = 14"
definition PBUF_IP_HLEN :: nat where "PBUF_IP_HLEN = 20"
definition PBUF_TRANSPORT_HLEN :: nat where "PBUF_TRANSPORT_HLEN = 20"
definition PBUF_FLAG_IS_CUSTOM :: u8_t where "PBUF_FLAG_IS_CUSTOM = 0x02"

text \<open>\<^verbatim>\<open>struct pbuf\<close> has two pointers, two halfwords, two bytes and a halfword: 16 bytes. The pool
  buffer size is that of \<^verbatim>\<open>opt.h\<close> for \<^verbatim>\<open>TCP_MSS\<close> 1000.\<close>

definition SIZEOF_STRUCT_PBUF :: nat where "SIZEOF_STRUCT_PBUF = LWIP_MEM_ALIGN_SIZE 16"
definition PBUF_POOL_BUFSIZE :: nat where "PBUF_POOL_BUFSIZE = LWIP_MEM_ALIGN_SIZE (1000 + 40 + PBUF_LINK_HLEN)"
definition PBUF_POOL_BUFSIZE_ALIGNED :: nat where "PBUF_POOL_BUFSIZE_ALIGNED = LWIP_MEM_ALIGN_SIZE PBUF_POOL_BUFSIZE"

lemma pbuf_sizes [simp]:
  "SIZEOF_STRUCT_PBUF = 16" "PBUF_POOL_BUFSIZE_ALIGNED = 1056"
  by (simp_all add: SIZEOF_STRUCT_PBUF_def PBUF_POOL_BUFSIZE_def PBUF_POOL_BUFSIZE_ALIGNED_def PBUF_LINK_HLEN_def
      LWIP_MEM_ALIGN_SIZE_def add32_def)

definition upd_pbuf :: "nat \<Rightarrow> (pbuf \<Rightarrow> pbuf) \<Rightarrow> pbuf_state \<Rightarrow> pbuf_state" where
  "upd_pbuf p f s = s\<lparr>pbufs := (pbufs s)(p := f (pbufs s p))\<rparr>"

definition memcpy :: "nat \<Rightarrow> nat \<Rightarrow> nat \<Rightarrow> bytes \<Rightarrow> bytes" where
  "memcpy dst src n m = (\<lambda>x. if dst \<le> x \<and> x < dst + n then m (src + (x - dst)) else m x)"

fun layer_offset :: "pbuf_layer \<Rightarrow> nat" where
  "layer_offset PBUF_TRANSPORT = PBUF_LINK_HLEN + PBUF_IP_HLEN + PBUF_TRANSPORT_HLEN"
| "layer_offset PBUF_IP = PBUF_LINK_HLEN + PBUF_IP_HLEN"
| "layer_offset PBUF_LINK = PBUF_LINK_HLEN"
| "layer_offset PBUF_RAW = 0"

subsection \<open>Allocation and release\<close>

definition pbuf_pool_is_empty :: "pbuf_state \<Rightarrow> pbuf_state" where
  "pbuf_pool_is_empty s = s\<lparr>pbuf_free_ooseq_pending := 1\<rparr>"

text \<open>\<^verbatim>\<open>memp_free\<close> or \<^verbatim>\<open>mem_free\<close>, as the type of the buffer says.\<close>

definition pbuf_dealloc :: "custom_free \<Rightarrow> nat \<Rightarrow> pbuf_state \<Rightarrow> pbuf_state option" where
  "pbuf_dealloc custom p s =
     (if pb_flags (pbufs s p) AND PBUF_FLAG_IS_CUSTOM \<noteq> 0
      then case custom p of None \<Rightarrow> None | Some f \<Rightarrow> f s
      else case pb_type (pbufs s p) of
          PBUF_POOL \<Rightarrow> map_option (\<lambda>m. s\<lparr>ppools := m\<rparr>) (memp_free MEMP_PBUF_POOL p (ppools s))
        | PBUF_RAM \<Rightarrow> map_option (\<lambda>h. s\<lparr>pheap := h\<rparr>) (mem_free p (pheap s))
        | _ \<Rightarrow> map_option (\<lambda>m. s\<lparr>ppools := m\<rparr>) (memp_free MEMP_PBUF p (ppools s)))"

partial_function (option) pbuf_free_loop :: "custom_free \<Rightarrow> nat \<Rightarrow> u8_t \<Rightarrow> pbuf_state \<Rightarrow> (u8_t \<times> pbuf_state) option" where
  "pbuf_free_loop custom p count s =
     (if p = 0 then Some (count, s)
      else if pb_ref (pbufs s p) = 0 then None
      else let s1 = upd_pbuf p (\<lambda>b. b\<lparr>pb_ref := pb_ref b - 1\<rparr>) s
           in if pb_ref (pbufs s1 p) = 0
              then Option.bind (pbuf_dealloc custom p s1) (pbuf_free_loop custom (pb_next (pbufs s1 p)) (count + 1))
              else Some (count, s1))"

definition pbuf_free :: "custom_free \<Rightarrow> nat \<Rightarrow> pbuf_state \<Rightarrow> (u8_t \<times> pbuf_state) option" where
  "pbuf_free custom p s = (if p = 0 then None else pbuf_free_loop custom p 0 s)"

text \<open>The loop of \<^verbatim>\<open>pbuf_alloc\<close> for the tail of a pool chain: \<open>p\<close> is its head and \<open>r\<close> its last buffer so
  far. The result is the head, or 0 after the chain was released.\<close>

function pool_tail :: "custom_free \<Rightarrow> nat \<Rightarrow> nat \<Rightarrow> int \<Rightarrow> pbuf_state \<Rightarrow> (nat \<times> pbuf_state) option" where
  "pool_tail custom p r rem_len s =
     (if rem_len > 0
      then case memp_malloc MEMP_PBUF_POOL (ppools s) of
          None \<Rightarrow> None
        | Some (q, m) \<Rightarrow>
           (let s = s\<lparr>ppools := m\<rparr>
            in if q = 0
               then map_option (\<lambda>(c, s). (0, s)) (pbuf_free custom p (pbuf_pool_is_empty s))
               else if \<not> rem_len < 0xffff then None
               else let len = min (nat rem_len) PBUF_POOL_BUFSIZE_ALIGNED;
                        s = upd_pbuf q (\<lambda>b. b\<lparr>pb_type := PBUF_POOL, pb_flags := 0, pb_next := 0,
                               pb_tot_len := of_int rem_len, pb_len := of_nat len,
                               pb_payload := q + SIZEOF_STRUCT_PBUF, pb_ref := 1\<rparr>) s;
                        s = upd_pbuf r (\<lambda>b. b\<lparr>pb_next := q\<rparr>) s
                    in LWIP_ASSERT ((q + SIZEOF_STRUCT_PBUF) mod MEM_ALIGNMENT = 0)
                       (LWIP_ASSERT (pb_payload (pbufs s p) + unat (pb_len (pbufs s p)) \<le>
                                     p + SIZEOF_STRUCT_PBUF + PBUF_POOL_BUFSIZE_ALIGNED)
                         (pool_tail custom p q (rem_len - int len) s)))
      else Some (p, s))"
  by pat_completeness auto
termination by (relation "measure (\<lambda>(custom, p, r, rem_len, s). nat rem_len)") auto

definition pbuf_alloc :: "custom_free \<Rightarrow> pbuf_layer \<Rightarrow> u16_t \<Rightarrow> pbuf_type \<Rightarrow> pbuf_state \<Rightarrow> (nat \<times> pbuf_state) option" where
  "pbuf_alloc custom layer plen type s =
     (let offset = layer_offset layer;
          finish = (\<lambda>p s. (p, if p = 0 then s else upd_pbuf p (\<lambda>b. b\<lparr>pb_ref := 1, pb_flags := 0\<rparr>) s))
      in case type of
          PBUF_POOL \<Rightarrow>
           (case memp_malloc MEMP_PBUF_POOL (ppools s) of
              None \<Rightarrow> None
            | Some (p, m) \<Rightarrow>
               (let s = s\<lparr>ppools := m\<rparr>
                in if p = 0 then Some (0, pbuf_pool_is_empty s)
                   else let payload = LWIP_MEM_ALIGN (p + (SIZEOF_STRUCT_PBUF + offset));
                            len = min (unat plen) (PBUF_POOL_BUFSIZE_ALIGNED - LWIP_MEM_ALIGN_SIZE offset);
                            s = upd_pbuf p (\<lambda>b. b\<lparr>pb_type := type, pb_next := 0, pb_payload := payload,
                                   pb_tot_len := plen, pb_len := of_nat len, pb_ref := 1\<rparr>) s
                        in LWIP_ASSERT (payload mod MEM_ALIGNMENT = 0)
                           (LWIP_ASSERT (payload + len \<le> p + SIZEOF_STRUCT_PBUF + PBUF_POOL_BUFSIZE_ALIGNED)
                           (LWIP_ASSERT (PBUF_POOL_BUFSIZE_ALIGNED - LWIP_MEM_ALIGN_SIZE offset > 0)
                             (map_option (\<lambda>(p, s). finish p s) (pool_tail custom p p (int (unat plen) - int len) s))))))
        | PBUF_RAM \<Rightarrow>
           (case mem_malloc (LWIP_MEM_ALIGN_SIZE (SIZEOF_STRUCT_PBUF + offset) + LWIP_MEM_ALIGN_SIZE (unat plen)) (pheap s) of
              None \<Rightarrow> None
            | Some (p, h) \<Rightarrow>
               (let s = s\<lparr>pheap := h\<rparr>
                in if p = 0 then Some (0, s)
                   else let payload = LWIP_MEM_ALIGN (p + SIZEOF_STRUCT_PBUF + offset);
                            s = upd_pbuf p (\<lambda>b. b\<lparr>pb_payload := payload, pb_tot_len := plen, pb_len := plen,
                                   pb_next := 0, pb_type := type\<rparr>) s
                        in LWIP_ASSERT (payload mod MEM_ALIGNMENT = 0) (Some (finish p s))))
        | _ \<Rightarrow>
           (case memp_malloc MEMP_PBUF (ppools s) of
              None \<Rightarrow> None
            | Some (p, m) \<Rightarrow>
               (let s = s\<lparr>ppools := m\<rparr>
                in if p = 0 then Some (0, s)
                   else Some (finish p (upd_pbuf p (\<lambda>b. b\<lparr>pb_payload := 0, pb_tot_len := plen, pb_len := plen,
                                pb_next := 0, pb_type := type\<rparr>) s)))))"

text \<open>\<open>p\<close> is the address of the \<^verbatim>\<open>struct pbuf_custom\<close>, which starts with the buffer.\<close>

definition pbuf_alloced_custom ::
    "pbuf_layer \<Rightarrow> u16_t \<Rightarrow> pbuf_type \<Rightarrow> nat \<Rightarrow> nat \<Rightarrow> u16_t \<Rightarrow> pbuf_state \<Rightarrow> nat \<times> pbuf_state" where
  "pbuf_alloced_custom l plen type p payload_mem payload_mem_len s =
     (let offset = layer_offset l
      in if LWIP_MEM_ALIGN_SIZE offset + unat plen > unat payload_mem_len then (0, s)
         else (p, upd_pbuf p (\<lambda>b. b\<lparr>pb_next := 0,
                pb_payload := (if payload_mem \<noteq> 0 then payload_mem + LWIP_MEM_ALIGN_SIZE offset else 0),
                pb_flags := PBUF_FLAG_IS_CUSTOM, pb_len := plen, pb_tot_len := plen,
                pb_type := type, pb_ref := 1\<rparr>) s))"

text \<open>\<^verbatim>\<open>header_size_increment\<close> is a 16-bit signed number.\<close>

definition pbuf_header :: "nat \<Rightarrow> int \<Rightarrow> pbuf_state \<Rightarrow> (u8_t \<times> pbuf_state) option" where
  "pbuf_header p inc s =
     LWIP_ASSERT (p \<noteq> 0)
      (if inc = 0 \<or> p = 0 then Some (0, s)
       else let b = pbufs s p; mag = nat \<bar>inc\<bar>
            in if inc < 0 \<and> \<not> mag \<le> unat (pb_len b) then Some (1, s)
               else let payload = nat ((int (pb_payload b) - inc) mod 2 ^ 32);
                        moved = (\<lambda>b. b\<lparr>pb_payload := payload, pb_len := pb_len b + of_int inc,
                                       pb_tot_len := pb_tot_len b + of_int inc\<rparr>)
                    in case pb_type b of
                         PBUF_RAM \<Rightarrow> if payload < p + SIZEOF_STRUCT_PBUF then Some (1, s) else Some (0, upd_pbuf p moved s)
                       | PBUF_POOL \<Rightarrow> if payload < p + SIZEOF_STRUCT_PBUF then Some (1, s) else Some (0, upd_pbuf p moved s)
                       | _ \<Rightarrow> if inc < 0 \<and> mag \<le> unat (pb_len b) then Some (0, upd_pbuf p moved s) else Some (1, s))"

text \<open>The loop of \<^verbatim>\<open>pbuf_realloc\<close>: the new last buffer and the length left for it.\<close>

partial_function (option) realloc_skip :: "u16_t \<Rightarrow> nat \<Rightarrow> u16_t \<Rightarrow> pbuf_state \<Rightarrow> (nat \<times> u16_t \<times> pbuf_state) option" where
  "realloc_skip grow q rem_len s =
     (if rem_len > pb_len (pbufs s q)
      then let rem_len = rem_len - pb_len (pbufs s q);
               s = upd_pbuf q (\<lambda>b. b\<lparr>pb_tot_len := pb_tot_len b + grow\<rparr>) s;
               q = pb_next (pbufs s q)
           in if q = 0 then None else realloc_skip grow q rem_len s
      else Some (q, rem_len, s))"

definition pbuf_realloc :: "custom_free \<Rightarrow> nat \<Rightarrow> u16_t \<Rightarrow> pbuf_state \<Rightarrow> pbuf_state option" where
  "pbuf_realloc custom p new_len s =
     LWIP_ASSERT (p \<noteq> 0)
      (if new_len \<ge> pb_tot_len (pbufs s p) then Some s
       else case realloc_skip (new_len - pb_tot_len (pbufs s p)) p new_len s of
           None \<Rightarrow> None
         | Some (q, rem_len, s) \<Rightarrow>
            Option.bind
             (if pb_type (pbufs s q) = PBUF_RAM \<and> rem_len \<noteq> pb_len (pbufs s q)
              then case mem_trim q (nat ((int (pb_payload (pbufs s q)) - int q) mod 2 ^ 16) + unat rem_len) (pheap s) of
                     None \<Rightarrow> None
                   | Some (r, h) \<Rightarrow> LWIP_ASSERT (r \<noteq> 0) (Some (r, s\<lparr>pheap := h\<rparr>))
              else Some (q, s))
             (\<lambda>(q, s).
               let s = upd_pbuf q (\<lambda>b. b\<lparr>pb_len := rem_len, pb_tot_len := rem_len\<rparr>) s
               in map_option (\<lambda>s. upd_pbuf q (\<lambda>b. b\<lparr>pb_next := 0\<rparr>) s)
                   (if pb_next (pbufs s q) \<noteq> 0 then map_option snd (pbuf_free custom (pb_next (pbufs s q)) s) else Some s)))"

subsection \<open>Chains\<close>

partial_function (option) clen_loop :: "nat \<Rightarrow> u8_t \<Rightarrow> pbuf_state \<Rightarrow> u8_t option" where
  "clen_loop p len s = (if p \<noteq> 0 then clen_loop (pb_next (pbufs s p)) (len + 1) s else Some len)"

definition pbuf_clen :: "nat \<Rightarrow> pbuf_state \<Rightarrow> u8_t option" where
  "pbuf_clen p s = clen_loop p 0 s"

definition pbuf_ref :: "nat \<Rightarrow> pbuf_state \<Rightarrow> pbuf_state" where
  "pbuf_ref p s = (if p \<noteq> 0 then upd_pbuf p (\<lambda>b. b\<lparr>pb_ref := pb_ref b + 1\<rparr>) s else s)"

text \<open>The loop of \<^verbatim>\<open>pbuf_cat\<close>: it adds the length of the tail \<open>t\<close> to every buffer but the last, and returns
  the last.\<close>

partial_function (option) cat_loop :: "nat \<Rightarrow> nat \<Rightarrow> pbuf_state \<Rightarrow> (nat \<times> pbuf_state) option" where
  "cat_loop t p s =
     (if pb_next (pbufs s p) \<noteq> 0
      then let s = upd_pbuf p (\<lambda>b. b\<lparr>pb_tot_len := pb_tot_len b + pb_tot_len (pbufs s t)\<rparr>) s
           in cat_loop t (pb_next (pbufs s p)) s
      else Some (p, s))"

definition pbuf_cat :: "nat \<Rightarrow> nat \<Rightarrow> pbuf_state \<Rightarrow> pbuf_state option" where
  "pbuf_cat h t s =
     (if \<not> (h \<noteq> 0 \<and> t \<noteq> 0) then Some s
      else case cat_loop t h s of
          None \<Rightarrow> None
        | Some (p, s) \<Rightarrow>
            LWIP_ASSERT (pb_tot_len (pbufs s p) = pb_len (pbufs s p)) (LWIP_ASSERT (pb_next (pbufs s p) = 0)
              (Some (upd_pbuf p (\<lambda>b. b\<lparr>pb_tot_len := pb_tot_len b + pb_tot_len (pbufs s t), pb_next := t\<rparr>) s))))"

definition pbuf_chain :: "nat \<Rightarrow> nat \<Rightarrow> pbuf_state \<Rightarrow> pbuf_state option" where
  "pbuf_chain h t s = map_option (pbuf_ref t) (pbuf_cat h t s)"

definition pbuf_dechain :: "custom_free \<Rightarrow> nat \<Rightarrow> pbuf_state \<Rightarrow> (nat \<times> pbuf_state) option" where
  "pbuf_dechain custom p s =
     (let q = pb_next (pbufs s p)
      in case (if q \<noteq> 0
          then LWIP_ASSERT (int (unat (pb_tot_len (pbufs s q))) = int (unat (pb_tot_len (pbufs s p))) - int (unat (pb_len (pbufs s p))))
                (let s = upd_pbuf q (\<lambda>b. b\<lparr>pb_tot_len := pb_tot_len (pbufs s p) - pb_len (pbufs s p)\<rparr>) s;
                     s = upd_pbuf p (\<lambda>b. b\<lparr>pb_next := 0, pb_tot_len := pb_len b\<rparr>) s
                 in pbuf_free custom q s)
          else Some (1, s)) of
         None \<Rightarrow> None
       | Some (tail_gone, s) \<Rightarrow>
           LWIP_ASSERT (pb_tot_len (pbufs s p) = pb_len (pbufs s p)) (Some (if tail_gone > 0 then 0 else q, s)))"

subsection \<open>Copies\<close>

text \<open>The differences of \<^verbatim>\<open>u16_t\<close> values are compared as C integers.\<close>

partial_function (option) copy_loop :: "nat \<Rightarrow> u16_t \<Rightarrow> nat \<Rightarrow> u16_t \<Rightarrow> pbuf_state \<Rightarrow> (err_t \<times> pbuf_state) option" where
  "copy_loop p_to offset_to p_from offset_from s =
     (let to = pbufs s p_to; from = pbufs s p_from;
          len = (if int (unat (pb_len to)) - int (unat offset_to) \<ge> int (unat (pb_len from)) - int (unat offset_from)
                 then pb_len from - offset_from else pb_len to - offset_to);
          s = s\<lparr>pdata := memcpy (pb_payload to + unat offset_to) (pb_payload from + unat offset_from) (unat len) (pdata s)\<rparr>;
          offset_to = offset_to + len;
          offset_from = offset_from + len
      in LWIP_ASSERT (offset_to \<le> pb_len to) (LWIP_ASSERT (offset_from \<le> pb_len from)
        (let step_from = (offset_from \<ge> pb_len from); step_to = (offset_to = pb_len to);
             offset_from = (if step_from then 0 else offset_from);
             p_from = (if step_from then pb_next from else p_from);
             offset_to = (if step_to then 0 else offset_to);
             p_to = (if step_to then pb_next to else p_to)
         in if step_to \<and> \<not> (p_to \<noteq> 0 \<or> p_from = 0) then Some (ERR_ARG, s)
            else if p_from \<noteq> 0 \<and> pb_len (pbufs s p_from) = pb_tot_len (pbufs s p_from) \<and> pb_next (pbufs s p_from) \<noteq> 0
            then Some (ERR_VAL, s)
            else if p_to \<noteq> 0 \<and> pb_len (pbufs s p_to) = pb_tot_len (pbufs s p_to) \<and> pb_next (pbufs s p_to) \<noteq> 0
            then Some (ERR_VAL, s)
            else if p_from \<noteq> 0 then copy_loop p_to offset_to p_from offset_from s
            else Some (ERR_OK, s))))"

definition pbuf_copy :: "nat \<Rightarrow> nat \<Rightarrow> pbuf_state \<Rightarrow> (err_t \<times> pbuf_state) option" where
  "pbuf_copy p_to p_from s =
     (if \<not> (p_to \<noteq> 0 \<and> p_from \<noteq> 0 \<and> pb_tot_len (pbufs s p_to) \<ge> pb_tot_len (pbufs s p_from)) then Some (ERR_ARG, s)
      else copy_loop p_to 0 p_from 0 s)"

partial_function (option) copy_partial_loop ::
    "nat \<Rightarrow> nat \<Rightarrow> u16_t \<Rightarrow> u16_t \<Rightarrow> u16_t \<Rightarrow> u16_t \<Rightarrow> pbuf_state \<Rightarrow> (u16_t \<times> pbuf_state) option" where
  "copy_partial_loop p dataptr len offset left copied_total s =
     (if len \<noteq> 0 \<and> p \<noteq> 0
      then if offset \<noteq> 0 \<and> offset \<ge> pb_len (pbufs s p)
           then copy_partial_loop (pb_next (pbufs s p)) dataptr len (offset - pb_len (pbufs s p)) left copied_total s
           else let buf_copy_len = pb_len (pbufs s p) - offset;
                    buf_copy_len = (if buf_copy_len > len then len else buf_copy_len);
                    s = s\<lparr>pdata := memcpy (dataptr + unat left) (pb_payload (pbufs s p) + unat offset) (unat buf_copy_len) (pdata s)\<rparr>
                in copy_partial_loop (pb_next (pbufs s p)) dataptr (len - buf_copy_len) 0 (left + buf_copy_len)
                     (copied_total + buf_copy_len) s
      else Some (copied_total, s))"

definition pbuf_copy_partial :: "nat \<Rightarrow> nat \<Rightarrow> u16_t \<Rightarrow> u16_t \<Rightarrow> pbuf_state \<Rightarrow> (u16_t \<times> pbuf_state) option" where
  "pbuf_copy_partial buf dataptr len offset s =
     (if buf = 0 then Some (0, s)
      else if dataptr = 0 then Some (0, s)
      else copy_partial_loop buf dataptr len offset 0 0 s)"

partial_function (option) take_loop :: "nat \<Rightarrow> nat \<Rightarrow> u16_t \<Rightarrow> u16_t \<Rightarrow> pbuf_state \<Rightarrow> (u16_t \<times> pbuf_state) option" where
  "take_loop p dataptr total_copy_len copied_total s =
     (if total_copy_len \<noteq> 0
      then LWIP_ASSERT (p \<noteq> 0)
        (let buf_copy_len = (if total_copy_len > pb_len (pbufs s p) then pb_len (pbufs s p) else total_copy_len);
             s = s\<lparr>pdata := memcpy (pb_payload (pbufs s p)) (dataptr + unat copied_total) (unat buf_copy_len) (pdata s)\<rparr>
         in take_loop (pb_next (pbufs s p)) dataptr (total_copy_len - buf_copy_len) (copied_total + buf_copy_len) s)
      else Some (copied_total, s))"

definition pbuf_take :: "nat \<Rightarrow> nat \<Rightarrow> u16_t \<Rightarrow> pbuf_state \<Rightarrow> (err_t \<times> pbuf_state) option" where
  "pbuf_take buf dataptr len s =
     (if buf = 0 then Some (0, s)
      else if dataptr = 0 then Some (0, s)
      else if pb_tot_len (pbufs s buf) < len then Some (ERR_ARG, s)
      else case take_loop buf dataptr len 0 s of
          None \<Rightarrow> None
        | Some (copied_total, s) \<Rightarrow> LWIP_ASSERT (copied_total = len) (Some (ERR_OK, s)))"

definition pbuf_coalesce :: "custom_free \<Rightarrow> nat \<Rightarrow> pbuf_layer \<Rightarrow> pbuf_state \<Rightarrow> (nat \<times> pbuf_state) option" where
  "pbuf_coalesce custom p layer s =
     (if pb_next (pbufs s p) = 0 then Some (p, s)
      else case pbuf_alloc custom layer (pb_tot_len (pbufs s p)) PBUF_RAM s of
          None \<Rightarrow> None
        | Some (q, s) \<Rightarrow>
           (if q = 0 then Some (p, s)
            else case pbuf_copy q p s of
                None \<Rightarrow> None
              | Some (err, s) \<Rightarrow> LWIP_ASSERT (err = ERR_OK) (map_option (\<lambda>(c, s). (q, s)) (pbuf_free custom p s))))"

subsection \<open>Reading and searching\<close>

text \<open>The search for the buffer that holds an offset, shared by the two functions below.\<close>

partial_function (option) seek_loop :: "nat \<Rightarrow> u16_t \<Rightarrow> pbuf_state \<Rightarrow> (nat \<times> u16_t) option" where
  "seek_loop q start s =
     (if q \<noteq> 0 \<and> pb_len (pbufs s q) \<le> start
      then seek_loop (pb_next (pbufs s q)) (start - pb_len (pbufs s q)) s
      else Some (q, start))"

definition pbuf_get_at :: "nat \<Rightarrow> u16_t \<Rightarrow> pbuf_state \<Rightarrow> u8_t option" where
  "pbuf_get_at p offset s =
     (case seek_loop p offset s of
        None \<Rightarrow> None
      | Some (q, copy_from) \<Rightarrow>
          Some (if q \<noteq> 0 \<and> pb_len (pbufs s q) > copy_from then pdata s (pb_payload (pbufs s q) + unat copy_from) else 0))"

lemma unatSuc_below: "(i :: u16_t) < n \<Longrightarrow> unat (i + 1) = Suc (unat i)"
  using unat_bounds(2)[of n] by (simp add: word_less_nat_alt unat_word_ariths)

function memcmp_loop :: "nat \<Rightarrow> u16_t \<Rightarrow> nat \<Rightarrow> u16_t \<Rightarrow> u16_t \<Rightarrow> pbuf_state \<Rightarrow> u16_t option" where
  "memcmp_loop q start s2 n i s =
     (if i < n
      then case pbuf_get_at q (start + i) s of
          None \<Rightarrow> None
        | Some a \<Rightarrow> if a \<noteq> pdata s (s2 + unat i) then Some (i + 1) else memcmp_loop q start s2 n (i + 1) s
      else Some 0)"
  by pat_completeness auto
termination
  by (relation "measure (\<lambda>(q, start, s2, n, i, s). unat n - unat i)")
    (auto simp: word_less_nat_alt unatSuc_below)

definition pbuf_memcmp :: "nat \<Rightarrow> u16_t \<Rightarrow> nat \<Rightarrow> u16_t \<Rightarrow> pbuf_state \<Rightarrow> u16_t option" where
  "pbuf_memcmp p offset s2 n s =
     (case seek_loop p offset s of
        None \<Rightarrow> None
      | Some (q, start) \<Rightarrow>
          if q \<noteq> 0 \<and> pb_len (pbufs s q) > start then memcmp_loop q start s2 n 0 s else Some 0xffff)"

partial_function (option) memfind_loop :: "nat \<Rightarrow> nat \<Rightarrow> u16_t \<Rightarrow> u16_t \<Rightarrow> u16_t \<Rightarrow> pbuf_state \<Rightarrow> u16_t option" where
  "memfind_loop p mem mem_len mx i s =
     (if i \<le> mx
      then case pbuf_memcmp p i mem mem_len s of
          None \<Rightarrow> None
        | Some adv \<Rightarrow> if adv = 0 then Some i else memfind_loop p mem mem_len mx (i + adv) s
      else Some 0xFFFF)"

definition pbuf_memfind :: "nat \<Rightarrow> nat \<Rightarrow> u16_t \<Rightarrow> u16_t \<Rightarrow> pbuf_state \<Rightarrow> u16_t option" where
  "pbuf_memfind p mem mem_len start_offset s =
     (if unat (pb_tot_len (pbufs s p)) \<ge> unat mem_len + unat start_offset
      then memfind_loop p mem mem_len (pb_tot_len (pbufs s p) - mem_len) start_offset s
      else Some 0xFFFF)"

text \<open>\<^verbatim>\<open>strlen\<close>, up to the limit the caller checks: the result is \<open>0xFFFF\<close> when no zero byte comes
  before.\<close>

definition strlen :: "bytes \<Rightarrow> nat \<Rightarrow> nat" where
  "strlen m a = length (takeWhile (\<lambda>x. m x \<noteq> 0) [a..<a + 0xFFFF])"

definition pbuf_strstr :: "nat \<Rightarrow> nat \<Rightarrow> pbuf_state \<Rightarrow> u16_t option" where
  "pbuf_strstr p substr s =
     (if substr = 0 \<or> pdata s substr = 0 \<or> pb_tot_len (pbufs s p) = 0xFFFF then Some 0xFFFF
      else let substr_len = strlen (pdata s) substr
           in if substr_len \<ge> 0xFFFF then Some 0xFFFF
              else pbuf_memfind p substr (of_nat substr_len) 0 s)"

declare pbuf_free_loop.simps [code] realloc_skip.simps [code] clen_loop.simps [code] cat_loop.simps [code]
  copy_loop.simps [code] copy_partial_loop.simps [code] take_loop.simps [code] seek_loop.simps [code]
  memfind_loop.simps [code]
declare pool_tail.simps [simp del] memcmp_loop.simps [simp del]

end
