(* ===== verification/Pbuf_Chain.thy ===== *)
theory Pbuf_Chain
  imports Pbuf
begin

section \<open>Packet buffer chains and their contents\<close>

text \<open>
  A packet is a chain of buffers without repetition whose \<^verbatim>\<open>tot_len\<close> fields are the sums of the lengths
  from that buffer on (the invariant \<^verbatim>\<open>pbuf.h\<close> states). Its contents are the payloads in order. The
  operations of \<^verbatim>\<open>pbuf.c\<close> that read, copy and link chains are compared with the list functions they
  implement.
\<close>

subsection \<open>Packets\<close>

type_synonym pstore = "nat \<Rightarrow> pbuf"

fun pchain :: "pstore \<Rightarrow> nat \<Rightarrow> nat list \<Rightarrow> bool" where
  "pchain B p [] \<longleftrightarrow> p = 0"
| "pchain B p (a # as) \<longleftrightarrow> p = a \<and> a \<noteq> 0 \<and> pchain B (pb_next (B a)) as"

abbreviation blen :: "pstore \<Rightarrow> nat \<Rightarrow> nat" where
  "blen B a \<equiv> unat (pb_len (B a))"

abbreviation lens :: "pstore \<Rightarrow> nat list \<Rightarrow> nat" where
  "lens B as \<equiv> sum_list (map (blen B) as)"

fun totals :: "pstore \<Rightarrow> nat list \<Rightarrow> bool" where
  "totals B [] \<longleftrightarrow> True"
| "totals B (a # as) \<longleftrightarrow> unat (pb_tot_len (B a)) = blen B a + lens B as \<and> totals B as"

definition packet :: "pstore \<Rightarrow> nat \<Rightarrow> nat list \<Rightarrow> bool" where
  "packet B p as \<longleftrightarrow> pchain B p as \<and> distinct as \<and> totals B as"

definition bdata :: "pstore \<Rightarrow> bytes \<Rightarrow> nat \<Rightarrow> u8_t list" where
  "bdata B m a = data_at m (pb_payload (B a)) (blen B a)"

definition contents :: "pstore \<Rightarrow> bytes \<Rightarrow> nat list \<Rightarrow> u8_t list" where
  "contents B m as = concat (map (bdata B m) as)"

definition span :: "pstore \<Rightarrow> nat \<Rightarrow> nat set" where
  "span B a = {pb_payload (B a)..<pb_payload (B a) + blen B a}"

lemma contents_simps [simp]:
  "contents B m [] = []" "contents B m (a # as) = bdata B m a @ contents B m as"
  "contents B m (as @ bs) = contents B m as @ contents B m bs"
  by (simp_all add: contents_def)

lemma length_bdata [simp]: "length (bdata B m a) = blen B a"
  by (simp add: bdata_def)

lemma length_contents [simp]: "length (contents B m as) = lens B as"
  by (induction as) simp_all

lemma contents_cong: "(\<And>a x. a \<in> set as \<Longrightarrow> x \<in> span B a \<Longrightarrow> m' x = m x) \<Longrightarrow> contents B m' as = contents B m as"
  by (induction as) (auto simp: bdata_def span_def intro!: data_at_cong)

text \<open>\<open>clear B as d n\<close>: the \<open>n\<close> bytes at \<open>d\<close> lie outside the payloads.\<close>

definition clear :: "pstore \<Rightarrow> nat list \<Rightarrow> nat \<Rightarrow> nat \<Rightarrow> bool" where
  "clear B as d n \<longleftrightarrow> (\<forall>a\<in>set as. {d..<d + n} \<inter> span B a = {})"

lemma clear_simps [simp]: "clear B [] d n" "clear B (a # as) d n \<longleftrightarrow> {d..<d + n} \<inter> span B a = {} \<and> clear B as d n"
  by (simp_all add: clear_def)

lemma clearD: "clear B as d n \<Longrightarrow> a \<in> set as \<Longrightarrow> x \<in> span B a \<Longrightarrow> x \<notin> {d..<d + n}"
  unfolding clear_def by blast

lemma clear_sub: "clear B as d n \<Longrightarrow> d \<le> e \<Longrightarrow> e + k \<le> d + n \<Longrightarrow> clear B as e k"
proof -
  assume c: "clear B as d n" "d \<le> e" "e + k \<le> d + n"
  have "{e..<e + k} \<subseteq> {d..<d + n}" using c by auto
  then show ?thesis using c(1) unfolding clear_def by blast
qed

lemma contents_clear: "clear B as d n \<Longrightarrow> (\<And>x. x \<notin> {d..<d + n} \<Longrightarrow> m' x = m x) \<Longrightarrow> contents B m' as = contents B m as"
  by (rule contents_cong) (auto dest: clearD)

lemma pchain_cong: "(\<And>a. a \<in> set as \<Longrightarrow> pb_next (B' a) = pb_next (B a)) \<Longrightarrow> pchain B' p as = pchain B p as"
  by (induction B p as rule: pchain.induct) auto

lemma lens_cong: "(\<And>a. a \<in> set as \<Longrightarrow> pb_len (B' a) = pb_len (B a)) \<Longrightarrow> lens B' as = lens B as"
  by (metis (mono_tags, lifting) map_eq_conv)

lemma totals_cong:
  "(\<And>a. a \<in> set as \<Longrightarrow> pb_len (B' a) = pb_len (B a) \<and> pb_tot_len (B' a) = pb_tot_len (B a)) \<Longrightarrow> totals B' as = totals B as"
proof (induction as)
  case (Cons a as)
  moreover have "lens B' as = lens B as" by (rule lens_cong) (simp add: Cons.prems)
  ultimately show ?case by simp
qed simp

lemma lens_bound: "totals B as \<Longrightarrow> lens B as < 2 ^ 16"
proof (cases as)
  case (Cons a bs)
  assume "totals B as"
  with Cons have "lens B as = unat (pb_tot_len (B a))" by simp
  then show ?thesis using unat_bounds(2)[of "pb_tot_len (B a)"] by simp
qed simp

lemma packet_Nil [simp]: "packet B p [] \<longleftrightarrow> p = 0"
  by (simp add: packet_def)

lemma packet_Cons: "packet B p (a # as) \<longleftrightarrow> p = a \<and> a \<noteq> 0 \<and> a \<notin> set as \<and>
    unat (pb_tot_len (B a)) = blen B a + lens B as \<and> packet B (pb_next (B a)) as"
  by (auto simp: packet_def)

lemma packet_0: "packet B 0 as \<longleftrightarrow> as = []"
  by (cases as) (auto simp: packet_Cons)

lemma packet_unique: "packet B p as \<Longrightarrow> packet B p bs \<Longrightarrow> as = bs"
proof (induction as arbitrary: p bs)
  case (Cons a as)
  then show ?case by (cases bs) (auto simp: packet_Cons)
qed (simp add: packet_0)

lemma memcpy_outside [simp]: "x \<notin> {d..<d + n} \<Longrightarrow> memcpy d sr n m x = m x"
  by (auto simp: memcpy_def)

lemma data_at_memcpy: "data_at (memcpy d sr n m) d n = data_at m sr n"
  by (simp add: data_at_def memcpy_def)

lemma memcpy_0 [simp]: "memcpy d sr 0 m = m"
  by (rule ext) (auto simp: memcpy_def)

lemma take_drop_data_at: "k + n \<le> l \<Longrightarrow> take n (drop k (data_at m p l)) = data_at m (p + k) n"
  by (rule nth_equalityI) (auto simp: data_at_def add.assoc)

lemma drop_data_at: "drop k (data_at m p l) = data_at m (p + k) (l - k)"
  by (rule nth_equalityI) (auto simp: data_at_def add.assoc)

lemma take_data_at: "take k (data_at m p l) = data_at m p (min k l)"
  by (rule nth_equalityI) (auto simp: data_at_def add.assoc)

lemmas u16_simps = word_le_nat_alt word_less_nat_alt unat_sub_if_size unat_word_ariths

subsection \<open>Reading\<close>

lemma copy_partial_loop_value:
  assumes "pchain (pbufs s) p as" "unat left + unat len < 2 ^ 16"
    and "clear (pbufs s) as (d + unat left) (unat len)"
  shows "\<exists>m. copy_partial_loop p d len off left left s =
      Some (left + of_nat (length (take (unat len) (drop (unat off) (contents (pbufs s) (pdata s) as)))), s\<lparr>pdata := m\<rparr>) \<and>
    data_at m (d + unat left) (length (take (unat len) (drop (unat off) (contents (pbufs s) (pdata s) as)))) =
      take (unat len) (drop (unat off) (contents (pbufs s) (pdata s) as)) \<and>
    (\<forall>x. x \<notin> {d + unat left..<d + unat left + unat len} \<longrightarrow> m x = pdata s x)"
  using assms
proof (induction as arbitrary: p len off left s)
  case Nil
  then show ?case by (subst copy_partial_loop.simps) (auto intro!: exI[of _ "pdata s"])
next
  case (Cons a as)
  let ?B = "pbufs s" and ?m = "pdata s"
  show ?case
  proof (cases "len = 0")
    case True
    then show ?thesis by (subst copy_partial_loop.simps) (auto intro!: exI[of _ "pdata s"])
  next
    case ln: False
    show ?thesis
    proof (cases "off \<noteq> 0 \<and> off \<ge> pb_len (?B a)")
      case True
      then have "unat (off - pb_len (?B a)) = unat off - blen ?B a" by (simp add: u16_simps)
      moreover from True have "drop (unat off) (contents ?B ?m (a # as)) = drop (unat off - blen ?B a) (contents ?B ?m as)"
        by (simp add: u16_simps)
      moreover have "copy_partial_loop p d len off left left s = copy_partial_loop (pb_next (?B a)) d len (off - pb_len (?B a)) left left s"
        using Cons.prems(1) True ln by (subst copy_partial_loop.simps) simp
      ultimately show ?thesis using Cons.IH[of s "pb_next (?B a)" left len "off - pb_len (?B a)"] Cons.prems by simp
    next
      case False
      then have ol: "unat off \<le> blen ?B a" by (auto simp: u16_simps)
      define n where "n = min (blen ?B a - unat off) (unat len)"
      define w where "w = (if pb_len (?B a) - off > len then len else pb_len (?B a) - off)"
      define m1 where "m1 = memcpy (d + unat left) (pb_payload (?B a) + unat off) n ?m"
      define s1 where "s1 = s\<lparr>pdata := m1\<rparr>"
      have w: "unat w = n" "w = of_nat n"
        using ol by (auto simp: w_def n_def u16_simps min_def simp flip: word_unat_eq_iff)
      have step: "copy_partial_loop p d len off left left s =
          copy_partial_loop (pb_next (?B a)) d (len - w) 0 (left + w) (left + w) s1"
        using Cons.prems(1) False ln
        by (subst copy_partial_loop.simps) (auto simp: Let_def w_def[symmetric] w(1) s1_def m1_def)
      have nl: "n \<le> unat len" "n \<le> blen ?B a - unat off" by (simp_all add: n_def)
      have u: "unat (len - w) = unat len - n" "unat (left + w) = unat left + n"
        using Cons.prems(2) nl w(1) by (simp_all add: u16_simps)
      have outside: "m1 x = ?m x" if "x \<notin> {d + unat left..<d + unat left + n}" for x
        using that by (simp add: m1_def)
      have cl: "clear ?B as (d + unat left) (unat len)" using Cons.prems(3) by simp
      have c: "contents ?B m1 as = contents ?B ?m as"
        by (rule contents_clear[OF clear_sub[OF cl]]) (use nl outside in auto)
      have pre: "clear (pbufs s1) as (d + unat (left + w)) (unat (len - w))"
        unfolding u s1_def using nl clear_sub[OF cl] by simp
      let ?ys = "take (unat len - n) (contents ?B ?m as)"
      obtain m where m: "copy_partial_loop (pb_next (?B a)) d (len - w) 0 (left + w) (left + w) s1 =
            Some (left + w + of_nat (length ?ys), s1\<lparr>pdata := m\<rparr>)"
          "data_at m (d + unat left + n) (length ?ys) = ?ys"
          "\<forall>x. x \<notin> {d + unat left + n..<d + unat left + n + (unat len - n)} \<longrightarrow> m x = m1 x"
        using Cons.IH[of s1 "pb_next (?B a)" "left + w" "len - w" 0] Cons.prems(1,2) pre nl
        unfolding u by (auto simp: s1_def c add.assoc)
      have td: "take (unat len) (drop (unat off) (contents ?B ?m (a # as))) = data_at ?m (pb_payload (?B a) + unat off) n @ ?ys"
        using ol by (simp add: bdata_def drop_data_at take_data_at n_def min.commute min_def)
      have "data_at m (d + unat left) n = data_at m1 (d + unat left) n"
        by (rule data_at_cong) (use m(3) in auto)
      also have "\<dots> = data_at ?m (pb_payload (?B a) + unat off) n" by (simp add: m1_def data_at_memcpy)
      finally have "data_at m (d + unat left) (n + length ?ys) = data_at ?m (pb_payload (?B a) + unat off) n @ ?ys"
        using m(2) by (simp add: data_at_add)
      moreover have "left + w + of_nat (length ?ys) = left + of_nat (n + length ?ys)" using w(2) by simp
      moreover have "m x = ?m x" if "x \<notin> {d + unat left..<d + unat left + unat len}" for x
        using that m(3) outside nl by auto
      ultimately show ?thesis unfolding td step m(1)
        by (intro exI[of _ m]) (simp add: s1_def)
    qed
  qed
qed

lemma pbuf_copy_partial_value:
  assumes "packet (pbufs s) p as" "p \<noteq> 0" "d \<noteq> 0"
    and "clear (pbufs s) as d (unat len)"
  shows "\<exists>m xs. xs = take (unat len) (drop (unat off) (contents (pbufs s) (pdata s) as)) \<and>
    pbuf_copy_partial p d len off s = Some (of_nat (length xs), s\<lparr>pdata := m\<rparr>) \<and> data_at m d (length xs) = xs \<and>
    (\<forall>x. x \<notin> {d..<d + unat len} \<longrightarrow> m x = pdata s x)"
  using copy_partial_loop_value[of s p as 0 len d off] assms unat_bounds(2)[of len]
  by (auto simp: pbuf_copy_partial_def packet_def)

lemma seek_loop_value:
  "pchain (pbufs s) p as \<Longrightarrow> \<exists>q st. seek_loop p off s = Some (q, st) \<and>
     (if unat off < lens (pbufs s) as
      then \<exists>cs bs. as = cs @ q # bs \<and> q \<noteq> 0 \<and> pchain (pbufs s) q (q # bs) \<and> unat off = lens (pbufs s) cs + unat st \<and> st < pb_len (pbufs s q)
      else q = 0)"
proof (induction as arbitrary: p off)
  case Nil
  then show ?case by (subst seek_loop.simps) simp
next
  case (Cons a as)
  show ?case
  proof (cases "pb_len (pbufs s a) \<le> off")
    case True
    have u: "unat (off - pb_len (pbufs s a)) = unat off - blen (pbufs s) a" "blen (pbufs s) a \<le> unat off"
      using True by (simp_all add: u16_simps)
    obtain q st where q: "seek_loop (pb_next (pbufs s a)) (off - pb_len (pbufs s a)) s = Some (q, st)"
        "if unat off - blen (pbufs s) a < lens (pbufs s) as
         then \<exists>cs bs. as = cs @ q # bs \<and> q \<noteq> 0 \<and> pchain (pbufs s) q (q # bs) \<and>
            unat off - blen (pbufs s) a = lens (pbufs s) cs + unat st \<and> st < pb_len (pbufs s q)
         else q = 0"
      using Cons.IH[of "pb_next (pbufs s a)" "off - pb_len (pbufs s a)"] Cons.prems unfolding u by auto
    have step: "seek_loop p off s = Some (q, st)" using Cons.prems True q(1) by (subst seek_loop.simps) simp
    show ?thesis
    proof (cases "unat off < lens (pbufs s) (a # as)")
      case lt: True
      then have "unat off - blen (pbufs s) a < lens (pbufs s) as" using u(2) by simp
      from q(2)[unfolded if_P[OF this]] obtain cs bs where c: "as = cs @ q # bs" "q \<noteq> 0" "pchain (pbufs s) q (q # bs)"
          "unat off - blen (pbufs s) a = lens (pbufs s) cs + unat st" "st < pb_len (pbufs s q)" by blast
      then have "a # as = (a # cs) @ q # bs" "unat off = lens (pbufs s) (a # cs) + unat st" using u(2) by auto
      then show ?thesis unfolding if_P[OF lt] using step c by blast
    next
      case False
      then show ?thesis using step q(2) u(2) by auto
    qed
  next
    case False
    then have "seek_loop p off s = Some (a, off)" using Cons.prems by (subst seek_loop.simps) simp
    moreover have "unat off < lens (pbufs s) (a # as)" "off < pb_len (pbufs s a)" using False by (simp_all add: u16_simps)
    moreover have "a # as = [] @ a # as \<and> a \<noteq> 0 \<and> pchain (pbufs s) a (a # as) \<and> unat off = lens (pbufs s) [] + unat off"
      using Cons.prems by simp
    ultimately show ?thesis by (smt (verit, best))
  qed
qed

text \<open>A packet followed by zeros: what the byte-wise readers see.\<close>

definition byte_of :: "pbuf_state \<Rightarrow> nat list \<Rightarrow> nat \<Rightarrow> u8_t" where
  "byte_of s as i = (if i < lens (pbufs s) as then contents (pbufs s) (pdata s) as ! i else 0)"

lemma byte_of_mid: "unat st < blen (pbufs s) q \<Longrightarrow> byte_of s (cs @ q # bs) (lens (pbufs s) cs + unat st) =
    pdata s (pb_payload (pbufs s q) + unat st)"
  by (simp add: byte_of_def nth_append bdata_def data_at_def)

lemma byte_of_drop: "byte_of s (cs @ bs) (lens (pbufs s) cs + i) = byte_of s bs i"
  by (simp add: byte_of_def nth_append)

lemma pbuf_get_at_value: "pchain (pbufs s) p as \<Longrightarrow> pbuf_get_at p off s = Some (byte_of s as (unat off))"
proof (cases "unat off < lens (pbufs s) as")
  assume p: "pchain (pbufs s) p as"
  case True
  then obtain q st cs bs where q: "seek_loop p off s = Some (q, st)" "as = cs @ q # bs" "q \<noteq> 0"
      "unat off = lens (pbufs s) cs + unat st" "st < pb_len (pbufs s q)"
    using seek_loop_value[OF p, of off] by auto
  then show ?thesis using byte_of_mid[of st s q cs bs] by (simp add: pbuf_get_at_def word_less_nat_alt)
next
  assume p: "pchain (pbufs s) p as"
  case False
  then show ?thesis using seek_loop_value[OF p, of off] by (auto simp: pbuf_get_at_def byte_of_def)
qed

text \<open>The result of a comparison: 0, or one more than the first position that differs.\<close>

definition first_diff :: "(nat \<Rightarrow> u8_t) \<Rightarrow> (nat \<Rightarrow> u8_t) \<Rightarrow> nat \<Rightarrow> nat \<Rightarrow> bool" where
  "first_diff f g n r \<longleftrightarrow> (if r = 0 then \<forall>i<n. f i = g i else r \<le> n \<and> f (r - 1) \<noteq> g (r - 1) \<and> (\<forall>i<r - 1. f i = g i))"

lemma memcmp_loop_value:
  assumes "pchain (pbufs s) q bs" "unat start + unat n < 2 ^ 16" "unat i \<le> unat n"
    and "\<forall>j<unat i. byte_of s bs (unat start + j) = pdata s (s2 + j)"
  shows "\<exists>r. memcmp_loop q start s2 n i s = Some r \<and>
     first_diff (\<lambda>j. byte_of s bs (unat start + j)) (\<lambda>j. pdata s (s2 + j)) (unat n) (unat r)"
  using assms(3,4)
proof (induction "unat n - unat i" arbitrary: i)
  case 0
  then show ?case by (subst memcmp_loop.simps) (auto simp: first_diff_def word_less_nat_alt)
next
  case (Suc k)
  then have lt: "i < n" by (simp add: word_less_nat_alt)
  have u: "unat (i + 1) = Suc (unat i)" "unat (start + i) = unat start + unat i"
    using unatSuc_below[OF lt] assms(2) lt by (simp_all add: u16_simps)
  have g: "pbuf_get_at q (start + i) s = Some (byte_of s bs (unat start + unat i))"
    using pbuf_get_at_value[OF assms(1), of "start + i"] u(2) by simp
  show ?case
  proof (cases "byte_of s bs (unat start + unat i) = pdata s (s2 + unat i)")
    case True
    then have "memcmp_loop q start s2 n i s = memcmp_loop q start s2 n (i + 1) s"
      using lt g by (subst memcmp_loop.simps) simp
    moreover have "\<forall>j<unat (i + 1). byte_of s bs (unat start + j) = pdata s (s2 + j)"
      using Suc.prems(2) True u(1) by (simp add: less_Suc_eq)
    ultimately show ?thesis using Suc.hyps(1)[of "i + 1"] Suc.hyps(2) u(1) lt by (simp add: word_less_nat_alt)
  next
    case False
    then have "memcmp_loop q start s2 n i s = Some (i + 1)" using lt g by (subst memcmp_loop.simps) simp
    then show ?thesis using False Suc.prems(2) u(1) lt by (simp add: first_diff_def word_less_nat_alt)
  qed
qed

lemma pbuf_memcmp_value:
  assumes "pchain (pbufs s) p as" "unat off + unat n < 2 ^ 16"
  shows "\<exists>r. pbuf_memcmp p off s2 n s = Some r \<and>
     (if unat off < lens (pbufs s) as
      then first_diff (\<lambda>j. byte_of s as (unat off + j)) (\<lambda>j. pdata s (s2 + j)) (unat n) (unat r)
      else r = 0xffff)"
proof (cases "unat off < lens (pbufs s) as")
  case True
  then obtain q st cs bs where q: "seek_loop p off s = Some (q, st)" "as = cs @ q # bs" "q \<noteq> 0"
      "pchain (pbufs s) q (q # bs)" "unat off = lens (pbufs s) cs + unat st" "st < pb_len (pbufs s q)"
    using seek_loop_value[OF assms(1), of off] by auto
  have "byte_of s as (unat off + j) = byte_of s (q # bs) (unat st + j)" for j
    using byte_of_drop[of s cs "q # bs" "unat st + j"] q(2,5) by (simp add: add.assoc)
  moreover have "\<exists>r. memcmp_loop q st s2 n 0 s = Some r \<and>
      first_diff (\<lambda>j. byte_of s (q # bs) (unat st + j)) (\<lambda>j. pdata s (s2 + j)) (unat n) (unat r)"
    by (rule memcmp_loop_value[OF q(4)]) (use q(5) assms(2) in auto)
  ultimately show ?thesis using True q by (simp add: pbuf_memcmp_def)
next
  case False
  then show ?thesis using seek_loop_value[OF assms(1), of off] by (auto simp: pbuf_memcmp_def)
qed

text \<open>\<^verbatim>\<open>pbuf_memfind\<close> always ends, and what it reports is an occurrence.\<close>

lemma memfind_loop_value:
  assumes "packet (pbufs s) p as" "0 < unat n" "unat mx + unat n = lens (pbufs s) as" "lo \<le> unat i" "unat i \<le> lens (pbufs s) as"
  shows "\<exists>r. memfind_loop p mem n mx i s = Some r \<and>
    (r = 0xffff \<or> lo \<le> unat r \<and> unat r + unat n \<le> lens (pbufs s) as \<and>
       take (unat n) (drop (unat r) (contents (pbufs s) (pdata s) as)) = data_at (pdata s) mem (unat n))"
  using assms(4,5)
proof (induction "lens (pbufs s) as - unat i" arbitrary: i rule: less_induct)
  case less
  let ?L = "lens (pbufs s) as"
  have L: "?L < 2 ^ 16" using assms(1) lens_bound by (simp add: packet_def)
  show ?case
  proof (cases "i \<le> mx")
    case True
    then have il: "unat i + unat n \<le> ?L" "unat i < ?L" using assms(2,3) by (simp_all add: word_le_nat_alt)
    obtain r where r: "pbuf_memcmp p i mem n s = Some r"
        "first_diff (\<lambda>j. byte_of s as (unat i + j)) (\<lambda>j. pdata s (mem + j)) (unat n) (unat r)"
      using pbuf_memcmp_value[of s p as i n mem] assms(1) il L by (auto simp: packet_def)
    show ?thesis
    proof (cases "r = 0")
      case True
      then have "take (unat n) (drop (unat i) (contents (pbufs s) (pdata s) as)) = data_at (pdata s) mem (unat n)"
        using r(2) il by (intro nth_equalityI) (auto simp: first_diff_def byte_of_def data_at_def)
      then show ?thesis using True \<open>i \<le> mx\<close> r(1) il less.prems by (subst memfind_loop.simps) auto
    next
      case False
      then have r0: "unat r \<noteq> 0" by (simp add: word_unat_eq_iff)
      then have rn: "0 < unat r" "unat r \<le> unat n" using r(2) by (auto simp: first_diff_def)
      then have u: "unat (i + r) = unat i + unat r" using il L by (simp add: unat_word_ariths)
      have "memfind_loop p mem n mx i s = memfind_loop p mem n mx (i + r) s"
        using False \<open>i \<le> mx\<close> r(1) by (subst memfind_loop.simps) simp
      then show ?thesis using less.hyps[of "i + r"] u rn il less.prems by simp
    qed
  next
    case False
    then show ?thesis by (subst memfind_loop.simps) simp
  qed
qed

subsection \<open>Copying into chains\<close>

text \<open>The addresses of the bytes of a chain, in order; and a copy along two lists of addresses.\<close>

definition addrs :: "pstore \<Rightarrow> nat list \<Rightarrow> nat list" where
  "addrs B as = concat (map (\<lambda>a. [pb_payload (B a)..<pb_payload (B a) + blen B a]) as)"

definition copied :: "bytes \<Rightarrow> bytes \<Rightarrow> nat list \<Rightarrow> nat list \<Rightarrow> bool" where
  "copied m m' D S \<longleftrightarrow> map m' (take (length S) D) = map m S \<and> (\<forall>x. x \<notin> set (take (length S) D) \<longrightarrow> m' x = m x)"

lemma addrs_simps [simp]:
  "addrs B [] = []" "addrs B (a # as) = [pb_payload (B a)..<pb_payload (B a) + blen B a] @ addrs B as"
  by (simp_all add: addrs_def)

lemma data_at_map: "data_at m p n = map m [p..<p + n]"
  by (rule nth_equalityI) (simp_all add: data_at_def)

lemma contents_addrs: "contents B m as = map m (addrs B as)"
  by (induction as) (simp_all add: bdata_def data_at_map)

lemma length_addrs [simp]: "length (addrs B as) = lens B as"
  by (induction as) simp_all

lemma copied_Nil: "copied m m D []"
  by (simp add: copied_def)

lemma copied_contents:
  assumes "copied m m' (addrs B as) S" "distinct (addrs B as)" "length S \<le> lens B as"
  shows "contents B m' as = map m S @ drop (length S) (contents B m as)"
proof -
  let ?D = "addrs B as"
  have "x \<notin> set (take (length S) ?D)" if "x \<in> set (drop (length S) ?D)" for x
    using that assms(2) by (metis append_take_drop_id disjoint_iff distinct_append)
  then have "map m' (drop (length S) ?D) = map m (drop (length S) ?D)" using assms(1) by (simp add: copied_def)
  moreover have "contents B m' as = map m' (take (length S) ?D) @ map m' (drop (length S) ?D)"
    by (simp add: contents_addrs flip: map_append)
  ultimately show ?thesis using assms(1) by (simp add: copied_def contents_addrs drop_map)
qed

lemma copied_chunk:
  assumes D: "D = [p..<p + k] @ D'" and S: "S = [q..<q + k] @ S'"
    and "distinct D" "set D \<inter> set S = {}" and c: "copied (memcpy p q k m) m' D' S'"
  shows "copied m m' D S"
proof -
  let ?m = "memcpy p q k m"
  have t: "take (length S) D = [p..<p + k] @ take (length S') D'" by (simp add: D S)
  have d: "set [p..<p + k] \<inter> set D' = {}" "set [p..<p + k] \<inter> set S' = {}"
    using assms(3,4) unfolding D S distinct_append set_append by blast+
  have "x \<notin> {p..<p + k}" if "x \<in> set S'" for x using that d(2) by auto
  then have S': "map ?m S' = map m S'" by simp
  have notin: "x \<notin> set (take (length S') D')" if "x \<in> {p..<p + k}" for x
    using that d(1) in_set_takeD[of x "length S'" D'] by auto
  have "map m' [p..<p + k] = map ?m [p..<p + k]" using notin c by (simp add: copied_def)
  also have "\<dots> = map m [q..<q + k]" using data_at_memcpy[of p q k m] by (simp add: data_at_map)
  finally have "map m' (take (length S) D) = map m S" using c S' unfolding t by (simp add: copied_def S)
  moreover have "m' x = m x" if "x \<notin> set (take (length S) D)" for x
    using that c unfolding t by (simp add: copied_def)
  ultimately show ?thesis by (simp add: copied_def)
qed

lemma upt_chunk: "k \<le> n \<Longrightarrow> [a..<a + n] = [a..<a + k] @ [a + k..<a + n]"
  using upt_add_eq_append[of a "a + k" "n - k"] by simp

lemma take_loop_value:
  assumes "pchain (pbufs s) p as" "unat n \<le> lens (pbufs s) as" "unat c + unat n < 2 ^ 16"
    and "distinct (addrs (pbufs s) as)" "set (addrs (pbufs s) as) \<inter> {d + unat c..<d + unat c + unat n} = {}"
  shows "\<exists>m. take_loop p d n c s = Some (c + n, s\<lparr>pdata := m\<rparr>) \<and>
    copied (pdata s) m (addrs (pbufs s) as) [d + unat c..<d + unat c + unat n]"
  using assms
proof (induction as arbitrary: p n c s)
  case Nil
  then have "n = 0" by (simp add: word_unat_eq_iff)
  then show ?case by (subst take_loop.simps) (auto simp: copied_Nil intro!: exI[of _ "pdata s"])
next
  case (Cons a as)
  let ?B = "pbufs s"
  show ?case
  proof (cases "n = 0")
    case True
    then show ?thesis by (subst take_loop.simps) (auto simp: copied_Nil intro!: exI[of _ "pdata s"])
  next
    case False
    define k where "k = min (unat n) (blen ?B a)"
    define w where "w = (if n > pb_len (?B a) then pb_len (?B a) else n)"
    define s1 where "s1 = s\<lparr>pdata := memcpy (pb_payload (?B a)) (d + unat c) k (pdata s)\<rparr>"
    have w: "unat w = k" by (auto simp: w_def k_def u16_simps min_def)
    have k: "k \<le> unat n" "k \<le> blen ?B a" by (simp_all add: k_def)
    have u: "unat (n - w) = unat n - k" "unat (c + w) = unat c + k"
      using Cons.prems(3) k w by (simp_all add: u16_simps)
    have step: "take_loop p d n c s = take_loop (pb_next (?B a)) d (n - w) (c + w) s1"
      using Cons.prems(1) False
      by (subst take_loop.simps) (auto simp: Let_def LWIP_ASSERT_def s1_def w[symmetric] w_def)
    show ?thesis
    proof (cases "unat n \<le> blen ?B a")
      case True
      then have n: "k = unat n" "w = n" by (simp_all add: k_def w_def u16_simps)
      have "take_loop p d n c s = Some (c + n, s1)" unfolding step n(2) by (subst take_loop.simps) simp
      moreover have "copied (pdata s) (pdata s1) (addrs ?B (a # as)) [d + unat c..<d + unat c + unat n]"
      proof (rule copied_chunk)
        show "addrs ?B (a # as) = [pb_payload (?B a)..<pb_payload (?B a) + k] @
            [pb_payload (?B a) + k..<pb_payload (?B a) + blen ?B a] @ addrs ?B as"
          using upt_chunk[OF k(2), of "pb_payload (?B a)"] by simp
        show "[d + unat c..<d + unat c + unat n] = [d + unat c..<d + unat c + k] @ []" by (simp add: n(1))
      qed (use Cons.prems(4,5) in \<open>simp_all add: s1_def copied_Nil\<close>)
      ultimately show ?thesis by (intro exI[of _ "pdata s1"]) (simp add: s1_def)
    next
      case False
      then have n: "k = blen ?B a" by (simp add: k_def)
      have "\<exists>m. take_loop (pb_next (?B a)) d (n - w) (c + w) s1 = Some (c + w + (n - w), s1\<lparr>pdata := m\<rparr>) \<and>
          copied (pdata s1) m (addrs (pbufs s1) as) [d + unat (c + w)..<d + unat (c + w) + unat (n - w)]"
        by (rule Cons.IH) (use Cons.prems k u n in \<open>auto simp: s1_def\<close>)
      then obtain m where m: "take_loop (pb_next (?B a)) d (n - w) (c + w) s1 = Some (c + n, s\<lparr>pdata := m\<rparr>)"
          "copied (pdata s1) m (addrs ?B as) [d + unat c + k..<d + unat c + unat n]"
        unfolding u using k by (auto simp: s1_def add.assoc)
      have "copied (pdata s) m (addrs ?B (a # as)) [d + unat c..<d + unat c + unat n]"
      proof (rule copied_chunk)
        show "addrs ?B (a # as) = [pb_payload (?B a)..<pb_payload (?B a) + k] @ addrs ?B as" by (simp add: n)
        show "[d + unat c..<d + unat c + unat n] = [d + unat c..<d + unat c + k] @ [d + unat c + k..<d + unat c + unat n]"
          by (rule upt_chunk[OF k(1)])
      qed (use Cons.prems(4,5) m(2) in \<open>simp_all add: s1_def\<close>)
      then show ?thesis using m(1) step by auto
    qed
  qed
qed

lemma pbuf_take_value:
  assumes "packet (pbufs s) p as" "p \<noteq> 0" "d \<noteq> 0" "unat n \<le> lens (pbufs s) as"
    and "distinct (addrs (pbufs s) as)" "set (addrs (pbufs s) as) \<inter> {d..<d + unat n} = {}"
  shows "\<exists>m. pbuf_take p d n s = Some (ERR_OK, s\<lparr>pdata := m\<rparr>) \<and> copied (pdata s) m (addrs (pbufs s) as) [d..<d + unat n]"
proof -
  obtain m where m: "take_loop p d n 0 s = Some (0 + n, s\<lparr>pdata := m\<rparr>)" "copied (pdata s) m (addrs (pbufs s) as) [d + unat (0 :: u16_t)..<d + unat (0 :: u16_t) + unat n]"
    using take_loop_value[of s p as n 0 d] assms unat_bounds(2)[of n] by (auto simp: packet_def)
  have "\<not> pb_tot_len (pbufs s p) < n"
    using assms(1,2,4) by (cases as) (auto simp: packet_Cons word_less_nat_alt)
  then show ?thesis using m assms(2,3) by (auto simp: pbuf_take_def LWIP_ASSERT_def)
qed

text \<open>No buffer of a packet without empty buffers looks like the end of a packet in a queue.\<close>

lemma packet_no_queue:
  assumes "packet B p as" "\<forall>a\<in>set as. 0 < blen B a" "p \<noteq> 0"
  shows "\<not> (pb_len (B p) = pb_tot_len (B p) \<and> pb_next (B p) \<noteq> 0)"
proof (cases as)
  case (Cons a bs)
  have t: "p = a" "unat (pb_tot_len (B a)) = blen B a + lens B bs" "packet B (pb_next (B a)) bs"
    using assms(1) Cons by (auto simp: packet_Cons)
  show ?thesis
  proof (cases bs)
    case Nil
    then show ?thesis using t(1,3) by simp
  next
    case (Cons b cs)
    then have "0 < lens B bs" using assms(2) \<open>as = a # bs\<close> by simp
    then have "blen B a \<noteq> unat (pb_tot_len (B a))" using t(2) by linarith
    then show ?thesis using t(1) by metis
  qed
qed (use assms in simp)

lemma copy_loop_step:
  assumes "unat ot < blen (pbufs s) a" "unat fo < blen (pbufs s) b"
    and n: "n = min (blen (pbufs s) a - unat ot) (blen (pbufs s) b - unat fo)"
    and s1: "s1 = s\<lparr>pdata := memcpy (pb_payload (pbufs s a) + unat ot) (pb_payload (pbufs s b) + unat fo) n (pdata s)\<rparr>"
    and pf: "pf = (if unat fo + n = blen (pbufs s) b then pb_next (pbufs s b) else b)"
    and pt: "pt = (if unat ot + n = blen (pbufs s) a then pb_next (pbufs s a) else a)"
    and q: "pt \<noteq> 0 \<or> pf = 0"
      "pf \<noteq> 0 \<Longrightarrow> \<not> (pb_len (pbufs s pf) = pb_tot_len (pbufs s pf) \<and> pb_next (pbufs s pf) \<noteq> 0)"
      "pt \<noteq> 0 \<Longrightarrow> \<not> (pb_len (pbufs s pt) = pb_tot_len (pbufs s pt) \<and> pb_next (pbufs s pt) \<noteq> 0)"
  shows "copy_loop a ot b fo s =
    (if pf = 0 then Some (ERR_OK, s1)
     else copy_loop pt (if unat ot + n = blen (pbufs s) a then 0 else ot + of_nat n)
            pf (if unat fo + n = blen (pbufs s) b then 0 else fo + of_nat n) s1)"
proof -
  define w where "w = (if int (blen (pbufs s) a) - int (unat ot) \<ge> int (blen (pbufs s) b) - int (unat fo)
                 then pb_len (pbufs s b) - fo else pb_len (pbufs s a) - ot)"
  have "(int (blen (pbufs s) a) - int (unat ot) \<ge> int (blen (pbufs s) b) - int (unat fo)) =
      (blen (pbufs s) b - unat fo \<le> blen (pbufs s) a - unat ot)" using assms(1,2) by linarith
  then have uw: "unat w = n" using assms(1,2) by (simp add: w_def n u16_simps del: of_nat_unat)
  have w: "w = of_nat n" unfolding uw[symmetric] by simp
  have bnd: "unat ot + n < 2 ^ 16" "unat fo + n < 2 ^ 16"
    using n unat_bounds(2)[of "pb_len (pbufs s a)"] unat_bounds(2)[of "pb_len (pbufs s b)"] assms(1,2) by auto
  then have u: "unat (ot + w) = unat ot + n" "unat (fo + w) = unat fo + n" using uw by (simp_all add: unat_word_ariths)
  have nl: "n \<le> blen (pbufs s) a - unat ot" "n \<le> blen (pbufs s) b - unat fo" by (simp_all add: n)
  have le: "ot + w \<le> pb_len (pbufs s a)" "fo + w \<le> pb_len (pbufs s b)"
    using u nl assms(1,2) by (simp_all add: word_le_nat_alt)
  have st: "(ot + w = pb_len (pbufs s a)) = (unat ot + n = blen (pbufs s) a)"
      "(pb_len (pbufs s b) \<le> fo + w) = (unat fo + n = blen (pbufs s) b)"
    using u le by (auto simp: word_unat_eq_iff word_le_nat_alt)
  show ?thesis
    apply (subst copy_loop.simps)
    apply (simp only: Let_def w_def[symmetric] uw st LWIP_ASSERT_def le if_True pf[symmetric] pt[symmetric] s1[symmetric])
    using q by (auto simp: s1 w)
qed

lemma copy_loop_value:
  assumes "packet (pbufs s) a (a # as)" "packet (pbufs s) b (b # bs)"
    and "\<forall>x\<in>set (a # as @ b # bs). 0 < blen (pbufs s) x" "unat ot < blen (pbufs s) a" "unat fo < blen (pbufs s) b"
    and "lens (pbufs s) (b # bs) - unat fo \<le> lens (pbufs s) (a # as) - unat ot"
    and "distinct (drop (unat ot) (addrs (pbufs s) (a # as)))"
    and "set (drop (unat ot) (addrs (pbufs s) (a # as))) \<inter> set (drop (unat fo) (addrs (pbufs s) (b # bs))) = {}"
  shows "\<exists>m. copy_loop a ot b fo s = Some (ERR_OK, s\<lparr>pdata := m\<rparr>) \<and>
    copied (pdata s) m (drop (unat ot) (addrs (pbufs s) (a # as))) (drop (unat fo) (addrs (pbufs s) (b # bs)))"
  using assms
proof (induction "length as + length bs" arbitrary: a as b bs ot fo s rule: less_induct)
  case less
  let ?B = "pbufs s" and ?pa = "pb_payload (pbufs s a)" and ?pb = "pb_payload (pbufs s b)"
  define n where "n = min (blen ?B a - unat ot) (blen ?B b - unat fo)"
  define m1 where "m1 = memcpy (?pa + unat ot) (?pb + unat fo) n (pdata s)"
  define s1 where "s1 = s\<lparr>pdata := m1\<rparr>"
  define ea where "ea \<longleftrightarrow> unat ot + n = blen ?B a"
  define eb where "eb \<longleftrightarrow> unat fo + n = blen ?B b"
  define pt where "pt = (if ea then pb_next (?B a) else a)"
  define pf where "pf = (if eb then pb_next (?B b) else b)"
  define as' where "as' = (if ea then as else a # as)"
  define bs' where "bs' = (if eb then bs else b # bs)"
  define ot' where "ot' = (if ea then 0 else ot + of_nat n)"
  define fo' where "fo' = (if eb then 0 else fo + of_nat n)"
  have ns: "n \<le> blen ?B a - unat ot" "n \<le> blen ?B b - unat fo" by (simp_all add: n_def)
  have "unat (ot + of_nat n) = unat ot + n" "unat (fo + of_nat n) = unat fo + n"
    using ns less.prems(4,5) unat_bounds(2)[of "pb_len (?B a)"] unat_bounds(2)[of "pb_len (?B b)"]
    by (simp_all add: unat_word_ariths unat_of_nat)
  note u = this
  have k: "packet ?B pt as'" "packet ?B pf bs'"
    using less.prems(1,2) by (simp_all add: pt_def pf_def as'_def bs'_def packet_Cons)
  have pos: "\<forall>x\<in>set as'. 0 < blen ?B x" "\<forall>x\<in>set bs'. 0 < blen ?B x"
    using less.prems(3) by (auto simp: as'_def bs'_def)
  have D: "drop (unat ot) (addrs ?B (a # as)) = [?pa + unat ot..<?pa + unat ot + n] @ drop (unat ot') (addrs ?B as')"
  proof -
    have "drop (unat ot) [?pa..<?pa + blen ?B a] = [?pa + unat ot..<?pa + unat ot + n] @ [?pa + unat ot + n..<?pa + blen ?B a]"
      using upt_chunk[OF ns(1), of "?pa + unat ot"] less.prems(4) by simp
    then show ?thesis using less.prems(4) ns u by (auto simp: as'_def ot'_def ea_def add.assoc)
  qed
  have S: "drop (unat fo) (addrs ?B (b # bs)) = [?pb + unat fo..<?pb + unat fo + n] @ drop (unat fo') (addrs ?B bs')"
  proof -
    have "drop (unat fo) [?pb..<?pb + blen ?B b] = [?pb + unat fo..<?pb + unat fo + n] @ [?pb + unat fo + n..<?pb + blen ?B b]"
      using upt_chunk[OF ns(2), of "?pb + unat fo"] less.prems(5) by simp
    then show ?thesis using less.prems(5) ns u by (auto simp: bs'_def fo'_def eb_def add.assoc)
  qed
  have ln: "lens ?B bs' - unat fo' \<le> lens ?B as' - unat ot'"
    using arg_cong[OF D, of length] arg_cong[OF S, of length] less.prems(4-6) by simp
  have fin: "copied (pdata s) m (drop (unat ot) (addrs ?B (a # as))) (drop (unat fo) (addrs ?B (b # bs)))"
    if "copied m1 m (drop (unat ot') (addrs ?B as')) (drop (unat fo') (addrs ?B bs'))" for m
    by (rule copied_chunk[OF D S less.prems(7,8) that[unfolded m1_def]])
  have ot': "as' \<noteq> [] \<Longrightarrow> unat ot' < blen ?B (hd as')" and fo': "bs' \<noteq> [] \<Longrightarrow> unat fo' < blen ?B (hd bs')"
    using pos ns u less.prems(4,5) by (auto simp: ot'_def fo'_def as'_def bs'_def ea_def eb_def)
  have ne: "as' \<noteq> []" if "bs' \<noteq> []"
  proof
    assume "as' = []"
    moreover have "unat fo' < lens ?B bs'" using fo'[OF that] that by (cases bs') auto
    ultimately show False using ln by simp
  qed
  have z: "pt = 0 \<longleftrightarrow> as' = []" "pf = 0 \<longleftrightarrow> bs' = []"
    using k packet_0 packet_Nil by metis+
  have step: "copy_loop a ot b fo s = (if pf = 0 then Some (ERR_OK, s1) else copy_loop pt ot' pf fo' s1)"
    unfolding ot'_def fo'_def ea_def eb_def
  proof (rule copy_loop_step[OF less.prems(4,5) n_def])
    show "pt \<noteq> 0 \<or> pf = 0" using z ne by blast
  qed (use packet_no_queue[OF k(1) pos(1)] packet_no_queue[OF k(2) pos(2)] in \<open>auto simp: s1_def m1_def pf_def pt_def ea_def eb_def\<close>)
  show ?case
  proof (cases "bs' = []")
    case True
    then show ?thesis using fin[of m1] step z copied_Nil by (intro exI[of _ m1]) (simp add: s1_def)
  next
    case False
    obtain a' as2 b' bs2 where l: "as' = a' # as2" "bs' = b' # bs2" using False ne by (meson neq_Nil_conv)
    have h: "pt = a'" "pf = b'" using k l by (simp_all add: packet_Cons)
    have dd: "distinct (drop (unat ot') (addrs ?B as'))"
        "set (drop (unat ot') (addrs ?B as')) \<inter> set (drop (unat fo') (addrs ?B bs')) = {}"
      using less.prems(7,8) unfolding D S by auto
    have "ea \<or> eb" using less.prems(4,5) by (auto simp: ea_def eb_def n_def min_def)
    then have meas: "length as2 + length bs2 < length as + length bs"
      using l by (auto simp: as'_def bs'_def split: if_splits)
    have "\<exists>m. copy_loop a' ot' b' fo' s1 = Some (ERR_OK, s1\<lparr>pdata := m\<rparr>) \<and>
        copied (pdata s1) m (drop (unat ot') (addrs (pbufs s1) (a' # as2))) (drop (unat fo') (addrs (pbufs s1) (b' # bs2)))"
      by (rule less.hyps[OF meas]) (use k pos ot' fo' ln dd l h in \<open>auto simp: s1_def\<close>)
    then obtain m where "copy_loop a' ot' b' fo' s1 = Some (ERR_OK, s\<lparr>pdata := m\<rparr>)"
        "copied m1 m (drop (unat ot') (addrs ?B as')) (drop (unat fo') (addrs ?B bs'))" by (auto simp: s1_def l)
    then show ?thesis using fin step z False h by (intro exI[of _ m]) simp
  qed
qed

lemma pbuf_copy_value:
  assumes "packet (pbufs s) a (a # as)" "packet (pbufs s) b (b # bs)" "\<forall>x\<in>set (a # as @ b # bs). 0 < blen (pbufs s) x"
    and "lens (pbufs s) (b # bs) \<le> lens (pbufs s) (a # as)"
    and "distinct (addrs (pbufs s) (a # as))" "set (addrs (pbufs s) (a # as)) \<inter> set (addrs (pbufs s) (b # bs)) = {}"
  shows "\<exists>m. pbuf_copy a b s = Some (ERR_OK, s\<lparr>pdata := m\<rparr>) \<and>
    contents (pbufs s) m (a # as) = contents (pbufs s) (pdata s) (b # bs) @
      drop (lens (pbufs s) (b # bs)) (contents (pbufs s) (pdata s) (a # as)) \<and>
    (\<forall>x. x \<notin> set (addrs (pbufs s) (a # as)) \<longrightarrow> m x = pdata s x)"
proof -
  obtain m where m: "copy_loop a 0 b 0 s = Some (ERR_OK, s\<lparr>pdata := m\<rparr>)"
      "copied (pdata s) m (addrs (pbufs s) (a # as)) (addrs (pbufs s) (b # bs))"
    using copy_loop_value[OF assms(1-3), of 0 0] assms by (auto simp del: addrs_simps)
  have "pb_tot_len (pbufs s a) \<ge> pb_tot_len (pbufs s b)" "a \<noteq> 0" "b \<noteq> 0"
    using assms(1,2,4) by (simp_all add: packet_Cons word_le_nat_alt)
  then have "pbuf_copy a b s = Some (ERR_OK, s\<lparr>pdata := m\<rparr>)" using m(1) by (simp add: pbuf_copy_def)
  moreover have "contents (pbufs s) m (a # as) = contents (pbufs s) (pdata s) (b # bs) @
      drop (lens (pbufs s) (b # bs)) (contents (pbufs s) (pdata s) (a # as))"
    using copied_contents[OF m(2) assms(5)] assms(4) by (simp only: length_addrs contents_addrs[symmetric])
  moreover have "m x = pdata s x" if "x \<notin> set (addrs (pbufs s) (a # as))" for x
    using that m(2) in_set_takeD unfolding copied_def by fast
  ultimately show ?thesis by blast
qed

subsection \<open>Linking chains\<close>

text \<open>What \<^verbatim>\<open>pbuf_cat\<close> does to the structs of the head chain.\<close>

definition cat_store :: "nat \<Rightarrow> nat list \<Rightarrow> pstore \<Rightarrow> pstore" where
  "cat_store t as B = (\<lambda>x. if x \<in> set as
     then (B x)\<lparr>pb_tot_len := pb_tot_len (B x) + pb_tot_len (B t), pb_next := (if x = last as then t else pb_next (B x))\<rparr>
     else B x)"

lemma cat_loop_value:
  "pchain (pbufs s) h as \<Longrightarrow> as \<noteq> [] \<Longrightarrow> distinct as \<Longrightarrow> t \<notin> set as \<Longrightarrow>
     cat_loop t h s = Some (last as, s\<lparr>pbufs := (\<lambda>x. if x \<in> set (butlast as)
        then (pbufs s x)\<lparr>pb_tot_len := pb_tot_len (pbufs s x) + pb_tot_len (pbufs s t)\<rparr> else pbufs s x)\<rparr>)"
proof (induction as arbitrary: h s)
  case (Cons a as)
  show ?case
  proof (cases as)
    case Nil
    then show ?thesis using Cons.prems by (subst cat_loop.simps) simp
  next
    case (Cons b bs)
    let ?s = "upd_pbuf a (\<lambda>b. b\<lparr>pb_tot_len := pb_tot_len b + pb_tot_len (pbufs s t)\<rparr>) s"
    have "pchain (pbufs ?s) (pb_next (pbufs s a)) as"
      using Cons.prems(1,3) pchain_cong[of as "pbufs ?s" "pbufs s"] by (auto simp: upd_pbuf_def)
    moreover have "cat_loop t h s = cat_loop t (pb_next (pbufs s a)) ?s"
      using Cons.prems(1) Cons by (subst cat_loop.simps) (simp add: upd_pbuf_def)
    moreover have "as \<noteq> []" "distinct as" "t \<notin> set as" using Cons Cons.prems(3,4) by simp_all
    ultimately have "cat_loop t h s = Some (last as, ?s\<lparr>pbufs := (\<lambda>x. if x \<in> set (butlast as)
        then (pbufs ?s x)\<lparr>pb_tot_len := pb_tot_len (pbufs ?s x) + pb_tot_len (pbufs ?s t)\<rparr> else pbufs ?s x)\<rparr>)"
      using Cons.IH[of ?s "pb_next (pbufs s a)"] by metis
    moreover have "a \<notin> set (butlast as)" "t \<noteq> a" using Cons.prems(3,4) by (auto dest: in_set_butlastD)
    ultimately show ?thesis using \<open>as \<noteq> []\<close> by (auto simp: upd_pbuf_def fun_eq_iff)
  qed
qed simp

lemma cat_store_simps [simp]:
  "pb_len (cat_store t as B x) = pb_len (B x)" "pb_payload (cat_store t as B x) = pb_payload (B x)"
  "pb_ref (cat_store t as B x) = pb_ref (B x)" "pb_type (cat_store t as B x) = pb_type (B x)"
  "x \<notin> set as \<Longrightarrow> cat_store t as B x = B x"
  by (simp_all add: cat_store_def)

lemma contents_same_fields:
  "(\<And>a. a \<in> set as \<Longrightarrow> pb_len (B' a) = pb_len (B a) \<and> pb_payload (B' a) = pb_payload (B a)) \<Longrightarrow> contents B' m as = contents B m as"
  by (induction as) (simp_all add: bdata_def)

lemma packet_cong:
  "packet B p as \<Longrightarrow> (\<And>a. a \<in> set as \<Longrightarrow> pb_len (B' a) = pb_len (B a) \<and> pb_tot_len (B' a) = pb_tot_len (B a) \<and>
     pb_next (B' a) = pb_next (B a)) \<Longrightarrow> packet B' p as"
  using pchain_cong[of as B' B p] totals_cong[of as B' B] by (simp add: packet_def)

lemma packet_cat_store:
  assumes "packet B t bs" "t \<noteq> 0"
  shows "packet B h as \<Longrightarrow> as \<noteq> [] \<Longrightarrow> set as \<inter> set bs = {} \<Longrightarrow> lens B as + lens B bs < 2 ^ 16 \<Longrightarrow>
     packet (cat_store t as B) h (as @ bs)"
proof (induction as arbitrary: h)
  case (Cons a as)
  have tt: "unat (pb_tot_len (B t)) = lens B bs" using assms by (cases bs) (auto simp: packet_Cons)
  have same: "lens (cat_store t as' B) cs = lens B cs" for as' cs by (rule lens_cong) simp
  have bs: "packet (cat_store t as' B) t bs" if "set as' \<inter> set bs = {}" for as'
  proof (rule packet_cong[OF assms(1)])
    fix a assume "a \<in> set bs"
    then have "a \<notin> set as'" using that by blast
    then show "pb_len (cat_store t as' B a) = pb_len (B a) \<and> pb_tot_len (cat_store t as' B a) = pb_tot_len (B a) \<and>
        pb_next (cat_store t as' B a) = pb_next (B a)" by simp
  qed
  have ta: "unat (pb_tot_len (B a) + pb_tot_len (B t)) = lens B (a # as) + lens B bs"
    using Cons.prems(1,4) tt by (simp add: packet_Cons unat_word_ariths)
  show ?case
  proof (cases as)
    case Nil
    then show ?thesis using Cons.prems bs[of "[a]"] ta same[of "[a]" bs]
      by (auto simp: packet_Cons cat_store_def)
  next
    case (Cons b cs)
    have "packet (cat_store t as B) (pb_next (B a)) (as @ bs)"
      using Cons.IH[of "pb_next (B a)"] Cons.prems Cons by (auto simp: packet_Cons)
    then have "packet (cat_store t (a # as) B) (pb_next (B a)) (as @ bs)"
      by (rule packet_cong) (use Cons.prems Cons in \<open>auto simp: cat_store_def packet_Cons\<close>)
    then show ?thesis using Cons.prems ta Cons same[of "a # as" as] same[of "a # as" bs]
      by (auto simp: packet_Cons cat_store_def)
  qed
qed simp

lemma pbuf_cat_value:
  assumes "packet (pbufs s) h as" "packet (pbufs s) t bs" "h \<noteq> 0" "t \<noteq> 0" "set as \<inter> set bs = {}"
  shows "pbuf_cat h t s = Some (s\<lparr>pbufs := cat_store t as (pbufs s)\<rparr>)"
proof -
  have "t \<in> set bs" using assms(2,4) by (cases bs) (auto simp: packet_Cons)
  then have as: "as \<noteq> []" "t \<notin> set as" using assms(1,3,5) by auto
  have last: "pb_next (pbufs s (last as)) = 0 \<and> pb_tot_len (pbufs s (last as)) = pb_len (pbufs s (last as))"
    using assms(1) as(1)
  proof (induction as arbitrary: h)
    case (Cons a as)
    then show ?case by (cases as) (auto simp: packet_Cons word_unat_eq_iff)
  qed simp
  have mem: "x \<in> set as \<longleftrightarrow> x = last as \<or> x \<in> set (butlast as)" for x
    using arg_cong[OF append_butlast_last_id[OF as(1)], of set] by auto
  have nb: "last as \<notin> set (butlast as)" using assms(1) as(1) last_notin_butlast by (auto simp: packet_def)
  have "cat_loop t h s = Some (last as, s\<lparr>pbufs := (\<lambda>x. if x \<in> set (butlast as)
        then (pbufs s x)\<lparr>pb_tot_len := pb_tot_len (pbufs s x) + pb_tot_len (pbufs s t)\<rparr> else pbufs s x)\<rparr>)"
    by (rule cat_loop_value) (use assms(1) as in \<open>simp_all add: packet_def\<close>)
  moreover have "t \<notin> set (butlast as)" "t \<noteq> last as" using as mem by auto
  ultimately show ?thesis using assms(3,4) last nb
    by (auto simp: pbuf_cat_def LWIP_ASSERT_def upd_pbuf_def cat_store_def fun_eq_iff mem)
qed

lemma clen_loop_value: "pchain (pbufs s) p as \<Longrightarrow> clen_loop p c s = Some (c + of_nat (length as))"
proof (induction as arbitrary: p c)
  case Nil
  then show ?case by (subst clen_loop.simps) simp
next
  case (Cons a as)
  then show ?case using Cons.IH[of "pb_next (pbufs s a)" "c + 1"] by (subst clen_loop.simps) (simp add: add.assoc)
qed

lemma upd_ref_packet: "packet (pbufs s) p as \<Longrightarrow> packet (pbufs (pbuf_ref t s)) p as"
  by (erule packet_cong) (simp add: pbuf_ref_def upd_pbuf_def)

lemma upd_ref_contents: "contents (pbufs (pbuf_ref t s)) m as = contents (pbufs s) m as"
  by (rule contents_same_fields) (simp add: pbuf_ref_def upd_pbuf_def)

subsection \<open>Examples\<close>

text \<open>Three buffers with 2, 3 and 5 bytes, the first two a packet and the third another one; the bytes
  \<^verbatim>\<open>aab\<close> lie in the first packet from its second byte on, \<^verbatim>\<open>ab\<close> at 900.\<close>

definition demo :: pbuf_state where
  "demo = \<lparr>pbufs = (\<lambda>a.
      if a = 100 then \<lparr>pb_next = 200, pb_payload = 1000, pb_tot_len = 5, pb_len = 2, pb_type = PBUF_RAM, pb_flags = 0, pb_ref = 1\<rparr>
      else if a = 200 then \<lparr>pb_next = 0, pb_payload = 2000, pb_tot_len = 3, pb_len = 3, pb_type = PBUF_RAM, pb_flags = 0, pb_ref = 1\<rparr>
      else \<lparr>pb_next = 0, pb_payload = 3000, pb_tot_len = 5, pb_len = 5, pb_type = PBUF_RAM, pb_flags = 0, pb_ref = 1\<rparr>),
    pdata = (\<lambda>x. if x = 1001 \<or> x = 2000 \<or> x = 900 then 97 else if x = 2001 \<or> x = 901 then 98 else 7),
    pheap = \<lparr>ram = 0, ram_end = 0, lfree = 0, mbytes = (\<lambda>_. 0),
      mstats = \<lparr>st_avail = 0, st_used = 0, st_max = 0, st_err = 0, st_illegal = 0\<rparr>\<rparr>,
    ppools = \<lparr>memp_tab = (\<lambda>_. 0), pbytes = (\<lambda>_. 0),
      pstats = (\<lambda>_. \<lparr>st_avail = 0, st_used = 0, st_max = 0, st_err = 0, st_illegal = 0\<rparr>)\<rparr>,
    pbuf_free_ooseq_pending = 0\<rparr>"

lemma demo_packets: "packet (pbufs demo) 100 [100, 200]" "packet (pbufs demo) 300 [300]"
  by (simp_all add: packet_Cons demo_def)

lemma demo_lens: "lens (pbufs demo) [100, 200] = 5" "lens (pbufs demo) [300] = 5"
  by (simp_all add: demo_def)

lemma demo_addrs: "addrs (pbufs demo) [100, 200] = [1000, 1001, 2000, 2001, 2002]"
    "addrs (pbufs demo) [300] = [3000, 3001, 3002, 3003, 3004]"
  by (simp_all add: demo_def upt_rec)

text \<open>\<^verbatim>\<open>pbuf_memfind\<close> advances past the byte that differed, so it can miss an occurrence that starts there:
  \<^verbatim>\<open>ab\<close> is not found in a packet that holds \<^verbatim>\<open>aab\<close>.\<close>

lemma pbuf_memfind_misses:
  "pbuf_memfind 100 900 2 0 demo = Some 0xFFFF \<and>
   take 2 (drop 2 (contents (pbufs demo) (pdata demo) [100, 200])) = data_at (pdata demo) 900 2"
proof
  show "pbuf_memfind 100 900 2 0 demo = Some 0xFFFF" by code_simp
  show "take 2 (drop 2 (contents (pbufs demo) (pdata demo) [100, 200])) = data_at (pdata demo) 900 2"
    by code_simp
qed

text \<open>A search for the empty string from the end of the packet reports a position before its start.\<close>

lemma pbuf_memfind_empty_backwards: "pbuf_memfind 100 900 0 5 demo = Some 4"
  by code_simp

text \<open>A comparison past the end of the packet goes on with zeros.\<close>

lemma pbuf_memcmp_past_end:
  "pbuf_memcmp 100 4 800 2 (demo\<lparr>pdata := (pdata demo)(801 := 0)\<rparr>) = Some 0"
  by code_simp

subsection \<open>Properties\<close>

text \<open>C37. \<^verbatim>\<open>pbuf_take\<close> fills a packet, whatever its division into buffers, with the \<open>n\<close> bytes of the
  application (no more than the packet holds) and leaves the rest of its contents; and
  \<^verbatim>\<open>pbuf_copy_partial\<close> then returns, for every length and offset, exactly that part of the contents and
  its length. Both return, when the three memory areas do not overlap.\<close>

theorem pbuf_take_copy_partial:
  assumes "packet (pbufs s) p as" "p \<noteq> 0" "src \<noteq> 0" "dst \<noteq> 0" "unat n \<le> lens (pbufs s) as"
    and "distinct (addrs (pbufs s) as)" "set (addrs (pbufs s) as) \<inter> {src..<src + unat n} = {}"
    and "clear (pbufs s) as dst (unat len)"
  shows "\<exists>m m' xs. pbuf_take p src n s = Some (ERR_OK, s\<lparr>pdata := m\<rparr>) \<and>
    contents (pbufs s) m as = data_at (pdata s) src (unat n) @ drop (unat n) (contents (pbufs s) (pdata s) as) \<and>
    xs = take (unat len) (drop (unat off) (contents (pbufs s) m as)) \<and>
    pbuf_copy_partial p dst len off (s\<lparr>pdata := m\<rparr>) = Some (of_nat (length xs), s\<lparr>pdata := m'\<rparr>) \<and>
    data_at m' dst (length xs) = xs"
proof -
  obtain m where m: "pbuf_take p src n s = Some (ERR_OK, s\<lparr>pdata := m\<rparr>)"
      "copied (pdata s) m (addrs (pbufs s) as) [src..<src + unat n]"
    using pbuf_take_value[OF assms(1-3,5-7)] by blast
  have "contents (pbufs s) m as = data_at (pdata s) src (unat n) @ drop (unat n) (contents (pbufs s) (pdata s) as)"
    using copied_contents[OF m(2) assms(6)] assms(5) by (simp add: data_at_map)
  moreover have "\<exists>m' xs. xs = take (unat len) (drop (unat off) (contents (pbufs s) m as)) \<and>
      pbuf_copy_partial p dst len off (s\<lparr>pdata := m\<rparr>) = Some (of_nat (length xs), s\<lparr>pdata := m'\<rparr>) \<and> data_at m' dst (length xs) = xs"
    using pbuf_copy_partial_value[of "s\<lparr>pdata := m\<rparr>" p as dst len off] assms(1,2,4,8) by auto
  ultimately show ?thesis using m(1) by blast
qed

theorem pbuf_take_copy_partial_witness:
  "\<exists>m m' xs. pbuf_take 100 900 4 demo = Some (ERR_OK, demo\<lparr>pdata := m\<rparr>) \<and>
     pbuf_copy_partial 100 800 3 1 (demo\<lparr>pdata := m\<rparr>) = Some (of_nat (length xs), demo\<lparr>pdata := m'\<rparr>) \<and> data_at m' 800 (length xs) = xs"
proof -
  have "clear (pbufs demo) [100, 200] 800 (unat (3 :: u16_t))" by (auto simp: clear_def span_def demo_def)
  note c = this
  have "distinct (addrs (pbufs demo) [100, 200])" "set (addrs (pbufs demo) [100, 200]) \<inter> {900..<900 + unat (4 :: u16_t)} = {}"
    "unat (4 :: u16_t) \<le> lens (pbufs demo) [100, 200]" unfolding demo_addrs demo_lens by simp_all
  note d = this
  have nz: "(100 :: nat) \<noteq> 0" "(900 :: nat) \<noteq> 0" "(800 :: nat) \<noteq> 0" by simp_all
  from pbuf_take_copy_partial[OF demo_packets(1) nz d(3,1,2) c, of 1] show ?thesis by blast
qed

text \<open>\<^verbatim>\<open>pbuf_copy\<close> of a packet into one that is at least as long, in any division of the two into
  non-empty buffers: it returns \<^verbatim>\<open>ERR_OK\<close>, the target begins with the contents of the source, and
  nothing else in memory changes.\<close>

theorem pbuf_copy_correct:
  assumes "packet (pbufs s) a (a # as)" "packet (pbufs s) b (b # bs)" "\<forall>x\<in>set (a # as @ b # bs). 0 < blen (pbufs s) x"
    and "lens (pbufs s) (b # bs) \<le> lens (pbufs s) (a # as)"
    and "distinct (addrs (pbufs s) (a # as))" "set (addrs (pbufs s) (a # as)) \<inter> set (addrs (pbufs s) (b # bs)) = {}"
  shows "\<exists>m. pbuf_copy a b s = Some (ERR_OK, s\<lparr>pdata := m\<rparr>) \<and>
    contents (pbufs s) m (a # as) = contents (pbufs s) (pdata s) (b # bs) @
      drop (lens (pbufs s) (b # bs)) (contents (pbufs s) (pdata s) (a # as)) \<and>
    (\<forall>x. x \<notin> set (addrs (pbufs s) (a # as)) \<longrightarrow> m x = pdata s x)"
  by (rule pbuf_copy_value[OF assms])

theorem pbuf_copy_correct_witness:
  "\<exists>m. pbuf_copy 300 100 demo = Some (ERR_OK, demo\<lparr>pdata := m\<rparr>) \<and>
     contents (pbufs demo) m [300] = contents (pbufs demo) (pdata demo) [100, 200]"
proof -
  have "\<forall>x\<in>set (300 # [] @ 100 # [200]). 0 < blen (pbufs demo) x" by (simp add: demo_def)
  moreover have "distinct (addrs (pbufs demo) [300])" "set (addrs (pbufs demo) [300]) \<inter> set (addrs (pbufs demo) [100, 200]) = {}"
    unfolding demo_addrs by simp_all
  moreover have "length (contents (pbufs demo) (pdata demo) [300]) = 5" unfolding length_contents demo_lens ..
  ultimately show ?thesis
    using pbuf_copy_correct[OF demo_packets(2) demo_packets(1)] unfolding demo_lens by (metis append_Nil2 drop_all order_refl)
qed

text \<open>C38. \<^verbatim>\<open>pbuf_cat\<close> and \<^verbatim>\<open>pbuf_chain\<close> join two packets of together less than 64 KB into one packet: the
  \<^verbatim>\<open>tot_len\<close> fields of every buffer are again the sums from there on, the contents are those of the
  first followed by those of the second, \<^verbatim>\<open>pbuf_clen\<close> counts both chains (modulo 256), and only
  \<^verbatim>\<open>pbuf_chain\<close> takes a new reference to the second.\<close>

theorem pbuf_cat_chain:
  assumes "packet (pbufs s) h as" "packet (pbufs s) t bs" "h \<noteq> 0" "t \<noteq> 0" "set as \<inter> set bs = {}"
    and "lens (pbufs s) as + lens (pbufs s) bs < 2 ^ 16"
  shows "\<exists>u v. pbuf_cat h t s = Some u \<and> pbuf_chain h t s = Some v \<and>
    packet (pbufs u) h (as @ bs) \<and> packet (pbufs v) h (as @ bs) \<and>
    contents (pbufs u) (pdata u) (as @ bs) = contents (pbufs s) (pdata s) as @ contents (pbufs s) (pdata s) bs \<and>
    contents (pbufs v) (pdata v) (as @ bs) = contents (pbufs s) (pdata s) as @ contents (pbufs s) (pdata s) bs \<and>
    pbuf_clen h u = Some (of_nat (length as + length bs)) \<and>
    (\<forall>x. pb_ref (pbufs u x) = pb_ref (pbufs s x)) \<and>
    (\<forall>x. pb_ref (pbufs v x) = pb_ref (pbufs s x) + (if x = t then 1 else 0))"
proof -
  let ?u = "s\<lparr>pbufs := cat_store t as (pbufs s)\<rparr>"
  have u: "pbuf_cat h t s = Some ?u" by (rule pbuf_cat_value[OF assms(1-5)])
  then have v: "pbuf_chain h t s = Some (pbuf_ref t ?u)" by (simp add: pbuf_chain_def)
  have "as \<noteq> []" using assms(1,3) by auto
  then have pu: "packet (pbufs ?u) h (as @ bs)" using packet_cat_store[OF assms(2,4,1) _ assms(5,6)] by simp
  have c: "contents (pbufs ?u) (pdata s) (as @ bs) = contents (pbufs s) (pdata s) as @ contents (pbufs s) (pdata s) bs"
    by (simp add: contents_same_fields[of _ "cat_store t as (pbufs s)" "pbufs s"])
  have "pbuf_clen h ?u = Some (of_nat (length (as @ bs)))"
    using pu clen_loop_value[of ?u h "as @ bs" 0] by (simp add: pbuf_clen_def packet_def)
  moreover have "packet (pbufs (pbuf_ref t ?u)) h (as @ bs)" by (rule upd_ref_packet[OF pu])
  moreover have "contents (pbufs (pbuf_ref t ?u)) (pdata s) (as @ bs) = contents (pbufs s) (pdata s) as @ contents (pbufs s) (pdata s) bs"
    unfolding upd_ref_contents by (rule c)
  moreover have "pdata (pbuf_ref t ?u) = pdata s" "\<forall>x. pb_ref (pbufs (pbuf_ref t ?u) x) = pb_ref (pbufs s x) + (if x = t then 1 else 0)"
    using assms(4) by (simp_all add: pbuf_ref_def upd_pbuf_def)
  ultimately show ?thesis using u v pu c by (intro exI[of _ ?u] exI[of _ "pbuf_ref t ?u"]) simp
qed

theorem pbuf_cat_chain_witness:
  "\<exists>u. pbuf_cat 100 300 demo = Some u \<and> packet (pbufs u) 100 [100, 200, 300]"
  using pbuf_cat_chain[OF demo_packets] demo_lens by auto

text \<open>The search in a packet. \<^verbatim>\<open>pbuf_get_at\<close> returns the byte at an offset, or 0 past the end.
  \<^verbatim>\<open>pbuf_memfind\<close> of a non-empty string ends, and a position it reports lies at or after the start
  offset and holds the string. (It may miss occurrences: \<open>pbuf_memfind_misses\<close>.)\<close>

theorem pbuf_memfind_sound:
  assumes "packet (pbufs s) p as" "p \<noteq> 0" "n \<noteq> 0"
  shows "pbuf_get_at p off s = Some (if unat off < lens (pbufs s) as then contents (pbufs s) (pdata s) as ! unat off else 0) \<and>
    (\<exists>r. pbuf_memfind p str n start s = Some r \<and>
      (r = 0xFFFF \<or> start \<le> r \<and> take (unat n) (drop (unat r) (contents (pbufs s) (pdata s) as)) = data_at (pdata s) str (unat n)))"
proof (intro conjI)
  show "pbuf_get_at p off s = Some (if unat off < lens (pbufs s) as then contents (pbufs s) (pdata s) as ! unat off else 0)"
    using pbuf_get_at_value[of s p as off] assms(1) by (simp add: packet_def byte_of_def)
  have t: "unat (pb_tot_len (pbufs s p)) = lens (pbufs s) as" using assms(1,2) by (cases as) (auto simp: packet_Cons)
  have n: "0 < unat n" using assms(3) by (simp add: word_unat_eq_iff)
  show "\<exists>r. pbuf_memfind p str n start s = Some r \<and>
      (r = 0xFFFF \<or> start \<le> r \<and> take (unat n) (drop (unat r) (contents (pbufs s) (pdata s) as)) = data_at (pdata s) str (unat n))"
  proof (cases "unat n + unat start \<le> lens (pbufs s) as")
    case True
    then have mx: "unat (pb_tot_len (pbufs s p) - n) + unat n = lens (pbufs s) as" using t by (simp add: u16_simps)
    have "\<exists>r. memfind_loop p str n (pb_tot_len (pbufs s p) - n) start s = Some r \<and>
      (r = 0xffff \<or> unat start \<le> unat r \<and> unat r + unat n \<le> lens (pbufs s) as \<and>
         take (unat n) (drop (unat r) (contents (pbufs s) (pdata s) as)) = data_at (pdata s) str (unat n))"
      by (rule memfind_loop_value[OF assms(1) n mx]) (use True in auto)
    then show ?thesis using True t by (auto simp: pbuf_memfind_def word_le_nat_alt)
  next
    case False
    then show ?thesis using t by (simp add: pbuf_memfind_def)
  qed
qed

theorem pbuf_memfind_sound_witness:
  "pbuf_get_at 100 2 demo = Some 97 \<and> (\<exists>r. pbuf_memfind 100 901 1 0 demo = Some r)"
proof -
  have "contents (pbufs demo) (pdata demo) [100, 200] ! unat (2 :: u16_t) = 97"
    unfolding contents_addrs demo_addrs by (simp add: demo_def)
  then show ?thesis using pbuf_memfind_sound[OF demo_packets(1), of 1 2 901 0] unfolding demo_lens by auto
qed

text \<open>\<^verbatim>\<open>pbuf_header\<close> with a negative increment hides the first \<open>n\<close> bytes of a packet, which stays a packet
  with the contents without them; the positive increment brings a heap or pool buffer back to exactly
  the state before, and is refused for a buffer that refers to foreign memory; hiding more than the first
  buffer holds is refused without a change.\<close>

theorem pbuf_header_round_trip:
  assumes "packet (pbufs s) p (p # as)" "0 < n" "n < 2 ^ 15"
    and "p + SIZEOF_STRUCT_PBUF \<le> pb_payload (pbufs s p)" "pb_payload (pbufs s p) + n < 2 ^ 32"
  shows "if n \<le> blen (pbufs s) p
    then \<exists>t. pbuf_header p (- int n) s = Some (0, t) \<and> packet (pbufs t) p (p # as) \<and>
      contents (pbufs t) (pdata t) (p # as) = drop n (contents (pbufs s) (pdata s) (p # as)) \<and>
      pbuf_header p (int n) t = (if pb_type (pbufs s p) \<in> {PBUF_RAM, PBUF_POOL} then Some (0, s) else Some (1, t))
    else pbuf_header p (- int n) s = Some (1, s)"
proof (cases "n \<le> blen (pbufs s) p")
  case True
  let ?B = "pbufs s"
  define b where "b = (?B p)\<lparr>pb_payload := pb_payload (?B p) + n, pb_len := pb_len (?B p) - of_nat n, pb_tot_len := pb_tot_len (?B p) - of_nat n\<rparr>"
  define t where "t = s\<lparr>pbufs := ?B(p := b)\<rparr>"
  have k: "p \<noteq> 0" "p \<notin> set as" "unat (pb_tot_len (?B p)) = blen ?B p + lens ?B as" "packet ?B (pb_next (?B p)) as"
    using assms(1) by (simp_all add: packet_Cons)
  have un: "unat (of_nat n :: u16_t) = n" using assms(3) by (simp add: unat_of_nat)
  have u: "unat (pb_len b) = blen ?B p - n" "unat (pb_tot_len b) = unat (pb_tot_len (?B p)) - n" "pb_next b = pb_next (?B p)"
      "pb_payload b = pb_payload (?B p) + n" "pb_type b = pb_type (?B p)"
    using True k(3) un by (simp_all add: b_def u16_simps)
  have pay: "nat ((int (pb_payload (?B p)) - - int n) mod 2 ^ 32) = pb_payload (?B p) + n"
    using assms(5) by (simp add: nat_mod_as_int[symmetric] nat_int_add)
  have hide: "pbuf_header p (- int n) s = Some (0, t)"
    using k(1) assms(2,4,5) True pay
    by (cases "pb_type (?B p)") (auto simp: pbuf_header_def LWIP_ASSERT_def Let_def upd_pbuf_def t_def b_def)
  have pay2: "nat ((int (pb_payload b) - int n) mod 2 ^ 32) = pb_payload (?B p)"
    using assms(5) by (simp add: u)
  have restored: "b\<lparr>pb_payload := pb_payload (?B p), pb_len := pb_len b + of_nat n, pb_tot_len := pb_tot_len b + of_nat n\<rparr> = ?B p"
    by (simp add: b_def)
  have reveal: "pbuf_header p (int n) t = (if pb_type (?B p) \<in> {PBUF_RAM, PBUF_POOL} then Some (0, s) else Some (1, t))"
    using k(1) assms(2,4) pay2 restored u(5)
    by (cases "pb_type (?B p)") (auto simp: pbuf_header_def LWIP_ASSERT_def Let_def upd_pbuf_def t_def)
  have "packet (pbufs t) (pb_next (?B p)) as" by (rule packet_cong[OF k(4)]) (use k(2) in \<open>auto simp: t_def\<close>)
  moreover have l: "lens (pbufs t) as = lens ?B as" by (rule lens_cong) (use k(2) in \<open>auto simp: t_def\<close>)
  ultimately have "packet (pbufs t) p (p # as)" using k True u by (simp add: packet_Cons) (simp add: t_def u)
  moreover have "contents (pbufs t) (pdata t) (p # as) = drop n (contents ?B (pdata s) (p # as))"
  proof -
    have "contents (pbufs t) (pdata s) as = contents ?B (pdata s) as"
      by (rule contents_same_fields) (use k(2) in \<open>auto simp: t_def\<close>)
    then show ?thesis using True by (simp add: bdata_def drop_data_at) (simp add: t_def u)
  qed
  ultimately show ?thesis using True hide reveal by auto
next
  case False
  then have "pbuf_header p (- int n) s = Some (1, s)"
    using assms(1,2) by (auto simp: pbuf_header_def LWIP_ASSERT_def Let_def packet_Cons)
  then show ?thesis using False by simp
qed

theorem pbuf_header_round_trip_witness:
  "\<exists>t. pbuf_header 100 (- 1) demo = Some (0, t) \<and> pbuf_header 100 1 t = Some (0, demo)"
proof -
  have "packet (pbufs demo) 100 (100 # [200])" "100 + SIZEOF_STRUCT_PBUF \<le> pb_payload (pbufs demo 100)"
    "pb_payload (pbufs demo 100) + 1 < 2 ^ 32" "1 \<le> blen (pbufs demo) 100" "pb_type (pbufs demo 100) = PBUF_RAM"
    using demo_packets(1) by (simp_all add: demo_def)
  then show ?thesis using pbuf_header_round_trip[of demo 100 "[200]" 1] by auto
qed

end
