(* ===== verification/Mem_Heap.thy ===== *)
theory Mem_Heap
  imports Mem
begin

section \<open>The lwIP heap: invariant and behaviour\<close>

text \<open>
  The abstract heap is the list of its areas, each with its size (struct included) and use mark,
  in address order. \<open>heap_ok s bl\<close> relates the byte memory to the list and says that no two free
  areas are adjacent, that \<^verbatim>\<open>lfree\<close> is the lowest free area, and that the statistics count the
  used bytes. Every operation is shown to return and to act on the list as first fit with
  splitting, coalescing and trimming do; the heap then is an instance of the \<open>allocator\<close> contract.
\<close>

subsection \<open>Reading and writing the structs\<close>

lemma mfields_same [store_simps]:
  "mnext (set_mnext a v m) a = v mod 2 ^ 32" "mprev (set_mnext a v m) a = mprev m a"
  "mused (set_mnext a v m) a = mused m a"
  "mnext (set_mprev a v m) a = mnext m a" "mprev (set_mprev a v m) a = v mod 2 ^ 32"
  "mused (set_mprev a v m) a = mused m a"
  "mnext (set_mused a u m) a = mnext m a" "mprev (set_mused a u m) a = mprev m a"
  "mused (set_mused a u m) a = u"
  by (simp_all add: mnext_def mprev_def mused_def set_mnext_def set_mprev_def set_mused_def
      read32_write32_same read32_write32_other write32_outside)
    (simp_all add: read32_def)

lemma mfields_other [store_simps]:
  assumes "a + 12 \<le> b \<or> b + 12 \<le> a"
  shows "mnext (set_mnext a v m) b = mnext m b" "mprev (set_mnext a v m) b = mprev m b"
    "mused (set_mnext a v m) b = mused m b"
    "mnext (set_mprev a v m) b = mnext m b" "mprev (set_mprev a v m) b = mprev m b"
    "mused (set_mprev a v m) b = mused m b"
    "mnext (set_mused a u m) b = mnext m b" "mprev (set_mused a u m) b = mprev m b"
    "mused (set_mused a u m) b = mused m b"
  using assms
  by (auto simp: mnext_def mprev_def mused_def set_mnext_def set_mprev_def set_mused_def read32_def write32_def)

lemma mset_outside [store_simps]:
  assumes "x < a \<or> a + 12 \<le> x"
  shows "set_mnext a v m x = m x" "set_mprev a v m x = m x" "set_mused a u m x = m x"
  using assms by (auto simp: set_mnext_def set_mprev_def set_mused_def write32_def)

lemma mfields_cong:
  assumes "\<And>x. a \<le> x \<Longrightarrow> x < a + 12 \<Longrightarrow> m' x = m x"
  shows "mnext m' a = mnext m a" "mprev m' a = mprev m a" "mused m' a = mused m a"
  using assms by (auto simp: mnext_def mprev_def mused_def intro!: read32_cong)

subsection \<open>Areas\<close>

type_synonym areas = "(nat \<times> bool) list"

abbreviation (input) total :: "areas \<Rightarrow> nat" where "total bs \<equiv> sum_list (map fst bs)"

fun lastoff :: "nat \<Rightarrow> nat \<Rightarrow> areas \<Rightarrow> nat" where
  "lastoff d p [] = p"
| "lastoff d p (b # bs) = lastoff (d + fst b) d bs"

fun seg :: "bytes \<Rightarrow> nat \<Rightarrow> nat \<Rightarrow> nat \<Rightarrow> areas \<Rightarrow> bool" where
  "seg m r d p [] \<longleftrightarrow> True"
| "seg m r d p ((n, u) # bs) \<longleftrightarrow> mnext m (r + d) = d + n \<and> mprev m (r + d) = p \<and>
     mused m (r + d) = (if u then 1 else 0) \<and> 24 \<le> n \<and> n mod 4 = 0 \<and> seg m r (d + n) d bs"

lemma seg_append:
  "seg m r d p (xs @ ys) \<longleftrightarrow> seg m r d p xs \<and> seg m r (d + total xs) (lastoff d p xs) ys"
  by (induction m r d p xs rule: seg.induct) (auto simp: algebra_simps)

lemma seg_cong:
  "(\<And>x. r + d \<le> x \<Longrightarrow> x < r + d + total bs \<Longrightarrow> m' x = m x) \<Longrightarrow> seg m r d p bs \<Longrightarrow> seg m' r d p bs"
proof (induction m r d p bs rule: seg.induct)
  case (2 m r d p n u bs)
  have n: "24 \<le> n" using "2.prems"(2) by simp
  have "mnext m' (r + d) = mnext m (r + d)" "mprev m' (r + d) = mprev m (r + d)" "mused m' (r + d) = mused m (r + d)"
    by (rule mfields_cong, rule "2.prems"(1), use n in simp_all)+
  moreover have "seg m' r (d + n) d bs"
    by (rule "2.IH") (use "2.prems" in auto)
  ultimately show ?case using "2.prems"(2) by simp
qed simp

lemma total_dvd: "seg m r d p bs \<Longrightarrow> total bs mod 4 = 0"
proof (induction m r d p bs rule: seg.induct)
  case (2 m r d p n u bs)
  then show ?case by (simp add: mod_add_eq[symmetric, of n])
qed simp

lemma seg_Cons_sized: "seg m r d p (b # bs) \<Longrightarrow> 24 \<le> fst b"
  by (cases b) simp

text \<open>Replacing some areas by others of the same total size: only the memory of the areas and the
  struct behind them may change.\<close>

lemma seg_splice:
  assumes s: "seg m r 0 0 (xs @ mid @ ys)"
    and frame: "\<And>a. a < r + total xs \<or> r + total xs + total mid + 12 \<le> a \<Longrightarrow> m' a = m a"
    and mid: "seg m' r (total xs) (lastoff 0 0 xs) mid'" "total mid' = total mid"
    and hd: "ys \<noteq> [] \<Longrightarrow> mnext m' (r + total xs + total mid) = mnext m (r + total xs + total mid)"
      "ys \<noteq> [] \<Longrightarrow> mused m' (r + total xs + total mid) = mused m (r + total xs + total mid)"
      "ys \<noteq> [] \<Longrightarrow> mprev m' (r + total xs + total mid) = lastoff (total xs) (lastoff 0 0 xs) mid'"
  shows "seg m' r 0 0 (xs @ mid' @ ys)"
proof -
  have 1: "seg m' r 0 0 xs" by (rule seg_cong[of r 0 xs m']) (use s frame in \<open>auto simp: seg_append\<close>)
  have ys: "seg m r (total xs + total mid) (lastoff (total xs) (lastoff 0 0 xs) mid) ys"
    using s by (simp add: seg_append)
  have "seg m' r (total xs + total mid') (lastoff (total xs) (lastoff 0 0 xs) mid') ys"
  proof (cases ys)
    case (Cons b bs)
    obtain n u where b: "b = (n, u)" by fastforce
    have n: "24 \<le> n" "seg m r (total xs + total mid + n) (total xs + total mid) bs"
      using ys unfolding Cons b by simp_all
    have "seg m' r (total xs + total mid + n) (total xs + total mid) bs"
      by (rule seg_cong[OF frame n(2)]) (use n(1) in auto)
    then show ?thesis using ys hd mid(2) unfolding Cons b by (auto simp: algebra_simps)
  qed simp
  with 1 mid(1) show ?thesis by (simp add: seg_append)
qed

lemma end_struct_splice:
  assumes s: "seg m r 0 0 (xs @ mid @ ys)"
    and frame: "\<And>a. a < r + total xs \<or> r + total xs + total mid + 12 \<le> a \<Longrightarrow> m' a = m a"
    and hd: "mnext m' (r + total xs + total mid) = mnext m (r + total xs + total mid)"
      "mused m' (r + total xs + total mid) = mused m (r + total xs + total mid)"
    and e: "e = r + total (xs @ mid @ ys)"
  shows "mnext m' e = mnext m e" "mused m' e = mused m e"
proof -
  have "ys = [] \<or> r + total xs + total mid + 12 \<le> e"
    using s seg_Cons_sized[of m r "total xs + total mid" _ "hd ys" "tl ys"] e
    by (cases ys) (auto simp: seg_append)
  then have "mnext m' e = mnext m e \<and> mused m' e = mused m e"
  proof
    assume "ys = []"
    then have "e = r + total xs + total mid" using e by simp
    then show ?thesis using hd by simp
  qed (auto intro!: mfields_cong frame)
  then show "mnext m' e = mnext m e" "mused m' e = mused m e" by simp_all
qed

subsection \<open>The invariant\<close>

fun no_adj :: "areas \<Rightarrow> bool" where
  "no_adj ((n, u) # (k, v) # bs) \<longleftrightarrow> (u \<or> v) \<and> no_adj ((k, v) # bs)"
| "no_adj _ \<longleftrightarrow> True"

definition in_use :: "areas \<Rightarrow> nat" where
  "in_use bl = sum_list (map fst (filter snd bl))"

definition layout :: "mem_state \<Rightarrow> areas \<Rightarrow> bool" where
  "layout s bl \<longleftrightarrow> ram s mod 4 = 0 \<and> ram s + MEM_SIZE_ALIGNED + 12 \<le> 2 ^ 32 \<and>
     ram_end s = ram s + MEM_SIZE_ALIGNED \<and> seg (mbytes s) (ram s) 0 0 bl \<and> total bl = MEM_SIZE_ALIGNED \<and>
     mnext (mbytes s) (ram_end s) = MEM_SIZE_ALIGNED \<and> mused (mbytes s) (ram_end s) = 1"

definition shape :: "mem_state \<Rightarrow> areas \<Rightarrow> bool" where
  "shape s bl \<longleftrightarrow> layout s bl \<and> lfree s = ram s + total (takeWhile snd bl) \<and>
     st_used (mstats s) = of_nat (in_use bl)"

lemma layout_upd [simp]: "layout (s\<lparr>lfree := l\<rparr>) bl = layout s bl" "layout (s\<lparr>mstats := st\<rparr>) bl = layout s bl"
  by (simp_all add: layout_def)

definition heap_ok :: "mem_state \<Rightarrow> areas \<Rightarrow> bool" where
  "heap_ok s bl \<longleftrightarrow> shape s bl \<and> no_adj bl"

text \<open>\<open>payload r bl x\<close>: address \<open>x\<close> is user data of a used area.\<close>

fun payload :: "nat \<Rightarrow> areas \<Rightarrow> nat \<Rightarrow> bool" where
  "payload r [] x \<longleftrightarrow> False"
| "payload r ((n, u) # bs) x \<longleftrightarrow> u \<and> r + 12 \<le> x \<and> x < r + n \<or> payload (r + n) bs x"

lemma payload_append:
  "payload r (xs @ ys) x \<longleftrightarrow> payload r xs x \<or> payload (r + total xs) ys x"
  by (induction r xs x rule: payload.induct) (auto simp: algebra_simps)

lemma payload_range: "payload r bl x \<Longrightarrow> r + 12 \<le> x \<and> x < r + total bl"
  by (induction r bl x rule: payload.induct) auto

lemma in_use_append: "in_use (xs @ ys) = in_use xs + in_use ys" by (simp add: in_use_def)

lemma in_use_le: "in_use bl \<le> total bl"
  by (induction bl) (auto simp: in_use_def)

lemma layout_splice:
  assumes sh: "layout s (xs @ mid @ ys)"
    and frame: "\<And>a. a < ram s + total xs \<or> ram s + total xs + total mid + 12 \<le> a \<Longrightarrow> m' a = mbytes s a"
    and mid: "seg m' (ram s) (total xs) (lastoff 0 0 xs) mid'" "total mid' = total mid"
    and hd: "mnext m' (ram s + total xs + total mid) = mnext (mbytes s) (ram s + total xs + total mid)"
      "mused m' (ram s + total xs + total mid) = mused (mbytes s) (ram s + total xs + total mid)"
      "ys \<noteq> [] \<Longrightarrow> mprev m' (ram s + total xs + total mid) = lastoff (total xs) (lastoff 0 0 xs) mid'"
  shows "layout (s\<lparr>mbytes := m'\<rparr>) (xs @ mid' @ ys)"
proof -
  have g: "seg (mbytes s) (ram s) 0 0 (xs @ mid @ ys)" "ram_end s = ram s + total (xs @ mid @ ys)"
    using sh by (simp_all add: layout_def)
  have "seg m' (ram s) 0 0 (xs @ mid' @ ys)"
    by (rule seg_splice[OF g(1) frame mid]) (use hd in auto)
  moreover have "mnext m' (ram_end s) = mnext (mbytes s) (ram_end s)" "mused m' (ram_end s) = mused (mbytes s) (ram_end s)"
    using end_struct_splice[OF g(1) frame hd(1,2) g(2)] by simp_all
  ultimately show ?thesis using sh mid(2) by (auto simp: layout_def)
qed

text \<open>What the invariant says of one area.\<close>

lemma layout_area:
  assumes "layout s (xs @ (n, u) # ys)"
  shows "mnext (mbytes s) (ram s + total xs) = total xs + n" "mprev (mbytes s) (ram s + total xs) = lastoff 0 0 xs"
    "mused (mbytes s) (ram s + total xs) = (if u then 1 else 0)" "24 \<le> n" "n mod 4 = 0" "total xs mod 4 = 0"
    "total xs + n \<le> 102400" "ram s mod 4 = 0" "ram s + 102412 \<le> 2 ^ 32"
    "ram_end s = ram s + 102400" "total xs + n + total ys = 102400"
  using assms total_dvd[of "mbytes s" "ram s" 0 0 xs] by (auto simp: layout_def seg_append)

lemma takeWhile_mid_free: "takeWhile snd (xs @ (n, False) # ys) = takeWhile snd xs"
  by (induction xs) auto

lemma total_takeWhile: "total (takeWhile snd xs) \<le> total xs"
  by (induction xs) auto

lemma total_takeWhile_lt: "\<not> list_all snd xs \<Longrightarrow> (\<forall>b\<in>set xs. 0 < fst b) \<Longrightarrow> total (takeWhile snd xs) < total xs"
  by (induction xs) auto

lemma takeWhile_all: "list_all snd xs \<Longrightarrow> takeWhile snd (xs @ ys) = xs @ takeWhile snd ys"
  by (induction xs) auto

lemma takeWhile_not_all: "\<not> list_all snd xs \<Longrightarrow> takeWhile snd (xs @ ys) = takeWhile snd xs"
  by (induction xs) auto

lemma seg_pos: "seg m r d p bs \<Longrightarrow> \<forall>b\<in>set bs. 0 < fst b"
  by (induction m r d p bs rule: seg.induct) auto

lemma layout_pos: "layout s bl \<Longrightarrow> \<forall>b\<in>set bl. 0 < fst b"
  by (auto simp: layout_def dest!: seg_pos)

lemma no_adj_append:
  "no_adj (xs @ ys) \<longleftrightarrow> no_adj xs \<and> no_adj ys \<and> (xs = [] \<or> ys = [] \<or> snd (last xs) \<or> snd (hd ys))"
proof (induction xs)
  case (Cons x xs)
  obtain n u where x: "x = (n, u)" by fastforce
  show ?case
  proof (cases xs)
    case Nil
    then show ?thesis by (cases ys) (auto simp: x)
  next
    case (Cons y zs)
    then show ?thesis using Cons.IH by (cases y) (auto simp: x)
  qed
qed simp

subsection \<open>The scans\<close>

fun find_fit :: "nat \<Rightarrow> areas \<Rightarrow> nat option" where
  "find_fit k [] = None"
| "find_fit k ((n, u) # bs) = (if \<not> u \<and> k + 12 \<le> n then Some 0 else map_option ((+) n) (find_fit k bs))"

lemma find_fit_small: "total bs < k + 12 \<Longrightarrow> find_fit k bs = None"
  by (induction k bs rule: find_fit.induct) auto

lemma find_fit_split:
  "find_fit k bs = Some e \<Longrightarrow> \<exists>xs n ys. bs = xs @ (n, False) # ys \<and> e = total xs \<and> k + 12 \<le> n \<and> find_fit k xs = None"
proof (induction k bs arbitrary: e rule: find_fit.induct)
  case (2 k n u bs)
  show ?case
  proof (cases "\<not> u \<and> k + 12 \<le> n")
    case True
    then show ?thesis using 2 by (intro exI[of _ "[]"]) auto
  next
    case False
    then obtain f where "find_fit k bs = Some f" "e = n + f" using 2 by auto
    from "2.IH"[OF False this(1)] obtain xs j ys where
      "bs = xs @ (j, False) # ys" "f = total xs" "k + 12 \<le> j" "find_fit k xs = None" by blast
    then show ?thesis using False \<open>e = n + f\<close> by (intro exI[of _ "(n, u) # xs"] exI[of _ j] exI[of _ ys]) auto
  qed
qed simp

lemma find_fit_used: "find_fit k bs = map_option ((+) (total (takeWhile snd bs))) (find_fit k (dropWhile snd bs))"
proof (induction bs)
  case (Cons b bs)
  then show ?case by (cases b; cases "find_fit k (dropWhile snd bs)") auto
qed simp

lemma mem_scan_value:
  assumes "layout s (xs @ zs)" "k \<le> 102400"
  shows "mem_scan k s (total xs) = Some (map_option ((+) (total xs)) (find_fit k zs))"
  using assms
proof (induction zs arbitrary: xs)
  case Nil
  then have "\<not> total xs < 102400 - k" by (simp add: layout_def)
  then show ?case by (subst mem_scan.simps) simp
next
  case (Cons b zs)
  obtain n u where b: "b = (n, u)" by fastforce
  note a = layout_area[OF Cons.prems(1)[unfolded b]]
  have sub: "sub32 (mnext (mbytes s) (ram s + total xs)) (total xs + 12) = n - 12"
    using a by (simp add: sub32_exact)
  show ?case
  proof (cases "total xs < 102400 - k")
    case True
    have "mem_scan k s (total xs + n) = Some (map_option ((+) (total xs + n)) (find_fit k zs))"
      using Cons.IH[of "xs @ [b]"] Cons.prems b by simp
    then show ?thesis using True a sub b
      by (subst mem_scan.simps) (cases "find_fit k zs"; auto)
  next
    case False
    then have "find_fit k (b # zs) = None"
      using a(11) b by (intro find_fit_small) simp
    then show ?thesis using False by (subst mem_scan.simps) simp
  qed
qed

lemma lfree_scan_value:
  assumes "layout s (xs @ zs)"
  shows "lfree_scan s (ram s + total xs) = Some (ram s + total xs + total (takeWhile snd zs))"
  using assms
proof (induction zs arbitrary: xs)
  case Nil
  then show ?case by (subst lfree_scan.simps) (simp add: layout_def)
next
  case (Cons b zs)
  obtain n u where b: "b = (n, u)" by fastforce
  note a = layout_area[OF Cons.prems[unfolded b]]
  show ?case using Cons.IH[of "xs @ [b]"] Cons.prems a b
    by (subst lfree_scan.simps) (auto simp: add.assoc)
qed

subsection \<open>Allocation\<close>

definition alloc_areas :: "nat \<Rightarrow> nat \<Rightarrow> areas" where
  "alloc_areas k n = (if k + 36 \<le> n then [(k + 12, True), (n - k - 12, False)] else [(n, True)])"

lemma payload_frame:
  assumes "payload r (xs @ (n, False) # ys) x"
  shows "x < r + total xs \<or> r + total xs + n + 12 \<le> x"
  using assms payload_range[of r xs x] payload_range[of "r + total xs + n" ys x]
  by (auto simp: payload_append)

text \<open>Cutting a new free struct \<open>c\<close> bytes behind the struct at offset \<open>T\<close>, which then is followed
  by what lies at \<open>T + N\<close>. \<^verbatim>\<open>mem_malloc\<close> does so when it splits an area and also marks the first
  part; \<^verbatim>\<open>mem_trim\<close> does so when it shrinks one.\<close>

definition cut_bytes :: "nat \<Rightarrow> nat \<Rightarrow> nat \<Rightarrow> nat \<Rightarrow> bool \<Rightarrow> bytes \<Rightarrow> bytes" where
  "cut_bytes r T c N mk m0 =
     (let m = set_mused (r + (T + c)) 0 m0;
          m = set_mnext (r + (T + c)) (T + N) m;
          m = set_mprev (r + (T + c)) T m;
          m = set_mnext (r + T) (T + c) m;
          m = (if mk then set_mused (r + T) 1 m else m)
      in if T + N \<noteq> 102400 then set_mprev (r + (T + N)) (T + c) m else m)"

lemma cut_bytes_frame:
  assumes "c + 24 \<le> N" "24 \<le> c"
    and "x < r + T \<or> r + T + 12 \<le> x \<and> x < r + T + c \<or> r + T + N + 12 \<le> x"
  shows "cut_bytes r T c N mk m0 x = m0 x"
  using assms by (auto simp: cut_bytes_def Let_def store_simps)

lemma layout_cut:
  assumes l: "layout s (xs @ (n, u) # mid @ ys)" and N: "N = n + total mid"
    and c: "c + 24 \<le> N" "24 \<le> c" "c mod 4 = 0" and T: "T = total xs"
  shows "layout (s\<lparr>mbytes := cut_bytes (ram s) T c N mk (mbytes s)\<rparr>) (xs @ [(c, u \<or> mk), (N - c, False)] @ ys)"
proof -
  note a = layout_area[OF l]
  define A where "A = ram s + T"
  define P where "P = T + c"
  define B where "B = ram s + P"
  define C where "C = ram s + (T + N)"
  have ab: "A + 24 \<le> B" "B + 24 \<le> C" using c by (simp_all add: A_def B_def C_def P_def)
  have NN: "T + N + total ys = 102400" "N mod 4 = 0"
    using l N T total_dvd[of "mbytes s" "ram s" T _ "(n, u) # mid"]
    by (auto simp: layout_def seg_append)
  have small: "T + N < 2 ^ 32" "P < 2 ^ 32" "T < 2 ^ 32" using NN c by (simp_all add: P_def)
  define m4 where "m4 = (let m = set_mnext A P (set_mprev B T (set_mnext B (T + N) (set_mused B 0 (mbytes s))))
    in if mk then set_mused A 1 m else m)"
  define m where "m = (if T + N \<noteq> 102400 then set_mprev C P m4 else m4)"
  have f: "mnext m A = P" "mprev m A = lastoff 0 0 xs" "mused m A = (if u \<or> mk then 1 else 0)"
      "mnext m B = T + N" "mprev m B = T" "mused m B = 0"
      "mnext m C = mnext (mbytes s) C" "mused m C = mused (mbytes s) C"
      "T + N \<noteq> 102400 \<Longrightarrow> mprev m C = P"
    using ab a small by (auto simp: m_def m4_def Let_def store_simps A_def[symmetric] T[symmetric])
  have m: "m = cut_bytes (ram s) T c N mk (mbytes s)"
    by (simp add: m_def m4_def cut_bytes_def A_def B_def C_def P_def Let_def)
  have "layout (s\<lparr>mbytes := m\<rparr>) (xs @ [(c, u \<or> mk), (N - c, False)] @ ys)"
  proof (rule layout_splice[of s xs "(n, u) # mid"])
    have "ram s + T = A" "ram s + (T + c) = B" "T + c = P" "P + (N - c) = T + N"
      using c by (simp_all add: A_def B_def P_def)
    moreover have "(N - c) mod 4 = 0" using c NN(2) by presburger
    ultimately show "seg m (ram s) (total xs) (lastoff 0 0 xs) [(c, u \<or> mk), (N - c, False)]"
      using f c by (simp add: T[symmetric])
    show "m x = mbytes s x" if "x < ram s + total xs \<or> ram s + total xs + total ((n, u) # mid) + 12 \<le> x" for x
      using that cut_bytes_frame[OF c(1,2)] N by (auto simp: m T)
    show "ys \<noteq> [] \<Longrightarrow> mprev m (ram s + total xs + total ((n, u) # mid)) =
        lastoff (total xs) (lastoff 0 0 xs) [(c, u \<or> mk), (N - c, False)]"
      using f(9) NN(1) layout_pos[OF l] N by (cases ys) (auto simp: C_def P_def T add.assoc)
  qed (use l c f N in \<open>simp_all add: C_def T add.assoc\<close>)
  then show ?thesis by (simp add: m)
qed

lemma layout_mark:
  assumes l: "layout s (xs @ (n, u) # ys)"
  shows "layout (s\<lparr>mbytes := set_mused (ram s + total xs) (if v then 1 else 0) (mbytes s)\<rparr>) (xs @ (n, v) # ys)"
proof -
  note a = layout_area[OF l]
  have "layout (s\<lparr>mbytes := set_mused (ram s + total xs) (if v then 1 else 0) (mbytes s)\<rparr>) (xs @ [(n, v)] @ ys)"
  proof (rule layout_splice[of s xs "[(n, u)]"])
    show "ys \<noteq> [] \<Longrightarrow> mprev (set_mused (ram s + total xs) (if v then 1 else 0) (mbytes s))
        (ram s + total xs + total [(n, u)]) = lastoff (total xs) (lastoff 0 0 xs) [(n, v)]"
      using l a by (cases ys) (auto simp: layout_def seg_append store_simps add.assoc)
  qed (use l a in \<open>auto simp: store_simps\<close>)
  then show ?thesis by simp
qed

lemma layout_merge:
  assumes l: "layout s (xs @ (n, u) # (k, v) # ys)" and T: "T = total xs"
  shows "layout (s\<lparr>mbytes := set_mprev (ram s + (T + (n + k))) T (set_mnext (ram s + T) (T + (n + k)) (mbytes s))\<rparr>)
    (xs @ (n + k, u) # ys)"
proof -
  note a = layout_area[OF l]
  have b: "24 \<le> k" "k mod 4 = 0" "T + (n + k) + total ys = 102400"
    using l T by (auto simp: layout_def seg_append)
  let ?m = "set_mprev (ram s + (T + (n + k))) T (set_mnext (ram s + T) (T + (n + k)) (mbytes s))"
  have "layout (s\<lparr>mbytes := ?m\<rparr>) (xs @ [(n + k, u)] @ ys)"
  proof (rule layout_splice[of s xs "[(n, u), (k, v)]"])
    show "seg ?m (ram s) (total xs) (lastoff 0 0 xs) [(n + k, u)]"
      using a b by (auto simp: store_simps T mod_add_eq[symmetric, of n])
    show "mnext ?m (ram s + total xs + total [(n, u), (k, v)]) =
        mnext (mbytes s) (ram s + total xs + total [(n, u), (k, v)])"
      "mused ?m (ram s + total xs + total [(n, u), (k, v)]) =
        mused (mbytes s) (ram s + total xs + total [(n, u), (k, v)])"
      "mprev ?m (ram s + total xs + total [(n, u), (k, v)]) = lastoff (total xs) (lastoff 0 0 xs) [(n + k, u)]"
      using a b by (simp_all add: store_simps T add.assoc)
  qed (use l a b in \<open>auto simp: store_simps T add.assoc\<close>)
  then show ?thesis by simp
qed

definition need :: "nat \<Rightarrow> nat" where
  "need n = max 12 (LWIP_MEM_ALIGN_SIZE n)"

lemma need_bounds:
  assumes "n \<le> 0xfffffffc"
  shows "n \<le> need n" "12 \<le> need n" "need n mod 4 = 0" "need n \<le> n + 12"
proof -
  have "add32 n 3 = n + 3" using assms by (simp add: add32_exact)
  then have a: "LWIP_MEM_ALIGN_SIZE n = n + 3 - (n + 3) mod 4" by (simp add: LWIP_MEM_ALIGN_SIZE_def Let_def)
  have "n \<le> LWIP_MEM_ALIGN_SIZE n" "LWIP_MEM_ALIGN_SIZE n \<le> n + 3" "LWIP_MEM_ALIGN_SIZE n mod 4 = 0"
    unfolding a by presburger+
  then show "n \<le> need n" "12 \<le> need n" "need n mod 4 = 0" "need n \<le> n + 12"
    by (auto simp: need_def max_def)
qed

lemma used_STATS_INC_USED: "st_used (STATS_INC_USED y st) = st_used st + y"
  by (simp add: STATS_INC_USED_def Let_def)

lemma mem_take_eq:
  assumes l: "layout s (xs @ (n, False) # ys)" and k: "12 \<le> k" and T: "T = total xs"
  shows "mem_take k T s =
    (if k + 36 \<le> n
     then s\<lparr>mbytes := cut_bytes (ram s) T (12 + k) n True (mbytes s),
            mstats := STATS_INC_USED (of_nat (k + 12)) (mstats s)\<rparr>
     else s\<lparr>mbytes := set_mused (ram s + T) 1 (mbytes s), mstats := STATS_INC_USED (of_nat n) (mstats s)\<rparr>)"
proof -
  note a = layout_area[OF l, folded T]
  have sub: "sub32 (T + n) (T + 12) = n - 12" "sub32 (T + n) T = n" "sub32 (ram s + T) (ram s) = T"
    using a by (simp_all add: sub32_exact)
  show ?thesis
  proof (cases "k + 36 \<le> n")
    case True
    let ?B = "ram s + (T + 12 + k)"
    have d: "ram s + T + 12 \<le> ?B" by simp
    let ?m = "set_mused (ram s + T) 1 (set_mnext (ram s + T) (T + 12 + k) (set_mprev ?B T
      (set_mnext ?B (mnext (set_mused ?B 0 (mbytes s)) (ram s + T)) (set_mused ?B 0 (mbytes s)))))"
    have e: "mnext (set_mused ?B 0 (mbytes s)) (ram s + T) = T + n" using a(1) d by (simp add: store_simps)
    have "mnext ?m ?B = T + n"
      using e a d by (simp add: store_simps)
    then show ?thesis using True a(1) sub e
      by (simp add: mem_take_def cut_bytes_def Let_def add.assoc)
  next
    case False
    then have "\<not> 24 + k \<le> n - 12" by simp
    then show ?thesis using a sub by (simp add: mem_take_def Let_def)
  qed
qed

lemma mem_take_layout:
  assumes l: "layout s (xs @ (n, False) # ys)" and k: "12 \<le> k" "k mod 4 = 0" "k + 12 \<le> n"
  shows "layout (mem_take k (total xs) s) (xs @ alloc_areas k n @ ys)"
    "ram (mem_take k (total xs) s) = ram s" "ram_end (mem_take k (total xs) s) = ram_end s"
    "lfree (mem_take k (total xs) s) = lfree s"
    "st_used (mstats (mem_take k (total xs) s)) = st_used (mstats s) + of_nat (in_use (alloc_areas k n))"
    "payload (ram s) (xs @ (n, False) # ys) x \<Longrightarrow> mbytes (mem_take k (total xs) s) x = mbytes s x"
proof -
  note e = mem_take_eq[OF l k(1) refl]
  have c: "12 + k + 24 \<le> n" "24 \<le> 12 + k" "(12 + k) mod 4 = 0" if "k + 36 \<le> n"
    using that k by (simp_all add: mod_add_eq[symmetric, of 12])
  have "layout (s\<lparr>mbytes := cut_bytes (ram s) (total xs) (12 + k) n True (mbytes s)\<rparr>)
      (xs @ [(12 + k, True), (n - (12 + k), False)] @ ys)" if "k + 36 \<le> n"
    using layout_cut[of s xs n False "[]" ys n "12 + k" "total xs" True] l c[OF that] by simp
  moreover have "layout (s\<lparr>mbytes := set_mused (ram s + total xs) 1 (mbytes s)\<rparr>) (xs @ (n, True) # ys)"
    using layout_mark[OF l, of True] by simp
  ultimately show "layout (mem_take k (total xs) s) (xs @ alloc_areas k n @ ys)"
    unfolding e alloc_areas_def by (simp add: add.commute)
  show "payload (ram s) (xs @ (n, False) # ys) x \<Longrightarrow> mbytes (mem_take k (total xs) s) x = mbytes s x"
    using payload_frame[of "ram s" xs n ys x] cut_bytes_frame[OF c(1,2), of x "ram s" "total xs"] k
    unfolding e by (auto simp: store_simps)
qed (auto simp: mem_take_eq[OF l k(1) refl] alloc_areas_def in_use_def used_STATS_INC_USED)

lemma total_alloc_areas: "k + 12 \<le> n \<Longrightarrow> total (alloc_areas k n) = n"
  by (simp add: alloc_areas_def)

lemma no_adj_alloc: "no_adj (xs @ (n, False) # ys) \<Longrightarrow> no_adj (xs @ alloc_areas k n @ ys)"
  by (cases ys) (auto simp: alloc_areas_def no_adj_append)

lemma mem_malloc_need:
  "0 < n \<Longrightarrow> mem_malloc n s =
     (if 102400 < need n then Some (0, s)
      else case mem_scan (need n) s (sub32 (lfree s) (ram s)) of
          None \<Rightarrow> None
        | Some None \<Rightarrow> Some (0, s\<lparr>mstats := (mstats s)\<lparr>st_err := st_err (mstats s) + 1\<rparr>\<rparr>)
        | Some (Some ptr) \<Rightarrow>
           (let t = mem_take (need n) ptr s
            in case (if ram s + ptr = lfree t
                     then case lfree_scan t (lfree t) of
                            None \<Rightarrow> None
                          | Some cur \<Rightarrow> LWIP_ASSERT (cur = ram_end t \<or> mused (mbytes t) cur = 0) (Some (t\<lparr>lfree := cur\<rparr>))
                     else Some t) of
                 None \<Rightarrow> None
               | Some u \<Rightarrow> if ram s + ptr + 12 + need n \<le> ram_end u \<and> (ram s + ptr + 12) mod 4 = 0 \<and> (ram s + ptr) mod 4 = 0
                   then Some (ram s + ptr + 12, u) else None))"
proof -
  assume n: "0 < n"
  have nd: "(if LWIP_MEM_ALIGN_SIZE n < 12 then 12 else LWIP_MEM_ALIGN_SIZE n) = need n"
    by (simp add: need_def max_def)
  have as: "LWIP_ASSERT a (LWIP_ASSERT b (LWIP_ASSERT c k)) = (if a \<and> b \<and> c then k else None)"
    for a b c and k :: "(nat \<times> mem_state) option" by (simp add: LWIP_ASSERT_def)
  show ?thesis unfolding mem_malloc_def Let_def mem_sizes nd as by (rule if_not_P) (use n in simp)
qed

lemma layout_lowest:
  assumes "layout t bl" "f = ram t + total (takeWhile snd bl)"
  shows "f = ram_end t \<or> mused (mbytes t) f = 0"
proof (cases "dropWhile snd bl")
  case Nil
  then have "total (takeWhile snd bl) = total bl" by (metis takeWhile_dropWhile_id append_Nil2)
  then show ?thesis using assms by (simp add: layout_def)
next
  case (Cons b ys)
  obtain n u where b: "b = (n, u)" by fastforce
  then have "\<not> u" using hd_dropWhile[of snd bl] Cons by simp
  moreover have "layout t (takeWhile snd bl @ (n, u) # ys)"
    using assms(1) Cons b by (metis takeWhile_dropWhile_id)
  ultimately show ?thesis using layout_area(3)[of t _ n u ys] assms(2) by simp
qed

text \<open>\<^verbatim>\<open>mem_malloc\<close> is first fit: it takes the lowest free area that is big enough for the rounded
  size, splits it when the rest can hold another area, and returns NULL when there is none.\<close>

lemma malloc_none:
  assumes "heap_ok s bl" "0 < n" "n \<le> 0xfffffffc" "find_fit (need n) bl = None"
  shows "\<exists>st. mem_malloc n s = Some (0, s\<lparr>mstats := st\<rparr>) \<and> st_used st = st_used (mstats s)"
proof -
  have l: "layout s bl" and lf: "lfree s = ram s + total (takeWhile snd bl)"
    using assms(1) by (simp_all add: heap_ok_def shape_def)
  show ?thesis
  proof (cases "need n > 102400")
    case True
    then have "mem_malloc n s = Some (0, s\<lparr>mstats := mstats s\<rparr>)"
      using assms(2) by (simp add: mem_malloc_need)
    then show ?thesis by blast
  next
    case False
    have "sub32 (lfree s) (ram s) = total (takeWhile snd bl)"
      using l lf total_takeWhile[of bl] by (subst sub32_exact) (auto simp: layout_def)
    moreover have "find_fit (need n) (dropWhile snd bl) = None"
      using assms(4) find_fit_used[of "need n" bl] by simp
    ultimately have "mem_scan (need n) s (sub32 (lfree s) (ram s)) = Some None"
      using mem_scan_value[of s "takeWhile snd bl" "dropWhile snd bl" "need n"] l False by simp
    then show ?thesis using assms(2) False
      by (intro exI[of _ "(mstats s)\<lparr>st_err := st_err (mstats s) + 1\<rparr>"]) (simp add: mem_malloc_need)
  qed
qed

lemma malloc_some:
  assumes ok: "heap_ok s (xs @ (m, False) # ys)" and n: "0 < n" "n \<le> 0xfffffffc"
    and fit: "find_fit (need n) (xs @ (m, False) # ys) = Some (total xs)" "need n + 12 \<le> m"
  shows "\<exists>t. mem_malloc n s = Some (ram s + total xs + 12, t) \<and> ram t = ram s \<and>
    heap_ok t (xs @ alloc_areas (need n) m @ ys) \<and>
    (\<forall>x. payload (ram s) (xs @ (m, False) # ys) x \<longrightarrow> mbytes t x = mbytes s x)"
proof -
  let ?bl = "xs @ (m, False) # ys" and ?k = "need n" and ?al = "alloc_areas (need n) m"
  have l: "layout s ?bl" and lf: "lfree s = ram s + total (takeWhile snd ?bl)" and na: "no_adj ?bl"
      and us: "st_used (mstats s) = of_nat (in_use ?bl)"
    using ok by (simp_all add: heap_ok_def shape_def)
  note a = layout_area[OF l] and k = need_bounds[OF n(2)]
  define t where "t = mem_take ?k (total xs) s"
  note mt = mem_take_layout[OF l k(2,3) fit(2), folded t_def]
  have le: "?k \<le> 102400" using a fit(2) by simp
  have "sub32 (lfree s) (ram s) = total (takeWhile snd ?bl)"
    using l lf total_takeWhile[of ?bl] by (subst sub32_exact) (auto simp: layout_def)
  then have scan: "mem_scan ?k s (sub32 (lfree s) (ram s)) = Some (Some (total xs))"
    using mem_scan_value[of s "takeWhile snd ?bl" "dropWhile snd ?bl" ?k] l le fit(1) find_fit_used[of ?k ?bl] by simp
  let ?lf = "ram s + total (takeWhile snd (xs @ ?al @ ys))"
  have lfr: "(if ram s + total xs = lfree t then case lfree_scan t (lfree t) of None \<Rightarrow> None
      | Some cur \<Rightarrow> LWIP_ASSERT (cur = ram_end t \<or> mused (mbytes t) cur = 0) (Some (t\<lparr>lfree := cur\<rparr>))
      else Some t) = Some (t\<lparr>lfree := ?lf\<rparr>)"
  proof (cases "list_all snd xs")
    case True
    then have "total (takeWhile snd xs) = total xs" by (metis takeWhile_all append_Nil2 takeWhile.simps(1))
    then have e: "lfree t = ram s + total xs" using mt(4) lf by (simp add: takeWhile_mid_free)
    have s1: "lfree_scan t (ram t + total xs) = Some ?lf"
      using lfree_scan_value[OF mt(1)] mt(2) True by (simp add: takeWhile_all)
    have "?lf = ram_end t \<or> mused (mbytes t) ?lf = 0"
      using layout_lowest[OF mt(1) refl] mt(2) by simp
    then show ?thesis using e s1 mt(2) by (simp add: LWIP_ASSERT_def)
  next
    case False
    then have "lfree s \<noteq> ram s + total xs"
      using lf total_takeWhile_lt[OF False] layout_pos[OF l] by (auto simp: takeWhile_mid_free)
    moreover have "lfree s = ?lf" using lf False by (simp add: takeWhile_not_all)
    ultimately show ?thesis using mt(4) by simp
  qed
  have "mem_malloc n s = Some (ram s + total xs + 12, t\<lparr>lfree := ?lf\<rparr>)"
    using n(1) le scan lfr mt(3) a fit(2)
    by (simp add: mem_malloc_need t_def[symmetric] mod_add_eq[symmetric])
  moreover have "heap_ok (t\<lparr>lfree := ?lf\<rparr>) (xs @ ?al @ ys)"
    using mt na us by (simp add: heap_ok_def shape_def no_adj_alloc in_use_append) (simp add: in_use_def)
  ultimately show ?thesis using mt(2,6) by (intro exI[of _ "t\<lparr>lfree := ?lf\<rparr>"]) simp
qed

subsection \<open>Release\<close>

lemma total_takeWhile_all: "list_all snd xs \<Longrightarrow> total (takeWhile snd xs) = total xs"
  by (induction xs) auto

lemma shape_lfree_le: "shape s (xs @ (n, False) # ys) \<Longrightarrow> lfree s \<le> ram s + total xs"
  using total_takeWhile[of xs] by (simp add: shape_def takeWhile_mid_free)

text \<open>Joining a free area with the free area behind it.\<close>

lemma shape_merge:
  assumes sh: "shape s (xs @ (n, False) # (k, False) # ys)"
    and m: "m = set_mprev (ram s + (total xs + (n + k))) (total xs)
      (set_mnext (ram s + total xs) (total xs + (n + k)) (mbytes s))"
  shows "shape (s\<lparr>mbytes := m\<rparr>) (xs @ (n + k, False) # ys)"
    "payload (ram s) (xs @ (n, False) # (k, False) # ys) x \<Longrightarrow> m x = mbytes s x"
proof -
  have l: "layout s (xs @ (n, False) # (k, False) # ys)" using sh by (simp add: shape_def)
  show "shape (s\<lparr>mbytes := m\<rparr>) (xs @ (n + k, False) # ys)"
    using layout_merge[OF l refl] sh m
    by (simp add: shape_def takeWhile_mid_free in_use_append in_use_def)
  show "m x = mbytes s x" if "payload (ram s) (xs @ (n, False) # (k, False) # ys) x"
  proof -
    have "x < ram s + total xs \<or> ram s + (total xs + (n + k)) + 12 \<le> x"
      using that payload_range[of "ram s" xs x] payload_range[of "ram s + total xs + n + k" ys x]
      by (auto simp: payload_append add.assoc)
    moreover have "24 \<le> n" by (rule layout_area(4)[OF l])
    ultimately show ?thesis by (auto simp: m store_simps)
  qed
qed

definition plug_fwd :: "nat \<Rightarrow> mem_state \<Rightarrow> mem_state" where
  "plug_fwd mem s = (let nmem = ram s + mnext (mbytes s) mem
     in if mem \<noteq> nmem \<and> mused (mbytes s) nmem = 0 \<and> nmem \<noteq> ram_end s
        then let s = (if lfree s = nmem then s\<lparr>lfree := mem\<rparr> else s);
                 m = set_mnext mem (mnext (mbytes s) nmem) (mbytes s);
                 m = set_mprev (ram s + mnext m nmem) (mem - ram s) m
             in s\<lparr>mbytes := m\<rparr>
        else s)"

definition plug_bwd :: "nat \<Rightarrow> mem_state \<Rightarrow> mem_state" where
  "plug_bwd mem s = (let pmem = ram s + mprev (mbytes s) mem
     in if pmem \<noteq> mem \<and> mused (mbytes s) pmem = 0
        then let s = (if lfree s = mem then s\<lparr>lfree := pmem\<rparr> else s);
                 m = set_mnext pmem (mnext (mbytes s) mem) (mbytes s);
                 m = set_mprev (ram s + mnext m mem) (pmem - ram s) m
             in s\<lparr>mbytes := m\<rparr>
        else s)"

lemma plug_holes_steps:
  "plug_holes mem s = (if ram s \<le> mem \<and> mem < ram_end s \<and> mused (mbytes s) mem = 0 \<and> mnext (mbytes s) mem \<le> 102400
     then Some (plug_bwd mem (plug_fwd mem s)) else None)"
proof -
  have as: "LWIP_ASSERT a (LWIP_ASSERT b (LWIP_ASSERT c (LWIP_ASSERT d k))) = (if a \<and> b \<and> c \<and> d then k else None)"
    for a b c d and k :: "mem_state option" by (simp add: LWIP_ASSERT_def)
  show ?thesis unfolding plug_holes_def as mem_sizes plug_bwd_def plug_fwd_def Let_def ..
qed

definition join_fwd :: "nat \<Rightarrow> areas \<Rightarrow> areas" where
  "join_fwd n ys = (case ys of (k, False) # zs \<Rightarrow> (n + k, False) # zs | _ \<Rightarrow> (n, False) # ys)"

definition join_bwd :: "areas \<Rightarrow> areas \<Rightarrow> areas" where
  "join_bwd xs ys = (if xs \<noteq> [] \<and> \<not> snd (last xs) \<and> ys \<noteq> []
     then butlast xs @ (fst (last xs) + fst (hd ys), False) # tl ys else xs @ ys)"

lemma plug_fwd_shape:
  assumes sh: "shape s (xs @ (n, False) # ys)" and mem: "mem = ram s + total xs"
  shows "shape (plug_fwd mem s) (xs @ join_fwd n ys)" "ram (plug_fwd mem s) = ram s"
    "payload (ram s) (xs @ (n, False) # ys) x \<Longrightarrow> mbytes (plug_fwd mem s) x = mbytes s x"
proof -
  have l: "layout s (xs @ (n, False) # ys)" using sh by (simp add: shape_def)
  note a = layout_area[OF l]
  have lf: "lfree s \<noteq> ram s + (total xs + n)" using shape_lfree_le[OF sh] a(4) by simp
  consider "ys = []" | k zs where "ys = (k, True) # zs" | k zs where "ys = (k, False) # zs"
    by (cases ys) (blast, metis (full_types) surj_pair)
  then have "shape (plug_fwd mem s) (xs @ join_fwd n ys) \<and> ram (plug_fwd mem s) = ram s \<and>
    (payload (ram s) (xs @ (n, False) # ys) x \<longrightarrow> mbytes (plug_fwd mem s) x = mbytes s x)"
  proof cases
    case 1
    then have "plug_fwd mem s = s" using a by (simp add: plug_fwd_def Let_def mem)
    then show ?thesis using sh 1 by (simp add: join_fwd_def)
  next
    case 2
    have "mused (mbytes s) (ram s + (total xs + n)) = 1"
      using layout_area(3)[of s "xs @ [(n, False)]" k True zs] l 2 by simp
    then have "plug_fwd mem s = s" using a by (simp add: plug_fwd_def Let_def mem)
    then show ?thesis using sh 2 by (simp add: join_fwd_def)
  next
    case 3
    note b = layout_area[of s "xs @ [(n, False)]" k False zs, simplified, OF l[unfolded 3]]
    let ?m = "set_mprev (ram s + (total xs + (n + k))) (total xs)
      (set_mnext (ram s + total xs) (total xs + (n + k)) (mbytes s))"
    have "plug_fwd mem s = s\<lparr>mbytes := ?m\<rparr>"
      using a b lf by (simp add: plug_fwd_def Let_def mem store_simps add.assoc)
    then show ?thesis using shape_merge[OF sh[unfolded 3] refl] 3 by (simp add: join_fwd_def)
  qed
  then show "shape (plug_fwd mem s) (xs @ join_fwd n ys)" "ram (plug_fwd mem s) = ram s"
    "payload (ram s) (xs @ (n, False) # ys) x \<Longrightarrow> mbytes (plug_fwd mem s) x = mbytes s x" by simp_all
qed

lemma lastoff_snoc: "lastoff d p (xs @ [b]) = d + total xs"
  by (induction xs arbitrary: d p) (auto simp: algebra_simps)

lemma plug_bwd_shape:
  assumes sh: "shape s (xs @ (n, False) # ys)" and mem: "mem = ram s + total xs"
  shows "shape (plug_bwd mem s) (join_bwd xs ((n, False) # ys))" "ram (plug_bwd mem s) = ram s"
    "payload (ram s) (xs @ (n, False) # ys) x \<Longrightarrow> mbytes (plug_bwd mem s) x = mbytes s x"
proof -
  have l: "layout s (xs @ (n, False) # ys)" using sh by (simp add: shape_def)
  note a = layout_area[OF l]
  have "shape (plug_bwd mem s) (join_bwd xs ((n, False) # ys)) \<and> ram (plug_bwd mem s) = ram s \<and>
    (payload (ram s) (xs @ (n, False) # ys) x \<longrightarrow> mbytes (plug_bwd mem s) x = mbytes s x)"
  proof (cases xs rule: rev_cases)
    case Nil
    then have "plug_bwd mem s = s" using a by (simp add: plug_bwd_def Let_def mem)
    then show ?thesis using sh Nil by (simp add: join_bwd_def)
  next
    case (snoc zs b)
    obtain k u where b: "b = (k, u)" by fastforce
    have l2: "layout s (zs @ (k, u) # (n, False) # ys)" using l snoc b by simp
    note c = layout_area[OF l2]
    show ?thesis
    proof (cases u)
      case True
      then have "plug_bwd mem s = s" using a c snoc b by (simp add: plug_bwd_def Let_def mem lastoff_snoc)
      then show ?thesis using sh snoc b True by (simp add: join_bwd_def)
    next
      case False
      have sh2: "shape s (zs @ (k, False) # (n, False) # ys)" using sh snoc b False by simp
      have lf: "lfree s \<noteq> ram s + (total zs + k)" using shape_lfree_le[OF sh2] c(4) by simp
      let ?m = "set_mprev (ram s + (total zs + (k + n))) (total zs)
        (set_mnext (ram s + total zs) (total zs + (k + n)) (mbytes s))"
      have "plug_bwd mem s = s\<lparr>mbytes := ?m\<rparr>"
        using a c lf snoc b False by (simp add: plug_bwd_def Let_def mem store_simps add.assoc lastoff_snoc)
      then show ?thesis using shape_merge[OF sh2 refl] snoc b False by (simp add: join_bwd_def)
    qed
  qed
  then show "shape (plug_bwd mem s) (join_bwd xs ((n, False) # ys))" "ram (plug_bwd mem s) = ram s"
    "payload (ram s) (xs @ (n, False) # ys) x \<Longrightarrow> mbytes (plug_bwd mem s) x = mbytes s x" by simp_all
qed

lemma shape_mark_free:
  assumes sh: "shape s (xs @ (n, True) # ys)" and mem: "mem = ram s + total xs"
  shows "shape (s\<lparr>mbytes := set_mused mem 0 (mbytes s), lfree := (if mem < lfree s then mem else lfree s),
      mstats := (mstats s)\<lparr>st_used := st_used (mstats s) - of_nat n\<rparr>\<rparr>) (xs @ (n, False) # ys)"
proof -
  have l: "layout s (xs @ (n, True) # ys)" using sh by (simp add: shape_def)
  have lf: "(if mem < lfree s then mem else lfree s) = ram s + total (takeWhile snd xs)"
  proof (cases "list_all snd xs")
    case True
    then have "lfree s = ram s + total xs + n + total (takeWhile snd ys)"
      using sh by (simp add: shape_def takeWhile_all)
    then show ?thesis using layout_area(4)[OF l] mem total_takeWhile_all[OF True] by simp
  next
    case False
    then show ?thesis using sh mem total_takeWhile[of xs] by (simp add: shape_def takeWhile_not_all)
  qed
  have "layout (s\<lparr>mbytes := set_mused mem 0 (mbytes s)\<rparr>) (xs @ (n, False) # ys)"
    using layout_mark[OF l, of False] mem by simp
  then show ?thesis using sh lf
    by (simp add: shape_def takeWhile_mid_free in_use_append) (simp add: in_use_def)
qed

lemma no_adj_join:
  assumes "no_adj (xs @ (n, True) # ys)"
  shows "no_adj (join_bwd xs (join_fwd n ys))"
proof -
  have 1: "no_adj xs" "no_adj ys" using assms by (auto simp: no_adj_append) (cases ys; auto)
  have 2: "no_adj (join_fwd n ys)"
  proof (cases ys rule: no_adj.cases)
    case (1 m u k v bs)
    then show ?thesis using \<open>no_adj ys\<close> by (cases u) (auto simp: join_fwd_def)
  qed (auto simp: join_fwd_def split: bool.split)
  have 3: "\<exists>j zs. join_fwd n ys = (j, False) # zs"
    by (auto simp: join_fwd_def split: list.split bool.split prod.split)
  then obtain j zs where j: "join_fwd n ys = (j, False) # zs" by blast
  show ?thesis
  proof (cases xs rule: rev_cases)
    case Nil
    then show ?thesis using 2 by (simp add: join_bwd_def)
  next
    case (snoc ws b)
    then show ?thesis using 1(1) 2 j by (cases b; cases zs) (auto simp: join_bwd_def no_adj_append)
  qed
qed

lemma payload_mono:
  "payload r (xs @ (n, False) # ys) x \<Longrightarrow> payload r (xs @ (n, True) # ys) x"
  by (auto simp: payload_append)

lemma payload_join_fwd: "payload r (xs @ join_fwd n ys) x \<longleftrightarrow> payload r (xs @ (n, False) # ys) x"
  by (auto simp: join_fwd_def payload_append add.assoc split: list.split bool.split prod.split)

lemma join_fwd_Cons: "\<exists>j zs. join_fwd n ys = (j, False) # zs"
  by (auto simp: join_fwd_def split: list.split bool.split prod.split)

lemma mem_free_shape:
  assumes ok: "heap_ok s (xs @ (n, True) # ys)" and p: "p = ram s + total xs + 12"
  shows "\<exists>t. mem_free p s = Some t \<and> ram t = ram s \<and> heap_ok t (join_bwd xs (join_fwd n ys)) \<and>
    (\<forall>x. payload (ram s) (xs @ (n, False) # ys) x \<longrightarrow> mbytes t x = mbytes s x)"
proof -
  have sh: "shape s (xs @ (n, True) # ys)" and na: "no_adj (xs @ (n, True) # ys)"
    using ok by (simp_all add: heap_ok_def)
  then have l: "layout s (xs @ (n, True) # ys)" by (simp add: shape_def)
  note a = layout_area[OF l]
  define mem where "mem = ram s + total xs"
  define s1 where "s1 = s\<lparr>mbytes := set_mused mem 0 (mbytes s), lfree := (if mem < lfree s then mem else lfree s),
      mstats := (mstats s)\<lparr>st_used := st_used (mstats s) - of_nat n\<rparr>\<rparr>"
  have sh1: "shape s1 (xs @ (n, False) # ys)" unfolding s1_def by (rule shape_mark_free[OF sh mem_def])
  then have l1: "layout s1 (xs @ (n, False) # ys)" by (simp add: shape_def)
  have r1: "ram s1 = ram s" by (simp add: s1_def)
  note a1 = layout_area[OF l1, unfolded r1, folded mem_def]
  have sub: "sub32 p 12 = mem" "sub32 mem (ram s) = total xs" "sub32 (total xs + n) (total xs) = n"
    using a p by (simp_all add: sub32_exact mem_def)
  have p4: "p mod 4 = 0" using a(6,8) unfolding p by (simp add: mod_add_eq[symmetric])
  have "mem_free p s = plug_holes mem s1"
  proof -
    have "p \<noteq> 0" "ram s \<le> p" "p < ram_end s" using a p by simp_all
    moreover have "mused (mbytes s) mem = 1" "mnext (set_mused mem 0 (mbytes s)) mem = total xs + n"
      using a by (simp_all add: mem_def store_simps)
    ultimately show ?thesis using p4 sub by (simp add: mem_free_def LWIP_ASSERT_def s1_def Let_def)
  qed
  also have "\<dots> = Some (plug_bwd mem (plug_fwd mem s1))"
    using a1 r1 by (simp add: plug_holes_steps mem_def)
  finally have eq: "mem_free p s = Some (plug_bwd mem (plug_fwd mem s1))" .
  have m1: "mem = ram s1 + total xs" by (simp add: mem_def r1)
  note f = plug_fwd_shape[OF sh1 m1]
  obtain j zs where j: "join_fwd n ys = (j, False) # zs" using join_fwd_Cons by blast
  note g = plug_bwd_shape[OF f(1)[unfolded j], of mem, unfolded f(2), OF m1, folded j]
  have "mbytes (plug_bwd mem (plug_fwd mem s1)) x = mbytes s x" if "payload (ram s) (xs @ (n, False) # ys) x" for x
  proof -
    have "mbytes s1 x = mbytes s x"
      using payload_frame[OF that] a(4) by (auto simp: s1_def mem_def store_simps)
    then show ?thesis using f(3)[of x] g(3)[of x] that r1 by (simp add: payload_join_fwd)
  qed
  then show ?thesis using eq g r1 no_adj_join[OF na] f(2)
    by (intro exI[of _ "plug_bwd mem (plug_fwd mem s1)"]) (simp add: heap_ok_def)
qed

subsection \<open>Trimming\<close>

definition trim_areas :: "nat \<Rightarrow> nat \<Rightarrow> areas \<Rightarrow> areas" where
  "trim_areas c k ys =
     (if c = k then (k, True) # ys
      else case ys of (j, False) # zs \<Rightarrow> (c, True) # (k + j - c, False) # zs
        | _ \<Rightarrow> if c + 24 \<le> k then (c, True) # (k - c, False) # ys else (k, True) # ys)"

lemma shape_cut:
  assumes sh: "shape s (xs @ (k, True) # mid @ ys)" and mid: "mid = [] \<or> mid = [(j, False)]"
    and c: "c + 24 \<le> k + total mid" "c < k" "24 \<le> c" "c mod 4 = 0" and T: "T = total xs"
    and lf: "lf = (if list_all snd xs then ram s + (T + c) else lfree s)"
  shows "shape (s\<lparr>lfree := lf, mbytes := cut_bytes (ram s) T c (k + total mid) False (mbytes s),
      mstats := (mstats s)\<lparr>st_used := st_used (mstats s) - of_nat (k - c)\<rparr>\<rparr>)
    (xs @ (c, True) # (k + total mid - c, False) # ys)"
proof -
  have l: "layout s (xs @ (k, True) # mid @ ys)" using sh by (simp add: shape_def)
  have "layout (s\<lparr>mbytes := cut_bytes (ram s) T c (k + total mid) False (mbytes s)\<rparr>)
      (xs @ [(c, True), (k + total mid - c, False)] @ ys)"
    using layout_cut[OF l refl c(1,3,4) T, of False] by simp
  moreover have "of_nat k - of_nat (k - c) = (of_nat c :: u32_t)" using c(2) by (simp add: of_nat_diff)
  ultimately show ?thesis
    using sh mid T lf
    by (auto simp: shape_def layout_def takeWhile_all takeWhile_not_all in_use_append) (auto simp: in_use_def algebra_simps)
qed

lemma mem_trim_eq:
  assumes l: "layout s (xs @ (k, True) # ys)" and n: "need n + 12 \<le> k" "12 \<le> need n"
    and T: "T = total xs" and p: "p = ram s + T + 12" and c: "c = 12 + need n"
    and free: "free = (ys \<noteq> [] \<and> \<not> snd (hd ys))" and N: "N = (if free then k + fst (hd ys) else k)"
  shows "mem_trim p n s =
     (if c = k then Some (p, s)
      else if free \<or> c + 24 \<le> k
      then Some (p, s\<lparr>lfree := (if free then if lfree s = ram s + (T + k) then ram s + (T + c) else lfree s
                               else if ram s + (T + c) < lfree s then ram s + (T + c) else lfree s),
                      mbytes := cut_bytes (ram s) T c N False (mbytes s),
                      mstats := (mstats s)\<lparr>st_used := st_used (mstats s) - of_nat (k - c)\<rparr>\<rparr>)
      else Some (p, s))"
proof -
  note a = layout_area[OF l, folded T]
  have nd: "(if LWIP_MEM_ALIGN_SIZE n < 12 then 12 else LWIP_MEM_ALIGN_SIZE n) = need n"
    by (simp add: need_def max_def)
  have mem: "sub32 p 12 = ram s + T" "sub32 (ram s + T) (ram s) = T" "sub32 (sub32 (T + k) T) 12 = k - 12"
    using a p by (simp_all add: sub32_exact)
  have as: "LWIP_ASSERT True x = x" for x :: "(nat \<times> mem_state) option" by (simp add: LWIP_ASSERT_def)
  have g: "ram s \<le> p" "p < ram_end s" "need n \<le> 102400" "need n \<le> k - 12" using a n p by simp_all
  have ng: "(102400 < need n) = False" "(ram s \<le> p \<and> p < ram_end s) = True" "(p < ram s \<or> ram_end s \<le> p) = False"
      "(need n \<le> k - 12) = True" "(k - 12 < need n) = False" using g by auto
  have e1: "need n = k - 12 \<longleftrightarrow> c = k" "need n + 12 + 12 \<le> k - 12 \<longleftrightarrow> c + 24 \<le> k" "T + 12 + need n = T + c"
      "k - 12 - need n = k - c"
    using n a(4) c by auto
  have nxt: "mused (mbytes s) (ram s + (T + k)) = 0 \<longleftrightarrow> free" "free \<Longrightarrow> mnext (mbytes s) (ram s + (T + k)) = T + N"
      "free \<Longrightarrow> 24 \<le> fst (hd ys)" "T + N \<le> 102400"
  proof -
    have "(mused (mbytes s) (ram s + (T + k)) = 0 \<longleftrightarrow> free) \<and>
      (free \<longrightarrow> mnext (mbytes s) (ram s + (T + k)) = T + N \<and> 24 \<le> fst (hd ys)) \<and> T + N \<le> 102400"
    proof (cases ys)
      case Nil
      then show ?thesis using l a N T free by (auto simp: layout_def add.assoc)
    next
      case (Cons b zs)
      obtain j u where b: "b = (j, u)" by fastforce
      from layout_area[of s "xs @ [(k, True)]" j u zs] l Cons b
      show ?thesis using a N T free by (auto simp: add.assoc)
    qed
    then show "mused (mbytes s) (ram s + (T + k)) = 0 \<longleftrightarrow> free" "free \<Longrightarrow> mnext (mbytes s) (ram s + (T + k)) = T + N"
      "free \<Longrightarrow> 24 \<le> fst (hd ys)" "T + N \<le> 102400" by auto
  qed
  have w: "mnext (set_mnext (ram s + T) (T + c) (set_mprev (ram s + (T + c)) T
        (set_mnext (ram s + (T + c)) (T + N) (set_mused (ram s + (T + c)) 0 (mbytes s))))) (ram s + (T + c)) = T + N"
    using nxt(4) c by (simp add: store_simps)
  have nx2: "mnext (set_mused (ram s + (T + c)) 0 (mbytes s)) (ram s + T) = T + k"
    using a(1) c by (simp add: store_simps)
  have N2: "\<not> free \<Longrightarrow> N = k" using N by simp
  show ?thesis
  proof (cases "free")
    case True
    then show ?thesis
      unfolding mem_trim_def Let_def mem_sizes nd ng if_False as mem a(1) e1 nxt(1)
      using nxt(2) w by (simp add: cut_bytes_def Let_def)
  next
    case False
    then show ?thesis
      unfolding mem_trim_def Let_def mem_sizes nd ng if_False as mem a(1) e1 nxt(1) nx2
      using w N2 nx2 by (simp add: cut_bytes_def Let_def)
  qed
qed

lemma takeWhile_Cons_True: "takeWhile snd (xs @ (k, True) # ys) =
    (if list_all snd xs then xs @ (k, True) # takeWhile snd ys else takeWhile snd xs)"
  by (simp add: takeWhile_all takeWhile_not_all)

lemma mem_trim_shape:
  assumes ok: "heap_ok s (xs @ (k, True) # ys)" and p: "p = ram s + total xs + 12"
    and n: "n \<le> 0xfffffffc" "need n + 12 \<le> k"
  shows "\<exists>t. mem_trim p n s = Some (p, t) \<and> ram t = ram s \<and> heap_ok t (xs @ trim_areas (need n + 12) k ys) \<and>
    (\<forall>x. payload (ram s) (xs @ trim_areas (need n + 12) k ys) x \<longrightarrow> mbytes t x = mbytes s x)"
proof -
  have sh: "shape s (xs @ (k, True) # ys)" and na: "no_adj (xs @ (k, True) # ys)"
    using ok by (simp_all add: heap_ok_def)
  then have l: "layout s (xs @ (k, True) # ys)" by (simp add: shape_def)
  define T where "T = total xs"
  define c where "c = 12 + need n"
  note a = layout_area[OF l, folded T_def] and nb = need_bounds[OF n(1)]
  have c: "24 \<le> c" "c mod 4 = 0" "c \<le> k" using nb n(2) by (simp_all add: c_def mod_add_eq[symmetric, of 12])
  note eq = mem_trim_eq[OF l n(2) nb(2) T_def _ c_def refl refl, of p]
  have gap: "c + 4 \<le> k" if "c \<noteq> k" using that c a(5) by presburger
  have lf: "lfree s = ram s + (if list_all snd xs then T + k + total (takeWhile snd ys) else total (takeWhile snd xs))"
    using sh by (simp add: shape_def takeWhile_Cons_True T_def add.assoc)
  have lt: "\<not> list_all snd xs \<Longrightarrow> lfree s < ram s + T"
    using lf total_takeWhile_lt[of xs] layout_pos[OF l] by (simp add: T_def)
  consider "c = k" | "c \<noteq> k" "ys = [] \<or> snd (hd ys)" "\<not> c + 24 \<le> k" | "c \<noteq> k" "ys = [] \<or> snd (hd ys)" "c + 24 \<le> k"
    | j zs where "c \<noteq> k" "ys = (j, False) # zs" by (cases ys) (auto, metis)
  then show ?thesis
  proof cases
    case 1
    then show ?thesis using eq p ok by (simp add: T_def trim_areas_def c_def add.commute)
  next
    case 2
    moreover have "trim_areas c k ys = (k, True) # ys"
      using 2 by (auto simp: trim_areas_def split: list.split prod.split bool.split)
    ultimately show ?thesis using eq p ok by (auto simp: T_def c_def add.commute)
  next
    case 3
    have ta: "trim_areas c k ys = (c, True) # (k - c, False) # ys"
      using 3 by (auto simp: trim_areas_def split: list.split prod.split bool.split)
    let ?lf = "if ram s + (T + c) < lfree s then ram s + (T + c) else lfree s"
    have lfv: "?lf = (if list_all snd xs then ram s + (T + c) else lfree s)" using lf lt gap[OF 3(1)] by (cases "list_all snd xs") auto
    let ?t = "s\<lparr>lfree := ?lf, mbytes := cut_bytes (ram s) T c k False (mbytes s),
      mstats := (mstats s)\<lparr>st_used := st_used (mstats s) - of_nat (k - c)\<rparr>\<rparr>"
    have "shape ?t (xs @ (c, True) # (k - c, False) # ys)"
      using shape_cut[of s xs k "[]" ys 0 c T] sh 3 c lfv by (simp add: T_def)
    moreover have "no_adj (xs @ (c, True) # (k - c, False) # ys)"
      using na 3(2) by (cases ys) (auto simp: no_adj_append)
    moreover have "mem_trim p n s = Some (p, ?t)" using eq p 3 by (auto simp: T_def)
    moreover have "cut_bytes (ram s) T c k False (mbytes s) x = mbytes s x"
      if "payload (ram s) (xs @ (c, True) # (k - c, False) # ys) x" for x
      by (rule cut_bytes_frame) (use 3 c that payload_range[of "ram s" xs x] payload_range[of "ram s + T + k" ys x]
        in \<open>auto simp: payload_append T_def add.assoc\<close>)
    ultimately show ?thesis using ta by (intro exI[of _ ?t]) (simp add: heap_ok_def c_def add.commute)
  next
    case 4
    have ta: "trim_areas c k ys = (c, True) # (k + j - c, False) # zs"
      using 4 by (simp add: trim_areas_def)
    have j: "24 \<le> j" using layout_area(4)[of s "xs @ [(k, True)]" j False zs] l 4 by simp
    let ?lf = "if lfree s = ram s + (T + k) then ram s + (T + c) else lfree s"
    have lfv: "?lf = (if list_all snd xs then ram s + (T + c) else lfree s)" using lf lt 4 by (cases "list_all snd xs") auto
    let ?t = "s\<lparr>lfree := ?lf, mbytes := cut_bytes (ram s) T c (k + j) False (mbytes s),
      mstats := (mstats s)\<lparr>st_used := st_used (mstats s) - of_nat (k - c)\<rparr>\<rparr>"
    have "shape ?t (xs @ (c, True) # (k + j - c, False) # zs)"
      using shape_cut[of s xs k "[(j, False)]" zs j c T] sh 4 c lfv j gap by (simp add: T_def)
    moreover have "no_adj (xs @ (c, True) # (k + j - c, False) # zs)"
      using na 4(2) by (cases zs) (auto simp: no_adj_append)
    moreover have "mem_trim p n s = Some (p, ?t)" using eq p 4 by (auto simp: T_def)
    moreover have "cut_bytes (ram s) T c (k + j) False (mbytes s) x = mbytes s x"
      if "payload (ram s) (xs @ (c, True) # (k + j - c, False) # zs) x" for x
      by (rule cut_bytes_frame) (use j c that payload_range[of "ram s" xs x] payload_range[of "ram s + T + (k + j)" zs x]
        in \<open>auto simp: payload_append T_def add.assoc\<close>)
    ultimately show ?thesis using ta by (intro exI[of _ ?t]) (simp add: heap_ok_def c_def add.commute)
  qed
qed

subsection \<open>Initialisation\<close>

lemma mem_init_ok:
  assumes "a + 102428 \<le> 2 ^ 32" "st_used (mstats s) = 0"
  shows "\<exists>t. mem_init a s = Some t \<and> heap_ok t [(102400, False)] \<and> ram t = LWIP_MEM_ALIGN a"
proof -
  define r where "r = LWIP_MEM_ALIGN a"
  have r: "r \<le> a + 3" "r mod 4 = 0" using LWIP_MEM_ALIGN_bounds[of a] assms(1) by (simp_all add: r_def)
  define m where "m = set_mprev (r + 102400) 102400 (set_mnext (r + 102400) 102400 (set_mused (r + 102400) 1
    (set_mused r 0 (set_mprev r 0 (set_mnext r 102400 (mbytes s))))))"
  have f: "mnext m r = 102400" "mprev m r = 0" "mused m r = 0" "mnext m (r + 102400) = 102400" "mused m (r + 102400) = 1"
    unfolding m_def by (simp_all add: store_simps)
  let ?t = "s\<lparr>ram := r, ram_end := r + 102400, lfree := r, mbytes := m, mstats := (mstats s)\<lparr>st_avail := 102400\<rparr>\<rparr>"
  have "mem_init a s = Some ?t" by (simp add: mem_init_def LWIP_ASSERT_def m_def r_def Let_def)
  moreover have "heap_ok ?t [(102400, False)]"
    using r f assms by (simp add: heap_ok_def shape_def layout_def in_use_def)
  ultimately show ?thesis by (intro exI[of _ ?t]) (simp add: r_def)
qed

subsection \<open>The heap is an allocator\<close>

fun area :: "nat \<Rightarrow> areas \<Rightarrow> nat \<Rightarrow> nat \<Rightarrow> bool" where
  "area r [] a k \<longleftrightarrow> False"
| "area r ((n, u) # bs) a k \<longleftrightarrow> a = r \<and> u \<and> k = n \<or> area (r + n) bs a k"

lemma area_append: "area r (xs @ ys) a k \<longleftrightarrow> area r xs a k \<or> area (r + total xs) ys a k"
  by (induction r xs a k rule: area.induct) (auto simp: algebra_simps)

lemma area_split: "area r bl a k \<Longrightarrow> \<exists>xs ys. bl = xs @ (k, True) # ys \<and> a = r + total xs"
proof (induction r bl a k rule: area.induct)
  case (2 r n u bs a k)
  show ?case
  proof (cases "a = r \<and> u \<and> k = n")
    case True
    then show ?thesis by (intro exI[of _ "[]"] exI[of _ bs]) auto
  next
    case False
    then obtain xs ys where "bs = xs @ (k, True) # ys" "a = r + n + total xs" using 2 by auto
    then show ?thesis by (intro exI[of _ "(n, u) # xs"] exI[of _ ys]) auto
  qed
qed simp

lemma area_range: "area r bl a k \<Longrightarrow> r \<le> a \<and> a + k \<le> r + total bl"
  by (induction r bl a k rule: area.induct) auto

lemma area_disjoint:
  "area r bl a k \<Longrightarrow> area r bl b j \<Longrightarrow> a \<noteq> b \<Longrightarrow> a + k \<le> b \<or> b + j \<le> a"
proof (induction r bl a k rule: area.induct)
  case (2 r n u bs a k)
  then show ?case using area_range[of "r + n" bs a k] area_range[of "r + n" bs b j] by auto
qed simp

lemma area_payload: "area r bl a k \<Longrightarrow> a + 12 \<le> x \<Longrightarrow> x < a + k \<Longrightarrow> payload r bl x"
  by (induction r bl a k rule: area.induct) auto

lemma seg_put:
  "seg m r d p bs \<Longrightarrow> (\<And>y. y \<noteq> x \<Longrightarrow> m' y = m y) \<Longrightarrow>
   x < r + d \<or> r + d + total bs \<le> x \<or> payload (r + d) bs x \<Longrightarrow> seg m' r d p bs"
proof (induction m r d p bs rule: seg.induct)
  case (2 m r d p n u bs)
  have n: "24 \<le> n" "seg m r (d + n) d bs" using "2.prems" by simp_all
  have x: "x < r + d \<or> r + d + 12 \<le> x" using "2.prems"(3) n payload_range[of "r + d + n" bs x] by auto
  have "m' y = m y" if "r + d \<le> y" "y < r + d + 12" for y using "2.prems"(2)[of y] x that by auto
  then have "mnext m' (r + d) = mnext m (r + d)" "mprev m' (r + d) = mprev m (r + d)" "mused m' (r + d) = mused m (r + d)"
    by (auto intro: mfields_cong)
  moreover have "seg m' r (d + n) d bs"
    by (rule "2.IH"[OF n(2) "2.prems"(2)]) (use "2.prems"(3) n in \<open>auto simp: add.assoc\<close>)
  ultimately show ?case using "2.prems"(1) by simp
qed simp

definition mem_put :: "nat \<Rightarrow> u8_t \<Rightarrow> mem_state \<Rightarrow> mem_state" where
  "mem_put x b s = s\<lparr>mbytes := (mbytes s)(x := b)\<rparr>"

lemma heap_ok_put:
  assumes "heap_ok s bl" "payload (ram s) bl x"
  shows "heap_ok (mem_put x b s) bl"
proof -
  have x: "x < ram s + total bl" using payload_range[OF assms(2)] by simp
  have l: "layout s bl" using assms(1) by (simp add: heap_ok_def shape_def)
  have "((mbytes s)(x := b)) y = mbytes s y" if "ram_end s \<le> y" for y
    using x l that by (auto simp: layout_def)
  then have "mnext ((mbytes s)(x := b)) (ram_end s) = mnext (mbytes s) (ram_end s)"
      "mused ((mbytes s)(x := b)) (ram_end s) = mused (mbytes s) (ram_end s)"
    by (auto intro: mfields_cong simp del: fun_upd_apply)
  moreover have "seg ((mbytes s)(x := b)) (ram s) 0 0 bl"
    by (rule seg_put[of "mbytes s"]) (use l assms(2) in \<open>auto simp: layout_def\<close>)
  ultimately show ?thesis using assms(1) by (auto simp: heap_ok_def shape_def layout_def mem_put_def)
qed

text \<open>A client that asks for no more than 0xfffffffc bytes, so that the rounded size does not wrap.\<close>

definition mem_request :: "nat \<Rightarrow> mem_state \<Rightarrow> (nat \<times> mem_state) option" where
  "mem_request n s = (if n \<le> 0xfffffffc then mem_malloc n s else Some (0, s))"

definition mem_live :: "mem_state \<Rightarrow> holdings \<Rightarrow> bool" where
  "mem_live s L \<longleftrightarrow> (\<exists>bl. heap_ok s bl \<and> distinct (map fst L) \<and>
     (\<forall>(p, n)\<in>set L. \<exists>a k. area (ram s) bl a k \<and> p = a + 12 \<and> n + 12 \<le> k))"

lemma owns_payload:
  assumes "\<forall>(p, n)\<in>set L. \<exists>a k. area r bl a k \<and> p = a + 12 \<and> n + 12 \<le> k" "owns L x"
  shows "payload r bl x"
  using assms area_payload[of r bl _ _ x] by (fastforce simp: owns_def)

lemma mem_live_separate: "mem_live s L \<Longrightarrow> separate L"
proof -
  assume "mem_live s L"
  then obtain bl where d: "distinct (map fst L)"
    and a: "\<And>p n. (p, n) \<in> set L \<Longrightarrow> \<exists>a k. area (ram s) bl a k \<and> p = a + 12 \<and> n + 12 \<le> k"
    by (fastforce simp: mem_live_def)
  have "p + n \<le> q \<or> q + k \<le> p" if pn: "(p, n) \<in> set L" and qk: "(q, k) \<in> set L" and ne: "p \<noteq> q" for p n q k
  proof -
    obtain a1 k1 a2 k2 where "area (ram s) bl a1 k1" "p = a1 + 12" "n + 12 \<le> k1"
        "area (ram s) bl a2 k2" "q = a2 + 12" "k + 12 \<le> k2" using a[OF pn] a[OF qk] by blast
    then show ?thesis using area_disjoint[of "ram s" bl a1 k1 a2 k2] ne by auto
  qed
  then show ?thesis using d by (auto simp: separate_def)
qed

lemma area_alloc:
  assumes "k + 12 \<le> m" "area r (xs @ (m, False) # ys) a j"
  shows "area r (xs @ alloc_areas k m @ ys) a j"
  using assms by (auto simp: area_append alloc_areas_def add.assoc)

lemma area_new: "k + 12 \<le> m \<Longrightarrow> \<exists>j\<ge>k + 12. area r (xs @ alloc_areas k m @ ys) (r + total xs) j"
  by (auto simp: area_append alloc_areas_def)

lemma area_freed:
  "area r (xs @ (k, True) # ys) b j \<Longrightarrow> b \<noteq> r + total xs \<Longrightarrow> area r (join_bwd xs (join_fwd k ys)) b j"
proof -
  assume "area r (xs @ (k, True) # ys) b j" "b \<noteq> r + total xs"
  then have "area r (xs @ join_fwd k ys) b j"
    by (auto simp: area_append join_fwd_def add.assoc split: list.split prod.split bool.split)
  moreover obtain m zs where "join_fwd k ys = (m, False) # zs" using join_fwd_Cons by blast
  ultimately show ?thesis
    by (cases xs rule: rev_cases) (auto simp: join_bwd_def area_append add.assoc)
qed

lemma mem_live_keeps:
  assumes "\<And>x. payload r bl x \<Longrightarrow> m' x = m x" "\<forall>(p, n)\<in>set L. \<exists>a k. area r bl a k \<and> p = a + 12 \<and> n + 12 \<le> k"
  shows "keeps L m m'"
  using assms owns_payload[OF assms(2)] by (auto simp: keeps_def)

lemma mem_live_alloc:
  assumes "mem_live s L"
  shows "\<exists>r t. mem_request n s = Some (r, t) \<and> keeps L (mbytes s) (mbytes t) \<and>
    mem_live t (if r = 0 then L else (r, n) # L)"
proof -
  obtain bl where ok: "heap_ok s bl" and d: "distinct (map fst L)"
    and L: "\<forall>(p, n)\<in>set L. \<exists>a k. area (ram s) bl a k \<and> p = a + 12 \<and> n + 12 \<le> k"
    using assms by (auto simp: mem_live_def)
  have same: ?thesis if "mem_request n s = Some (0, s\<lparr>mstats := st\<rparr>)" "st_used st = st_used (mstats s)" for st
  proof -
    have "heap_ok (s\<lparr>mstats := st\<rparr>) bl" using ok that(2) by (simp add: heap_ok_def shape_def)
    then have "mem_live (s\<lparr>mstats := st\<rparr>) L" using d L unfolding mem_live_def by (intro exI[of _ bl]) simp
    then show ?thesis using that(1) by (simp add: keeps_def)
  qed
  consider "n = 0 \<or> 0xfffffffc < n" | "0 < n" "n \<le> 0xfffffffc" "find_fit (need n) bl = None"
    | e where "0 < n" "n \<le> 0xfffffffc" "find_fit (need n) bl = Some e"
    by (cases "find_fit (need n) bl"; cases "n = 0 \<or> 0xfffffffc < n") auto
  then show ?thesis
  proof cases
    case 1
    then show ?thesis using same[of "mstats s"] by (auto simp: mem_request_def mem_malloc_def)
  next
    case 2
    from malloc_none[OF ok this] obtain st where
      "mem_malloc n s = Some (0, s\<lparr>mstats := st\<rparr>)" "st_used st = st_used (mstats s)" by blast
    then show ?thesis using same 2 by (simp add: mem_request_def)
  next
    case 3
    from find_fit_split[OF 3(3)] obtain xs m ys where
      sp: "bl = xs @ (m, False) # ys" "e = total xs" "need n + 12 \<le> m" by blast
    from malloc_some[OF ok[unfolded sp(1)] 3(1,2) 3(3)[unfolded sp(1,2)] sp(3)] obtain t where
      t: "mem_malloc n s = Some (ram s + total xs + 12, t)" "ram t = ram s"
        "heap_ok t (xs @ alloc_areas (need n) m @ ys)" "\<And>x. payload (ram s) bl x \<Longrightarrow> mbytes t x = mbytes s x"
      using sp(1) by blast
    have new: "ram s + total xs + 12 \<notin> fst ` set L"
    proof
      assume "ram s + total xs + 12 \<in> fst ` set L"
      then obtain j k where "area (ram s) bl (ram s + total xs) k" "j + 12 \<le> k" using L by fastforce
      then show False using area_range[of "ram s" xs "ram s + total xs" k]
          area_range[of "ram s + total xs + m" ys "ram s + total xs" k] sp by (auto simp: area_append)
    qed
    obtain k where k: "need n + 12 \<le> k" "area (ram s) (xs @ alloc_areas (need n) m @ ys) (ram s + total xs) k"
      using area_new[OF sp(3)] by blast
    let ?bl = "xs @ alloc_areas (need n) m @ ys"
    have old: "\<exists>a k. area (ram t) ?bl a k \<and> p = a + 12 \<and> j + 12 \<le> k" if pj: "(p, j) \<in> set L" for p j
    proof -
      obtain a k where "area (ram s) bl a k" "p = a + 12" "j + 12 \<le> k" using L pj by blast
      then show ?thesis using area_alloc[OF sp(3), of "ram s" xs ys a k] t(2) sp(1) by auto
    qed
    have "\<exists>a k. area (ram t) ?bl a k \<and> ram s + total xs + 12 = a + 12 \<and> n + 12 \<le> k"
      using k need_bounds(1)[OF 3(2)] t(2) by (intro exI[of _ "ram s + total xs"] exI[of _ k]) simp
    with old have "\<forall>(p, n)\<in>set ((ram s + total xs + 12, n) # L). \<exists>a k. area (ram t) ?bl a k \<and> p = a + 12 \<and> n + 12 \<le> k"
      by simp blast
    then have "mem_live t ((ram s + total xs + 12, n) # L)"
      unfolding mem_live_def using t(3) d new by (intro exI[of _ "xs @ alloc_areas (need n) m @ ys"]) simp
    moreover have "keeps L (mbytes s) (mbytes t)" by (rule mem_live_keeps[OF t(4) L])
    ultimately show ?thesis using t(1) 3(2) by (simp add: mem_request_def)
  qed
qed

lemma mem_live_free:
  assumes "mem_live s L" "p \<in> fst ` set L"
  shows "\<exists>t. mem_free p s = Some t \<and> mem_live t (filter (\<lambda>b. fst b \<noteq> p) L) \<and>
    keeps (filter (\<lambda>b. fst b \<noteq> p) L) (mbytes s) (mbytes t)"
proof -
  obtain bl where ok: "heap_ok s bl" and d: "distinct (map fst L)"
    and L: "\<forall>(p, n)\<in>set L. \<exists>a k. area (ram s) bl a k \<and> p = a + 12 \<and> n + 12 \<le> k"
    using assms(1) by (auto simp: mem_live_def)
  let ?L = "filter (\<lambda>b. fst b \<noteq> p) L"
  obtain a k where a: "area (ram s) bl a k" "p = a + 12" using assms(2) L by fastforce
  from area_split[OF a(1)] obtain xs ys where sp: "bl = xs @ (k, True) # ys" "a = ram s + total xs" by blast
  from mem_free_shape[OF ok[unfolded sp(1)], of p] a(2) sp(2) obtain t where
    t: "mem_free p s = Some t" "ram t = ram s" "heap_ok t (join_bwd xs (join_fwd k ys))"
      "\<And>x. payload (ram s) (xs @ (k, False) # ys) x \<Longrightarrow> mbytes t x = mbytes s x" by auto
  have other: "\<exists>b j. area (ram s) bl b j \<and> q = b + 12 \<and> n + 12 \<le> j \<and> b \<noteq> ram s + total xs" if "(q, n) \<in> set ?L" for q n
    using L that a(2) sp(2) by fastforce
  have "mem_live t ?L" unfolding mem_live_def
    using t(2,3) d other area_freed[of "ram s" xs k ys] sp(1) distinct_map_filter[OF d]
    by (intro exI[of _ "join_bwd xs (join_fwd k ys)"]) (force simp: )
  moreover have "\<forall>(q, n)\<in>set ?L. \<exists>b j. area (ram s) (xs @ (k, False) # ys) b j \<and> q = b + 12 \<and> n + 12 \<le> j"
    using other sp(1) by (fastforce simp: area_append)
  then have "keeps ?L (mbytes s) (mbytes t)" 
    using mem_live_keeps[of "ram s" "xs @ (k, False) # ys" "mbytes t" "mbytes s" ?L] t(4) by blast
  ultimately show ?thesis using t(1) by blast
qed

lemma mem_live_put:
  assumes "mem_live s L" "owns L x"
  shows "mem_live (mem_put x b s) L \<and> mbytes (mem_put x b s) = (mbytes s)(x := b)"
proof -
  obtain bl where ok: "heap_ok s bl" "distinct (map fst L)"
    and L: "\<forall>(p, n)\<in>set L. \<exists>a k. area (ram s) bl a k \<and> p = a + 12 \<and> n + 12 \<le> k"
    using assms(1) by (auto simp: mem_live_def)
  have "heap_ok (mem_put x b s) bl" by (rule heap_ok_put[OF ok(1) owns_payload[OF L assms(2)]])
  then show ?thesis using ok(2) L unfolding mem_live_def by (auto simp: mem_put_def intro!: exI[of _ bl])
qed

interpretation lh: allocator mem_request mem_free mem_put mbytes mem_live
  using mem_live_separate mem_live_alloc mem_live_free mem_live_put by unfold_locales blast+

subsection \<open>Properties\<close>

fun alloc_first :: "nat \<Rightarrow> areas \<Rightarrow> areas" where
  "alloc_first k [] = []"
| "alloc_first k ((n, u) # bs) = (if \<not> u \<and> k + 12 \<le> n then alloc_areas k n @ bs else (n, u) # alloc_first k bs)"

lemma alloc_first_none: "find_fit k bs = None \<Longrightarrow> alloc_first k bs = bs"
  by (induction k bs rule: find_fit.induct) (auto split: if_splits)

lemma alloc_first_split:
  "find_fit k xs = None \<Longrightarrow> k + 12 \<le> m \<Longrightarrow> alloc_first k (xs @ (m, False) # ys) = xs @ alloc_areas k m @ ys"
  by (induction k xs rule: find_fit.induct) (auto split: if_splits)

text \<open>C34. From \<^verbatim>\<open>mem_init\<close> on, whatever sequence of allocations, releases and writes into its own
  blocks a client makes, \<^verbatim>\<open>mem_malloc\<close> and \<^verbatim>\<open>mem_free\<close> return (no assertion fails and no scan runs
  for ever), the blocks handed out never overlap, and what the client wrote into a block it still
  holds reads back: the structs of the heap are never inside user data.\<close>

theorem lwip_heap_client_reads_back:
  assumes "ram_heap + 102428 \<le> 2 ^ 32" "st_used (mstats s) = 0" "mem_init ram_heap s = Some s0"
  shows "\<exists>t L c. play mem_request mem_free mem_put rs s0 [] Map.empty = Some (t, L, c) \<and> separate L \<and>
    (\<forall>x b. c x = Some b \<longrightarrow> owns L x \<and> mbytes t x = b)"
proof -
  have "heap_ok s0 [(102400, False)]" using mem_init_ok[OF assms(1,2)] assms(3) by auto
  then have "mem_live s0 []" unfolding mem_live_def by auto
  from lh.play_reads_back[OF this, of Map.empty rs] show ?thesis by auto
qed

definition heap_before :: mem_state where
  "heap_before = \<lparr>ram = 0, ram_end = 0, lfree = 0, mbytes = (\<lambda>_. 0),
     mstats = \<lparr>st_avail = 0, st_used = 0, st_max = 0, st_err = 0, st_illegal = 0\<rparr>\<rparr>"

theorem lwip_heap_client_reads_back_witness:
  "\<exists>t L c. play mem_request mem_free mem_put [Alloc 100, Alloc 7, Store 0x3000000c 5, Release 0x3000000c]
     (the (mem_init 0x30000000 heap_before)) [] Map.empty = Some (t, L, c) \<and> separate L"
proof -
  have u: "st_used (mstats heap_before) = 0" by (simp add: heap_before_def)
  obtain t where "mem_init 0x30000000 heap_before = Some t" using mem_init_ok[of "0x30000000" heap_before] u by auto
  then show ?thesis
    using lwip_heap_client_reads_back[of "0x30000000" heap_before t
      "[Alloc 100, Alloc 7, Store 0x3000000c 5, Release 0x3000000c]"] u by auto
qed

text \<open>C35. \<^verbatim>\<open>mem_malloc\<close> implements first fit on the list of areas: the size is rounded up to a
  multiple of 4 and at least 12, the lowest free area that holds it is taken, and split when the
  rest can hold a struct and 12 bytes; the result is NULL exactly when no free area fits. The
  invariant, which includes the lowest-free pointer, the absence of adjacent free areas and the
  count of used bytes, is kept, and no byte of a used area changes.\<close>

theorem mem_malloc_refines:
  assumes ok: "heap_ok s bl" and n: "0 < n" "n \<le> 0xfffffffc"
  shows "\<exists>t. mem_malloc n s =
      Some (case find_fit (need n) bl of None \<Rightarrow> 0 | Some e \<Rightarrow> ram s + e + 12, t) \<and>
    heap_ok t (alloc_first (need n) bl) \<and> (\<forall>x. payload (ram s) bl x \<longrightarrow> mbytes t x = mbytes s x)"
proof (cases "find_fit (need n) bl")
  case None
  from malloc_none[OF ok n None] obtain st where
    "mem_malloc n s = Some (0, s\<lparr>mstats := st\<rparr>)" "st_used st = st_used (mstats s)" by blast
  then show ?thesis using None ok by (simp add: alloc_first_none heap_ok_def shape_def)
next
  case (Some e)
  from find_fit_split[OF Some] obtain xs m ys where
    sp: "bl = xs @ (m, False) # ys" "e = total xs" "need n + 12 \<le> m" "find_fit (need n) xs = None" by blast
  from malloc_some[OF ok[unfolded sp(1)] n Some[unfolded sp(1,2)] sp(3)] Some sp show ?thesis
    by (auto simp: alloc_first_split)
qed

theorem mem_malloc_refines_witness:
  "\<exists>s t. mem_malloc 100 s = Some (ram s + 12, t) \<and> heap_ok s [(102400, False)] \<and>
     heap_ok t [(112, True), (102288, False)]"
proof -
  obtain s where s: "heap_ok s [(102400, False)]"
    using mem_init_ok[of "0x30000000" heap_before] by (auto simp: heap_before_def)
  have "need 100 = 100" by (simp add: need_def LWIP_MEM_ALIGN_SIZE_def add32_def)
  then show ?thesis using mem_malloc_refines[OF s, of 100] s by (auto simp: alloc_areas_def)
qed

text \<open>C36. \<^verbatim>\<open>mem_free\<close> joins the released area with the free areas on both sides, and \<^verbatim>\<open>mem_trim\<close> gives
  the tail of an area back, to the free area behind it or as a new one when it is big enough; both
  return, keep the invariant and leave every byte of the areas still in use, the kept part of the
  trimmed one included, as it was.\<close>

theorem mem_free_trim_refines:
  assumes ok: "heap_ok s (xs @ (k, True) # ys)" and p: "p = ram s + sum_list (map fst xs) + 12"
    and n: "n \<le> 0xfffffffc" "need n + 12 \<le> k"
  shows "(\<exists>t. mem_free p s = Some t \<and> heap_ok t (join_bwd xs (join_fwd k ys)) \<and>
      (\<forall>x. payload (ram s) (xs @ (k, False) # ys) x \<longrightarrow> mbytes t x = mbytes s x)) \<and>
    (\<exists>t. mem_trim p n s = Some (p, t) \<and> heap_ok t (xs @ trim_areas (need n + 12) k ys) \<and>
      (\<forall>x. payload (ram s) (xs @ trim_areas (need n + 12) k ys) x \<longrightarrow> mbytes t x = mbytes s x))"
  using mem_free_shape[OF ok p] mem_trim_shape[OF ok p n] by blast

theorem mem_free_trim_refines_witness:
  "\<exists>s t u. heap_ok s [(112, True), (102288, False)] \<and> mem_free (ram s + 12) s = Some t \<and>
     heap_ok t [(102400, False)] \<and> mem_trim (ram s + 12) 40 s = Some (ram s + 12, u) \<and>
     heap_ok u [(52, True), (102348, False)]"
proof -
  obtain s0 where s0: "heap_ok s0 [(102400, False)]"
    using mem_init_ok[of "0x30000000" heap_before] by (auto simp: heap_before_def)
  have nd: "need 100 = 100" "need 40 = 40" by (simp_all add: need_def LWIP_MEM_ALIGN_SIZE_def add32_def)
  obtain s where s: "heap_ok s [(112, True), (102288, False)]"
    using malloc_some[of s0 "[]" 102400 "[]" 100] s0 nd by (auto simp: alloc_areas_def)
  then show ?thesis
    using mem_free_trim_refines[of s "[]" 112 "[(102288, False)]" "ram s + 12" 40] nd
    by (auto simp: join_bwd_def join_fwd_def trim_areas_def)
qed

text \<open>The size is rounded up without a check for overflow: a request of nearly 4 GB is rounded to 0
  and served with 12 bytes.\<close>

lemma mem_malloc_wraps:
  "heap_ok s [(102400, False)] \<Longrightarrow> \<exists>t. mem_malloc 0xffffffff s = Some (ram s + 12, t) \<and> heap_ok t [(24, True), (102376, False)]"
proof -
  assume s: "heap_ok s [(102400, False)]"
  have nd: "need 0xffffffff = 12" "need 1 = 12" by (simp_all add: need_def LWIP_MEM_ALIGN_SIZE_def add32_def)
  have "mem_malloc 0xffffffff s = mem_malloc 1 s"
    by (subst mem_malloc_need, simp, subst mem_malloc_need, simp) (simp only: nd)
  then show ?thesis using malloc_some[of s "[]" 102400 "[]" 1] s nd by (auto simp: alloc_areas_def)
qed

end
