(* ===== verification/Pbuf_Alloc.thy ===== *)
theory Pbuf_Alloc
  imports Pbuf_Chain Mem_Heap
begin

section \<open>Allocation and release of packet buffers\<close>

text \<open>
  \<^verbatim>\<open>pbuf_alloc\<close>, \<^verbatim>\<open>pbuf_free\<close> and what uses them, over the heap and the two pools the buffers come from.
  A view lists what the allocators have given out and what is free; the theorems say how each call
  changes the view and the chains.
\<close>

subsection \<open>Views of the allocators\<close>

record pview =
  heap_held :: holdings
  pool_free :: "nat list"
  pool_held :: "nat list"
  ref_free :: "nat list"
  ref_held :: "nat list"

definition POOL_SIZE :: nat where "POOL_SIZE = SIZEOF_STRUCT_PBUF + PBUF_POOL_BUFSIZE_ALIGNED"

lemma POOL_SIZE [simp]: "POOL_SIZE = 1072" by (simp add: POOL_SIZE_def)

definition pmem :: "pbuf_state \<Rightarrow> pview \<Rightarrow> bool" where
  "pmem s V \<longleftrightarrow> mem_live (pheap s) (heap_held V) \<and>
     chain (pbytes (ppools s)) (memp_tab (ppools s) MEMP_PBUF_POOL) (pool_free V) \<and>
     chain (pbytes (ppools s)) (memp_tab (ppools s) MEMP_PBUF) (ref_free V) \<and>
     spaced POOL_SIZE (pool_free V @ pool_held V) \<and> spaced SIZEOF_STRUCT_PBUF (ref_free V @ ref_held V) \<and>
     (\<forall>a\<in>set (pool_free V @ pool_held V). a + POOL_SIZE \<le> 2 ^ 32) \<and>
     (\<forall>a\<in>set (pool_free V @ pool_held V). \<forall>b\<in>set (ref_free V @ ref_held V). a + POOL_SIZE \<le> b \<or> b + SIZEOF_STRUCT_PBUF \<le> a)"

lemma pmem_upd [simp]:
  "pmem (upd_pbuf p f s) V = pmem s V" "pmem (s\<lparr>pbufs := B\<rparr>) V = pmem s V" "pmem (s\<lparr>pdata := m\<rparr>) V = pmem s V"
  "pmem (pbuf_pool_is_empty s) V = pmem s V"
  by (simp_all add: pmem_def upd_pbuf_def pbuf_pool_is_empty_def)

fun held :: "pbuf_type \<Rightarrow> nat \<Rightarrow> pview \<Rightarrow> bool" where
  "held PBUF_RAM a V \<longleftrightarrow> a \<in> fst ` set (heap_held V)"
| "held PBUF_POOL a V \<longleftrightarrow> a \<in> set (pool_held V)"
| "held _ a V \<longleftrightarrow> a \<in> set (ref_held V)"

text \<open>The view after a buffer was given back.\<close>

fun give :: "pbuf_type \<Rightarrow> nat \<Rightarrow> pview \<Rightarrow> pview" where
  "give PBUF_RAM a V = V\<lparr>heap_held := filter (\<lambda>b. fst b \<noteq> a) (heap_held V)\<rparr>"
| "give PBUF_POOL a V = V\<lparr>pool_free := a # pool_free V, pool_held := filter (\<lambda>b. b \<noteq> a) (pool_held V)\<rparr>"
| "give _ a V = V\<lparr>ref_free := a # ref_free V, ref_held := filter (\<lambda>b. b \<noteq> a) (ref_held V)\<rparr>"

lemma held_give: "held ty' b V \<Longrightarrow> b \<noteq> a \<Longrightarrow> held ty' b (give ty a V)"
  by (cases ty; cases ty') auto

lemma chain_apart:
  assumes "chain m p fl" "\<And>x. x < a \<or> a + 4 \<le> x \<Longrightarrow> m' x = m x" "\<And>b. b \<in> set fl \<Longrightarrow> a + 4 \<le> b \<or> b + 4 \<le> a"
  shows "chain m' p fl"
proof (rule free_chain_cong[OF _ assms(1)])
  fix b x assume "b \<in> set fl" "b \<le> x" "x < b + 4"
  then show "m' x = m x" using assms(2)[of x] assms(3)[of b] by auto
qed

lemma pmem_apart: "pmem s V \<Longrightarrow> a \<in> set (pool_free V @ pool_held V) \<Longrightarrow> b \<in> set (ref_free V @ ref_held V) \<Longrightarrow>
    a + POOL_SIZE \<le> b \<or> b + SIZEOF_STRUCT_PBUF \<le> a"
  unfolding pmem_def by blast

lemma pmem_top: "pmem s V \<Longrightarrow> a \<in> set (pool_free V @ pool_held V) \<Longrightarrow> a + POOL_SIZE \<le> 2 ^ 32"
  unfolding pmem_def by blast

lemma give_pool:
  assumes v: "pmem s V" and a: "a \<in> set (pool_held V)"
  shows "\<exists>m. memp_free MEMP_PBUF_POOL a (ppools s) = Some m \<and> pmem (s\<lparr>ppools := m\<rparr>) (give PBUF_POOL a V)"
proof -
  have c: "chain (pbytes (ppools s)) (memp_tab (ppools s) MEMP_PBUF_POOL) (pool_free V)" and
    c2: "chain (pbytes (ppools s)) (memp_tab (ppools s) MEMP_PBUF) (ref_free V)" and
    sp: "spaced POOL_SIZE (pool_free V @ pool_held V)" using v by (simp_all add: pmem_def)
  note d = spacedD(1)[OF sp]
  have "spaced POOL_SIZE (a # pool_free V)" by (rule spaced_subset[OF sp]) (use d a in auto)
  from memp_free_push[OF c this] obtain m where m: "memp_free MEMP_PBUF_POOL a (ppools s) = Some m"
      "chain (pbytes m) (memp_tab m MEMP_PBUF_POOL) (a # pool_free V)"
      "\<And>x. x < a \<or> a + 4 \<le> x \<Longrightarrow> pbytes m x = pbytes (ppools s) x" "memp_tab m MEMP_PBUF = memp_tab (ppools s) MEMP_PBUF"
    by auto
  have "chain (pbytes m) (memp_tab m MEMP_PBUF) (ref_free V)"
    unfolding m(4)
  proof (rule chain_apart[OF c2 m(3)])
    fix b assume "b \<in> set (ref_free V)"
    then show "a + 4 \<le> b \<or> b + 4 \<le> a" using pmem_apart[OF v, of a b] a by auto
  qed
  moreover have "spaced POOL_SIZE ((a # pool_free V) @ filter (\<lambda>b. b \<noteq> a) (pool_held V))"
    by (rule spaced_subset[OF sp]) (use d a in auto)
  ultimately show ?thesis using v m a unfolding pmem_def by (intro exI[of _ m]) (simp del: pbuf_sizes POOL_SIZE, blast)
qed

lemma give_ref:
  assumes v: "pmem s V" and a: "a \<in> set (ref_held V)"
  shows "\<exists>m. memp_free MEMP_PBUF a (ppools s) = Some m \<and> pmem (s\<lparr>ppools := m\<rparr>) (give PBUF_REF a V)"
proof -
  have c: "chain (pbytes (ppools s)) (memp_tab (ppools s) MEMP_PBUF) (ref_free V)" and
    c2: "chain (pbytes (ppools s)) (memp_tab (ppools s) MEMP_PBUF_POOL) (pool_free V)" and
    sp: "spaced SIZEOF_STRUCT_PBUF (ref_free V @ ref_held V)" using v by (simp_all add: pmem_def)
  note d = spacedD(1)[OF sp]
  have "spaced SIZEOF_STRUCT_PBUF (a # ref_free V)" by (rule spaced_subset[OF sp]) (use d a in auto)
  from memp_free_push[OF c this] obtain m where m: "memp_free MEMP_PBUF a (ppools s) = Some m"
      "chain (pbytes m) (memp_tab m MEMP_PBUF) (a # ref_free V)"
      "\<And>x. x < a \<or> a + 4 \<le> x \<Longrightarrow> pbytes m x = pbytes (ppools s) x" "memp_tab m MEMP_PBUF_POOL = memp_tab (ppools s) MEMP_PBUF_POOL"
    by auto
  have "chain (pbytes m) (memp_tab m MEMP_PBUF_POOL) (pool_free V)"
    unfolding m(4)
  proof (rule chain_apart[OF c2 m(3)])
    fix b assume "b \<in> set (pool_free V)"
    then show "a + 4 \<le> b \<or> b + 4 \<le> a" using pmem_apart[OF v, of b a] a by auto
  qed
  moreover have "spaced SIZEOF_STRUCT_PBUF ((a # ref_free V) @ filter (\<lambda>b. b \<noteq> a) (ref_held V))"
    by (rule spaced_subset[OF sp]) (use d a in auto)
  ultimately show ?thesis using v m a unfolding pmem_def by (intro exI[of _ m]) (simp del: pbuf_sizes POOL_SIZE, blast)
qed

lemma pbuf_dealloc_value:
  assumes "pmem s V" "held (pb_type (pbufs s a)) a V" "pb_flags (pbufs s a) AND PBUF_FLAG_IS_CUSTOM = 0"
  shows "\<exists>t. pbuf_dealloc custom a s = Some t \<and> pbufs t = pbufs s \<and> pdata t = pdata s \<and>
    pmem t (give (pb_type (pbufs s a)) a V)"
proof (cases "pb_type (pbufs s a)")
  case PBUF_RAM
  obtain h where "mem_free a (pheap s) = Some h" "mem_live h (filter (\<lambda>b. fst b \<noteq> a) (heap_held V))"
    using mem_live_free[of "pheap s" "heap_held V" a] assms PBUF_RAM by (auto simp: pmem_def)
  then show ?thesis using PBUF_RAM assms by (simp add: pbuf_dealloc_def pmem_def)
next
  case PBUF_POOL
  then show ?thesis using give_pool[OF assms(1), of a] assms by (auto simp: pbuf_dealloc_def)
next
  case PBUF_ROM
  then show ?thesis using give_ref[OF assms(1), of a] assms by (auto simp: pbuf_dealloc_def)
next
  case PBUF_REF
  then show ?thesis using give_ref[OF assms(1), of a] assms by (auto simp: pbuf_dealloc_def)
qed

subsection \<open>pbuf\_free\<close>

text \<open>The buffers \<^verbatim>\<open>pbuf_free\<close> releases: those before the first that has another reference.\<close>

definition last_refs :: "pstore \<Rightarrow> nat list \<Rightarrow> nat list" where
  "last_refs B as = takeWhile (\<lambda>a. pb_ref (B a) = 1) as"

definition shared_tail :: "pstore \<Rightarrow> nat list \<Rightarrow> nat list" where
  "shared_tail B as = dropWhile (\<lambda>a. pb_ref (B a) = 1) as"

definition free_store :: "nat list \<Rightarrow> pstore \<Rightarrow> pstore" where
  "free_store as B = (\<lambda>x. if x \<in> set (last_refs B as) \<or> (shared_tail B as \<noteq> [] \<and> x = hd (shared_tail B as))
     then (B x)\<lparr>pb_ref := pb_ref (B x) - 1\<rparr> else B x)"

definition owned :: "pstore \<Rightarrow> nat list \<Rightarrow> pview \<Rightarrow> bool" where
  "owned B as V \<longleftrightarrow> (\<forall>a\<in>set as. held (pb_type (B a)) a V \<and> pb_flags (B a) AND PBUF_FLAG_IS_CUSTOM = 0)"

definition gives :: "pstore \<Rightarrow> nat list \<Rightarrow> pview \<Rightarrow> pview" where
  "gives B as V = fold (\<lambda>a. give (pb_type (B a)) a) as V"

lemma gives_simps [simp]: "gives B [] V = V" "gives B (a # as) V = gives B as (give (pb_type (B a)) a V)"
  by (simp_all add: gives_def)

lemma pbuf_free_loop_value:
  assumes "pchain (pbufs s) p as" "distinct as" "pmem s V" "owned (pbufs s) (last_refs (pbufs s) as) V"
    "\<forall>a\<in>set as. pb_ref (pbufs s a) \<noteq> 0"
  shows "\<exists>t. pbuf_free_loop custom p c s = Some (c + of_nat (length (last_refs (pbufs s) as)), t) \<and>
    pbufs t = free_store as (pbufs s) \<and> pdata t = pdata s \<and> pmem t (gives (pbufs s) (last_refs (pbufs s) as) V)"
  using assms
proof (induction as arbitrary: p c s V)
  case Nil
  then show ?case by (subst pbuf_free_loop.simps) (simp add: last_refs_def free_store_def shared_tail_def)
next
  case (Cons a as)
  let ?B = "pbufs s"
  define s1 where "s1 = upd_pbuf a (\<lambda>b. b\<lparr>pb_ref := pb_ref b - 1\<rparr>) s"
  have p: "p = a" "a \<noteq> 0" "pchain ?B (pb_next (?B a)) as" "pb_ref (?B a) \<noteq> 0" using Cons.prems(1,5) by simp_all
  have B1: "pbufs s1 = ?B(a := (?B a)\<lparr>pb_ref := pb_ref (?B a) - 1\<rparr>)" "pdata s1 = pdata s" by (simp_all add: s1_def upd_pbuf_def)
  show ?case
  proof (cases "pb_ref (?B a) = 1")
    case False
    then have "pbuf_free_loop custom p c s = Some (c, s1)"
      using p by (subst pbuf_free_loop.simps) (simp add: Let_def s1_def[symmetric] B1)
    moreover have "last_refs ?B (a # as) = []" "free_store (a # as) ?B = pbufs s1"
      using False by (auto simp: last_refs_def free_store_def shared_tail_def B1)
    moreover have "pmem s1 V" using Cons.prems(3) by (simp add: s1_def)
    ultimately show ?thesis using B1(2) by (intro exI[of _ s1]) simp
  next
    case True
    have an: "a \<notin> set as" using Cons.prems(2) by simp
    have pre: "last_refs ?B (a # as) = a # last_refs ?B as" "shared_tail ?B (a # as) = shared_tail ?B as"
      using True by (simp_all add: last_refs_def shared_tail_def)
    have o: "held (pb_type (?B a)) a V" "pb_flags (?B a) AND PBUF_FLAG_IS_CUSTOM = 0"
      using Cons.prems(4) pre by (simp_all add: owned_def)
    obtain t where t: "pbuf_dealloc custom a s1 = Some t" "pbufs t = pbufs s1" "pdata t = pdata s"
        "pmem t (give (pb_type (?B a)) a V)"
      using pbuf_dealloc_value[of s1 V a custom] Cons.prems(3) o B1 by (auto simp: s1_def)
    have step: "pbuf_free_loop custom p c s = pbuf_free_loop custom (pb_next (?B a)) (c + 1) t"
      using p True t(1) by (subst pbuf_free_loop.simps) (simp add: Let_def s1_def[symmetric] B1)
    have same: "x \<in> set as \<Longrightarrow> pbufs t x = ?B x" for x using an t(2) B1 by auto
    have lr: "last_refs (pbufs t) as = last_refs ?B as" "shared_tail (pbufs t) as = shared_tail ?B as"
      unfolding last_refs_def shared_tail_def using same by (auto intro!: takeWhile_cong dropWhile_cong)
    have sub: "set (last_refs ?B as) \<subseteq> set as" unfolding last_refs_def by (rule set_takeWhileD[THEN conjunct1, THEN subsetI])
    have ow: "owned (pbufs t) (last_refs (pbufs t) as) (give (pb_type (?B a)) a V)"
      using Cons.prems(4) sub an same unfolding lr pre owned_def by (auto intro!: held_give)
    have gv: "gives (pbufs t) (last_refs ?B as) W = gives ?B (last_refs ?B as) W" for W
      unfolding gives_def by (rule fold_cong) (use sub same in auto)
    have "pchain (pbufs t) (pb_next (?B a)) as" using p(3) pchain_cong[of as "pbufs t" ?B] same by simp
    then obtain u where u: "pbuf_free_loop custom (pb_next (?B a)) (c + 1) t = Some (c + 1 + of_nat (length (last_refs ?B as)), u)"
        "pbufs u = free_store as (pbufs t)" "pdata u = pdata s" "pmem u (gives ?B (last_refs ?B as) (give (pb_type (?B a)) a V))"
      using Cons.IH[of t "pb_next (?B a)" "give (pb_type (?B a)) a V" "c + 1"] Cons.prems(2,5) t(3,4) ow same
      unfolding lr gv by auto
    have "free_store as (pbufs t) = free_store (a # as) ?B"
    proof
      fix x
      have "hd (shared_tail ?B as) \<in> set as" if "shared_tail ?B as \<noteq> []"
        using that unfolding shared_tail_def by (metis hd_in_set set_dropWhileD)
      then show "free_store as (pbufs t) x = free_store (a # as) ?B x"
        using an sub same[of x] t(2) B1 unfolding free_store_def lr pre by auto
    qed
    then show ?thesis using step u pre by (simp add: add.assoc)
  qed
qed

lemma pbuf_free_value:
  assumes "packet (pbufs s) p as" "p \<noteq> 0" "pmem s V" "owned (pbufs s) (last_refs (pbufs s) as) V"
    "\<forall>a\<in>set as. pb_ref (pbufs s a) \<noteq> 0"
  shows "\<exists>t. pbuf_free custom p s = Some (of_nat (length (last_refs (pbufs s) as)), t) \<and>
    pbufs t = free_store as (pbufs s) \<and> pdata t = pdata s \<and> pmem t (gives (pbufs s) (last_refs (pbufs s) as) V)"
  using pbuf_free_loop_value[of s p as V custom 0] assms by (simp add: pbuf_free_def packet_def)

subsection \<open>pbuf\_alloc from the pool\<close>

text \<open>Buffers whose \<^verbatim>\<open>tot_len\<close> counts \<open>e\<close> bytes that are not linked yet.\<close>

fun ptotals :: "pstore \<Rightarrow> nat list \<Rightarrow> nat \<Rightarrow> bool" where
  "ptotals B [] e \<longleftrightarrow> True"
| "ptotals B (a # as) e \<longleftrightarrow> unat (pb_tot_len (B a)) = blen B a + lens B as + e \<and> ptotals B as e"

lemma ptotals_0: "ptotals B as 0 = totals B as"
  by (induction as) simp_all

lemma ptotals_snoc: "ptotals B (as @ [a]) e \<longleftrightarrow> ptotals B as (blen B a + e) \<and> unat (pb_tot_len (B a)) = blen B a + e"
  by (induction as) (auto simp: algebra_simps)

lemma ptotals_cong:
  "(\<And>a. a \<in> set as \<Longrightarrow> pb_len (B' a) = pb_len (B a) \<and> pb_tot_len (B' a) = pb_tot_len (B a)) \<Longrightarrow> ptotals B' as e = ptotals B as e"
proof (induction as)
  case (Cons a as)
  moreover have "lens B' as = lens B as" by (rule lens_cong) (simp add: Cons.prems)
  ultimately show ?case by simp
qed simp

lemma pchain_snoc:
  assumes "pchain B p as" "as \<noteq> []" "distinct as" "q \<noteq> 0" "pb_next (B' q) = 0" "pb_next (B' (last as)) = q"
    and "\<And>a. a \<in> set as \<Longrightarrow> a \<noteq> last as \<Longrightarrow> pb_next (B' a) = pb_next (B a)"
  shows "pchain B' p (as @ [q])"
  using assms
proof (induction as arbitrary: p)
  case (Cons a as)
  show ?case
  proof (cases as)
    case Nil
    then show ?thesis using Cons.prems by simp
  next
    case (Cons b bs)
    then have "last (a # as) \<in> set as" by simp
    then have "a \<noteq> last (a # as)" using Cons.prems(3) by auto
    then have "pb_next (B' a) = pb_next (B a)" using Cons.prems(7)[of a] by simp
    moreover have "pchain B' (pb_next (B a)) (as @ [q])"
      by (rule Cons.IH) (use Cons.prems Cons in auto)
    ultimately show ?thesis using Cons.prems(1) by simp
  qed
qed simp

definition fresh :: "pstore \<Rightarrow> nat list \<Rightarrow> bool" where
  "fresh B as \<longleftrightarrow> (\<forall>a\<in>set as. pb_ref (B a) = 1 \<and> pb_type (B a) = PBUF_POOL \<and> pb_flags (B a) AND PBUF_FLAG_IS_CUSTOM = 0)"

text \<open>Buffers of the tail: the whole buffer follows the struct.\<close>

definition tail_bufs :: "pstore \<Rightarrow> nat list \<Rightarrow> bool" where
  "tail_bufs B as \<longleftrightarrow> (\<forall>a\<in>set as. pb_payload (B a) = a + SIZEOF_STRUCT_PBUF \<and> 0 < blen B a \<and> blen B a \<le> PBUF_POOL_BUFSIZE_ALIGNED)"

definition bufs_for :: "nat \<Rightarrow> nat" where
  "bufs_for n = (n + (PBUF_POOL_BUFSIZE_ALIGNED - 1)) div PBUF_POOL_BUFSIZE_ALIGNED"

lemma bufs_for_0 [simp]: "bufs_for 0 = 0" by (simp add: bufs_for_def)

lemma bufs_for_Suc: "0 < n \<Longrightarrow> bufs_for n = Suc (bufs_for (n - min n 1056))"
  by (cases "n \<le> 1056") (simp_all add: bufs_for_def min_def div_nat_eqI le_div_geq)

lemma fresh_gives:
  "\<forall>a\<in>set cs. pb_type (B a) = PBUF_POOL \<Longrightarrow>
     gives B cs V = V\<lparr>pool_free := rev cs @ pool_free V, pool_held := filter (\<lambda>b. b \<notin> set cs) (pool_held V)\<rparr>"
proof (induction cs arbitrary: V)
  case (Cons a cs)
  have "filter (\<lambda>b. b \<notin> set cs) (filter (\<lambda>b. b \<noteq> a) xs) = filter (\<lambda>b. b \<notin> set (a # cs)) xs" for xs
    by (induction xs) auto
  then show ?case using Cons by simp
qed simp

lemma take_pool:
  assumes v: "pmem s V" and f: "pool_free V = a # fl"
  obtains m where "memp_malloc MEMP_PBUF_POOL (ppools s) = Some (a, m)" "a \<noteq> 0" "a mod 4 = 0" "a \<notin> set fl" "a \<notin> set (pool_held V)"
    "a + POOL_SIZE \<le> 2 ^ 32" "pmem (s\<lparr>ppools := m\<rparr>) (V\<lparr>pool_free := fl, pool_held := a # pool_held V\<rparr>)"
proof -
  have c: "chain (pbytes (ppools s)) (memp_tab (ppools s) MEMP_PBUF_POOL) (pool_free V)" and
    sp: "spaced POOL_SIZE (pool_free V @ pool_held V)" using v by (simp_all add: pmem_def)
  note d = spacedD(1)[OF sp]
  have spf: "spaced POOL_SIZE (pool_free V)" by (rule spaced_subset[OF sp]) (use d in auto)
  obtain m where m: "memp_malloc MEMP_PBUF_POOL (ppools s) = Some (a, m)"
      "chain (pbytes m) (memp_tab m MEMP_PBUF_POOL) fl" "pbytes m = pbytes (ppools s)" "memp_tab m MEMP_PBUF = memp_tab (ppools s) MEMP_PBUF"
    using memp_malloc_pop[OF c spf] f by auto
  have sp': "spaced POOL_SIZE (fl @ a # pool_held V)" by (rule spaced_subset[OF sp]) (use d f in auto)
  define W where "W = V\<lparr>pool_free := fl, pool_held := a # pool_held V\<rparr>"
  have W: "heap_held W = heap_held V" "pool_free W = fl" "pool_held W = a # pool_held V" "ref_free W = ref_free V"
    "ref_held W = ref_held V" by (simp_all add: W_def)
  define u where "u = s\<lparr>ppools := m\<rparr>"
  have u: "pheap u = pheap s" "ppools u = m" by (simp_all add: u_def)
  have st: "set (fl @ a # pool_held V) = set (pool_free V @ pool_held V)" using f by auto
  have "pmem u W"
    using v m(2) sp' unfolding pmem_def W u st m(3,4) by - (elim conjE, intro conjI; assumption)
  then have pm: "pmem (s\<lparr>ppools := m\<rparr>) (V\<lparr>pool_free := fl, pool_held := a # pool_held V\<rparr>)" by (simp only: u_def W_def)
  have a: "a \<noteq> 0" "a mod 4 = 0" using spacedD(2,3)[OF sp, of a] f by simp_all
  have n: "a \<notin> set fl" "a \<notin> set (pool_held V)" using d f by auto
  have top: "a + POOL_SIZE \<le> 2 ^ 32" by (rule pmem_top[OF v]) (simp add: f)
  show ?thesis by (rule that[OF m(1) a n top pm])
qed

lemma empty_pool:
  assumes v: "pmem s V" and f: "pool_free V = []"
  shows "\<exists>m. memp_malloc MEMP_PBUF_POOL (ppools s) = Some (0, m) \<and> pmem (s\<lparr>ppools := m\<rparr>) V"
proof -
  have c: "chain (pbytes (ppools s)) (memp_tab (ppools s) MEMP_PBUF_POOL) []" and "spaced POOL_SIZE []"
    using v f by (simp_all add: pmem_def spaced_def)
  from memp_malloc_pop[OF this] v show ?thesis by (auto simp: pmem_def)
qed

lemma pool_tail_step:
  assumes "0 < rem" "rem < 0xffff" "memp_malloc MEMP_PBUF_POOL (ppools s) = Some (q, m)" "q \<noteq> 0" "q mod 4 = 0" "q \<noteq> r" "q \<noteq> p"
    and "pb_payload (pbufs s p) + blen (pbufs s) p \<le> p + SIZEOF_STRUCT_PBUF + PBUF_POOL_BUFSIZE_ALIGNED"
    and "k = min rem PBUF_POOL_BUFSIZE_ALIGNED"
    and "s1 = s\<lparr>ppools := m, pbufs := (pbufs s)(
       q := (pbufs s q)\<lparr>pb_type := PBUF_POOL, pb_flags := 0, pb_next := 0, pb_tot_len := of_nat rem, pb_len := of_nat k,
              pb_payload := q + SIZEOF_STRUCT_PBUF, pb_ref := 1\<rparr>,
       r := (pbufs s r)\<lparr>pb_next := q\<rparr>)\<rparr>"
  shows "pool_tail custom p r (int rem) s = pool_tail custom p q (int (rem - k)) s1"
proof -
  have "(q + 16) mod 4 = 0" using assms(5) by presburger
  moreover have "pb_payload (pbufs s1 p) = pb_payload (pbufs s p)" "pb_len (pbufs s1 p) = pb_len (pbufs s p)"
    using assms(6,7) unfolding assms(10) by simp_all
  moreover have "int rem - int k = int (rem - k)" "min (nat (int rem)) PBUF_POOL_BUFSIZE_ALIGNED = k"
    using assms(1,9) by simp_all
  moreover have "upd_pbuf r (\<lambda>b. b\<lparr>pb_next := q\<rparr>) (upd_pbuf q (\<lambda>b. b\<lparr>pb_type := PBUF_POOL, pb_flags := 0, pb_next := 0,
         pb_tot_len := of_int (int rem), pb_len := of_nat k, pb_payload := q + SIZEOF_STRUCT_PBUF, pb_ref := 1\<rparr>) (s\<lparr>ppools := m\<rparr>)) = s1"
    using assms(6) unfolding assms(10) by (simp add: upd_pbuf_def)
  ultimately show ?thesis using assms(1-4,8)
    by (subst pool_tail.simps) (simp add: Let_def LWIP_ASSERT_def)
qed

text \<open>The chain \<open>cs\<close> that \<^verbatim>\<open>pbuf_alloc\<close> has built so far, with \<open>rem\<close> bytes still to come.\<close>

definition partial :: "pstore \<Rightarrow> nat \<Rightarrow> nat list \<Rightarrow> nat \<Rightarrow> pview \<Rightarrow> bool" where
  "partial B p cs rem V \<longleftrightarrow> cs \<noteq> [] \<and> hd cs = p \<and> pchain B p cs \<and> distinct cs \<and> set cs \<subseteq> set (pool_held V) \<and> fresh B cs \<and>
     ptotals B cs rem \<and> pb_payload (B p) + blen B p \<le> p + SIZEOF_STRUCT_PBUF + PBUF_POOL_BUFSIZE_ALIGNED"

lemma partial_fail:
  assumes "partial (pbufs s) p cs rem V" "pmem s V"
  shows "\<exists>c t. pbuf_free custom p s = Some (c, t) \<and> pdata t = pdata s \<and>
    pmem t (V\<lparr>pool_free := rev cs @ pool_free V, pool_held := filter (\<lambda>b. b \<notin> set cs) (pool_held V)\<rparr>)"
proof -
  have "cs \<noteq> []" "pchain (pbufs s) p cs" "distinct cs" using assms(1) unfolding partial_def by blast+
  moreover from this have "p \<noteq> 0" by (cases cs) simp_all
  ultimately have p: "pchain (pbufs s) p cs" "distinct cs" "p \<noteq> 0" by blast+
  have f: "fresh (pbufs s) cs" using assms(1) by (simp add: partial_def)
  then have l: "last_refs (pbufs s) cs = cs" by (simp add: last_refs_def fresh_def takeWhile_eq_all_conv)
  have "owned (pbufs s) cs V" using f assms(1) by (auto simp: owned_def fresh_def partial_def)
  moreover have "\<forall>a\<in>set cs. pb_ref (pbufs s a) \<noteq> 0" using f by (simp add: fresh_def)
  ultimately obtain t where "pbuf_free_loop custom p 0 s = Some (0 + of_nat (length cs), t)" "pdata t = pdata s"
      "pmem t (gives (pbufs s) cs V)"
    using pbuf_free_loop_value[OF p(1,2) assms(2), of custom 0] unfolding l by blast
  moreover have "gives (pbufs s) cs V = V\<lparr>pool_free := rev cs @ pool_free V, pool_held := filter (\<lambda>b. b \<notin> set cs) (pool_held V)\<rparr>"
    by (rule fresh_gives) (use f in \<open>simp add: fresh_def\<close>)
  ultimately show ?thesis using p(3) by (simp add: pbuf_free_def)
qed

text \<open>One more buffer on the chain.\<close>

lemma partial_snoc:
  assumes c: "partial B p cs rem V" and q: "q \<notin> set (pool_held V)" "q \<noteq> 0" and rem: "rem < 0xffff"
    and k: "k = min rem PBUF_POOL_BUFSIZE_ALIGNED"
    and B1: "B1 = B(q := (B q)\<lparr>pb_type := PBUF_POOL, pb_flags := 0, pb_next := 0, pb_tot_len := of_nat rem, pb_len := of_nat k,
              pb_payload := q + SIZEOF_STRUCT_PBUF, pb_ref := 1\<rparr>, last cs := (B (last cs))\<lparr>pb_next := q\<rparr>)"
  shows "partial B1 p (cs @ [q]) (rem - k) (V\<lparr>pool_free := fl, pool_held := q # pool_held V\<rparr>)"
    and "\<And>a. a \<in> set cs \<Longrightarrow> pb_len (B1 a) = pb_len (B a) \<and> pb_payload (B1 a) = pb_payload (B a) \<and> pb_tot_len (B1 a) = pb_tot_len (B a)"
    and "\<And>a. a \<notin> set (cs @ [q]) \<Longrightarrow> B1 a = B a"
    and "blen B1 q = k" "pb_payload (B1 q) = q + SIZEOF_STRUCT_PBUF"
proof -
  have cs: "cs \<noteq> []" "hd cs = p" "pchain B p cs" "distinct cs" "set cs \<subseteq> set (pool_held V)" "fresh B cs" "ptotals B cs rem"
      "pb_payload (B p) + blen B p \<le> p + SIZEOF_STRUCT_PBUF + PBUF_POOL_BUFSIZE_ALIGNED" using c by (simp_all add: partial_def)
  have qn: "q \<notin> set cs" using q(1) cs(5) by auto
  then have ql: "q \<noteq> last cs" using cs(1) by auto
  have old: "pb_len (B1 a) = pb_len (B a) \<and> pb_payload (B1 a) = pb_payload (B a) \<and> pb_tot_len (B1 a) = pb_tot_len (B a) \<and>
      pb_ref (B1 a) = pb_ref (B a) \<and> pb_type (B1 a) = pb_type (B a) \<and> pb_flags (B1 a) = pb_flags (B a)" if "a \<in> set cs" for a
    using that qn unfolding B1 by auto
  show "\<And>a. a \<in> set cs \<Longrightarrow> pb_len (B1 a) = pb_len (B a) \<and> pb_payload (B1 a) = pb_payload (B a) \<and> pb_tot_len (B1 a) = pb_tot_len (B a)"
    using old by blast
  show "\<And>a. a \<notin> set (cs @ [q]) \<Longrightarrow> B1 a = B a" using cs(1) unfolding B1 by auto
  have kb: "k < 65536" "rem < 65536" using k rem by auto
  then have new: "blen B1 q = k" "unat (pb_tot_len (B1 q)) = rem" "pb_payload (B1 q) = q + SIZEOF_STRUCT_PBUF"
    using ql unfolding B1 by (simp_all add: unat_of_nat)
  then show "blen B1 q = k" "pb_payload (B1 q) = q + SIZEOF_STRUCT_PBUF" by simp_all
  have "pchain B1 p (cs @ [q])"
    by (rule pchain_snoc[OF cs(3,1,4) q(2)]) (use qn ql in \<open>auto simp: B1\<close>)
  moreover have "fresh B1 (cs @ [q])" using cs(6) old ql by (simp add: fresh_def B1)
  moreover have "ptotals B1 (cs @ [q]) (rem - k)"
    using cs(7) ptotals_cong[of cs B1 B] old new k by (simp add: ptotals_snoc)
  moreover have "p \<in> set cs" using cs(1,2) by auto
  ultimately show "partial B1 p (cs @ [q]) (rem - k) (V\<lparr>pool_free := fl, pool_held := q # pool_held V\<rparr>)"
    using cs qn old[of p] by (auto simp: partial_def)
qed

lemma pool_tail_value:
  assumes "pmem s V" "partial (pbufs s) p cs rem V" "pool_free V = fl" "rem < 0xffff"
  shows "if bufs_for rem \<le> length fl
    then \<exists>t. pool_tail custom p (last cs) (int rem) s = Some (p, t) \<and> pdata t = pdata s \<and>
      partial (pbufs t) p (cs @ take (bufs_for rem) fl) 0
        (V\<lparr>pool_free := drop (bufs_for rem) fl, pool_held := rev (take (bufs_for rem) fl) @ pool_held V\<rparr>) \<and>
      pmem t (V\<lparr>pool_free := drop (bufs_for rem) fl, pool_held := rev (take (bufs_for rem) fl) @ pool_held V\<rparr>) \<and>
      (\<forall>a\<in>set cs. pb_len (pbufs t a) = pb_len (pbufs s a) \<and> pb_payload (pbufs t a) = pb_payload (pbufs s a) \<and> pb_tot_len (pbufs t a) = pb_tot_len (pbufs s a)) \<and>
      tail_bufs (pbufs t) (take (bufs_for rem) fl) \<and>
      (\<forall>a. a \<notin> set (cs @ take (bufs_for rem) fl) \<longrightarrow> pbufs t a = pbufs s a)
    else \<exists>t. pool_tail custom p (last cs) (int rem) s = Some (0, t) \<and> pdata t = pdata s \<and>
      pmem t (V\<lparr>pool_free := rev (cs @ fl), pool_held := filter (\<lambda>b. b \<notin> set (cs @ fl)) (pool_held V)\<rparr>)"
  using assms
proof (induction fl arbitrary: s V cs rem)
  case Nil
  show ?case
  proof (cases "rem = 0")
    case True
    have eq: "V\<lparr>pool_free := []\<rparr> = V" using Nil.prems(3) by (cases V) simp
    show ?thesis using Nil.prems(1,2) True by (simp add: pool_tail.simps tail_bufs_def) (simp only: eq)
  next
    case False
    obtain m where m: "memp_malloc MEMP_PBUF_POOL (ppools s) = Some (0, m)" "pmem (s\<lparr>ppools := m\<rparr>) V"
      using empty_pool[OF Nil.prems(1,3)] by blast
    let ?s = "pbuf_pool_is_empty (s\<lparr>ppools := m\<rparr>)"
    have "partial (pbufs ?s) p cs rem V" using Nil.prems(2) by (simp add: pbuf_pool_is_empty_def)
    moreover have "pmem ?s V" using m(2) by simp
    ultimately obtain c t where "pbuf_free custom p ?s = Some (c, t)" "pdata t = pdata ?s"
        "pmem t (V\<lparr>pool_free := rev cs @ pool_free V, pool_held := filter (\<lambda>b. b \<notin> set cs) (pool_held V)\<rparr>)"
      using partial_fail by blast
    then obtain c t where t: "pbuf_free custom p ?s = Some (c, t)" "pdata t = pdata s"
        "pmem t (V\<lparr>pool_free := rev cs, pool_held := filter (\<lambda>b. b \<notin> set cs) (pool_held V)\<rparr>)"
      using Nil.prems(3) by (auto simp: pbuf_pool_is_empty_def)
    have "pool_tail custom p (last cs) (int rem) s = Some (0, t)"
      using False m(1) t(1) by (subst pool_tail.simps) simp
    then show ?thesis using False t bufs_for_Suc[of rem] by simp
  qed
next
  case (Cons a fl)
  show ?case
  proof (cases "rem = 0")
    case True
    have eq: "V\<lparr>pool_free := a # fl\<rparr> = V" using Cons.prems(3) by (cases V) simp
    show ?thesis using Cons.prems(1,2) True by (simp add: pool_tail.simps tail_bufs_def) (simp only: eq)
  next
    case False
    define k where "k = min rem PBUF_POOL_BUFSIZE_ALIGNED"
    define W where "W = V\<lparr>pool_free := fl, pool_held := a # pool_held V\<rparr>"
    obtain m where m: "memp_malloc MEMP_PBUF_POOL (ppools s) = Some (a, m)" "a \<noteq> 0" "a mod 4 = 0" "a \<notin> set fl"
        "a \<notin> set (pool_held V)" "pmem (s\<lparr>ppools := m\<rparr>) W"
      unfolding W_def by (rule take_pool[OF Cons.prems(1,3)])
    define s1 where "s1 = s\<lparr>ppools := m, pbufs := (pbufs s)(
       a := (pbufs s a)\<lparr>pb_type := PBUF_POOL, pb_flags := 0, pb_next := 0, pb_tot_len := of_nat rem, pb_len := of_nat k,
              pb_payload := a + SIZEOF_STRUCT_PBUF, pb_ref := 1\<rparr>,
       last cs := (pbufs s (last cs))\<lparr>pb_next := a\<rparr>)\<rparr>"
    have cs: "cs \<noteq> []" "p \<in> set cs" "set cs \<subseteq> set (pool_held V)"
        "pb_payload (pbufs s p) + blen (pbufs s) p \<le> p + SIZEOF_STRUCT_PBUF + PBUF_POOL_BUFSIZE_ALIGNED"
      using Cons.prems(2) by (auto simp: partial_def)
    have an: "a \<noteq> last cs" "a \<noteq> p" using last_in_set[OF cs(1)] cs(2,3) m(5) by blast+
    have st: "pool_tail custom p (last cs) (int rem) s = pool_tail custom p (last (cs @ [a])) (int (rem - k)) s1"
      using pool_tail_step[OF _ Cons.prems(4) m(1-3) an cs(4) k_def s1_def, of custom] False by simp
    have B1: "pbufs s1 = (pbufs s)(a := (pbufs s a)\<lparr>pb_type := PBUF_POOL, pb_flags := 0, pb_next := 0, pb_tot_len := of_nat rem, pb_len := of_nat k,
              pb_payload := a + SIZEOF_STRUCT_PBUF, pb_ref := 1\<rparr>, last cs := (pbufs s (last cs))\<lparr>pb_next := a\<rparr>)"
      by (simp add: s1_def)
    note sn = partial_snoc[OF Cons.prems(2) m(5,2) Cons.prems(4) k_def B1]
    have c1: "partial (pbufs s1) p (cs @ [a]) (rem - k) W" unfolding W_def by (rule sn(1))
    have p1: "pmem s1 W" using m(6) by (simp add: s1_def)
    have fr: "pool_free W = fl" "pool_held W = a # pool_held V" by (simp_all add: W_def)
    have b: "bufs_for rem = Suc (bufs_for (rem - k))" using bufs_for_Suc[of rem] False by (simp add: k_def)
    have k: "0 < k" "k \<le> 1056" using False by (simp_all add: k_def)
    have rm: "rem - k < 0xffff" using Cons.prems(4) by simp
    note IH = Cons.IH[OF p1 c1 fr(1) rm]
    show ?thesis
    proof (cases "bufs_for (rem - k) \<le> length fl")
      case True
      let ?tk = "take (bufs_for (rem - k)) fl"
      let ?V = "V\<lparr>pool_free := drop (bufs_for rem) (a # fl), pool_held := rev (take (bufs_for rem) (a # fl)) @ pool_held V\<rparr>"
      have V: "W\<lparr>pool_free := drop (bufs_for (rem - k)) fl, pool_held := rev ?tk @ pool_held W\<rparr> = ?V"
        by (simp add: W_def b)
      from IH[unfolded if_P[OF True] V] obtain t where t: "pool_tail custom p (last (cs @ [a])) (int (rem - k)) s1 = Some (p, t)"
          "pdata t = pdata s1" "partial (pbufs t) p ((cs @ [a]) @ ?tk) 0 ?V" "pmem t ?V"
          "\<forall>x\<in>set (cs @ [a]). pb_len (pbufs t x) = pb_len (pbufs s1 x) \<and> pb_payload (pbufs t x) = pb_payload (pbufs s1 x) \<and> pb_tot_len (pbufs t x) = pb_tot_len (pbufs s1 x)"
          "tail_bufs (pbufs t) ?tk" "\<forall>x. x \<notin> set ((cs @ [a]) @ ?tk) \<longrightarrow> pbufs t x = pbufs s1 x"
        by blast
      have "tail_bufs (pbufs t) (take (bufs_for rem) (a # fl))"
        using t(5,6) sn(4,5) k by (simp add: tail_bufs_def b)
      moreover have "\<forall>x\<in>set cs. pb_len (pbufs t x) = pb_len (pbufs s x) \<and> pb_payload (pbufs t x) = pb_payload (pbufs s x) \<and> pb_tot_len (pbufs t x) = pb_tot_len (pbufs s x)"
        using t(5) sn(2) by simp
      moreover have "\<forall>x. x \<notin> set (cs @ take (bufs_for rem) (a # fl)) \<longrightarrow> pbufs t x = pbufs s x"
        using t(7) sn(3) by (simp add: b)
      moreover have "partial (pbufs t) p (cs @ take (bufs_for rem) (a # fl)) 0 ?V" using t(3) by (simp add: b)
      moreover have "pdata t = pdata s" using t(2) by (simp add: s1_def)
      ultimately show ?thesis using True t(1,4) unfolding st by (simp add: b)
    next
      case nf: False
      have V: "W\<lparr>pool_free := rev ((cs @ [a]) @ fl), pool_held := filter (\<lambda>b. b \<notin> set ((cs @ [a]) @ fl)) (pool_held W)\<rparr> =
          V\<lparr>pool_free := rev (cs @ a # fl), pool_held := filter (\<lambda>b. b \<notin> set (cs @ a # fl)) (pool_held V)\<rparr>"
        by (simp add: W_def)
      from IH[unfolded if_not_P[OF nf] V] show ?thesis using nf unfolding st by (auto simp: b s1_def)
    qed
  qed
qed

text \<open>What the first buffer of a pool chain can hold below its headers.\<close>

definition head_room :: "pbuf_layer \<Rightarrow> nat" where
  "head_room layer = PBUF_POOL_BUFSIZE_ALIGNED - LWIP_MEM_ALIGN_SIZE (layer_offset layer)"

lemma layer_align:
  "LWIP_MEM_ALIGN_SIZE (layer_offset layer) \<in> {0, 16, 36, 56}" "layer_offset layer \<le> LWIP_MEM_ALIGN_SIZE (layer_offset layer)"
  "LWIP_MEM_ALIGN_SIZE (layer_offset layer) \<le> layer_offset layer + 3"
  by (cases layer; simp add: PBUF_LINK_HLEN_def PBUF_IP_HLEN_def PBUF_TRANSPORT_HLEN_def LWIP_MEM_ALIGN_SIZE_def add32_def Let_def)+

lemma align_head:
  assumes "p mod 4 = 0" "p + 128 \<le> 2 ^ 32"
  shows "LWIP_MEM_ALIGN (p + (SIZEOF_STRUCT_PBUF + layer_offset layer)) = p + SIZEOF_STRUCT_PBUF + LWIP_MEM_ALIGN_SIZE (layer_offset layer)"
proof -
  let ?o = "layer_offset layer" and ?A = "LWIP_MEM_ALIGN_SIZE (layer_offset layer)"
  have "p + (16 + ?o) + 4 \<le> 2 ^ 32" using assms(2) layer_align[of layer] by auto
  note b = LWIP_MEM_ALIGN_bounds[OF this]
  have "?A mod 4 = 0" using layer_align(1)[of layer] by auto
  then have "(p + 16 + ?A) mod 4 = 0" using assms(1) by presburger
  then show ?thesis using b layer_align(2,3)[of layer] unfolding pbuf_sizes by presburger
qed

lemma pool_head:
  assumes v: "pmem s V" and f: "pool_free V = a # fl" and fl: "pb_flags (pbufs s a) AND PBUF_FLAG_IS_CUSTOM = 0"
  shows "\<exists>s1 rem. rem = unat plen - head_room layer \<and> rem < 0xffff \<and>
    pbuf_alloc custom layer plen PBUF_POOL s = map_option (\<lambda>(p, s). (p, if p = 0 then s else upd_pbuf p (\<lambda>b. b\<lparr>pb_ref := 1, pb_flags := 0\<rparr>) s))
      (pool_tail custom a a (int rem) s1) \<and>
    pmem s1 (V\<lparr>pool_free := fl, pool_held := a # pool_held V\<rparr>) \<and> pdata s1 = pdata s \<and>
    partial (pbufs s1) a [a] rem (V\<lparr>pool_free := fl, pool_held := a # pool_held V\<rparr>) \<and> pb_tot_len (pbufs s1 a) = plen \<and>
    pb_payload (pbufs s1 a) \<ge> a + SIZEOF_STRUCT_PBUF + layer_offset layer \<and>
    pb_payload (pbufs s1 a) + blen (pbufs s1) a \<le> a + POOL_SIZE \<and> (\<forall>x. x \<noteq> a \<longrightarrow> pbufs s1 x = pbufs s x)"
proof -
  obtain m where m: "memp_malloc MEMP_PBUF_POOL (ppools s) = Some (a, m)" "a \<noteq> 0" "a mod 4 = 0" "a \<notin> set fl"
      "a \<notin> set (pool_held V)" "a + POOL_SIZE \<le> 2 ^ 32" "pmem (s\<lparr>ppools := m\<rparr>) (V\<lparr>pool_free := fl, pool_held := a # pool_held V\<rparr>)"
    by (rule take_pool[OF v f])
  define A where "A = LWIP_MEM_ALIGN_SIZE (layer_offset layer)"
  define payload where "payload = a + SIZEOF_STRUCT_PBUF + A"
  have A: "A \<le> 56" "A mod 4 = 0" "layer_offset layer \<le> A" using layer_align[of layer] by (auto simp: A_def)
  have al: "LWIP_MEM_ALIGN (a + (SIZEOF_STRUCT_PBUF + layer_offset layer)) = payload"
    unfolding payload_def A_def by (rule align_head) (use m(3,6) in simp_all)
  have pm: "payload mod 4 = 0" using m(3) A(2) unfolding payload_def pbuf_sizes by presburger
  define len where "len = min (unat plen) (1056 - A)"
  define s1 where "s1 = upd_pbuf a (\<lambda>b. b\<lparr>pb_type := PBUF_POOL, pb_next := 0, pb_payload := payload,
     pb_tot_len := plen, pb_len := of_nat len, pb_ref := 1\<rparr>) (s\<lparr>ppools := m\<rparr>)"
  define rem where "rem = unat plen - head_room layer"
  have ln: "len < 65536" "payload + len \<le> a + POOL_SIZE" using A(1) by (auto simp: len_def payload_def)
  have r: "int (unat plen) - int len = int rem" "unat plen = len + rem" by (auto simp: len_def rem_def head_room_def A_def min_def)
  have rb: "rem < 0xffff" using unat_bounds(2)[of plen] A(1) by (simp add: rem_def head_room_def A_def[symmetric])
  have "pbuf_alloc custom layer plen PBUF_POOL s = map_option (\<lambda>(p, s). (p, if p = 0 then s else upd_pbuf p (\<lambda>b. b\<lparr>pb_ref := 1, pb_flags := 0\<rparr>) s))
      (pool_tail custom a a (int rem) s1)"
    using m(1,2) pm ln A(1)
    by (simp add: pbuf_alloc_def Let_def al[unfolded pbuf_sizes] A_def[symmetric] len_def[symmetric] s1_def[symmetric] r(1)[symmetric] LWIP_ASSERT_def)
  moreover have "pmem s1 (V\<lparr>pool_free := fl, pool_held := a # pool_held V\<rparr>)" using m(7) by (simp add: s1_def)
  moreover have B: "pb_payload (pbufs s1 a) = payload" "blen (pbufs s1) a = len" "pb_next (pbufs s1 a) = 0" "pb_tot_len (pbufs s1 a) = plen"
      "pb_flags (pbufs s1 a) = pb_flags (pbufs s a)" "pb_ref (pbufs s1 a) = 1" "pb_type (pbufs s1 a) = PBUF_POOL"
    using ln(1) by (simp_all add: s1_def upd_pbuf_def unat_of_nat)
  moreover have "partial (pbufs s1) a [a] rem (V\<lparr>pool_free := fl, pool_held := a # pool_held V\<rparr>)"
    using B fl m(2) ln(2) r(2) by (simp add: partial_def fresh_def)
  moreover have "pdata s1 = pdata s" "\<forall>x. x \<noteq> a \<longrightarrow> pbufs s1 x = pbufs s x" by (simp_all add: s1_def upd_pbuf_def)
  moreover have "payload \<ge> a + SIZEOF_STRUCT_PBUF + layer_offset layer" using A(3) by (simp add: payload_def)
  ultimately show ?thesis using rb ln(2) rem_def by (intro exI[of _ s1] exI[of _ rem]) simp
qed

definition pool_bufs :: "pbuf_layer \<Rightarrow> nat \<Rightarrow> nat" where
  "pool_bufs layer n = Suc (bufs_for (n - head_room layer))"

lemma partial_packet: "partial B p cs 0 V \<Longrightarrow> packet B p cs"
  by (simp add: partial_def packet_def ptotals_0)

lemma pbuf_alloc_pool_value:
  assumes v: "pmem s V" and clean: "\<forall>a\<in>set (pool_free V). pb_flags (pbufs s a) AND PBUF_FLAG_IS_CUSTOM = 0"
    and n: "n = pool_bufs layer (unat plen)"
  shows "if n \<le> length (pool_free V)
    then \<exists>t. pbuf_alloc custom layer plen PBUF_POOL s = Some (hd (pool_free V), t) \<and> pdata t = pdata s \<and>
      packet (pbufs t) (hd (pool_free V)) (take n (pool_free V)) \<and> lens (pbufs t) (take n (pool_free V)) = unat plen \<and>
      (\<forall>a\<in>set (take n (pool_free V)). pb_ref (pbufs t a) = 1 \<and> a + SIZEOF_STRUCT_PBUF \<le> pb_payload (pbufs t a) \<and>
         pb_payload (pbufs t a) + blen (pbufs t) a \<le> a + POOL_SIZE) \<and>
      (\<forall>a. a \<notin> set (take n (pool_free V)) \<longrightarrow> pbufs t a = pbufs s a) \<and>
      pmem t (V\<lparr>pool_free := drop n (pool_free V), pool_held := rev (take n (pool_free V)) @ pool_held V\<rparr>)
    else \<exists>t. pbuf_alloc custom layer plen PBUF_POOL s = Some (0, t) \<and> pdata t = pdata s \<and>
      pmem t (V\<lparr>pool_free := rev (pool_free V)\<rparr>)"
proof (cases "pool_free V")
  case Nil
  obtain m where m: "memp_malloc MEMP_PBUF_POOL (ppools s) = Some (0, m)" "pmem (s\<lparr>ppools := m\<rparr>) V"
    using empty_pool[OF v Nil] by blast
  have "pmem (pbuf_pool_is_empty (s\<lparr>ppools := m\<rparr>)) V" using m(2) by simp
  moreover have eq: "V\<lparr>pool_free := []\<rparr> = V" using Nil by (cases V) simp
  ultimately have "pmem (pbuf_pool_is_empty (s\<lparr>ppools := m\<rparr>)) (V\<lparr>pool_free := []\<rparr>)" by (simp only:)
  moreover have "pbuf_alloc custom layer plen PBUF_POOL s = Some (0, pbuf_pool_is_empty (s\<lparr>ppools := m\<rparr>))"
    using m(1) by (simp add: pbuf_alloc_def)
  ultimately show ?thesis using Nil by (simp add: n pool_bufs_def) (simp add: pbuf_pool_is_empty_def)
next
  case (Cons a fl)
  define W where "W = V\<lparr>pool_free := fl, pool_held := a # pool_held V\<rparr>"
  have W: "pool_free W = fl" "pool_held W = a # pool_held V" by (simp_all add: W_def)
  obtain s1 rem where h: "rem = unat plen - head_room layer" "rem < 0xffff"
      "pbuf_alloc custom layer plen PBUF_POOL s = map_option (\<lambda>(p, s). (p, if p = 0 then s else upd_pbuf p (\<lambda>b. b\<lparr>pb_ref := 1, pb_flags := 0\<rparr>) s))
        (pool_tail custom a (last [a]) (int rem) s1)" "pmem s1 W" "pdata s1 = pdata s" "partial (pbufs s1) a [a] rem W"
      "pb_tot_len (pbufs s1 a) = plen" "pb_payload (pbufs s1 a) \<ge> a + SIZEOF_STRUCT_PBUF + layer_offset layer"
      "pb_payload (pbufs s1 a) + blen (pbufs s1) a \<le> a + POOL_SIZE" "\<forall>x. x \<noteq> a \<longrightarrow> pbufs s1 x = pbufs s x"
    using pool_head[OF v Cons, of plen layer custom] clean Cons unfolding W_def last.simps by (simp add: last.simps) blast
  have n': "n = Suc (bufs_for rem)" by (simp add: n pool_bufs_def h(1))
  note tl = pool_tail_value[OF h(4,6) W(1) h(2), of custom]
  show ?thesis
  proof (cases "bufs_for rem \<le> length fl")
    case True
    let ?tk = "take (bufs_for rem) fl"
    define U where "U = V\<lparr>pool_free := drop n (pool_free V), pool_held := rev (take n (pool_free V)) @ pool_held V\<rparr>"
    have U: "W\<lparr>pool_free := drop (bufs_for rem) fl, pool_held := rev ?tk @ pool_held W\<rparr> = U"
      by (simp add: W_def U_def n' Cons)
    from tl[unfolded if_P[OF True] U] obtain t where t: "pool_tail custom a (last [a]) (int rem) s1 = Some (a, t)" "pdata t = pdata s1"
        "partial (pbufs t) a ([a] @ ?tk) 0 U" "pmem t U"
        "\<forall>x\<in>set [a]. pb_len (pbufs t x) = pb_len (pbufs s1 x) \<and> pb_payload (pbufs t x) = pb_payload (pbufs s1 x) \<and> pb_tot_len (pbufs t x) = pb_tot_len (pbufs s1 x)"
        "tail_bufs (pbufs t) ?tk" "\<forall>x. x \<notin> set ([a] @ ?tk) \<longrightarrow> pbufs t x = pbufs s1 x"
      by blast
    define u where "u = upd_pbuf a (\<lambda>b. b\<lparr>pb_ref := 1, pb_flags := 0\<rparr>) t"
    have u: "pb_next (pbufs u x) = pb_next (pbufs t x)" "pb_len (pbufs u x) = pb_len (pbufs t x)" "pb_payload (pbufs u x) = pb_payload (pbufs t x)"
        "pb_tot_len (pbufs u x) = pb_tot_len (pbufs t x)" "x \<noteq> a \<Longrightarrow> pbufs u x = pbufs t x" "pb_ref (pbufs u a) = 1" for x
      by (simp_all add: u_def upd_pbuf_def)
    have tk: "take n (pool_free V) = a # ?tk" by (simp add: n' Cons)
    have pk: "packet (pbufs t) a (a # ?tk)" using partial_packet[OF t(3)] by simp
    then have "packet (pbufs u) a (a # ?tk)" by (rule packet_cong) (simp add: u)
    moreover have "lens (pbufs u) (a # ?tk) = unat plen"
    proof -
      have "pb_tot_len (pbufs t a) = plen" using t(5) h(7) by simp
      then show ?thesis using pk by (simp add: packet_Cons u)
    qed
    moreover have "a \<noteq> 0" using pk by (simp add: packet_Cons)
    moreover have "\<forall>x\<in>set (a # ?tk). pb_ref (pbufs u x) = 1 \<and> x + SIZEOF_STRUCT_PBUF \<le> pb_payload (pbufs u x) \<and>
         pb_payload (pbufs u x) + blen (pbufs u) x \<le> x + POOL_SIZE"
    proof
      fix x assume x: "x \<in> set (a # ?tk)"
      have "fresh (pbufs t) (a # ?tk)" using t(3) by (simp add: partial_def)
      then have "pb_ref (pbufs u x) = 1" using x u(5,6) by (cases "x = a") (auto simp: fresh_def)
      moreover have "x + SIZEOF_STRUCT_PBUF \<le> pb_payload (pbufs u x) \<and> pb_payload (pbufs u x) + blen (pbufs u) x \<le> x + POOL_SIZE"
        using x t(5,6) h(8,9) by (cases "x = a") (auto simp: u tail_bufs_def)
      ultimately show "pb_ref (pbufs u x) = 1 \<and> x + SIZEOF_STRUCT_PBUF \<le> pb_payload (pbufs u x) \<and>
         pb_payload (pbufs u x) + blen (pbufs u) x \<le> x + POOL_SIZE" by blast
    qed
    moreover have "\<forall>x. x \<notin> set (a # ?tk) \<longrightarrow> pbufs u x = pbufs s x" using t(7) h(10) u(5) by simp
    moreover have "pmem u U" using t(4) by (simp add: u_def)
    moreover have "pdata u = pdata s" using t(2) h(5) by (simp add: u_def upd_pbuf_def)
    moreover have "pbuf_alloc custom layer plen PBUF_POOL s = Some (a, u)" using h(3) t(1) \<open>a \<noteq> 0\<close> by (simp add: u_def)
    ultimately show ?thesis using True unfolding U_def[symmetric] tk by (simp add: n' Cons U_def)
  next
    case False
    define U where "U = V\<lparr>pool_free := rev (pool_free V)\<rparr>"
    have "filter (\<lambda>b. b \<notin> set (a # fl)) (pool_held V) = pool_held V"
    proof (rule filter_True)
      have "distinct ((a # fl) @ pool_held V)" using v Cons spacedD(1) unfolding pmem_def by metis
      then show "\<forall>b\<in>set (pool_held V). b \<notin> set (a # fl)" by auto
    qed
    then have U: "W\<lparr>pool_free := rev ([a] @ fl), pool_held := filter (\<lambda>b. b \<notin> set ([a] @ fl)) (pool_held W)\<rparr> = U"
      using Cons by (cases V) (simp add: W_def U_def)
    from tl[unfolded if_not_P[OF False] U] obtain t where "pool_tail custom a (last [a]) (int rem) s1 = Some (0, t)"
        "pdata t = pdata s1" "pmem t U" by blast
    then show ?thesis using False h(3,5) unfolding U_def[symmetric] by (simp add: n' Cons)
  qed
qed

subsection \<open>pbuf\_alloc from the heap\<close>

lemma mem_malloc_aligned: "mem_malloc n s = Some (r, t) \<Longrightarrow> r mod 4 = 0"
  by (auto simp: mem_malloc_def Let_def LWIP_ASSERT_def split: if_splits option.splits)

lemma mem_live_top: "mem_live s ((p, n) # L) \<Longrightarrow> p + n + 12 \<le> 2 ^ 32 \<and> p \<noteq> 0"
proof -
  assume "mem_live s ((p, n) # L)"
  then obtain bl a k where b: "heap_ok s bl" "area (ram s) bl a k" "p = a + 12" "n + 12 \<le> k" by (auto simp: mem_live_def)
  have "a + k \<le> ram s + total bl" using area_range[OF b(2)] by simp
  moreover have "ram s + total bl + 12 \<le> 2 ^ 32" using b(1) by (simp add: heap_ok_def shape_def layout_def)
  ultimately show ?thesis using b(3,4) by linarith
qed

definition ram_block :: "pbuf_layer \<Rightarrow> u16_t \<Rightarrow> nat" where
  "ram_block layer plen = LWIP_MEM_ALIGN_SIZE (SIZEOF_STRUCT_PBUF + layer_offset layer) + LWIP_MEM_ALIGN_SIZE (unat plen)"

lemma align_size: "n + 4 \<le> 2 ^ 32 \<Longrightarrow> n \<le> LWIP_MEM_ALIGN_SIZE n \<and> LWIP_MEM_ALIGN_SIZE n \<le> n + 3 \<and> LWIP_MEM_ALIGN_SIZE n mod 4 = 0"
  using LWIP_MEM_ALIGN_bounds[of n] by (simp add: LWIP_MEM_ALIGN_def LWIP_MEM_ALIGN_SIZE_def)

lemma ram_block_parts:
  "layer_offset layer \<le> 54"
  "16 + layer_offset layer \<le> LWIP_MEM_ALIGN_SIZE (16 + layer_offset layer) \<and> LWIP_MEM_ALIGN_SIZE (16 + layer_offset layer) \<le> 16 + layer_offset layer + 3 \<and>
     LWIP_MEM_ALIGN_SIZE (16 + layer_offset layer) mod 4 = 0"
  "unat plen \<le> LWIP_MEM_ALIGN_SIZE (unat (plen :: u16_t)) \<and> LWIP_MEM_ALIGN_SIZE (unat plen) \<le> unat plen + 3"
  "ram_block layer plen \<le> 0xfffffffc"
proof -
  show l: "layer_offset layer \<le> 54"
    by (cases layer) (simp_all add: PBUF_LINK_HLEN_def PBUF_IP_HLEN_def PBUF_TRANSPORT_HLEN_def)
  show a: "16 + layer_offset layer \<le> LWIP_MEM_ALIGN_SIZE (16 + layer_offset layer) \<and> LWIP_MEM_ALIGN_SIZE (16 + layer_offset layer) \<le> 16 + layer_offset layer + 3 \<and>
     LWIP_MEM_ALIGN_SIZE (16 + layer_offset layer) mod 4 = 0"
    by (rule align_size) (use l in simp)
  show b: "unat plen \<le> LWIP_MEM_ALIGN_SIZE (unat plen) \<and> LWIP_MEM_ALIGN_SIZE (unat plen) \<le> unat plen + 3"
    using align_size[of "unat plen"] unat_bounds(2)[of plen] by simp
  show "ram_block layer plen \<le> 0xfffffffc"
    using a b l unat_bounds(2)[of plen] by (simp add: ram_block_def)
qed

lemma ram_block_payload:
  assumes "p mod 4 = 0" "p + ram_block layer plen + 12 \<le> 2 ^ 32"
  shows "LWIP_MEM_ALIGN (p + SIZEOF_STRUCT_PBUF + layer_offset layer) = p + LWIP_MEM_ALIGN_SIZE (SIZEOF_STRUCT_PBUF + layer_offset layer)"
proof -
  have "p + 16 + layer_offset layer + 4 \<le> 2 ^ 32"
    using assms(2) ram_block_parts(2)[of layer] by (simp add: ram_block_def)
  from LWIP_MEM_ALIGN_bounds[OF this] ram_block_parts(2)[of layer] assms(1) show ?thesis unfolding pbuf_sizes by presburger
qed

lemma pbuf_alloc_ram_value:
  assumes v: "pmem s V"
  shows "\<exists>p t. pbuf_alloc custom layer plen PBUF_RAM s = Some (p, t) \<and> pdata t = pdata s \<and>
    (if p = 0 then pbufs t = pbufs s \<and> pmem t V
     else packet (pbufs t) p [p] \<and> pb_len (pbufs t p) = plen \<and> pb_ref (pbufs t p) = 1 \<and> pb_flags (pbufs t p) = 0 \<and> pb_type (pbufs t p) = PBUF_RAM \<and>
       p + SIZEOF_STRUCT_PBUF + layer_offset layer \<le> pb_payload (pbufs t p) \<and>
       pb_payload (pbufs t p) + unat plen \<le> p + ram_block layer plen \<and>
       (\<forall>x. x \<noteq> p \<longrightarrow> pbufs t x = pbufs s x) \<and> pmem t (V\<lparr>heap_held := (p, ram_block layer plen) # heap_held V\<rparr>))"
proof -
  let ?n = "ram_block layer plen"
  obtain r h where h: "mem_request ?n (pheap s) = Some (r, h)" "mem_live h (if r = 0 then heap_held V else (r, ?n) # heap_held V)"
    using mem_live_alloc[of "pheap s" "heap_held V" ?n] v unfolding pmem_def by blast
  have m: "mem_malloc ?n (pheap s) = Some (r, h)" using h(1) ram_block_parts(4)[of layer plen] by (simp add: mem_request_def)
  show ?thesis
  proof (cases "r = 0")
    case True
    then have "pmem (s\<lparr>pheap := h\<rparr>) V" using v h(2) by (simp add: pmem_def)
    then show ?thesis using True m by (simp add: pbuf_alloc_def ram_block_def)
  next
    case False
    have top: "r + ?n + 12 \<le> 2 ^ 32" using mem_live_top[of h r ?n] h(2) False by simp
    define payload where "payload = LWIP_MEM_ALIGN (r + SIZEOF_STRUCT_PBUF + layer_offset layer)"
    have p: "payload = r + LWIP_MEM_ALIGN_SIZE (SIZEOF_STRUCT_PBUF + layer_offset layer)"
      unfolding payload_def by (rule ram_block_payload[OF mem_malloc_aligned[OF m] top])
    have "payload mod 4 = 0" using mem_malloc_aligned[OF m] ram_block_parts(2)[of layer] unfolding p pbuf_sizes by presburger
    moreover have "r + SIZEOF_STRUCT_PBUF + layer_offset layer \<le> payload" "payload + unat plen \<le> r + ?n"
      unfolding p using ram_block_parts(2)[of layer] ram_block_parts(3)[of plen] by (simp_all add: ram_block_def)
    ultimately have pm: "payload mod 4 = 0" "r + SIZEOF_STRUCT_PBUF + layer_offset layer \<le> payload" "payload + unat plen \<le> r + ?n"
      by blast+
    define t where "t = upd_pbuf r (\<lambda>b. b\<lparr>pb_ref := 1, pb_flags := 0\<rparr>) (upd_pbuf r (\<lambda>b. b\<lparr>pb_payload := payload, pb_tot_len := plen, pb_len := plen,
        pb_next := 0, pb_type := PBUF_RAM\<rparr>) (s\<lparr>pheap := h\<rparr>))"
    have "pbuf_alloc custom layer plen PBUF_RAM s = Some (r, t)"
      using False m pm(1) by (simp add: pbuf_alloc_def ram_block_def Let_def payload_def[symmetric, unfolded pbuf_sizes] LWIP_ASSERT_def t_def)
    moreover have "pmem t (V\<lparr>heap_held := (r, ?n) # heap_held V\<rparr>)" using v h(2) False by (simp add: t_def pmem_def upd_pbuf_def)
    moreover have "packet (pbufs t) r [r]" "pb_len (pbufs t r) = plen" "pb_ref (pbufs t r) = 1" "pb_flags (pbufs t r) = 0"
        "pb_type (pbufs t r) = PBUF_RAM" "pb_payload (pbufs t r) = payload" "\<forall>x. x \<noteq> r \<longrightarrow> pbufs t x = pbufs s x" "pdata t = pdata s"
      using False by (simp_all add: t_def upd_pbuf_def packet_Cons)
    ultimately show ?thesis using False pm(2,3) by (intro exI[of _ r] exI[of _ t]) simp
  qed
qed

subsection \<open>pbuf\_dechain\<close>

lemma pbuf_dechain_value:
  assumes "packet (pbufs s) p (p # as)" "pmem s V" "owned (pbufs s) (last_refs (pbufs s) as) V" "\<forall>a\<in>set as. pb_ref (pbufs s a) \<noteq> 0"
    "length as < 256"
  shows "\<exists>t. pbuf_dechain custom p s = Some (if as = [] \<or> last_refs (pbufs s) as \<noteq> [] then 0 else hd as, t) \<and>
    pdata t = pdata s \<and> packet (pbufs t) p [p] \<and> pmem t (gives (pbufs s) (last_refs (pbufs s) as) V) \<and>
    (last_refs (pbufs s) as = [] \<longrightarrow> packet (pbufs t) (pb_next (pbufs s p)) as) \<and>
    (\<forall>a\<in>set as. pb_len (pbufs t a) = pb_len (pbufs s a) \<and> pb_payload (pbufs t a) = pb_payload (pbufs s a))"
proof (cases as)
  case Nil
  then have "pb_next (pbufs s p) = 0" "pb_tot_len (pbufs s p) = pb_len (pbufs s p)"
    using assms(1) by (simp_all add: packet_Cons word_unat_eq_iff)
  then show ?thesis using Nil assms(1,2) by (simp add: pbuf_dechain_def LWIP_ASSERT_def last_refs_def)
next
  case (Cons q bs)
  let ?B = "pbufs s"
  have k: "p \<noteq> 0" "p \<notin> set as" "pb_next (?B p) = q" "q \<noteq> 0" "packet ?B q as" "unat (pb_tot_len (?B p)) = blen ?B p + lens ?B as"
      "unat (pb_tot_len (?B q)) = lens ?B as"
    using assms(1) Cons by (auto simp: packet_Cons)
  have d: "pb_tot_len (?B p) - pb_len (?B p) = pb_tot_len (?B q)" using k(6,7) by (simp add: word_unat_eq_iff u16_simps)
  define s1 where "s1 = s\<lparr>pbufs := ?B(p := (?B p)\<lparr>pb_next := 0, pb_tot_len := pb_len (?B p)\<rparr>)\<rparr>"
  have B1: "x \<in> set as \<Longrightarrow> pbufs s1 x = ?B x" for x using k(2) by (auto simp: s1_def)
  have lr: "last_refs (pbufs s1) as = last_refs ?B as" unfolding last_refs_def by (rule takeWhile_cong) (simp_all add: B1)
  have sub: "set (last_refs ?B as) \<subseteq> set as" unfolding last_refs_def by (auto dest: set_takeWhileD)
  have "packet (pbufs s1) q as" using packet_cong[OF k(5)] B1 by simp
  moreover have "owned (pbufs s1) (last_refs (pbufs s1) as) V" using assms(3) sub B1 unfolding lr owned_def by auto
  moreover have "pmem s1 V" "\<forall>a\<in>set as. pb_ref (pbufs s1 a) \<noteq> 0" using assms(2,4) B1 by (simp_all add: s1_def)
  ultimately obtain t where t: "pbuf_free custom q s1 = Some (of_nat (length (last_refs ?B as)), t)" "pbufs t = free_store as (pbufs s1)"
      "pdata t = pdata s1" "pmem t (gives (pbufs s1) (last_refs ?B as) V)"
    using pbuf_free_value[of s1 q as V custom] k(4) unfolding lr by blast
  have gv: "gives (pbufs s1) (last_refs ?B as) V = gives ?B (last_refs ?B as) V"
    unfolding gives_def by (rule fold_cong) (use sub B1 in auto)
  have fs: "pb_len (free_store as C x) = pb_len (C x)" "pb_payload (free_store as C x) = pb_payload (C x)"
    "pb_tot_len (free_store as C x) = pb_tot_len (C x)" "pb_next (free_store as C x) = pb_next (C x)" for C x
    by (simp_all add: free_store_def)
  have ln: "length (last_refs ?B as) < 256" using assms(5) length_takeWhile_le[of _ as] unfolding last_refs_def by (metis le_less_trans)
  have gone: "(of_nat (length (last_refs ?B as)) :: u8_t) > 0 \<longleftrightarrow> last_refs ?B as \<noteq> []"
    using ln by (simp add: word_less_nat_alt unat_of_nat)
  have "pb_len (pbufs t p) = pb_len (?B p)" "pb_tot_len (pbufs t p) = pb_len (?B p)" "pb_next (pbufs t p) = 0"
    unfolding t(2) fs by (simp_all add: s1_def)
  note tp = this
  have "pbuf_dechain custom p s = Some (if last_refs ?B as \<noteq> [] then 0 else q, t)"
  proof -
    have "(?B q)\<lparr>pb_tot_len := pb_tot_len (?B q)\<rparr> = ?B q" by simp
    then have "upd_pbuf p (\<lambda>b. b\<lparr>pb_next := 0, pb_tot_len := pb_len b\<rparr>)
        (upd_pbuf q (\<lambda>b. b\<lparr>pb_tot_len := pb_tot_len (?B p) - pb_len (?B p)\<rparr>) s) = s1"
      using k(2) Cons unfolding d by (auto simp: upd_pbuf_def s1_def)
    moreover have "int (unat (pb_tot_len (?B q))) = int (unat (pb_tot_len (?B p))) - int (blen ?B p)" using k(6,7) by linarith
    ultimately show ?thesis using k(3,4) t(1) tp gone by (simp add: pbuf_dechain_def LWIP_ASSERT_def Let_def del: of_nat_unat)
  qed
  moreover have "packet (pbufs t) p [p]" using tp k(1) by (simp add: packet_Cons)
  moreover have "packet (pbufs t) q as" by (rule packet_cong[OF k(5)]) (use B1 in \<open>simp add: t(2) fs\<close>)
  moreover have "\<forall>a\<in>set as. pb_len (pbufs t a) = pb_len (?B a) \<and> pb_payload (pbufs t a) = pb_payload (?B a)"
    using B1 by (simp add: t(2) fs)
  ultimately show ?thesis using t(3,4) k(3) Cons unfolding gv by (simp add: s1_def)
qed

subsection \<open>pbuf\_coalesce\<close>

lemma packet_tot: "packet B p as \<Longrightarrow> p \<noteq> 0 \<Longrightarrow> unat (pb_tot_len (B p)) = lens B as"
  by (cases as) (auto simp: packet_Cons)

lemma owned_same: "(\<And>x. x \<in> set as \<Longrightarrow> B' x = B x) \<Longrightarrow> last_refs B' as = last_refs B as \<and> shared_tail B' as = shared_tail B as"
  unfolding last_refs_def shared_tail_def by (auto intro!: takeWhile_cong dropWhile_cong)

lemma last_refs_sub: "x \<in> set (last_refs B as) \<Longrightarrow> x \<in> set as"
  unfolding last_refs_def by (auto dest: set_takeWhileD)

lemma owned_heap_mono: "owned B as V \<Longrightarrow> owned B as (V\<lparr>heap_held := b # heap_held V\<rparr>)"
proof -
  have "held ty a V \<Longrightarrow> held ty a (V\<lparr>heap_held := b # heap_held V\<rparr>)" for ty a by (cases ty) auto
  then show "owned B as V \<Longrightarrow> ?thesis" by (auto simp: owned_def)
qed

text \<open>A chain of heap buffers whose payloads lie in blocks the packet holds.\<close>

definition ram_packet :: "pbuf_state \<Rightarrow> nat \<Rightarrow> nat list \<Rightarrow> pview \<Rightarrow> bool" where
  "ram_packet s p as V \<longleftrightarrow> packet (pbufs s) p as \<and>
     (\<forall>a\<in>set as. pb_type (pbufs s a) = PBUF_RAM \<and> pb_flags (pbufs s a) AND PBUF_FLAG_IS_CUSTOM = 0 \<and> pb_ref (pbufs s a) \<noteq> 0 \<and>
        0 < blen (pbufs s) a \<and> a \<in> fst ` set (heap_held V)) \<and>
     (\<forall>x\<in>set (addrs (pbufs s) as). owns (heap_held V) x)"

lemma block_apart:
  assumes "mem_live h ((q, n) # L)" "owns L x" "q \<le> y" "y < q + n" shows "x \<noteq> y"
proof
  assume "x = y"
  obtain r k where r: "(r, k) \<in> set L" "r \<le> x" "x < r + k" using assms(2) by (auto simp: owns_def)
  have sep: "separate ((q, n) # L)" by (rule mem_live_separate[OF assms(1)])
  then have "q \<noteq> r" using r(1) by (force simp: separate_def)
  then have "q + n \<le> r \<or> r + k \<le> q" using sep r(1) by (fastforce simp: separate_def)
  then show False using r \<open>x = y\<close> assms(3,4) by auto
qed

lemma pbuf_coalesce_value:
  assumes v: "pmem s V" and rp: "ram_packet s p (p # as) V" and as: "as \<noteq> []"
  shows "\<exists>q t. pbuf_coalesce custom p layer s = Some (q, t) \<and>
    (if q = p then pbufs t = pbufs s \<and> pdata t = pdata s \<and> pmem t V
     else packet (pbufs t) q [q] \<and> contents (pbufs t) (pdata t) [q] = contents (pbufs s) (pdata s) (p # as) \<and>
       pmem t (gives (pbufs s) (last_refs (pbufs s) (p # as))
         (V\<lparr>heap_held := (q, ram_block layer (pb_tot_len (pbufs s p))) # heap_held V\<rparr>)))"
proof -
  let ?B = "pbufs s" and ?len = "pb_tot_len (pbufs s p)"
  have p: "packet ?B p (p # as)" "p \<noteq> 0" and nx: "pb_next (?B p) \<noteq> 0"
    using rp as by (auto simp: ram_packet_def packet_Cons) (cases as; simp add: packet_Cons)
  obtain q t where a: "pbuf_alloc custom layer ?len PBUF_RAM s = Some (q, t)" "pdata t = pdata s"
    "if q = 0 then pbufs t = ?B \<and> pmem t V
     else packet (pbufs t) q [q] \<and> pb_len (pbufs t q) = ?len \<and> pb_ref (pbufs t q) = 1 \<and> pb_flags (pbufs t q) = 0 \<and> pb_type (pbufs t q) = PBUF_RAM \<and>
       q + SIZEOF_STRUCT_PBUF + layer_offset layer \<le> pb_payload (pbufs t q) \<and>
       pb_payload (pbufs t q) + unat ?len \<le> q + ram_block layer ?len \<and>
       (\<forall>x. x \<noteq> q \<longrightarrow> pbufs t x = ?B x) \<and> pmem t (V\<lparr>heap_held := (q, ram_block layer ?len) # heap_held V\<rparr>)"
    using pbuf_alloc_ram_value[OF v, of custom layer ?len] by blast
  show ?thesis
  proof (cases "q = 0")
    case True
    then show ?thesis using a nx by (simp add: pbuf_coalesce_def)
  next
    case False
    define W where "W = V\<lparr>heap_held := (q, ram_block layer ?len) # heap_held V\<rparr>"
    have t: "packet (pbufs t) q [q]" "pb_len (pbufs t q) = ?len" "q \<le> pb_payload (pbufs t q)"
        "pb_payload (pbufs t q) + unat ?len \<le> q + ram_block layer ?len" "\<And>x. x \<noteq> q \<Longrightarrow> pbufs t x = ?B x" "pmem t W"
      using a(3) False unfolding W_def by auto
    have live: "mem_live (pheap t) ((q, ram_block layer ?len) # heap_held V)" using t(6) by (simp add: pmem_def W_def)
    have qn: "q \<notin> set (p # as)"
    proof
      assume "q \<in> set (p # as)"
      then have "q \<in> fst ` set (heap_held V)" using rp unfolding ram_packet_def by blast
      then show False using live by (auto simp: mem_live_def)
    qed
    have same: "pbufs t x = ?B x" if "x \<in> set (p # as)" for x by (rule t(5)) (use qn that in auto)
    have pk: "packet (pbufs t) p (p # as)" by (rule packet_cong[OF p(1)]) (simp add: same)
    have ad: "addrs (pbufs t) (p # as) = addrs ?B (p # as)" unfolding addrs_def using same by (auto intro!: arg_cong[of _ _ concat])
    have ln: "lens (pbufs t) (p # as) = unat ?len" using packet_tot[OF pk p(2)] same[of p] by simp
    have "y \<notin> set (addrs (pbufs t) (p # as))" if y: "y \<in> set (addrs (pbufs t) [q])" for y
    proof
      assume z: "y \<in> set (addrs (pbufs t) (p # as))"
      have "q \<le> y" "y < q + ram_block layer ?len" using y t(2-4) by auto
      moreover have "owns (heap_held V) y" using z rp unfolding ad ram_packet_def by blast
      ultimately show False using block_apart[OF live, of y y] by blast
    qed
    then have dis: "set (addrs (pbufs t) [q]) \<inter> set (addrs (pbufs t) (p # as)) = {}" by blast
    have pos: "\<forall>x\<in>set (q # [] @ p # as). 0 < blen (pbufs t) x"
      using rp same ln t(2) unfolding ram_packet_def by (auto simp: word_unat_eq_iff)
    obtain m where m: "pbuf_copy q p t = Some (ERR_OK, t\<lparr>pdata := m\<rparr>)"
        "contents (pbufs t) m [q] = contents (pbufs t) (pdata t) (p # as) @ drop (lens (pbufs t) (p # as)) (contents (pbufs t) (pdata t) [q])"
      using pbuf_copy_value[OF t(1) pk pos _ _ dis] ln t(2) by auto
    define u where "u = t\<lparr>pdata := m\<rparr>"
    have lr: "last_refs (pbufs u) (p # as) = last_refs ?B (p # as)" using owned_same[of "p # as" "pbufs u" ?B] same by (simp add: u_def)
    have "owned (pbufs u) (last_refs (pbufs u) (p # as)) W"
      unfolding lr owned_def
    proof
      fix x assume "x \<in> set (last_refs ?B (p # as))"
      then have x: "x \<in> set (p # as)" by (rule last_refs_sub)
      then have "pb_type (?B x) = PBUF_RAM" "pb_flags (?B x) AND PBUF_FLAG_IS_CUSTOM = 0" "x \<in> fst ` set (heap_held V)"
        using rp unfolding ram_packet_def by blast+
      then show "held (pb_type (pbufs u x)) x W \<and> pb_flags (pbufs u x) AND PBUF_FLAG_IS_CUSTOM = 0"
        using same[OF x] by (simp add: u_def W_def)
    qed
    moreover have "\<forall>a\<in>set (p # as). pb_ref (pbufs u a) \<noteq> 0" using rp same unfolding ram_packet_def by (simp add: u_def)
    moreover have "packet (pbufs u) p (p # as)" "pmem u W" using pk t(6) by (simp_all add: u_def)
    ultimately obtain w where w: "pbuf_free custom p u = Some (of_nat (length (last_refs ?B (p # as))), w)"
        "pbufs w = free_store (p # as) (pbufs u)" "pdata w = pdata u" "pmem w (gives (pbufs u) (last_refs ?B (p # as)) W)"
      using pbuf_free_value[of u p "p # as" W custom] p(2) unfolding lr by blast
    have gv: "gives (pbufs u) (last_refs ?B (p # as)) W = gives ?B (last_refs ?B (p # as)) W"
      unfolding gives_def by (rule fold_cong) (use last_refs_sub[of _ ?B "p # as"] same in \<open>auto simp: u_def\<close>)
    have wq: "pb_len (pbufs w q) = pb_len (pbufs t q)" "pb_payload (pbufs w q) = pb_payload (pbufs t q)"
        "pb_tot_len (pbufs w q) = pb_tot_len (pbufs t q)" "pb_next (pbufs w q) = pb_next (pbufs t q)"
      unfolding w(2) by (simp_all add: free_store_def u_def)
    have "packet (pbufs w) q [q]" using t(1) wq by (simp add: packet_Cons)
    moreover have "contents (pbufs w) (pdata w) [q] = contents ?B (pdata s) (p # as)"
    proof -
      have "contents (pbufs w) (pdata w) [q] = contents (pbufs t) m [q]"
        unfolding w(3) u_def using contents_same_fields[of "[q]" "pbufs w" "pbufs t"] wq by simp
      also have "\<dots> = contents (pbufs t) (pdata t) (p # as)" unfolding m(2) ln using t(2) by simp
      also have "\<dots> = contents ?B (pdata s) (p # as)"
        unfolding a(2) by (rule contents_same_fields) (simp add: same)
      finally show ?thesis .
    qed
    moreover have "pbuf_coalesce custom p layer s = Some (q, w)"
      using nx a(1) False m(1) w(1) by (simp add: pbuf_coalesce_def LWIP_ASSERT_def u_def)
    moreover have "q \<noteq> p" using qn by simp
    ultimately show ?thesis using w(4)[unfolded gv, unfolded W_def] by (intro exI[of _ q] exI[of _ w]) simp
  qed
qed

subsection \<open>Examples\<close>

text \<open>Pools with the three whole buffers at 0x1000, 0x2000 and 0x3000, of which those from \<open>a\<close> on are free.\<close>

definition demo_pools :: "nat \<Rightarrow> memp_state" where
  "demo_pools a = \<lparr>memp_tab = (\<lambda>i. if i = MEMP_PBUF_POOL then a else if i = MEMP_PBUF then 0x100 else 0),
     pbytes = write32 0x1000 0x2000 (write32 0x2000 0x3000 (write32 0x3000 0 (write32 0x100 0 (\<lambda>_. 0)))),
     pstats = (\<lambda>_. \<lparr>st_avail = 0, st_used = 0, st_max = 0, st_err = 0, st_illegal = 0\<rparr>)\<rparr>"

definition demo_view :: "holdings \<Rightarrow> nat list \<Rightarrow> nat list \<Rightarrow> pview" where
  "demo_view hs fr hl = \<lparr>heap_held = hs, pool_free = fr, pool_held = hl, ref_free = [0x100], ref_held = []\<rparr>"

lemma demo_pools_ok:
  "chain (pbytes (demo_pools 0x1000)) (memp_tab (demo_pools 0x1000) MEMP_PBUF_POOL) [0x1000, 0x2000, 0x3000]"
  "chain (pbytes (demo_pools 0x3000)) (memp_tab (demo_pools 0x3000) MEMP_PBUF_POOL) [0x3000]"
  "chain (pbytes (demo_pools a)) (memp_tab (demo_pools a) MEMP_PBUF) [0x100]"
  "spaced 1072 [0x1000, 0x2000, 0x3000]" "spaced 1072 [0x3000, 0x2000, 0x1000]" "spaced 16 [0x100]"
  by (simp_all add: demo_pools_def read32_write32_same read32_write32_other spaced_def)

lemma demo_pmem:
  assumes "mem_live h hs" "ppools s = demo_pools a" "pheap s = h"
    and "(a, fr, hl) = (0x1000, [0x1000, 0x2000, 0x3000], []) \<or> (a, fr, hl) = (0x3000, [0x3000], [0x2000, 0x1000])"
  shows "pmem s (demo_view hs fr hl)"
proof -
  have "chain (pbytes (demo_pools a)) (memp_tab (demo_pools a) MEMP_PBUF_POOL) fr" using demo_pools_ok(1,2) assms(4) by blast
  moreover have "spaced 1072 (fr @ hl)" using demo_pools_ok(4,5) assms(4) by auto
  moreover have st: "set (fr @ hl) = {0x1000, 0x2000, 0x3000}" using assms(4) by auto
  have "\<forall>x\<in>set (fr @ hl). x + 1072 \<le> 2 ^ 32" "\<forall>x\<in>set (fr @ hl). \<forall>b\<in>set [0x100]. x + 1072 \<le> b \<or> b + 16 \<le> x"
    unfolding st by simp_all
  ultimately show ?thesis
    unfolding pmem_def demo_view_def pview.simps assms(2,3) pbuf_sizes POOL_SIZE append_Nil2
    using assms(1) demo_pools_ok(3,6) by blast
qed

lemma demo_heap: "\<exists>h. mem_live h []"
proof -
  obtain h where "heap_ok h [(102400, False)]"
    using mem_init_ok[of "0x30000000" heap_before] by (auto simp: heap_before_def)
  then show ?thesis unfolding mem_live_def by (intro exI[of _ h] exI[of _ "[(102400, False)]"]) simp
qed

subsection \<open>Properties\<close>

text \<open>C39. \<^verbatim>\<open>pbuf_alloc\<close> from the pool is all or nothing. When enough pool buffers are free, it returns a packet
  of exactly the requested length whose buffers are the first ones of the free list, each with one
  reference and its payload inside its element behind the struct, and the free list shrinks by them;
  otherwise it returns NULL and every buffer it had taken is back on the free list. It always returns,
  provided no stale custom flag is left in a free element (the head's flags are set only at the end).\<close>

theorem pbuf_alloc_pool_all_or_nothing:
  assumes "pmem s V" "\<forall>a\<in>set (pool_free V). pb_flags (pbufs s a) AND PBUF_FLAG_IS_CUSTOM = 0"
    and "n = pool_bufs layer (unat plen)"
  shows "if n \<le> length (pool_free V)
    then \<exists>t. pbuf_alloc custom layer plen PBUF_POOL s = Some (hd (pool_free V), t) \<and> pdata t = pdata s \<and>
      packet (pbufs t) (hd (pool_free V)) (take n (pool_free V)) \<and> lens (pbufs t) (take n (pool_free V)) = unat plen \<and>
      (\<forall>a\<in>set (take n (pool_free V)). pb_ref (pbufs t a) = 1 \<and> a + SIZEOF_STRUCT_PBUF \<le> pb_payload (pbufs t a) \<and>
         pb_payload (pbufs t a) + blen (pbufs t) a \<le> a + POOL_SIZE) \<and>
      (\<forall>a. a \<notin> set (take n (pool_free V)) \<longrightarrow> pbufs t a = pbufs s a) \<and>
      pmem t (V\<lparr>pool_free := drop n (pool_free V), pool_held := rev (take n (pool_free V)) @ pool_held V\<rparr>)
    else \<exists>t. pbuf_alloc custom layer plen PBUF_POOL s = Some (0, t) \<and> pdata t = pdata s \<and>
      pmem t (V\<lparr>pool_free := rev (pool_free V)\<rparr>)"
  by (rule pbuf_alloc_pool_value[OF assms])

theorem pbuf_alloc_pool_all_or_nothing_witness:
  "\<exists>s t u. pmem s (demo_view [] [0x1000, 0x2000, 0x3000] []) \<and>
     pbuf_alloc (\<lambda>_. None) PBUF_RAW 2000 PBUF_POOL s = Some (0x1000, t) \<and> packet (pbufs t) 0x1000 [0x1000, 0x2000] \<and>
     pbuf_alloc (\<lambda>_. None) PBUF_RAW 4000 PBUF_POOL s = Some (0, u)"
proof -
  obtain h where "mem_live h []" using demo_heap by blast
  define s where "s = demo\<lparr>ppools := demo_pools 0x1000, pheap := h\<rparr>"
  have p: "pmem s (demo_view [] [0x1000, 0x2000, 0x3000] [])"
    by (rule demo_pmem[OF \<open>mem_live h []\<close>]) (simp_all add: s_def)
  have c: "\<forall>a\<in>set (pool_free (demo_view [] [0x1000, 0x2000, 0x3000] [])). pb_flags (pbufs s a) AND PBUF_FLAG_IS_CUSTOM = 0"
    by (simp add: s_def demo_view_def demo_def)
  have n: "pool_bufs PBUF_RAW (unat (2000 :: u16_t)) = 2" "pool_bufs PBUF_RAW (unat (4000 :: u16_t)) = 4"
    by (simp_all add: pool_bufs_def bufs_for_def head_room_def LWIP_MEM_ALIGN_SIZE_def add32_def)
  have "\<exists>t. pbuf_alloc (\<lambda>_. None) PBUF_RAW 2000 PBUF_POOL s = Some (0x1000, t) \<and> packet (pbufs t) 0x1000 [0x1000, 0x2000]"
    using pbuf_alloc_pool_all_or_nothing[OF p c refl, of PBUF_RAW 2000 "\<lambda>_. None"] unfolding n by (auto simp: demo_view_def)
  moreover have "\<exists>u. pbuf_alloc (\<lambda>_. None) PBUF_RAW 4000 PBUF_POOL s = Some (0, u)"
    using pbuf_alloc_pool_all_or_nothing[OF p c refl, of PBUF_RAW 4000 "\<lambda>_. None"] unfolding n by (auto simp: demo_view_def)
  ultimately show ?thesis using p by blast
qed

text \<open>C40. \<^verbatim>\<open>pbuf_free\<close> drops one reference of a packet: it gives back exactly the buffers before the first one
  that has another reference, each to the allocator it came from, takes one reference from that one and
  leaves the rest of the chain, and returns the number of buffers it gave back (modulo 256). The payload
  bytes do not change.\<close>

theorem pbuf_free_releases:
  assumes "packet (pbufs s) p as" "p \<noteq> 0" "pmem s V" "owned (pbufs s) (last_refs (pbufs s) as) V"
    "\<forall>a\<in>set as. pb_ref (pbufs s a) \<noteq> 0"
  shows "\<exists>t. pbuf_free custom p s = Some (of_nat (length (last_refs (pbufs s) as)), t) \<and> pdata t = pdata s \<and>
    pmem t (gives (pbufs s) (last_refs (pbufs s) as) V) \<and>
    packet (pbufs t) (if shared_tail (pbufs s) as = [] then 0 else hd (shared_tail (pbufs s) as)) (shared_tail (pbufs s) as) \<and>
    (\<forall>a. pb_ref (pbufs t a) = pb_ref (pbufs s a) -
       (if a \<in> set (last_refs (pbufs s) as) \<or> shared_tail (pbufs s) as \<noteq> [] \<and> a = hd (shared_tail (pbufs s) as) then 1 else 0))"
proof -
  obtain t where t: "pbuf_free custom p s = Some (of_nat (length (last_refs (pbufs s) as)), t)" "pbufs t = free_store as (pbufs s)"
      "pdata t = pdata s" "pmem t (gives (pbufs s) (last_refs (pbufs s) as) V)"
    using pbuf_free_value[OF assms] by blast
  have suffix: "packet B q (xs @ ys) \<Longrightarrow> packet B (if ys = [] then 0 else hd ys) ys" for B q xs ys
    by (induction xs arbitrary: q) (cases ys; auto simp: packet_Cons)+
  have "as = last_refs (pbufs s) as @ shared_tail (pbufs s) as" by (simp add: last_refs_def shared_tail_def)
  with assms(1) have "packet (pbufs s) p (last_refs (pbufs s) as @ shared_tail (pbufs s) as)" by simp
  from suffix[OF this] have "packet (pbufs t) (if shared_tail (pbufs s) as = [] then 0 else hd (shared_tail (pbufs s) as)) (shared_tail (pbufs s) as)"
    by (rule packet_cong) (simp add: t(2) free_store_def)
  then show ?thesis using t(1,3,4) by (intro exI[of _ t]) (simp add: t(2) free_store_def)
qed

theorem pbuf_free_releases_witness:
  "\<exists>s t. pmem s (demo_view [] [0x3000] [0x2000, 0x1000]) \<and> packet (pbufs s) 0x1000 [0x1000, 0x2000] \<and>
     pbuf_free (\<lambda>_. None) 0x1000 s = Some (2, t) \<and> pmem t (demo_view [] [0x2000, 0x1000, 0x3000] [])"
proof -
  obtain h where "mem_live h []" using demo_heap by blast
  define s where "s = demo\<lparr>ppools := demo_pools 0x3000, pheap := h, pbufs := (\<lambda>a. \<lparr>pb_next = (if a = 0x1000 then 0x2000 else 0), pb_payload = a + 16,
     pb_tot_len = (if a = 0x1000 then 8 else 4), pb_len = 4, pb_type = PBUF_POOL, pb_flags = 0, pb_ref = 1\<rparr>)\<rparr>"
  have p: "pmem s (demo_view [] [0x3000] [0x2000, 0x1000])"
    by (rule demo_pmem[OF \<open>mem_live h []\<close>]) (simp_all add: s_def)
  have k: "packet (pbufs s) 0x1000 [0x1000, 0x2000]" by (simp add: packet_Cons s_def)
  have l: "last_refs (pbufs s) [0x1000, 0x2000] = [0x1000, 0x2000]" by (simp add: last_refs_def s_def)
  have o: "owned (pbufs s) (last_refs (pbufs s) [0x1000, 0x2000]) (demo_view [] [0x3000] [0x2000, 0x1000])"
    unfolding l by (simp add: owned_def s_def demo_view_def)
  have g: "gives (pbufs s) [0x1000, 0x2000] (demo_view [] [0x3000] [0x2000, 0x1000]) = demo_view [] [0x2000, 0x1000, 0x3000] []"
    by (simp add: s_def demo_view_def)
  have "(0x1000 :: nat) \<noteq> 0" "\<forall>a\<in>set [0x1000, 0x2000]. pb_ref (pbufs s a) \<noteq> 0" by (simp_all add: s_def)
  from pbuf_free_releases[OF k this(1) p o this(2), of "\<lambda>_. None"]
  have "\<exists>t. pbuf_free (\<lambda>_. None) 0x1000 s = Some (2, t) \<and> pmem t (demo_view [] [0x2000, 0x1000, 0x3000] [])"
    unfolding l g by auto
  then show ?thesis using p k by blast
qed

text \<open>\<^verbatim>\<open>pbuf_coalesce\<close> of a chain of heap buffers always returns: the chain itself, when the heap has no
  room, or a new single buffer with the same contents, after giving its reference to the chain back.\<close>

theorem pbuf_coalesce_contents:
  assumes "pmem s V" "ram_packet s p (p # as) V" "as \<noteq> []"
  shows "\<exists>q t. pbuf_coalesce custom p layer s = Some (q, t) \<and>
    (if q = p then pbufs t = pbufs s \<and> pdata t = pdata s \<and> pmem t V
     else packet (pbufs t) q [q] \<and> contents (pbufs t) (pdata t) [q] = contents (pbufs s) (pdata s) (p # as) \<and>
       pmem t (gives (pbufs s) (last_refs (pbufs s) (p # as))
         (V\<lparr>heap_held := (q, ram_block layer (pb_tot_len (pbufs s p))) # heap_held V\<rparr>)))"
  by (rule pbuf_coalesce_value[OF assms])

theorem pbuf_coalesce_contents_witness:
  "\<exists>s p q t. ram_packet s p [p, p + 112] (demo_view [(p, 100), (p + 112, 100)] [0x1000, 0x2000, 0x3000] []) \<and>
     pbuf_coalesce (\<lambda>_. None) p PBUF_RAW s = Some (q, t)"
proof -
  obtain h0 where h0: "heap_ok h0 [(102400, False)]"
    using mem_init_ok[of "0x30000000" heap_before] by (auto simp: heap_before_def)
  have nd: "need 100 = 100" by (simp add: need_def LWIP_MEM_ALIGN_SIZE_def add32_def)
  obtain h1 where h1: "heap_ok h1 [(112, True), (102288, False)]"
    using malloc_some[of h0 "[]" 102400 "[]" 100] h0 nd by (auto simp: alloc_areas_def)
  obtain h where h: "heap_ok h [(112, True), (112, True), (102176, False)]"
    using malloc_some[of h1 "[(112, True)]" 102288 "[]" 100] h1 nd by (auto simp: alloc_areas_def)
  define p where "p = ram h + 12"
  have l: "mem_live h [(p, 100), (p + 112, 100)]"
    unfolding mem_live_def using h by (intro exI[of _ "[(112, True), (112, True), (102176, False)]"]) (simp add: p_def)
  let ?V = "demo_view [(p, 100), (p + 112, 100)] [0x1000, 0x2000, 0x3000] []"
  define s where "s = demo\<lparr>ppools := demo_pools 0x1000, pheap := h, pbufs := (\<lambda>a. \<lparr>pb_next = (if a = p then p + 112 else 0), pb_payload = a + 16,
     pb_tot_len = (if a = p then 8 else 4), pb_len = 4, pb_type = PBUF_RAM, pb_flags = 0, pb_ref = 1\<rparr>)\<rparr>"
  have pm: "pmem s ?V" by (rule demo_pmem[OF l]) (simp_all add: s_def)
  have "packet (pbufs s) p [p, p + 112]" by (simp add: packet_Cons s_def p_def)
  moreover have "owns [(p, 100), (p + 112, 100)] x" if "x \<in> set (addrs (pbufs s) [p, p + 112])" for x
    using that by (auto simp: owns_def s_def)
  ultimately have r: "ram_packet s p [p, p + 112] ?V" by (simp add: ram_packet_def demo_view_def) (simp add: s_def)
  show ?thesis using pbuf_coalesce_contents[OF pm r, of "\<lambda>_. None" PBUF_RAW] r by blast
qed

end
