(* ===== verification/Pbuf_Chksum.thy ===== *)
theory Pbuf_Chksum
  imports Pbuf_Chain
begin

section \<open>Internet checksums of packet buffer chains\<close>

text \<open>
  The part of \<^verbatim>\<open>core/ipv4/inet_chksum.c\<close> that sums packets: \<^verbatim>\<open>inet_chksum_pbuf\<close>,
  \<^verbatim>\<open>inet_chksum_pseudo\<close> and \<^verbatim>\<open>inet_chksum_pseudo_partial\<close>. The buffers of a chain may have odd lengths, so
  the routines swap the running sum after each of them. The theorem compares them with the sum of the
  pseudo header and the contents of the packet laid out in one piece. The addresses the source takes by
  pointer are passed as 32-bit values in network byte order.
\<close>

subsection \<open>Model\<close>

partial_function (option) chksum_loop :: "nat \<Rightarrow> u32_t \<Rightarrow> bool \<Rightarrow> pbuf_state \<Rightarrow> (u32_t \<times> bool) option" where
  "chksum_loop q acc swapped s =
     (if q \<noteq> 0
      then let len = pb_len (pbufs s q);
               acc = acc + ucast (lwip_standard_chksum (pdata s) (pb_payload (pbufs s q)) (int (unat len)));
               acc = FOLD_U32T acc;
               odd = len mod 2 \<noteq> 0
           in chksum_loop (pb_next (pbufs s q)) (if odd then SWAP_BYTES_IN_WORD acc else acc)
                (if odd then \<not> swapped else swapped) s
      else Some (acc, swapped))"

partial_function (option) chksum_part_loop :: "nat \<Rightarrow> u16_t \<Rightarrow> u32_t \<Rightarrow> bool \<Rightarrow> pbuf_state \<Rightarrow> (u32_t \<times> bool) option" where
  "chksum_part_loop q chksum_len acc swapped s =
     (if q \<noteq> 0 \<and> chksum_len > 0
      then let len = pb_len (pbufs s q);
               chklen = (if len > chksum_len then chksum_len else len);
               acc = acc + ucast (lwip_standard_chksum (pdata s) (pb_payload (pbufs s q)) (int (unat chklen)));
               chksum_len = chksum_len - chklen
           in LWIP_ASSERT (chksum_len < 0x7fff)
               (let acc = FOLD_U32T acc;
                    odd = len mod 2 \<noteq> 0
                in chksum_part_loop (pb_next (pbufs s q)) chksum_len (if odd then SWAP_BYTES_IN_WORD acc else acc)
                     (if odd then \<not> swapped else swapped) s)
      else Some (acc, swapped))"

definition pseudo_end :: "u32_t \<Rightarrow> u32_t \<Rightarrow> u8_t \<Rightarrow> u16_t \<Rightarrow> u32_t \<times> bool \<Rightarrow> u16_t" where
  "pseudo_end src dest proto proto_len r =
     (let (acc, swapped) = r;
          acc = (if swapped then SWAP_BYTES_IN_WORD acc else acc);
          acc = acc + (src AND 0xffff);
          acc = acc + (drop_bit 16 src AND 0xffff);
          acc = acc + (dest AND 0xffff);
          acc = acc + (drop_bit 16 dest AND 0xffff);
          acc = acc + ucast (lwip_htons (ucast proto));
          acc = acc + ucast (lwip_htons proto_len);
          acc = FOLD_U32T acc;
          acc = FOLD_U32T acc
      in ucast (NOT (acc AND 0xffff)))"

definition inet_chksum_pseudo :: "nat \<Rightarrow> u32_t \<Rightarrow> u32_t \<Rightarrow> u8_t \<Rightarrow> u16_t \<Rightarrow> pbuf_state \<Rightarrow> u16_t option" where
  "inet_chksum_pseudo p src dest proto proto_len s =
     map_option (pseudo_end src dest proto proto_len) (chksum_loop p 0 False s)"

definition inet_chksum_pseudo_partial ::
    "nat \<Rightarrow> u32_t \<Rightarrow> u32_t \<Rightarrow> u8_t \<Rightarrow> u16_t \<Rightarrow> u16_t \<Rightarrow> pbuf_state \<Rightarrow> u16_t option" where
  "inet_chksum_pseudo_partial p src dest proto proto_len chksum_len s =
     map_option (pseudo_end src dest proto proto_len) (chksum_part_loop p chksum_len 0 False s)"

definition inet_chksum_pbuf :: "nat \<Rightarrow> pbuf_state \<Rightarrow> u16_t option" where
  "inet_chksum_pbuf p s =
     map_option (\<lambda>(acc, swapped). ucast (NOT ((if swapped then SWAP_BYTES_IN_WORD acc else acc) AND 0xffff)))
       (chksum_loop p 0 False s)"

declare chksum_loop.simps [code] chksum_part_loop.simps [code]

subsection \<open>The running sum\<close>

text \<open>\<open>running xs acc sw\<close>: the accumulator after the bytes \<open>xs\<close>, its bytes swapped when \<open>sw\<close>.\<close>

definition running :: "u8_t list \<Rightarrow> u32_t \<Rightarrow> bool \<Rightarrow> bool" where
  "running xs acc sw \<longleftrightarrow> unat acc \<le> 65535 \<and> same_sum (unat acc) (if sw then 256 * word_sum xs else word_sum xs)"

lemma running_Nil: "running [] 0 False"
  by (simp add: running_def)

lemma running_swap: "running xs acc sw \<Longrightarrow> running xs (SWAP_BYTES_IN_WORD acc) (\<not> sw)"
proof -
  assume r: "running xs acc sw"
  then have a: "unat acc \<le> 65535" by (simp add: running_def)
  have "same_sum (256 * unat acc) (256 * (if sw then 256 * word_sum xs else word_sum xs))"
    using r by (intro same_sum_mult) (simp add: running_def)
  also have "same_sum \<dots> (if \<not> sw then 256 * word_sum xs else word_sum xs)"
    using same_sum_65536[of "word_sum xs"] by simp
  finally have f: "same_sum (256 * unat acc) (if \<not> sw then 256 * word_sum xs else word_sum xs)" .
  show ?thesis unfolding running_def
    by (intro conjI SWAP_same(2)[OF a] same_sum_trans[OF SWAP_same(1)[OF a] f])
qed

lemma running_add:
  assumes r: "running xs acc sw" and sw: "sw \<longleftrightarrow> odd (length xs)" and n: "n \<le> 0x20000"
  shows "running (xs @ data_at m p n) (FOLD_U32T (acc + ucast (lwip_standard_chksum m p (int n)))) sw"
proof -
  let ?c = "lwip_standard_chksum m p (int n)" and ?ys = "data_at m p n"
  have a: "unat acc \<le> 65535" using r by (simp add: running_def)
  have c: "unat ?c = ones_rep (word_sum ?ys)" by (rule chksum_value[OF n])
  have u: "unat (acc + ucast ?c) = unat acc + unat ?c"
    using a unat_bounds(2)[of ?c] by (intro unat_add_u16) simp
  then have le: "unat (FOLD_U32T (acc + ucast ?c)) \<le> 65535"
    using a unat_bounds(2)[of ?c] by (intro FOLD_le(2)) simp
  have "same_sum (unat (FOLD_U32T (acc + ucast ?c))) (unat acc + unat ?c)" using FOLD_same[of "acc + ucast ?c"] u by simp
  also have "same_sum \<dots> ((if sw then 256 * word_sum xs else word_sum xs) + word_sum ?ys)"
    using r unfolding c running_def by (intro same_sum_add ones_rep_same) simp
  also have "same_sum \<dots> (if sw then 256 * word_sum (xs @ ?ys) else word_sum (xs @ ?ys))"
  proof (cases sw)
    case True
    then have "same_sum (256 * word_sum (xs @ ?ys)) (256 * (word_sum xs + 256 * word_sum ?ys))"
      using word_sum_append[of xs ?ys] sw by (intro same_sum_mult) simp
    also have "same_sum \<dots> (256 * word_sum xs + word_sum ?ys)"
      using same_sum_add[OF same_sum_refl same_sum_65536[of "word_sum ?ys"], of "256 * word_sum xs"]
      by (simp add: distrib_left)
    finally show ?thesis using True same_sum_sym by simp
  next
    case False
    then show ?thesis using word_sum_append[of xs ?ys] sw same_sum_sym by simp
  qed
  finally show ?thesis using le by (simp add: running_def)
qed

lemma odd_u16: "(x :: u16_t) mod 2 \<noteq> 0 \<longleftrightarrow> odd (unat x)"
  by (simp add: word_unat_eq_iff unat_mod odd_iff_mod_2_eq_one)

lemma chksum_loop_value:
  "pchain (pbufs s) q as \<Longrightarrow> running xs acc sw \<Longrightarrow> sw \<longleftrightarrow> odd (length xs) \<Longrightarrow>
     \<exists>acc' sw'. chksum_loop q acc sw s = Some (acc', sw') \<and> running (xs @ contents (pbufs s) (pdata s) as) acc' sw'"
proof (induction as arbitrary: q xs acc sw)
  case Nil
  then show ?case by (subst chksum_loop.simps) simp
next
  case (Cons a as)
  let ?n = "blen (pbufs s) a" and ?xs = "xs @ bdata (pbufs s) (pdata s) a"
  let ?acc = "FOLD_U32T (acc + ucast (lwip_standard_chksum (pdata s) (pb_payload (pbufs s a)) (int ?n)))"
  have r: "running ?xs ?acc sw" unfolding bdata_def
    using Cons.prems(2,3) unat_bounds(2)[of "pb_len (pbufs s a)"] by (intro running_add) auto
  have q: "q = a" "a \<noteq> 0" "pchain (pbufs s) (pb_next (pbufs s a)) as" using Cons.prems(1) by simp_all
  define acc1 where "acc1 = (if odd ?n then SWAP_BYTES_IN_WORD ?acc else ?acc)"
  define sw1 where "sw1 = (if odd ?n then \<not> sw else sw)"
  have step: "chksum_loop q acc sw s = chksum_loop (pb_next (pbufs s a)) acc1 sw1 s"
    unfolding acc1_def sw1_def by (subst chksum_loop.simps) (simp only: q(1,2) Let_def odd_u16 if_True simp_thms)
  have "running ?xs acc1 sw1" using r running_swap[OF r] by (simp add: acc1_def sw1_def)
  moreover have "sw1 \<longleftrightarrow> odd (length ?xs)" using Cons.prems(3) by (simp add: sw1_def)
  ultimately show ?case unfolding step using Cons.IH[OF q(3)] by fastforce
qed

lemma chksum_part_loop_value:
  "pchain (pbufs s) q as \<Longrightarrow> unat n < 0x7fff \<Longrightarrow> running xs acc sw \<Longrightarrow> sw \<longleftrightarrow> odd (length xs) \<Longrightarrow>
     \<exists>acc' sw'. chksum_part_loop q n acc sw s = Some (acc', sw') \<and>
       running (xs @ take (unat n) (contents (pbufs s) (pdata s) as)) acc' sw'"
proof (induction as arbitrary: q n xs acc sw)
  case Nil
  then show ?case by (subst chksum_part_loop.simps) simp
next
  case (Cons a as)
  let ?B = "pbufs s"
  show ?case
  proof (cases "n = 0")
    case True
    then show ?thesis using Cons.prems(3) by (subst chksum_part_loop.simps) simp
  next
    case False
    define w where "w = (if pb_len (?B a) > n then n else pb_len (?B a))"
    define k where "k = min (unat n) (blen ?B a)"
    have w: "unat w = k" by (auto simp: w_def k_def u16_simps min_def)
    have k: "k \<le> unat n" "k \<le> blen ?B a" "k \<le> 0x20000" using unat_bounds(2)[of n] by (simp_all add: k_def)
    define xs1 where "xs1 = xs @ data_at (pdata s) (pb_payload (?B a)) k"
    define acc0 where "acc0 = FOLD_U32T (acc + ucast (lwip_standard_chksum (pdata s) (pb_payload (?B a)) (int k)))"
    define acc1 where "acc1 = (if odd (blen ?B a) then SWAP_BYTES_IN_WORD acc0 else acc0)"
    define sw1 where "sw1 = (if odd (blen ?B a) then \<not> sw else sw)"
    have r: "running xs1 acc0 sw" unfolding xs1_def acc0_def
      by (rule running_add[OF Cons.prems(3,4) k(3)])
    then have r1: "running xs1 acc1 sw1" using running_swap[OF r] by (simp add: acc1_def sw1_def)
    have q: "q = a" "a \<noteq> 0" "pchain ?B (pb_next (?B a)) as" using Cons.prems(1) by simp_all
    have u: "unat (n - w) = unat n - k" using k w by (simp add: u16_simps)
    then have lt: "n - w < 0x7fff" using Cons.prems(2) by (simp add: word_less_nat_alt)
    have "n > 0" using False by (simp add: word_gt_0)
    note qn = q(2) this
    have step: "chksum_part_loop q n acc sw s = chksum_part_loop (pb_next (?B a)) (n - w) acc1 sw1 s"
      unfolding acc1_def sw1_def acc0_def w[symmetric] w_def
      by (subst chksum_part_loop.simps)
        (simp only: q(1) qn Let_def odd_u16 if_True simp_thms LWIP_ASSERT_def w_def[symmetric] lt)
    show ?thesis
    proof (cases "blen ?B a \<le> unat n")
      case True
      then have kk: "k = blen ?B a" by (simp add: k_def)
      have "sw1 \<longleftrightarrow> odd (length xs1)" using Cons.prems(4) by (simp add: sw1_def xs1_def kk)
      then have "\<exists>acc' sw'. chksum_part_loop (pb_next (?B a)) (n - w) acc1 sw1 s = Some (acc', sw') \<and>
          running (xs1 @ take (unat (n - w)) (contents ?B (pdata s) as)) acc' sw'"
        using Cons.IH[OF q(3) _ r1, of "n - w"] u Cons.prems(2) by simp
      moreover have "xs1 @ take (unat (n - w)) (contents ?B (pdata s) as) = xs @ take (unat n) (contents ?B (pdata s) (a # as))"
        using True kk by (simp add: xs1_def u bdata_def)
      ultimately show ?thesis unfolding step by simp
    next
      case False
      then have kk: "k = unat n" by (simp add: k_def)
      then have "n - w = 0" using u by (simp add: word_unat_eq_iff)
      then have "chksum_part_loop (pb_next (?B a)) (n - w) acc1 sw1 s = Some (acc1, sw1)"
        by (subst chksum_part_loop.simps) simp
      moreover have "xs1 = xs @ take (unat n) (contents ?B (pdata s) (a # as))"
        using False kk by (simp add: xs1_def bdata_def take_data_at min_def)
      ultimately show ?thesis unfolding step using r1 by simp
    qed
  qed
qed

subsection \<open>The pseudo header\<close>

text \<open>The pseudo header of RFC 768 and RFC 793 in memory order: the two addresses, a zero byte, the
  protocol and the length, high byte first.\<close>

definition le32 :: "u32_t \<Rightarrow> u8_t list" where
  "le32 a = [ucast a, ucast (drop_bit 8 a), ucast (drop_bit 16 a), ucast (drop_bit 24 a)]"

definition pseudo_header :: "u32_t \<Rightarrow> u32_t \<Rightarrow> u8_t \<Rightarrow> u16_t \<Rightarrow> u8_t list" where
  "pseudo_header src dest proto len = le32 src @ le32 dest @ [0, proto, ucast (drop_bit 8 len), ucast len]"

lemma unat_half: "unat ((a :: u32_t) AND 0xffff) = unat (ucast a :: u8_t) + 256 * unat (ucast (drop_bit 8 a) :: u8_t)"
proof -
  have "unat (a AND 0xffff) = unat a mod (256 * 256)" using unat_and_mask[of a 16] by (simp add: mask_eq_exp_minus_1)
  also have "\<dots> = 256 * (unat a div 256 mod 256) + unat a mod 256" by (rule mod_mult2_eq)
  finally show ?thesis by (simp add: unsigned_ucast_eq take_bit_eq_mod unat_drop_bit)
qed

lemma unat_htons: "unat (lwip_htons n) = unat (ucast (drop_bit 8 n) :: u8_t) + 256 * unat (ucast n :: u8_t)"
proof -
  have "lwip_htons n = ucast (ucast (drop_bit 8 n) :: u8_t) OR push_bit 8 (ucast (ucast n :: u8_t))"
    unfolding lwip_htons_def byte_masks by (rule bit_word_eqI) (auto simp: bit_simps)
  then show ?thesis by (simp only: unat_or_push8)
qed

lemma unat_htons_proto: "unat (lwip_htons (ucast (proto :: u8_t))) = 256 * unat proto"
proof -
  have "(ucast (drop_bit 8 (ucast proto :: u16_t)) :: u8_t) = 0" by (rule bit_word_eqI) (auto simp: bit_simps dest: bit_imp_le_length)
  then show ?thesis by (simp add: unat_htons)
qed

lemma word_sum_pseudo: "word_sum (pseudo_header src dest proto len @ xs) =
    unat (src AND 0xffff) + unat (drop_bit 16 src AND 0xffff) + unat (dest AND 0xffff) + unat (drop_bit 16 dest AND 0xffff) +
    unat (lwip_htons (ucast proto)) + unat (lwip_htons len) + word_sum xs"
  by (simp add: pseudo_header_def le32_def unat_half unat_htons_proto unat_htons[of len] drop_bit_drop_bit)

lemma not_low_half: "unat acc \<le> 65535 \<Longrightarrow> unat (ucast (NOT (acc AND 0xffff)) :: u16_t) = 65535 - unat (acc :: u32_t)"
proof -
  assume a: "unat acc \<le> 65535"
  have m: "(0xffff :: u32_t) = mask 16" by (simp add: mask_eq_exp_minus_1)
  have "(ucast (NOT (acc AND 0xffff)) :: u16_t) = NOT (ucast acc)"
    unfolding m by (rule bit_word_eqI) (auto simp: bit_simps)
  then show ?thesis using unat_low_half[OF a] by (simp add: unat_not_u16)
qed

lemma running_unswap: "running xs acc sw \<Longrightarrow> running xs (if sw then SWAP_BYTES_IN_WORD acc else acc) False"
  using running_swap[of xs acc sw] by (cases sw) simp_all

lemma pseudo_end_value:
  assumes "running xs acc sw"
  shows "unat (pseudo_end src dest proto len (acc, sw)) = 65535 - ones_rep (word_sum (pseudo_header src dest proto len @ xs))"
proof -
  define a where "a = (if sw then SWAP_BYTES_IN_WORD acc else acc)"
  define z where "z = a + (src AND 0xffff) + (drop_bit 16 src AND 0xffff) + (dest AND 0xffff) + (drop_bit 16 dest AND 0xffff) +
    ucast (lwip_htons (ucast proto)) + ucast (lwip_htons len)"
  have r: "unat a \<le> 65535" "same_sum (unat a) (word_sum xs)" using running_unswap[OF assms] by (simp_all add: running_def a_def)
  have half: "unat ((x :: u32_t) AND 0xffff) < 65536" for x
    using unat_and_mask[of x 16] by (simp add: mask_eq_exp_minus_1)
  have "unat z = unat a + unat (src AND 0xffff) + unat (drop_bit 16 src AND 0xffff) + unat (dest AND 0xffff) +
      unat (drop_bit 16 dest AND 0xffff) + unat (lwip_htons (ucast proto)) + unat (lwip_htons len)"
    using r(1) half[of src] half[of "drop_bit 16 src"] half[of dest] half[of "drop_bit 16 dest"]
      unat_bounds(2)[of "lwip_htons (ucast proto)"] unat_bounds(2)[of "lwip_htons len"]
    unfolding z_def by (simp add: unat_word_ariths)
  then have "same_sum (unat z) (word_sum (pseudo_header src dest proto len @ xs))"
    unfolding word_sum_pseudo by (simp add: same_sum_add[OF r(2) same_sum_refl] add.assoc add.commute[of _ "word_sum xs"])
  then have o: "ones_rep (unat z) = ones_rep (word_sum (pseudo_header src dest proto len @ xs))" by (rule same_sum_ones_rep)
  have "unat (FOLD_U32T (FOLD_U32T z)) = ones_rep (unat z)" by (rule FOLD_twice)
  then have "unat (ucast (NOT (FOLD_U32T (FOLD_U32T z) AND 0xffff)) :: u16_t) = 65535 - ones_rep (unat z)"
    using not_low_half[of "FOLD_U32T (FOLD_U32T z)"] ones_rep_le[of "unat z"] by simp
  then show ?thesis using o by (simp add: pseudo_end_def Let_def z_def a_def)
qed

subsection \<open>Property\<close>

text \<open>C32. The checksum of a packet does not depend on how it is divided into buffers, of even or odd
  length, empty ones included, nor on where their payloads lie: \<^verbatim>\<open>inet_chksum_pbuf\<close> is the complement of
  the ones' complement sum of the contents in one piece, \<^verbatim>\<open>inet_chksum_pseudo\<close> that of the pseudo
  header followed by the contents, and \<^verbatim>\<open>inet_chksum_pseudo_partial\<close> that of the pseudo header followed by
  the first \<open>n\<close> bytes (below 32767, the limit of its assertion). All three return.\<close>

theorem inet_chksum_chain:
  assumes "packet (pbufs s) p as" "unat n < 0x7fff"
  shows "(\<exists>c. inet_chksum_pbuf p s = Some c \<and>
      unat c = 65535 - ones_rep (word_sum (contents (pbufs s) (pdata s) as))) \<and>
    (\<exists>c. inet_chksum_pseudo p src dest proto len s = Some c \<and>
      unat c = 65535 - ones_rep (word_sum (pseudo_header src dest proto len @ contents (pbufs s) (pdata s) as))) \<and>
    (\<exists>c. inet_chksum_pseudo_partial p src dest proto len n s = Some c \<and>
      unat c = 65535 - ones_rep (word_sum (pseudo_header src dest proto len @ take (unat n) (contents (pbufs s) (pdata s) as))))"
proof -
  have p: "pchain (pbufs s) p as" using assms(1) by (simp add: packet_def)
  obtain acc sw where l: "chksum_loop p 0 False s = Some (acc, sw)" "running (contents (pbufs s) (pdata s) as) acc sw"
    using chksum_loop_value[OF p running_Nil] by auto
  obtain acc' sw' where l': "chksum_part_loop p n 0 False s = Some (acc', sw')"
      "running (take (unat n) (contents (pbufs s) (pdata s) as)) acc' sw'"
    using chksum_part_loop_value[OF p assms(2) running_Nil] by auto
  let ?a = "if sw then SWAP_BYTES_IN_WORD acc else acc"
  have r: "unat ?a \<le> 65535" "unat ?a = ones_rep (word_sum (contents (pbufs s) (pdata s) as))"
    using running_unswap[OF l(2)] ones_rep_unique by (simp_all add: running_def)
  show ?thesis
    using l(1) l'(1) pseudo_end_value[OF l(2)] pseudo_end_value[OF l'(2)] not_low_half[OF r(1)] r(2)
    by (simp add: inet_chksum_pbuf_def inet_chksum_pseudo_def inet_chksum_pseudo_partial_def)
qed

theorem inet_chksum_chain_witness:
  "\<exists>c. inet_chksum_pseudo 100 0x0100007f 0x0200007f 17 5 demo = Some c \<and> unat c =
     65535 - ones_rep (word_sum (pseudo_header 0x0100007f 0x0200007f 17 5 @ contents (pbufs demo) (pdata demo) [100, 200]))"
proof -
  have "unat (4 :: u16_t) < 0x7fff" by simp
  from inet_chksum_chain[OF demo_packets(1) this, of "0x0100007f" "0x0200007f" 17 5] show ?thesis by blast
qed

end
