(* ===== verification/Tasks.thy ===== *)
theory Tasks
  imports FreeRTOS_List Heap4 "HOL-Library.Monad_Syntax"
begin

section \<open>The scheduler (tasks.c)\<close>

text \<open>
  The task lists, the tick and the context switch of \<^verbatim>\<open>src/FreeRTOS-Kernel/tasks.c\<close> as
  \<^verbatim>\<open>FreeRTOSConfig.h\<close> configures them: five priorities, preemption and time slicing, 32-bit ticks,
  no mutexes, tracing, tickless idling or port-specific task selection. A task is named by the
  address of its control block; its two list items are items of the list store. The kernel's own
  lists have the numbers 0 to 9, the lists of queues and event groups have larger ones.

  Every operation is a function on the kernel state, from the entry of the C function to its return
  or to the context switch it ends with: \<^verbatim>\<open>portYIELD\<close> is a software interrupt whose handler calls
  \<^verbatim>\<open>vTaskSwitchContext\<close>, and the code behind it runs when the task is selected again. Functions that
  go on after a yield are modelled in two parts. Critical sections and the interrupt mask make each
  part one step. The result \<open>None\<close> is a null or wild pointer that is used, or a loop that does not
  end. \<^verbatim>\<open>configASSERT\<close> only prints in this configuration and has no effect on the state.
\<close>

subsection \<open>Constants and data\<close>

definition configMAX_PRIORITIES :: nat where
  "configMAX_PRIORITIES = 5"

definition configTASK_NOTIFICATION_ARRAY_ENTRIES :: nat where
  "configTASK_NOTIFICATION_ARRAY_ENTRIES = 3"

definition taskNOT_WAITING_NOTIFICATION :: u8_t where "taskNOT_WAITING_NOTIFICATION = 0"
definition taskWAITING_NOTIFICATION :: u8_t where "taskWAITING_NOTIFICATION = 1"
definition taskNOTIFICATION_RECEIVED :: u8_t where "taskNOTIFICATION_RECEIVED = 2"

definition taskEVENT_LIST_ITEM_VALUE_IN_USE :: TickType_t where
  "taskEVENT_LIST_ITEM_VALUE_IN_USE = 0x80000000"

text \<open>The two list items of a task control block.\<close>

definition xStateListItem :: "nat \<Rightarrow> nat" where
  "xStateListItem t = 2 * t"

definition xEventListItem :: "nat \<Rightarrow> nat" where
  "xEventListItem t = 2 * t + 1"

record TCB_t =
  pxTopOfStack :: u32_t
  uxPriority :: UBaseType_t
  pxStack :: nat
  pcTaskName :: "u8_t list"
  pxEndOfStack :: u32_t
  pvThreadLocalStoragePointers :: "u32_t list"
  ulNotifiedValue :: "u32_t list"
  ucNotifyState :: "u8_t list"

definition pxReadyTasksLists :: "UBaseType_t \<Rightarrow> nat" where
  "pxReadyTasksLists p = unat p"

definition xDelayedTaskList1 :: nat where "xDelayedTaskList1 = 5"
definition xDelayedTaskList2 :: nat where "xDelayedTaskList2 = 6"
definition xPendingReadyList :: nat where "xPendingReadyList = 7"
definition xTasksWaitingTermination :: nat where "xTasksWaitingTermination = 8"
definition xSuspendedTaskList :: nat where "xSuspendedTaskList = 9"

text \<open>The file's variables, the task control blocks, the lists, the heap and the task stacks.\<close>

record kernel =
  kls :: list_store
  tcbs :: "nat \<Rightarrow> TCB_t"
  kheap :: heap4
  kstack :: "u32_t \<Rightarrow> u32_t"
  pxCurrentTCB :: "nat option"
  pxDelayedTaskList :: nat
  pxOverflowDelayedTaskList :: nat
  uxDeletedTasksWaitingCleanUp :: UBaseType_t
  uxCurrentNumberOfTasks :: UBaseType_t
  xTickCount :: TickType_t
  uxTopReadyPriority :: UBaseType_t
  xSchedulerRunning :: bool
  xPendedTicks :: TickType_t
  xYieldPending :: bool
  xNumOfOverflows :: "32 word"
  uxTaskNumber :: UBaseType_t
  xNextTaskUnblockTime :: TickType_t
  xIdleTaskHandle :: "nat option"
  uxSchedulerSuspended :: UBaseType_t

definition upd_tcb :: "nat \<Rightarrow> (TCB_t \<Rightarrow> TCB_t) \<Rightarrow> kernel \<Rightarrow> kernel" where
  "upd_tcb t f s = s\<lparr>tcbs := (tcbs s)(t := f (tcbs s t))\<rparr>"

abbreviation prio :: "kernel \<Rightarrow> nat \<Rightarrow> UBaseType_t" where
  "prio s t \<equiv> uxPriority (tcbs s t)"

text \<open>List operations on the kernel state.\<close>

definition k_remove :: "nat \<Rightarrow> kernel \<Rightarrow> kernel option" where
  "k_remove i s = map_option (\<lambda>(_, K). s\<lparr>kls := K\<rparr>) (uxListRemove i (kls s))"

definition k_REMOVE :: "nat \<Rightarrow> kernel \<Rightarrow> kernel option" where
  "k_REMOVE i s = map_option (\<lambda>K. s\<lparr>kls := K\<rparr>) (listREMOVE_ITEM i (kls s))"

definition k_insert :: "nat \<Rightarrow> nat \<Rightarrow> kernel \<Rightarrow> kernel option" where
  "k_insert l i s = map_option (\<lambda>K. s\<lparr>kls := K\<rparr>) (vListInsert l i (kls s))"

definition k_insert_end :: "nat \<Rightarrow> nat \<Rightarrow> kernel \<Rightarrow> kernel" where
  "k_insert_end l i s = s\<lparr>kls := vListInsertEnd l i (kls s)\<rparr>"

definition k_INSERT_END :: "nat \<Rightarrow> nat \<Rightarrow> kernel \<Rightarrow> kernel" where
  "k_INSERT_END l i s = s\<lparr>kls := listINSERT_END l i (kls s)\<rparr>"

definition k_set_value :: "nat \<Rightarrow> TickType_t \<Rightarrow> kernel \<Rightarrow> kernel" where
  "k_set_value i v s = s\<lparr>kls := listSET_LIST_ITEM_VALUE i v (kls s)\<rparr>"

subsection \<open>Macros\<close>

definition taskRECORD_READY_PRIORITY :: "UBaseType_t \<Rightarrow> kernel \<Rightarrow> kernel" where
  "taskRECORD_READY_PRIORITY p s = (if p > uxTopReadyPriority s then s\<lparr>uxTopReadyPriority := p\<rparr> else s)"

text \<open>The search for the highest list with a task. It starts at \<^verbatim>\<open>uxTopReadyPriority\<close>, which must be
  an index of the array, and counts down; below 0 the index wraps around and leaves the array.\<close>

primrec top_scan :: "list_store \<Rightarrow> nat \<Rightarrow> nat option" where
  "top_scan K 0 = (if listLIST_IS_EMPTY 0 K then None else Some 0)"
| "top_scan K (Suc p) = (if listLIST_IS_EMPTY (Suc p) K then top_scan K p else Some (Suc p))"

definition taskSELECT_HIGHEST_PRIORITY_TASK :: "kernel \<Rightarrow> kernel option" where
  "taskSELECT_HIGHEST_PRIORITY_TASK s =
     (if unat (uxTopReadyPriority s) < configMAX_PRIORITIES
      then case top_scan (kls s) (unat (uxTopReadyPriority s)) of
             None \<Rightarrow> None
           | Some p \<Rightarrow>
               (case listGET_OWNER_OF_NEXT_ENTRY p (kls s) of (own, K) \<Rightarrow>
                  (case own of
                     None \<Rightarrow> None
                   | Some t \<Rightarrow> Some (s\<lparr>kls := K, pxCurrentTCB := Some t, uxTopReadyPriority := of_nat p\<rparr>)))
      else None)"

definition prvResetNextTaskUnblockTime :: "kernel \<Rightarrow> kernel" where
  "prvResetNextTaskUnblockTime s =
     (if listLIST_IS_EMPTY (pxDelayedTaskList s) (kls s)
      then s\<lparr>xNextTaskUnblockTime := portMAX_DELAY\<rparr>
      else s\<lparr>xNextTaskUnblockTime := listGET_ITEM_VALUE_OF_HEAD_ENTRY (pxDelayedTaskList s) (kls s)\<rparr>)"

definition taskSWITCH_DELAYED_LISTS :: "kernel \<Rightarrow> kernel" where
  "taskSWITCH_DELAYED_LISTS s =
     (let pxTemp = pxDelayedTaskList s;
          s = s\<lparr>pxDelayedTaskList := pxOverflowDelayedTaskList s\<rparr>;
          s = s\<lparr>pxOverflowDelayedTaskList := pxTemp\<rparr>;
          s = s\<lparr>xNumOfOverflows := xNumOfOverflows s + 1\<rparr>
      in prvResetNextTaskUnblockTime s)"

definition prvAddTaskToReadyList :: "nat \<Rightarrow> kernel \<Rightarrow> kernel" where
  "prvAddTaskToReadyList t s =
     (let s = taskRECORD_READY_PRIORITY (prio s t) s
      in k_INSERT_END (pxReadyTasksLists (prio s t)) (xStateListItem t) s)"

definition prvGetTCBFromHandle :: "nat option \<Rightarrow> kernel \<Rightarrow> nat option" where
  "prvGetTCBFromHandle h s = (case h of None \<Rightarrow> pxCurrentTCB s | Some t \<Rightarrow> Some t)"

subsection \<open>Context switch and tick\<close>

definition vTaskSwitchContext :: "kernel \<Rightarrow> kernel option" where
  "vTaskSwitchContext s =
     (if uxSchedulerSuspended s \<noteq> 0 then Some (s\<lparr>xYieldPending := True\<rparr>)
      else taskSELECT_HIGHEST_PRIORITY_TASK (s\<lparr>xYieldPending := False\<rparr>))"

text \<open>\<^verbatim>\<open>portYIELD_WITHIN_API\<close> is \<^verbatim>\<open>portYIELD\<close>, the software interrupt.\<close>

definition portYIELD_WITHIN_API :: "kernel \<Rightarrow> kernel option" where
  "portYIELD_WITHIN_API s = vTaskSwitchContext s"

text \<open>The loop of the tick that unblocks the tasks whose time has come; it returns whether one of
  them has a higher priority than the running task.\<close>

partial_function (option) tick_loop :: "TickType_t \<Rightarrow> bool \<Rightarrow> kernel \<Rightarrow> (bool \<times> kernel) option" where
  "tick_loop now sw s =
     (if listLIST_IS_EMPTY (pxDelayedTaskList s) (kls s)
      then Some (sw, s\<lparr>xNextTaskUnblockTime := portMAX_DELAY\<rparr>)
      else do {
        t \<leftarrow> listGET_OWNER_OF_HEAD_ENTRY (pxDelayedTaskList s) (kls s);
        let v = listGET_LIST_ITEM_VALUE (xStateListItem t) (kls s);
        if now < v then Some (sw, s\<lparr>xNextTaskUnblockTime := v\<rparr>)
        else do {
          s \<leftarrow> k_REMOVE (xStateListItem t) s;
          s \<leftarrow> (if listLIST_ITEM_CONTAINER (xEventListItem t) (kls s) \<noteq> None
               then k_REMOVE (xEventListItem t) s else Some s);
          let s = prvAddTaskToReadyList t s;
          cur \<leftarrow> pxCurrentTCB s;
          tick_loop now (if prio s t > prio s cur then True else sw) s
        }
      })"

definition xTaskIncrementTick :: "kernel \<Rightarrow> (bool \<times> kernel) option" where
  "xTaskIncrementTick s =
     (if uxSchedulerSuspended s = 0
      then do {
        let now = xTickCount s + 1;
        let s = s\<lparr>xTickCount := now\<rparr>;
        let s = (if now = 0 then taskSWITCH_DELAYED_LISTS s else s);
        (sw, s) \<leftarrow> (if now \<ge> xNextTaskUnblockTime s then tick_loop now False s else Some (False, s));
        cur \<leftarrow> pxCurrentTCB s;
        let sw = (if listCURRENT_LIST_LENGTH (pxReadyTasksLists (prio s cur)) (kls s) > 1 then True else sw);
        let sw = (if xYieldPending s then True else sw);
        Some (sw, s)
      }
      else Some (False, s\<lparr>xPendedTicks := xPendedTicks s + 1\<rparr>))"

text \<open>The tick interrupt as far as the kernel state goes: a context switch when the tick asks for one.\<close>

definition tick_isr :: "kernel \<Rightarrow> kernel option" where
  "tick_isr s = do {
     (sw, s) \<leftarrow> xTaskIncrementTick s;
     if sw then vTaskSwitchContext s else Some s
   }"

subsection \<open>Suspending and resuming the scheduler\<close>

definition vTaskSuspendAll :: "kernel \<Rightarrow> kernel" where
  "vTaskSuspendAll s = s\<lparr>uxSchedulerSuspended := uxSchedulerSuspended s + 1\<rparr>"

partial_function (option) pending_loop :: "nat option \<Rightarrow> kernel \<Rightarrow> (nat option \<times> kernel) option" where
  "pending_loop moved s =
     (if listLIST_IS_EMPTY xPendingReadyList (kls s) then Some (moved, s)
      else do {
        t \<leftarrow> listGET_OWNER_OF_HEAD_ENTRY xPendingReadyList (kls s);
        s \<leftarrow> k_REMOVE (xEventListItem t) s;
        s \<leftarrow> k_REMOVE (xStateListItem t) s;
        let s = prvAddTaskToReadyList t s;
        cur \<leftarrow> pxCurrentTCB s;
        pending_loop (Some t) (if prio s t \<ge> prio s cur then s\<lparr>xYieldPending := True\<rparr> else s)
      })"

primrec replay_ticks :: "nat \<Rightarrow> kernel \<Rightarrow> kernel option" where
  "replay_ticks 0 s = Some s"
| "replay_ticks (Suc n) s = do {
     (sw, s) \<leftarrow> xTaskIncrementTick s;
     replay_ticks n (if sw then s\<lparr>xYieldPending := True\<rparr> else s)
   }"

definition xTaskResumeAll :: "kernel \<Rightarrow> (bool \<times> kernel) option" where
  "xTaskResumeAll s =
     (let s = s\<lparr>uxSchedulerSuspended := uxSchedulerSuspended s - 1\<rparr>
      in if uxSchedulerSuspended s = 0 \<and> uxCurrentNumberOfTasks s > 0
         then do {
           (moved, s) \<leftarrow> pending_loop None s;
           let s = (if moved \<noteq> None then prvResetNextTaskUnblockTime s else s);
           s \<leftarrow> (if xPendedTicks s > 0
                then do { s \<leftarrow> replay_ticks (unat (xPendedTicks s)) s; Some (s\<lparr>xPendedTicks := 0\<rparr>) }
                else Some s);
           if xYieldPending s then do { s \<leftarrow> portYIELD_WITHIN_API s; Some (True, s) } else Some (False, s)
         }
         else Some (False, s))"

definition xTaskCatchUpTicks :: "TickType_t \<Rightarrow> kernel \<Rightarrow> (bool \<times> kernel) option" where
  "xTaskCatchUpTicks n s =
     (let s = vTaskSuspendAll s;
          s = s\<lparr>xPendedTicks := xPendedTicks s + n\<rparr>
      in xTaskResumeAll s)"

subsection \<open>Blocking\<close>

definition prvAddCurrentTaskToDelayedList :: "TickType_t \<Rightarrow> bool \<Rightarrow> kernel \<Rightarrow> kernel option" where
  "prvAddCurrentTaskToDelayedList xTicksToWait xCanBlockIndefinitely s = do {
     let now = xTickCount s;
     cur \<leftarrow> pxCurrentTCB s;
     s \<leftarrow> k_remove (xStateListItem cur) s;
     if xTicksToWait = portMAX_DELAY \<and> xCanBlockIndefinitely
     then Some (k_INSERT_END xSuspendedTaskList (xStateListItem cur) s)
     else do {
       let xTimeToWake = now + xTicksToWait;
       let s = k_set_value (xStateListItem cur) xTimeToWake s;
       if xTimeToWake < now
       then k_insert (pxOverflowDelayedTaskList s) (xStateListItem cur) s
       else do {
         s \<leftarrow> k_insert (pxDelayedTaskList s) (xStateListItem cur) s;
         Some (if xTimeToWake < xNextTaskUnblockTime s then s\<lparr>xNextTaskUnblockTime := xTimeToWake\<rparr> else s)
       }
     }
   }"

text \<open>What \<^verbatim>\<open>vTaskDelay\<close> and \<^verbatim>\<open>xTaskDelayUntil\<close> end with: a yield unless resuming the scheduler yielded.\<close>

definition resume_and_yield :: "kernel \<Rightarrow> kernel option" where
  "resume_and_yield s = do {
     (xAlreadyYielded, s) \<leftarrow> xTaskResumeAll s;
     if xAlreadyYielded then Some s else portYIELD_WITHIN_API s
   }"

definition vTaskDelay :: "TickType_t \<Rightarrow> kernel \<Rightarrow> kernel option" where
  "vTaskDelay xTicksToDelay s =
     (if xTicksToDelay > 0
      then do {
        let s = vTaskSuspendAll s;
        s \<leftarrow> prvAddCurrentTaskToDelayedList xTicksToDelay False s;
        resume_and_yield s
      }
      else portYIELD_WITHIN_API s)"

text \<open>The decision of \<^verbatim>\<open>xTaskDelayUntil\<close>: the time to wake, and whether it lies in the future.\<close>

definition delay_until_decision :: "TickType_t \<Rightarrow> TickType_t \<Rightarrow> TickType_t \<Rightarrow> TickType_t \<times> bool" where
  "delay_until_decision now previous increment =
     (let wake = previous + increment
      in (wake, if now < previous then wake < previous \<and> wake > now else wake < previous \<or> wake > now))"

text \<open>\<open>previous\<close> is \<^verbatim>\<open>*pxPreviousWakeTime\<close>; the result holds its new value and the return value.\<close>

definition xTaskDelayUntil :: "TickType_t \<Rightarrow> TickType_t \<Rightarrow> kernel \<Rightarrow> (TickType_t \<times> bool \<times> kernel) option" where
  "xTaskDelayUntil previous xTimeIncrement s = do {
     let s = vTaskSuspendAll s;
     let now = xTickCount s;
     let (xTimeToWake, xShouldDelay) = delay_until_decision now previous xTimeIncrement;
     s \<leftarrow> (if xShouldDelay then prvAddCurrentTaskToDelayedList (xTimeToWake - now) False s else Some s);
     s \<leftarrow> resume_and_yield s;
     Some (xTimeToWake, xShouldDelay, s)
   }"

subsection \<open>Priorities\<close>

definition uxTaskPriorityGet :: "nat option \<Rightarrow> kernel \<Rightarrow> UBaseType_t option" where
  "uxTaskPriorityGet xTask s = do { t \<leftarrow> prvGetTCBFromHandle xTask s; Some (prio s t) }"

definition uxTaskPriorityGetFromISR :: "nat option \<Rightarrow> kernel \<Rightarrow> UBaseType_t option" where
  "uxTaskPriorityGetFromISR xTask s = do { t \<leftarrow> prvGetTCBFromHandle xTask s; Some (prio s t) }"

definition vTaskPrioritySet :: "nat option \<Rightarrow> UBaseType_t \<Rightarrow> kernel \<Rightarrow> kernel option" where
  "vTaskPrioritySet xTask new s = do {
     let new = (if unat new \<ge> configMAX_PRIORITIES then of_nat configMAX_PRIORITIES - 1 else new);
     t \<leftarrow> prvGetTCBFromHandle xTask s;
     let old = prio s t;
     if old \<noteq> new
     then do {
       cur \<leftarrow> pxCurrentTCB s;
       let xYieldRequired = (if new > old then t \<noteq> cur \<and> new \<ge> prio s cur else t = cur);
       let s = upd_tcb t (uxPriority_update (\<lambda>_. new)) s;
       let s = (if listGET_LIST_ITEM_VALUE (xEventListItem t) (kls s) AND taskEVENT_LIST_ITEM_VALUE_IN_USE = 0
                then k_set_value (xEventListItem t) (of_nat configMAX_PRIORITIES - new) s else s);
       s \<leftarrow> (if listIS_CONTAINED_WITHIN (pxReadyTasksLists old) (xStateListItem t) (kls s)
            then do { s \<leftarrow> k_remove (xStateListItem t) s; Some (prvAddTaskToReadyList t s) }
            else Some s);
       if xYieldRequired then portYIELD_WITHIN_API s else Some s
     }
     else Some s
   }"

subsection \<open>Suspending and resuming a task\<close>

text \<open>Off the state list and off any event list, as \<^verbatim>\<open>vTaskDelete\<close> and \<^verbatim>\<open>vTaskSuspend\<close> begin.\<close>

definition unlink_task :: "nat \<Rightarrow> kernel \<Rightarrow> kernel option" where
  "unlink_task t s = do {
     s \<leftarrow> k_remove (xStateListItem t) s;
     if listLIST_ITEM_CONTAINER (xEventListItem t) (kls s) \<noteq> None
     then k_remove (xEventListItem t) s else Some s
   }"

definition vTaskSuspend :: "nat option \<Rightarrow> kernel \<Rightarrow> kernel option" where
  "vTaskSuspend xTaskToSuspend s = do {
     t \<leftarrow> prvGetTCBFromHandle xTaskToSuspend s;
     s \<leftarrow> unlink_task t s;
     let s = k_insert_end xSuspendedTaskList (xStateListItem t) s;
     let s = upd_tcb t (ucNotifyState_update (map (\<lambda>x.
               if x = taskWAITING_NOTIFICATION then taskNOT_WAITING_NOTIFICATION else x))) s;
     let s = (if xSchedulerRunning s then prvResetNextTaskUnblockTime s else s);
     if Some t = pxCurrentTCB s
     then if xSchedulerRunning s then portYIELD_WITHIN_API s
          else if listCURRENT_LIST_LENGTH xSuspendedTaskList (kls s) = uxCurrentNumberOfTasks s
          then Some (s\<lparr>pxCurrentTCB := None\<rparr>)
          else vTaskSwitchContext s
     else Some s
   }"

definition prvTaskIsTaskSuspended :: "nat \<Rightarrow> kernel \<Rightarrow> bool" where
  "prvTaskIsTaskSuspended t s \<longleftrightarrow>
     (if listIS_CONTAINED_WITHIN xSuspendedTaskList (xStateListItem t) (kls s)
      then if \<not> listIS_CONTAINED_WITHIN xPendingReadyList (xEventListItem t) (kls s)
           then if listLIST_ITEM_CONTAINER (xEventListItem t) (kls s) = None then True else False
           else False
      else False)"

definition vTaskResume :: "nat option \<Rightarrow> kernel \<Rightarrow> kernel option" where
  "vTaskResume xTaskToResume s =
     (case xTaskToResume of
        None \<Rightarrow> Some s
      | Some t \<Rightarrow>
          if Some t \<noteq> pxCurrentTCB s
          then if prvTaskIsTaskSuspended t s
               then do {
                 s \<leftarrow> k_remove (xStateListItem t) s;
                 let s = prvAddTaskToReadyList t s;
                 cur \<leftarrow> pxCurrentTCB s;
                 if prio s t \<ge> prio s cur then portYIELD_WITHIN_API s else Some s
               }
               else Some s
          else Some s)"

definition xTaskResumeFromISR :: "nat \<Rightarrow> kernel \<Rightarrow> (bool \<times> kernel) option" where
  "xTaskResumeFromISR t s =
     (if prvTaskIsTaskSuspended t s
      then if uxSchedulerSuspended s = 0
           then do {
             cur \<leftarrow> pxCurrentTCB s;
             let xYieldRequired = (prio s t \<ge> prio s cur);
             let s = (if xYieldRequired then s\<lparr>xYieldPending := True\<rparr> else s);
             s \<leftarrow> k_remove (xStateListItem t) s;
             Some (xYieldRequired, prvAddTaskToReadyList t s)
           }
           else Some (False, k_insert_end xPendingReadyList (xEventListItem t) s)
      else Some (False, s))"

subsection \<open>Deleting a task\<close>

definition prvDeleteTCB :: "nat \<Rightarrow> kernel \<Rightarrow> kernel option" where
  "prvDeleteTCB t s = do {
     h \<leftarrow> vPortFree (pxStack (tcbs s t)) (kheap s);
     h \<leftarrow> vPortFree t h;
     Some (s\<lparr>kheap := h\<rparr>)
   }"

definition vTaskDelete :: "nat option \<Rightarrow> kernel \<Rightarrow> kernel option" where
  "vTaskDelete xTaskToDelete s = do {
     t \<leftarrow> prvGetTCBFromHandle xTaskToDelete s;
     s \<leftarrow> unlink_task t s;
     let s = s\<lparr>uxTaskNumber := uxTaskNumber s + 1\<rparr>;
     let s = (if Some t = pxCurrentTCB s
              then (let s = k_insert_end xTasksWaitingTermination (xStateListItem t) s
                    in s\<lparr>uxDeletedTasksWaitingCleanUp := uxDeletedTasksWaitingCleanUp s + 1\<rparr>)
              else prvResetNextTaskUnblockTime (s\<lparr>uxCurrentNumberOfTasks := uxCurrentNumberOfTasks s - 1\<rparr>));
     s \<leftarrow> (if Some t \<noteq> pxCurrentTCB s then prvDeleteTCB t s else Some s);
     if xSchedulerRunning s \<and> Some t = pxCurrentTCB s then portYIELD_WITHIN_API s else Some s
   }"

text \<open>What the idle task does in each round: free the tasks that deleted themselves, then give way to
  other tasks of its priority.\<close>

primrec termination_loop :: "nat \<Rightarrow> kernel \<Rightarrow> kernel option" where
  "termination_loop 0 s = Some s"
| "termination_loop (Suc n) s = do {
     t \<leftarrow> listGET_OWNER_OF_HEAD_ENTRY xTasksWaitingTermination (kls s);
     s \<leftarrow> k_remove (xStateListItem t) s;
     let s = s\<lparr>uxCurrentNumberOfTasks := uxCurrentNumberOfTasks s - 1\<rparr>;
     let s = s\<lparr>uxDeletedTasksWaitingCleanUp := uxDeletedTasksWaitingCleanUp s - 1\<rparr>;
     s \<leftarrow> prvDeleteTCB t s;
     termination_loop n s
   }"

definition prvCheckTasksWaitingTermination :: "kernel \<Rightarrow> kernel option" where
  "prvCheckTasksWaitingTermination s = termination_loop (unat (uxDeletedTasksWaitingCleanUp s)) s"

definition prvIdleTask_round :: "kernel \<Rightarrow> kernel option" where
  "prvIdleTask_round s = do {
     s \<leftarrow> prvCheckTasksWaitingTermination s;
     if listCURRENT_LIST_LENGTH (pxReadyTasksLists 0) (kls s) > 1
     then portYIELD_WITHIN_API s else Some s
   }"

subsection \<open>Event lists\<close>

definition vTaskPlaceOnEventList :: "nat \<Rightarrow> TickType_t \<Rightarrow> kernel \<Rightarrow> kernel option" where
  "vTaskPlaceOnEventList pxEventList xTicksToWait s = do {
     cur \<leftarrow> pxCurrentTCB s;
     s \<leftarrow> k_insert pxEventList (xEventListItem cur) s;
     prvAddCurrentTaskToDelayedList xTicksToWait True s
   }"

definition vTaskPlaceOnUnorderedEventList :: "nat \<Rightarrow> TickType_t \<Rightarrow> TickType_t \<Rightarrow> kernel \<Rightarrow> kernel option" where
  "vTaskPlaceOnUnorderedEventList pxEventList v xTicksToWait s = do {
     cur \<leftarrow> pxCurrentTCB s;
     let s = k_set_value (xEventListItem cur) (v OR taskEVENT_LIST_ITEM_VALUE_IN_USE) s;
     let s = k_INSERT_END pxEventList (xEventListItem cur) s;
     prvAddCurrentTaskToDelayedList xTicksToWait True s
   }"

definition xTaskRemoveFromEventList :: "nat \<Rightarrow> kernel \<Rightarrow> (bool \<times> kernel) option" where
  "xTaskRemoveFromEventList pxEventList s = do {
     t \<leftarrow> listGET_OWNER_OF_HEAD_ENTRY pxEventList (kls s);
     s \<leftarrow> k_REMOVE (xEventListItem t) s;
     s \<leftarrow> (if uxSchedulerSuspended s = 0
          then do { s \<leftarrow> k_REMOVE (xStateListItem t) s; Some (prvAddTaskToReadyList t s) }
          else Some (k_INSERT_END xPendingReadyList (xEventListItem t) s));
     cur \<leftarrow> pxCurrentTCB s;
     Some (if prio s t > prio s cur then (True, s\<lparr>xYieldPending := True\<rparr>) else (False, s))
   }"

definition vTaskRemoveFromUnorderedEventList :: "nat \<Rightarrow> TickType_t \<Rightarrow> kernel \<Rightarrow> kernel option" where
  "vTaskRemoveFromUnorderedEventList i v s = do {
     let s = k_set_value i (v OR taskEVENT_LIST_ITEM_VALUE_IN_USE) s;
     let t = pvOwner (items (kls s) i);
     s \<leftarrow> k_REMOVE i s;
     s \<leftarrow> k_REMOVE (xStateListItem t) s;
     let s = prvAddTaskToReadyList t s;
     cur \<leftarrow> pxCurrentTCB s;
     Some (if prio s t > prio s cur then s\<lparr>xYieldPending := True\<rparr> else s)
   }"

definition uxTaskResetEventItemValue :: "kernel \<Rightarrow> (TickType_t \<times> kernel) option" where
  "uxTaskResetEventItemValue s = do {
     cur \<leftarrow> pxCurrentTCB s;
     let uxReturn = listGET_LIST_ITEM_VALUE (xEventListItem cur) (kls s);
     Some (uxReturn, k_set_value (xEventListItem cur) (of_nat configMAX_PRIORITIES - prio s cur) s)
   }"

subsection \<open>Time-outs\<close>

record TimeOut_t =
  xOverflowCount :: "32 word"
  xTimeOnEntering :: TickType_t

definition vTaskInternalSetTimeOutState :: "kernel \<Rightarrow> TimeOut_t" where
  "vTaskInternalSetTimeOutState s = \<lparr>xOverflowCount = xNumOfOverflows s, xTimeOnEntering = xTickCount s\<rparr>"

definition vTaskSetTimeOutState :: "kernel \<Rightarrow> TimeOut_t" where
  "vTaskSetTimeOutState s = \<lparr>xOverflowCount = xNumOfOverflows s, xTimeOnEntering = xTickCount s\<rparr>"

text \<open>The result holds the return value, \<^verbatim>\<open>*pxTimeOut\<close> and \<^verbatim>\<open>*pxTicksToWait\<close>.\<close>

definition xTaskCheckForTimeOut :: "TimeOut_t \<Rightarrow> TickType_t \<Rightarrow> kernel \<Rightarrow> bool \<times> TimeOut_t \<times> TickType_t" where
  "xTaskCheckForTimeOut pxTimeOut pxTicksToWait s =
     (let now = xTickCount s;
          xElapsedTime = now - xTimeOnEntering pxTimeOut
      in if pxTicksToWait = portMAX_DELAY then (False, pxTimeOut, pxTicksToWait)
         else if xNumOfOverflows s \<noteq> xOverflowCount pxTimeOut \<and> now \<ge> xTimeOnEntering pxTimeOut
         then (True, pxTimeOut, 0)
         else if xElapsedTime < pxTicksToWait
         then (False, vTaskInternalSetTimeOutState s, pxTicksToWait - xElapsedTime)
         else (True, pxTimeOut, 0))"

definition vTaskMissedYield :: "kernel \<Rightarrow> kernel" where
  "vTaskMissedYield s = s\<lparr>xYieldPending := True\<rparr>"

subsection \<open>Queries\<close>

definition xTaskGetTickCount :: "kernel \<Rightarrow> TickType_t" where
  "xTaskGetTickCount s = xTickCount s"

definition xTaskGetTickCountFromISR :: "kernel \<Rightarrow> TickType_t" where
  "xTaskGetTickCountFromISR s = xTickCount s"

definition uxTaskGetNumberOfTasks :: "kernel \<Rightarrow> UBaseType_t" where
  "uxTaskGetNumberOfTasks s = uxCurrentNumberOfTasks s"

definition pcTaskGetName :: "nat option \<Rightarrow> kernel \<Rightarrow> u8_t list option" where
  "pcTaskGetName h s = do { t \<leftarrow> prvGetTCBFromHandle h s; Some (pcTaskName (tcbs s t)) }"

definition xTaskGetCurrentTaskHandle :: "kernel \<Rightarrow> nat option" where
  "xTaskGetCurrentTaskHandle s = pxCurrentTCB s"

datatype scheduler_state = taskSCHEDULER_SUSPENDED | taskSCHEDULER_NOT_STARTED | taskSCHEDULER_RUNNING

definition xTaskGetSchedulerState :: "kernel \<Rightarrow> scheduler_state" where
  "xTaskGetSchedulerState s =
     (if \<not> xSchedulerRunning s then taskSCHEDULER_NOT_STARTED
      else if uxSchedulerSuspended s = 0 then taskSCHEDULER_RUNNING else taskSCHEDULER_SUSPENDED)"

text \<open>Thread-local storage: an index outside the array is ignored on a write and reads as a null pointer.\<close>

definition configNUM_THREAD_LOCAL_STORAGE_POINTERS :: nat where
  "configNUM_THREAD_LOCAL_STORAGE_POINTERS = 5"

definition vTaskSetThreadLocalStoragePointer :: "nat option \<Rightarrow> int \<Rightarrow> u32_t \<Rightarrow> kernel \<Rightarrow> kernel option" where
  "vTaskSetThreadLocalStoragePointer h xIndex v s =
     (if xIndex \<ge> 0 \<and> xIndex < int configNUM_THREAD_LOCAL_STORAGE_POINTERS
      then do {
        t \<leftarrow> prvGetTCBFromHandle h s;
        Some (upd_tcb t (pvThreadLocalStoragePointers_update (\<lambda>a. a[nat xIndex := v])) s)
      }
      else Some s)"

definition pvTaskGetThreadLocalStoragePointer :: "nat option \<Rightarrow> int \<Rightarrow> kernel \<Rightarrow> u32_t option" where
  "pvTaskGetThreadLocalStoragePointer h xIndex s =
     (if xIndex \<ge> 0 \<and> xIndex < int configNUM_THREAD_LOCAL_STORAGE_POINTERS
      then do {
        t \<leftarrow> prvGetTCBFromHandle h s;
        Some (pvThreadLocalStoragePointers (tcbs s t) ! nat xIndex)
      }
      else Some 0)"

end
