(* ===== verification/Kernel_Lists.thy ===== *)
theory Kernel_Lists
  imports FreeRTOS_List
begin

section \<open>The lists of the kernel taken together\<close>

text \<open>
  The kernel keeps many lists over one store, and an item is on at most one of them.
  \<open>lists_ok L c K\<close> says that the store \<open>K\<close> represents a set \<open>L\<close> of lists with contents \<open>c\<close>: each
  list is a ring and the container field of an item says on which list it is. The lemmas give the
  effect of every list operation on the contents, the containers, the item values and the owners;
  the scheduler proofs use nothing else of the representation.
\<close>

definition cont :: "list_store \<Rightarrow> nat \<Rightarrow> nat option" where
  "cont K i = pxContainer (items K i)"

definition owner :: "list_store \<Rightarrow> nat \<Rightarrow> nat" where
  "owner K i = pvOwner (items K i)"

definition lists_ok :: "nat set \<Rightarrow> (nat \<Rightarrow> nat list) \<Rightarrow> list_store \<Rightarrow> bool" where
  "lists_ok L c K \<longleftrightarrow> (\<forall>l\<in>L. ring K l (c l)) \<and> (\<forall>i l. cont K i = Some l \<longrightarrow> l \<in> L \<and> i \<in> set (c l))"

named_theorems lists_simps

lemma ring_cont: "ring K l xs \<Longrightarrow> i \<in> set xs \<Longrightarrow> cont K i = Some l"
  by (simp add: ring_def cont_def)

lemma lists_okD:
  assumes "lists_ok L c K"
  shows "l \<in> L \<Longrightarrow> ring K l (c l)" "cont K i = Some l \<longleftrightarrow> l \<in> L \<and> i \<in> set (c l)"
    "cont K i = None \<longleftrightarrow> (\<forall>l\<in>L. i \<notin> set (c l))"
proof -
  show r: "l \<in> L \<Longrightarrow> ring K l (c l)" for l using assms by (simp add: lists_ok_def)
  show c: "cont K i = Some l \<longleftrightarrow> l \<in> L \<and> i \<in> set (c l)" for l
    using assms ring_cont[OF r] unfolding lists_ok_def by blast
  show "cont K i = None \<longleftrightarrow> (\<forall>l\<in>L. i \<notin> set (c l))"
    using c by (cases "cont K i") auto
qed

lemma lists_ok_distinct: "lists_ok L c K \<Longrightarrow> l \<in> L \<Longrightarrow> distinct (c l)"
  by (auto dest!: lists_okD(1)[where l = l] simp: ring_def)

lemma lists_ok_cong: "lists_ok L c K \<Longrightarrow> (\<And>l. l \<in> L \<Longrightarrow> c' l = c l) \<Longrightarrow> lists_ok L c' K"
  by (auto simp: lists_ok_def)

lemma lists_ok_index: "lists_ok L c K \<Longrightarrow> l \<in> L \<Longrightarrow> set (order K l (c l)) = set (c l)"
  using set_order(1) lists_okD(1) by blast

subsection \<open>Reads\<close>

lemma lists_empty: "lists_ok L c K \<Longrightarrow> l \<in> L \<Longrightarrow> listLIST_IS_EMPTY l K \<longleftrightarrow> c l = []"
  by (rule ring_empty_iff) (rule lists_okD(1))

lemma lists_length: "lists_ok L c K \<Longrightarrow> l \<in> L \<Longrightarrow> listCURRENT_LIST_LENGTH l K = of_nat (length (c l))"
  by (drule (1) lists_okD(1)) (simp add: ring_def listCURRENT_LIST_LENGTH_def)

lemma lists_short: "lists_ok L c K \<Longrightarrow> l \<in> L \<Longrightarrow> length (c l) < 2 ^ 32"
  by (drule (1) lists_okD(1)) (simp add: ring_def)

lemma lists_head:
  assumes "lists_ok L c K" "l \<in> L" "c l = x # xs"
  shows "listGET_OWNER_OF_HEAD_ENTRY l K = Some (owner K x)"
    "listGET_ITEM_VALUE_OF_HEAD_ENTRY l K = val K x"
proof -
  have "get_next K (ListEnd l) = Item x"
    using ring_neighbours(1)[of K l "[]" "c l"] lists_okD(1)[OF assms(1,2)] assms(3) by simp
  then show "listGET_OWNER_OF_HEAD_ENTRY l K = Some (owner K x)"
    "listGET_ITEM_VALUE_OF_HEAD_ENTRY l K = val K x"
    by (simp_all add: listGET_OWNER_OF_HEAD_ENTRY_def listGET_ITEM_VALUE_OF_HEAD_ENTRY_def owner_def)
qed

lemma lists_value: "listGET_LIST_ITEM_VALUE i K = val K i"
  by (simp add: listGET_LIST_ITEM_VALUE_def get_value.simps)

lemma lists_container: "listLIST_ITEM_CONTAINER i K = cont K i" "listIS_CONTAINED_WITHIN l i K \<longleftrightarrow> cont K i = Some l"
  by (simp_all add: listLIST_ITEM_CONTAINER_def listIS_CONTAINED_WITHIN_def cont_def)

lemmas [lists_simps] = lists_empty lists_length lists_head lists_value lists_container

subsection \<open>Writes\<close>

text \<open>What a list operation keeps: the item values and the owners.\<close>

definition same_data :: "list_store \<Rightarrow> list_store \<Rightarrow> bool" where
  "same_data K K' \<longleftrightarrow> (\<forall>i. val K' i = val K i) \<and> (\<forall>i. owner K' i = owner K i)"

lemma same_dataD: "same_data K K' \<Longrightarrow> val K' i = val K i" "same_data K K' \<Longrightarrow> owner K' i = owner K i"
  by (auto simp: same_data_def)

lemma owner_get_owner: "get_owner K (Item i) = Some (owner K i)"
  by (simp add: owner_def)

lemma inserted_data: "inserted l a b i K K' \<Longrightarrow> same_data K K'"
  by (simp add: inserted_def same_data_def) (metis option.inject owner_get_owner)

lemma removed_data: "removed l i K K' \<Longrightarrow> same_data K K'"
  by (simp add: removed_def same_data_def) (metis option.inject owner_get_owner)

lemma inserted_cont: "inserted l a b i K K' \<Longrightarrow> cont K' = (cont K)(i := Some l)"
  by (auto simp: inserted_def cont_def fun_eq_iff)

lemma inserted_index: "inserted l a b i K K' \<Longrightarrow> pxIndex (lists K' k) = pxIndex (lists K k)"
  by (simp add: inserted_def)

lemma removed_cont: "removed l i K K' \<Longrightarrow> cont K' = (cont K)(i := None)"
  by (auto simp: removed_def cont_def fun_eq_iff)

lemma inserted_lists_ok:
  assumes ok: "lists_ok L c K" and l: "l \<in> L" and nc: "cont K i = None" and len: "length (c l) < 2 ^ 32 - 1"
    and c: "c l = us @ vs"
    and ins: "inserted l (last (ListEnd l # map Item us)) (hd (map Item vs @ [ListEnd l])) i K K'"
  shows "lists_ok L (c(l := us @ i # vs)) K'"
proof -
  have fresh: "i \<notin> set (c k)" if "k \<in> L" for k using nc lists_okD(3)[OF ok] that by blast
  have r: "ring K l (us @ vs)" using lists_okD(1)[OF ok l] c by simp
  have "ring K' k ((c(l := us @ i # vs)) k)" if "k \<in> L" for k
  proof (cases "k = l")
    case True
    then show ?thesis using inserted_ring[OF r _ _ ins] fresh[OF l] len c by simp
  next
    case False
    then show ?thesis
      using inserted_other_ring[OF r lists_okD(1)[OF ok that] False fresh[OF that] ins] by simp
  qed
  moreover have "k \<in> L \<and> j \<in> set ((c(l := us @ i # vs)) k)" if "cont K' j = Some k" for j k
    using that l c lists_okD(2)[OF ok, of j k] unfolding inserted_cont[OF ins]
    by (auto split: if_splits)
  ultimately show ?thesis unfolding lists_ok_def by blast
qed

lemma insert_end_ok:
  assumes ok: "lists_ok L c K" and l: "l \<in> L" and nc: "cont K i = None" and len: "length (c l) < 2 ^ 32 - 1"
  obtains zs where "lists_ok L (c(l := zs)) (vListInsertEnd l i K)" "set zs = insert i (set (c l))"
    "same_data K (vListInsertEnd l i K)" "cont (vListInsertEnd l i K) = (cont K)(i := Some l)"
    "\<And>k. pxIndex (lists (vListInsertEnd l i K) k) = pxIndex (lists K k)"
proof -
  have "i \<notin> set (c l)" using nc lists_okD(3)[OF ok] l by blast
  then obtain us vs where uv: "c l = us @ vs"
      and ins: "inserted l (last (ListEnd l # map Item us)) (hd (map Item vs @ [ListEnd l])) i K (vListInsertEnd l i K)"
    using vListInsertEnd_spec[OF lists_okD(1)[OF ok l]] by metis
  show thesis
  proof (rule that)
    show "lists_ok L (c(l := us @ i # vs)) (vListInsertEnd l i K)"
      by (rule inserted_lists_ok[OF ok l nc len uv ins])
    show "set (us @ i # vs) = insert i (set (c l))" using uv by simp
  qed (rule inserted_data[OF ins] inserted_cont[OF ins] inserted_index[OF ins])+
qed

lemma insert_sorted_ok:
  assumes ok: "lists_ok L c K" and l: "l \<in> L" and nc: "cont K i = None" and len: "length (c l) < 2 ^ 32 - 1"
  obtains K' where "vListInsert l i K = Some K'" "lists_ok L (c(l := insort_after K i (c l))) K'"
    "same_data K K'" "cont K' = (cont K)(i := Some l)" "\<And>k. pxIndex (lists K' k) = pxIndex (lists K k)"
proof -
  have "i \<notin> set (c l)" using nc lists_okD(3)[OF ok] l by blast
  then obtain K' us vs where uv: "vListInsert l i K = Some K'" "c l = us @ vs" "insort_after K i (c l) = us @ i # vs"
      and ins: "inserted l (last (ListEnd l # map Item us)) (hd (map Item vs @ [ListEnd l])) i K K'"
    using vListInsert_spec[OF lists_okD(1)[OF ok l] _ len] by metis
  show thesis
  proof (rule that)
    show "lists_ok L (c(l := insort_after K i (c l))) K'"
      unfolding uv(3) by (rule inserted_lists_ok[OF ok l nc len uv(2) ins])
  qed (rule uv(1) inserted_data[OF ins] inserted_cont[OF ins] inserted_index[OF ins])+
qed

lemma remove_ok:
  assumes ok: "lists_ok L c K" and i: "cont K i = Some l"
  obtains K' where "uxListRemove i K = Some (of_nat (length (c l) - 1), K')"
    "listREMOVE_ITEM i K = Some K'" "lists_ok L (c(l := remove1 i (c l))) K'"
    "same_data K K'" "cont K' = (cont K)(i := None)"
proof -
  have l: "l \<in> L" "i \<in> set (c l)" using lists_okD(2)[OF ok] i by blast+
  obtain K' us vs where uv: "uxListRemove i K = Some (of_nat (length (c l) - 1), K')" "c l = us @ i # vs"
      "remove1 i (c l) = us @ vs" and rem: "removed l i K K'"
    by (rule uxListRemove_spec[OF lists_okD(1)[OF ok l(1)] l(2)])
  have r: "ring K l (us @ i # vs)" using lists_okD(1)[OF ok l(1)] uv(2) by simp
  have "ring K' k ((c(l := remove1 i (c l))) k)" if "k \<in> L" for k
    using removed_ring[OF r rem] removed_other_ring[OF r lists_okD(1)[OF ok that] _ rem] uv(3) by simp
  moreover have "k \<in> L \<and> j \<in> set ((c(l := remove1 i (c l))) k)" if "cont K' j = Some k" for j k
    using that lists_okD(2)[OF ok, of j k] unfolding removed_cont[OF rem]
    by (auto split: if_splits)
  ultimately have "lists_ok L (c(l := remove1 i (c l))) K'" unfolding lists_ok_def by blast
  with uv(1) removed_data[OF rem] removed_cont[OF rem] show thesis
    by (intro that) (auto simp: listREMOVE_ITEM_eq)
qed

lemma set_value_ok:
  assumes ok: "lists_ok L c K"
  shows "lists_ok L c (listSET_LIST_ITEM_VALUE i v K)"
    "val (listSET_LIST_ITEM_VALUE i v K) j = (if j = i then v else val K j)"
    "owner (listSET_LIST_ITEM_VALUE i v K) = owner K"
    "cont (listSET_LIST_ITEM_VALUE i v K) = cont K"
proof -
  let ?K = "listSET_LIST_ITEM_VALUE i v K"
  have links: "get_next ?K p = get_next K p" "get_prev ?K p = get_prev K p" for p
    by (cases p; simp add: listSET_LIST_ITEM_VALUE_def upd_item_def ptr_simps)+
  show c: "cont ?K = cont K" "owner ?K = owner K"
    by (auto simp: fun_eq_iff cont_def owner_def listSET_LIST_ITEM_VALUE_def upd_item_def)
  show "val ?K j = (if j = i then v else val K j)"
    by (simp add: listSET_LIST_ITEM_VALUE_def upd_item_def ptr_simps)
  have "ring ?K l xs = ring K l xs" for l xs
    by (rule ring_cong) (use c links in
      \<open>simp_all add: cont_def fun_eq_iff listSET_LIST_ITEM_VALUE_def upd_item_def ptr_simps\<close>)
  then show "lists_ok L c ?K" using ok by (simp add: lists_ok_def c)
qed

lemma set_owner_ok:
  assumes ok: "lists_ok L c K"
  shows "lists_ok L c (listSET_LIST_ITEM_OWNER i v K)"
    "val (listSET_LIST_ITEM_OWNER i v K) = val K"
    "owner (listSET_LIST_ITEM_OWNER i v K) = (owner K)(i := v)"
    "cont (listSET_LIST_ITEM_OWNER i v K) = cont K"
proof -
  let ?K = "listSET_LIST_ITEM_OWNER i v K"
  have links: "get_next ?K p = get_next K p" "get_prev ?K p = get_prev K p" for p
    by (cases p; simp add: listSET_LIST_ITEM_OWNER_def upd_item_def ptr_simps)+
  show c: "cont ?K = cont K" "owner ?K = (owner K)(i := v)"
    by (auto simp: fun_eq_iff cont_def owner_def listSET_LIST_ITEM_OWNER_def upd_item_def)
  show "val ?K = val K"
    by (simp add: fun_eq_iff listSET_LIST_ITEM_OWNER_def upd_item_def ptr_simps)
  have "ring ?K l xs = ring K l xs" for l xs
    by (rule ring_cong) (use c links in
      \<open>simp_all add: cont_def fun_eq_iff listSET_LIST_ITEM_OWNER_def upd_item_def ptr_simps\<close>)
  then show "lists_ok L c ?K" using ok by (simp add: lists_ok_def c)
qed

text \<open>Taking the next entry of a list that is not empty moves only the index of that list.\<close>

lemma next_entry_ok:
  assumes ok: "lists_ok L c K" and l: "l \<in> L" and o: "order K l (c l) = y # ys"
  obtains K' where "listGET_OWNER_OF_NEXT_ENTRY l K = (Some (owner K y), K')" "lists_ok L c K'"
    "same_data K K'" "cont K' = cont K" "order K' l (c l) = ys @ [y]" "y \<in> set (c l)"
    "\<forall>k. k \<noteq> l \<longrightarrow> pxIndex (lists K' k) = pxIndex (lists K k)"
proof -
  let ?K = "set_index l (Item y) K"
  note r = lists_okD(1)[OF ok l]
  have y: "y \<in> set (c l)" using set_order(1)[OF r] o by auto
  have "ring ?K k (c k)" if "k \<in> L" for k
    using set_index_ring[OF r y] set_index_other_ring[OF lists_okD(1)[OF ok that]] by (cases "k = l") auto
  moreover have c: "cont ?K = cont K"
    by (auto simp: cont_def fun_eq_iff store_simps)
  ultimately have "lists_ok L c ?K" using ok by (simp add: lists_ok_def)
  moreover have "same_data K ?K"
    by (auto simp: same_data_def owner_def store_simps) (simp add: set_index_def upd_list_def)
  ultimately show thesis
    using next_entry_index[OF r o] order_set_index[OF r o] c y
    by (intro that[of ?K]) (auto simp: owner_def store_simps)
qed

lemma order_nonempty: "lists_ok L c K \<Longrightarrow> l \<in> L \<Longrightarrow> c l \<noteq> [] \<Longrightarrow> \<exists>y ys. order K l (c l) = y # ys"
  using lists_ok_index[of L c K l] by (cases "order K l (c l)") auto

text \<open>Initialising a list nobody is on.\<close>

lemma initialise_ok:
  assumes ok: "lists_ok L c K" and "l \<notin> L"
  shows "lists_ok (insert l L) (c(l := [])) (vListInitialise l K)"
    "same_data K (vListInitialise l K)" "cont (vListInitialise l K) = cont K"
proof -
  let ?K = "vListInitialise l K"
  show c: "cont ?K = cont K"
    by (auto simp: cont_def fun_eq_iff vListInitialise_def Let_def ptr_simps upd_list_def set_index_def)
  show "same_data K ?K"
    by (auto simp: same_data_def owner_def vListInitialise_def Let_def ptr_simps upd_list_def set_index_def)
  have other: "ring ?K k (c k)" if k: "k \<in> L" for k
  proof -
    have "k \<noteq> l" using assms(2) k by blast
    then have "ring ?K k (c k) = ring K k (c k)"
      by (intro ring_cong) (auto simp: vListInitialise_def Let_def ptr_simps upd_list_def set_index_def)
    then show ?thesis using lists_okD(1)[OF ok k] by simp
  qed
  show "lists_ok (insert l L) (c(l := [])) ?K"
    unfolding lists_ok_def
  proof (intro conjI ballI allI impI)
    fix k assume k: "k \<in> insert l L"
    show "ring ?K k ((c(l := [])) k)"
      using k other vListInitialise_ring[of l K] by (cases "k = l") auto
  next
    fix i k assume i: "cont ?K i = Some k"
    then have "k \<in> L \<and> i \<in> set (c k)" using lists_okD(2)[OF ok] c by simp
    then show "k \<in> insert l L" "i \<in> set ((c(l := [])) k)" using assms(2) by auto
  qed
qed

end
