(* ===== verification/Tasks_Inv.thy ===== *)
theory Tasks_Inv
  imports Tasks Kernel_Lists
begin

section \<open>The invariant of the task lists\<close>

text \<open>
  \<open>base_ok L T X c s\<close>: the kernel's lists \<open>L\<close> have the contents \<open>c\<close>; every task of \<open>T\<close> has its state
  item on exactly one of the state lists, except for the tasks in \<open>X\<close>, which an operation has just
  taken off; event items are on event lists only; a task on a ready list is on the list of its
  priority, which is not above \<^verbatim>\<open>uxTopReadyPriority\<close>; the delayed lists are sorted by wake time. One
  lemma per list operation of the scheduler says that it keeps this invariant, and how it changes
  the contents.
\<close>

abbreviation "St \<equiv> xStateListItem"
abbreviation "Ev \<equiv> xEventListItem"

lemma item_eq [simp]:
  "St t = St u \<longleftrightarrow> t = u" "Ev t = Ev u \<longleftrightarrow> t = u" "St t \<noteq> Ev u" "Ev u \<noteq> St t"
  by (auto simp: xStateListItem_def xEventListItem_def) presburger+

definition state_list :: "nat \<Rightarrow> bool" where
  "state_list l \<longleftrightarrow> l < 10 \<and> l \<noteq> 7"

definition tasks_ok :: "nat set \<Rightarrow> kernel \<Rightarrow> bool" where
  "tasks_ok T s \<longleftrightarrow> finite T \<and> 2 * card T < 2 ^ 32 - 1 \<and>
     (\<forall>t\<in>T. owner (kls s) (St t) = t \<and> owner (kls s) (Ev t) = t \<and> unat (prio s t) < 5)"

definition placed_ok :: "nat set \<Rightarrow> nat set \<Rightarrow> (nat \<Rightarrow> nat option) \<Rightarrow> bool" where
  "placed_ok T X co \<longleftrightarrow>
     (\<forall>i l. co i = Some l \<longrightarrow> (\<exists>t\<in>T. i = (if state_list l then St t else Ev t))) \<and>
     (\<forall>t\<in>T. co (St t) = None \<longleftrightarrow> t \<in> X)"

definition ready_ok :: "nat set \<Rightarrow> kernel \<Rightarrow> bool" where
  "ready_ok T s \<longleftrightarrow> unat (uxTopReadyPriority s) < 5 \<and>
     (\<forall>t\<in>T. \<forall>p<5. cont (kls s) (St t) = Some p \<longrightarrow>
        unat (prio s t) = p \<and> p \<le> unat (uxTopReadyPriority s))"

definition delayed_ok :: "(nat \<Rightarrow> nat list) \<Rightarrow> kernel \<Rightarrow> bool" where
  "delayed_ok c s \<longleftrightarrow>
     (pxDelayedTaskList s = 5 \<and> pxOverflowDelayedTaskList s = 6 \<or>
      pxDelayedTaskList s = 6 \<and> pxOverflowDelayedTaskList s = 5) \<and>
     sorted (map (val (kls s)) (c 5)) \<and> sorted (map (val (kls s)) (c 6))"

definition base_ok :: "nat set \<Rightarrow> nat set \<Rightarrow> nat set \<Rightarrow> (nat \<Rightarrow> nat list) \<Rightarrow> kernel \<Rightarrow> bool" where
  "base_ok L T X c s \<longleftrightarrow> lists_ok L c (kls s) \<and> {..<10} \<subseteq> L \<and> tasks_ok T s \<and>
     placed_ok T X (cont (kls s)) \<and> ready_ok T s \<and> delayed_ok c s"

lemma base_okD:
  assumes "base_ok L T X c s"
  shows "lists_ok L c (kls s)" "l < 10 \<Longrightarrow> l \<in> L" "tasks_ok T s" "placed_ok T X (cont (kls s))"
    "ready_ok T s" "delayed_ok c s"
  using assms by (auto simp: base_ok_def)

lemma base_item:
  assumes "base_ok L T X c s" "cont (kls s) i = Some l"
  obtains t where "t \<in> T" "i = (if state_list l then St t else Ev t)"
  using base_okD(4)[OF assms(1)] assms(2) that unfolding placed_ok_def by blast

lemma base_state_item:
  assumes "base_ok L T X c s" "cont (kls s) i = Some l" "state_list l"
  obtains t where "t \<in> T" "i = St t"
  by (rule base_item[OF assms(1,2)]) (use assms(3) that in simp)

lemma base_event_item:
  assumes "base_ok L T X c s" "cont (kls s) i = Some l" "\<not> state_list l"
  obtains t where "t \<in> T" "i = Ev t"
  by (rule base_item[OF assms(1,2)]) (use assms(3) that in simp)

lemma base_ok_other [simp]:
  "base_ok L T X c (s\<lparr>kheap := a1\<rparr>) = base_ok L T X c s"
  "base_ok L T X c (s\<lparr>kstack := a2\<rparr>) = base_ok L T X c s"
  "base_ok L T X c (s\<lparr>pxCurrentTCB := a3\<rparr>) = base_ok L T X c s"
  "base_ok L T X c (s\<lparr>uxDeletedTasksWaitingCleanUp := a4\<rparr>) = base_ok L T X c s"
  "base_ok L T X c (s\<lparr>uxCurrentNumberOfTasks := a5\<rparr>) = base_ok L T X c s"
  "base_ok L T X c (s\<lparr>xTickCount := a6\<rparr>) = base_ok L T X c s"
  "base_ok L T X c (s\<lparr>xSchedulerRunning := a7\<rparr>) = base_ok L T X c s"
  "base_ok L T X c (s\<lparr>xPendedTicks := a8\<rparr>) = base_ok L T X c s"
  "base_ok L T X c (s\<lparr>xYieldPending := a9\<rparr>) = base_ok L T X c s"
  "base_ok L T X c (s\<lparr>xNumOfOverflows := b1\<rparr>) = base_ok L T X c s"
  "base_ok L T X c (s\<lparr>uxTaskNumber := b2\<rparr>) = base_ok L T X c s"
  "base_ok L T X c (s\<lparr>xNextTaskUnblockTime := b3\<rparr>) = base_ok L T X c s"
  "base_ok L T X c (s\<lparr>xIdleTaskHandle := b4\<rparr>) = base_ok L T X c s"
  "base_ok L T X c (s\<lparr>uxSchedulerSuspended := b5\<rparr>) = base_ok L T X c s"
  by (simp_all add: base_ok_def tasks_ok_def ready_ok_def delayed_ok_def)

subsection \<open>Lengths\<close>

lemma base_length:
  assumes ok: "base_ok L T X c s" and l: "l \<in> L"
  shows "length (c l) < 2 ^ 32 - 1"
proof -
  have T: "finite T" "2 * card T < 2 ^ 32 - 1" using base_okD(3)[OF ok] by (auto simp: tasks_ok_def)
  have "set (c l) \<subseteq> St ` T \<union> Ev ` T"
    using base_okD(4)[OF ok] lists_okD(2)[OF base_okD(1)[OF ok], of _ l] l
    by (force simp: placed_ok_def split: if_splits)
  then have "card (set (c l)) \<le> card (St ` T \<union> Ev ` T)" using T(1) by (intro card_mono) auto
  also have "\<dots> \<le> card T + card T"
    using card_Un_le[of "St ` T" "Ev ` T"] card_image_le[OF T(1), of St] card_image_le[OF T(1), of Ev] by linarith
  finally show ?thesis
    using T(2) distinct_card[OF lists_ok_distinct[OF base_okD(1)[OF ok] l]] by simp
qed

lemma sorted_map_remove1: "sorted (map f xs) \<Longrightarrow> sorted (map f (remove1 x xs))"
proof (induction xs)
  case (Cons a xs)
  have "set (remove1 x xs) \<subseteq> set xs" by (rule set_remove1_subset)
  with Cons show ?case by auto
qed simp

lemma delayed_sorted:
  assumes "delayed_ok c s" "same_data (kls s) K'"
    "\<And>l. l \<in> {5, 6} \<Longrightarrow> sorted (map (val (kls s)) (c l)) \<Longrightarrow> sorted (map (val (kls s)) (c' l))"
  shows "delayed_ok c' (s\<lparr>kls := K'\<rparr>)"
proof -
  have m: "map (val K') xs = map (val (kls s)) xs" for xs using same_dataD(1)[OF assms(2)] by simp
  have "sorted (map (val K') (c' l))" if "l \<in> {5, 6}" for l
    unfolding m using assms(1) assms(3)[OF that] that by (auto simp: delayed_ok_def)
  from this[of 5] this[of 6] assms(1) show ?thesis by (simp add: delayed_ok_def)
qed

lemma delayed_ok_top:
  "delayed_ok c (s\<lparr>kls := K, uxTopReadyPriority := q\<rparr>) = delayed_ok c (s\<lparr>kls := K\<rparr>)"
  "delayed_ok c (s\<lparr>kls := K, pxCurrentTCB := t, uxTopReadyPriority := q\<rparr>) = delayed_ok c (s\<lparr>kls := K\<rparr>)"
  by (simp_all add: delayed_ok_def)

subsection \<open>Taking items off\<close>

lemma base_remove_state:
  assumes ok: "base_ok L T {} c s" and t: "t \<in> T"
  obtains l K' where "cont (kls s) (St t) = Some l" "state_list l"
    "k_remove (St t) s = Some (s\<lparr>kls := K'\<rparr>)" "k_REMOVE (St t) s = Some (s\<lparr>kls := K'\<rparr>)"
    "base_ok L T {t} (c(l := remove1 (St t) (c l))) (s\<lparr>kls := K'\<rparr>)"
    "same_data (kls s) K'" "cont K' = (cont (kls s))(St t := None)"
proof -
  obtain l where l: "cont (kls s) (St t) = Some l" using base_okD(4)[OF ok] t by (auto simp: placed_ok_def)
  then have sl: "state_list l" using base_okD(4)[OF ok] unfolding placed_ok_def by (metis item_eq(4))
  obtain K' where K': "uxListRemove (St t) (kls s) = Some (of_nat (length (c l) - 1), K')"
      "listREMOVE_ITEM (St t) (kls s) = Some K'" "lists_ok L (c(l := remove1 (St t) (c l))) K'"
      "same_data (kls s) K'" "cont K' = (cont (kls s))(St t := None)"
    by (rule remove_ok[OF base_okD(1)[OF ok] l])
  have "tasks_ok T (s\<lparr>kls := K'\<rparr>)"
    using base_okD(3)[OF ok] same_dataD(2)[OF K'(4)] by (simp add: tasks_ok_def)
  moreover have "placed_ok T {t} (cont K')"
    using base_okD(4)[OF ok] t unfolding placed_ok_def K'(5) by auto
  moreover have "ready_ok T (s\<lparr>kls := K'\<rparr>)"
    using base_okD(5)[OF ok] unfolding ready_ok_def by (auto simp: K'(5))
  moreover have "delayed_ok (c(l := remove1 (St t) (c l))) (s\<lparr>kls := K'\<rparr>)"
    by (rule delayed_sorted[OF base_okD(6)[OF ok] K'(4)]) (auto intro: sorted_map_remove1)
  ultimately have "base_ok L T {t} (c(l := remove1 (St t) (c l))) (s\<lparr>kls := K'\<rparr>)"
    using K'(3) ok by (simp add: base_ok_def)
  with l sl K' show thesis by (intro that) (auto simp: k_remove_def k_REMOVE_def)
qed

lemma base_remove_event:
  assumes ok: "base_ok L T X c s" and l: "cont (kls s) (Ev t) = Some l"
  obtains K' where "\<not> state_list l" "t \<in> T" "l \<in> L"
    "k_remove (Ev t) s = Some (s\<lparr>kls := K'\<rparr>)" "k_REMOVE (Ev t) s = Some (s\<lparr>kls := K'\<rparr>)"
    "base_ok L T X (c(l := remove1 (Ev t) (c l))) (s\<lparr>kls := K'\<rparr>)"
    "same_data (kls s) K'" "cont K' = (cont (kls s))(Ev t := None)"
proof -
  have "\<exists>u\<in>T. Ev t = (if state_list l then St u else Ev u)"
    using base_okD(4)[OF ok] l unfolding placed_ok_def by blast
  then have sl: "\<not> state_list l" "t \<in> T" by (auto split: if_splits)
  obtain K' where K': "uxListRemove (Ev t) (kls s) = Some (of_nat (length (c l) - 1), K')"
      "listREMOVE_ITEM (Ev t) (kls s) = Some K'" "lists_ok L (c(l := remove1 (Ev t) (c l))) K'"
      "same_data (kls s) K'" "cont K' = (cont (kls s))(Ev t := None)"
    by (rule remove_ok[OF base_okD(1)[OF ok] l])
  have lL: "l \<in> L" using lists_okD(2)[OF base_okD(1)[OF ok]] l by blast
  have "tasks_ok T (s\<lparr>kls := K'\<rparr>)"
    using base_okD(3)[OF ok] same_dataD(2)[OF K'(4)] by (simp add: tasks_ok_def)
  moreover have "placed_ok T X (cont K')"
    using base_okD(4)[OF ok] unfolding placed_ok_def K'(5) by auto
  moreover have "ready_ok T (s\<lparr>kls := K'\<rparr>)"
    using base_okD(5)[OF ok] unfolding ready_ok_def by (auto simp: K'(5))
  moreover have "delayed_ok (c(l := remove1 (Ev t) (c l))) (s\<lparr>kls := K'\<rparr>)"
    by (rule delayed_sorted[OF base_okD(6)[OF ok] K'(4)]) (auto intro: sorted_map_remove1)
  ultimately have "base_ok L T X (c(l := remove1 (Ev t) (c l))) (s\<lparr>kls := K'\<rparr>)"
    using K'(3) ok by (simp add: base_ok_def)
  with lL sl K' show thesis by (intro that) (auto simp: k_remove_def k_REMOVE_def)
qed

subsection \<open>Putting items on\<close>

lemma base_off: "base_ok L T X c s \<Longrightarrow> t \<in> T \<Longrightarrow> t \<in> X \<Longrightarrow> cont (kls s) (St t) = None"
  by (drule base_okD(4)) (auto simp: placed_ok_def)

lemma base_add_ready:
  assumes ok: "base_ok L T {t} c s" and t: "t \<in> T"
  obtains K' top zs where
    "prvAddTaskToReadyList t s = s\<lparr>kls := K', uxTopReadyPriority := top\<rparr>"
    "base_ok L T {} (c(unat (prio s t) := zs)) (s\<lparr>kls := K', uxTopReadyPriority := top\<rparr>)"
    "set zs = insert (St t) (set (c (unat (prio s t))))"
    "same_data (kls s) K'" "cont K' = (cont (kls s))(St t := Some (unat (prio s t)))"
    "unat top = max (unat (uxTopReadyPriority s)) (unat (prio s t))"
proof -
  let ?p = "unat (prio s t)" and ?K = "vListInsertEnd (unat (prio s t)) (St t) (kls s)"
  define top where "top = (if prio s t > uxTopReadyPriority s then prio s t else uxTopReadyPriority s)"
  have p: "?p < 5" "?p \<in> L" using base_okD(2)[OF ok, of ?p] base_okD(3)[OF ok] t by (auto simp: tasks_ok_def)
  obtain zs where z: "lists_ok L (c(?p := zs)) ?K" "set zs = insert (St t) (set (c ?p))"
      "same_data (kls s) ?K" "cont ?K = (cont (kls s))(St t := Some ?p)"
    by (rule insert_end_ok[OF base_okD(1)[OF ok] p(2) base_off[OF ok t singletonI] base_length[OF ok p(2)]])
  have top: "unat top = max (unat (uxTopReadyPriority s)) ?p"
    unfolding top_def word_less_nat_alt by simp
  have e: "prvAddTaskToReadyList t s = s\<lparr>kls := ?K, uxTopReadyPriority := top\<rparr>"
    by (simp add: prvAddTaskToReadyList_def taskRECORD_READY_PRIORITY_def k_INSERT_END_def listINSERT_END_eq
        pxReadyTasksLists_def top_def)
  have "tasks_ok T (s\<lparr>kls := ?K, uxTopReadyPriority := top\<rparr>)"
    using base_okD(3)[OF ok] same_dataD(2)[OF z(3)] by (simp add: tasks_ok_def)
  moreover have "placed_ok T {} (cont ?K)"
    using base_okD(4)[OF ok] t p(1) unfolding placed_ok_def z(4) by (auto simp: state_list_def)
  moreover have "ready_ok T (s\<lparr>kls := ?K, uxTopReadyPriority := top\<rparr>)"
    using base_okD(5)[OF ok] p(1) top unfolding ready_ok_def by (auto simp: z(4))
  moreover have "delayed_ok (c(?p := zs)) (s\<lparr>kls := ?K, uxTopReadyPriority := top\<rparr>)"
    unfolding delayed_ok_top by (rule delayed_sorted[OF base_okD(6)[OF ok] z(3)]) (use p(1) in auto)
  ultimately have "base_ok L T {} (c(?p := zs)) (s\<lparr>kls := ?K, uxTopReadyPriority := top\<rparr>)"
    using z(1) ok by (simp add: base_ok_def)
  then show thesis using e z(2-4) top by (intro that)
qed

lemma base_add_ready_kls:
  assumes ok: "base_ok L T {t} c (s\<lparr>kls := K\<rparr>)" and t: "t \<in> T"
  obtains K' top zs where
    "prvAddTaskToReadyList t (s\<lparr>kls := K\<rparr>) = s\<lparr>kls := K', uxTopReadyPriority := top\<rparr>"
    "base_ok L T {} (c(unat (prio s t) := zs)) (s\<lparr>kls := K', uxTopReadyPriority := top\<rparr>)"
    "set zs = insert (St t) (set (c (unat (prio s t))))"
    "same_data K K'" "cont K' = (cont K)(St t := Some (unat (prio s t)))"
    "unat top = max (unat (uxTopReadyPriority s)) (unat (prio s t))"
proof -
  let ?s = "s\<lparr>kls := K\<rparr>"
  obtain K' top zs where "prvAddTaskToReadyList t ?s = ?s\<lparr>kls := K', uxTopReadyPriority := top\<rparr>"
    "base_ok L T {} (c(unat (prio ?s t) := zs)) (?s\<lparr>kls := K', uxTopReadyPriority := top\<rparr>)"
    "set zs = insert (St t) (set (c (unat (prio ?s t))))"
    "same_data (kls ?s) K'" "cont K' = (cont (kls ?s))(St t := Some (unat (prio ?s t)))"
    "unat top = max (unat (uxTopReadyPriority ?s)) (unat (prio ?s t))"
    by (rule base_add_ready[OF ok t])
  then show thesis by (intro that[of top K' zs]) simp_all
qed

lemma base_insert_end_state:
  assumes ok: "base_ok L T {t} c s" and t: "t \<in> T" and l: "l = 8 \<or> l = 9"
  obtains zs where "base_ok L T {} (c(l := zs)) (k_insert_end l (St t) s)"
    "set zs = insert (St t) (set (c l))" "k_INSERT_END l (St t) s = k_insert_end l (St t) s"
    "k_insert_end l (St t) s = s\<lparr>kls := kls (k_insert_end l (St t) s)\<rparr>"
    "same_data (kls s) (kls (k_insert_end l (St t) s))"
    "cont (kls (k_insert_end l (St t) s)) = (cont (kls s))(St t := Some l)"
proof -
  let ?K = "vListInsertEnd l (St t) (kls s)"
  have lL: "l \<in> L" using base_okD(2)[OF ok] l by auto
  obtain zs where z: "lists_ok L (c(l := zs)) ?K" "set zs = insert (St t) (set (c l))"
      "same_data (kls s) ?K" "cont ?K = (cont (kls s))(St t := Some l)"
    by (rule insert_end_ok[OF base_okD(1)[OF ok] lL base_off[OF ok t singletonI] base_length[OF ok lL]])
  have "tasks_ok T (s\<lparr>kls := ?K\<rparr>)"
    using base_okD(3)[OF ok] same_dataD(2)[OF z(3)] by (simp add: tasks_ok_def)
  moreover have "placed_ok T {} (cont ?K)"
    using base_okD(4)[OF ok] t l unfolding placed_ok_def z(4) by (auto simp: state_list_def)
  moreover have "ready_ok T (s\<lparr>kls := ?K\<rparr>)"
    using base_okD(5)[OF ok] l unfolding ready_ok_def by (auto simp: z(4))
  moreover have "delayed_ok (c(l := zs)) (s\<lparr>kls := ?K\<rparr>)"
    by (rule delayed_sorted[OF base_okD(6)[OF ok] z(3)]) (use l in auto)
  ultimately have "base_ok L T {} (c(l := zs)) (k_insert_end l (St t) s)"
    using z(1) ok by (simp add: base_ok_def k_insert_end_def)
  then show thesis using z(2-4)
    by (intro that) (simp_all add: k_insert_end_def k_INSERT_END_def listINSERT_END_eq)
qed

lemma base_insert_event:
  assumes ok: "base_ok L T X c s" and t: "t \<in> T" "cont (kls s) (Ev t) = None" and l: "l \<in> L" "\<not> state_list l"
    and K: "lists_ok L (c(l := zs)) K" "same_data (kls s) K" "cont K = (cont (kls s))(Ev t := Some l)"
  shows "base_ok L T X (c(l := zs)) (s\<lparr>kls := K\<rparr>)"
proof -
  have l': "l \<noteq> 5" "l \<noteq> 6" using l(2) by (auto simp: state_list_def)
  have "tasks_ok T (s\<lparr>kls := K\<rparr>)"
    using base_okD(3)[OF ok] same_dataD(2)[OF K(2)] by (simp add: tasks_ok_def)
  moreover have "placed_ok T X (cont K)"
    using base_okD(4)[OF ok] t l unfolding placed_ok_def K(3) by auto
  moreover have "ready_ok T (s\<lparr>kls := K\<rparr>)"
    using base_okD(5)[OF ok] unfolding ready_ok_def by (auto simp: K(3))
  moreover have "delayed_ok (c(l := zs)) (s\<lparr>kls := K\<rparr>)"
    by (rule delayed_sorted[OF base_okD(6)[OF ok] K(2)]) (use l' in auto)
  ultimately show ?thesis using K(1) ok by (simp add: base_ok_def)
qed

lemma base_insert_end_event:
  assumes ok: "base_ok L T X c s" and t: "t \<in> T" "cont (kls s) (Ev t) = None" and l: "l \<in> L" "\<not> state_list l"
  obtains zs where "base_ok L T X (c(l := zs)) (k_insert_end l (Ev t) s)"
    "set zs = insert (Ev t) (set (c l))" "k_INSERT_END l (Ev t) s = k_insert_end l (Ev t) s"
    "k_insert_end l (Ev t) s = s\<lparr>kls := kls (k_insert_end l (Ev t) s)\<rparr>"
    "same_data (kls s) (kls (k_insert_end l (Ev t) s))"
    "cont (kls (k_insert_end l (Ev t) s)) = (cont (kls s))(Ev t := Some l)"
proof -
  let ?K = "vListInsertEnd l (Ev t) (kls s)"
  obtain zs where z: "lists_ok L (c(l := zs)) ?K" "set zs = insert (Ev t) (set (c l))"
      "same_data (kls s) ?K" "cont ?K = (cont (kls s))(Ev t := Some l)"
    by (rule insert_end_ok[OF base_okD(1)[OF ok] l(1) t(2) base_length[OF ok l(1)]])
  show thesis using base_insert_event[OF ok t l z(1,3,4)] z(2-4)
    by (intro that) (simp_all add: k_insert_end_def k_INSERT_END_def listINSERT_END_eq)
qed

lemma base_insert_sorted_event:
  assumes ok: "base_ok L T X c s" and t: "t \<in> T" "cont (kls s) (Ev t) = None" and l: "l \<in> L" "\<not> state_list l"
  obtains K' where "k_insert l (Ev t) s = Some (s\<lparr>kls := K'\<rparr>)"
    "base_ok L T X (c(l := insort_after (kls s) (Ev t) (c l))) (s\<lparr>kls := K'\<rparr>)"
    "same_data (kls s) K'" "cont K' = (cont (kls s))(Ev t := Some l)"
proof -
  obtain K' where z: "vListInsert l (Ev t) (kls s) = Some K'"
      "lists_ok L (c(l := insort_after (kls s) (Ev t) (c l))) K'"
      "same_data (kls s) K'" "cont K' = (cont (kls s))(Ev t := Some l)"
    by (rule insert_sorted_ok[OF base_okD(1)[OF ok] l(1) t(2) base_length[OF ok l(1)]])
  show thesis using base_insert_event[OF ok t l z(2,3,4)] z
    by (intro that) (simp_all add: k_insert_def)
qed

lemma base_insert_delayed:
  assumes ok: "base_ok L T {t} c s" and t: "t \<in> T" and l: "l = 5 \<or> l = 6"
  obtains K' where "k_insert l (St t) s = Some (s\<lparr>kls := K'\<rparr>)"
    "base_ok L T {} (c(l := insort_after (kls s) (St t) (c l))) (s\<lparr>kls := K'\<rparr>)"
    "same_data (kls s) K'" "cont K' = (cont (kls s))(St t := Some l)"
proof -
  have lL: "l \<in> L" using base_okD(2)[OF ok] l by auto
  let ?c = "c(l := insort_after (kls s) (St t) (c l))"
  obtain K' where z: "vListInsert l (St t) (kls s) = Some K'" "lists_ok L ?c K'"
      "same_data (kls s) K'" "cont K' = (cont (kls s))(St t := Some l)"
    by (rule insert_sorted_ok[OF base_okD(1)[OF ok] lL base_off[OF ok t singletonI] base_length[OF ok lL]])
  have "tasks_ok T (s\<lparr>kls := K'\<rparr>)"
    using base_okD(3)[OF ok] same_dataD(2)[OF z(3)] by (simp add: tasks_ok_def)
  moreover have "placed_ok T {} (cont K')"
    using base_okD(4)[OF ok] t l unfolding placed_ok_def z(4) by (auto simp: state_list_def)
  moreover have "ready_ok T (s\<lparr>kls := K'\<rparr>)"
    using base_okD(5)[OF ok] l unfolding ready_ok_def by (auto simp: z(4))
  moreover have "delayed_ok ?c (s\<lparr>kls := K'\<rparr>)"
    by (rule delayed_sorted[OF base_okD(6)[OF ok] z(3)]) (auto intro: insort_after_sorted)
  ultimately have "base_ok L T {} ?c (s\<lparr>kls := K'\<rparr>)"
    using z(2) ok by (simp add: base_ok_def)
  then show thesis using z by (intro that) (simp_all add: k_insert_def)
qed

subsection \<open>Item values and priorities\<close>

text \<open>The value of an item may change when it is not on a delayed list.\<close>

lemma base_set_value:
  assumes ok: "base_ok L T X c s" and i: "cont (kls s) i \<noteq> Some 5" "cont (kls s) i \<noteq> Some 6"
  shows "base_ok L T X c (k_set_value i v s)"
    "val (kls (k_set_value i v s)) j = (if j = i then v else val (kls s) j)"
    "owner (kls (k_set_value i v s)) = owner (kls s)"
    "cont (kls (k_set_value i v s)) = cont (kls s)"
proof -
  let ?K = "listSET_LIST_ITEM_VALUE i v (kls s)"
  note K = set_value_ok[OF base_okD(1)[OF ok], of i v]
  have "i \<notin> set (c 5)" "i \<notin> set (c 6)"
    using i lists_okD(2)[OF base_okD(1)[OF ok], of i] base_okD(2)[OF ok] by auto
  then have m: "map (val ?K) (c 5) = map (val (kls s)) (c 5)" "map (val ?K) (c 6) = map (val (kls s)) (c 6)"
    by (auto simp: K(2))
  have "delayed_ok c (k_set_value i v s)"
    using base_okD(6)[OF ok] m unfolding delayed_ok_def k_set_value_def by (simp del: map_eq_conv)
  then show "base_ok L T X c (k_set_value i v s)"
    using ok K(1,3,4) unfolding base_ok_def by (simp add: k_set_value_def tasks_ok_def ready_ok_def)
qed (use set_value_ok[OF base_okD(1)[OF ok], of i v] in \<open>simp_all add: k_set_value_def\<close>)

text \<open>The fields of a control block that the lists do not depend on.\<close>

lemma base_upd_tcb:
  assumes "\<And>r. uxPriority (f r) = uxPriority r"
  shows "base_ok L T X c (upd_tcb t f s) = base_ok L T X c s"
proof -
  have p: "prio (upd_tcb t f s) u = prio s u" for u using assms by (simp add: upd_tcb_def)
  have k: "kls (upd_tcb t f s) = kls s" "uxTopReadyPriority (upd_tcb t f s) = uxTopReadyPriority s"
    "pxDelayedTaskList (upd_tcb t f s) = pxDelayedTaskList s"
    "pxOverflowDelayedTaskList (upd_tcb t f s) = pxOverflowDelayedTaskList s"
    by (simp_all add: upd_tcb_def)
  show ?thesis by (simp add: base_ok_def tasks_ok_def ready_ok_def delayed_ok_def p k)
qed

lemma upd_tcb_fields [simp]:
  "kls (upd_tcb t f s) = kls s" "pxCurrentTCB (upd_tcb t f s) = pxCurrentTCB s"
  "xTickCount (upd_tcb t f s) = xTickCount s" "pxDelayedTaskList (upd_tcb t f s) = pxDelayedTaskList s"
  "pxOverflowDelayedTaskList (upd_tcb t f s) = pxOverflowDelayedTaskList s"
  "xNextTaskUnblockTime (upd_tcb t f s) = xNextTaskUnblockTime s"
  "xSchedulerRunning (upd_tcb t f s) = xSchedulerRunning s"
  "uxSchedulerSuspended (upd_tcb t f s) = uxSchedulerSuspended s"
  "uxCurrentNumberOfTasks (upd_tcb t f s) = uxCurrentNumberOfTasks s"
  "xYieldPending (upd_tcb t f s) = xYieldPending s"
  "tcbs (upd_tcb t f s) = (tcbs s)(t := f (tcbs s t))"
  "uxTopReadyPriority (upd_tcb t f s) = uxTopReadyPriority s"
  "xPendedTicks (upd_tcb t f s) = xPendedTicks s"
  by (simp_all add: upd_tcb_def)

subsection \<open>Selecting a task\<close>

lemma top_scan_max:
  assumes "lists_ok L c K" "{..<10} \<subseteq> L" "p < 10" "q \<le> p" "c q \<noteq> []"
  shows "\<exists>m. top_scan K p = Some m \<and> q \<le> m \<and> m \<le> p \<and> c m \<noteq> [] \<and> (\<forall>r. m < r \<longrightarrow> r \<le> p \<longrightarrow> c r = [])"
  using assms(3-5)
proof (induction p)
  case 0
  then show ?case using assms(1,2) lists_empty[of L c K 0] by (auto simp: subset_iff)
next
  case (Suc p)
  have e: "listLIST_IS_EMPTY (Suc p) K \<longleftrightarrow> c (Suc p) = []"
    by (rule lists_empty[OF assms(1)]) (use assms(2) Suc.prems(1) in \<open>auto simp: subset_iff\<close>)
  show ?case
  proof (cases "c (Suc p) = []")
    case True
    then have "q \<le> p" using Suc.prems by (metis le_SucE)
    then obtain m where "top_scan K p = Some m \<and> q \<le> m \<and> m \<le> p \<and> c m \<noteq> [] \<and> (\<forall>r. m < r \<longrightarrow> r \<le> p \<longrightarrow> c r = [])"
      using Suc by auto
    then show ?thesis using True e by (intro exI[of _ m]) (auto simp: le_Suc_eq)
  next
    case False
    then show ?thesis using e Suc.prems by (intro exI[of _ "Suc p"]) auto
  qed
qed

text \<open>A task of the highest priority that has a ready task becomes current, the one whose turn it is.\<close>

lemma base_select:
  assumes ok: "base_ok L T X c s" and u: "u \<in> T" "cont (kls s) (St u) = Some q" "q < 5"
  obtains K' t m ys where
    "taskSELECT_HIGHEST_PRIORITY_TASK s = Some (s\<lparr>kls := K', pxCurrentTCB := Some t, uxTopReadyPriority := of_nat m\<rparr>)"
    "base_ok L T X c (s\<lparr>kls := K', pxCurrentTCB := Some t, uxTopReadyPriority := of_nat m\<rparr>)"
    "same_data (kls s) K'" "cont K' = cont (kls s)" "t \<in> T" "cont (kls s) (St t) = Some m" "m < 5"
    "\<forall>v\<in>T. \<forall>p<5. cont (kls s) (St v) = Some p \<longrightarrow> p \<le> m"
    "order (kls s) m (c m) = St t # ys" "order K' m (c m) = ys @ [St t]"
    "\<forall>k. k \<noteq> m \<longrightarrow> pxIndex (lists K' k) = pxIndex (lists (kls s) k)"
proof -
  note lok = base_okD(1)[OF ok] and rdy = base_okD(5)[OF ok, unfolded ready_ok_def]
  have L: "{..<10} \<subseteq> L" using ok by (simp add: base_ok_def)
  let ?top = "unat (uxTopReadyPriority s)"
  have top: "?top < 5" "q \<le> ?top" using rdy u by blast+
  have cq: "c q \<noteq> []" using lists_okD(2)[OF lok] u(2) by auto
  obtain m where m: "top_scan (kls s) ?top = Some m" "m \<le> ?top" "c m \<noteq> []"
      "\<And>r. m < r \<Longrightarrow> r \<le> ?top \<Longrightarrow> c r = []"
    using top_scan_max[OF lok L _ top(2) cq] top(1) by auto
  have mL: "m \<in> L" "m < 5" using L m(2) top(1) by auto
  obtain y ys where y: "order (kls s) m (c m) = y # ys" using order_nonempty[OF lok mL(1) m(3)] by blast
  obtain K' where K: "listGET_OWNER_OF_NEXT_ENTRY m (kls s) = (Some (owner (kls s) y), K')" "lists_ok L c K'"
      "same_data (kls s) K'" "cont K' = cont (kls s)" "order K' m (c m) = ys @ [y]" "y \<in> set (c m)"
      "\<forall>k. k \<noteq> m \<longrightarrow> pxIndex (lists K' k) = pxIndex (lists (kls s) k)"
    by (rule next_entry_ok[OF lok mL(1) y])
  have cy: "cont (kls s) y = Some m" using lists_okD(2)[OF lok] K(6) mL by blast
  have "\<exists>t\<in>T. y = (if state_list m then St t else Ev t)"
    using base_okD(4)[OF ok] cy unfolding placed_ok_def by blast
  then obtain t where t: "t \<in> T" "y = St t" using mL(2) by (auto simp: state_list_def)
  have own: "owner (kls s) y = t" using base_okD(3)[OF ok] t by (simp add: tasks_ok_def)
  have hi: "p \<le> m" if "v \<in> T" "cont (kls s) (St v) = Some p" "p < 5" for v p
  proof (rule ccontr)
    assume "\<not> p \<le> m"
    then have "c p = []" using m(4) rdy that by auto
    then show False using lists_okD(2)[OF lok] that(2) by auto
  qed
  let ?s = "s\<lparr>kls := K', pxCurrentTCB := Some t, uxTopReadyPriority := of_nat m\<rparr>"
  have um: "unat (of_nat m :: 32 word) = m" using mL(2) by (simp add: unat_of_nat)
  have e: "taskSELECT_HIGHEST_PRIORITY_TASK s = Some ?s"
    using top(1) m(1) K(1) own by (simp add: taskSELECT_HIGHEST_PRIORITY_TASK_def configMAX_PRIORITIES_def)
  have "tasks_ok T ?s" using base_okD(3)[OF ok] same_dataD(2)[OF K(3)] by (simp add: tasks_ok_def)
  moreover have "placed_ok T X (cont K')" using base_okD(4)[OF ok] by (simp add: K(4))
  moreover have "ready_ok T ?s"
    using rdy hi mL(2) um unfolding ready_ok_def by (simp add: K(4))
  moreover have "delayed_ok c ?s"
    unfolding delayed_ok_top by (rule delayed_sorted[OF base_okD(6)[OF ok] K(3)])
  ultimately have "base_ok L T X c ?s" using K(2) L by (simp add: base_ok_def)
  then show thesis
    using e K(3,4,5,7) t cy mL(2) hi y by (intro that) auto
qed

end
