(* ===== verification/Tasks_Time.thy ===== *)
theory Tasks_Time
  imports Tasks_Inv
begin

section \<open>Time: the tick, delays and time-outs\<close>

text \<open>
  The tick count wraps around every 2^32 ticks, and so do wake times. \<open>times_ok\<close> says where a blocked
  task waits: on the current delayed list if its wake time is still to come before the count wraps, on
  the overflow list if it is behind the wrap. Then the number of ticks a task has left is the
  wrapped-around difference of its wake time and the tick count. The theorems show that each tick
  takes one off that number for every blocked task and readies exactly those that reach zero, that a
  delay ends after the number of ticks asked for, and that periodic wake-ups and time-outs are
  computed correctly across the wrap-around.
\<close>

subsection \<open>The invariant\<close>

definition times_ok :: "kernel \<Rightarrow> bool" where
  "times_ok s \<longleftrightarrow>
     (\<forall>i. cont (kls s) i = Some (pxDelayedTaskList s) \<longrightarrow>
        xTickCount s < val (kls s) i \<and> xNextTaskUnblockTime s \<le> val (kls s) i) \<and>
     (\<forall>i. cont (kls s) i = Some (pxOverflowDelayedTaskList s) \<longrightarrow> val (kls s) i < xTickCount s)"

definition sched_ok :: "nat set \<Rightarrow> nat set \<Rightarrow> (nat \<Rightarrow> nat list) \<Rightarrow> kernel \<Rightarrow> bool" where
  "sched_ok L T c s \<longleftrightarrow> base_ok L T {} c s \<and> times_ok s \<and> (\<exists>t\<in>T. pxCurrentTCB s = Some t)"

definition blocked :: "kernel \<Rightarrow> nat \<Rightarrow> bool" where
  "blocked s t \<longleftrightarrow> cont (kls s) (St t) = Some xDelayedTaskList1 \<or> cont (kls s) (St t) = Some xDelayedTaskList2"

definition ready :: "kernel \<Rightarrow> nat \<Rightarrow> bool" where
  "ready s t \<longleftrightarrow> cont (kls s) (St t) = Some (pxReadyTasksLists (prio s t))"

text \<open>The ticks a blocked task has left.\<close>

definition remaining :: "kernel \<Rightarrow> nat \<Rightarrow> nat" where
  "remaining s t = unat (val (kls s) (St t) - xTickCount s)"

lemma sched_okD:
  assumes "sched_ok L T c s"
  shows "base_ok L T {} c s" "times_ok s"
  using assms by (auto simp: sched_ok_def)

lemma blocked_iff:
  "base_ok L T X c s \<Longrightarrow> blocked s t \<longleftrightarrow>
     cont (kls s) (St t) = Some (pxDelayedTaskList s) \<or> cont (kls s) (St t) = Some (pxOverflowDelayedTaskList s)"
  by (drule base_okD(6)) (auto simp: blocked_def delayed_ok_def xDelayedTaskList1_def xDelayedTaskList2_def)

lemma remaining_pos:
  assumes "sched_ok L T c s" "blocked s t"
  shows "0 < remaining s t"
proof -
  have "val (kls s) (St t) \<noteq> xTickCount s"
    using assms blocked_iff[OF sched_okD(1)[OF assms(1)]] sched_okD(2)[OF assms(1)] by (auto simp: times_ok_def)
  then show ?thesis by (simp add: remaining_def unat_gt_0)
qed

text \<open>An operation of the tick and of resuming leaves everything else of the state alone.\<close>

definition same_rest :: "kernel \<Rightarrow> kernel \<Rightarrow> bool" where
  "same_rest s s' \<longleftrightarrow> s' = s\<lparr>kls := kls s', uxTopReadyPriority := uxTopReadyPriority s',
     xNextTaskUnblockTime := xNextTaskUnblockTime s'\<rparr>"

lemma same_rest_fields:
  assumes "same_rest s s'"
  shows "tcbs s' = tcbs s" "pxCurrentTCB s' = pxCurrentTCB s" "pxDelayedTaskList s' = pxDelayedTaskList s"
    "pxOverflowDelayedTaskList s' = pxOverflowDelayedTaskList s" "xTickCount s' = xTickCount s"
    "xYieldPending s' = xYieldPending s" "uxSchedulerSuspended s' = uxSchedulerSuspended s"
    "xPendedTicks s' = xPendedTicks s" "xNumOfOverflows s' = xNumOfOverflows s"
    "uxCurrentNumberOfTasks s' = uxCurrentNumberOfTasks s" "xSchedulerRunning s' = xSchedulerRunning s"
    "uxDeletedTasksWaitingCleanUp s' = uxDeletedTasksWaitingCleanUp s" "kheap s' = kheap s"
  by (subst assms[unfolded same_rest_def], simp)+

lemma same_rest_trans: "same_rest s t \<Longrightarrow> same_rest t u \<Longrightarrow> same_rest s u"
  unfolding same_rest_def by (cases s; cases t; cases u) simp

lemma same_rest_intro:
  "same_rest s (s\<lparr>kls := K\<rparr>)" "same_rest s (s\<lparr>kls := K, uxTopReadyPriority := q\<rparr>)"
  "same_rest s (s\<lparr>xNextTaskUnblockTime := n\<rparr>)"
  by (simp_all add: same_rest_def)

lemma same_data_trans: "same_data K K' \<Longrightarrow> same_data K' K'' \<Longrightarrow> same_data K K''"
  by (simp add: same_data_def)

subsection \<open>Readying a task\<close>

lemma base_move_ready:
  assumes ok: "base_ok L T {} c s" and t: "t \<in> T"
  obtains K' top K'' c' where "k_remove (St t) s = Some (s\<lparr>kls := K'\<rparr>)" "k_REMOVE (St t) s = Some (s\<lparr>kls := K'\<rparr>)"
    "prvAddTaskToReadyList t (s\<lparr>kls := K'\<rparr>) = s\<lparr>kls := K'', uxTopReadyPriority := top\<rparr>"
    "base_ok L T {} c' (s\<lparr>kls := K'', uxTopReadyPriority := top\<rparr>)" "same_data (kls s) K''"
    "cont K'' = (cont (kls s))(St t := Some (unat (prio s t)))"
    "\<forall>l\<in>L. 5 \<le> l \<longrightarrow> c' l = remove1 (St t) (c l)"
proof -
  obtain l K' where 1: "cont (kls s) (St t) = Some l" "state_list l"
      "k_remove (St t) s = Some (s\<lparr>kls := K'\<rparr>)" "k_REMOVE (St t) s = Some (s\<lparr>kls := K'\<rparr>)"
      "base_ok L T {t} (c(l := remove1 (St t) (c l))) (s\<lparr>kls := K'\<rparr>)"
      "same_data (kls s) K'" "cont K' = (cont (kls s))(St t := None)"
    by (rule base_remove_state[OF ok t])
  obtain K'' top zs where 2:
      "prvAddTaskToReadyList t (s\<lparr>kls := K'\<rparr>) = s\<lparr>kls := K'', uxTopReadyPriority := top\<rparr>"
      "base_ok L T {} (c(l := remove1 (St t) (c l), unat (prio s t) := zs)) (s\<lparr>kls := K'', uxTopReadyPriority := top\<rparr>)"
      "set zs = insert (St t) (set ((c(l := remove1 (St t) (c l))) (unat (prio s t))))"
      "same_data K' K''" "cont K'' = (cont K')(St t := Some (unat (prio s t)))"
      "unat top = max (unat (uxTopReadyPriority s)) (unat (prio s t))"
    by (rule base_add_ready_kls[OF 1(5) t])
  have "unat (prio s t) < 5" using base_okD(3)[OF ok] t by (simp add: tasks_ok_def)
  moreover have "remove1 (St t) (c k) = c k" if "k \<noteq> l" "k \<in> L" for k
    using lists_okD(2)[OF base_okD(1)[OF ok], of "St t" k] 1(1) that by (auto intro: remove1_idem)
  ultimately have "\<forall>k\<in>L. 5 \<le> k \<longrightarrow>
      (c(l := remove1 (St t) (c l), unat (prio s t) := zs)) k = remove1 (St t) (c k)" by auto
  then show thesis
    using that[OF 1(3,4) 2(1,2) same_data_trans[OF 1(6) 2(4)]] 2(5) 1(7) by simp
qed

lemma base_move_ready_kls:
  assumes ok: "base_ok L T {} c (s\<lparr>kls := K\<rparr>)" and t: "t \<in> T"
  obtains K' top K'' c' where "k_remove (St t) (s\<lparr>kls := K\<rparr>) = Some (s\<lparr>kls := K'\<rparr>)"
    "k_REMOVE (St t) (s\<lparr>kls := K\<rparr>) = Some (s\<lparr>kls := K'\<rparr>)"
    "prvAddTaskToReadyList t (s\<lparr>kls := K'\<rparr>) = s\<lparr>kls := K'', uxTopReadyPriority := top\<rparr>"
    "base_ok L T {} c' (s\<lparr>kls := K'', uxTopReadyPriority := top\<rparr>)" "same_data K K''"
    "cont K'' = (cont K)(St t := Some (unat (prio s t)))"
    "\<forall>l\<in>L. 5 \<le> l \<longrightarrow> c' l = remove1 (St t) (c l)"
proof -
  let ?s = "s\<lparr>kls := K\<rparr>"
  obtain K' top K'' c' where "k_remove (St t) ?s = Some (?s\<lparr>kls := K'\<rparr>)" "k_REMOVE (St t) ?s = Some (?s\<lparr>kls := K'\<rparr>)"
    "prvAddTaskToReadyList t (?s\<lparr>kls := K'\<rparr>) = ?s\<lparr>kls := K'', uxTopReadyPriority := top\<rparr>"
    "base_ok L T {} c' (?s\<lparr>kls := K'', uxTopReadyPriority := top\<rparr>)" "same_data (kls ?s) K''"
    "cont K'' = (cont (kls ?s))(St t := Some (unat (prio ?s t)))"
    "\<forall>l\<in>L. 5 \<le> l \<longrightarrow> c' l = remove1 (St t) (c l)"
    by (rule base_move_ready[OF ok t])
  then show thesis by (intro that) simp_all
qed

text \<open>Removing an item moves the index of its own list only, and readying a task moves none.\<close>

lemma remove_index:
  assumes "k_REMOVE i s = Some s'" "cont (kls s) i \<noteq> Some k"
  shows "pxIndex (lists (kls s') k) = pxIndex (lists (kls s) k)"
  using assms by (auto simp: k_REMOVE_def listREMOVE_ITEM_def cont_def Let_def store_simps split: option.splits)

lemma add_ready_index: "pxIndex (lists (kls (prvAddTaskToReadyList t s)) k) = pxIndex (lists (kls s) k)"
  by (simp add: prvAddTaskToReadyList_def taskRECORD_READY_PRIORITY_def k_INSERT_END_def listINSERT_END_def Let_def store_simps)

text \<open>Waking a task: off its state list, off any event list, onto its ready list. The other ready lists
  stay as they are.\<close>

lemma base_wake:
  assumes ok: "base_ok L T {} c s" and t: "t \<in> T"
  obtains s1 s2 K' top c' where "k_REMOVE (St t) s = Some s1"
    "(if listLIST_ITEM_CONTAINER (Ev t) (kls s1) \<noteq> None then k_REMOVE (Ev t) s1 else Some s1) = Some s2"
    "prvAddTaskToReadyList t s2 = s\<lparr>kls := K', uxTopReadyPriority := top\<rparr>"
    "base_ok L T {} c' (s\<lparr>kls := K', uxTopReadyPriority := top\<rparr>)" "same_data (kls s) K'"
    "cont K' = (cont (kls s))(Ev t := None, St t := Some (unat (prio s t)))"
    "\<forall>l. l = 5 \<or> l = 6 \<longrightarrow> c' l = remove1 (St t) (c l)"
    "\<forall>k<5. k \<noteq> unat (prio s t) \<longrightarrow> cont (kls s) (St t) \<noteq> Some k \<longrightarrow>
       c' k = c k \<and> pxIndex (lists K' k) = pxIndex (lists (kls s) k)"
proof -
  obtain l K1 where 1: "cont (kls s) (St t) = Some l" "state_list l"
      "k_remove (St t) s = Some (s\<lparr>kls := K1\<rparr>)" "k_REMOVE (St t) s = Some (s\<lparr>kls := K1\<rparr>)"
      "base_ok L T {t} (c(l := remove1 (St t) (c l))) (s\<lparr>kls := K1\<rparr>)"
      "same_data (kls s) K1" "cont K1 = (cont (kls s))(St t := None)"
    by (rule base_remove_state[OF ok t])
  obtain K2 c2 where 2:
      "(if listLIST_ITEM_CONTAINER (Ev t) K1 \<noteq> None then k_REMOVE (Ev t) (s\<lparr>kls := K1\<rparr>) else Some (s\<lparr>kls := K1\<rparr>)) =
         Some (s\<lparr>kls := K2\<rparr>)"
      "base_ok L T {t} c2 (s\<lparr>kls := K2\<rparr>)" "same_data K1 K2" "cont K2 = (cont K1)(Ev t := None)"
      "\<forall>k. state_list k \<longrightarrow> c2 k = (c(l := remove1 (St t) (c l))) k \<and> pxIndex (lists K2 k) = pxIndex (lists K1 k)"
  proof (cases "cont K1 (Ev t)")
    case None
    then show thesis
      using that[of K1 "c(l := remove1 (St t) (c l))"] 1(5) by (auto simp: lists_simps same_data_def fun_eq_iff)
  next
    case (Some m)
    let ?c = "c(l := remove1 (St t) (c l))"
    from Some obtain K2 where m: "\<not> state_list m" "k_REMOVE (Ev t) (s\<lparr>kls := K1\<rparr>) = Some (s\<lparr>kls := K2\<rparr>)"
        "base_ok L T {t} (?c(m := remove1 (Ev t) (?c m))) (s\<lparr>kls := K2\<rparr>)" "same_data K1 K2" "cont K2 = (cont K1)(Ev t := None)"
      using base_remove_event[OF 1(5), of t m] by auto
    have "pxIndex (lists K2 k) = pxIndex (lists K1 k)" if "state_list k" for k
      using remove_index[OF m(2), of k] Some m(1) that by auto
    then show thesis using m Some by (intro that[OF _ m(3-5)]) (auto simp: lists_simps)
  qed
  obtain K3 top zs where 3:
      "prvAddTaskToReadyList t (s\<lparr>kls := K2\<rparr>) = s\<lparr>kls := K3, uxTopReadyPriority := top\<rparr>"
      "base_ok L T {} (c2(unat (prio s t) := zs)) (s\<lparr>kls := K3, uxTopReadyPriority := top\<rparr>)"
      "set zs = insert (St t) (set (c2 (unat (prio s t))))"
      "same_data K2 K3" "cont K3 = (cont K2)(St t := Some (unat (prio s t)))"
      "unat top = max (unat (uxTopReadyPriority s)) (unat (prio s t))"
    by (rule base_add_ready_kls[OF 2(2) t])
  have p5: "unat (prio s t) < 5" using base_okD(3)[OF ok] t by (simp add: tasks_ok_def)
  have rm: "remove1 (St t) (c k) = c k" if "k \<noteq> l" "k < 10" for k
    using lists_okD(2)[OF base_okD(1)[OF ok], of "St t" k] base_okD(2)[OF ok that(2)] 1(1) that(1)
    by (auto intro: remove1_idem)
  have c': "\<forall>k. k = 5 \<or> k = 6 \<longrightarrow> (c2(unat (prio s t) := zs)) k = remove1 (St t) (c k)"
    using 2(5) p5 rm[of 5] rm[of 6] by (auto simp: state_list_def)
  have turns: "\<forall>k<5. k \<noteq> unat (prio s t) \<longrightarrow> cont (kls s) (St t) \<noteq> Some k \<longrightarrow>
       (c2(unat (prio s t) := zs)) k = c k \<and> pxIndex (lists K3 k) = pxIndex (lists (kls s) k)"
  proof (intro allI impI)
    fix k assume k: "k < 5" "k \<noteq> unat (prio s t)" "cont (kls s) (St t) \<noteq> Some k"
    have "state_list k" using k(1) by (simp add: state_list_def)
    moreover have "pxIndex (lists K1 k) = pxIndex (lists (kls s) k)" using remove_index[OF 1(4) k(3)] by simp
    moreover have "pxIndex (lists K3 k) = pxIndex (lists K2 k)" using add_ready_index[of t "s\<lparr>kls := K2\<rparr>" k] unfolding 3(1) by simp
    ultimately show "(c2(unat (prio s t) := zs)) k = c k \<and> pxIndex (lists K3 k) = pxIndex (lists (kls s) k)"
      using 2(5) k 1(1) by auto
  qed
  have k1: "kls (s\<lparr>kls := K1\<rparr>) = K1" by simp
  have co: "cont K3 = (cont (kls s))(Ev t := None, St t := Some (unat (prio s t)))"
    by (simp add: 3(5) 2(4) 1(7) fun_eq_iff)
  show thesis
    by (rule that[OF 1(4) _ 3(1,2) _ co c' turns]) (use 2(1) same_data_trans[OF 1(6) same_data_trans[OF 2(3) 3(4)]] k1 in auto)
qed

subsection \<open>The loop of the tick\<close>

text \<open>The tasks that wake at a given count.\<close>

definition due :: "nat set \<Rightarrow> TickType_t \<Rightarrow> kernel \<Rightarrow> nat set" where
  "due T now s = {t \<in> T. cont (kls s) (St t) = Some (pxDelayedTaskList s) \<and> val (kls s) (St t) = now}"

lemma tick_loop_wakes:
  assumes "base_ok L T {} c s" "pxCurrentTCB s = Some cur"
    and "\<forall>i\<in>set (c (pxDelayedTaskList s)). now \<le> val (kls s) i"
  shows "\<exists>s' c'. tick_loop now sw s = Some (sw \<or> (\<exists>t\<in>due T now s. prio s t > prio s cur), s') \<and>
     base_ok L T {} c' s' \<and> same_rest s s' \<and> same_data (kls s) (kls s') \<and>
     (\<forall>t. cont (kls s') (St t) = (if t \<in> due T now s then Some (unat (prio s t)) else cont (kls s) (St t))) \<and>
     (\<forall>t. cont (kls s') (Ev t) = (if t \<in> due T now s then None else cont (kls s) (Ev t))) \<and>
     (\<forall>i. cont (kls s') i = Some (pxDelayedTaskList s) \<longrightarrow> now < val (kls s) i \<and> xNextTaskUnblockTime s' \<le> val (kls s) i) \<and>
     (\<forall>k<5. (\<forall>t\<in>due T now s. unat (prio s t) \<noteq> k) \<longrightarrow> c' k = c k \<and> pxIndex (lists (kls s') k) = pxIndex (lists (kls s) k))"
  using assms
proof (induction "c (pxDelayedTaskList s)" arbitrary: c s sw)
  case Nil
  let ?dl = "pxDelayedTaskList s"
  have dl: "?dl \<in> L" using base_okD(2,6)[OF Nil.prems(1)] by (auto simp: delayed_ok_def)
  have none: "cont (kls s) i \<noteq> Some ?dl" for i
    using lists_okD(2)[OF base_okD(1)[OF Nil.prems(1)], of i ?dl] Nil.hyps by auto
  then have "due T now s = {}" by (simp add: due_def)
  moreover have "tick_loop now sw s = Some (sw, s\<lparr>xNextTaskUnblockTime := portMAX_DELAY\<rparr>)"
    using lists_empty[OF base_okD(1)[OF Nil.prems(1)] dl] Nil.hyps by (simp add: tick_loop.simps)
  ultimately show ?case
    using Nil.prems(1) none same_rest_intro(3)
    by (intro exI[of _ "s\<lparr>xNextTaskUnblockTime := portMAX_DELAY\<rparr>"] exI[of _ c]) (auto simp: same_data_def)
next
  case (Cons x xs)
  let ?dl = "pxDelayedTaskList s"
  note ok = Cons.prems(1) and lok = base_okD(1)[OF Cons.prems(1)]
  have dl: "?dl \<in> L" "state_list ?dl" "?dl \<in> {5, 6}" "?dl < 10"
    using base_okD(2,6)[OF ok] by (auto simp: delayed_ok_def state_list_def)
  have srt: "sorted (map (val (kls s)) (x # xs))"
    using base_okD(6)[OF ok] Cons.hyps(2) dl(3) by (auto simp: delayed_ok_def)
  have cx: "cont (kls s) x = Some ?dl" using lists_okD(2)[OF lok] dl(1) Cons.hyps(2)[symmetric] by auto
  obtain t where t: "t \<in> T" "x = St t"
    using base_okD(4)[OF ok] cx dl(2) unfolding placed_ok_def by metis
  have own: "owner (kls s) x = t" using base_okD(3)[OF ok] t by (simp add: tasks_ok_def)
  have ne: "\<not> listLIST_IS_EMPTY ?dl (kls s)" using lists_empty[OF lok dl(1)] Cons.hyps(2)[symmetric] by simp
  have hd: "listGET_OWNER_OF_HEAD_ENTRY ?dl (kls s) = Some t"
    using lists_head(1)[OF lok dl(1) Cons.hyps(2)[symmetric]] own by simp
  have mem: "cont (kls s) i = Some ?dl \<longleftrightarrow> i = x \<or> i \<in> set xs" for i
    using lists_okD(2)[OF lok, of i ?dl] dl(1) Cons.hyps(2)[symmetric] by auto
  show ?case
  proof (cases "now < val (kls s) x")
    case True
    let ?s = "s\<lparr>xNextTaskUnblockTime := val (kls s) x\<rparr>"
    have gt: "val (kls s) x \<le> val (kls s) i" if "cont (kls s) i = Some ?dl" for i
      using that mem[of i] srt by auto
    then have "due T now s = {}" using True by (force simp: due_def)
    moreover have "tick_loop now sw s = Some (sw, ?s)"
      using ne hd True t(2) by (subst tick_loop.simps) (simp add: lists_value)
    ultimately show ?thesis
      using ok gt True same_rest_intro(3)
      by (intro exI[of _ ?s] exI[of _ c]) (auto simp: same_data_def intro: less_le_trans)
  next
    case False
    then have v: "val (kls s) x = now" using Cons.prems(3) Cons.hyps(2)[symmetric] by auto
    obtain s1 s2 K' top c' where w: "k_REMOVE (St t) s = Some s1"
        "(if listLIST_ITEM_CONTAINER (Ev t) (kls s1) \<noteq> None then k_REMOVE (Ev t) s1 else Some s1) = Some s2"
        "prvAddTaskToReadyList t s2 = s\<lparr>kls := K', uxTopReadyPriority := top\<rparr>"
        "base_ok L T {} c' (s\<lparr>kls := K', uxTopReadyPriority := top\<rparr>)" "same_data (kls s) K'"
        "cont K' = (cont (kls s))(Ev t := None, St t := Some (unat (prio s t)))"
        "\<forall>l. l = 5 \<or> l = 6 \<longrightarrow> c' l = remove1 (St t) (c l)"
        "\<forall>k<5. k \<noteq> unat (prio s t) \<longrightarrow> cont (kls s) (St t) \<noteq> Some k \<longrightarrow>
           c' k = c k \<and> pxIndex (lists K' k) = pxIndex (lists (kls s) k)"
      by (rule base_wake[OF ok t(1)])
    define s3 where "s3 = s\<lparr>kls := K', uxTopReadyPriority := top\<rparr>"
    have s3: "kls s3 = K'" "pxCurrentTCB s3 = Some cur" "pxDelayedTaskList s3 = ?dl" "tcbs s3 = tcbs s"
      using Cons.prems(2) by (simp_all add: s3_def)
    have c3: "c' (pxDelayedTaskList s3) = xs"
      using w(7) dl(3) t(2) Cons.hyps(2)[symmetric] s3(3) by auto
    have le3: "\<forall>i\<in>set (c' (pxDelayedTaskList s3)). now \<le> val (kls s3) i"
      using Cons.prems(3) Cons.hyps(2)[symmetric] c3 same_dataD(1)[OF w(5)] s3(1) by simp
    have p5: "unat (prio s t) < 5" using base_okD(3)[OF ok] t by (simp add: tasks_ok_def)
    have due: "due T now s = insert t (due T now s3)" "t \<notin> due T now s3"
      using t v dl(3) p5 cx same_dataD(1)[OF w(5)] by (auto simp: due_def s3 w(6))
    have step: "tick_loop now sw s = tick_loop now (if prio s t > prio s cur then True else sw) s3"
      using ne hd False t(2) w(1,2) Cons.prems(2)
      by (subst tick_loop.simps) (simp add: lists_value w(3) s3_def)
    obtain s' c'' where IH: "tick_loop now (if prio s t > prio s cur then True else sw) s3 =
          Some ((if prio s t > prio s cur then True else sw) \<or> (\<exists>u\<in>due T now s3. prio s3 u > prio s3 cur), s')"
        "base_ok L T {} c'' s'" "same_rest s3 s'" "same_data (kls s3) (kls s')"
        "\<forall>u. cont (kls s') (St u) = (if u \<in> due T now s3 then Some (unat (prio s3 u)) else cont (kls s3) (St u))"
        "\<forall>u. cont (kls s') (Ev u) = (if u \<in> due T now s3 then None else cont (kls s3) (Ev u))"
        "\<forall>i. cont (kls s') i = Some (pxDelayedTaskList s3) \<longrightarrow> now < val (kls s3) i \<and> xNextTaskUnblockTime s' \<le> val (kls s3) i"
        "\<forall>k<5. (\<forall>u\<in>due T now s3. unat (prio s3 u) \<noteq> k) \<longrightarrow> c'' k = c' k \<and> pxIndex (lists (kls s') k) = pxIndex (lists (kls s3) k)"
      using Cons.hyps(1)[OF c3[symmetric] w(4)[folded s3_def] s3(2) le3,
          of "if prio s t > prio s cur then True else sw"] by (elim exE conjE)
    have "tick_loop now sw s = Some (sw \<or> (\<exists>u\<in>due T now s. prio s u > prio s cur), s')"
      unfolding step IH(1) due(1) using s3(4) by auto
    moreover have "same_rest s s'"
      using same_rest_trans[OF same_rest_intro(2)[where K = K' and q = top and s = s, folded s3_def] IH(3)] .
    moreover have "same_data (kls s) (kls s')" using same_data_trans[OF w(5)] IH(4) s3(1) by simp
    moreover have "cont (kls s') (St u) = (if u \<in> due T now s then Some (unat (prio s u)) else cont (kls s) (St u))" for u
      using IH(5) due by (auto simp: s3 w(6))
    moreover have "cont (kls s') (Ev u) = (if u \<in> due T now s then None else cont (kls s) (Ev u))" for u
      using IH(6) due by (auto simp: s3 w(6))
    moreover have "now < val (kls s) i \<and> xNextTaskUnblockTime s' \<le> val (kls s) i" if "cont (kls s') i = Some ?dl" for i
      using IH(7)[rule_format, of i] that same_dataD(1)[OF w(5), of i] by (simp add: s3)
    moreover have "c'' k = c k \<and> pxIndex (lists (kls s') k) = pxIndex (lists (kls s) k)"
      if "k < 5" "\<forall>u\<in>due T now s. unat (prio s u) \<noteq> k" for k
      using IH(8)[rule_format, OF that(1)] w(8)[rule_format, OF that(1)] that(2) due(1) cx dl(3) t(2) that(1) by (auto simp: s3)
    ultimately show ?thesis using IH(2) by blast
  qed
qed

subsection \<open>The tick\<close>

lemma base_reset:
  assumes ok: "base_ok L T X c s"
  obtains n where "prvResetNextTaskUnblockTime s = s\<lparr>xNextTaskUnblockTime := n\<rparr>"
    "\<forall>i. cont (kls s) i = Some (pxDelayedTaskList s) \<longrightarrow> n \<le> val (kls s) i"
proof -
  let ?dl = "pxDelayedTaskList s"
  have dl: "?dl \<in> L" "?dl \<in> {5, 6}" using base_okD(2,6)[OF ok] by (auto simp: delayed_ok_def)
  note lok = base_okD(1)[OF ok]
  have mem: "cont (kls s) i = Some ?dl \<longleftrightarrow> i \<in> set (c ?dl)" for i
    using lists_okD(2)[OF lok, of i ?dl] dl(1) by simp
  show thesis
  proof (cases "c ?dl")
    case Nil
    then show thesis using that[of portMAX_DELAY] lists_empty[OF lok dl(1)] mem
      by (simp add: prvResetNextTaskUnblockTime_def)
  next
    case (Cons x xs)
    then have "\<forall>i\<in>set (c ?dl). val (kls s) x \<le> val (kls s) i"
      using base_okD(6)[OF ok] dl(2) by (auto simp: delayed_ok_def)
    then show thesis
      using that[of "val (kls s) x"] lists_empty[OF lok dl(1)] lists_head(2)[OF lok dl(1) Cons] mem Cons
      by (simp add: prvResetNextTaskUnblockTime_def)
  qed
qed

text \<open>The state in which the tick starts to look for tasks to wake.\<close>

definition tick_start :: "kernel \<Rightarrow> kernel" where
  "tick_start s = (let s' = s\<lparr>xTickCount := xTickCount s + 1\<rparr>
     in if xTickCount s + 1 = 0 then taskSWITCH_DELAYED_LISTS s' else s')"

lemma tick_start_ok:
  assumes ok: "sched_ok L T c s"
  shows "base_ok L T {} c (tick_start s)" "kls (tick_start s) = kls s" "tcbs (tick_start s) = tcbs s"
    "pxCurrentTCB (tick_start s) = pxCurrentTCB s" "xTickCount (tick_start s) = xTickCount s + 1"
    "uxSchedulerSuspended (tick_start s) = uxSchedulerSuspended s"
    "xYieldPending (tick_start s) = xYieldPending s" "xPendedTicks (tick_start s) = xPendedTicks s"
    "xSchedulerRunning (tick_start s) = xSchedulerRunning s"
    "uxCurrentNumberOfTasks (tick_start s) = uxCurrentNumberOfTasks s"
    "uxDeletedTasksWaitingCleanUp (tick_start s) = uxDeletedTasksWaitingCleanUp s"
    "kheap (tick_start s) = kheap s"
    "\<forall>i. cont (kls s) i = Some (pxDelayedTaskList (tick_start s)) \<longrightarrow>
       xTickCount s + 1 \<le> val (kls s) i \<and> xNextTaskUnblockTime (tick_start s) \<le> val (kls s) i"
    "\<forall>i. cont (kls s) i = Some (pxOverflowDelayedTaskList (tick_start s)) \<longrightarrow> val (kls s) i < xTickCount s + 1"
    "due T (xTickCount s + 1) (tick_start s) = {t \<in> T. blocked s t \<and> remaining s t = 1}"
proof -
  let ?now = "xTickCount s + 1" and ?s1 = "s\<lparr>xTickCount := xTickCount s + 1\<rparr>"
  note base = sched_okD(1)[OF ok] and times = sched_okD(2)[OF ok, unfolded times_ok_def]
  note lists = base_okD(6)[OF base, unfolded delayed_ok_def]
  have one: "remaining s t = 1 \<longleftrightarrow> val (kls s) (St t) = ?now" for t
    unfolding remaining_def by (rule ticks_left_1)
  let ?P = "\<lambda>u. base_ok L T {} c u \<and> kls u = kls s \<and> tcbs u = tcbs s \<and> pxCurrentTCB u = pxCurrentTCB s \<and>
    xTickCount u = ?now \<and> uxSchedulerSuspended u = uxSchedulerSuspended s \<and> xYieldPending u = xYieldPending s \<and>
    xPendedTicks u = xPendedTicks s \<and> xSchedulerRunning u = xSchedulerRunning s \<and>
    uxCurrentNumberOfTasks u = uxCurrentNumberOfTasks s \<and>
    uxDeletedTasksWaitingCleanUp u = uxDeletedTasksWaitingCleanUp s \<and> kheap u = kheap s \<and>
    (\<forall>i. cont (kls s) i = Some (pxDelayedTaskList u) \<longrightarrow> ?now \<le> val (kls s) i \<and> xNextTaskUnblockTime u \<le> val (kls s) i) \<and>
    (\<forall>i. cont (kls s) i = Some (pxOverflowDelayedTaskList u) \<longrightarrow> val (kls s) i < ?now) \<and>
    due T ?now u = {t \<in> T. blocked s t \<and> remaining s t = 1}"
  have "?P (tick_start s)"
  proof (cases "?now = 0")
    case False
    have lt: "xTickCount s < ?now" by (rule tick_less[OF False])
    have "?now \<le> val (kls s) i" if "cont (kls s) i = Some (pxDelayedTaskList s)" for i
      using times that by (intro inc_le) blast
    moreover have "val (kls s) i < ?now" if "cont (kls s) i = Some (pxOverflowDelayedTaskList s)" for i
      using times that lt by (meson less_trans)
    moreover have "val (kls s) i \<noteq> ?now" if "cont (kls s) i = Some (pxOverflowDelayedTaskList s)" for i
      using times that lt by (metis less_asym)
    ultimately show ?thesis
      using False base times blocked_iff[OF base] one by (auto simp: tick_start_def Let_def due_def)
  next
    case True
    have empty: "cont (kls s) i \<noteq> Some (pxDelayedTaskList s)" for i
      using times tick_max[OF True] by (meson not_le)
    let ?s2 = "?s1\<lparr>pxDelayedTaskList := pxOverflowDelayedTaskList s, pxOverflowDelayedTaskList := pxDelayedTaskList s,
      xNumOfOverflows := xNumOfOverflows s + 1\<rparr>"
    have "base_ok L T {} c ?s2"
      using base by (auto simp: base_ok_def tasks_ok_def ready_ok_def delayed_ok_def)
    then obtain n where n: "prvResetNextTaskUnblockTime ?s2 = ?s2\<lparr>xNextTaskUnblockTime := n\<rparr>"
        "\<forall>i. cont (kls ?s2) i = Some (pxDelayedTaskList ?s2) \<longrightarrow> n \<le> val (kls ?s2) i"
      by (rule base_reset)
    have e: "tick_start s = ?s2\<lparr>xNextTaskUnblockTime := n\<rparr>"
      using True n(1) by (simp add: tick_start_def taskSWITCH_DELAYED_LISTS_def)
    show ?thesis unfolding e
      using \<open>base_ok L T {} c ?s2\<close> n(2) empty True blocked_iff[OF base] one by (auto simp: due_def)
  qed
  then show "base_ok L T {} c (tick_start s)" "kls (tick_start s) = kls s" "tcbs (tick_start s) = tcbs s"
    "pxCurrentTCB (tick_start s) = pxCurrentTCB s" "xTickCount (tick_start s) = xTickCount s + 1"
    "uxSchedulerSuspended (tick_start s) = uxSchedulerSuspended s"
    "xYieldPending (tick_start s) = xYieldPending s" "xPendedTicks (tick_start s) = xPendedTicks s"
    "xSchedulerRunning (tick_start s) = xSchedulerRunning s"
    "uxCurrentNumberOfTasks (tick_start s) = uxCurrentNumberOfTasks s"
    "uxDeletedTasksWaitingCleanUp (tick_start s) = uxDeletedTasksWaitingCleanUp s"
    "kheap (tick_start s) = kheap s"
    "\<forall>i. cont (kls s) i = Some (pxDelayedTaskList (tick_start s)) \<longrightarrow>
       xTickCount s + 1 \<le> val (kls s) i \<and> xNextTaskUnblockTime (tick_start s) \<le> val (kls s) i"
    "\<forall>i. cont (kls s) i = Some (pxOverflowDelayedTaskList (tick_start s)) \<longrightarrow> val (kls s) i < xTickCount s + 1"
    "due T (xTickCount s + 1) (tick_start s) = {t \<in> T. blocked s t \<and> remaining s t = 1}"
    by blast+
qed

text \<open>The number of tasks on a ready list.\<close>

lemma ready_length:
  assumes ok: "base_ok L T X c s" and p: "p < 5"
  shows "listCURRENT_LIST_LENGTH p (kls s) > 1 \<longleftrightarrow> card {t \<in> T. cont (kls s) (St t) = Some p} > 1"
proof -
  have pL: "p \<in> L" using base_okD(2)[OF ok] p by simp
  note lok = base_okD(1)[OF ok]
  have "set (c p) = St ` {t \<in> T. cont (kls s) (St t) = Some p}"
  proof (intro set_eqI iffI)
    fix i assume "i \<in> set (c p)"
    then have i: "cont (kls s) i = Some p" using lists_okD(2)[OF lok] pL by blast
    moreover have "state_list p" using p by (simp add: state_list_def)
    ultimately obtain t where "t \<in> T" "i = St t" by (rule base_state_item[OF ok])
    with i show "i \<in> St ` {t \<in> T. cont (kls s) (St t) = Some p}" by blast
  qed (use lists_okD(2)[OF lok] in auto)
  moreover have "inj_on St A" for A by (auto simp: inj_on_def)
  ultimately have "length (c p) = card {t \<in> T. cont (kls s) (St t) = Some p}"
    using distinct_card[OF lists_ok_distinct[OF lok pL]] card_image[of St] by metis
  moreover have "(of_nat (length (c p)) :: 32 word) > 1 \<longleftrightarrow> length (c p) > 1"
    using lists_short[OF lok pL] by (simp add: word_less_nat_alt unat_of_nat)
  ultimately show ?thesis using lists_length[OF lok pL] by simp
qed

lemma xTaskIncrementTick_unfold:
  assumes "uxSchedulerSuspended s = 0"
  shows "xTaskIncrementTick s = do {
     (sw, u) \<leftarrow> (if xTickCount s + 1 \<ge> xNextTaskUnblockTime (tick_start s)
               then tick_loop (xTickCount s + 1) False (tick_start s) else Some (False, tick_start s));
     cur \<leftarrow> pxCurrentTCB u;
     Some (sw \<or> listCURRENT_LIST_LENGTH (unat (prio u cur)) (kls u) > 1 \<or> xYieldPending u, u)
   }"
proof -
  have "(if b then True else if a then True else sw) = (sw \<or> a \<or> b)" for a b sw by auto
  then show ?thesis
    using assms unfolding xTaskIncrementTick_def tick_start_def Let_def
    by (simp add: pxReadyTasksLists_def)
qed

lemma xTaskIncrementTick_spec:
  assumes ok: "sched_ok L T c s" and run: "uxSchedulerSuspended s = 0" and cur: "pxCurrentTCB s = Some cur"
  defines "W \<equiv> {t \<in> T. blocked s t \<and> remaining s t = 1}"
  obtains s' c' where
    "xTaskIncrementTick s = Some ((\<exists>t\<in>W. prio s t > prio s cur) \<or>
       card {t \<in> T. cont (kls s') (St t) = Some (unat (prio s cur))} > 1 \<or> xYieldPending s, s')"
    "sched_ok L T c' s'" "xTickCount s' = xTickCount s + 1" "tcbs s' = tcbs s" "pxCurrentTCB s' = Some cur"
    "\<forall>t. cont (kls s') (St t) = (if t \<in> W then Some (unat (prio s t)) else cont (kls s) (St t))"
    "\<forall>t. cont (kls s') (Ev t) = (if t \<in> W then None else cont (kls s) (Ev t))"
    "same_data (kls s) (kls s')" "uxSchedulerSuspended s' = 0" "xYieldPending s' = xYieldPending s"
    "xPendedTicks s' = xPendedTicks s" "xSchedulerRunning s' = xSchedulerRunning s"
    "uxCurrentNumberOfTasks s' = uxCurrentNumberOfTasks s"
    "uxDeletedTasksWaitingCleanUp s' = uxDeletedTasksWaitingCleanUp s" "kheap s' = kheap s"
    "\<forall>k<5. (\<forall>t\<in>W. unat (prio s t) \<noteq> k) \<longrightarrow> c' k = c k \<and> pxIndex (lists (kls s') k) = pxIndex (lists (kls s) k)"
proof -
  let ?now = "xTickCount s + 1" and ?s1 = "tick_start s"
  note 1 = tick_start_ok[OF ok]
  have W: "W = due T ?now ?s1" using 1(15) by (simp add: W_def)
  have cT: "cur \<in> T" using ok cur by (auto simp: sched_ok_def)
  have p5: "unat (prio s cur) < 5" using base_okD(3)[OF sched_okD(1)[OF ok]] cT by (simp add: tasks_ok_def)
  have "\<exists>s' c'. (if ?now \<ge> xNextTaskUnblockTime ?s1 then tick_loop ?now False ?s1 else Some (False, ?s1)) =
        Some ((\<exists>t\<in>due T ?now ?s1. prio ?s1 t > prio ?s1 cur), s') \<and>
     base_ok L T {} c' s' \<and> same_rest ?s1 s' \<and> same_data (kls ?s1) (kls s') \<and>
     (\<forall>t. cont (kls s') (St t) = (if t \<in> due T ?now ?s1 then Some (unat (prio ?s1 t)) else cont (kls ?s1) (St t))) \<and>
     (\<forall>t. cont (kls s') (Ev t) = (if t \<in> due T ?now ?s1 then None else cont (kls ?s1) (Ev t))) \<and>
     (\<forall>i. cont (kls s') i = Some (pxDelayedTaskList ?s1) \<longrightarrow>
        ?now < val (kls ?s1) i \<and> xNextTaskUnblockTime s' \<le> val (kls ?s1) i) \<and>
     (\<forall>k<5. (\<forall>t\<in>due T ?now ?s1. unat (prio ?s1 t) \<noteq> k) \<longrightarrow>
        c' k = c k \<and> pxIndex (lists (kls s') k) = pxIndex (lists (kls ?s1) k))"
  proof (cases "?now \<ge> xNextTaskUnblockTime ?s1")
    case True
    have "\<forall>i\<in>set (c (pxDelayedTaskList ?s1)). ?now \<le> val (kls ?s1) i"
      using 1(2,13) lists_okD(2)[OF base_okD(1)[OF 1(1)]] base_okD(2,6)[OF 1(1)]
      by (auto simp: delayed_ok_def)
    from tick_loop_wakes[OF 1(1) 1(4)[unfolded cur] this, of False] True show ?thesis by (simp only: if_True simp_thms)
  next
    case False
    have lt: "?now < val (kls s) i" if "cont (kls s) i = Some (pxDelayedTaskList ?s1)" for i
      using 1(13)[rule_format, OF that] False by auto
    then have "due T ?now ?s1 = {}" using 1(2) by (force simp: due_def)
    with False 1(1,2,13) lt show ?thesis
      by (intro exI[of _ ?s1] exI[of _ c]) (auto simp: same_rest_def same_data_def)
  qed
  then obtain s' c' where s':
      "(if ?now \<ge> xNextTaskUnblockTime ?s1 then tick_loop ?now False ?s1 else Some (False, ?s1)) =
        Some ((\<exists>t\<in>W. prio s t > prio s cur), s')"
      "base_ok L T {} c' s'" "same_rest ?s1 s'" "same_data (kls s) (kls s')"
      "\<forall>t. cont (kls s') (St t) = (if t \<in> W then Some (unat (prio s t)) else cont (kls s) (St t))"
      "\<forall>t. cont (kls s') (Ev t) = (if t \<in> W then None else cont (kls s) (Ev t))"
      "\<forall>i. cont (kls s') i = Some (pxDelayedTaskList ?s1) \<longrightarrow>
        ?now < val (kls s) i \<and> xNextTaskUnblockTime s' \<le> val (kls s) i"
      "\<forall>k<5. (\<forall>t\<in>W. unat (prio s t) \<noteq> k) \<longrightarrow> c' k = c k \<and> pxIndex (lists (kls s') k) = pxIndex (lists (kls s) k)"
    unfolding W[symmetric] 1(2,3) by (elim exE conjE)
  note f = same_rest_fields[OF s'(3)]
  have cur': "pxCurrentTCB s' = Some cur" using f(2) 1(4) cur by simp
  have e: "xTaskIncrementTick s = Some ((\<exists>t\<in>W. prio s t > prio s cur) \<or>
       card {t \<in> T. cont (kls s') (St t) = Some (unat (prio s cur))} > 1 \<or> xYieldPending s, s')"
    unfolding xTaskIncrementTick_unfold[OF run] s'(1)
    using cur' ready_length[OF s'(2) p5] f(1,6) 1(3,7) by simp
  have "val (kls s') i < ?now" if i: "cont (kls s') i = Some (pxOverflowDelayedTaskList s')" for i
  proof -
    have l: "pxOverflowDelayedTaskList s' = 5 \<or> pxOverflowDelayedTaskList s' = 6"
      using base_okD(6)[OF s'(2)] by (auto simp: delayed_ok_def)
    then have "state_list (pxOverflowDelayedTaskList s')" by (auto simp: state_list_def)
    from base_state_item[OF s'(2) i this] obtain t where t: "t \<in> T" "i = St t" .
    have "unat (prio s t) < 5" using base_okD(3)[OF sched_okD(1)[OF ok]] t(1) by (simp add: tasks_ok_def)
    then have "cont (kls s) i = Some (pxOverflowDelayedTaskList s')"
      using s'(5) i l t(2) by (auto split: if_splits)
    then show ?thesis using 1(14) f(4) same_dataD(1)[OF s'(4)] by simp
  qed
  then have "times_ok s'"
    using s'(7) f(3,5) 1(5) same_dataD(1)[OF s'(4)] by (simp add: times_ok_def)
  then have sok: "sched_ok L T c' s'" using s'(2) cur' cT by (simp add: sched_ok_def)
  show thesis
    by (rule that[OF e sok]) (use f 1 cur' run s'(4,5,6,8) in simp_all)
qed

subsection \<open>Context switches\<close>

lemma times_mono:
  assumes "times_ok s" "same_data (kls s) (kls s')"
    "\<And>i l. l = 5 \<or> l = 6 \<Longrightarrow> cont (kls s') i = Some l \<Longrightarrow> cont (kls s) i = Some l"
    "delayed_ok c s" "pxDelayedTaskList s' = pxDelayedTaskList s"
    "pxOverflowDelayedTaskList s' = pxOverflowDelayedTaskList s"
    "xTickCount s' = xTickCount s" "xNextTaskUnblockTime s' = xNextTaskUnblockTime s"
  shows "times_ok s'"
proof -
  have l: "pxDelayedTaskList s = 5 \<or> pxDelayedTaskList s = 6"
    "pxOverflowDelayedTaskList s = 5 \<or> pxOverflowDelayedTaskList s = 6"
    using assms(4) by (auto simp: delayed_ok_def)
  show ?thesis
    using assms(1) same_dataD(1)[OF assms(2)] assms(3)[OF l(1)] assms(3)[OF l(2)]
    unfolding times_ok_def assms(5-8) by simp
qed

lemma ready_prio:
  assumes "base_ok L T X c s" "t \<in> T" "cont (kls s) (St t) = Some p" "p < 5"
  shows "unat (prio s t) = p" "ready s t"
  using base_okD(5)[OF assms(1)] assms(2-4) by (auto simp: ready_ok_def ready_def pxReadyTasksLists_def)

lemma ready_cont:
  assumes "base_ok L T X c s" "t \<in> T" "ready s t"
  shows "cont (kls s) (St t) = Some (unat (prio s t))" "unat (prio s t) < 5"
  using assms base_okD(3)[OF assms(1)] by (auto simp: tasks_ok_def ready_def pxReadyTasksLists_def)

text \<open>The task that is selected: ready, and of the highest priority of all ready tasks.\<close>

definition top_task :: "nat set \<Rightarrow> kernel \<Rightarrow> nat \<Rightarrow> bool" where
  "top_task T s t \<longleftrightarrow> t \<in> T \<and> ready s t \<and> (\<forall>u\<in>T. ready s u \<longrightarrow> prio s u \<le> prio s t)"

lemma vTaskSwitchContext_spec:
  assumes ok: "sched_ok L T c s" and run: "uxSchedulerSuspended s = 0" and u: "u \<in> T" "ready s u"
  obtains s' t K' q ys where "vTaskSwitchContext s = Some s'" "sched_ok L T c s'"
    "s' = s\<lparr>xYieldPending := False, kls := K', pxCurrentTCB := Some t, uxTopReadyPriority := q\<rparr>"
    "top_task T s' t" "same_data (kls s) K'" "cont K' = cont (kls s)"
    "order (kls s) (unat (prio s t)) (c (unat (prio s t))) = St t # ys"
    "order K' (unat (prio s t)) (c (unat (prio s t))) = ys @ [St t]"
proof -
  let ?s = "s\<lparr>xYieldPending := False\<rparr>"
  note base = sched_okD(1)[OF ok]
  have b: "base_ok L T {} c ?s" using base by simp
  have cu: "cont (kls ?s) (St u) = Some (unat (prio s u))" "unat (prio s u) < 5"
    using ready_cont[OF base u] by simp_all
  obtain K' t m ys where sel:
    "taskSELECT_HIGHEST_PRIORITY_TASK ?s = Some (?s\<lparr>kls := K', pxCurrentTCB := Some t, uxTopReadyPriority := of_nat m\<rparr>)"
    "base_ok L T {} c (?s\<lparr>kls := K', pxCurrentTCB := Some t, uxTopReadyPriority := of_nat m\<rparr>)"
    "same_data (kls ?s) K'" "cont K' = cont (kls ?s)" "t \<in> T" "cont (kls ?s) (St t) = Some m" "m < 5"
    "\<forall>v\<in>T. \<forall>p<5. cont (kls ?s) (St v) = Some p \<longrightarrow> p \<le> m"
    "order (kls ?s) m (c m) = St t # ys" "order K' m (c m) = ys @ [St t]"
    "\<forall>k. k \<noteq> m \<longrightarrow> pxIndex (lists K' k) = pxIndex (lists (kls ?s) k)"
    by (rule base_select[OF b u(1) cu])
  define s' where "s' = s\<lparr>xYieldPending := False, kls := K', pxCurrentTCB := Some t, uxTopReadyPriority := of_nat m\<rparr>"
  have m: "unat (prio s t) = m" using ready_prio(1)[OF base sel(5)] sel(6,7) by simp
  have b': "base_ok L T {} c s'" using sel(2) by (simp add: s'_def)
  have "times_ok s'"
    by (rule times_mono[OF sched_okD(2)[OF ok] _ _ base_okD(6)[OF base]]) (use sel(3,4) in \<open>simp_all add: s'_def\<close>)
  then have sok: "sched_ok L T c s'" using b' sel(5) by (simp add: sched_ok_def s'_def)
  have rdy: "ready s' t" using ready_prio(2)[OF b' sel(5)] sel(4,6,7) by (simp add: s'_def)
  have "prio s' v \<le> prio s' t" if v: "v \<in> T" "ready s' v" for v
    using ready_cont[OF b' v] sel(4,8) v(1) m by (simp add: s'_def word_le_nat_alt)
  then have top: "top_task T s' t" using rdy sel(5) by (simp add: top_task_def)
  show thesis
    by (rule that[OF _ sok s'_def top]) (use run sel m in \<open>simp_all add: vTaskSwitchContext_def s'_def\<close>)
qed

end
