(* ===== verification/Tasks_Delay.thy ===== *)
theory Tasks_Delay
  imports Tasks_Time
begin

section \<open>Delays\<close>

text \<open>
  The passage of time over many ticks, blocking, resuming the scheduler, and what the two together
  give: a delay ends with exactly the tick it asked for, across the wrap-around of the tick count,
  and a task of higher priority runs from that tick on.
\<close>

subsection \<open>Fields the invariant does not depend on\<close>

lemma times_ok_other [simp]:
  "times_ok (s\<lparr>kheap := a1\<rparr>) = times_ok s" "times_ok (s\<lparr>kstack := a2\<rparr>) = times_ok s"
  "times_ok (s\<lparr>pxCurrentTCB := a3\<rparr>) = times_ok s"
  "times_ok (s\<lparr>uxDeletedTasksWaitingCleanUp := a4\<rparr>) = times_ok s"
  "times_ok (s\<lparr>uxCurrentNumberOfTasks := a5\<rparr>) = times_ok s"
  "times_ok (s\<lparr>xSchedulerRunning := a7\<rparr>) = times_ok s" "times_ok (s\<lparr>xPendedTicks := a8\<rparr>) = times_ok s"
  "times_ok (s\<lparr>xYieldPending := a9\<rparr>) = times_ok s" "times_ok (s\<lparr>xNumOfOverflows := b1\<rparr>) = times_ok s"
  "times_ok (s\<lparr>uxTaskNumber := b2\<rparr>) = times_ok s" "times_ok (s\<lparr>uxSchedulerSuspended := b5\<rparr>) = times_ok s"
  "times_ok (s\<lparr>tcbs := b6\<rparr>) = times_ok s"
  by (simp_all add: times_ok_def)

lemma sched_ok_other [simp]:
  "sched_ok L T c (s\<lparr>kheap := a1\<rparr>) = sched_ok L T c s" "sched_ok L T c (s\<lparr>kstack := a2\<rparr>) = sched_ok L T c s"
  "sched_ok L T c (s\<lparr>uxDeletedTasksWaitingCleanUp := a4\<rparr>) = sched_ok L T c s"
  "sched_ok L T c (s\<lparr>uxCurrentNumberOfTasks := a5\<rparr>) = sched_ok L T c s"
  "sched_ok L T c (s\<lparr>xSchedulerRunning := a7\<rparr>) = sched_ok L T c s"
  "sched_ok L T c (s\<lparr>xPendedTicks := a8\<rparr>) = sched_ok L T c s"
  "sched_ok L T c (s\<lparr>xYieldPending := a9\<rparr>) = sched_ok L T c s"
  "sched_ok L T c (s\<lparr>xNumOfOverflows := b1\<rparr>) = sched_ok L T c s"
  "sched_ok L T c (s\<lparr>uxTaskNumber := b2\<rparr>) = sched_ok L T c s"
  "sched_ok L T c (s\<lparr>uxSchedulerSuspended := b5\<rparr>) = sched_ok L T c s"
  by (simp_all add: sched_ok_def)

lemma views_other [simp]:
  "blocked (s\<lparr>xYieldPending := a\<rparr>) t = blocked s t" "remaining (s\<lparr>xYieldPending := a\<rparr>) t = remaining s t"
  "ready (s\<lparr>xYieldPending := a\<rparr>) t = ready s t"
  "blocked (s\<lparr>uxSchedulerSuspended := b\<rparr>) t = blocked s t" "remaining (s\<lparr>uxSchedulerSuspended := b\<rparr>) t = remaining s t"
  "ready (s\<lparr>uxSchedulerSuspended := b\<rparr>) t = ready s t"
  "blocked (s\<lparr>xPendedTicks := d\<rparr>) t = blocked s t" "remaining (s\<lparr>xPendedTicks := d\<rparr>) t = remaining s t"
  "ready (s\<lparr>xPendedTicks := d\<rparr>) t = ready s t"
  by (simp_all add: blocked_def remaining_def ready_def)

text \<open>What time and yields leave alone, and the promise that no preemption is missed: a task that
  became ready and has a higher priority than the running one leaves a pending yield.\<close>

definition same_ctrl :: "kernel \<Rightarrow> kernel \<Rightarrow> bool" where
  "same_ctrl s s' \<longleftrightarrow> tcbs s' = tcbs s \<and> kheap s' = kheap s \<and> xSchedulerRunning s' = xSchedulerRunning s \<and>
     uxCurrentNumberOfTasks s' = uxCurrentNumberOfTasks s \<and>
     uxDeletedTasksWaitingCleanUp s' = uxDeletedTasksWaitingCleanUp s"

lemma same_ctrl_trans: "same_ctrl s t \<Longrightarrow> same_ctrl t u \<Longrightarrow> same_ctrl s u"
  by (simp add: same_ctrl_def)

definition alert :: "nat set \<Rightarrow> nat \<Rightarrow> kernel \<Rightarrow> kernel \<Rightarrow> bool" where
  "alert T cur s s' \<longleftrightarrow> tcbs s' = tcbs s \<and> (xYieldPending s \<longrightarrow> xYieldPending s') \<and>
     (\<not> xYieldPending s' \<longrightarrow> (\<forall>t\<in>T. ready s' t \<longrightarrow> ready s t \<or> prio s t \<le> prio s cur))"

lemma alert_refl [simp]: "alert T cur s s"
  by (simp add: alert_def)

lemma alert_trans:
  assumes 1: "alert T cur s s'" and 2: "alert T cur s' s''"
  shows "alert T cur s s''"
proof -
  have "ready s t \<or> prio s t \<le> prio s cur" if "\<not> xYieldPending s''" "t \<in> T" "ready s'' t" for t
    using that 1 2 unfolding alert_def by metis
  then show ?thesis using 1 2 by (simp add: alert_def)
qed

subsection \<open>The passage of time\<close>

text \<open>The blocked tasks whose time is up within \<open>n\<close> ticks, and what \<open>n\<close> ticks do to the tasks.\<close>

definition expired :: "nat set \<Rightarrow> nat \<Rightarrow> kernel \<Rightarrow> nat set" where
  "expired T n s = {t \<in> T. blocked s t \<and> remaining s t \<le> n}"

definition passes :: "nat set \<Rightarrow> nat \<Rightarrow> kernel \<Rightarrow> kernel \<Rightarrow> bool" where
  "passes T n s s' \<longleftrightarrow> xTickCount s' = xTickCount s + of_nat n \<and> tcbs s' = tcbs s \<and> same_data (kls s) (kls s') \<and>
     (\<forall>t. cont (kls s') (St t) = (if t \<in> expired T n s then Some (unat (prio s t)) else cont (kls s) (St t))) \<and>
     (\<forall>t. cont (kls s') (Ev t) = (if t \<in> expired T n s then None else cont (kls s) (Ev t)))"

lemma expired_0: "sched_ok L T c s \<Longrightarrow> expired T 0 s = {}"
  using remaining_pos by (fastforce simp: expired_def)

lemma expired_1: "sched_ok L T c s \<Longrightarrow> expired T 1 s = {t \<in> T. blocked s t \<and> remaining s t = 1}"
  using remaining_pos[of L T c s] by (fastforce simp: expired_def le_Suc_eq)

lemma passes_0: "sched_ok L T c s \<Longrightarrow> passes T 0 s s"
  by (simp add: passes_def expired_0 same_data_def)

lemma passes_task:
  assumes ok: "sched_ok L T c s" and p: "passes T n s s'" and t: "t \<in> T"
  shows "blocked s' t \<longleftrightarrow> blocked s t \<and> n < remaining s t"
    "blocked s t \<Longrightarrow> n \<le> remaining s t \<Longrightarrow> remaining s' t = remaining s t - n"
    "ready s t \<Longrightarrow> ready s' t" "blocked s t \<Longrightarrow> remaining s t \<le> n \<Longrightarrow> ready s' t"
proof -
  have p5: "unat (prio s t) < 5" using base_okD(3)[OF sched_okD(1)[OF ok]] t by (simp add: tasks_ok_def)
  have c: "cont (kls s') (St t) = (if t \<in> expired T n s then Some (unat (prio s t)) else cont (kls s) (St t))"
    using p by (simp add: passes_def)
  have tc: "tcbs s' = tcbs s" using p by (simp add: passes_def)
  show "blocked s' t \<longleftrightarrow> blocked s t \<and> n < remaining s t"
    using p5 c t by (auto simp: blocked_def expired_def xDelayedTaskList1_def xDelayedTaskList2_def)
  show "ready s t \<Longrightarrow> ready s' t" "blocked s t \<Longrightarrow> remaining s t \<le> n \<Longrightarrow> ready s' t"
    using c t tc by (auto simp: ready_def pxReadyTasksLists_def expired_def)
  show "remaining s' t = remaining s t - n" if b: "blocked s t" "n \<le> remaining s t"
  proof -
    have "n < 2 ^ 32" using b(2) unat_bounds(3)[of "val (kls s) (St t) - xTickCount s"] by (simp add: remaining_def)
    then have n: "unat (of_nat n :: 32 word) = n" by (simp add: unat_of_nat)
    have "val (kls s') (St t) - xTickCount s' = (val (kls s) (St t) - xTickCount s) - of_nat n"
      using p same_dataD(1)[of "kls s" "kls s'"] by (simp add: passes_def diff_diff_eq)
    moreover have "(of_nat n :: 32 word) \<le> val (kls s) (St t) - xTickCount s"
      using b(2) n by (simp add: word_le_nat_alt remaining_def)
    ultimately show ?thesis using n by (simp add: remaining_def unat_sub)
  qed
qed

lemma passes_trans:
  assumes ok: "sched_ok L T c s" and 1: "passes T m s s'" and 2: "passes T n s' s''"
  shows "passes T (m + n) s s''"
proof -
  note task = passes_task[OF ok 1]
  have mem: "t \<in> expired T (m + n) s \<longleftrightarrow> t \<in> expired T m s \<or> t \<in> expired T n s'" for t
  proof (cases "t \<in> T \<and> blocked s t")
    case True
    then show ?thesis using task(1,2)[of t] by (cases "m < remaining s t") (auto simp: expired_def)
  next
    case False
    then show ?thesis using task(1)[of t] by (auto simp: expired_def)
  qed
  have 3: "xTickCount s'' = xTickCount s + of_nat (m + n)" "tcbs s'' = tcbs s" "same_data (kls s) (kls s'')"
    using 1 2 same_data_trans by (auto simp: passes_def add.assoc)
  have "cont (kls s'') (St t) = (if t \<in> expired T (m + n) s then Some (unat (prio s t)) else cont (kls s) (St t))"
    "cont (kls s'') (Ev t) = (if t \<in> expired T (m + n) s then None else cont (kls s) (Ev t))" for t
    using 1 2 unfolding passes_def mem by auto
  with 3 show ?thesis by (simp add: passes_def)
qed

lemma passes_yield [simp]:
  "passes T n (s\<lparr>xYieldPending := a\<rparr>) s' = passes T n s s'" "passes T n s (s'\<lparr>xYieldPending := a\<rparr>) = passes T n s s'"
  by (simp_all add: passes_def expired_def)

lemma tick_passes:
  assumes ok: "sched_ok L T c s" and run: "uxSchedulerSuspended s = 0" and cur: "pxCurrentTCB s = Some cur"
  obtains s' c' where
    "xTaskIncrementTick s = Some ((\<exists>t\<in>expired T 1 s. prio s t > prio s cur) \<or>
       card {t \<in> T. cont (kls s') (St t) = Some (unat (prio s cur))} > 1 \<or> xYieldPending s, s')"
    "sched_ok L T c' s'" "passes T 1 s s'" "pxCurrentTCB s' = Some cur" "uxSchedulerSuspended s' = 0" "same_ctrl s s'"
    "alert T cur s (if (\<exists>t\<in>expired T 1 s. prio s t > prio s cur) \<or>
       card {t \<in> T. cont (kls s') (St t) = Some (unat (prio s cur))} > 1 \<or> xYieldPending s
       then s'\<lparr>xYieldPending := True\<rparr> else s')"
    "xYieldPending s' = xYieldPending s"
    "\<forall>k<5. (\<forall>t\<in>expired T 1 s. unat (prio s t) \<noteq> k) \<longrightarrow> c' k = c k \<and> pxIndex (lists (kls s') k) = pxIndex (lists (kls s) k)"
proof -
  obtain s' c' where s':
    "xTaskIncrementTick s = Some ((\<exists>t\<in>{t \<in> T. blocked s t \<and> remaining s t = 1}. prio s t > prio s cur) \<or>
       card {t \<in> T. cont (kls s') (St t) = Some (unat (prio s cur))} > 1 \<or> xYieldPending s, s')"
    "sched_ok L T c' s'" "xTickCount s' = xTickCount s + 1" "tcbs s' = tcbs s" "pxCurrentTCB s' = Some cur"
    "\<forall>t. cont (kls s') (St t) = (if t \<in> {t \<in> T. blocked s t \<and> remaining s t = 1} then Some (unat (prio s t)) else cont (kls s) (St t))"
    "\<forall>t. cont (kls s') (Ev t) = (if t \<in> {t \<in> T. blocked s t \<and> remaining s t = 1} then None else cont (kls s) (Ev t))"
    "same_data (kls s) (kls s')" "uxSchedulerSuspended s' = 0" "xYieldPending s' = xYieldPending s"
    "xPendedTicks s' = xPendedTicks s" "xSchedulerRunning s' = xSchedulerRunning s"
    "uxCurrentNumberOfTasks s' = uxCurrentNumberOfTasks s"
    "uxDeletedTasksWaitingCleanUp s' = uxDeletedTasksWaitingCleanUp s" "kheap s' = kheap s"
    "\<forall>k<5. (\<forall>t\<in>{t \<in> T. blocked s t \<and> remaining s t = 1}. unat (prio s t) \<noteq> k) \<longrightarrow>
       c' k = c k \<and> pxIndex (lists (kls s') k) = pxIndex (lists (kls s) k)"
    by (rule xTaskIncrementTick_spec[OF ok run cur])
  note s'' = s'[folded expired_1[OF ok]]
  have "passes T 1 s s'" using s''(3,4,6,7,8) by (simp add: passes_def)
  moreover have "same_ctrl s s'" using s'' by (simp add: same_ctrl_def)
  moreover have "alert T cur s (if (\<exists>t\<in>expired T 1 s. prio s t > prio s cur) \<or>
       card {t \<in> T. cont (kls s') (St t) = Some (unat (prio s cur))} > 1 \<or> xYieldPending s
       then s'\<lparr>xYieldPending := True\<rparr> else s')"
    using s''(4,6,10) by (auto simp: alert_def ready_def not_less)
  ultimately show thesis using s''(10,16) by (intro that[OF s''(1,2) _ s''(5,9)])
qed

lemma replay_ticks_spec:
  assumes "sched_ok L T c s" "uxSchedulerSuspended s = 0" "pxCurrentTCB s = Some cur"
  shows "\<exists>s' c'. replay_ticks n s = Some s' \<and> sched_ok L T c' s' \<and> passes T n s s' \<and> pxCurrentTCB s' = Some cur \<and>
     uxSchedulerSuspended s' = 0 \<and> same_ctrl s s' \<and> alert T cur s s'"
  using assms
proof (induction n arbitrary: s c)
  case 0
  then show ?case using passes_0 by (auto simp: same_ctrl_def)
next
  case (Suc n)
  obtain s1 c1 sw where 1: "xTaskIncrementTick s = Some (sw, s1)" "sched_ok L T c1 s1" "passes T 1 s s1"
      "pxCurrentTCB s1 = Some cur" "uxSchedulerSuspended s1 = 0" "same_ctrl s s1"
      "alert T cur s (if sw then s1\<lparr>xYieldPending := True\<rparr> else s1)"
    by (rule tick_passes[OF Suc.prems])
  define s2 where "s2 = (if sw then s1\<lparr>xYieldPending := True\<rparr> else s1)"
  have 2: "sched_ok L T c1 s2" "uxSchedulerSuspended s2 = 0" "pxCurrentTCB s2 = Some cur" "same_ctrl s s2"
    using 1 by (simp_all add: s2_def same_ctrl_def)
  obtain s' c' where 3: "replay_ticks n s2 = Some s'" "sched_ok L T c' s'" "passes T n s2 s'" "pxCurrentTCB s' = Some cur"
      "uxSchedulerSuspended s' = 0" "same_ctrl s2 s'" "alert T cur s2 s'"
    using Suc.IH[OF 2(1-3)] by (elim exE conjE)
  have "passes T (1 + n) s s'"
    by (rule passes_trans[OF Suc.prems(1) 1(3)]) (use 3(3) in \<open>simp add: s2_def split: if_splits\<close>)
  moreover have "replay_ticks (Suc n) s = Some s'" using 1(1) 3(1) by (simp add: s2_def)
  ultimately show ?case
    using 3 same_ctrl_trans[OF 2(4) 3(6)] alert_trans[OF 1(7)[folded s2_def] 3(7)] by auto
qed

subsection \<open>The tick interrupt\<close>

primrec run_ticks :: "nat \<Rightarrow> kernel \<Rightarrow> kernel option" where
  "run_ticks 0 s = Some s"
| "run_ticks (Suc n) s = Option.bind (tick_isr s) (run_ticks n)"

lemma tick_isr_spec:
  assumes ok: "sched_ok L T c s" and run: "uxSchedulerSuspended s = 0" and cur: "pxCurrentTCB s = Some cur"
    and u: "u \<in> T" "ready s u"
  obtains s' c' cur' where "tick_isr s = Some s'" "sched_ok L T c' s'" "passes T 1 s s'" "uxSchedulerSuspended s' = 0"
    "pxCurrentTCB s' = Some cur'" "(\<exists>t\<in>expired T 1 s. prio s t > prio s cur) \<longrightarrow> top_task T s' cur'"
    "top_task T s' cur' \<or> cur' = cur \<and> alert T cur s s' \<and> \<not> xYieldPending s" "same_ctrl s s'"
proof -
  obtain s1 c1 where 1: "xTaskIncrementTick s = Some ((\<exists>t\<in>expired T 1 s. prio s t > prio s cur) \<or>
       card {t \<in> T. cont (kls s1) (St t) = Some (unat (prio s cur))} > 1 \<or> xYieldPending s, s1)"
      "sched_ok L T c1 s1" "passes T 1 s s1" "pxCurrentTCB s1 = Some cur" "uxSchedulerSuspended s1 = 0" "same_ctrl s s1"
      "alert T cur s (if (\<exists>t\<in>expired T 1 s. prio s t > prio s cur) \<or>
       card {t \<in> T. cont (kls s1) (St t) = Some (unat (prio s cur))} > 1 \<or> xYieldPending s
       then s1\<lparr>xYieldPending := True\<rparr> else s1)"
    by (rule tick_passes[OF ok run cur])
  show thesis
  proof (cases "(\<exists>t\<in>expired T 1 s. prio s t > prio s cur) \<or>
       card {t \<in> T. cont (kls s1) (St t) = Some (unat (prio s cur))} > 1 \<or> xYieldPending s")
    case False
    have "alert T cur s s1" using 1(7) by (simp only: if_not_P[OF False])
    then show thesis using False 1(1-6) by (intro that[of s1 c1 cur]) (simp_all add: tick_isr_def)
  next
    case True
    have "ready s1 u" using passes_task(3)[OF ok 1(3) u(1)] u(2) by simp
    then obtain s2 t K' q ys where 2: "vTaskSwitchContext s1 = Some s2" "sched_ok L T c1 s2"
        "s2 = s1\<lparr>xYieldPending := False, kls := K', pxCurrentTCB := Some t, uxTopReadyPriority := q\<rparr>"
        "top_task T s2 t" "same_data (kls s1) K'" "cont K' = cont (kls s1)"
        "order (kls s1) (unat (prio s1 t)) (c1 (unat (prio s1 t))) = St t # ys"
        "order K' (unat (prio s1 t)) (c1 (unat (prio s1 t))) = ys @ [St t]"
      by (rule vTaskSwitchContext_spec[OF 1(2,5) u(1)])
    have "passes T 1 s s2"
      using 1(3) 2(5,6) same_data_trans unfolding 2(3) by (fastforce simp: passes_def)
    moreover have "same_ctrl s s2" using 1(6) unfolding 2(3) by (simp add: same_ctrl_def)
    ultimately show thesis using True 1(1,5) 2 by (intro that[of s2 c1 t]) (simp_all add: tick_isr_def)
  qed
qed

lemma run_ticks_spec:
  assumes "sched_ok L T c s" "uxSchedulerSuspended s = 0" "u \<in> T" "ready s u"
  shows "\<exists>s' c'. run_ticks n s = Some s' \<and> sched_ok L T c' s' \<and> passes T n s s' \<and> uxSchedulerSuspended s' = 0"
  using assms
proof (induction n arbitrary: s c)
  case 0
  then show ?case using passes_0 by auto
next
  case (Suc n)
  obtain cur where cur: "pxCurrentTCB s = Some cur" using Suc.prems(1) by (auto simp: sched_ok_def)
  obtain s1 c1 cur' where 1: "tick_isr s = Some s1" "sched_ok L T c1 s1" "passes T 1 s s1" "uxSchedulerSuspended s1 = 0"
      "pxCurrentTCB s1 = Some cur'" "(\<exists>t\<in>expired T 1 s. prio s t > prio s cur) \<longrightarrow> top_task T s1 cur'"
      "top_task T s1 cur' \<or> cur' = cur \<and> alert T cur s s1 \<and> \<not> xYieldPending s" "same_ctrl s s1"
    by (rule tick_isr_spec[OF Suc.prems(1,2) cur Suc.prems(3,4)])
  have "ready s1 u" using passes_task(3)[OF Suc.prems(1) 1(3) Suc.prems(3)] Suc.prems(4) by simp
  from Suc.IH[OF 1(2,4) Suc.prems(3) this] obtain s' c' where
      2: "run_ticks n s1 = Some s'" "sched_ok L T c' s'" "passes T n s1 s'" "uxSchedulerSuspended s' = 0"
    by (elim exE conjE)
  then show ?case using passes_trans[OF Suc.prems(1) 1(3) 2(3)] 1(1)
    by (intro exI[of _ s'] exI[of _ c']) simp
qed

lemma run_ticks_last: "run_ticks (Suc n) s = Option.bind (run_ticks n s) tick_isr"
proof (induction n arbitrary: s)
  case 0
  show ?case by (cases "tick_isr s") simp_all
next
  case (Suc n)
  show ?case using Suc.IH by (cases "tick_isr s") simp_all
qed

subsection \<open>Blocking the running task\<close>

lemma add_to_delayed_spec:
  assumes ok: "sched_ok L T c s" and cur: "pxCurrentTCB s = Some cur" and n: "n \<noteq> 0"
    and fin: "\<not> (n = portMAX_DELAY \<and> indef)"
  obtains s' c' where "prvAddCurrentTaskToDelayedList n indef s = Some s'" "sched_ok L T c' s'"
    "blocked s' cur" "remaining s' cur = unat n" "same_rest s s'"
    "\<forall>i. i \<noteq> St cur \<longrightarrow> cont (kls s') i = cont (kls s) i \<and> val (kls s') i = val (kls s) i"
proof -
  let ?w = "xTickCount s + n"
  note base = sched_okD(1)[OF ok] and times = sched_okD(2)[OF ok, unfolded times_ok_def]
  have cT: "cur \<in> T" using ok cur by (auto simp: sched_ok_def)
  obtain l K1 where 1: "cont (kls s) (St cur) = Some l" "state_list l"
      "k_remove (St cur) s = Some (s\<lparr>kls := K1\<rparr>)" "k_REMOVE (St cur) s = Some (s\<lparr>kls := K1\<rparr>)"
      "base_ok L T {cur} (c(l := remove1 (St cur) (c l))) (s\<lparr>kls := K1\<rparr>)"
      "same_data (kls s) K1" "cont K1 = (cont (kls s))(St cur := None)"
    by (rule base_remove_state[OF base cT])
  let ?c1 = "c(l := remove1 (St cur) (c l))"
  define s2 where "s2 = k_set_value (St cur) ?w (s\<lparr>kls := K1\<rparr>)"
  have off: "cont (kls (s\<lparr>kls := K1\<rparr>)) (St cur) \<noteq> Some 5" "cont (kls (s\<lparr>kls := K1\<rparr>)) (St cur) \<noteq> Some 6"
    by (simp_all add: 1(7))
  note 2 = base_set_value[OF 1(5) off, of ?w, folded s2_def]
  have s2: "s2 = s\<lparr>kls := kls s2\<rparr>" by (simp add: s2_def k_set_value_def)
  have f2: "pxDelayedTaskList s2 = pxDelayedTaskList s" "pxOverflowDelayedTaskList s2 = pxOverflowDelayedTaskList s"
    "xNextTaskUnblockTime s2 = xNextTaskUnblockTime s" "xTickCount s2 = xTickCount s" "pxCurrentTCB s2 = Some cur"
    using cur by (subst s2, simp)+
  define over where "over = (?w < xTickCount s)"
  define dl where "dl = (if over then pxOverflowDelayedTaskList s else pxDelayedTaskList s)"
  have dl: "dl = 5 \<or> dl = 6" using base_okD(6)[OF base] by (auto simp: delayed_ok_def dl_def)
  obtain K3 where 3: "k_insert dl (St cur) s2 = Some (s2\<lparr>kls := K3\<rparr>)"
      "base_ok L T {} (?c1(dl := insort_after (kls s2) (St cur) (?c1 dl))) (s2\<lparr>kls := K3\<rparr>)"
      "same_data (kls s2) K3" "cont K3 = (cont (kls s2))(St cur := Some dl)"
    by (rule base_insert_delayed[OF 2(1) cT dl])
  define nx where "nx = (if \<not> over \<and> ?w < xNextTaskUnblockTime s then ?w else xNextTaskUnblockTime s)"
  define s' where "s' = s\<lparr>kls := K3, xNextTaskUnblockTime := nx\<rparr>"
  have upd: "s2\<lparr>kls := K3\<rparr> = s\<lparr>kls := K3\<rparr>" by (subst s2) simp
  have nxs: "s\<lparr>kls := K3\<rparr> = s\<lparr>kls := K3, xNextTaskUnblockTime := xNextTaskUnblockTime s\<rparr>" by simp
  have e: "prvAddCurrentTaskToDelayedList n indef s = Some s'"
    using fin cur 1(3) 3(1) nxs unfolding prvAddCurrentTaskToDelayedList_def Let_def
    by (cases over) (auto simp: s2_def[symmetric] f2 upd dl_def over_def s'_def nx_def)
  have vals: "val K3 i = (if i = St cur then ?w else val (kls s) i)" for i
    using same_dataD(1)[OF 3(3), of i] 2(2)[of i] same_dataD(1)[OF 1(6), of i] by simp
  have co: "cont K3 = (cont (kls s))(St cur := Some dl)" using 3(4) 2(4) 1(7) by simp
  have gt: "xTickCount s < ?w" if "\<not> over"
  proof -
    have "?w \<noteq> xTickCount s" using n by simp
    moreover have "xTickCount s \<le> ?w" using that by (simp add: over_def not_less)
    ultimately show ?thesis by (metis order.not_eq_order_implies_strict)
  qed
  have ne: "pxDelayedTaskList s \<noteq> pxOverflowDelayedTaskList s"
    using base_okD(6)[OF base] by (auto simp: delayed_ok_def)
  have nxle: "nx \<le> xNextTaskUnblockTime s" by (auto simp: nx_def intro: less_imp_le)
  have a: "xTickCount s < val K3 i \<and> nx \<le> val K3 i" if i: "cont K3 i = Some (pxDelayedTaskList s)" for i
  proof (cases "i = St cur")
    case True
    then have "\<not> over" using i ne by (auto simp: co dl_def split: if_splits)
    then show ?thesis using gt True by (auto simp: vals nx_def)
  next
    case False
    then have "cont (kls s) i = Some (pxDelayedTaskList s)" using i by (simp add: co)
    then show ?thesis using times nxle False by (auto simp: vals intro: order_trans)
  qed
  have b: "val K3 i < xTickCount s" if i: "cont K3 i = Some (pxOverflowDelayedTaskList s)" for i
    using i times ne by (cases "i = St cur") (auto simp: vals co dl_def over_def split: if_splits)
  have "times_ok s'" using a b by (simp add: times_ok_def s'_def)
  moreover have "base_ok L T {} (?c1(dl := insort_after (kls s2) (St cur) (?c1 dl))) s'"
    using 3(2) unfolding upd s'_def by simp
  ultimately have sok: "sched_ok L T (?c1(dl := insort_after (kls s2) (St cur) (?c1 dl))) s'"
    using cur cT by (simp add: sched_ok_def s'_def)
  show thesis
  proof (rule that[OF e sok])
    show "blocked s' cur" using dl by (auto simp: blocked_def s'_def co xDelayedTaskList1_def xDelayedTaskList2_def)
    show "remaining s' cur = unat n" by (simp add: remaining_def s'_def vals)
    show "same_rest s s'" by (simp add: same_rest_def s'_def)
    show "\<forall>i. i \<noteq> St cur \<longrightarrow> cont (kls s') i = cont (kls s) i \<and> val (kls s') i = val (kls s) i"
      by (simp add: s'_def co vals)
  qed
qed

subsection \<open>Resuming the scheduler\<close>

text \<open>The tasks that were readied while the scheduler was suspended, and what readying them does.\<close>

definition pending :: "nat set \<Rightarrow> kernel \<Rightarrow> nat set" where
  "pending T s = {t \<in> T. cont (kls s) (Ev t) = Some xPendingReadyList}"

definition unpends :: "nat set \<Rightarrow> kernel \<Rightarrow> kernel \<Rightarrow> bool" where
  "unpends T s s' \<longleftrightarrow> xTickCount s' = xTickCount s \<and> tcbs s' = tcbs s \<and> same_data (kls s) (kls s') \<and>
     (\<forall>t. cont (kls s') (St t) = (if t \<in> pending T s then Some (unat (prio s t)) else cont (kls s) (St t))) \<and>
     (\<forall>t. cont (kls s') (Ev t) = (if t \<in> pending T s then None else cont (kls s) (Ev t)))"

definition same_rest_y :: "kernel \<Rightarrow> kernel \<Rightarrow> bool" where
  "same_rest_y s s' \<longleftrightarrow> s' = s\<lparr>kls := kls s', uxTopReadyPriority := uxTopReadyPriority s', xYieldPending := xYieldPending s'\<rparr>"

lemma same_rest_y_fields:
  assumes "same_rest_y s s'"
  shows "tcbs s' = tcbs s" "pxCurrentTCB s' = pxCurrentTCB s" "pxDelayedTaskList s' = pxDelayedTaskList s"
    "pxOverflowDelayedTaskList s' = pxOverflowDelayedTaskList s" "xTickCount s' = xTickCount s"
    "xNextTaskUnblockTime s' = xNextTaskUnblockTime s" "uxSchedulerSuspended s' = uxSchedulerSuspended s"
    "xPendedTicks s' = xPendedTicks s" "xNumOfOverflows s' = xNumOfOverflows s"
    "uxCurrentNumberOfTasks s' = uxCurrentNumberOfTasks s" "xSchedulerRunning s' = xSchedulerRunning s"
    "uxDeletedTasksWaitingCleanUp s' = uxDeletedTasksWaitingCleanUp s" "kheap s' = kheap s"
  by (subst assms[unfolded same_rest_y_def], simp)+

lemma same_rest_y_trans: "same_rest_y s t \<Longrightarrow> same_rest_y t u \<Longrightarrow> same_rest_y s u"
  unfolding same_rest_y_def by (cases s; cases t; cases u) simp

lemma pending_loop_spec:
  assumes "base_ok L T {} c s" "pxCurrentTCB s = Some cur"
  shows "\<exists>mv' s' c'. pending_loop mv s = Some (mv', s') \<and> (mv' = None \<longleftrightarrow> mv = None \<and> pending T s = {}) \<and>
     base_ok L T {} c' s' \<and> same_rest_y s s' \<and> unpends T s s' \<and> alert T cur s s'"
  using assms
proof (induction "c xPendingReadyList" arbitrary: c s mv)
  case Nil
  note lok = base_okD(1)[OF Nil.prems(1)]
  have l: "xPendingReadyList \<in> L" using base_okD(2)[OF Nil.prems(1)] by (simp add: xPendingReadyList_def)
  have "pending T s = {}" using lists_okD(2)[OF lok, of _ xPendingReadyList] Nil.hyps by (auto simp: pending_def)
  moreover have "pending_loop mv s = Some (mv, s)"
    using lists_empty[OF lok l] Nil.hyps by (simp add: pending_loop.simps)
  ultimately show ?case using Nil.prems(1)
    by (intro exI[of _ mv] exI[of _ s] exI[of _ c]) (simp add: same_rest_y_def unpends_def same_data_def)
next
  case (Cons x xs)
  let ?l = xPendingReadyList
  note ok = Cons.prems(1) and lok = base_okD(1)[OF Cons.prems(1)]
  have l: "?l \<in> L" "\<not> state_list ?l" "?l = 7"
    using base_okD(2)[OF ok] by (simp_all add: xPendingReadyList_def state_list_def)
  have cx: "cont (kls s) x = Some ?l" using lists_okD(2)[OF lok] l(1) Cons.hyps(2)[symmetric] by auto
  obtain t where t: "t \<in> T" "x = Ev t" by (rule base_event_item[OF ok cx l(2)])
  have own: "owner (kls s) x = t" using base_okD(3)[OF ok] t by (simp add: tasks_ok_def)
  have ne: "\<not> listLIST_IS_EMPTY ?l (kls s)" using lists_empty[OF lok l(1)] Cons.hyps(2)[symmetric] by simp
  have hd: "listGET_OWNER_OF_HEAD_ENTRY ?l (kls s) = Some t"
    using lists_head(1)[OF lok l(1) Cons.hyps(2)[symmetric]] own by simp
  obtain K1 where 1: "k_REMOVE (Ev t) s = Some (s\<lparr>kls := K1\<rparr>)"
      "base_ok L T {} (c(?l := remove1 (Ev t) (c ?l))) (s\<lparr>kls := K1\<rparr>)"
      "same_data (kls s) K1" "cont K1 = (cont (kls s))(Ev t := None)"
    by (rule base_remove_event[OF ok cx[unfolded t(2)]])
  obtain K2 top K3 c3 where 2: "k_remove (St t) (s\<lparr>kls := K1\<rparr>) = Some (s\<lparr>kls := K2\<rparr>)"
      "k_REMOVE (St t) (s\<lparr>kls := K1\<rparr>) = Some (s\<lparr>kls := K2\<rparr>)"
      "prvAddTaskToReadyList t (s\<lparr>kls := K2\<rparr>) = s\<lparr>kls := K3, uxTopReadyPriority := top\<rparr>"
      "base_ok L T {} c3 (s\<lparr>kls := K3, uxTopReadyPriority := top\<rparr>)" "same_data K1 K3"
      "cont K3 = (cont K1)(St t := Some (unat (prio s t)))"
      "\<forall>k\<in>L. 5 \<le> k \<longrightarrow> c3 k = remove1 (St t) ((c(?l := remove1 (Ev t) (c ?l))) k)"
    by (rule base_move_ready_kls[OF 1(2) t(1)])
  have co: "cont K3 = (cont (kls s))(Ev t := None, St t := Some (unat (prio s t)))"
    by (simp add: 2(6) 1(4))
  define s3 where "s3 = s\<lparr>kls := K3, uxTopReadyPriority := top\<rparr>"
  define s4 where "s4 = (if prio s3 t \<ge> prio s3 cur then s3\<lparr>xYieldPending := True\<rparr> else s3)"
  have s4: "kls s4 = K3" "tcbs s4 = tcbs s" "pxCurrentTCB s4 = Some cur" "xTickCount s4 = xTickCount s"
    using Cons.prems(2) by (simp_all add: s4_def s3_def)
  have b4: "base_ok L T {} c3 s4" using 2(4) by (simp add: s4_def s3_def)
  have "St t \<notin> set xs" using lists_okD(2)[OF lok, of "St t" ?l] l base_event_item[OF ok _ l(2)] Cons.hyps(2)[symmetric] by force
  then have c4: "c3 ?l = xs" using t(2) 2(7) l(1,3) Cons.hyps(2)[symmetric] by (simp add: remove1_idem)
  have step: "pending_loop mv s = pending_loop (Some t) s4"
    using ne hd 1(1) 2(2,3) Cons.prems(2)
    by (subst pending_loop.simps) (simp add: s4_def s3_def)
  obtain mv' s' c' where IH: "pending_loop (Some t) s4 = Some (mv', s')"
      "mv' = None \<longleftrightarrow> Some t = None \<and> pending T s4 = {}" "base_ok L T {} c' s'" "same_rest_y s4 s'" "unpends T s4 s'"
      "alert T cur s4 s'"
    using Cons.hyps(1)[OF c4[symmetric] b4 s4(3), of "Some t"] by (elim exE conjE)
  have pend: "pending T s = insert t (pending T s4)" "t \<notin> pending T s4"
    using t cx by (auto simp: pending_def s4 co)
  have "same_rest_y s s'"
    by (rule same_rest_y_trans[OF _ IH(4)]) (simp add: same_rest_y_def s4_def s3_def)
  moreover have "unpends T s s'"
  proof -
    have "same_data (kls s) (kls s')" using IH(5) 1(3) 2(5) same_data_trans by (auto simp: unpends_def s4)
    moreover have "cont (kls s') (St u) = (if u \<in> pending T s then Some (unat (prio s u)) else cont (kls s) (St u))"
      "cont (kls s') (Ev u) = (if u \<in> pending T s then None else cont (kls s) (Ev u))" for u
      using IH(5) pend by (auto simp: unpends_def s4 co)
    ultimately show ?thesis using IH(5) by (simp add: unpends_def s4)
  qed
  moreover have "alert T cur s s'"
  proof (rule alert_trans[OF _ IH(6)])
    show "alert T cur s s4"
      unfolding alert_def by (auto simp: s4_def s3_def ready_def co not_le)
  qed
  ultimately show ?case using step IH(1,2,3) pend(1) by auto
qed

lemma sched_reset:
  assumes ok: "sched_ok L T c s"
  obtains n where "prvResetNextTaskUnblockTime s = s\<lparr>xNextTaskUnblockTime := n\<rparr>"
    "sched_ok L T c (s\<lparr>xNextTaskUnblockTime := n\<rparr>)"
proof -
  obtain n where n: "prvResetNextTaskUnblockTime s = s\<lparr>xNextTaskUnblockTime := n\<rparr>"
      "\<forall>i. cont (kls s) i = Some (pxDelayedTaskList s) \<longrightarrow> n \<le> val (kls s) i"
    by (rule base_reset[OF sched_okD(1)[OF ok]])
  have "sched_ok L T c (s\<lparr>xNextTaskUnblockTime := n\<rparr>)"
    using ok n(2) by (simp add: sched_ok_def times_ok_def)
  with n(1) show thesis by (rule that)
qed

lemma unpends_ready:
  assumes "unpends T s s'" "ready s t"
  shows "ready s' t"
  using assms by (simp add: unpends_def ready_def pxReadyTasksLists_def)

lemma unpends_times:
  assumes ok: "sched_ok L T c s" and b: "base_ok L T {} c' s'" and r: "same_rest_y s s'" and u: "unpends T s s'"
  shows "sched_ok L T c' s'"
proof -
  note f = same_rest_y_fields[OF r]
  have "cont (kls s) i = Some l" if i: "l = 5 \<or> l = 6" "cont (kls s') i = Some l" for i l
  proof -
    have "state_list l" using i(1) by (auto simp: state_list_def)
    with i(2) obtain t where t: "t \<in> T" "i = St t" by (rule base_state_item[OF b])
    have "unat (prio s t) < 5" using base_okD(3)[OF sched_okD(1)[OF ok]] t(1) by (simp add: tasks_ok_def)
    then show ?thesis using u i t(2) by (auto simp: unpends_def split: if_splits)
  qed
  then have "times_ok s'"
    using times_mono[OF sched_okD(2)[OF ok] _ _ base_okD(6)[OF sched_okD(1)[OF ok]] f(3,4,5,6)] u
    by (simp add: unpends_def)
  then show ?thesis using ok b f(2) by (auto simp: sched_ok_def)
qed

lemma same_next: "passes T n (s\<lparr>xNextTaskUnblockTime := a\<rparr>) s' = passes T n s s'"
  by (simp add: passes_def expired_def blocked_def remaining_def)

text \<open>A yield changes which task is current and the order of the ready lists, and nothing else.\<close>

definition quiet :: "kernel \<Rightarrow> kernel \<Rightarrow> bool" where
  "quiet s s' \<longleftrightarrow> cont (kls s') = cont (kls s) \<and> same_data (kls s) (kls s') \<and> tcbs s' = tcbs s \<and>
     xTickCount s' = xTickCount s \<and> uxSchedulerSuspended s' = uxSchedulerSuspended s \<and> xPendedTicks s' = xPendedTicks s \<and>
     xSchedulerRunning s' = xSchedulerRunning s \<and> uxCurrentNumberOfTasks s' = uxCurrentNumberOfTasks s \<and>
     uxDeletedTasksWaitingCleanUp s' = uxDeletedTasksWaitingCleanUp s \<and> kheap s' = kheap s \<and> kstack s' = kstack s"

lemma quiet_views:
  assumes "quiet s s'"
  shows "blocked s' t = blocked s t" "remaining s' t = remaining s t" "ready s' t = ready s t"
  using assms by (auto simp: quiet_def blocked_def remaining_def ready_def same_data_def)

lemma quiet_passes: "quiet s' s'' \<Longrightarrow> passes T n s s' \<Longrightarrow> passes T n s s''"
  using same_data_trans by (fastforce simp: quiet_def passes_def)

lemma yield_spec:
  assumes ok: "sched_ok L T c s" and u: "u \<in> T" "ready s u"
  obtains s' cur where "portYIELD_WITHIN_API s = Some s'" "vTaskSwitchContext s = Some s'" "sched_ok L T c s'"
    "quiet s s'" "pxCurrentTCB s' = Some cur"
    "if uxSchedulerSuspended s = 0 then top_task T s' cur else s' = s\<lparr>xYieldPending := True\<rparr>"
proof (cases "uxSchedulerSuspended s = 0")
  case False
  obtain cur where "pxCurrentTCB s = Some cur" using ok by (auto simp: sched_ok_def)
  then show thesis using False ok
    by (intro that[of "s\<lparr>xYieldPending := True\<rparr>" cur])
      (simp_all add: portYIELD_WITHIN_API_def vTaskSwitchContext_def quiet_def same_data_def)
next
  case True
  obtain s' t K' q ys where 4: "vTaskSwitchContext s = Some s'" "sched_ok L T c s'"
      "s' = s\<lparr>xYieldPending := False, kls := K', pxCurrentTCB := Some t, uxTopReadyPriority := q\<rparr>"
      "top_task T s' t" "same_data (kls s) K'" "cont K' = cont (kls s)"
      "order (kls s) (unat (prio s t)) (c (unat (prio s t))) = St t # ys"
      "order K' (unat (prio s t)) (c (unat (prio s t))) = ys @ [St t]"
    by (rule vTaskSwitchContext_spec[OF ok True u])
  have q: "quiet s s'" using 4(5,6) by (simp add: quiet_def 4(3))
  have cur: "pxCurrentTCB s' = Some t" using 4(3) by simp
  show thesis
    by (rule that[OF _ 4(1,2) q cur]) (use 4(1,4) True in \<open>simp_all add: portYIELD_WITHIN_API_def\<close>)
qed

lemma resume_ticks:
  assumes ok: "sched_ok L T c s" and cur: "pxCurrentTCB s = Some cur" and susp: "uxSchedulerSuspended s = 0"
  obtains s' c' where "(if xPendedTicks s > 0
       then do { s \<leftarrow> replay_ticks (unat (xPendedTicks s)) s; Some (s\<lparr>xPendedTicks := 0\<rparr>) } else Some s) = Some s'"
    "sched_ok L T c' s'" "passes T (unat (xPendedTicks s)) s s'" "pxCurrentTCB s' = Some cur"
    "uxSchedulerSuspended s' = 0" "xPendedTicks s' = 0" "same_ctrl s s'" "alert T cur s s'"
proof (cases "xPendedTicks s > 0")
  case True
  obtain s' c' where r: "replay_ticks (unat (xPendedTicks s)) s = Some s'" "sched_ok L T c' s'"
      "passes T (unat (xPendedTicks s)) s s'" "pxCurrentTCB s' = Some cur" "uxSchedulerSuspended s' = 0"
      "same_ctrl s s'" "alert T cur s s'"
    using replay_ticks_spec[OF ok susp cur, of "unat (xPendedTicks s)"] by (elim exE conjE)
  show thesis
    by (rule that[of "s'\<lparr>xPendedTicks := 0\<rparr>" c']) (use True r in \<open>simp_all add: passes_def same_ctrl_def alert_def ready_def\<close>)
next
  case False
  then have "xPendedTicks s = 0" by (simp add: not_less)
  then show thesis using that[of s c] ok cur susp passes_0[OF ok] by (simp add: same_ctrl_def)
qed

lemma resume_spec:
  assumes ok: "sched_ok L T c s" and cur: "pxCurrentTCB s = Some cur" and susp: "uxSchedulerSuspended s = 1"
    and num: "uxCurrentNumberOfTasks s > 0" and u: "u \<in> T" "ready s u"
  obtains y s' c' c1 s1 cur' where "xTaskResumeAll s = Some (y, s')" "sched_ok L T c' s'" "unpends T s s1"
    "sched_ok L T c1 s1" "passes T (unat (xPendedTicks s)) s1 s'" "uxSchedulerSuspended s' = 0" "xPendedTicks s' = 0"
    "pxCurrentTCB s' = Some cur'" "if y then top_task T s' cur' else cur' = cur \<and> \<not> xYieldPending s' \<and> alert T cur s s'" "ready s' u"
    "same_ctrl s s'"
proof -
  define s0 where "s0 = s\<lparr>uxSchedulerSuspended := 0\<rparr>"
  have s0: "sched_ok L T c s0" "pxCurrentTCB s0 = Some cur" "uxSchedulerSuspended s0 = 0" "kls s0 = kls s"
    "tcbs s0 = tcbs s" "xTickCount s0 = xTickCount s" "xPendedTicks s0 = xPendedTicks s"
    using ok cur by (simp_all add: s0_def)
  obtain mv s1 c1 where 1: "pending_loop None s0 = Some (mv, s1)" "base_ok L T {} c1 s1" "same_rest_y s0 s1"
      "unpends T s0 s1" "alert T cur s0 s1"
    using pending_loop_spec[OF sched_okD(1)[OF s0(1)] s0(2), of None] by (elim exE conjE)
  note f1 = same_rest_y_fields[OF 1(3)]
  have ok1: "sched_ok L T c1 s1" by (rule unpends_times[OF s0(1) 1(2,3,4)])
  have un: "unpends T s s1" using 1(4) by (simp add: unpends_def pending_def s0)
  define s2 where "s2 = (if mv \<noteq> None then prvResetNextTaskUnblockTime s1 else s1)"
  obtain n where n: "prvResetNextTaskUnblockTime s1 = s1\<lparr>xNextTaskUnblockTime := n\<rparr>"
      "sched_ok L T c1 (s1\<lparr>xNextTaskUnblockTime := n\<rparr>)"
    by (rule sched_reset[OF ok1])
  have 2: "sched_ok L T c1 s2" "pxCurrentTCB s2 = Some cur" "uxSchedulerSuspended s2 = 0" "xPendedTicks s2 = xPendedTicks s"
    using n ok1 f1 s0 by (simp_all add: s2_def)
  obtain s3 c3 where 3: "(if xPendedTicks s2 > 0
       then do { s \<leftarrow> replay_ticks (unat (xPendedTicks s2)) s2; Some (s\<lparr>xPendedTicks := 0\<rparr>) } else Some s2) = Some s3"
    "sched_ok L T c3 s3" "passes T (unat (xPendedTicks s2)) s2 s3" "pxCurrentTCB s3 = Some cur"
    "uxSchedulerSuspended s3 = 0" "xPendedTicks s3 = 0" "same_ctrl s2 s3" "alert T cur s2 s3"
    by (rule resume_ticks[OF 2(1-3)])
  have p13: "passes T (unat (xPendedTicks s)) s1 s3"
    using 3(3)[unfolded 2(4)] n(1) by (cases "mv = None") (simp_all add: s2_def same_next)
  have u3: "ready s3 u" by (rule passes_task(3)[OF ok1 p13 u(1) unpends_ready[OF un u(2)]])
  have e: "xTaskResumeAll s = (if xYieldPending s3 then do { s \<leftarrow> portYIELD_WITHIN_API s3; Some (True, s) }
      else Some (False, s3))"
  proof -
    have d: "s\<lparr>uxSchedulerSuspended := uxSchedulerSuspended s - 1\<rparr> = s0" by (simp add: s0_def susp)
    have g: "uxSchedulerSuspended s0 = 0 \<and> uxCurrentNumberOfTasks s0 > 0" using num by (simp add: s0_def)
    show ?thesis unfolding xTaskResumeAll_def Let_def d
      by (simp only: g if_True 1(1) Option.bind.simps(2) prod.case s2_def[symmetric] 3(1) simp_thms)
  qed
  have ct: "same_ctrl s s3"
    using 3(7) f1 n(1) by (cases "mv = None") (simp_all add: same_ctrl_def s2_def s0_def)
  have al: "alert T cur s s3"
  proof (rule alert_trans[OF _ 3(8)])
    show "alert T cur s s2"
      using 1(5) n(1) by (cases "mv = None") (simp_all add: alert_def s2_def s0_def ready_def)
  qed
  show thesis
  proof (cases "xYieldPending s3")
    case False
    show thesis by (rule that[OF _ 3(2) un ok1 p13 3(5,6,4) _ u3 ct, of False]) (use e False al in simp_all)
  next
    case True
    obtain s4 t where 4: "portYIELD_WITHIN_API s3 = Some s4" "vTaskSwitchContext s3 = Some s4" "sched_ok L T c3 s4"
        "quiet s3 s4" "pxCurrentTCB s4 = Some t"
        "if uxSchedulerSuspended s3 = 0 then top_task T s4 t else s4 = s3\<lparr>xYieldPending := True\<rparr>"
      by (rule yield_spec[OF 3(2) u(1) u3])
    have u4: "ready s4 u" using u3 quiet_views(3)[OF 4(4)] by simp
    have f4: "uxSchedulerSuspended s4 = 0" "xPendedTicks s4 = 0" using 3(5,6) 4(4) by (simp_all add: quiet_def)
    have ct4: "same_ctrl s s4" using ct 4(4) by (simp add: same_ctrl_def quiet_def)
    show thesis
      by (rule that[OF _ 4(3) un ok1 quiet_passes[OF 4(4) p13] f4 4(5) _ u4 ct4, of True]) (use e True 4 3(5) in simp_all)
  qed
qed

lemma resume_and_yield_spec:
  assumes ok: "sched_ok L T c s" and cur: "pxCurrentTCB s = Some cur" and susp: "uxSchedulerSuspended s = 1"
    and num: "uxCurrentNumberOfTasks s > 0" and u: "u \<in> T" "ready s u"
  obtains s' c' s1 c1 cur' where "resume_and_yield s = Some s'" "sched_ok L T c' s'" "unpends T s s1" "sched_ok L T c1 s1"
    "passes T (unat (xPendedTicks s)) s1 s'" "uxSchedulerSuspended s' = 0" "xPendedTicks s' = 0"
    "pxCurrentTCB s' = Some cur'" "top_task T s' cur'" "same_ctrl s s'"
proof -
  obtain y s2 c2 c1 s1 cur2 where 1: "xTaskResumeAll s = Some (y, s2)" "sched_ok L T c2 s2" "unpends T s s1"
    "sched_ok L T c1 s1" "passes T (unat (xPendedTicks s)) s1 s2" "uxSchedulerSuspended s2 = 0" "xPendedTicks s2 = 0"
    "pxCurrentTCB s2 = Some cur2" "if y then top_task T s2 cur2 else cur2 = cur \<and> \<not> xYieldPending s2 \<and> alert T cur s s2" "ready s2 u"
    "same_ctrl s s2"
    by (rule resume_spec[OF assms])
  show thesis
  proof (cases y)
    case True
    show thesis by (rule that[OF _ 1(2,3,4,5,6,7,8) _ 1(11)]) (use 1(1,9) True in \<open>simp_all add: resume_and_yield_def\<close>)
  next
    case False
    obtain s4 t where 4: "portYIELD_WITHIN_API s2 = Some s4" "vTaskSwitchContext s2 = Some s4" "sched_ok L T c2 s4"
        "quiet s2 s4" "pxCurrentTCB s4 = Some t"
        "if uxSchedulerSuspended s2 = 0 then top_task T s4 t else s4 = s2\<lparr>xYieldPending := True\<rparr>"
      by (rule yield_spec[OF 1(2) u(1) 1(10)])
    have f4: "uxSchedulerSuspended s4 = 0" "xPendedTicks s4 = 0" using 1(6,7) 4(4) by (simp_all add: quiet_def)
    have ct4: "same_ctrl s s4" using 1(11) 4(4) by (simp add: same_ctrl_def quiet_def)
    show thesis
      by (rule that[OF _ 4(3) 1(3,4) quiet_passes[OF 4(4) 1(5)] f4 4(5) _ ct4])
        (use 1(1,6) 4 False in \<open>simp_all add: resume_and_yield_def\<close>)
  qed
qed

end
