(* ===== verification/Tasks_Create.thy ===== *)
theory Tasks_Create
  imports Tasks_Delay Heap4_Alloc Port
begin

section \<open>Creating tasks and starting the scheduler\<close>

text \<open>
  \<^verbatim>\<open>xTaskCreate\<close> and \<^verbatim>\<open>vTaskStartScheduler\<close> of \<^verbatim>\<open>tasks.c\<close> over the FreeRTOS heap and the port's
  stack frames. The stack and the control block of a task are blocks of the heap: the control block
  is a typed record, the stack is a memory of words. The invariant extends the one of the task lists
  by the heap: the control blocks and stacks of all tasks are blocks that the kernel holds, so that
  a new task gets memory no other task uses, and a deleted task gives its memory back.
\<close>

subsection \<open>Data\<close>

definition configMAX_TASK_NAME_LEN :: nat where "configMAX_TASK_NAME_LEN = 16"
definition configMINIMAL_STACK_SIZE :: u32_t where "configMINIMAL_STACK_SIZE = 128"

text \<open>\<^verbatim>\<open>sizeof(TCB_t)\<close>: a pointer, two list items of 20 bytes, the priority, the stack pointer, the
  name, the end of the stack, five thread-local pointers, three notification values and states,
  rounded up to a word.\<close>

definition sizeof_TCB_t :: nat where
  "sizeof_TCB_t = 4 + 2 * 20 + 4 + 4 + 16 + 4 + 5 * 4 + 3 * 4 + 4"

text \<open>A control block after \<^verbatim>\<open>memset\<close>.\<close>

definition zero_TCB :: TCB_t where
  "zero_TCB = \<lparr>pxTopOfStack = 0, uxPriority = 0, pxStack = 0, pcTaskName = replicate configMAX_TASK_NAME_LEN 0,
     pxEndOfStack = 0, pvThreadLocalStoragePointers = replicate configNUM_THREAD_LOCAL_STORAGE_POINTERS 0,
     ulNotifiedValue = replicate configTASK_NOTIFICATION_ARRAY_ENTRIES 0,
     ucNotifyState = replicate configTASK_NOTIFICATION_ARRAY_ENTRIES 0\<rparr>"

subsection \<open>Operations\<close>

text \<open>The loop that copies the task's name; \<open>name\<close> is the memory at \<^verbatim>\<open>pcName\<close>.\<close>

function copy_name :: "(nat \<Rightarrow> u8_t) \<Rightarrow> nat \<Rightarrow> u8_t list \<Rightarrow> u8_t list" where
  "copy_name name x a =
     (if x < configMAX_TASK_NAME_LEN
      then if name x = 0 then a[x := name x] else copy_name name (x + 1) (a[x := name x])
      else a)"
  by pat_completeness auto
termination by (relation "measure (\<lambda>(_, x, _). configMAX_TASK_NAME_LEN - x)") auto

declare copy_name.simps [simp del]

definition prvInitialiseNewTask ::
    "u32_t \<Rightarrow> (nat \<Rightarrow> u8_t) option \<Rightarrow> u32_t \<Rightarrow> u32_t \<Rightarrow> UBaseType_t \<Rightarrow> nat \<Rightarrow> kernel \<Rightarrow> kernel" where
  "prvInitialiseNewTask pxTaskCode pcName ulStackDepth pvParameters p t s =
     (let tos = of_nat (pxStack (tcbs s t)) + 4 * (ulStackDepth - 1);
          tos = tos AND NOT 7;
          s = upd_tcb t (pxEndOfStack_update (\<lambda>_. tos)) s;
          s = (case pcName of
                 None \<Rightarrow> s
               | Some name \<Rightarrow>
                   upd_tcb t (pcTaskName_update (\<lambda>a. (copy_name name 0 a)[configMAX_TASK_NAME_LEN - 1 := 0])) s);
          p = (if unat p \<ge> configMAX_PRIORITIES then of_nat configMAX_PRIORITIES - 1 else p);
          s = upd_tcb t (uxPriority_update (\<lambda>_. p)) s;
          s = s\<lparr>kls := vListInitialiseItem (xStateListItem t) (kls s)\<rparr>;
          s = s\<lparr>kls := vListInitialiseItem (xEventListItem t) (kls s)\<rparr>;
          s = s\<lparr>kls := listSET_LIST_ITEM_OWNER (xStateListItem t) t (kls s)\<rparr>;
          s = k_set_value (xEventListItem t) (of_nat configMAX_PRIORITIES - p) s;
          s = s\<lparr>kls := listSET_LIST_ITEM_OWNER (xEventListItem t) t (kls s)\<rparr>;
          (top, m) = pxPortInitialiseStack tos pxTaskCode pvParameters (kstack s);
          s = s\<lparr>kstack := m\<rparr>
      in upd_tcb t (pxTopOfStack_update (\<lambda>_. top)) s)"

definition prvInitialiseTaskLists :: "kernel \<Rightarrow> kernel" where
  "prvInitialiseTaskLists s =
     (let K = fold vListInitialise [0..<configMAX_PRIORITIES] (kls s);
          K = vListInitialise xDelayedTaskList1 K;
          K = vListInitialise xDelayedTaskList2 K;
          K = vListInitialise xPendingReadyList K;
          K = vListInitialise xTasksWaitingTermination K;
          K = vListInitialise xSuspendedTaskList K
      in s\<lparr>kls := K, pxDelayedTaskList := xDelayedTaskList1, pxOverflowDelayedTaskList := xDelayedTaskList2\<rparr>)"

definition prvAddNewTaskToReadyList :: "nat \<Rightarrow> kernel \<Rightarrow> kernel option" where
  "prvAddNewTaskToReadyList t s =
     (let s = s\<lparr>uxCurrentNumberOfTasks := uxCurrentNumberOfTasks s + 1\<rparr>;
          s = (case pxCurrentTCB s of
                 None \<Rightarrow>
                   (let s = s\<lparr>pxCurrentTCB := Some t\<rparr>
                    in if uxCurrentNumberOfTasks s = 1 then prvInitialiseTaskLists s else s)
               | Some cur \<Rightarrow>
                   if \<not> xSchedulerRunning s \<and> prio s cur \<le> prio s t then s\<lparr>pxCurrentTCB := Some t\<rparr> else s);
          s = s\<lparr>uxTaskNumber := uxTaskNumber s + 1\<rparr>;
          s = prvAddTaskToReadyList t s
      in if xSchedulerRunning s
         then do {
           cur \<leftarrow> pxCurrentTCB s;
           if prio s cur < prio s t then portYIELD_WITHIN_API s else Some s
         }
         else Some s)"

text \<open>The result is the new handle, or \<open>None\<close> for \<^verbatim>\<open>errCOULD_NOT_ALLOCATE_REQUIRED_MEMORY\<close>.\<close>

definition xTaskCreate ::
    "u32_t \<Rightarrow> (nat \<Rightarrow> u8_t) option \<Rightarrow> u32_t \<Rightarrow> u32_t \<Rightarrow> UBaseType_t \<Rightarrow> kernel \<Rightarrow> (nat option \<times> kernel) option" where
  "xTaskCreate pxTaskCode pcName usStackDepth pvParameters p s = do {
     (stk, h) \<leftarrow> pvPortMalloc (unat (usStackDepth * 4)) (kheap s);
     if stk \<noteq> 0
     then do {
       (t, h) \<leftarrow> pvPortMalloc sizeof_TCB_t h;
       if t \<noteq> 0
       then do {
         let s = s\<lparr>kheap := h, tcbs := (tcbs s)(t := zero_TCB\<lparr>pxStack := stk\<rparr>)\<rparr>;
         let s = prvInitialiseNewTask pxTaskCode pcName usStackDepth pvParameters p t s;
         s \<leftarrow> prvAddNewTaskToReadyList t s;
         Some (Some t, s)
       }
       else do { h \<leftarrow> vPortFree stk h; Some (None, s\<lparr>kheap := h\<rparr>) }
     }
     else Some (None, s\<lparr>kheap := h\<rparr>)
   }"

text \<open>The machine as the port sees it: the variable \<^verbatim>\<open>pxCurrentTCB\<close>, the word at the control block's
  address (its first member is \<^verbatim>\<open>pxTopOfStack\<close>) and the task stacks.\<close>

definition link_machine :: "nat \<Rightarrow> kernel \<Rightarrow> arm \<Rightarrow> arm" where
  "link_machine cur s a =
     a\<lparr>current_tcb := of_nat cur, words := (kstack s)(of_nat cur := pxTopOfStack (tcbs s cur))\<rparr>"

text \<open>\<^verbatim>\<open>prvIdleTask\<close> is at address \<open>idle\<close>; its name is \<^verbatim>\<open>"IDLE"\<close>.\<close>

definition configIDLE_TASK_NAME :: "nat \<Rightarrow> u8_t" where
  "configIDLE_TASK_NAME x = (if x < 4 then [73, 68, 76, 69] ! x else 0)"

definition vTaskStartScheduler ::
    "'d world \<Rightarrow> u32_t \<Rightarrow> 'd \<times> arm \<Rightarrow> kernel \<Rightarrow> (('d \<times> arm) \<times> kernel) option" where
  "vTaskStartScheduler w idle da s = do {
     (h, s) \<leftarrow> xTaskCreate idle (Some configIDLE_TASK_NAME) configMINIMAL_STACK_SIZE 0 0 s;
     case h of
       None \<Rightarrow> Some (da, s)
     | Some t \<Rightarrow> do {
         let s = s\<lparr>xIdleTaskHandle := Some t\<rparr>;
         let (d, a) = da;
         let a = portDISABLE_INTERRUPTS a;
         let s = s\<lparr>xNextTaskUnblockTime := portMAX_DELAY, xSchedulerRunning := True, xTickCount := 0\<rparr>;
         cur \<leftarrow> pxCurrentTCB s;
         Some (xPortStartScheduler w (d, link_machine cur s a), s)
       }
   }"

definition vTaskEndScheduler :: "arm \<Rightarrow> kernel \<Rightarrow> arm \<times> kernel" where
  "vTaskEndScheduler a s =
     (let a = portDISABLE_INTERRUPTS a; s = s\<lparr>xSchedulerRunning := False\<rparr> in (vPortEndScheduler a, s))"

subsection \<open>A new task in the invariant\<close>

lemma initialise_item_id:
  assumes "cont K i = None"
  shows "vListInitialiseItem i K = K"
  using assms by (cases K) (auto simp: vListInitialiseItem_def set_container_def upd_item_def cont_def fun_eq_iff)

lemma base_fresh:
  assumes "base_ok L T X c s" "t \<notin> T"
  shows "cont (kls s) (St t) = None" "cont (kls s) (Ev t) = None"
  using base_okD(4)[OF assms(1)] assms(2) item_eq unfolding placed_ok_def
  by (metis not_Some_eq)+

lemma base_insert_task:
  assumes ok: "base_ok L T {} c s" and t: "t \<notin> T" and card: "2 * (card T + 1) < 2 ^ 32 - 1"
    and K: "lists_ok L c K" "cont K = cont (kls s)" "owner K = (owner (kls s))(St t := t, Ev t := t)"
      "\<forall>i. i \<noteq> Ev t \<longrightarrow> val K i = val (kls s) i"
    and r: "unat (uxPriority r) < 5"
  shows "base_ok L (insert t T) {t} c (s\<lparr>kls := K, tcbs := (tcbs s)(t := r)\<rparr>)"
proof -
  let ?s = "s\<lparr>kls := K, tcbs := (tcbs s)(t := r)\<rparr>"
  note fresh = base_fresh[OF ok t]
  have tk: "finite T" "\<forall>u\<in>T. owner (kls s) (St u) = u \<and> owner (kls s) (Ev u) = u \<and> unat (prio s u) < 5"
    using base_okD(3)[OF ok] by (auto simp: tasks_ok_def)
  have ne: "u \<noteq> t" if "u \<in> T" for u using that t by blast
  have "tasks_ok (insert t T) ?s"
    using tk t card r ne by (auto simp: tasks_ok_def K(3))
  moreover have "placed_ok (insert t T) {t} (cont K)"
    using base_okD(4)[OF ok] t fresh unfolding placed_ok_def K(2) by auto
  moreover have "ready_ok (insert t T) ?s"
    using base_okD(5)[OF ok] fresh ne unfolding ready_ok_def by (auto simp: K(2))
  moreover have "delayed_ok c ?s"
  proof -
    have "Ev t \<notin> set (c l)" if "l \<in> L" for l
      using lists_okD(3)[OF base_okD(1)[OF ok]] fresh(2) that by blast
    then have "map (val K) (c l) = map (val (kls s)) (c l)" if "l < 10" for l
      using base_okD(2)[OF ok that] K(4) by (intro map_cong refl) metis
    from this[of 5] this[of 6] have m: "map (val K) (c 5) = map (val (kls s)) (c 5)"
      "map (val K) (c 6) = map (val (kls s)) (c 6)" by simp_all
    show ?thesis using base_okD(6)[OF ok] m unfolding delayed_ok_def by (simp del: map_eq_conv)
  qed
  ultimately show ?thesis using K(1) ok by (simp add: base_ok_def)
qed

lemma initialise_new_task:
  assumes lok: "lists_ok L c (kls s)" and fresh: "cont (kls s) (St t) = None" "cont (kls s) (Ev t) = None"
  obtains K r m where "prvInitialiseNewTask f nm d a p t s = s\<lparr>kls := K, kstack := m, tcbs := (tcbs s)(t := r)\<rparr>"
    "lists_ok L c K" "cont K = cont (kls s)" "owner K = (owner (kls s))(St t := t, Ev t := t)"
    "\<forall>i. i \<noteq> Ev t \<longrightarrow> val K i = val (kls s) i" "val K (Ev t) = 5 - uxPriority r"
    "uxPriority r = min p 4" "pxStack r = pxStack (tcbs s t)"
    "(pxTopOfStack r, m) = pxPortInitialiseStack ((of_nat (pxStack (tcbs s t)) + 4 * (d - 1)) AND NOT 7) f a (kstack s)"
    "ulNotifiedValue r = ulNotifiedValue (tcbs s t)" "ucNotifyState r = ucNotifyState (tcbs s t)"
proof -
  define tos where "tos = ((of_nat (pxStack (tcbs s t)) + 4 * (d - 1)) AND NOT 7 :: u32_t)"
  let ?p = "min p 4"
  let ?K1 = "listSET_LIST_ITEM_OWNER (St t) t (kls s)"
  let ?K2 = "listSET_LIST_ITEM_VALUE (Ev t) (5 - ?p) ?K1"
  let ?K3 = "listSET_LIST_ITEM_OWNER (Ev t) t ?K2"
  note 1 = set_owner_ok[OF lok, of "St t" t]
  note 2 = set_value_ok[OF 1(1), of "Ev t" "5 - ?p"]
  note 3 = set_owner_ok[OF 2(1), of "Ev t" t]
  obtain top m where st: "pxPortInitialiseStack tos f a (kstack s) = (top, m)" by (cases rule: prod.exhaust)
  have id: "vListInitialiseItem (St t) (kls s) = kls s" "vListInitialiseItem (Ev t) (kls s) = kls s"
    using fresh by (simp_all add: initialise_item_id)
  have p: "(if unat p \<ge> configMAX_PRIORITIES then of_nat configMAX_PRIORITIES - 1 else p) = ?p"
    by (simp add: configMAX_PRIORITIES_def min_def word_le_nat_alt)
  define r0 where "r0 = (tcbs s t)\<lparr>pxEndOfStack := tos\<rparr>"
  define r1 where "r1 = (case nm of None \<Rightarrow> r0 | Some name \<Rightarrow>
      pcTaskName_update (\<lambda>a. (copy_name name 0 a)[configMAX_TASK_NAME_LEN - 1 := 0]) r0)"
  define r where "r = r1\<lparr>uxPriority := ?p, pxTopOfStack := top\<rparr>"
  have r: "uxPriority r = ?p" "pxTopOfStack r = top" "pxStack r = pxStack (tcbs s t)"
    "ulNotifiedValue r = ulNotifiedValue (tcbs s t)" "ucNotifyState r = ucNotifyState (tcbs s t)"
    by (simp_all add: r_def r1_def r0_def split: option.splits)
  have e: "prvInitialiseNewTask f nm d a p t s = s\<lparr>kls := ?K3, kstack := m, tcbs := (tcbs s)(t := r)\<rparr>"
    unfolding prvInitialiseNewTask_def Let_def p tos_def[symmetric]
    by (cases nm) (simp_all add: upd_tcb_def k_set_value_def configMAX_PRIORITIES_def id st r_def r1_def r0_def)
  show thesis
    by (rule that[OF e 3(1)]) (use 1 2 3 r st tos_def in \<open>simp_all add: fun_eq_iff\<close>)
qed

text \<open>The common end of task creation: the new task goes to its ready list, and a running scheduler
  switches to it if it has a higher priority than the running task.\<close>

lemma ready_new_task:
  assumes ok: "base_ok L T {t} c s" and t: "t \<in> T" and times: "times_ok s"
    and cur: "pxCurrentTCB s = Some cur" "cur \<in> T"
  obtains s' c' cur' where
    "(let s = prvAddTaskToReadyList t s
      in if xSchedulerRunning s
         then do { cur \<leftarrow> pxCurrentTCB s; if prio s cur < prio s t then portYIELD_WITHIN_API s else Some s }
         else Some s) = Some s'"
    "sched_ok L T c' s'" "ready s' t" "tcbs s' = tcbs s" "kheap s' = kheap s" "kstack s' = kstack s"
    "\<forall>u. u \<noteq> t \<longrightarrow> cont (kls s') (St u) = cont (kls s) (St u)"
    "\<forall>u. cont (kls s') (Ev u) = cont (kls s) (Ev u)" "same_data (kls s) (kls s')"
    "xTickCount s' = xTickCount s" "xSchedulerRunning s' = xSchedulerRunning s"
    "uxSchedulerSuspended s' = uxSchedulerSuspended s" "uxCurrentNumberOfTasks s' = uxCurrentNumberOfTasks s"
    "uxDeletedTasksWaitingCleanUp s' = uxDeletedTasksWaitingCleanUp s" "pxCurrentTCB s' = Some cur'"
    "if xSchedulerRunning s \<and> prio s cur < prio s t
     then if uxSchedulerSuspended s = 0 then top_task T s' cur' else cur' = cur \<and> xYieldPending s'
     else cur' = cur \<and> xYieldPending s' = xYieldPending s"
proof -
  obtain K top zs where a: "prvAddTaskToReadyList t s = s\<lparr>kls := K, uxTopReadyPriority := top\<rparr>"
    "base_ok L T {} (c(unat (prio s t) := zs)) (s\<lparr>kls := K, uxTopReadyPriority := top\<rparr>)"
    "set zs = insert (St t) (set (c (unat (prio s t))))"
    "same_data (kls s) K" "cont K = (cont (kls s))(St t := Some (unat (prio s t)))"
    "unat top = max (unat (uxTopReadyPriority s)) (unat (prio s t))"
    by (rule base_add_ready[OF ok t])
  define s1 where "s1 = s\<lparr>kls := K, uxTopReadyPriority := top\<rparr>"
  have p5: "unat (prio s t) < 5" using base_okD(3)[OF ok] t by (simp add: tasks_ok_def)
  have "times_ok s1"
    by (rule times_mono[OF times _ _ base_okD(6)[OF ok]]) (use a(4,5) p5 in \<open>auto simp: s1_def split: if_splits\<close>)
  then have s1: "sched_ok L T (c(unat (prio s t) := zs)) s1"
    using a(2) cur by (simp add: sched_ok_def s1_def)
  have r1: "ready s1 t" by (simp add: ready_def s1_def a(5) pxReadyTasksLists_def)
  note facts = a(4,5)
  show thesis
  proof (cases "xSchedulerRunning s \<and> prio s cur < prio s t")
    case False
    show thesis
      by (rule that[OF _ s1 r1]) (use False cur facts in \<open>auto simp: Let_def a(1) s1_def\<close>)
  next
    case True
    obtain s2 cur2 where 2: "portYIELD_WITHIN_API s1 = Some s2" "vTaskSwitchContext s1 = Some s2"
      "sched_ok L T (c(unat (prio s t) := zs)) s2" "quiet s1 s2" "pxCurrentTCB s2 = Some cur2"
      "if uxSchedulerSuspended s1 = 0 then top_task T s2 cur2 else s2 = s1\<lparr>xYieldPending := True\<rparr>"
      by (rule yield_spec[OF s1 t r1])
    have q: "cont (kls s2) = cont K" "same_data K (kls s2)" "tcbs s2 = tcbs s" "kheap s2 = kheap s" "kstack s2 = kstack s"
      "xTickCount s2 = xTickCount s" "xSchedulerRunning s2 = xSchedulerRunning s"
      "uxSchedulerSuspended s2 = uxSchedulerSuspended s" "uxCurrentNumberOfTasks s2 = uxCurrentNumberOfTasks s"
      "uxDeletedTasksWaitingCleanUp s2 = uxDeletedTasksWaitingCleanUp s"
      using 2(4) by (simp_all add: quiet_def s1_def)
    have r2: "ready s2 t" using r1 quiet_views(3)[OF 2(4)] by simp
    have c2: "if xSchedulerRunning s \<and> prio s cur < prio s t
     then if uxSchedulerSuspended s = 0 then top_task T s2 cur2 else cur2 = cur \<and> xYieldPending s2
     else cur2 = cur \<and> xYieldPending s2 = xYieldPending s"
      using 2(5,6) True cur(1) by (auto simp: s1_def)
    show thesis
      by (rule that[OF _ 2(3) r2 q(3-5) _ _ same_data_trans[OF a(4) q(2)] q(6-10) 2(5) c2])
        (use True 2(1) cur facts q(1) in \<open>auto simp: Let_def a(1) s1_def\<close>)
  qed
qed

subsection \<open>The memory of the tasks\<close>

text \<open>\<open>H\<close> lists the blocks that are allocated on the heap. Every task has a block for its control
  block and one for its stack, and no two of these are the same.\<close>

definition mem_ok :: "nat set \<Rightarrow> kernel \<Rightarrow> holdings \<Rightarrow> bool" where
  "mem_ok T s H \<longleftrightarrow> heap_live (kheap s) H \<and>
     (\<forall>t\<in>T. (t, sizeof_TCB_t) \<in> set H \<and> pxStack (tcbs s t) \<in> fst ` set H \<and> pxStack (tcbs s t) \<notin> T) \<and>
     inj_on (\<lambda>t. pxStack (tcbs s t)) T"

lemma live_distinct:
  "heap_live h ((r, n) # H) \<Longrightarrow> r \<notin> fst ` set H \<and> filter (\<lambda>b. fst b \<noteq> r) ((r, n) # H) = H"
  by (drule h4.live_separate) (force simp: separate_def intro!: filter_True)

lemma mem_ok_new:
  assumes ok: "mem_ok T s H" and l: "heap_live h' ((t, sizeof_TCB_t) # (stk, n) # H)"
    and s': "kheap s' = h'" "tcbs s' = (tcbs s)(t := r)" "pxStack r = stk"
  shows "t \<notin> T" "mem_ok (insert t T) s' ((t, sizeof_TCB_t) # (stk, n) # H)"
proof -
  have d: "t \<noteq> stk" "t \<notin> fst ` set H" "stk \<notin> fst ` set H"
    using h4.live_separate[OF l] by (auto simp: separate_def)
  have T: "T \<subseteq> fst ` set H" using ok by (force simp: mem_ok_def)
  with d show t: "t \<notin> T" by blast
  have ne: "u \<noteq> t" if "u \<in> T" for u using that t by blast
  have o: "(u, sizeof_TCB_t) \<in> set H \<and> pxStack (tcbs s u) \<in> fst ` set H \<and> pxStack (tcbs s u) \<notin> T" if "u \<in> T" for u
    using ok that by (simp add: mem_ok_def)
  have "stk \<notin> T" using T d(3) by blast
  moreover have "inj_on (\<lambda>u. pxStack (((tcbs s)(t := r)) u)) (insert t T)"
  proof -
    have "inj_on (\<lambda>u. pxStack (((tcbs s)(t := r)) u)) T"
      using ok ne by (auto simp: mem_ok_def inj_on_def)
    moreover have "stk \<noteq> pxStack (tcbs s u)" if "u \<in> T" for u using o[OF that] d(3) by blast
    ultimately show ?thesis using ne s'(3) by (force simp: inj_on_def)
  qed
  moreover have "pxStack (tcbs s u) \<noteq> t" if "u \<in> T" for u using o[OF that] d(2) by blast
  ultimately show "mem_ok (insert t T) s' ((t, sizeof_TCB_t) # (stk, n) # H)"
    using l o d ne s' by (auto simp: mem_ok_def)
qed

text \<open>The two allocations of \<^verbatim>\<open>xTaskCreate\<close>.\<close>

definition allocated :: "u32_t \<Rightarrow> kernel \<Rightarrow> nat \<Rightarrow> nat \<Rightarrow> heap4 \<Rightarrow> bool" where
  "allocated d s stk t h \<longleftrightarrow> stk \<noteq> 0 \<and> t \<noteq> 0 \<and>
     (\<exists>h1. pvPortMalloc (unat (d * 4)) (kheap s) = Some (stk, h1) \<and> pvPortMalloc sizeof_TCB_t h1 = Some (t, h))"

definition heap_full :: "u32_t \<Rightarrow> kernel \<Rightarrow> bool" where
  "heap_full d s \<longleftrightarrow> (\<exists>stk h1. pvPortMalloc (unat (d * 4)) (kheap s) = Some (stk, h1) \<and>
     (stk = 0 \<or> (\<exists>h2. pvPortMalloc sizeof_TCB_t h1 = Some (0, h2))))"

lemma allocated_unique:
  "allocated d s stk t h \<Longrightarrow> allocated d s stk' t' h' \<Longrightarrow> stk' = stk \<and> t' = t \<and> h' = h"
  "allocated d s stk t h \<Longrightarrow> \<not> heap_full d s"
  by (auto simp: allocated_def heap_full_def)

lemma create_memory:
  assumes "heap_live (kheap s) H"
  obtains (none) h where "xTaskCreate f nm d a p s = Some (None, s\<lparr>kheap := h\<rparr>)" "heap_live h H" "heap_full d s"
  | (some) stk t h where "heap_live h ((t, sizeof_TCB_t) # (stk, unat (d * 4)) # H)" "allocated d s stk t h"
      "xTaskCreate f nm d a p s =
         map_option (Pair (Some t)) (prvAddNewTaskToReadyList t (prvInitialiseNewTask f nm d a p t
           (s\<lparr>kheap := h, tcbs := (tcbs s)(t := zero_TCB\<lparr>pxStack := stk\<rparr>)\<rparr>)))"
proof -
  obtain stk h1 where 1: "pvPortMalloc (unat (d * 4)) (kheap s) = Some (stk, h1)"
      "heap_live h1 (if stk = 0 then H else (stk, unat (d * 4)) # H)"
    using h4.alloc_law[OF assms, of "unat (d * 4)"] by blast
  show thesis
  proof (cases "stk = 0")
    case True
    then show thesis using 1 by (intro none[of h1]) (simp_all add: xTaskCreate_def heap_full_def)
  next
    case False
    then have l1: "heap_live h1 ((stk, unat (d * 4)) # H)" using 1(2) by simp
    obtain t h2 where 2: "pvPortMalloc sizeof_TCB_t h1 = Some (t, h2)"
        "heap_live h2 (if t = 0 then (stk, unat (d * 4)) # H else (t, sizeof_TCB_t) # (stk, unat (d * 4)) # H)"
      using h4.alloc_law[OF l1, of sizeof_TCB_t] by blast
    show thesis
    proof (cases "t = 0")
      case True
      then have l2: "heap_live h2 ((stk, unat (d * 4)) # H)" using 2(2) by simp
      obtain h3 where 3: "vPortFree stk h2 = Some h3" "heap_live h3 (filter (\<lambda>b. fst b \<noteq> stk) ((stk, unat (d * 4)) # H))"
        using h4.free_law[OF l2, of stk] by auto
      then have "heap_live h3 H" using live_distinct[OF l2] by simp
      then show thesis using False True 1(1) 2(1) 3(1) by (intro none[of h3]) (simp_all add: xTaskCreate_def heap_full_def)
    next
      case t: False
      have "map_option (Pair (Some t)) x = Option.bind x (\<lambda>s. Some (Some t, s))" for x :: "kernel option"
        by (cases x) simp_all
      then show thesis using False t 1(1) 2 by (intro some[of h2 t stk]) (simp_all add: xTaskCreate_def Let_def allocated_def)
    qed
  qed
qed

subsection \<open>Creating a task\<close>

text \<open>What a new task looks like: ready, with its clamped priority and its start frame.\<close>

definition created :: "u32_t \<Rightarrow> u32_t \<Rightarrow> u32_t \<Rightarrow> UBaseType_t \<Rightarrow> nat \<Rightarrow> kernel \<Rightarrow> kernel \<Rightarrow> bool" where
  "created f d a p t s s' \<longleftrightarrow> allocated d s (pxStack (tcbs s' t)) t (kheap s') \<and> ready s' t \<and> cont (kls s') (Ev t) = None \<and> prio s' t = min p 4 \<and>
     tcbs s' = (tcbs s)(t := tcbs s' t) \<and>
     ulNotifiedValue (tcbs s' t) = [0, 0, 0] \<and> ucNotifyState (tcbs s' t) = [0, 0, 0] \<and>
     (pxTopOfStack (tcbs s' t), kstack s') =
       pxPortInitialiseStack ((of_nat (pxStack (tcbs s' t)) + 4 * (d - 1)) AND NOT 7) f a (kstack s) \<and>
     uxCurrentNumberOfTasks s' = uxCurrentNumberOfTasks s + 1 \<and> xTickCount s' = xTickCount s"

definition count_task :: "nat \<Rightarrow> kernel \<Rightarrow> kernel" where
  "count_task t s =
     (let s = s\<lparr>uxCurrentNumberOfTasks := uxCurrentNumberOfTasks s + 1\<rparr>;
          s = (case pxCurrentTCB s of
                 None \<Rightarrow>
                   (let s = s\<lparr>pxCurrentTCB := Some t\<rparr>
                    in if uxCurrentNumberOfTasks s = 1 then prvInitialiseTaskLists s else s)
               | Some cur \<Rightarrow>
                   if \<not> xSchedulerRunning s \<and> prio s cur \<le> prio s t then s\<lparr>pxCurrentTCB := Some t\<rparr> else s)
      in s\<lparr>uxTaskNumber := uxTaskNumber s + 1\<rparr>)"

lemma add_new_task_unfold:
  "prvAddNewTaskToReadyList t s =
    (let s = prvAddTaskToReadyList t (count_task t s)
      in if xSchedulerRunning s
         then do { cur \<leftarrow> pxCurrentTCB s; if prio s cur < prio s t then portYIELD_WITHIN_API s else Some s }
         else Some s)"
  unfolding prvAddNewTaskToReadyList_def count_task_def Let_def ..

lemma create_spec:
  assumes ok: "sched_ok L T c s" and mem: "mem_ok T s H" and card: "2 * (card T + 1) < 2 ^ 32 - 1"
    and cur: "pxCurrentTCB s = Some cur"
  notes live = mem[unfolded mem_ok_def, THEN conjunct1]
  obtains (none) h where "xTaskCreate f nm d a p s = Some (None, s\<lparr>kheap := h\<rparr>)" "heap_live h H" "heap_full d s"
  | (some) t s' c' cur' where "xTaskCreate f nm d a p s = Some (Some t, s')" "t \<notin> T" "sched_ok L (insert t T) c' s'"
      "mem_ok (insert t T) s' ((t, sizeof_TCB_t) # (pxStack (tcbs s' t), unat (d * 4)) # H)"
      "created f d a p t s s'" "\<forall>u\<in>T. cont (kls s') (St u) = cont (kls s) (St u) \<and> cont (kls s') (Ev u) = cont (kls s) (Ev u)"
      "\<forall>u\<in>T. val (kls s') (St u) = val (kls s) (St u)"
      "pxCurrentTCB s' = Some cur'" "xSchedulerRunning s' = xSchedulerRunning s"
      "uxSchedulerSuspended s' = uxSchedulerSuspended s"
      "if xSchedulerRunning s
       then if prio s cur < min p 4
            then if uxSchedulerSuspended s = 0 then top_task (insert t T) s' cur' else cur' = cur \<and> xYieldPending s'
            else cur' = cur \<and> xYieldPending s' = xYieldPending s
       else cur' = (if prio s cur \<le> min p 4 then t else cur)"
      "uxDeletedTasksWaitingCleanUp s' = uxDeletedTasksWaitingCleanUp s"
proof (cases rule: create_memory[OF live, of f nm d a p])
  case h: (1 h)
  show ?thesis by (rule none[OF h])
next
  case 3: (2 stk t h)
  define s1 where "s1 = s\<lparr>kheap := h, tcbs := (tcbs s)(t := zero_TCB\<lparr>pxStack := stk\<rparr>)\<rparr>"
  have t: "t \<notin> T" using mem_ok_new(1)[OF mem 3(1), of "s1"] by (simp add: s1_def)
  note base = sched_okD(1)[OF ok]
  have cT: "cur \<in> T" "cur \<noteq> t" using ok cur t by (auto simp: sched_ok_def)
  have k1: "kls s1 = kls s" by (simp add: s1_def)
  obtain K r m where i: "prvInitialiseNewTask f nm d a p t s1 = s1\<lparr>kls := K, kstack := m, tcbs := (tcbs s1)(t := r)\<rparr>"
    "lists_ok L c K" "cont K = cont (kls s1)" "owner K = (owner (kls s1))(St t := t, Ev t := t)"
    "\<forall>i. i \<noteq> Ev t \<longrightarrow> val K i = val (kls s1) i" "val K (Ev t) = 5 - uxPriority r"
    "uxPriority r = min p 4" "pxStack r = pxStack (tcbs s1 t)"
    "(pxTopOfStack r, m) = pxPortInitialiseStack ((of_nat (pxStack (tcbs s1 t)) + 4 * (d - 1)) AND NOT 7) f a (kstack s1)"
    "ulNotifiedValue r = ulNotifiedValue (tcbs s1 t)" "ucNotifyState r = ucNotifyState (tcbs s1 t)"
    by (rule initialise_new_task[of L c s1 t f nm d a p])
      (use base_okD(1)[OF base] base_fresh[OF base t] in \<open>simp_all add: s1_def\<close>)
  have r5: "unat (uxPriority r) < 5" using i(7) by (simp add: min_def word_le_nat_alt)
  have stk: "pxStack r = stk" using i(8) by (simp add: s1_def)
  define cur1 where "cur1 = (if \<not> xSchedulerRunning s \<and> prio s cur \<le> min p 4 then t else cur)"
  define s2 where "s2 = s\<lparr>kls := K, tcbs := (tcbs s)(t := r), kheap := h, kstack := m, pxCurrentTCB := Some cur1,
    uxCurrentNumberOfTasks := uxCurrentNumberOfTasks s + 1, uxTaskNumber := uxTaskNumber s + 1\<rparr>"
  have e: "count_task t (prvInitialiseNewTask f nm d a p t s1) = s2"
    unfolding i(1) using cur cT(2) i(7)
    by (cases s) (auto simp: count_task_def s1_def s2_def cur1_def Let_def)
  have b2: "base_ok L (insert t T) {t} c s2"
    using base_insert_task[OF base t card i(2,3)[unfolded k1] _ _ r5] i(3,4,5) by (simp add: s2_def k1)
  have t2: "times_ok s2"
  proof -
    have "val K i = val (kls s) i" if "cont K i = Some l" for i l
      using that i(3,5) base_fresh(2)[OF base t] by (cases "i = Ev t") (simp_all add: k1)
    then show ?thesis using sched_okD(2)[OF ok] i(3) unfolding times_ok_def by (simp add: s2_def k1)
  qed
  have c2: "pxCurrentTCB s2 = Some cur1" "cur1 \<in> insert t T" using cT by (simp_all add: s2_def cur1_def)
  obtain s' c' cur' where f:
    "(let s = prvAddTaskToReadyList t s2
      in if xSchedulerRunning s
         then do { cur \<leftarrow> pxCurrentTCB s; if prio s cur < prio s t then portYIELD_WITHIN_API s else Some s }
         else Some s) = Some s'"
    "sched_ok L (insert t T) c' s'" "ready s' t" "tcbs s' = tcbs s2" "kheap s' = kheap s2" "kstack s' = kstack s2"
    "\<forall>u. u \<noteq> t \<longrightarrow> cont (kls s') (St u) = cont (kls s2) (St u)"
    "\<forall>u. cont (kls s') (Ev u) = cont (kls s2) (Ev u)" "same_data (kls s2) (kls s')"
    "xTickCount s' = xTickCount s2" "xSchedulerRunning s' = xSchedulerRunning s2"
    "uxSchedulerSuspended s' = uxSchedulerSuspended s2" "uxCurrentNumberOfTasks s' = uxCurrentNumberOfTasks s2"
    "uxDeletedTasksWaitingCleanUp s' = uxDeletedTasksWaitingCleanUp s2" "pxCurrentTCB s' = Some cur'"
    "if xSchedulerRunning s2 \<and> prio s2 cur1 < prio s2 t
     then if uxSchedulerSuspended s2 = 0 then top_task (insert t T) s' cur' else cur' = cur1 \<and> xYieldPending s'
     else cur' = cur1 \<and> xYieldPending s' = xYieldPending s2"
    by (rule ready_new_task[OF b2 _ t2 c2]) simp_all
  have tc: "tcbs s' = (tcbs s)(t := r)" using f(4) by (simp add: s2_def)
  have m: "mem_ok (insert t T) s' ((t, sizeof_TCB_t) # (pxStack (tcbs s' t), unat (d * 4)) # H)"
    using mem_ok_new(2)[OF mem 3(1), of s' r] f(5) tc stk by (simp add: s2_def)
  have ne: "u \<noteq> t" if "u \<in> T" for u using that t by blast
  show ?thesis
  proof (rule some[OF _ t f(2) m _ _ _ f(15)])
    show "xTaskCreate f nm d a p s = Some (Some t, s')" 
      using f(1) unfolding 3(3) s1_def[symmetric] add_new_task_unfold e by simp
    show "created f d a p t s s'"
      unfolding created_def using 3(2) f(3,5,6,8,10,13) i(3,7,9,10,11) tc stk base_fresh(2)[OF base t]
      by (simp add: s1_def s2_def zero_TCB_def configTASK_NOTIFICATION_ARRAY_ENTRIES_def numeral_3_eq_3)
    show "\<forall>u\<in>T. cont (kls s') (St u) = cont (kls s) (St u) \<and> cont (kls s') (Ev u) = cont (kls s) (Ev u)"
      using f(7,8) ne i(3) by (auto simp: s2_def k1)
    show "\<forall>u\<in>T. val (kls s') (St u) = val (kls s) (St u)"
      using same_dataD(1)[OF f(9)] i(5) by (simp add: s2_def k1)
    show "xSchedulerRunning s' = xSchedulerRunning s" "uxSchedulerSuspended s' = uxSchedulerSuspended s"
      using f(11,12) by (simp_all add: s2_def)
    show "uxDeletedTasksWaitingCleanUp s' = uxDeletedTasksWaitingCleanUp s" using f(14) by (simp add: s2_def)
    show "if xSchedulerRunning s
       then if prio s cur < min p 4
            then if uxSchedulerSuspended s = 0 then top_task (insert t T) s' cur' else cur' = cur \<and> xYieldPending s'
            else cur' = cur \<and> xYieldPending s' = xYieldPending s
       else cur' = (if prio s cur \<le> min p 4 then t else cur)"
      using f(16) cT i(7) by (auto simp: s2_def cur1_def)
  qed
qed

subsection \<open>The first task\<close>

text \<open>The state of the kernel at power-on: no task, no item on a list, the lists \<open>L\<close> of queues and
  event groups that were made before the first task empty.\<close>

definition powered_on :: "nat set \<Rightarrow> kernel \<Rightarrow> bool" where
  "powered_on L s \<longleftrightarrow> lists_ok L (\<lambda>_. []) (kls s) \<and> L \<inter> {..<10} = {} \<and> pxCurrentTCB s = None \<and>
     uxCurrentNumberOfTasks s = 0 \<and> uxTopReadyPriority s = 0 \<and> xSchedulerRunning s = False \<and>
     uxSchedulerSuspended s = 0 \<and> uxDeletedTasksWaitingCleanUp s = 0 \<and> xPendedTicks s = 0"

lemma initialise_lists:
  assumes ok: "lists_ok L (\<lambda>_. []) (kls s)" and L: "L \<inter> {..<10} = {}"
  obtains K where "prvInitialiseTaskLists s = s\<lparr>kls := K, pxDelayedTaskList := 5, pxOverflowDelayedTaskList := 6\<rparr>"
    "lists_ok (L \<union> {..<10}) (\<lambda>_. []) K" "same_data (kls s) K" "cont K = cont (kls s)"
proof -
  let ?f = "\<lambda>l K. vListInitialise l K"
  have step: "lists_ok (insert l M) (\<lambda>_. []) (vListInitialise l K) \<and> same_data K0 (vListInitialise l K) \<and>
      cont (vListInitialise l K) = cont K0"
    if "lists_ok M (\<lambda>_. []) K \<and> same_data K0 K \<and> cont K = cont K0" "l \<notin> M" for l M K K0
    using initialise_ok[of M "\<lambda>_. []" K l] that same_data_trans[of K0 K] by (simp add: fun_upd_idem)
  have all: "lists_ok (L \<union> {..<n}) (\<lambda>_. []) (fold vListInitialise [0..<n] (kls s)) \<and>
      same_data (kls s) (fold vListInitialise [0..<n] (kls s)) \<and> cont (fold vListInitialise [0..<n] (kls s)) = cont (kls s)"
    if "n \<le> 10" for n using that
  proof (induction n)
    case 0
    show ?case using ok by (simp add: same_data_def)
  next
    case (Suc n)
    have "n \<notin> L \<union> {..<n}" using L Suc.prems by auto
    from step[OF Suc.IH this] Suc.prems show ?case by (simp add: lessThan_Suc)
  qed
  have "[0..<10] = [0..<5] @ [5, 6, 7, 8, 9]" by (simp add: upt_rec)
  then have "prvInitialiseTaskLists s = s\<lparr>kls := fold vListInitialise [0..<10] (kls s), pxDelayedTaskList := 5,
      pxOverflowDelayedTaskList := 6\<rparr>"
    by (simp add: prvInitialiseTaskLists_def configMAX_PRIORITIES_def xDelayedTaskList1_def xDelayedTaskList2_def
        xPendingReadyList_def xTasksWaitingTermination_def xSuspendedTaskList_def Let_def del: upt_rec_numeral)
  with all[of 10] show thesis by (intro that[of "fold vListInitialise [0..<10] (kls s)"]) simp_all
qed

lemma create_first_spec:
  assumes on: "powered_on L s" and live: "heap_live (kheap s) H"
  obtains (none) h where "xTaskCreate f nm d a p s = Some (None, s\<lparr>kheap := h\<rparr>)" "heap_live h H" "heap_full d s"
  | (some) t s' c' where "xTaskCreate f nm d a p s = Some (Some t, s')" "sched_ok (L \<union> {..<10}) {t} c' s'"
      "mem_ok {t} s' ((t, sizeof_TCB_t) # (pxStack (tcbs s' t), unat (d * 4)) # H)"
      "created f d a p t s s'" "pxCurrentTCB s' = Some t" "xSchedulerRunning s' = False"
      "uxSchedulerSuspended s' = 0" "uxDeletedTasksWaitingCleanUp s' = 0" "xYieldPending s' = xYieldPending s"
proof (cases rule: create_memory[OF live, of f nm d a p])
  case h: (1 h)
  show ?thesis by (rule none[OF h])
next
  case 3: (2 stk t h)
  define s1 where "s1 = s\<lparr>kheap := h, tcbs := (tcbs s)(t := zero_TCB\<lparr>pxStack := stk\<rparr>)\<rparr>"
  have k1: "kls s1 = kls s" by (simp add: s1_def)
  have lok: "lists_ok L (\<lambda>_. []) (kls s1)" and L: "L \<inter> {..<10} = {}" using on by (simp_all add: powered_on_def k1)
  have none: "cont (kls s1) = (\<lambda>_. None)" using lists_okD(3)[OF lok] by (simp add: fun_eq_iff)
  obtain K r m where i: "prvInitialiseNewTask f nm d a p t s1 = s1\<lparr>kls := K, kstack := m, tcbs := (tcbs s1)(t := r)\<rparr>"
    "lists_ok L (\<lambda>_. []) K" "cont K = cont (kls s1)" "owner K = (owner (kls s1))(St t := t, Ev t := t)"
    "\<forall>i. i \<noteq> Ev t \<longrightarrow> val K i = val (kls s1) i" "val K (Ev t) = 5 - uxPriority r"
    "uxPriority r = min p 4" "pxStack r = pxStack (tcbs s1 t)"
    "(pxTopOfStack r, m) = pxPortInitialiseStack ((of_nat (pxStack (tcbs s1 t)) + 4 * (d - 1)) AND NOT 7) f a (kstack s1)"
    "ulNotifiedValue r = ulNotifiedValue (tcbs s1 t)" "ucNotifyState r = ucNotifyState (tcbs s1 t)"
    by (rule initialise_new_task[OF lok, of t f nm d a p]) (simp_all only: none)
  have r5: "unat (uxPriority r) < 5" using i(7) by (simp add: min_def word_le_nat_alt)
  have stk: "pxStack r = stk" using i(8) by (simp add: s1_def)
  define s1' where "s1' = s\<lparr>kls := K, tcbs := (tcbs s)(t := r), kheap := h, kstack := m, pxCurrentTCB := Some t,
    uxCurrentNumberOfTasks := 1\<rparr>"
  obtain K2 where 2: "prvInitialiseTaskLists s1' = s1'\<lparr>kls := K2, pxDelayedTaskList := 5, pxOverflowDelayedTaskList := 6\<rparr>"
    "lists_ok (L \<union> {..<10}) (\<lambda>_. []) K2" "same_data K K2" "cont K2 = (\<lambda>_. None)"
    using initialise_lists[of L s1'] i(2) L i(3)[unfolded none] by (auto simp: s1'_def)
  define s2 where "s2 = s\<lparr>kls := K2, tcbs := (tcbs s)(t := r), kheap := h, kstack := m, pxCurrentTCB := Some t,
    uxCurrentNumberOfTasks := 1, pxDelayedTaskList := 5, pxOverflowDelayedTaskList := 6, uxTaskNumber := uxTaskNumber s + 1\<rparr>"
  have s1': "(prvInitialiseNewTask f nm d a p t s1)\<lparr>uxCurrentNumberOfTasks := 1, pxCurrentTCB := Some t\<rparr> = s1'"
    unfolding i(1) unfolding s1_def s1'_def by (cases s) simp
  have e: "count_task t (prvInitialiseNewTask f nm d a p t s1) = s2"
  proof -
    have u: "uxCurrentNumberOfTasks (prvInitialiseNewTask f nm d a p t s1) = 0"
      "pxCurrentTCB (prvInitialiseNewTask f nm d a p t s1) = None"
      unfolding i(1) using on by (simp_all add: powered_on_def s1_def)
    have "uxCurrentNumberOfTasks s1' = 1" by (simp add: s1'_def)
    then have "count_task t (prvInitialiseNewTask f nm d a p t s1) =
       (let s = prvInitialiseTaskLists s1' in s\<lparr>uxTaskNumber := uxTaskNumber s + 1\<rparr>)"
      by (simp add: count_task_def u s1' Let_def)
    also have "\<dots> = s2" unfolding 2(1) Let_def unfolding s1'_def s2_def by (cases s) simp
    finally show ?thesis .
  qed
  have b2: "base_ok (L \<union> {..<10}) {t} {t} (\<lambda>_. []) s2"
    using 2 r5 on i(4) same_dataD(2)[OF 2(3)]
    by (auto simp: base_ok_def tasks_ok_def placed_ok_def ready_ok_def delayed_ok_def s2_def powered_on_def)
  have t2: "times_ok s2" by (simp add: times_ok_def s2_def 2(4))
  have c2: "pxCurrentTCB s2 = Some t" by (simp add: s2_def)
  obtain s' c' cur' where f:
    "(let s = prvAddTaskToReadyList t s2
      in if xSchedulerRunning s
         then do { cur \<leftarrow> pxCurrentTCB s; if prio s cur < prio s t then portYIELD_WITHIN_API s else Some s }
         else Some s) = Some s'"
    "sched_ok (L \<union> {..<10}) {t} c' s'" "ready s' t" "tcbs s' = tcbs s2" "kheap s' = kheap s2" "kstack s' = kstack s2"
    "\<forall>u. u \<noteq> t \<longrightarrow> cont (kls s') (St u) = cont (kls s2) (St u)"
    "\<forall>u. cont (kls s') (Ev u) = cont (kls s2) (Ev u)" "same_data (kls s2) (kls s')"
    "xTickCount s' = xTickCount s2" "xSchedulerRunning s' = xSchedulerRunning s2"
    "uxSchedulerSuspended s' = uxSchedulerSuspended s2" "uxCurrentNumberOfTasks s' = uxCurrentNumberOfTasks s2"
    "uxDeletedTasksWaitingCleanUp s' = uxDeletedTasksWaitingCleanUp s2" "pxCurrentTCB s' = Some cur'"
    "if xSchedulerRunning s2 \<and> prio s2 t < prio s2 t
     then if uxSchedulerSuspended s2 = 0 then top_task {t} s' cur' else cur' = t \<and> xYieldPending s'
     else cur' = t \<and> xYieldPending s' = xYieldPending s2"
    by (rule ready_new_task[OF b2 _ t2 c2]) simp_all
  have tc: "tcbs s' = (tcbs s)(t := r)" using f(4) by (simp add: s2_def)
  have "mem_ok {} s H" using live by (simp add: mem_ok_def)
  from mem_ok_new(2)[OF this 3(1), of s' r]
  have m: "mem_ok {t} s' ((t, sizeof_TCB_t) # (pxStack (tcbs s' t), unat (d * 4)) # H)"
    using f(5) tc stk by (simp add: s2_def)
  show ?thesis
  proof (rule some[OF _ f(2) m])
    show "xTaskCreate f nm d a p s = Some (Some t, s')"
      using f(1) unfolding 3(3) s1_def[symmetric] add_new_task_unfold e by simp
    show "created f d a p t s s'" using on 3(2) f(3,5,6,8,10,13) i(7,9,10,11) 2(4) tc stk
      unfolding created_def powered_on_def
      by (simp add: s1_def s2_def zero_TCB_def configTASK_NOTIFICATION_ARRAY_ENTRIES_def numeral_3_eq_3)
    show "pxCurrentTCB s' = Some t" using f(15,16) by (simp split: if_splits)
    show "xSchedulerRunning s' = False" "uxSchedulerSuspended s' = 0"
      "uxDeletedTasksWaitingCleanUp s' = 0" "xYieldPending s' = xYieldPending s"
      using f(11,12,14,16) on by (simp_all add: s2_def powered_on_def)
  qed
qed

subsection \<open>A board with two tasks\<close>

text \<open>Power-on state with one event list (number 10) and the heap of the board.\<close>

definition boot_kernel :: kernel where
  "boot_kernel = \<lparr>
     kls = vListInitialise 10 \<lparr>
       items = (\<lambda>_. \<lparr>xItemValue = 0, pxNext = ListEnd 0, pxPrevious = ListEnd 0, pvOwner = 0, pxContainer = None\<rparr>),
       lists = (\<lambda>l. \<lparr>uxNumberOfItems = 0, pxIndex = ListEnd l,
         xListEnd = \<lparr>mini_xItemValue = 0, mini_pxNext = ListEnd l, mini_pxPrevious = ListEnd l\<rparr>\<rparr>)\<rparr>,
     tcbs = (\<lambda>_. zero_TCB), kheap = boot_heap, kstack = (\<lambda>_. 0), pxCurrentTCB = None,
     pxDelayedTaskList = 0, pxOverflowDelayedTaskList = 0, uxDeletedTasksWaitingCleanUp = 0,
     uxCurrentNumberOfTasks = 0, xTickCount = 0, uxTopReadyPriority = 0, xSchedulerRunning = False,
     xPendedTicks = 0, xYieldPending = False, xNumOfOverflows = 0, uxTaskNumber = 0,
     xNextTaskUnblockTime = 0, xIdleTaskHandle = None, uxSchedulerSuspended = 0\<rparr>"

lemma boot_on: "powered_on {10} boot_kernel" "heap_live (kheap boot_kernel) []"
proof -
  have "cont (kls boot_kernel) = (\<lambda>_. None)"
    by (auto simp: boot_kernel_def cont_def fun_eq_iff vListInitialise_def Let_def ptr_simps upd_list_def set_index_def)
  moreover have "ring (kls boot_kernel) 10 []" by (simp add: boot_kernel_def vListInitialise_ring)
  ultimately show "powered_on {10} boot_kernel"
    by (simp add: powered_on_def lists_ok_def) (simp add: boot_kernel_def)
  show "heap_live (kheap boot_kernel) []"
    using boot_placed(1) by (simp add: heap_live_def boot_kernel_def boot_heap_def)
qed

lemma allocated_blocks:
  assumes "heap_ok (kheap s) a bs" "adjust_size (unat (d * 4)) \<noteq> 0" "adjust_size sizeof_TCB_t \<noteq> 0"
    "amalloc (adjust_size (unat (d * 4))) bs = Some (p, cs)" "amalloc (adjust_size sizeof_TCB_t) cs = Some (q, ds)"
  obtains h where "allocated d s (p + 8) (q + 8) h" "heap_ok h a ds"
proof -
  obtain h1 where 1: "pvPortMalloc (unat (d * 4)) (kheap s) = Some (p + 8, h1)" "heap_ok h1 a cs"
    by (rule malloc_block[OF assms(1,4,2)])
  obtain h where 2: "pvPortMalloc sizeof_TCB_t h1 = Some (q + 8, h)" "heap_ok h a ds"
    by (rule malloc_block[OF 1(2) assms(5,3)])
  show thesis by (rule that[OF _ 2(2)]) (use 1 2 in \<open>auto simp: allocated_def\<close>)
qed

lemma demo_sizes: "adjust_size (unat (128 * 4 :: u32_t)) = 528" "adjust_size sizeof_TCB_t = 120" "adjust_size 512 = 528"
  by (simp_all add: adjust_size_def Let_def portBYTE_ALIGNMENT_def heapADD_WILL_OVERFLOW_def heapSIZE_MAX_def sizeof_TCB_t_def xHeapStructSize_def)

text \<open>Two tasks on the heap of the board: the idle task and a task of priority 2.\<close>

definition demo1 :: kernel where
  "demo1 = snd (the (xTaskCreate 0x30000200 (Some configIDLE_TASK_NAME) 128 0 0 boot_kernel))"

definition demo2 :: kernel where
  "demo2 = snd (the (xTaskCreate 0x30000400 None 128 7 2 demo1))"

lemma demo1_ok:
  obtains c where "xTaskCreate 0x30000200 (Some configIDLE_TASK_NAME) 128 0 0 boot_kernel = Some (Some 0x30000218, demo1)"
    "sched_ok {..10} {0x30000218} c demo1" 
    "mem_ok {0x30000218} demo1 [(0x30000218, sizeof_TCB_t), (0x30000008, 512)]"
    "created 0x30000200 128 0 0 0x30000218 boot_kernel demo1" "pxCurrentTCB demo1 = Some 0x30000218"
    "xSchedulerRunning demo1 = False" "uxSchedulerSuspended demo1 = 0"
    "heap_ok (kheap demo1) 0x30000000 [(0x30000000, 528, Used), (0x30000210, 120, Used), (0x30000288, 0xFFD70, Free)]"
proof -
  let ?b = "boot_kernel\<lparr>kheap := prvHeapInit boot_heap\<rparr>"
  obtain h where h: "allocated 128 ?b (0x30000000 + 8) (0x30000210 + 8) h"
    "heap_ok h 0x30000000 [(0x30000000, 528, Used), (0x30000210, 120, Used), (0x30000288, 0xFFD70, Free)]"
  proof (rule allocated_blocks)
    show "heap_ok (kheap ?b) 0x30000000 [(0x30000000, 0xFFFF8, Free)]" using boot_ok by simp
    show "amalloc (adjust_size (unat (128 * 4 :: u32_t))) [(0x30000000, 0xFFFF8, Free)] =
        Some (0x30000000, [(0x30000000, 528, Used), (0x30000210, 0xFFDE8, Free)])"
      unfolding demo_sizes by simp
    show "amalloc (adjust_size sizeof_TCB_t) [(0x30000000, 528, Used), (0x30000210, 0xFFDE8, Free)] =
        Some (0x30000210, [(0x30000000, 528, Used), (0x30000210, 120, Used), (0x30000288, 0xFFD70, Free)])"
      unfolding demo_sizes by simp
  qed (simp_all add: demo_sizes)
  have "pvPortMalloc n (kheap boot_kernel) = pvPortMalloc n (prvHeapInit boot_heap)" for n
    using malloc_first[OF boot_placed(1)] by (simp add: boot_kernel_def boot_heap_def)
  then have al: "allocated 128 boot_kernel 0x30000008 0x30000218 h" using h(1) by (simp add: allocated_def)
  show thesis
  proof (cases rule: create_first_spec[OF boot_on, of "0x30000200" "Some configIDLE_TASK_NAME" 128 0 0])
    case (1 h')
    then show thesis using allocated_unique(2)[OF al] by blast
  next
    case (2 t s' c')
    have a: "allocated 128 boot_kernel (pxStack (tcbs s' t)) t (kheap s')" using 2(4) by (simp add: created_def)
    note u = allocated_unique(1)[OF al a]
    have L: "{10} \<union> {..<10} = {..10::nat}" by auto
    have d: "demo1 = s'" using 2(1) by (simp add: demo1_def)
    show thesis by (rule that[of c', unfolded d]) (use 2[unfolded L] u h(2) in auto)
  qed
qed
text \<open>Creating a task where the heap has room.\<close>

lemma create_at:
  assumes ok: "sched_ok L T c s" and mem: "mem_ok T s H" and card: "2 * (card T + 1) < 2 ^ 32 - 1"
    and cur: "pxCurrentTCB s = Some cur" and run: "\<not> xSchedulerRunning s" and heap: "heap_ok (kheap s) a bs"
    and al: "amalloc 528 bs = Some (p, cs)" "amalloc 120 cs = Some (q, ds)"
  obtains s' c' where "xTaskCreate f nm 128 par pr s = Some (Some (q + 8), s')" "sched_ok L (insert (q + 8) T) c' s'"
    "mem_ok (insert (q + 8) T) s' ((q + 8, sizeof_TCB_t) # (p + 8, 512) # H)" "created f 128 par pr (q + 8) s s'"
    "pxCurrentTCB s' = Some (if prio s cur \<le> min pr 4 then q + 8 else cur)" "\<not> xSchedulerRunning s'"
    "uxSchedulerSuspended s' = uxSchedulerSuspended s" "heap_ok (kheap s') a ds"
    "\<forall>u\<in>T. ready s' u = ready s u \<and> prio s' u = prio s u \<and> cont (kls s') (Ev u) = cont (kls s) (Ev u)"
proof -
  obtain h where h: "allocated 128 s (p + 8) (q + 8) h" "heap_ok h a ds"
    by (rule allocated_blocks[OF heap _ _ al[folded demo_sizes(1,2)]]) (simp_all add: demo_sizes)
  show thesis
  proof (cases rule: create_spec[OF ok mem card cur, of f nm 128 par pr])
    case (1 h')
    then show thesis using allocated_unique(2)[OF h(1)] by blast
  next
    case (2 t s' c' cur')
    have a: "allocated 128 s (pxStack (tcbs s' t)) t (kheap s')" using 2(5) by (simp add: created_def)
    have u: "pxStack (tcbs s' t) = p + 8" "t = q + 8" "kheap s' = h" using allocated_unique(1)[OF h(1) a] by auto
    have tc: "tcbs s' = (tcbs s)(t := tcbs s' t)" using 2(5) by (simp add: created_def)
    have "tcbs s' v = tcbs s v" if "v \<in> T" for v
      by (rule fun_cong[OF tc, THEN trans]) (use 2(2) that in auto)
    then have o: "\<forall>v\<in>T. ready s' v = ready s v \<and> prio s' v = prio s v \<and> cont (kls s') (Ev v) = cont (kls s) (Ev v)"
      using 2(6) by (simp add: ready_def)
    have "cur' = (if prio s cur \<le> min pr 4 then t else cur)" using 2(11) run by simp
    then show thesis using 2 h(2) run o u by (intro that[of s' c']) simp_all
  qed
qed

lemma demo2_ok:
  obtains c where "sched_ok {..10} {0x300004A0, 0x30000218} c demo2"
    "mem_ok {0x300004A0, 0x30000218} demo2
       [(0x300004A0, sizeof_TCB_t), (0x30000290, 512), (0x30000218, sizeof_TCB_t), (0x30000008, 512)]"
    "created 0x30000400 128 7 2 0x300004A0 demo1 demo2" "pxCurrentTCB demo2 = Some 0x300004A0"
    "\<not> xSchedulerRunning demo2" "uxSchedulerSuspended demo2 = 0" "ready demo2 0x30000218" "prio demo2 0x30000218 = 0"
    "cont (kls demo2) (Ev 0x30000218) = None"
    "heap_ok (kheap demo2) 0x30000000 [(0x30000000, 528, Used), (0x30000210, 120, Used), (0x30000288, 528, Used),
       (0x30000498, 120, Used), (0x30000510, 0xFFAE8, Free)]"
proof -
  obtain c1 where d1: "sched_ok {..10} {0x30000218} c1 demo1"
    "mem_ok {0x30000218} demo1 [(0x30000218, sizeof_TCB_t), (0x30000008, 512)]"
    "created 0x30000200 128 0 0 0x30000218 boot_kernel demo1" "pxCurrentTCB demo1 = Some 0x30000218"
    "xSchedulerRunning demo1 = False" "uxSchedulerSuspended demo1 = 0"
    "heap_ok (kheap demo1) 0x30000000 [(0x30000000, 528, Used), (0x30000210, 120, Used), (0x30000288, 0xFFD70, Free)]"
    by (rule demo1_ok)
  have p: "prio demo1 0x30000218 = 0" "ready demo1 0x30000218" "cont (kls demo1) (Ev 0x30000218) = None" using d1(3) by (simp_all add: created_def)
  have card: "2 * (card {0x30000218 :: nat} + 1) < 2 ^ 32 - 1" by simp
  let ?cs = "[(0x30000000, 528, Used), (0x30000210, 120, Used), (0x30000288, 528, Used), (0x30000498, 0xFFB60, Free)]"
  let ?ds = "[(0x30000000, 528, Used), (0x30000210, 120, Used), (0x30000288, 528, Used),
       (0x30000498, 120, Used), (0x30000510, 0xFFAE8, Free)]"
  have al: "amalloc 528 [(0x30000000, 528, Used), (0x30000210, 120, Used), (0x30000288, 0xFFD70, Free)] = Some (0x30000288, ?cs)"
    "amalloc 120 ?cs = Some (0x30000498, ?ds)" by simp_all
  have run: "\<not> xSchedulerRunning demo1" using d1(5) by simp
  obtain s' c' where 1: "xTaskCreate 0x30000400 None 128 7 2 demo1 = Some (Some (0x30000498 + 8), s')"
    "sched_ok {..10} (insert (0x30000498 + 8) {0x30000218}) c' s'"
    "mem_ok (insert (0x30000498 + 8) {0x30000218}) s'
       ((0x30000498 + 8, sizeof_TCB_t) # (0x30000288 + 8, 512) # [(0x30000218, sizeof_TCB_t), (0x30000008, 512)])"
    "created 0x30000400 128 7 2 (0x30000498 + 8) demo1 s'"
    "pxCurrentTCB s' = Some (if prio demo1 0x30000218 \<le> min 2 4 then 0x30000498 + 8 else 0x30000218)" "\<not> xSchedulerRunning s'"
    "uxSchedulerSuspended s' = uxSchedulerSuspended demo1" "heap_ok (kheap s') 0x30000000 ?ds"
    "\<forall>u\<in>{0x30000218}. ready s' u = ready demo1 u \<and> prio s' u = prio demo1 u \<and>
       cont (kls s') (Ev u) = cont (kls demo1) (Ev u)"
    by (rule create_at[OF d1(1,2) card d1(4) run d1(7) al])
  have "demo2 = s'" using 1(1) by (simp add: demo2_def)
  then show thesis using 1 d1(6) p by (intro that[of c']) simp_all
qed

end
