(* ===== verification/Tasks_Calls.thy ===== *)
theory Tasks_Calls
  imports Tasks_Create
begin

section \<open>Kernel calls of running tasks\<close>

text \<open>
  One lemma for each kernel call that leaves the set of tasks alone: the tick interrupt, yields,
  delays, suspending and resuming tasks and the scheduler, changes of priority. Each returns, keeps
  the invariant \<open>sane\<close>, and leaves the memory of the tasks alone. Part of the invariant is the rule
  of preemptive scheduling: the running task is ready and of the highest priority of all ready
  tasks, unless a yield is pending (\<open>running_ok\<close>). The idle task is always ready, so that there is
  always a task to select.
\<close>

subsection \<open>The invariant\<close>

definition dead :: "nat set \<Rightarrow> kernel \<Rightarrow> nat set" where
  "dead T s = {t \<in> T. cont (kls s) (St t) = Some xTasksWaitingTermination}"

definition running_ok :: "nat set \<Rightarrow> kernel \<Rightarrow> bool" where
  "running_ok T s \<longleftrightarrow> (\<exists>cur\<in>T. pxCurrentTCB s = Some cur \<and> cur \<notin> dead T s \<and> (xYieldPending s \<or> top_task T s cur))"

definition keeps_dead :: "nat set \<Rightarrow> kernel \<Rightarrow> kernel \<Rightarrow> bool" where
  "keeps_dead T s s' \<longleftrightarrow> dead T s' = dead T s \<and> (\<forall>t\<in>dead T s. cont (kls s') (Ev t) = cont (kls s) (Ev t))"

definition keeps_tasks :: "nat set \<Rightarrow> kernel \<Rightarrow> kernel \<Rightarrow> bool" where
  "keeps_tasks T s s' \<longleftrightarrow> kheap s' = kheap s \<and> (\<forall>t. pxStack (tcbs s' t) = pxStack (tcbs s t)) \<and>
     xSchedulerRunning s' = xSchedulerRunning s \<and> uxCurrentNumberOfTasks s' = uxCurrentNumberOfTasks s \<and>
     uxDeletedTasksWaitingCleanUp s' = uxDeletedTasksWaitingCleanUp s \<and> keeps_dead T s s'"

lemma keeps_dead_trans: "keeps_dead T s t \<Longrightarrow> keeps_dead T t u \<Longrightarrow> keeps_dead T s u"
  by (simp add: keeps_dead_def)

lemma keeps_ctrl: "same_ctrl s s' \<Longrightarrow> keeps_dead T s s' \<Longrightarrow> keeps_tasks T s s'"
  by (simp add: keeps_tasks_def same_ctrl_def)

text \<open>What every call relies on and keeps, and what it returns.\<close>

definition sane :: "nat \<Rightarrow> nat set \<Rightarrow> nat set \<Rightarrow> kernel \<Rightarrow> bool" where
  "sane idle L T s \<longleftrightarrow> (\<exists>c. sched_ok L T c s) \<and> running_ok T s \<and> idle \<in> T \<and> ready s idle \<and>
     xSchedulerRunning s \<and> uxCurrentNumberOfTasks s > 0 \<and> (\<forall>t\<in>dead T s. cont (kls s) (Ev t) = None)"

definition call_result :: "nat \<Rightarrow> nat set \<Rightarrow> nat set \<Rightarrow> kernel \<Rightarrow> kernel option \<Rightarrow> bool" where
  "call_result idle L T s r \<longleftrightarrow> (\<exists>s'. r = Some s' \<and> sane idle L T s' \<and> keeps_tasks T s s')"

lemma keeps_tasks_trans: "keeps_tasks T s t \<Longrightarrow> keeps_tasks T t u \<Longrightarrow> keeps_tasks T s u"
  by (auto simp: keeps_tasks_def intro: keeps_dead_trans)

lemma keeps_quiet: "quiet s s' \<Longrightarrow> keeps_tasks T s s'"
  by (simp add: quiet_def keeps_tasks_def keeps_dead_def dead_def)

lemma sane_next:
  assumes "sane idle L T s" "sched_ok L T c s'" "keeps_tasks T s s'" "running_ok T s'" "ready s' idle"
  shows "sane idle L T s'"
  using assms by (auto simp: sane_def keeps_tasks_def keeps_dead_def)

lemma call_resultI:
  assumes "sane idle L T s" "r = Some s'" "sched_ok L T c s'" "keeps_tasks T s s'" "running_ok T s'" "ready s' idle"
  shows "call_result idle L T s r"
  using assms sane_next by (auto simp: call_result_def)

lemma running_top:
  assumes "sched_ok L T c s" "top_task T s cur" "pxCurrentTCB s = Some cur"
  shows "running_ok T s"
proof -
  have t: "cur \<in> T" "ready s cur" using assms(2) by (simp_all add: top_task_def)
  then have "cur \<notin> dead T s" using ready_cont[OF sched_okD(1)[OF assms(1)] t]
    by (auto simp: dead_def xTasksWaitingTermination_def)
  then show ?thesis using assms t(1) by (auto simp: running_ok_def)
qed

lemma running_same:
  assumes "running_ok T s" "pxCurrentTCB s' = pxCurrentTCB s" "keeps_dead T s s'"
    "\<And>cur. pxCurrentTCB s = Some cur \<Longrightarrow> cur \<in> T \<Longrightarrow> xYieldPending s \<or> top_task T s cur \<Longrightarrow>
       xYieldPending s' \<or> top_task T s' cur"
  shows "running_ok T s'"
  using assms unfolding running_ok_def keeps_dead_def by auto

text \<open>A call that ends with a yield.\<close>

lemma yield_result:
  assumes sane: "sane idle L T s" and ok: "sched_ok L T c s'" and k: "keeps_tasks T s s'" and r: "ready s' idle"
    and cur: "uxSchedulerSuspended s' = 0 \<or> pxCurrentTCB s' = pxCurrentTCB s"
  shows "call_result idle L T s (portYIELD_WITHIN_API s')"
proof -
  have i: "idle \<in> T" and run: "running_ok T s" using sane by (simp_all add: sane_def)
  obtain s'' cur where y: "portYIELD_WITHIN_API s' = Some s''" "vTaskSwitchContext s' = Some s''" "sched_ok L T c s''"
    "quiet s' s''" "pxCurrentTCB s'' = Some cur"
    "if uxSchedulerSuspended s' = 0 then top_task T s'' cur else s'' = s'\<lparr>xYieldPending := True\<rparr>"
    by (rule yield_spec[OF ok i r])
  have k2: "keeps_tasks T s s''" by (rule keeps_tasks_trans[OF k keeps_quiet[OF y(4)]])
  have "running_ok T s''"
  proof (cases "uxSchedulerSuspended s' = 0")
    case True
    then show ?thesis using running_top[OF y(3) _ y(5)] y(6) by simp
  next
    case False
    then show ?thesis using y(6) cur sane k2
      by (intro running_same[OF run]) (auto simp: sane_def keeps_tasks_def)
  qed
  moreover have "ready s'' idle" using r quiet_views(3)[OF y(4)] by simp
  ultimately show ?thesis by (rule call_resultI[OF sane y(1,3) k2])
qed

lemma alert_top:
  assumes "alert T cur s s'" "top_task T s cur" "\<not> xYieldPending s'" "ready s' cur"
  shows "top_task T s' cur"
  using assms unfolding alert_def top_task_def by auto

lemma dead_other:
  assumes "cont (kls s) (St t) = Some l" "l \<noteq> 8"
  shows "t \<notin> dead T s"
  using assms by (simp add: dead_def xTasksWaitingTermination_def)

text \<open>Readying tasks that are not waiting for their memory to be freed leaves those that are alone.\<close>

lemma keeps_dead_readied:
  assumes ok: "sched_ok L T c s" and W: "W \<inter> dead T s = {}"
    and st: "\<forall>t. cont (kls s') (St t) = (if t \<in> W then Some (unat (prio s t)) else cont (kls s) (St t))"
    and ev: "\<forall>t. cont (kls s') (Ev t) = (if t \<in> W then None else cont (kls s) (Ev t))"
  shows "keeps_dead T s s'"
proof -
  have p5: "unat (prio s t) \<noteq> 8" if "t \<in> T" for t
    using base_okD(3)[OF sched_okD(1)[OF ok]] that by (auto simp: tasks_ok_def)
  have "dead T s' = dead T s"
    using p5 W st by (auto simp: dead_def xTasksWaitingTermination_def)
  moreover have "cont (kls s') (Ev t) = cont (kls s) (Ev t)" if "t \<in> dead T s" for t
    using ev W that by auto
  ultimately show ?thesis by (simp add: keeps_dead_def)
qed

lemma keeps_dead_moved:
  assumes "t \<notin> dead T s" "cont (kls s') (St t) \<noteq> Some 8"
    "\<forall>u. u \<noteq> t \<longrightarrow> cont (kls s') (St u) = cont (kls s) (St u) \<and> cont (kls s') (Ev u) = cont (kls s) (Ev u)"
  shows "keeps_dead T s s'"
proof -
  have "u \<in> dead T s' \<longleftrightarrow> u \<in> dead T s" for u
    using assms by (cases "u = t") (simp_all add: dead_def xTasksWaitingTermination_def)
  moreover have "cont (kls s') (Ev u) = cont (kls s) (Ev u)" if "u \<in> dead T s" for u
    using assms that by (cases "u = t") simp_all
  ultimately show ?thesis by (auto simp: keeps_dead_def)
qed

lemma keeps_passes: "sched_ok L T c s \<Longrightarrow> passes T n s s' \<Longrightarrow> keeps_dead T s s'"
  by (rule keeps_dead_readied[of L T c s "expired T n s"])
    (auto simp: passes_def expired_def blocked_def dead_def xDelayedTaskList1_def xDelayedTaskList2_def
      xTasksWaitingTermination_def)

lemma keeps_unpends:
  "sched_ok L T c s \<Longrightarrow> \<forall>t\<in>dead T s. cont (kls s) (Ev t) = None \<Longrightarrow> unpends T s s' \<Longrightarrow> keeps_dead T s s'"
  by (rule keeps_dead_readied[of L T c s "pending T s"]) (auto simp: unpends_def pending_def)

subsection \<open>Time\<close>

lemma tick_call:
  assumes sane: "sane idle L T s"
  shows "call_result idle L T s (tick_isr s)"
proof (cases "uxSchedulerSuspended s = 0")
  case False
  let ?s = "s\<lparr>xPendedTicks := xPendedTicks s + 1\<rparr>"
  have "tick_isr s = Some ?s" using False by (simp add: tick_isr_def xTaskIncrementTick_def)
  moreover have "running_ok T ?s" using sane by (simp add: sane_def running_ok_def top_task_def dead_def)
  moreover obtain c where "sched_ok L T c ?s" "ready ?s idle" using sane by (auto simp: sane_def)
  ultimately show ?thesis
    by (intro call_resultI[OF sane, of _ ?s c]) (simp_all add: keeps_tasks_def keeps_dead_def dead_def)
next
  case True
  obtain c cur where ok: "sched_ok L T c s" "pxCurrentTCB s = Some cur" "cur \<in> T" "xYieldPending s \<or> top_task T s cur"
    using sane by (auto simp: sane_def running_ok_def)
  have i: "idle \<in> T" "ready s idle" and run: "running_ok T s" using sane by (simp_all add: sane_def)
  obtain s' c' cur' where t: "tick_isr s = Some s'" "sched_ok L T c' s'" "passes T 1 s s'" "uxSchedulerSuspended s' = 0"
    "pxCurrentTCB s' = Some cur'" "(\<exists>t\<in>expired T 1 s. prio s t > prio s cur) \<longrightarrow> top_task T s' cur'"
    "top_task T s' cur' \<or> cur' = cur \<and> alert T cur s s' \<and> \<not> xYieldPending s" "same_ctrl s s'"
    by (rule tick_isr_spec[OF ok(1) True ok(2) i])
  have k: "keeps_dead T s s'" by (rule keeps_passes[OF ok(1) t(3)])
  have "running_ok T s'"
  proof (cases "top_task T s' cur'")
    case True
    show ?thesis by (rule running_top[OF t(2) True t(5)])
  next
    case False
    then have a: "cur' = cur" "alert T cur s s'" "top_task T s cur" using t(7) ok(4) by auto
    then have "ready s' cur" using passes_task(3)[OF ok(1) t(3) ok(3)] by (simp add: top_task_def)
    then show ?thesis using alert_top[OF a(2,3)] a(1) t(5) ok(2) sane k
      by (intro running_same[OF run]) (auto simp: sane_def)
  qed
  then show ?thesis
    by (rule call_resultI[OF sane t(1,2) keeps_ctrl[OF t(8) k] _ passes_task(3)[OF ok(1) t(3) i]])
qed

lemma resume_call:
  assumes sane: "sane idle L T s" and susp: "uxSchedulerSuspended s = 1"
  shows "call_result idle L T s (map_option snd (xTaskResumeAll s))"
proof -
  obtain c cur where ok: "sched_ok L T c s" "pxCurrentTCB s = Some cur" "cur \<in> T" "xYieldPending s \<or> top_task T s cur"
    using sane by (auto simp: sane_def running_ok_def)
  have i: "idle \<in> T" "ready s idle" "uxCurrentNumberOfTasks s > 0" "\<forall>t\<in>dead T s. cont (kls s) (Ev t) = None"
    and run: "running_ok T s"
    using sane by (simp_all add: sane_def)
  obtain y s' c' c1 s1 cur' where r: "xTaskResumeAll s = Some (y, s')" "sched_ok L T c' s'" "unpends T s s1"
    "sched_ok L T c1 s1" "passes T (unat (xPendedTicks s)) s1 s'" "uxSchedulerSuspended s' = 0" "xPendedTicks s' = 0"
    "pxCurrentTCB s' = Some cur'" "if y then top_task T s' cur' else cur' = cur \<and> \<not> xYieldPending s' \<and> alert T cur s s'"
    "ready s' idle" "same_ctrl s s'"
    by (rule resume_spec[OF ok(1,2) susp i(3,1,2)])
  have k: "keeps_dead T s s'"
    by (rule keeps_dead_trans[OF keeps_unpends[OF ok(1) i(4) r(3)] keeps_passes[OF r(4,5)]])
  have "running_ok T s'"
  proof (cases y)
    case True
    then show ?thesis using running_top[OF r(2) _ r(8)] r(9) by simp
  next
    case False
    then have a: "cur' = cur" "\<not> xYieldPending s'" "alert T cur s s'" using r(9) by auto
    then have "top_task T s cur" using ok(4) by (simp add: alert_def)
    moreover then have "ready s' cur"
      using passes_task(3)[OF r(4,5) ok(3) unpends_ready[OF r(3)]] by (simp add: top_task_def)
    ultimately show ?thesis using alert_top[OF a(3)] a r(8) ok(2) sane k
      by (intro running_same[OF run]) (auto simp: sane_def)
  qed
  then show ?thesis using r(1) by (intro call_resultI[OF sane _ r(2) keeps_ctrl[OF r(11) k] _ r(10)]) simp_all
qed

lemma suspend_all_call:
  assumes sane: "sane idle L T s"
  shows "call_result idle L T s (Some (vTaskSuspendAll s))"
proof -
  let ?s = "vTaskSuspendAll s"
  obtain c where "sched_ok L T c ?s" "ready ?s idle" "running_ok T ?s"
    using sane by (auto simp: sane_def running_ok_def top_task_def dead_def vTaskSuspendAll_def)
  then show ?thesis
    by (intro call_resultI[OF sane refl]) (simp_all add: keeps_tasks_def keeps_dead_def dead_def vTaskSuspendAll_def)
qed

lemma resume_all_call:
  assumes sane: "sane idle L T s"
  shows "call_result idle L T s (map_option snd (xTaskResumeAll s))"
proof (cases "uxSchedulerSuspended s = 1")
  case False
  let ?s = "s\<lparr>uxSchedulerSuspended := uxSchedulerSuspended s - 1\<rparr>"
  have "uxSchedulerSuspended ?s \<noteq> 0" using False by simp
  then have e: "xTaskResumeAll s = Some (False, ?s)" by (simp add: xTaskResumeAll_def Let_def)
  obtain c where "sched_ok L T c ?s" "ready ?s idle" "running_ok T ?s"
    using sane by (auto simp: sane_def running_ok_def top_task_def dead_def)
  then show ?thesis using e
    by (intro call_resultI[OF sane, of _ ?s c]) (simp_all add: keeps_tasks_def keeps_dead_def dead_def)
qed (rule resume_call[OF sane])


lemma resume_yield_result:
  assumes sane: "sane idle L T s" and ok: "sched_ok L T c s1" and k: "keeps_tasks T s s1" and r: "ready s1 idle"
    and susp: "uxSchedulerSuspended s1 = 1"
  shows "call_result idle L T s (resume_and_yield s1)"
proof -
  obtain cur where cur: "pxCurrentTCB s1 = Some cur" using ok by (auto simp: sched_ok_def)
  have i: "idle \<in> T" "uxCurrentNumberOfTasks s1 > 0" "\<forall>t\<in>dead T s1. cont (kls s1) (Ev t) = None"
    using sane k by (auto simp: sane_def keeps_tasks_def keeps_dead_def)
  obtain s' c' s2 c2 cur' where y: "resume_and_yield s1 = Some s'" "sched_ok L T c' s'" "unpends T s1 s2" "sched_ok L T c2 s2"
    "passes T (unat (xPendedTicks s1)) s2 s'" "uxSchedulerSuspended s' = 0" "xPendedTicks s' = 0"
    "pxCurrentTCB s' = Some cur'" "top_task T s' cur'" "same_ctrl s1 s'"
    by (rule resume_and_yield_spec[OF ok cur susp i(2,1) r])
  have k': "keeps_tasks T s s'"
    by (rule keeps_tasks_trans[OF k keeps_ctrl[OF y(10) keeps_dead_trans[OF keeps_unpends[OF ok i(3) y(3)] keeps_passes[OF y(4,5)]]]])
  have "ready s' idle" by (rule passes_task(3)[OF y(4,5) i(1) unpends_ready[OF y(3) r]])
  then show ?thesis by (rule call_resultI[OF sane y(1,2) k' running_top[OF y(2,9,8)]])
qed

lemma block_result:
  assumes sane: "sane idle L T s" and susp: "uxSchedulerSuspended s = 0" and cur: "pxCurrentTCB s \<noteq> Some idle" and n: "n \<noteq> 0"
  shows "call_result idle L T s (Option.bind (prvAddCurrentTaskToDelayedList n False (vTaskSuspendAll s)) resume_and_yield)"
proof -
  let ?s = "vTaskSuspendAll s"
  obtain c t where s: "sched_ok L T c ?s" "pxCurrentTCB ?s = Some t" "t \<in> T" "t \<notin> dead T s" "t \<noteq> idle" "ready s idle"
    using sane cur by (auto simp: sane_def running_ok_def vTaskSuspendAll_def)
  obtain s1 c1 where 1: "prvAddCurrentTaskToDelayedList n False ?s = Some s1" "sched_ok L T c1 s1"
    "blocked s1 t" "remaining s1 t = unat n" "same_rest ?s s1"
    "\<forall>i. i \<noteq> St t \<longrightarrow> cont (kls s1) i = cont (kls ?s) i \<and> val (kls s1) i = val (kls ?s) i"
    by (rule add_to_delayed_spec[OF s(1,2) n, of False]) simp_all
  note f = same_rest_fields[OF 1(5)]
  have kls: "kls ?s = kls s" "tcbs ?s = tcbs s" by (simp_all add: vTaskSuspendAll_def)
  have "keeps_dead T s s1"
    by (rule keeps_dead_moved[OF s(4)])
      (use 1(3,6) kls in \<open>auto simp: blocked_def xDelayedTaskList1_def xDelayedTaskList2_def\<close>)
  then have k: "keeps_tasks T s s1" using f kls by (simp add: keeps_tasks_def vTaskSuspendAll_def)
  have r: "ready s1 idle" using s(5,6) 1(6) f(1) kls by (simp add: ready_def)
  have u: "uxSchedulerSuspended s1 = 1" using f(7) susp by (simp add: vTaskSuspendAll_def)
  show ?thesis using resume_yield_result[OF sane 1(2) k r u] 1(1) by simp
qed

lemma delay_call:
  assumes sane: "sane idle L T s" and susp: "uxSchedulerSuspended s = 0" and cur: "pxCurrentTCB s \<noteq> Some idle"
  shows "call_result idle L T s (vTaskDelay n s)"
proof (cases "n > 0")
  case True
  have "vTaskDelay n s = Option.bind (prvAddCurrentTaskToDelayedList n False (vTaskSuspendAll s)) resume_and_yield"
    using True unfolding vTaskDelay_def Let_def by simp
  then show ?thesis using block_result[OF assms, of n] True by simp
next
  case False
  obtain c where "sched_ok L T c s" "ready s idle" using sane by (auto simp: sane_def)
  then show ?thesis using False yield_result[OF sane, of c s]
    by (simp add: vTaskDelay_def keeps_tasks_def keeps_dead_def)
qed

lemma delay_until_call:
  assumes sane: "sane idle L T s" and susp: "uxSchedulerSuspended s = 0" and cur: "pxCurrentTCB s \<noteq> Some idle"
  shows "call_result idle L T s (map_option (\<lambda>(_, _, s). s) (xTaskDelayUntil prev inc s))"
proof -
  obtain w d where wd: "delay_until_decision (xTickCount s) prev inc = (w, d)" by (cases rule: prod.exhaust)
  have t: "xTickCount (vTaskSuspendAll s) = xTickCount s" by (simp add: vTaskSuspendAll_def)
  have w: "w - xTickCount s \<noteq> 0" if d
    using wd that by (auto simp: delay_until_decision_def Let_def split: if_splits)
  have m: "map_option (\<lambda>(_, _, s). s) (Option.bind x (\<lambda>s. Some (w, d, s))) = x" for x :: "kernel option" and d
    by (cases x) simp_all
  show ?thesis
  proof (cases d)
    case True
    have "map_option (\<lambda>(_, _, s). s) (xTaskDelayUntil prev inc s) =
        Option.bind (prvAddCurrentTaskToDelayedList (w - xTickCount s) False (vTaskSuspendAll s)) resume_and_yield"
      unfolding xTaskDelayUntil_def Let_def t wd using True
      by (cases "prvAddCurrentTaskToDelayedList (w - xTickCount s) False (vTaskSuspendAll s)") (simp_all add: m)
    then show ?thesis using block_result[OF assms w[OF True]] by simp
  next
    case False
    have "map_option (\<lambda>(_, _, s). s) (xTaskDelayUntil prev inc s) = resume_and_yield (vTaskSuspendAll s)"
      unfolding xTaskDelayUntil_def Let_def t wd using False by (simp add: m)
    moreover obtain c where "sched_ok L T c (vTaskSuspendAll s)" "ready (vTaskSuspendAll s) idle"
      using sane by (auto simp: sane_def vTaskSuspendAll_def)
    ultimately show ?thesis using susp
      by (simp add: resume_yield_result[OF sane] keeps_tasks_def keeps_dead_def dead_def vTaskSuspendAll_def)
  qed
qed


subsection \<open>Suspending and resuming tasks\<close>

lemma unlink_spec:
  assumes ok: "base_ok L T {} c s" and t: "t \<in> T"
  obtains K c' where "unlink_task t s = Some (s\<lparr>kls := K\<rparr>)" "base_ok L T {t} c' (s\<lparr>kls := K\<rparr>)"
    "same_data (kls s) K" "cont K = (cont (kls s))(St t := None, Ev t := None)"
proof -
  obtain l K1 where 1: "cont (kls s) (St t) = Some l" "state_list l"
    "k_remove (St t) s = Some (s\<lparr>kls := K1\<rparr>)" "k_REMOVE (St t) s = Some (s\<lparr>kls := K1\<rparr>)"
    "base_ok L T {t} (c(l := remove1 (St t) (c l))) (s\<lparr>kls := K1\<rparr>)"
    "same_data (kls s) K1" "cont K1 = (cont (kls s))(St t := None)"
    by (rule base_remove_state[OF ok t])
  show thesis
  proof (cases "cont (kls s) (Ev t)")
    case None
    then have "cont K1 = (cont (kls s))(St t := None, Ev t := None)" using 1(7) by (auto simp: fun_eq_iff)
    then show thesis using that[OF _ 1(5,6)] None 1(3,7) by (simp add: unlink_task_def lists_container)
  next
    case (Some k)
    then have k: "cont (kls (s\<lparr>kls := K1\<rparr>)) (Ev t) = Some k" by (simp add: 1(7))
    obtain K2 where 2: "\<not> state_list k" "t \<in> T" "k \<in> L"
      "k_remove (Ev t) (s\<lparr>kls := K1\<rparr>) = Some (s\<lparr>kls := K1\<rparr>\<lparr>kls := K2\<rparr>)"
      "k_REMOVE (Ev t) (s\<lparr>kls := K1\<rparr>) = Some (s\<lparr>kls := K1\<rparr>\<lparr>kls := K2\<rparr>)"
      "base_ok L T {t} ((c(l := remove1 (St t) (c l)))(k := remove1 (Ev t) ((c(l := remove1 (St t) (c l))) k)))
        (s\<lparr>kls := K1\<rparr>\<lparr>kls := K2\<rparr>)"
      "same_data (kls (s\<lparr>kls := K1\<rparr>)) K2" "cont K2 = (cont (kls (s\<lparr>kls := K1\<rparr>)))(Ev t := None)"
      by (rule base_remove_event[OF 1(5) k])
    have u: "s\<lparr>kls := K1\<rparr>\<lparr>kls := K2\<rparr> = s\<lparr>kls := K2\<rparr>" by simp
    show thesis
    proof (rule that)
      show "unlink_task t s = Some (s\<lparr>kls := K2\<rparr>)"
        using 1(3) 2(4) k unfolding unlink_task_def by (simp add: lists_container)
      show "same_data (kls s) K2" using same_data_trans[OF 1(6)] 2(7) by simp
      show "cont K2 = (cont (kls s))(St t := None, Ev t := None)" using 2(8) 1(7) by simp
    qed (rule 2(6)[unfolded u])
  qed
qed

text \<open>Putting a task on a list other than the delayed ones keeps the invariant of the times.\<close>

lemma relinked_ok:
  assumes ok: "sched_ok L T c s" and b: "base_ok L T {} c' s'" and d: "same_data (kls s) (kls s')"
    and c: "cont (kls s') (St t) \<noteq> Some 5" "cont (kls s') (St t) \<noteq> Some 6"
      "\<forall>u. u \<noteq> t \<longrightarrow> cont (kls s') (St u) = cont (kls s) (St u)"
    and f: "pxDelayedTaskList s' = pxDelayedTaskList s" "pxOverflowDelayedTaskList s' = pxOverflowDelayedTaskList s"
      "xTickCount s' = xTickCount s" "xNextTaskUnblockTime s' = xNextTaskUnblockTime s" "pxCurrentTCB s' = pxCurrentTCB s"
  shows "sched_ok L T c' s'"
proof -
  have "cont (kls s) i = Some l" if i: "l = 5 \<or> l = 6" "cont (kls s') i = Some l" for i l
  proof -
    have "state_list l" using i(1) by (auto simp: state_list_def)
    with i(2) obtain u where u: "u \<in> T" "i = St u" by (rule base_state_item[OF b])
    with c i have "u \<noteq> t" by auto
    with c(3) u i show ?thesis by simp
  qed
  from times_mono[OF sched_okD(2)[OF ok] d this base_okD(6)[OF sched_okD(1)[OF ok]] f(1-4)]
  show ?thesis using b ok f(5) by (auto simp: sched_ok_def)
qed

lemma unlink_insert:
  assumes ok: "sched_ok L T c s" and t: "t \<in> T" and l: "l = 8 \<or> l = 9"
  obtains K1 K c' where "unlink_task t s = Some (s\<lparr>kls := K1\<rparr>)"
    "k_insert_end l (St t) (s\<lparr>kls := K1\<rparr>) = s\<lparr>kls := K\<rparr>" "sched_ok L T c' (s\<lparr>kls := K\<rparr>)"
    "same_data (kls s) K" "cont K = (cont (kls s))(St t := Some l, Ev t := None)"
proof -
  obtain K1 c1 where 1: "unlink_task t s = Some (s\<lparr>kls := K1\<rparr>)" "base_ok L T {t} c1 (s\<lparr>kls := K1\<rparr>)"
    "same_data (kls s) K1" "cont K1 = (cont (kls s))(St t := None, Ev t := None)"
    by (rule unlink_spec[OF sched_okD(1)[OF ok] t])
  let ?s = "k_insert_end l (St t) (s\<lparr>kls := K1\<rparr>)"
  obtain zs where 2: "base_ok L T {} (c1(l := zs)) ?s"
    "set zs = insert (St t) (set (c1 l))" "k_INSERT_END l (St t) (s\<lparr>kls := K1\<rparr>) = ?s"
    "?s = s\<lparr>kls := K1\<rparr>\<lparr>kls := kls ?s\<rparr>"
    "same_data (kls (s\<lparr>kls := K1\<rparr>)) (kls ?s)" "cont (kls ?s) = (cont (kls (s\<lparr>kls := K1\<rparr>)))(St t := Some l)"
    by (rule base_insert_end_state[OF 1(2) t l])
  define K where "K = kls ?s"
  have s: "?s = s\<lparr>kls := K\<rparr>" using 2(4) by (simp add: K_def)
  have c: "cont K = (cont (kls s))(St t := Some l, Ev t := None)" using 2(6) 1(4) by (auto simp: K_def fun_eq_iff)
  have d: "same_data (kls s) K" using same_data_trans[OF 1(3)] 2(5) by (simp add: K_def)
  have "sched_ok L T (c1(l := zs)) (s\<lparr>kls := K\<rparr>)"
    by (rule relinked_ok[OF ok 2(1)[unfolded s], of t]) (use l d c in auto)
  then show thesis by (rule that[OF 1(1) s _ d c])
qed

lemma suspend_spec:
  assumes ok: "sched_ok L T c s" and t: "t \<in> T" and run: "xSchedulerRunning s"
    and h: "prvGetTCBFromHandle h s = Some t"
  obtains s' c' where "vTaskSuspend h s = (if pxCurrentTCB s = Some t then portYIELD_WITHIN_API s' else Some s')"
    "sched_ok L T c' s'" "cont (kls s') = (cont (kls s))(St t := Some 9, Ev t := None)"
    "\<forall>u. uxPriority (tcbs s' u) = prio s u \<and> pxStack (tcbs s' u) = pxStack (tcbs s u)"
    "pxCurrentTCB s' = pxCurrentTCB s" "uxSchedulerSuspended s' = uxSchedulerSuspended s"
    "kheap s' = kheap s" "xSchedulerRunning s'" "uxCurrentNumberOfTasks s' = uxCurrentNumberOfTasks s"
    "uxDeletedTasksWaitingCleanUp s' = uxDeletedTasksWaitingCleanUp s" "xYieldPending s' = xYieldPending s"
proof -
  obtain K1 K c1 where 1: "unlink_task t s = Some (s\<lparr>kls := K1\<rparr>)"
    "k_insert_end 9 (St t) (s\<lparr>kls := K1\<rparr>) = s\<lparr>kls := K\<rparr>" "sched_ok L T c1 (s\<lparr>kls := K\<rparr>)"
    "same_data (kls s) K" "cont K = (cont (kls s))(St t := Some 9, Ev t := None)"
    by (rule unlink_insert[OF ok t, of 9]) simp_all
  define s3 where "s3 = upd_tcb t (ucNotifyState_update (map (\<lambda>x.
    if x = taskWAITING_NOTIFICATION then taskNOT_WAITING_NOTIFICATION else x))) (s\<lparr>kls := K\<rparr>)"
  have ok3: "sched_ok L T c1 s3"
  proof -
    have "base_ok L T {} c1 s3" using sched_okD(1)[OF 1(3)] unfolding s3_def by (subst base_upd_tcb) simp_all
    then show ?thesis using 1(3) by (simp add: sched_ok_def times_ok_def s3_def)
  qed
  obtain n where n: "prvResetNextTaskUnblockTime s3 = s3\<lparr>xNextTaskUnblockTime := n\<rparr>"
    "sched_ok L T c1 (s3\<lparr>xNextTaskUnblockTime := n\<rparr>)"
    by (rule sched_reset[OF ok3])
  have e: "vTaskSuspend h s = (if pxCurrentTCB s = Some t then portYIELD_WITHIN_API (s3\<lparr>xNextTaskUnblockTime := n\<rparr>)
      else Some (s3\<lparr>xNextTaskUnblockTime := n\<rparr>))"
    unfolding vTaskSuspend_def h 1(1) Option.bind.simps(2) Let_def xSuspendedTaskList_def 1(2) s3_def[symmetric]
    using run n(1) by (auto simp: s3_def upd_tcb_def)
  show thesis by (rule that[OF e n(2)]) (use run in \<open>auto simp: s3_def upd_tcb_def 1(5)\<close>)
qed

lemma suspend_call:
  assumes sane: "sane idle L T s" and h: "prvGetTCBFromHandle h s = Some t" and t: "t \<in> T" "t \<notin> dead T s" "t \<noteq> idle"
  shows "call_result idle L T s (vTaskSuspend h s)"
proof -
  obtain c where ok: "sched_ok L T c s" and run: "xSchedulerRunning s" and r: "ready s idle" and rk: "running_ok T s"
    using sane by (auto simp: sane_def)
  obtain s' c' where s: "vTaskSuspend h s = (if pxCurrentTCB s = Some t then portYIELD_WITHIN_API s' else Some s')"
    "sched_ok L T c' s'" "cont (kls s') = (cont (kls s))(St t := Some 9, Ev t := None)"
    "\<forall>u. uxPriority (tcbs s' u) = prio s u \<and> pxStack (tcbs s' u) = pxStack (tcbs s u)"
    "pxCurrentTCB s' = pxCurrentTCB s" "uxSchedulerSuspended s' = uxSchedulerSuspended s"
    "kheap s' = kheap s" "xSchedulerRunning s'" "uxCurrentNumberOfTasks s' = uxCurrentNumberOfTasks s"
    "uxDeletedTasksWaitingCleanUp s' = uxDeletedTasksWaitingCleanUp s" "xYieldPending s' = xYieldPending s"
    by (rule suspend_spec[OF ok t(1) run h])
  have kd: "keeps_dead T s s'" by (rule keeps_dead_moved[OF t(2)]) (simp_all add: s(3))
  then have k: "keeps_tasks T s s'" using s run by (simp add: keeps_tasks_def)
  have rd: "ready s' u \<longleftrightarrow> u \<noteq> t \<and> ready s u" if "u \<in> T" for u
  proof -
    have "unat (prio s u) \<noteq> 9" using base_okD(3)[OF sched_okD(1)[OF ok]] that by (auto simp: tasks_ok_def)
    then show ?thesis using s(3,4) by (auto simp: ready_def pxReadyTasksLists_def)
  qed
  have r': "ready s' idle" using rd r t(3) sane by (auto simp: sane_def)
  show ?thesis
  proof (cases "pxCurrentTCB s = Some t")
    case True
    then show ?thesis using yield_result[OF sane s(2) k r'] s(1,5) by simp
  next
    case False
    have "running_ok T s'"
      by (rule running_same[OF rk s(5) kd]) (use False rd s(4,11) in \<open>auto simp: top_task_def\<close>)
    then show ?thesis using call_resultI[OF sane _ s(2) k _ r'] s(1) False by simp
  qed
qed


text \<open>Moving a task to its ready list.\<close>

lemma move_ready_spec:
  assumes ok: "sched_ok L T c s" and t: "t \<in> T"
  obtains s' c' where "map_option (prvAddTaskToReadyList t) (k_remove (St t) s) = Some s'" "sched_ok L T c' s'"
    "same_data (kls s) (kls s')" "cont (kls s') = (cont (kls s))(St t := Some (unat (prio s t)))"
    "s' = s\<lparr>kls := kls s', uxTopReadyPriority := uxTopReadyPriority s'\<rparr>"
proof -
  obtain K' top K'' c' where 1: "k_remove (St t) s = Some (s\<lparr>kls := K'\<rparr>)" "k_REMOVE (St t) s = Some (s\<lparr>kls := K'\<rparr>)"
    "prvAddTaskToReadyList t (s\<lparr>kls := K'\<rparr>) = s\<lparr>kls := K'', uxTopReadyPriority := top\<rparr>"
    "base_ok L T {} c' (s\<lparr>kls := K'', uxTopReadyPriority := top\<rparr>)" "same_data (kls s) K''"
    "cont K'' = (cont (kls s))(St t := Some (unat (prio s t)))"
    "\<forall>l\<in>L. 5 \<le> l \<longrightarrow> c' l = remove1 (St t) (c l)"
    by (rule base_move_ready[OF sched_okD(1)[OF ok] t])
  have p5: "unat (prio s t) < 5" using base_okD(3)[OF sched_okD(1)[OF ok]] t by (simp add: tasks_ok_def)
  have "sched_ok L T c' (s\<lparr>kls := K'', uxTopReadyPriority := top\<rparr>)"
    by (rule relinked_ok[OF ok 1(4), of t]) (use 1(5,6) p5 in auto)
  then show thesis by (intro that[of "s\<lparr>kls := K'', uxTopReadyPriority := top\<rparr>"]) (use 1 in simp_all)
qed

text \<open>What a call does that readies a task: nothing else changes but the yield flag.\<close>

lemma readied_result:
  assumes sane: "sane idle L T s" and t: "t \<in> T" "t \<notin> dead T s" and ok: "sched_ok L T c s'"
    and s': "cont (kls s') = (cont (kls s))(St t := Some (unat (prio s t)))" "tcbs s' = tcbs s" "same_ctrl s s'"
      "pxCurrentTCB s' = pxCurrentTCB s"
  shows "keeps_tasks T s s'" "ready s' idle" "xYieldPending s \<longrightarrow> xYieldPending s' \<Longrightarrow>
    (\<And>cur. pxCurrentTCB s = Some cur \<Longrightarrow> prio s cur < prio s t \<Longrightarrow> xYieldPending s') \<Longrightarrow> running_ok T s'"
proof -
  have p5: "unat (prio s t) \<noteq> 8" using base_okD(3)[OF sched_okD(1)[OF ok]] t(1) s'(2) by (auto simp: tasks_ok_def)
  have kd: "keeps_dead T s s'" by (rule keeps_dead_moved[OF t(2)]) (use p5 in \<open>simp_all add: s'(1)\<close>)
  then show "keeps_tasks T s s'" by (rule keeps_ctrl[OF s'(3)])
  have rd: "ready s' u \<longleftrightarrow> u = t \<or> ready s u" for u
    using s'(1,2) by (auto simp: ready_def pxReadyTasksLists_def)
  then show "ready s' idle" using sane by (simp add: sane_def)
  assume y: "xYieldPending s \<longrightarrow> xYieldPending s'"
    "\<And>cur. pxCurrentTCB s = Some cur \<Longrightarrow> prio s cur < prio s t \<Longrightarrow> xYieldPending s'"
  have "running_ok T s" using sane by (simp add: sane_def)
  then show "running_ok T s'"
  proof (rule running_same[OF _ s'(4) kd])
    fix cur assume c: "pxCurrentTCB s = Some cur" "cur \<in> T" "xYieldPending s \<or> top_task T s cur"
    show "xYieldPending s' \<or> top_task T s' cur"
    proof (cases "xYieldPending s'")
      case False
      then have "prio s t \<le> prio s cur" "top_task T s cur" using y c by (auto simp: not_less[symmetric])
      then show ?thesis using rd s'(2) by (auto simp: top_task_def)
    qed simp
  qed
qed

lemma suspended_not_dead: "prvTaskIsTaskSuspended t s \<Longrightarrow> t \<notin> dead T s \<and> cont (kls s) (Ev t) = None"
  by (simp add: prvTaskIsTaskSuspended_def lists_container dead_def xSuspendedTaskList_def
      xTasksWaitingTermination_def split: if_splits)

lemma same_ctrl_kls: "s' = s\<lparr>kls := kls s', uxTopReadyPriority := uxTopReadyPriority s'\<rparr> \<Longrightarrow> same_ctrl s s'"
  unfolding same_ctrl_def by (cases s; cases s') simp

lemma nothing_result: "sane idle L T s \<Longrightarrow> call_result idle L T s (Some s)"
  by (auto simp: call_result_def keeps_tasks_def keeps_dead_def)

lemma resume_task_call:
  assumes sane: "sane idle L T s" and t: "t \<in> T"
  shows "call_result idle L T s (vTaskResume (Some t) s)"
proof (cases "Some t \<noteq> pxCurrentTCB s \<and> prvTaskIsTaskSuspended t s")
  case False
  then show ?thesis using nothing_result[OF sane] by (auto simp: vTaskResume_def)
next
  case True
  obtain c cur where ok: "sched_ok L T c s" "pxCurrentTCB s = Some cur" using sane by (auto simp: sane_def sched_ok_def)
  obtain s' c' where m: "map_option (prvAddTaskToReadyList t) (k_remove (St t) s) = Some s'" "sched_ok L T c' s'"
    "same_data (kls s) (kls s')" "cont (kls s') = (cont (kls s))(St t := Some (unat (prio s t)))"
    "s' = s\<lparr>kls := kls s', uxTopReadyPriority := uxTopReadyPriority s'\<rparr>"
    by (rule move_ready_spec[OF ok(1) t])
  have f: "tcbs s' = tcbs s" "pxCurrentTCB s' = pxCurrentTCB s" "xYieldPending s' = xYieldPending s" by (subst m(5), simp)+
  have nd: "t \<notin> dead T s" using suspended_not_dead True by blast
  note r = readied_result[OF sane t nd m(2,4) f(1) same_ctrl_kls[OF m(5)] f(2)]
  have e: "vTaskResume (Some t) s = (if prio s t \<ge> prio s cur then portYIELD_WITHIN_API s' else Some s')"
    using True m(1) f ok(2) by (auto simp: vTaskResume_def Let_def)
  show ?thesis
  proof (cases "prio s t \<ge> prio s cur")
    case True
    then show ?thesis using yield_result[OF sane m(2) r(1,2)] f(2) e by simp
  next
    case False
    then have "running_ok T s'" using r(3) f(3) ok(2) by fastforce
    then show ?thesis using call_resultI[OF sane _ m(2) r(1) _ r(2)] e False by simp
  qed
qed

lemma resume_isr_call:
  assumes sane: "sane idle L T s" and t: "t \<in> T"
  shows "call_result idle L T s (map_option snd (xTaskResumeFromISR t s))"
proof (cases "prvTaskIsTaskSuspended t s")
  case False
  then show ?thesis using nothing_result[OF sane] by (auto simp: xTaskResumeFromISR_def)
next
  case susp: True
  have nd: "t \<notin> dead T s" "cont (kls s) (Ev t) = None" using suspended_not_dead[OF susp] by blast+
  obtain c cur where ok: "sched_ok L T c s" "pxCurrentTCB s = Some cur" using sane by (auto simp: sane_def sched_ok_def)
  show ?thesis
  proof (cases "uxSchedulerSuspended s = 0")
    case True
    define b where "b = (prio s t \<ge> prio s cur)"
    define s1 where "s1 = (if b then s\<lparr>xYieldPending := True\<rparr> else s)"
    have s1: "sched_ok L T c s1" "tcbs s1 = tcbs s" "kls s1 = kls s" "pxCurrentTCB s1 = pxCurrentTCB s" "same_ctrl s s1"
      using ok(1) by (simp_all add: s1_def same_ctrl_def)
    obtain s' c' where m: "map_option (prvAddTaskToReadyList t) (k_remove (St t) s1) = Some s'" "sched_ok L T c' s'"
      "same_data (kls s1) (kls s')" "cont (kls s') = (cont (kls s1))(St t := Some (unat (prio s1 t)))"
      "s' = s1\<lparr>kls := kls s', uxTopReadyPriority := uxTopReadyPriority s'\<rparr>"
      by (rule move_ready_spec[OF s1(1) t])
    have f: "tcbs s' = tcbs s" "pxCurrentTCB s' = pxCurrentTCB s" "xYieldPending s' = xYieldPending s1"
      using s1 by (subst m(5), simp)+
    note r = readied_result[OF sane t nd(1) m(2) m(4)[unfolded s1] f(1) same_ctrl_trans[OF s1(5) same_ctrl_kls[OF m(5)]] f(2)]
    have "map_option snd (xTaskResumeFromISR t s) = Some s'"
      using susp True m(1) ok(2) by (auto simp: xTaskResumeFromISR_def Let_def s1_def b_def split: if_splits)
    moreover have "running_ok T s'" using f(3) ok(2) by (intro r(3)) (auto simp: s1_def b_def)
    ultimately show ?thesis by (intro call_resultI[OF sane _ m(2) r(1) _ r(2)])
  next
    case False
    have l: "(7::nat) \<in> L" "\<not> state_list 7" using base_okD(2)[OF sched_okD(1)[OF ok(1)]] by (simp_all add: state_list_def)
    define s' where "s' = k_insert_end 7 (Ev t) s"
    obtain zs where z: "base_ok L T {} (c(7 := zs)) s'" "s' = s\<lparr>kls := kls s'\<rparr>"
      "same_data (kls s) (kls s')" "cont (kls s') = (cont (kls s))(Ev t := Some 7)"
      unfolding s'_def by (rule base_insert_end_event[OF sched_okD(1)[OF ok(1)] t nd(2) l])
    have f: "tcbs s' = tcbs s" "pxCurrentTCB s' = pxCurrentTCB s" "xYieldPending s' = xYieldPending s" "same_ctrl s s'"
      using z(2) unfolding same_ctrl_def by (cases s; cases s'; simp)+
    have ok': "sched_ok L T (c(7 := zs)) s'"
    proof -
      have "times_ok s'"
        by (rule times_mono[OF sched_okD(2)[OF ok(1)] z(3) _ base_okD(6)[OF sched_okD(1)[OF ok(1)]]])
          (use z(4) in \<open>auto simp: s'_def k_insert_end_def split: if_splits\<close>)
      then show ?thesis using z(1) ok(1) f(2) by (simp add: sched_ok_def)
    qed
    have kd: "keeps_dead T s s'" using nd(1) z(4) by (auto simp: keeps_dead_def dead_def)
    have rd: "ready s' u = ready s u" for u using z(4) f(1) by (simp add: ready_def)
    have "running_ok T s'"
      by (rule running_same[OF _ f(2) kd]) (use sane rd f in \<open>auto simp: sane_def top_task_def\<close>)
    moreover have "map_option snd (xTaskResumeFromISR t s) = Some s'"
      using susp False by (simp add: xTaskResumeFromISR_def s'_def xPendingReadyList_def)
    ultimately show ?thesis using sane rd
      by (intro call_resultI[OF sane _ ok' keeps_ctrl[OF f(4) kd]]) (simp_all add: sane_def)
  qed
qed


subsection \<open>Priorities\<close>

lemma base_set_prio:
  assumes ok: "base_ok L T X c s" and p: "unat p < 5" and off: "\<forall>q<5. cont (kls s) (St t) \<noteq> Some q"
  shows "base_ok L T X c (upd_tcb t (uxPriority_update (\<lambda>_. p)) s)"
proof -
  let ?s = "upd_tcb t (uxPriority_update (\<lambda>_. p)) s"
  have "tasks_ok T ?s" using base_okD(3)[OF ok] p by (simp add: tasks_ok_def)
  moreover have "ready_ok T ?s" using base_okD(5)[OF ok] off by (auto simp: ready_ok_def)
  moreover have "delayed_ok c ?s" using base_okD(6)[OF ok] by (simp add: delayed_ok_def)
  ultimately show ?thesis using ok by (simp add: base_ok_def)
qed

lemma sched_set_event_value:
  assumes ok: "sched_ok L T c s"
  shows "sched_ok L T c (k_set_value (Ev t) v s)"
    "kls (k_set_value (Ev t) v s) = listSET_LIST_ITEM_VALUE (Ev t) v (kls s)"
    "cont (kls (k_set_value (Ev t) v s)) = cont (kls s)"
    "val (kls (k_set_value (Ev t) v s)) (St u) = val (kls s) (St u)"
proof -
  have off: "cont (kls s) (Ev t) \<noteq> Some 5" "cont (kls s) (Ev t) \<noteq> Some 6"
    using base_okD(4)[OF sched_okD(1)[OF ok]] by (fastforce simp: placed_ok_def state_list_def)+
  note v = base_set_value[OF sched_okD(1)[OF ok] off, of v]
  have d: "pxDelayedTaskList s = 5 \<or> pxDelayedTaskList s = 6" "pxOverflowDelayedTaskList s = 5 \<or> pxOverflowDelayedTaskList s = 6"
    using base_okD(6)[OF sched_okD(1)[OF ok]] by (auto simp: delayed_ok_def)
  have "times_ok (k_set_value (Ev t) v s)"
    using sched_okD(2)[OF ok] d off unfolding times_ok_def v(2,4) by (auto simp: k_set_value_def)
  then show "sched_ok L T c (k_set_value (Ev t) v s)"
    using v(1) ok by (simp add: sched_ok_def k_set_value_def)
  show "kls (k_set_value (Ev t) v s) = listSET_LIST_ITEM_VALUE (Ev t) v (kls s)" by (simp add: k_set_value_def)
  show "cont (kls (k_set_value (Ev t) v s)) = cont (kls s)" "val (kls (k_set_value (Ev t) v s)) (St u) = val (kls s) (St u)"
    using v(2,4) by simp_all
qed

lemma upd_tcb_commute:
  "k_remove i (upd_tcb t f s) = map_option (upd_tcb t f) (k_remove i s)"
  "k_set_value i v (upd_tcb t f s) = upd_tcb t f (k_set_value i v s)"
  by (cases "uxListRemove i (kls s)") (auto simp: k_remove_def k_set_value_def upd_tcb_def)

text \<open>The task lists after a change of priority; \<open>q\<close> is the new one.\<close>

lemma reprioritised_spec:
  assumes ok: "sched_ok L T c s" and t: "t \<in> T" and q: "unat q < 5"
  defines "r \<equiv> upd_tcb t (uxPriority_update (\<lambda>_. q)) s"
  obtains s' c' where
    "(if listIS_CONTAINED_WITHIN (pxReadyTasksLists (prio s t)) (St t) (kls r)
      then do { s \<leftarrow> k_remove (St t) r; Some (prvAddTaskToReadyList t s) } else Some r) = Some s'"
    "sched_ok L T c' s'" "tcbs s' = tcbs r"
    "cont (kls s') = (if ready s t then (cont (kls s))(St t := Some (unat q)) else cont (kls s))"
    "s' = s\<lparr>kls := kls s', tcbs := tcbs s', uxTopReadyPriority := uxTopReadyPriority s'\<rparr>"
proof (cases "ready s t")
  case False
  have off: "\<forall>p<5. cont (kls s) (St t) \<noteq> Some p"
    using False ready_prio(2)[OF sched_okD(1)[OF ok] t] by blast
  have "sched_ok L T c r"
    using base_set_prio[OF sched_okD(1)[OF ok] q off] ok by (simp add: sched_ok_def times_ok_def r_def)
  then show thesis using False
    by (intro that[of r c]) (simp_all add: lists_container ready_def r_def upd_tcb_def)
next
  case True
  obtain l K where 1: "cont (kls s) (St t) = Some l" "state_list l"
    "k_remove (St t) s = Some (s\<lparr>kls := K\<rparr>)" "k_REMOVE (St t) s = Some (s\<lparr>kls := K\<rparr>)"
    "base_ok L T {t} (c(l := remove1 (St t) (c l))) (s\<lparr>kls := K\<rparr>)"
    "same_data (kls s) K" "cont K = (cont (kls s))(St t := None)"
    by (rule base_remove_state[OF sched_okD(1)[OF ok] t])
  define s1 where "s1 = upd_tcb t (uxPriority_update (\<lambda>_. q)) (s\<lparr>kls := K\<rparr>)"
  have b1: "base_ok L T {t} (c(l := remove1 (St t) (c l))) s1"
    unfolding s1_def by (rule base_set_prio[OF 1(5) q]) (simp add: 1(7))
  have p1: "prio s1 t = q" "kls s1 = K" by (simp_all add: s1_def)
  obtain K' top zs where 2: "prvAddTaskToReadyList t s1 = s1\<lparr>kls := K', uxTopReadyPriority := top\<rparr>"
    "base_ok L T {} (c(l := remove1 (St t) (c l), unat (prio s1 t) := zs)) (s1\<lparr>kls := K', uxTopReadyPriority := top\<rparr>)"
    "set zs = insert (St t) (set ((c(l := remove1 (St t) (c l))) (unat (prio s1 t))))"
    "same_data (kls s1) K'" "cont K' = (cont (kls s1))(St t := Some (unat (prio s1 t)))"
    "unat top = max (unat (uxTopReadyPriority s1)) (unat (prio s1 t))"
    by (rule base_add_ready[OF b1 t])
  let ?s = "s1\<lparr>kls := K', uxTopReadyPriority := top\<rparr>"
  have e: "k_remove (St t) r = Some s1" by (simp add: r_def upd_tcb_commute 1(3) s1_def)
  have c2: "cont K' = (cont (kls s))(St t := Some (unat q))" using 2(5) by (simp add: p1 1(7))
  have ok': "sched_ok L T (c(l := remove1 (St t) (c l), unat (prio s1 t) := zs)) ?s"
    by (rule relinked_ok[OF ok 2(2), of t])
      (use same_data_trans[OF 1(6)] 2(4) q in \<open>auto simp: p1 c2 s1_def\<close>)
  show thesis
  proof (rule that[OF _ ok'])
    show "(if listIS_CONTAINED_WITHIN (pxReadyTasksLists (prio s t)) (St t) (kls r)
      then do { s \<leftarrow> k_remove (St t) r; Some (prvAddTaskToReadyList t s) } else Some r) = Some ?s"
      using True e 2(1) by (simp add: lists_container ready_def r_def)
  qed (use True in \<open>simp_all add: c2 s1_def r_def upd_tcb_def\<close>)
qed


lemma priority_call:
  assumes sane: "sane idle L T s" and h: "prvGetTCBFromHandle h s = Some t" and t: "t \<in> T" "t \<notin> dead T s"
  shows "call_result idle L T s (vTaskPrioritySet h new s)"
proof -
  define q where "q = (if unat new \<ge> configMAX_PRIORITIES then of_nat configMAX_PRIORITIES - 1 else new)"
  have q5: "unat q < 5" by (simp add: q_def configMAX_PRIORITIES_def)
  obtain c cur where ok: "sched_ok L T c s" "pxCurrentTCB s = Some cur" using sane by (auto simp: sane_def sched_ok_def)
  show ?thesis
  proof (cases "prio s t = q")
    case True
    then show ?thesis using nothing_result[OF sane] h by (simp add: vTaskPrioritySet_def q_def[symmetric] Let_def)
  next
    case neq: False
    define y where "y = (if q > prio s t then t \<noteq> cur \<and> q \<ge> prio s cur else t = cur)"
    define sv where "sv = (if listGET_LIST_ITEM_VALUE (Ev t) (kls s) AND taskEVENT_LIST_ITEM_VALUE_IN_USE = 0
        then k_set_value (Ev t) (of_nat configMAX_PRIORITIES - q) s else s)"
    have sv: "sched_ok L T c sv" "tcbs sv = tcbs s" "cont (kls sv) = cont (kls s)" "pxCurrentTCB sv = pxCurrentTCB s"
        "xYieldPending sv = xYieldPending s" "same_ctrl s sv" "ready sv t = ready s t"
      using sched_set_event_value(1,3)[OF ok(1)] ok(1) by (simp_all add: sv_def k_set_value_def same_ctrl_def ready_def)
    obtain s' c' where p:
      "(if listIS_CONTAINED_WITHIN (pxReadyTasksLists (prio sv t)) (St t) (kls (upd_tcb t (uxPriority_update (\<lambda>_. q)) sv))
        then do { s \<leftarrow> k_remove (St t) (upd_tcb t (uxPriority_update (\<lambda>_. q)) sv); Some (prvAddTaskToReadyList t s) }
        else Some (upd_tcb t (uxPriority_update (\<lambda>_. q)) sv)) = Some s'"
      "sched_ok L T c' s'" "tcbs s' = tcbs (upd_tcb t (uxPriority_update (\<lambda>_. q)) sv)"
      "cont (kls s') = (if ready sv t then (cont (kls sv))(St t := Some (unat q)) else cont (kls sv))"
      "s' = sv\<lparr>kls := kls s', tcbs := tcbs s', uxTopReadyPriority := uxTopReadyPriority s'\<rparr>"
      by (rule reprioritised_spec[OF sv(1) t(1) q5])
    have e: "vTaskPrioritySet h new s = (if y then portYIELD_WITHIN_API s' else Some s')"
    proof -
      have c: "(if listGET_LIST_ITEM_VALUE (Ev t) (kls (upd_tcb t (uxPriority_update (\<lambda>_. q)) s)) AND taskEVENT_LIST_ITEM_VALUE_IN_USE = 0
          then k_set_value (Ev t) (of_nat configMAX_PRIORITIES - q) (upd_tcb t (uxPriority_update (\<lambda>_. q)) s)
          else upd_tcb t (uxPriority_update (\<lambda>_. q)) s) = upd_tcb t (uxPriority_update (\<lambda>_. q)) sv"
        by (simp add: sv_def upd_tcb_commute)
      show ?thesis
        unfolding vTaskPrioritySet_def Let_def q_def[symmetric] h ok(2) Option.bind.simps(2) c y_def[symmetric]
          if_P[OF neq] p(1)[unfolded sv(2)] ..
    qed
    have f: "pxCurrentTCB s' = pxCurrentTCB s" "xYieldPending s' = xYieldPending s" "kheap s' = kheap s"
      "uxSchedulerSuspended s' = uxSchedulerSuspended sv"
      "xSchedulerRunning s' = xSchedulerRunning s" "uxCurrentNumberOfTasks s' = uxCurrentNumberOfTasks s"
      "uxDeletedTasksWaitingCleanUp s' = uxDeletedTasksWaitingCleanUp s"
      using sv(4,5,6) unfolding same_ctrl_def by (subst p(5), simp)+
    have tc: "prio s' u = (if u = t then q else prio s u)" "pxStack (tcbs s' u) = pxStack (tcbs s u)" for u
      by (simp_all add: p(3) sv(2))
    have off: "\<forall>p<5. cont (kls s) (St t) \<noteq> Some p" if "\<not> ready s t"
      using that ready_prio(2)[OF sched_okD(1)[OF ok(1)] t(1)] by blast
    have rd: "ready s' u \<longleftrightarrow> ready s u" for u
      using off q5 by (cases "u = t") (auto simp: ready_def pxReadyTasksLists_def tc(1) p(4) sv(2,3,7))
    have kd: "keeps_dead T s s'"
    proof (rule keeps_dead_moved[OF t(2)])
      show "cont (kls s') (St t) \<noteq> Some 8"
        using q5 t by (auto simp: p(4) sv(3) dead_def xTasksWaitingTermination_def)
    qed (simp add: p(4) sv(3))
    then have k: "keeps_tasks T s s'" using f tc(2) by (simp add: keeps_tasks_def)
    have r': "ready s' idle" using rd sane by (simp add: sane_def)
    show ?thesis
    proof (cases y)
      case True
      then show ?thesis using yield_result[OF sane p(2) k r'] f(1) e by simp
    next
      case False
      have "top_task T s' cur" if top: "top_task T s cur"
      proof -
        have "prio s' u \<le> prio s' cur" if u: "u \<in> T" "ready s u" for u
        proof -
          have le: "prio s u \<le> prio s cur" using top u by (simp add: top_task_def)
          consider "prio s t < q" "t = cur" | "prio s t < q" "t \<noteq> cur" "q < prio s cur" | "q < prio s t" "t \<noteq> cur"
            using False neq by (auto simp: y_def not_le split: if_splits)
          then show ?thesis using le by cases (auto simp: tc(1))
        qed
        then show ?thesis using top rd by (simp add: top_task_def)
      qed
      then have "running_ok T s'"
        using running_same[OF _ f(1) kd] sane f(2) ok(2) by (auto simp: sane_def)
      then show ?thesis using call_resultI[OF sane _ p(2) k _ r'] e False by simp
    qed
  qed
qed

end
