(* ===== verification/Tasks_Delete.thy ===== *)
theory Tasks_Delete
  imports Tasks_Calls
begin

section \<open>Deleting and creating tasks, and sequences of calls\<close>

text \<open>
  Calls that change the set of tasks. A task that deletes itself stays on the list of tasks waiting
  for termination until the idle task frees its memory; any other task is freed at once. The kernel
  invariant adds the memory of the tasks and the kernel's two counters to the invariant of the
  calls. At the end, the invariant is shown for every sequence of calls that keeps to the rules of
  the documentation, and established from power-on by creating tasks and starting the scheduler.
\<close>

subsection \<open>Deleting tasks\<close>

text \<open>A task that is on no list can be taken out of the set of tasks.\<close>

lemma base_drop_task:
  assumes ok: "base_ok L T {t} c s" and ev: "cont (kls s) (Ev t) = None"
  shows "base_ok L (T - {t}) {} c s"
proof -
  have T: "finite T" "2 * card T < 2 ^ 32 - 1" "\<forall>u\<in>T. owner (kls s) (St u) = u \<and> owner (kls s) (Ev u) = u \<and> unat (prio s u) < 5"
    using base_okD(3)[OF ok] by (auto simp: tasks_ok_def)
  have "card (T - {t}) \<le> card T" using T(1) by (simp add: card_mono)
  then have "tasks_ok (T - {t}) s" using T by (auto simp: tasks_ok_def)
  moreover have "placed_ok (T - {t}) {} (cont (kls s))"
  proof -
    note pl = base_okD(4)[OF ok, unfolded placed_ok_def]
    have "\<exists>u\<in>T - {t}. i = (if state_list l then St u else Ev u)" if i: "cont (kls s) i = Some l" for i l
    proof -
      obtain u where u: "u \<in> T" "i = (if state_list l then St u else Ev u)" using pl i by blast
      moreover have "u \<noteq> t"
      proof
        assume "u = t"
        moreover have "cont (kls s) (St t) = None" if "t \<in> T" using pl that by blast
        ultimately show False using u i ev by (auto split: if_splits)
      qed
      ultimately show ?thesis by blast
    qed
    moreover have "cont (kls s) (St u) \<noteq> None" if "u \<in> T - {t}" for u using pl that by blast
    ultimately show ?thesis unfolding placed_ok_def by auto
  qed
  moreover have "ready_ok (T - {t}) s" using base_okD(5)[OF ok] by (auto simp: ready_ok_def)
  ultimately show ?thesis using ok by (simp add: base_ok_def)
qed

lemma relinked_drop:
  assumes ok: "sched_ok L T c s" and b: "base_ok L (T - {t}) {} c' s'" and d: "same_data (kls s) (kls s')"
    and c: "\<forall>u. u \<noteq> t \<longrightarrow> cont (kls s') (St u) = cont (kls s) (St u)"
    and cur: "pxCurrentTCB s \<noteq> Some t"
    and f: "pxDelayedTaskList s' = pxDelayedTaskList s" "pxOverflowDelayedTaskList s' = pxOverflowDelayedTaskList s"
      "xTickCount s' = xTickCount s" "xNextTaskUnblockTime s' = xNextTaskUnblockTime s" "pxCurrentTCB s' = pxCurrentTCB s"
  shows "sched_ok L (T - {t}) c' s'"
proof -
  have "cont (kls s) i = Some l" if i: "l = 5 \<or> l = 6" "cont (kls s') i = Some l" for i l
  proof -
    have "state_list l" using i(1) by (auto simp: state_list_def)
    with i(2) obtain u where u: "u \<in> T - {t}" "i = St u" by (rule base_state_item[OF b])
    with c i show ?thesis by simp
  qed
  from times_mono[OF sched_okD(2)[OF ok] d this base_okD(6)[OF sched_okD(1)[OF ok]] f(1-4)]
  show ?thesis using b ok f(5) cur by (auto simp: sched_ok_def)
qed

text \<open>The memory of a task goes back to the heap.\<close>

lemma delete_memory:
  assumes mem: "mem_ok T s H" and t: "t \<in> T"
  obtains h H' where "prvDeleteTCB t s = Some (s\<lparr>kheap := h\<rparr>)" "mem_ok (T - {t}) (s\<lparr>kheap := h\<rparr>) H'"
    "H' = filter (\<lambda>b. fst b \<noteq> t \<and> fst b \<noteq> pxStack (tcbs s t)) H"
proof -
  let ?k = "pxStack (tcbs s t)"
  have l: "heap_live (kheap s) H" and k: "?k \<in> fst ` set H" "?k \<noteq> t" and tH: "(t, sizeof_TCB_t) \<in> set H"
    using mem t by (auto simp: mem_ok_def)
  let ?H1 = "filter (\<lambda>b. fst b \<noteq> ?k) H"
  obtain h1 where 1: "vPortFree ?k (kheap s) = Some h1" "heap_live h1 ?H1"
    using h4.free_law[OF l k(1)] by blast
  have "t \<in> fst ` set ?H1" using tH k(2) by force
  then obtain h2 where 2: "vPortFree t h1 = Some h2" "heap_live h2 (filter (\<lambda>b. fst b \<noteq> t) ?H1)"
    using h4.free_law[OF 1(2)] by blast
  let ?H' = "filter (\<lambda>b. fst b \<noteq> t \<and> fst b \<noteq> ?k) H"
  have H': "filter (\<lambda>b. fst b \<noteq> t) ?H1 = ?H'" by (simp add: conj_commute)
  have "mem_ok (T - {t}) (s\<lparr>kheap := h2\<rparr>) ?H'"
    unfolding mem_ok_def
  proof (intro conjI ballI)
    show "heap_live (kheap (s\<lparr>kheap := h2\<rparr>)) ?H'" using 2(2) H' by simp
    fix u assume u: "u \<in> T - {t}"
    then have o: "(u, sizeof_TCB_t) \<in> set H" "pxStack (tcbs s u) \<in> fst ` set H" "pxStack (tcbs s u) \<notin> T"
      using mem by (auto simp: mem_ok_def)
    have ne: "u \<noteq> ?k" "pxStack (tcbs s u) \<noteq> ?k" "pxStack (tcbs s u) \<noteq> t"
      using mem t u o(3) by (auto simp: mem_ok_def inj_on_def)
    show "(u, sizeof_TCB_t) \<in> set ?H'" using o ne u by auto
    show "pxStack (tcbs (s\<lparr>kheap := h2\<rparr>) u) \<in> fst ` set ?H'" using o(2) ne by force
    show "pxStack (tcbs (s\<lparr>kheap := h2\<rparr>) u) \<notin> T - {t}" using o(3) by simp
  next
    show "inj_on (\<lambda>u. pxStack (tcbs (s\<lparr>kheap := h2\<rparr>) u)) (T - {t})"
      using mem by (auto simp: mem_ok_def inj_on_def)
  qed
  then show thesis using 1(1) 2(1) by (intro that) (simp_all add: prvDeleteTCB_def)
qed


text \<open>The invariant of the kernel: in addition the memory of the tasks and the two counters.\<close>

definition kernel_inv :: "nat \<Rightarrow> nat set \<Rightarrow> nat set \<Rightarrow> holdings \<Rightarrow> kernel \<Rightarrow> bool" where
  "kernel_inv idle L T H s \<longleftrightarrow> sane idle L T s \<and> mem_ok T s H \<and> uxCurrentNumberOfTasks s = of_nat (card T) \<and>
     uxDeletedTasksWaitingCleanUp s = of_nat (card (dead T s))"

lemma of_nat_pos: "0 < n \<Longrightarrow> n < 2 ^ 32 \<Longrightarrow> (of_nat n :: u32_t) > 0"
  by (simp add: word_less_nat_alt unat_of_nat)

lemma mem_ok_cong:
  assumes "kheap s' = kheap s" "\<forall>t. pxStack (tcbs s' t) = pxStack (tcbs s t)"
  shows "mem_ok T s' H = mem_ok T s H"
  using assms by (simp add: mem_ok_def)

lemma inv_call:
  assumes "kernel_inv idle L T H s" "call_result idle L T s r"
  shows "\<exists>s'. r = Some s' \<and> kernel_inv idle L T H s'"
proof -
  obtain s' where s': "r = Some s'" "sane idle L T s'" "keeps_tasks T s s'" using assms(2) by (auto simp: call_result_def)
  then have "mem_ok T s' H" using assms(1) mem_ok_cong[of s' s T H] by (simp add: kernel_inv_def keeps_tasks_def)
  then show ?thesis using s' assms(1) by (simp add: kernel_inv_def keeps_tasks_def keeps_dead_def)
qed

lemma inv_card:
  assumes "kernel_inv idle L T H s"
  shows "finite T" "2 * card T < 2 ^ 32 - 1" "card (dead T s) \<le> card T" "0 < card T"
proof -
  obtain c where "sched_ok L T c s" and i: "idle \<in> T" using assms by (auto simp: kernel_inv_def sane_def)
  then show T: "finite T" "2 * card T < 2 ^ 32 - 1"
    using base_okD(3)[OF sched_okD(1)] by (auto simp: tasks_ok_def)
  show "card (dead T s) \<le> card T" using T(1) by (intro card_mono) (auto simp: dead_def)
  show "0 < card T" using T(1) i by (auto simp: card_gt_0_iff)
qed

lemma delete_self_call:
  assumes inv: "kernel_inv idle L T H s" and cur: "pxCurrentTCB s = Some t" and h: "prvGetTCBFromHandle h s = Some t"
    and t: "t \<noteq> idle" and susp: "uxSchedulerSuspended s = 0"
  shows "\<exists>s'. vTaskDelete h s = Some s' \<and> kernel_inv idle L T H s' \<and> dead T s' = insert t (dead T s)"
proof -
  have sane: "sane idle L T s" and mem: "mem_ok T s H" using inv by (simp_all add: kernel_inv_def)
  obtain c where ok: "sched_ok L T c s" and tT: "t \<in> T" "t \<notin> dead T s" and i: "idle \<in> T" "ready s idle"
    using sane cur by (auto simp: sane_def running_ok_def)
  obtain K1 K c2 where 1: "unlink_task t s = Some (s\<lparr>kls := K1\<rparr>)"
    "k_insert_end 8 (St t) (s\<lparr>kls := K1\<rparr>) = s\<lparr>kls := K\<rparr>" "sched_ok L T c2 (s\<lparr>kls := K\<rparr>)"
    "same_data (kls s) K" "cont K = (cont (kls s))(St t := Some 8, Ev t := None)"
    by (rule unlink_insert[OF ok tT(1), of 8]) simp_all
  define s2 where "s2 = s\<lparr>kls := K, uxTaskNumber := uxTaskNumber s + 1,
    uxDeletedTasksWaitingCleanUp := uxDeletedTasksWaitingCleanUp s + 1\<rparr>"
  have s2: "k_insert_end 8 (St t) (s\<lparr>kls := K1, uxTaskNumber := uxTaskNumber s + 1\<rparr>) =
      s\<lparr>kls := K, uxTaskNumber := uxTaskNumber s + 1\<rparr>"
    using 1(2) by (cases s) (simp add: k_insert_end_def)
  have ok2: "sched_ok L T c2 s2" using 1(3) by (simp add: s2_def)
  have r2: "ready s2 idle" using i t by (simp add: ready_def s2_def 1(5))
  obtain s' cur' where y: "portYIELD_WITHIN_API s2 = Some s'" "vTaskSwitchContext s2 = Some s'" "sched_ok L T c2 s'"
    "quiet s2 s'" "pxCurrentTCB s' = Some cur'"
    "if uxSchedulerSuspended s2 = 0 then top_task T s' cur' else s' = s2\<lparr>xYieldPending := True\<rparr>"
    by (rule yield_spec[OF ok2 i(1) r2])
  have e: "vTaskDelete h s = Some s'"
    using sane cur y(1) unfolding vTaskDelete_def h 1(1) Option.bind.simps(2) Let_def
    by (simp add: xTasksWaitingTermination_def s2 s2_def[symmetric]) (simp add: s2_def sane_def)
  have q: "cont (kls s') = (cont (kls s))(St t := Some 8, Ev t := None)" "tcbs s' = tcbs s" "kheap s' = kheap s"
    "xSchedulerRunning s' = xSchedulerRunning s" "uxCurrentNumberOfTasks s' = uxCurrentNumberOfTasks s"
    "uxDeletedTasksWaitingCleanUp s' = uxDeletedTasksWaitingCleanUp s + 1"
    using y(4) by (simp_all add: quiet_def s2_def 1(5))
  have d: "dead T s' = insert t (dead T s)" using tT by (auto simp: dead_def q(1) xTasksWaitingTermination_def)
  have "sane idle L T s'"
    unfolding sane_def
    using y(3) running_top[OF y(3) _ y(5)] y(6) susp i sane quiet_views(3)[OF y(4)] r2 q d
    by (auto simp: s2_def sane_def)
  moreover have "mem_ok T s' H" using mem mem_ok_cong[of s' s T H] q(2,3) by simp
  moreover have "card (dead T s') = card (dead T s) + 1"
    using d tT(2) inv_card(1)[OF inv] by (simp add: dead_def)
  ultimately have "kernel_inv idle L T H s'" using inv q by (simp add: kernel_inv_def)
  then show ?thesis using e d by blast
qed


text \<open>Taking a task out of the kernel.\<close>

lemma inv_drop:
  assumes inv: "kernel_inv idle L T H s" and t: "t \<in> T" "t \<noteq> idle" and cur: "pxCurrentTCB s \<noteq> Some t"
    and s': "sched_ok L (T - {t}) c' s'" "mem_ok (T - {t}) s' H'" "tcbs s' = tcbs s" "pxCurrentTCB s' = pxCurrentTCB s"
      "xYieldPending s' = xYieldPending s" "xSchedulerRunning s' = xSchedulerRunning s"
      "\<forall>u. u \<noteq> t \<longrightarrow> cont (kls s') (St u) = cont (kls s) (St u) \<and> cont (kls s') (Ev u) = cont (kls s) (Ev u)"
      "uxCurrentNumberOfTasks s' = uxCurrentNumberOfTasks s - 1"
      "uxDeletedTasksWaitingCleanUp s' = of_nat (card (dead T s - {t}))"
  shows "kernel_inv idle L (T - {t}) H' s'" "dead (T - {t}) s' = dead T s - {t}"
proof -
  have sane: "sane idle L T s" using inv by (simp add: kernel_inv_def)
  have rd: "ready s' u = ready s u" if "u \<noteq> t" for u using s'(3,7) that by (simp add: ready_def)
  show d: "dead (T - {t}) s' = dead T s - {t}" using s'(7) by (auto simp: dead_def)
  have i: "idle \<in> T - {t}" using sane t(2) by (auto simp: sane_def)
  have n: "uxCurrentNumberOfTasks s' = of_nat (card (T - {t}))"
    using inv s'(8) inv_card(1,4)[OF inv] t(1) by (simp add: kernel_inv_def card_Diff_singleton)
  have "card (T - {t}) > 0" using i inv_card(1)[OF inv] by (auto simp: card_gt_0_iff)
  moreover have "card (T - {t}) < 2 ^ 32"
    using inv_card(2)[OF inv] card_Diff1_le[of T t] by linarith
  ultimately have pos: "uxCurrentNumberOfTasks s' > 0" unfolding n by (rule of_nat_pos)
  have "running_ok (T - {t}) s'"
  proof -
    obtain c where c: "c \<in> T" "pxCurrentTCB s = Some c" "c \<notin> dead T s" "xYieldPending s \<or> top_task T s c"
      using sane by (auto simp: sane_def running_ok_def)
    then have ne: "c \<noteq> t" using cur by auto
    have "top_task (T - {t}) s' c" if "top_task T s c"
      using that c ne rd s'(3) by (auto simp: top_task_def)
    then show ?thesis using c ne d s'(4,5) by (auto simp: running_ok_def)
  qed
  moreover have "\<forall>u\<in>dead (T - {t}) s'. cont (kls s') (Ev u) = None" using d sane s'(7) by (auto simp: sane_def)
  moreover have "ready s' idle" "xSchedulerRunning s'" using rd t(2) sane s'(6) by (simp_all add: sane_def)
  ultimately have "sane idle L (T - {t}) s'" using s'(1) i pos by (auto simp: sane_def)
  then show "kernel_inv idle L (T - {t}) H' s'" using s'(2,9) n d by (simp add: kernel_inv_def)
qed

lemma delete_other_call:
  assumes inv: "kernel_inv idle L T H s" and h: "prvGetTCBFromHandle h s = Some t"
    and t: "t \<in> T" "t \<notin> dead T s" "t \<noteq> idle" and cur: "pxCurrentTCB s \<noteq> Some t"
  shows "\<exists>s' H'. vTaskDelete h s = Some s' \<and> kernel_inv idle L (T - {t}) H' s'"
proof -
  have sane: "sane idle L T s" and mem: "mem_ok T s H" using inv by (simp_all add: kernel_inv_def)
  obtain c where ok: "sched_ok L T c s" using sane by (auto simp: sane_def)
  obtain K c1 where 1: "unlink_task t s = Some (s\<lparr>kls := K\<rparr>)" "base_ok L T {t} c1 (s\<lparr>kls := K\<rparr>)"
    "same_data (kls s) K" "cont K = (cont (kls s))(St t := None, Ev t := None)"
    by (rule unlink_spec[OF sched_okD(1)[OF ok] t(1)])
  have b: "base_ok L (T - {t}) {} c1 (s\<lparr>kls := K\<rparr>)" by (rule base_drop_task[OF 1(2)]) (simp add: 1(4))
  define s1 where "s1 = s\<lparr>kls := K, uxTaskNumber := uxTaskNumber s + 1, uxCurrentNumberOfTasks := uxCurrentNumberOfTasks s - 1\<rparr>"
  have "sched_ok L (T - {t}) c1 (s\<lparr>kls := K\<rparr>)"
    by (rule relinked_drop[OF ok b]) (use 1(3,4) cur in auto)
  then have ok1: "sched_ok L (T - {t}) c1 s1" by (simp add: s1_def)
  obtain n where n: "prvResetNextTaskUnblockTime s1 = s1\<lparr>xNextTaskUnblockTime := n\<rparr>"
    "sched_ok L (T - {t}) c1 (s1\<lparr>xNextTaskUnblockTime := n\<rparr>)"
    by (rule sched_reset[OF ok1])
  let ?s2 = "s1\<lparr>xNextTaskUnblockTime := n\<rparr>"
  have m2: "mem_ok T ?s2 H" using mem by (subst mem_ok_cong[of _ s]) (simp_all add: s1_def)
  obtain hp H' where d: "prvDeleteTCB t ?s2 = Some (?s2\<lparr>kheap := hp\<rparr>)" "mem_ok (T - {t}) (?s2\<lparr>kheap := hp\<rparr>) H'"
    "H' = filter (\<lambda>b. fst b \<noteq> t \<and> fst b \<noteq> pxStack (tcbs ?s2 t)) H"
    by (rule delete_memory[OF m2 t(1)])
  have ct: "(Some t = pxCurrentTCB s) = False" using cur by auto
  have e: "vTaskDelete h s = Some (?s2\<lparr>kheap := hp\<rparr>)"
    using d(1) n(1) unfolding vTaskDelete_def h 1(1) Option.bind.simps(2) Let_def
    by (simp add: s1_def[symmetric]) (simp add: s1_def ct)
  have "kernel_inv idle L (T - {t}) H' (?s2\<lparr>kheap := hp\<rparr>)"
    by (rule inv_drop(1)[OF inv t(1,3) cur _ d(2)])
      (use n(2) t(2) inv in \<open>simp_all add: s1_def 1(4) kernel_inv_def\<close>)
  with e show ?thesis by blast
qed

lemma cleanup_step:
  assumes inv: "kernel_inv idle L T H s" and cur: "pxCurrentTCB s = Some idle" and n: "card (dead T s) = Suc n"
  obtains t s' H' where "t \<in> dead T s" "termination_loop (Suc k) s = termination_loop k s'"
    "kernel_inv idle L (T - {t}) H' s'" "dead (T - {t}) s' = dead T s - {t}" "pxCurrentTCB s' = Some idle"
proof -
  let ?l = xTasksWaitingTermination
  have sane: "sane idle L T s" and mem: "mem_ok T s H" using inv by (simp_all add: kernel_inv_def)
  obtain c where ok: "sched_ok L T c s" using sane by (auto simp: sane_def)
  note base = sched_okD(1)[OF ok] and lok = base_okD(1)[OF sched_okD(1)[OF ok]]
  have l: "?l \<in> L" "state_list ?l" using base_okD(2)[OF base] by (simp_all add: xTasksWaitingTermination_def state_list_def)
  obtain u where "u \<in> dead T s" using n by fastforce
  then have "c ?l \<noteq> []" using lists_okD(2)[OF lok, of "St u" ?l] by (auto simp: dead_def)
  then obtain x xs where x: "c ?l = x # xs" by (cases "c ?l") auto
  have cx: "cont (kls s) x = Some ?l" using lists_okD(2)[OF lok] l(1) x by auto
  obtain t where t: "t \<in> T" "x = St t" by (rule base_state_item[OF base cx l(2)])
  have own: "owner (kls s) x = t" using base_okD(3)[OF base] t by (simp add: tasks_ok_def)
  have hd: "listGET_OWNER_OF_HEAD_ENTRY ?l (kls s) = Some t" using lists_head(1)[OF lok l(1) x] own by simp
  have td: "t \<in> dead T s" "cont (kls s) (Ev t) = None" using cx t sane by (auto simp: dead_def sane_def)
  have ti: "t \<noteq> idle"
    using td(1) sane ready_cont[OF base, of idle] by (auto simp: dead_def sane_def xTasksWaitingTermination_def)
  obtain l' K where 1: "cont (kls s) (St t) = Some l'" "state_list l'"
    "k_remove (St t) s = Some (s\<lparr>kls := K\<rparr>)" "k_REMOVE (St t) s = Some (s\<lparr>kls := K\<rparr>)"
    "base_ok L T {t} (c(l' := remove1 (St t) (c l'))) (s\<lparr>kls := K\<rparr>)"
    "same_data (kls s) K" "cont K = (cont (kls s))(St t := None)"
    by (rule base_remove_state[OF base t(1)])
  have b: "base_ok L (T - {t}) {} (c(l' := remove1 (St t) (c l'))) (s\<lparr>kls := K\<rparr>)"
    by (rule base_drop_task[OF 1(5)]) (simp add: 1(7) td(2))
  have ok1: "sched_ok L (T - {t}) (c(l' := remove1 (St t) (c l'))) (s\<lparr>kls := K\<rparr>)"
    by (rule relinked_drop[OF ok b]) (use 1(6,7) cur ti in auto)
  define s1 where "s1 = s\<lparr>kls := K, uxCurrentNumberOfTasks := uxCurrentNumberOfTasks s - 1,
    uxDeletedTasksWaitingCleanUp := uxDeletedTasksWaitingCleanUp s - 1\<rparr>"
  have m1: "mem_ok T s1 H" using mem by (subst mem_ok_cong[of _ s]) (simp_all add: s1_def)
  obtain hp H' where d: "prvDeleteTCB t s1 = Some (s1\<lparr>kheap := hp\<rparr>)" "mem_ok (T - {t}) (s1\<lparr>kheap := hp\<rparr>) H'"
    "H' = filter (\<lambda>b. fst b \<noteq> t \<and> fst b \<noteq> pxStack (tcbs s1 t)) H"
    by (rule delete_memory[OF m1 t(1)])
  have cd: "uxDeletedTasksWaitingCleanUp s - 1 = of_nat (card (dead T s - {t}))"
    using inv n td(1) by (simp add: kernel_inv_def card_Diff_singleton)
  note i = inv_drop[OF inv t(1) ti _ _ d(2)]
  have "kernel_inv idle L (T - {t}) H' (s1\<lparr>kheap := hp\<rparr>)" "dead (T - {t}) (s1\<lparr>kheap := hp\<rparr>) = dead T s - {t}"
    by (rule i; use ok1 cur ti cd in \<open>simp add: s1_def 1(7)\<close>)+
  moreover have "termination_loop (Suc k) s = termination_loop k (s1\<lparr>kheap := hp\<rparr>)"
    using hd 1(3) d(1) by (simp add: s1_def)
  ultimately show thesis using td(1) cur by (intro that[of t "s1\<lparr>kheap := hp\<rparr>" H']) (simp_all add: s1_def)
qed

lemma cleanup_call:
  assumes "kernel_inv idle L T H s" "pxCurrentTCB s = Some idle" "card (dead T s) = n"
  shows "\<exists>s' H'. termination_loop n s = Some s' \<and> kernel_inv idle L (T - dead T s) H' s' \<and>
    dead (T - dead T s) s' = {} \<and> pxCurrentTCB s' = Some idle"
  using assms
proof (induction n arbitrary: T H s)
  case 0
  then have "dead T s = {}" using inv_card(1)[OF 0(1)] by (auto simp: dead_def)
  then show ?case using 0 by auto
next
  case (Suc n)
  obtain t s' H' where 1: "t \<in> dead T s" "termination_loop (Suc n) s = termination_loop n s'"
    "kernel_inv idle L (T - {t}) H' s'" "dead (T - {t}) s' = dead T s - {t}" "pxCurrentTCB s' = Some idle"
    by (rule cleanup_step[OF Suc.prems, of n])
  have "card (dead (T - {t}) s') = n" using 1(1,4) Suc.prems(3) by (simp add: card_Diff_singleton)
  from Suc.IH[OF 1(3,5) this] 1(1,2,4) show ?case by (auto simp: Diff_insert2[symmetric] insert_absorb)
qed


lemma yield_call: "sane idle L T s \<Longrightarrow> call_result idle L T s (portYIELD_WITHIN_API s)"
  using yield_result[of idle L T s _ s] by (auto simp: sane_def keeps_tasks_def keeps_dead_def)

lemma idle_call:
  assumes inv: "kernel_inv idle L T H s" and cur: "pxCurrentTCB s = Some idle"
  shows "\<exists>s' H'. prvIdleTask_round s = Some s' \<and> kernel_inv idle L (T - dead T s) H' s'"
proof -
  have "card (dead T s) < 2 ^ 32" using inv_card(2,3)[OF inv] by linarith
  then have n: "unat (uxDeletedTasksWaitingCleanUp s) = card (dead T s)"
    using inv by (simp add: kernel_inv_def unat_of_nat)
  obtain s1 H1 where 1: "termination_loop (card (dead T s)) s = Some s1" "kernel_inv idle L (T - dead T s) H1 s1"
    using cleanup_call[OF inv cur refl] by blast
  have "sane idle L (T - dead T s) s1" using 1(2) by (simp add: kernel_inv_def)
  from inv_call[OF 1(2) yield_call[OF this]] 1 show ?thesis
    by (auto simp: prvIdleTask_round_def prvCheckTasksWaitingTermination_def n)
qed

subsection \<open>Creating tasks\<close>

lemma create_call:
  assumes inv: "kernel_inv idle L T H s" and card: "2 * (card T + 1) < 2 ^ 32 - 1"
  shows "\<exists>h s' H'. xTaskCreate f nm d a p s = Some (h, s') \<and>
    kernel_inv idle L (case h of None \<Rightarrow> T | Some t \<Rightarrow> insert t T) H' s'"
proof -
  have sane: "sane idle L T s" and mem: "mem_ok T s H" using inv by (simp_all add: kernel_inv_def)
  obtain c cur where ok: "sched_ok L T c s" "pxCurrentTCB s = Some cur" "cur \<in> T" "cur \<notin> dead T s"
      "xYieldPending s \<or> top_task T s cur" and run: "xSchedulerRunning s"
    using sane by (auto simp: sane_def running_ok_def)
  show ?thesis
  proof (cases rule: create_spec[OF ok(1) mem card ok(2), of f nm d a p])
    case (1 h)
    have "sane idle L T (s\<lparr>kheap := h\<rparr>)"
      using sane by (simp add: sane_def running_ok_def top_task_def dead_def ready_def)
    moreover have "mem_ok T (s\<lparr>kheap := h\<rparr>) H" using mem 1(2) by (simp add: mem_ok_def)
    ultimately have "kernel_inv idle L T H (s\<lparr>kheap := h\<rparr>)" using inv by (simp add: kernel_inv_def dead_def)
    then show ?thesis using 1(1) by auto
  next
    case (2 t s' c' cur')
    have cr: "ready s' t" "prio s' t = min p 4" "tcbs s' = (tcbs s)(t := tcbs s' t)"
      "uxCurrentNumberOfTasks s' = uxCurrentNumberOfTasks s + 1" using 2(5) by (simp_all add: created_def)
    have ne: "u \<noteq> t" if "u \<in> T" for u using that 2(2) by blast
    have tc: "tcbs s' u = tcbs s u" if "u \<in> T" for u
      by (rule fun_cong[OF cr(3), THEN trans]) (use ne[OF that] in simp)
    have rd: "ready s' u = ready s u" if "u \<in> T" for u using 2(6) tc[OF that] that by (simp add: ready_def)
    have dt: "t \<notin> dead (insert t T) s'"
      using ready_cont[OF sched_okD(1)[OF 2(3)], of t] cr(1) by (auto simp: dead_def xTasksWaitingTermination_def)
    have d: "dead (insert t T) s' = dead T s" using dt 2(6) by (auto simp: dead_def)
    have "running_ok (insert t T) s'"
    proof (cases "prio s cur < min p 4 \<and> uxSchedulerSuspended s = 0")
      case True
      then show ?thesis using running_top[OF 2(3) _ 2(8)] 2(11) run by simp
    next
      case False
      then have c': "cur' = cur" using 2(11) run by (auto split: if_splits)
      have "top_task (insert t T) s' cur" if "\<not> xYieldPending s'"
      proof -
        have "\<not> prio s cur < min p 4" and y: "\<not> xYieldPending s" using 2(11) run False that by (auto split: if_splits)
        then have "prio s' t \<le> prio s' cur" by (simp only: cr(2) tc[OF ok(3)] not_less)
        then show ?thesis using y ok(3,5) rd tc by (auto simp: top_task_def)
      qed
      then show ?thesis using 2(8) c' ok(3,4) d by (auto simp: running_ok_def)
    qed
    moreover have n: "uxCurrentNumberOfTasks s' = of_nat (card (insert t T))"
      using cr(4) inv 2(2) inv_card(1)[OF inv] by (simp add: kernel_inv_def)
    moreover have "uxCurrentNumberOfTasks s' > 0"
      unfolding n using inv_card(1)[OF inv] 2(2) card by (intro of_nat_pos) simp_all
    moreover have "\<forall>u\<in>dead (insert t T) s'. cont (kls s') (Ev u) = None"
      unfolding d using sane 2(6) by (auto simp: sane_def dead_def)
    ultimately have "sane idle L (insert t T) s'"
      using sane rd 2(3,9) by (auto simp: sane_def)
    then have "kernel_inv idle L (insert t T) ((t, sizeof_TCB_t) # (pxStack (tcbs s' t), unat (d * 4)) # H) s'"
      using 2(4,12) n d inv by (simp add: kernel_inv_def)
    then show ?thesis using 2(1) by auto
  qed
qed

subsection \<open>Sequences of calls\<close>

datatype kcall =
    Tick | Yield | Delay TickType_t | DelayUntil TickType_t TickType_t | Suspend "nat option" | Resume nat
  | ResumeFromISR nat | PrioritySet "nat option" UBaseType_t | SuspendAll | ResumeAll | Delete "nat option" | IdleRound
  | Create u32_t "(nat \<Rightarrow> u8_t) option" u32_t u32_t UBaseType_t

definition kernel_call :: "kcall \<Rightarrow> kernel \<Rightarrow> kernel option" where
  "kernel_call k s =
     (case k of
        Tick \<Rightarrow> tick_isr s
      | Yield \<Rightarrow> portYIELD_WITHIN_API s
      | Delay n \<Rightarrow> vTaskDelay n s
      | DelayUntil p i \<Rightarrow> map_option (\<lambda>(_, _, s). s) (xTaskDelayUntil p i s)
      | Suspend h \<Rightarrow> vTaskSuspend h s
      | Resume t \<Rightarrow> vTaskResume (Some t) s
      | ResumeFromISR t \<Rightarrow> map_option snd (xTaskResumeFromISR t s)
      | PrioritySet h p \<Rightarrow> vTaskPrioritySet h p s
      | SuspendAll \<Rightarrow> Some (vTaskSuspendAll s)
      | ResumeAll \<Rightarrow> map_option snd (xTaskResumeAll s)
      | Delete h \<Rightarrow> vTaskDelete h s
      | IdleRound \<Rightarrow> prvIdleTask_round s
      | Create f nm d a p \<Rightarrow> map_option snd (xTaskCreate f nm d a p s))"

text \<open>The rules of the documentation: handles are of tasks that exist and were not deleted, a task does
  not block or delete itself while the scheduler is suspended, and the idle task is never blocked,
  suspended or deleted.\<close>

definition live_task :: "nat set \<Rightarrow> kernel \<Rightarrow> nat option \<Rightarrow> bool" where
  "live_task T s h \<longleftrightarrow> (case prvGetTCBFromHandle h s of None \<Rightarrow> False | Some t \<Rightarrow> t \<in> T \<and> t \<notin> dead T s)"

definition permitted :: "nat \<Rightarrow> nat set \<Rightarrow> kcall \<Rightarrow> kernel \<Rightarrow> bool" where
  "permitted idle T k s \<longleftrightarrow>
     (case k of
        Delay _ \<Rightarrow> uxSchedulerSuspended s = 0 \<and> pxCurrentTCB s \<noteq> Some idle
      | DelayUntil _ _ \<Rightarrow> uxSchedulerSuspended s = 0 \<and> pxCurrentTCB s \<noteq> Some idle
      | Suspend h \<Rightarrow> live_task T s h \<and> prvGetTCBFromHandle h s \<noteq> Some idle
      | Resume t \<Rightarrow> live_task T s (Some t)
      | ResumeFromISR t \<Rightarrow> live_task T s (Some t)
      | PrioritySet h _ \<Rightarrow> live_task T s h
      | Delete h \<Rightarrow> live_task T s h \<and> prvGetTCBFromHandle h s \<noteq> Some idle \<and> uxSchedulerSuspended s = 0
      | IdleRound \<Rightarrow> pxCurrentTCB s = Some idle
      | Create _ _ _ _ _ \<Rightarrow> 2 * (card T + 1) < 2 ^ 32 - 1
      | _ \<Rightarrow> True)"

text \<open>The tasks behind a call.\<close>

definition tasks_after :: "nat set \<Rightarrow> kcall \<Rightarrow> kernel \<Rightarrow> nat set" where
  "tasks_after T k s =
     (case k of
        Delete h \<Rightarrow> if prvGetTCBFromHandle h s = pxCurrentTCB s then T else T - set_option (prvGetTCBFromHandle h s)
      | IdleRound \<Rightarrow> T - dead T s
      | Create f nm d a p \<Rightarrow>
          (case xTaskCreate f nm d a p s of Some (Some t, _) \<Rightarrow> insert t T | _ \<Rightarrow> T)
      | _ \<Rightarrow> T)"

lemma kernel_call_inv:
  assumes inv: "kernel_inv idle L T H s" and ok: "permitted idle T k s"
  shows "\<exists>s' H'. kernel_call k s = Some s' \<and> kernel_inv idle L (tasks_after T k s) H' s'"
proof -
  have sane: "sane idle L T s" using inv by (simp add: kernel_inv_def)
  note defs = kernel_call_def permitted_def tasks_after_def live_task_def
  note c = inv_call[OF inv]
  show ?thesis
  proof (cases k)
    case (Delete h)
    then obtain t where t: "prvGetTCBFromHandle h s = Some t" "t \<in> T" "t \<notin> dead T s" "t \<noteq> idle" "uxSchedulerSuspended s = 0"
      using ok by (auto simp: defs split: option.splits)
    show ?thesis
    proof (cases "pxCurrentTCB s = Some t")
      case True
      from delete_self_call[OF inv True t(1,4,5)] show ?thesis using Delete True t(1) by (auto simp: defs)
    next
      case False
      from delete_other_call[OF inv t(1-4) False] show ?thesis using Delete False t(1) by (auto simp: defs)
    qed
  next
    case IdleRound
    then show ?thesis using idle_call[OF inv] ok by (auto simp: defs)
  next
    case (Create f nm d a p)
    then have "2 * (card T + 1) < 2 ^ 32 - 1" using ok by (simp add: defs)
    from create_call[OF inv this, of f nm d a p] Create show ?thesis by (fastforce simp: defs split: option.splits)
  next
    case Tick
    then show ?thesis using c[OF tick_call[OF sane]] by (auto simp: defs)
  next
    case Yield
    then show ?thesis using c[OF yield_call[OF sane]] by (auto simp: defs)
  next
    case (Delay n)
    then show ?thesis using c[OF delay_call[OF sane, of n]] ok by (auto simp: defs)
  next
    case (DelayUntil p i)
    then show ?thesis using c[OF delay_until_call[OF sane]] ok by (fastforce simp: defs)
  next
    case (Suspend h)
    then obtain t where "prvGetTCBFromHandle h s = Some t" "t \<in> T" "t \<notin> dead T s" "t \<noteq> idle"
      using ok by (auto simp: defs split: option.splits)
    from c[OF suspend_call[OF sane this]] Suspend show ?thesis by (auto simp: defs)
  next
    case (Resume t)
    then show ?thesis using c[OF resume_task_call[OF sane, of t]] ok by (auto simp: defs prvGetTCBFromHandle_def)
  next
    case (ResumeFromISR t)
    then show ?thesis using c[OF resume_isr_call[OF sane, of t]] ok by (auto simp: defs prvGetTCBFromHandle_def)
  next
    case (PrioritySet h p)
    then obtain t where "prvGetTCBFromHandle h s = Some t" "t \<in> T" "t \<notin> dead T s"
      using ok by (auto simp: defs split: option.splits)
    from c[OF priority_call[OF sane this, of p]] PrioritySet show ?thesis by (auto simp: defs)
  next
    case SuspendAll
    then show ?thesis using c[OF suspend_all_call[OF sane]] by (auto simp: defs)
  next
    case ResumeAll
    then show ?thesis using c[OF resume_all_call[OF sane]] by (auto simp: defs)
  qed
qed


fun run_calls :: "nat \<Rightarrow> nat set \<Rightarrow> kcall list \<Rightarrow> kernel \<Rightarrow> (nat set \<times> kernel) option" where
  "run_calls idle T [] s = Some (T, s)"
| "run_calls idle T (k # ks) s =
     (if permitted idle T k s
      then case kernel_call k s of None \<Rightarrow> None | Some s' \<Rightarrow> run_calls idle (tasks_after T k s) ks s'
      else run_calls idle T ks s)"

lemma run_calls_inv:
  assumes "kernel_inv idle L T H s"
  shows "\<exists>T' s' H'. run_calls idle T ks s = Some (T', s') \<and> kernel_inv idle L T' H' s'"
  using assms
proof (induction ks arbitrary: T H s)
  case Nil
  then show ?case by auto
next
  case (Cons k ks)
  show ?case
  proof (cases "permitted idle T k s")
    case True
    then obtain s' H' where "kernel_call k s = Some s'" "kernel_inv idle L (tasks_after T k s) H' s'"
      using kernel_call_inv[OF Cons.prems] by blast
    with Cons.IH[OF this(2)] True show ?thesis by simp
  next
    case False
    then show ?thesis using Cons by simp
  qed
qed

subsection \<open>From power-on\<close>

text \<open>The state between power-on and the start of the scheduler: all tasks are ready, and the first of
  the highest priority, the last one created, is current.\<close>

definition unstarted :: "nat set \<Rightarrow> nat set \<Rightarrow> holdings \<Rightarrow> kernel \<Rightarrow> bool" where
  "unstarted L T H s \<longleftrightarrow> (\<exists>c. sched_ok L T c s) \<and> mem_ok T s H \<and> \<not> xSchedulerRunning s \<and> uxSchedulerSuspended s = 0 \<and>
     uxCurrentNumberOfTasks s = of_nat (card T) \<and> uxDeletedTasksWaitingCleanUp s = 0 \<and> (\<forall>t\<in>T. ready s t) \<and>
     (\<exists>cur\<in>T. pxCurrentTCB s = Some cur \<and> (\<forall>t\<in>T. prio s t \<le> prio s cur))"

definition prestart :: "nat set \<Rightarrow> nat set \<Rightarrow> holdings \<Rightarrow> kernel \<Rightarrow> bool" where
  "prestart L T H s \<longleftrightarrow> T = {} \<and> powered_on L s \<and> heap_live (kheap s) H \<or> T \<noteq> {} \<and> unstarted (L \<union> {..<10}) T H s"

lemma create_unstarted:
  assumes un: "unstarted L T H s" and card: "2 * (card T + 1) < 2 ^ 32 - 1"
  obtains (none) h where "xTaskCreate f nm d a p s = Some (None, s\<lparr>kheap := h\<rparr>)" "unstarted L T H (s\<lparr>kheap := h\<rparr>)"
  | (some) t s' where "xTaskCreate f nm d a p s = Some (Some t, s')" "t \<notin> T"
      "unstarted L (insert t T) ((t, sizeof_TCB_t) # (pxStack (tcbs s' t), unat (d * 4)) # H) s'"
proof -
  obtain c cur where ok: "sched_ok L T c s" "pxCurrentTCB s = Some cur" "cur \<in> T" "\<forall>t\<in>T. prio s t \<le> prio s cur"
    and mem: "mem_ok T s H" and run: "\<not> xSchedulerRunning s"
    using un by (auto simp: unstarted_def)
  have fin: "finite T" using base_okD(3)[OF sched_okD(1)[OF ok(1)]] by (simp add: tasks_ok_def)
  show thesis
  proof (cases rule: create_spec[OF ok(1) mem card ok(2), of f nm d a p])
    case (1 h)
    have "unstarted L T H (s\<lparr>kheap := h\<rparr>)" using un 1(2) mem by (simp add: unstarted_def mem_ok_def ready_def)
    then show thesis by (rule none[OF 1(1)])
  next
    case (2 t s' c' cur')
    have cr: "ready s' t" "prio s' t = min p 4" "tcbs s' = (tcbs s)(t := tcbs s' t)"
      "uxCurrentNumberOfTasks s' = uxCurrentNumberOfTasks s + 1" using 2(5) by (simp_all add: created_def)
    have ne: "u \<noteq> t" if "u \<in> T" for u using that 2(2) by blast
    have tc: "tcbs s' u = tcbs s u" if "u \<in> T" for u
      by (rule fun_cong[OF cr(3), THEN trans]) (use ne[OF that] in simp)
    have rd: "ready s' u = ready s u" if "u \<in> T" for u using 2(6) tc[OF that] that by (simp add: ready_def)
    have cur': "cur' = (if prio s cur \<le> min p 4 then t else cur)" using 2(11) run by simp
    have "\<forall>u\<in>insert t T. prio s' u \<le> prio s' cur'"
    proof (cases "prio s cur \<le> min p 4")
      case True
      then have "prio s u \<le> min p 4" if "u \<in> T" for u using ok(4) that by (blast intro: order_trans)
      then show ?thesis using tc cur' True by (auto simp: cr(2) simp del: min.bounded_iff)
    next
      case False
      then have "min p 4 < prio s cur" by (simp only: not_le)
      then have "min p 4 \<le> prio s cur" by (rule less_imp_le)
      then show ?thesis using tc cur' False ok(3,4) by (auto simp: cr(2) simp del: min.bounded_iff min_le_iff_disj)
    qed
    moreover have "cur' \<in> insert t T" using cur' ok(3) by simp
    ultimately have "unstarted L (insert t T) ((t, sizeof_TCB_t) # (pxStack (tcbs s' t), unat (d * 4)) # H) s'"
      using 2(2,3,4,8,9,10,12) un cr(1,4) rd fin by (auto simp: unstarted_def)
    then show thesis by (rule some[OF 2(1,2)])
  qed
qed

lemma create_first_unstarted:
  assumes on: "powered_on L s" and live: "heap_live (kheap s) H"
  obtains (none) h where "xTaskCreate f nm d a p s = Some (None, s\<lparr>kheap := h\<rparr>)" "powered_on L (s\<lparr>kheap := h\<rparr>)" "heap_live h H"
  | (some) t s' where "xTaskCreate f nm d a p s = Some (Some t, s')"
      "unstarted (L \<union> {..<10}) {t} ((t, sizeof_TCB_t) # (pxStack (tcbs s' t), unat (d * 4)) # H) s'"
proof (cases rule: create_first_spec[OF on live, of f nm d a p])
  case (1 h)
  have "powered_on L (s\<lparr>kheap := h\<rparr>)" using on by (simp add: powered_on_def)
  then show thesis by (rule none[OF 1(1) _ 1(2)])
next
  case (2 t s' c')
  have "ready s' t" "uxCurrentNumberOfTasks s' = 1" using 2(4) on by (simp_all add: created_def powered_on_def)
  then show thesis using 2 by (intro some[OF 2(1)]) (auto simp: unstarted_def)
qed

lemma create_prestart:
  assumes pre: "prestart L T H s" and card: "2 * (card T + 1) < 2 ^ 32 - 1"
  shows "\<exists>h s' H'. xTaskCreate f nm d a p s = Some (h, s') \<and>
    (case h of None \<Rightarrow> prestart L T H' s' | Some t \<Rightarrow> t \<notin> T \<and> prestart L (insert t T) H' s')"
proof (cases "T = {}")
  case True
  then have on: "powered_on L s" "heap_live (kheap s) H" using pre by (auto simp: prestart_def)
  show ?thesis
    by (cases rule: create_first_unstarted[OF on, of f nm d a p]) (force simp: True prestart_def)+
next
  case False
  then have un: "unstarted (L \<union> {..<10}) T H s" using pre by (auto simp: prestart_def)
  show ?thesis
    by (cases rule: create_unstarted[OF un card, of f nm d a p]) (force simp: False prestart_def)+
qed

end
