(* ===== verification/Tasks_Start.thy ===== *)
theory Tasks_Start
  imports Tasks_Delete
begin

section \<open>From power-on to the running scheduler\<close>

text \<open>
  Creating tasks at power-on and \<^verbatim>\<open>vTaskStartScheduler\<close> establish the kernel invariant, and every
  sequence of permitted calls keeps it.
\<close>

subsection \<open>Starting the scheduler\<close>

fun create_all :: "(u32_t \<times> (nat \<Rightarrow> u8_t) option \<times> u32_t \<times> u32_t \<times> UBaseType_t) list \<Rightarrow> kernel \<Rightarrow> kernel option" where
  "create_all [] s = Some s"
| "create_all ((f, nm, d, a, p) # cs) s = do { (_, s) \<leftarrow> xTaskCreate f nm d a p s; create_all cs s }"

lemma create_all_prestart:
  assumes "prestart L T H s" "finite T" "2 * (card T + length cs) < 2 ^ 32 - 1"
  shows "\<exists>s' T' H'. create_all cs s = Some s' \<and> prestart L T' H' s' \<and> finite T' \<and> card T' \<le> card T + length cs"
  using assms
proof (induction cs arbitrary: s T H)
  case Nil
  then show ?case by auto
next
  case (Cons x cs)
  obtain f nm d a p where x: "x = (f, nm, d, a, p)" by (cases x)
  have c: "2 * (card T + 1) < 2 ^ 32 - 1" using Cons.prems(3) by simp
  obtain h s1 H1 where 1: "xTaskCreate f nm d a p s = Some (h, s1)"
      "case h of None \<Rightarrow> prestart L T H1 s1 | Some t \<Rightarrow> t \<notin> T \<and> prestart L (insert t T) H1 s1"
    using create_prestart[OF Cons.prems(1) c, of f nm d a p] by (elim exE conjE)
  show ?case
  proof (cases h)
    case None
    then have "prestart L T H1 s1" using 1(2) by simp
    from Cons.IH[OF this Cons.prems(2)] Cons.prems(3) 1(1) x show ?thesis by fastforce
  next
    case (Some t)
    then have t: "t \<notin> T" "prestart L (insert t T) H1 s1" using 1(2) by simp_all
    have "card (insert t T) = card T + 1" using t(1) Cons.prems(2) by simp
    with Cons.IH[OF t(2)] Cons.prems(2,3) 1(1) x show ?thesis by fastforce
  qed
qed

lemma unstarted_inv:
  assumes un: "unstarted L T H s" and t: "t \<in> T" and card: "2 * card T < 2 ^ 32 - 1"
  shows "kernel_inv t L T H (s\<lparr>xIdleTaskHandle := Some t, xNextTaskUnblockTime := portMAX_DELAY,
    xSchedulerRunning := True, xTickCount := 0\<rparr>)"
proof -
  let ?s = "s\<lparr>xIdleTaskHandle := Some t, xNextTaskUnblockTime := portMAX_DELAY,
    xSchedulerRunning := True, xTickCount := 0\<rparr>"
  obtain c cur where ok: "sched_ok L T c s" "\<forall>u\<in>T. ready s u" "pxCurrentTCB s = Some cur" "cur \<in> T" "\<forall>u\<in>T. prio s u \<le> prio s cur"
    using un by (auto simp: unstarted_def)
  note base = sched_okD(1)[OF ok(1)]
  have fin: "finite T" using base_okD(3)[OF base] by (simp add: tasks_ok_def)
  have rd: "ready ?s u = ready s u" for u by (simp add: ready_def)
  have "cont (kls s) i \<noteq> Some l" if l: "l = 5 \<or> l = 6" for i l
  proof
    assume i: "cont (kls s) i = Some l"
    have "state_list l" using l by (auto simp: state_list_def)
    with i obtain u where u: "u \<in> T" "i = St u" by (rule base_state_item[OF base])
    then show False using ready_cont[OF base u(1)] ok(2) i l by auto
  qed
  then have "times_ok ?s" using base_okD(6)[OF base] by (auto simp: times_ok_def delayed_ok_def)
  then have sok: "sched_ok L T c ?s" using base ok(3,4) by (simp add: sched_ok_def)
  have "top_task T ?s cur" using ok rd by (simp add: top_task_def)
  then have run: "running_ok T ?s" by (rule running_top[OF sok]) (simp add: ok(3))
  have d: "dead T ?s = {}"
    using ok(2) ready_cont[OF base] by (fastforce simp: dead_def xTasksWaitingTermination_def)
  have n: "uxCurrentNumberOfTasks s = of_nat (card T)" "uxDeletedTasksWaitingCleanUp s = 0" "mem_ok T s H"
    using un by (simp_all add: unstarted_def)
  have "uxCurrentNumberOfTasks ?s > 0"
    using n(1) of_nat_pos[of "card T"] card fin t by (auto simp: card_gt_0_iff)
  then have "sane t L T ?s" using sok run t ok(2) rd d by (auto simp: sane_def)
  then show ?thesis using n d by (simp add: kernel_inv_def mem_ok_def)
qed

lemma start_spec:
  assumes pre: "prestart L T H s" and card: "2 * (card T + 1) < 2 ^ 32 - 1" and fin: "finite T"
  shows "\<exists>da' s'. vTaskStartScheduler w idle da s = Some (da', s') \<and>
    (xSchedulerRunning s' \<longrightarrow> (\<exists>t T' H'. xIdleTaskHandle s' = Some t \<and> T' = insert t T \<and>
       kernel_inv t (L \<union> {..<10}) T' H' s' \<and> xTickCount s' = 0 \<and>
       (\<exists>cur. pxCurrentTCB s' = Some cur \<and> top_task T' s' cur \<and>
          da' = xPortStartScheduler w (fst da, link_machine cur s' (portDISABLE_INTERRUPTS (snd da))))))"
proof -
  obtain h s1 H1 where 1: "xTaskCreate idle (Some configIDLE_TASK_NAME) configMINIMAL_STACK_SIZE 0 0 s = Some (h, s1)"
      "case h of None \<Rightarrow> prestart L T H1 s1 | Some t \<Rightarrow> t \<notin> T \<and> prestart L (insert t T) H1 s1"
    using create_prestart[OF pre card, of idle "Some configIDLE_TASK_NAME" configMINIMAL_STACK_SIZE 0 0] by (elim exE conjE)
  show ?thesis
  proof (cases h)
    case None
    then have "prestart L T H1 s1" using 1(2) by simp
    then have "\<not> xSchedulerRunning s1" by (auto simp: prestart_def powered_on_def unstarted_def)
    then show ?thesis using 1(1) None by (simp add: vTaskStartScheduler_def)
  next
    case (Some t)
    then have t: "t \<notin> T" and un: "unstarted (L \<union> {..<10}) (insert t T) H1 s1" using 1(2) by (auto simp: prestart_def)
    define s2 where "s2 = s1\<lparr>xIdleTaskHandle := Some t, xNextTaskUnblockTime := portMAX_DELAY,
      xSchedulerRunning := True, xTickCount := 0\<rparr>"
    have "2 * card (insert t T) < 2 ^ 32 - 1" using card t fin by simp
    then have inv: "kernel_inv t (L \<union> {..<10}) (insert t T) H1 s2"
      unfolding s2_def by (intro unstarted_inv[OF un]) simp_all
    obtain cur where c: "pxCurrentTCB s1 = Some cur" "cur \<in> insert t T" "\<forall>u\<in>insert t T. prio s1 u \<le> prio s1 cur"
        "\<forall>u\<in>insert t T. ready s1 u"
      using un by (auto simp: unstarted_def)
    have top: "top_task (insert t T) s2 cur" using c by (auto simp: top_task_def s2_def ready_def)
    have "vTaskStartScheduler w idle da s = Some (xPortStartScheduler w (fst da, link_machine cur s2 (portDISABLE_INTERRUPTS (snd da))), s2)"
      using 1(1) Some c(1) by (simp add: vTaskStartScheduler_def Let_def s2_def case_prod_beta)
    then show ?thesis using inv top c(1) by (auto simp: s2_def)
  qed
qed

text \<open>C1. The scheduler is correct from power-on: create any tasks, start the scheduler, then let the
  tick interrupt and the tasks call the kernel in any order that keeps to the rules of the
  documentation. Every call returns; every task stays on exactly one of the kernel's state lists,
  and on the ready list of its priority when it is ready; the memory of the tasks never overlaps;
  and after every call the running task is a ready task of the highest priority unless a yield is
  pending.\<close>

theorem scheduler_sound:
  assumes "powered_on L s" "heap_live (kheap s) H" "2 * (length cs + 1) < 2 ^ 32 - 1"
  shows "\<exists>s1 da' s2. create_all cs s = Some s1 \<and> vTaskStartScheduler w f da s1 = Some (da', s2) \<and>
    (xSchedulerRunning s2 \<longrightarrow> (\<exists>idle T. xIdleTaskHandle s2 = Some idle \<and>
      (\<forall>ks. \<exists>T' s' H'. run_calls idle T ks s2 = Some (T', s') \<and> kernel_inv idle (L \<union> {..<10}) T' H' s' \<and>
         (\<exists>cur\<in>T'. pxCurrentTCB s' = Some cur \<and>
            (xYieldPending s' \<or> ready s' cur \<and> (\<forall>t\<in>T'. ready s' t \<longrightarrow> prio s' t \<le> prio s' cur))))))"
proof -
  have "prestart L {} H s" using assms by (simp add: prestart_def)
  then obtain s1 T1 H1 where 1: "create_all cs s = Some s1" "prestart L T1 H1 s1" "finite T1" "card T1 \<le> length cs"
    using create_all_prestart[of L "{}" H s cs] assms(3) by fastforce
  have c: "2 * (card T1 + 1) < 2 ^ 32 - 1" using 1(4) assms(3) by simp
  obtain da' s2 where 2: "vTaskStartScheduler w f da s1 = Some (da', s2)"
    "xSchedulerRunning s2 \<longrightarrow> (\<exists>t T' H'. xIdleTaskHandle s2 = Some t \<and> kernel_inv t (L \<union> {..<10}) T' H' s2)"
    using start_spec[OF 1(2) c 1(3), of w f da] by blast
  have "\<exists>T' s' H'. run_calls idle T ks s2 = Some (T', s') \<and> kernel_inv idle (L \<union> {..<10}) T' H' s' \<and>
     (\<exists>cur\<in>T'. pxCurrentTCB s' = Some cur \<and>
        (xYieldPending s' \<or> ready s' cur \<and> (\<forall>t\<in>T'. ready s' t \<longrightarrow> prio s' t \<le> prio s' cur)))"
    if inv: "kernel_inv idle (L \<union> {..<10}) T H' s2" for idle T H' ks
  proof -
    obtain T' s' H'' where r: "run_calls idle T ks s2 = Some (T', s')" "kernel_inv idle (L \<union> {..<10}) T' H'' s'"
      using run_calls_inv[OF inv] by blast
    then have "running_ok T' s'" by (simp add: kernel_inv_def sane_def)
    then show ?thesis using r by (auto simp: running_ok_def top_task_def)
  qed
  with 1(1) 2 show ?thesis by blast
qed

theorem scheduler_sound_witness:
  "\<exists>s1 da' s2. create_all [] boot_kernel = Some s1 \<and> vTaskStartScheduler ticking 0x30000200 (0, arm0) s1 = Some (da', s2) \<and>
    xSchedulerRunning s2 \<and> (\<exists>idle T. xIdleTaskHandle s2 = Some idle \<and>
      (\<forall>ks. \<exists>T' s' H'. run_calls idle T ks s2 = Some (T', s') \<and> kernel_inv idle ({10} \<union> {..<10}) T' H' s'))"
proof -
  obtain c where d: "xTaskCreate 0x30000200 (Some configIDLE_TASK_NAME) 128 0 0 boot_kernel = Some (Some 0x30000218, demo1)"
    "pxCurrentTCB demo1 = Some 0x30000218"
    by (rule demo1_ok)
  have len: "2 * (length [] + 1) < (2 ^ 32 - 1 :: nat)" by simp
  obtain s1 da' s2 where s: "create_all [] boot_kernel = Some s1" "vTaskStartScheduler ticking 0x30000200 (0, arm0) s1 = Some (da', s2)"
    "xSchedulerRunning s2 \<longrightarrow> (\<exists>idle T. xIdleTaskHandle s2 = Some idle \<and>
      (\<forall>ks. \<exists>T' s' H'. run_calls idle T ks s2 = Some (T', s') \<and> kernel_inv idle ({10} \<union> {..<10}) T' H' s' \<and>
         (\<exists>cur\<in>T'. pxCurrentTCB s' = Some cur \<and>
            (xYieldPending s' \<or> ready s' cur \<and> (\<forall>t\<in>T'. ready s' t \<longrightarrow> prio s' t \<le> prio s' cur)))))"
    using scheduler_sound[OF boot_on len, of ticking "0x30000200" "(0, arm0)"] by (elim exE conjE)
  have "s1 = boot_kernel" using s(1) by simp
  then have "xSchedulerRunning s2"
    using s(2) d by (auto simp: vTaskStartScheduler_def configMINIMAL_STACK_SIZE_def Let_def)
  then obtain idle T where i: "xIdleTaskHandle s2 = Some idle"
    "\<forall>ks. \<exists>T' s' H'. run_calls idle T ks s2 = Some (T', s') \<and> kernel_inv idle ({10} \<union> {..<10}) T' H' s' \<and>
         (\<exists>cur\<in>T'. pxCurrentTCB s' = Some cur \<and>
            (xYieldPending s' \<or> ready s' cur \<and> (\<forall>t\<in>T'. ready s' t \<longrightarrow> prio s' t \<le> prio s' cur)))"
    using s(3) by (elim impE exE conjE)
  have "\<forall>ks. \<exists>T' s' H'. run_calls idle T ks s2 = Some (T', s') \<and> kernel_inv idle ({10} \<union> {..<10}) T' H' s'"
  proof
    show "\<exists>T' s' H'. run_calls idle T ks s2 = Some (T', s') \<and> kernel_inv idle ({10} \<union> {..<10}) T' H' s'" for ks
      using i(2)[rule_format, of ks] by (elim bexE exE conjE) (intro exI conjI)
  qed
  with s(1,2) i(1) \<open>xSchedulerRunning s2\<close> show ?thesis by (intro exI conjI)
qed

end
