(* ===== verification/Scheduler.thy ===== *)
theory Scheduler
  imports Tasks_Start
begin

section \<open>The scheduler: selection, time slicing, ticks and delays\<close>

text \<open>
  What the scheduler promises its tasks, as properties of single operations of the model of
  \<^verbatim>\<open>tasks.c\<close> and of runs of ticks: which task a context switch selects, that tasks of equal
  priority take turns, what a tick does to each task, and that delays last exactly as long as asked.
\<close>

subsection \<open>Selecting a task\<close>

text \<open>C8. With the scheduler not suspended, \<^verbatim>\<open>vTaskSwitchContext\<close> makes a ready task of the highest
  priority current: the one that is next in the round-robin order of its ready list, which goes to
  the end of that order. It clears the pending yield and moves no task between lists. With the
  scheduler suspended it only notes that a yield is pending.\<close>

theorem vTaskSwitchContext_selects:
  assumes "sched_ok L T c s" "u \<in> T" "ready s u"
  shows "if uxSchedulerSuspended s \<noteq> 0 then vTaskSwitchContext s = Some (s\<lparr>xYieldPending := True\<rparr>)
    else \<exists>s' t ys. vTaskSwitchContext s = Some s' \<and> sched_ok L T c s' \<and> pxCurrentTCB s' = Some t \<and> \<not> xYieldPending s' \<and>
      t \<in> T \<and> ready s t \<and> (\<forall>v\<in>T. ready s v \<longrightarrow> prio s v \<le> prio s t) \<and>
      order (kls s) (unat (prio s t)) (c (unat (prio s t))) = St t # ys \<and>
      order (kls s') (unat (prio s t)) (c (unat (prio s t))) = ys @ [St t] \<and> cont (kls s') = cont (kls s)"
proof (cases "uxSchedulerSuspended s = 0")
  case False
  then show ?thesis by (simp add: vTaskSwitchContext_def)
next
  case True
  obtain s' t K' q ys where 1: "vTaskSwitchContext s = Some s'" "sched_ok L T c s'"
    "s' = s\<lparr>xYieldPending := False, kls := K', pxCurrentTCB := Some t, uxTopReadyPriority := q\<rparr>"
    "top_task T s' t" "same_data (kls s) K'" "cont K' = cont (kls s)"
    "order (kls s) (unat (prio s t)) (c (unat (prio s t))) = St t # ys"
    "order K' (unat (prio s t)) (c (unat (prio s t))) = ys @ [St t]"
    by (rule vTaskSwitchContext_spec[OF assms(1) True assms(2,3)])
  have "top_task T s t" using 1(4,6) by (simp add: 1(3) top_task_def ready_def)
  then show ?thesis using True 1 by (auto simp: top_task_def)
qed

theorem vTaskSwitchContext_selects_witness:
  "\<exists>s'. vTaskSwitchContext demo2 = Some s' \<and> pxCurrentTCB s' = Some 0x300004A0"
proof -
  let ?i = "0x30000218 :: nat" and ?t = "0x300004A0 :: nat"
  obtain c where d: "sched_ok {..10} {?t, ?i} c demo2" "created 0x30000400 128 7 2 ?t demo1 demo2"
    "uxSchedulerSuspended demo2 = 0" "ready demo2 ?i" "prio demo2 ?i = 0"
    by (rule demo2_ok)
  have p: "ready demo2 ?t" "prio demo2 ?t = 2" using d(2) by (simp_all add: created_def)
  obtain s' t where "vTaskSwitchContext demo2 = Some s'" "pxCurrentTCB s' = Some t" "t \<in> {?t, ?i}"
    "\<forall>v\<in>{?t, ?i}. ready demo2 v \<longrightarrow> prio demo2 v \<le> prio demo2 t"
    using vTaskSwitchContext_selects[OF d(1) _ d(4)] d(3) by auto
  then show ?thesis using p d(5) by auto
qed

subsection \<open>Time slicing\<close>

text \<open>Which task runs after each of a number of ticks.\<close>

fun slices :: "nat \<Rightarrow> kernel \<Rightarrow> (nat list \<times> kernel) option" where
  "slices 0 s = Some ([], s)"
| "slices (Suc n) s = do {
     s \<leftarrow> tick_isr s;
     t \<leftarrow> pxCurrentTCB s;
     (ts, s) \<leftarrow> slices n s;
     Some (t # ts, s)
   }"

lemma subset_range_map: "set xs \<subseteq> range f \<longleftrightarrow> (\<exists>ys. xs = map f ys)"
  using ex_map_conv[of xs f] by auto

lemma ready_list_tasks:
  assumes "sched_ok L T c s" "m < 5"
  obtains ts where "order (kls s) m (c m) = map St ts" "distinct ts" "set ts = {t \<in> T. ready s t \<and> unat (prio s t) = m}"
proof -
  note base = sched_okD(1)[OF assms(1)]
  note lists = base_okD(1)[OF base] and mL = base_okD(2)[OF base, of m]
  have set: "set (order (kls s) m (c m)) = {i. cont (kls s) i = Some m}"
    using lists_ok_index[OF lists, of m] lists_okD(2)[OF lists, of _ m] mL assms(2) by auto
  have d: "distinct (order (kls s) m (c m))" using set_order(2) lists_okD(1)[OF lists, of m] mL assms(2) by simp
  have st: "\<exists>t\<in>T. i = St t" if i: "cont (kls s) i = Some m" for i
  proof -
    have "state_list m" using assms(2) by (simp add: state_list_def)
    with i show ?thesis by (rule base_state_item[OF base]) blast
  qed
  have "set (order (kls s) m (c m)) \<subseteq> range St" using set st by blast
  then have "\<exists>ts. order (kls s) m (c m) = map St ts" by (simp add: subset_range_map)
  then obtain ts where ts: "order (kls s) m (c m) = map St ts" by blast
  have "set ts = {t \<in> T. ready s t \<and> unat (prio s t) = m}"
  proof (intro set_eqI iffI)
    fix t assume "t \<in> set ts"
    then have k: "cont (kls s) (St t) = Some m" using set ts by auto
    with st have "t \<in> T" by fastforce
    then show "t \<in> {t \<in> T. ready s t \<and> unat (prio s t) = m}" using ready_prio[OF base _ k assms(2)] by simp
  next
    fix t assume "t \<in> {t \<in> T. ready s t \<and> unat (prio s t) = m}"
    then have "cont (kls s) (St t) = Some m" using ready_cont[OF base, of t] by auto
    then have "St t \<in> St ` set ts" using set ts by simp
    then show "t \<in> set ts" by auto
  qed
  then show thesis using that[OF ts] d ts by (simp add: distinct_map)
qed

text \<open>One tick hands the processor to the task whose turn it is, and puts it to the end of the order.\<close>

lemma tick_turn:
  assumes ok: "sched_ok L T c s" and run: "uxSchedulerSuspended s = 0" and m: "m < 5"
    and ord: "order (kls s) m (c m) = map St (a # us)" and cur: "pxCurrentTCB s = Some cur" "cur \<in> set (a # us)"
    and hi: "\<forall>v\<in>T. ready s v \<longrightarrow> unat (prio s v) \<le> m" and lo: "\<forall>v\<in>expired T 1 s. unat (prio s v) < m"
  obtains s' c' where "tick_isr s = Some s'" "sched_ok L T c' s'" "order (kls s') m (c' m) = map St (us @ [a])"
    "pxCurrentTCB s' = Some a" "uxSchedulerSuspended s' = 0" "passes T 1 s s'"
proof -
  let ?sw = "\<lambda>s1. (\<exists>t\<in>expired T 1 s. prio s t > prio s cur) \<or>
       card {t \<in> T. cont (kls s1) (St t) = Some (unat (prio s cur))} > 1 \<or> xYieldPending s"
  obtain ts where ts: "order (kls s) m (c m) = map St ts" "distinct ts" "set ts = {t \<in> T. ready s t \<and> unat (prio s t) = m}"
    by (rule ready_list_tasks[OF ok m])
  have tsa: "ts = a # us" using ts(1) ord by (auto simp: inj_map_eq_map inj_def)
  have a: "a \<in> T" "ready s a" "unat (prio s a) = m" and cm: "unat (prio s cur) = m" using ts(3) tsa cur(2) by auto
  obtain s1 c1 where 1: "xTaskIncrementTick s = Some (?sw s1, s1)" "sched_ok L T c1 s1" "passes T 1 s s1"
    "pxCurrentTCB s1 = Some cur" "uxSchedulerSuspended s1 = 0"
    "\<forall>k<5. (\<forall>t\<in>expired T 1 s. unat (prio s t) \<noteq> k) \<longrightarrow> c1 k = c k \<and> pxIndex (lists (kls s1) k) = pxIndex (lists (kls s) k)"
    by (rule tick_passes[OF ok run cur(1)])
  have "\<forall>t\<in>expired T 1 s. unat (prio s t) \<noteq> m" using lo by blast
  then have "c1 m = c m" "pxIndex (lists (kls s1) m) = pxIndex (lists (kls s) m)" using 1(6) m by blast+
  then have o1: "order (kls s1) m (c1 m) = map St (a # us)" using ord by (simp add: order_def)
  have r1: "ready s1 v \<longleftrightarrow> ready s v \<or> v \<in> expired T 1 s" "prio s1 v = prio s v" if "v \<in> T" for v
  proof -
    have p5: "unat (prio s v) < 5" using base_okD(3)[OF sched_okD(1)[OF ok]] that by (simp add: tasks_ok_def)
    show "ready s1 v \<longleftrightarrow> ready s v \<or> v \<in> expired T 1 s" "prio s1 v = prio s v"
      using 1(3) by (auto simp: passes_def ready_def pxReadyTasksLists_def)
  qed
  show thesis
  proof (cases "?sw s1")
    case True
    obtain s2 t K' q ys where 2: "vTaskSwitchContext s1 = Some s2" "sched_ok L T c1 s2"
      "s2 = s1\<lparr>xYieldPending := False, kls := K', pxCurrentTCB := Some t, uxTopReadyPriority := q\<rparr>"
      "top_task T s2 t" "same_data (kls s1) K'" "cont K' = cont (kls s1)"
      "order (kls s1) (unat (prio s1 t)) (c1 (unat (prio s1 t))) = St t # ys"
      "order K' (unat (prio s1 t)) (c1 (unat (prio s1 t))) = ys @ [St t]"
      by (rule vTaskSwitchContext_spec[OF 1(2,5) a(1)]) (use r1 a in simp)
    have rd: "ready s2 v = ready s1 v" "prio s2 v = prio s1 v" for v by (simp_all add: 2(3,6) ready_def)
    have t: "t \<in> T" "ready s1 t" "prio s1 a \<le> prio s1 t" using 2(4) a r1(1)[OF a(1)] rd by (auto simp: top_task_def)
    have "unat (prio s1 t) \<le> m" using t(1,2) r1[OF t(1)] hi lo by (auto simp: less_imp_le)
    then have tm: "unat (prio s1 t) = m" using t(3) a(3) r1(2)[OF a(1)] by (simp add: word_le_nat_alt)
    then have ta: "t = a" "ys = map St us" using 2(7) o1 by simp_all
    have "passes T 1 s s2" using 1(3) 2(5,6) same_data_trans unfolding 2(3) by (fastforce simp: passes_def)
    moreover have "tick_isr s = Some s2" using 1(1) 2(1) by (simp only: tick_isr_def True bind.bind_lunit prod.case if_True)
    ultimately show thesis using 2(2,8) tm ta 1(5) by (intro that[of s2 c1]) (simp_all add: 2(3))
  next
    case False
    have "set (a # us) \<subseteq> {t \<in> T. cont (kls s1) (St t) = Some m}"
      using ts(3) tsa ready_cont(1)[OF sched_okD(1)[OF 1(2)]] r1 by force
    moreover have "card {t \<in> T. cont (kls s1) (St t) = Some m} \<le> 1" using False cm by simp
    moreover have "finite {t \<in> T. cont (kls s1) (St t) = Some m}"
    proof -
      obtain vs where "set vs = {t \<in> T. ready s1 t \<and> unat (prio s1 t) = m}" by (rule ready_list_tasks[OF 1(2) m])
      moreover have "{t \<in> T. cont (kls s1) (St t) = Some m} \<subseteq> {t \<in> T. ready s1 t \<and> unat (prio s1 t) = m}"
        using ready_prio[OF sched_okD(1)[OF 1(2)] _ _ m] by blast
      ultimately show ?thesis by (metis finite_set finite_subset)
    qed
    ultimately have "card (set (a # us)) \<le> 1" by (meson card_mono le_trans)
    then have us: "us = []" using ts(2) tsa by (cases us) auto
    moreover have "tick_isr s = Some s1" using 1(1) by (simp only: tick_isr_def False bind.bind_lunit prod.case if_False)
    ultimately show thesis using 1(2-5) o1 cur by (intro that[of s1 c1]) simp_all
  qed
qed

lemma slices_turns:
  assumes "sched_ok L T c s" "uxSchedulerSuspended s = 0" "m < 5" "order (kls s) m (c m) = map St ts"
    "pxCurrentTCB s = Some cur" "cur \<in> set ts" "\<forall>v\<in>T. ready s v \<longrightarrow> unat (prio s v) \<le> m"
    "\<forall>v\<in>expired T j s. unat (prio s v) < m"
  shows "\<exists>s'. slices j s = Some (map (\<lambda>i. ts ! (i mod length ts)) [0..<j], s')"
  using assms
proof (induction j arbitrary: s c ts cur)
  case (Suc j)
  obtain a us where ts: "ts = a # us" using Suc.prems(6) by (cases ts) auto
  note ok = Suc.prems(1)
  have lo: "\<forall>v\<in>expired T 1 s. unat (prio s v) < m" using Suc.prems(8) by (auto simp: expired_def)
  obtain s1 c1 where 1: "tick_isr s = Some s1" "sched_ok L T c1 s1" "order (kls s1) m (c1 m) = map St (us @ [a])"
    "pxCurrentTCB s1 = Some a" "uxSchedulerSuspended s1 = 0" "passes T 1 s s1"
    by (rule tick_turn[OF ok Suc.prems(2,3) Suc.prems(4)[unfolded ts] Suc.prems(5) Suc.prems(6)[unfolded ts] Suc.prems(7) lo])
  have tc: "prio s1 v = prio s v" for v using 1(6) by (simp add: passes_def)
  have "unat (prio s1 v) \<le> m" if "v \<in> T" "ready s1 v" for v
  proof (cases "v \<in> expired T 1 s")
    case False
    then have "ready s v" using that(2) 1(6) by (simp add: passes_def ready_def)
    then show ?thesis using Suc.prems(7) that(1) tc by simp
  qed (use lo tc in auto)
  moreover have "unat (prio s1 v) < m" if "v \<in> expired T j s1" for v
  proof -
    have v: "v \<in> T" "blocked s1 v" "remaining s1 v \<le> j" using that by (simp_all add: expired_def)
    then have "blocked s v" "remaining s1 v = remaining s v - 1" using passes_task(1,2)[OF ok 1(6) v(1)] by simp_all
    then show ?thesis using v Suc.prems(8) tc by (simp add: expired_def)
  qed
  ultimately obtain s' where 2: "slices j s1 = Some (map (\<lambda>i. (us @ [a]) ! (i mod length (us @ [a]))) [0..<j], s')"
    using Suc.IH[OF 1(2,5) Suc.prems(3) 1(3,4)] by auto
  have "(us @ [a]) ! (i mod length (us @ [a])) = ts ! (Suc i mod length ts)" for i
    using nth_rotate1[of "i mod length ts" ts] ts by (simp add: mod_Suc_eq)
  with 1(1,4) 2 ts show ?case by (simp add: upt_conv_Cons map_Suc_upt[symmetric] comp_def del: upt_Suc map_Suc_upt)
qed simp

text \<open>C11. Time slicing is fair: when the running task shares the highest priority with other ready tasks, tick \<open>i\<close> hands the
  processor to number \<open>i\<close> modulo \<open>n\<close> of these \<open>n\<close> tasks in the order of their ready list, so that each of them
  runs for one tick in every \<open>n\<close>. Tasks of lower priority may wake meanwhile without disturbing this.\<close>

theorem time_slicing_round_robin:
  assumes "sched_ok L T c s" "uxSchedulerSuspended s = 0" "m < 5" "order (kls s) m (c m) = map St ts"
    "pxCurrentTCB s = Some cur" "cur \<in> set ts" "\<forall>v\<in>T. ready s v \<longrightarrow> unat (prio s v) \<le> m"
    "\<forall>v\<in>T. blocked s v \<and> remaining s v \<le> j \<longrightarrow> unat (prio s v) < m"
  shows "distinct ts \<and> set ts = {t \<in> T. ready s t \<and> unat (prio s t) = m} \<and>
    (\<exists>s'. slices j s = Some (map (\<lambda>i. ts ! (i mod length ts)) [0..<j], s'))"
proof -
  obtain us where us: "order (kls s) m (c m) = map St us" "distinct us" "set us = {t \<in> T. ready s t \<and> unat (prio s t) = m}"
    by (rule ready_list_tasks[OF assms(1,3)])
  have "us = ts" using us(1) assms(4) by (auto simp: inj_map_eq_map inj_def)
  with us show ?thesis using slices_turns[OF assms(1-7), of j] assms(8) by (auto simp: expired_def)
qed

text \<open>A third task, of the same priority as the second.\<close>

definition demo3 :: kernel where
  "demo3 = snd (the (xTaskCreate 0x30000600 None 128 9 2 demo2))"

lemma demo3_ok:
  obtains c where "sched_ok {..10} {0x30000728, 0x300004A0, 0x30000218} c demo3" "uxSchedulerSuspended demo3 = 0"
    "ready demo3 0x30000728" "ready demo3 0x300004A0" "prio demo3 0x30000728 = 2" "prio demo3 0x300004A0 = 2"
    "prio demo3 0x30000218 = 0" "xTaskCreate 0x30000600 None 128 9 2 demo2 = Some (Some 0x30000728, demo3)"
    "pxCurrentTCB demo3 = Some 0x30000728" "ready demo3 0x30000218"
proof -
  obtain c where d: "sched_ok {..10} {0x300004A0, 0x30000218} c demo2"
    "mem_ok {0x300004A0, 0x30000218} demo2
       [(0x300004A0, sizeof_TCB_t), (0x30000290, 512), (0x30000218, sizeof_TCB_t), (0x30000008, 512)]"
    "created 0x30000400 128 7 2 0x300004A0 demo1 demo2" "pxCurrentTCB demo2 = Some 0x300004A0"
    "\<not> xSchedulerRunning demo2" "uxSchedulerSuspended demo2 = 0" "ready demo2 0x30000218" "prio demo2 0x30000218 = 0"
    "heap_ok (kheap demo2) 0x30000000 [(0x30000000, 528, Used), (0x30000210, 120, Used), (0x30000288, 528, Used),
       (0x30000498, 120, Used), (0x30000510, 0xFFAE8, Free)]"
    by (rule demo2_ok)
  have p: "prio demo2 0x300004A0 = 2" "ready demo2 0x300004A0" using d(3) by (simp_all add: created_def)
  let ?cs = "[(0x30000000, 528, Used), (0x30000210, 120, Used), (0x30000288, 528, Used), (0x30000498, 120, Used),
       (0x30000510, 528, Used), (0x30000720, 0xFF8D8, Free)]"
  let ?ds = "[(0x30000000, 528, Used), (0x30000210, 120, Used), (0x30000288, 528, Used), (0x30000498, 120, Used),
       (0x30000510, 528, Used), (0x30000720, 120, Used), (0x30000798, 0xFF860, Free)]"
  have al: "amalloc 528 [(0x30000000, 528, Used), (0x30000210, 120, Used), (0x30000288, 528, Used),
       (0x30000498, 120, Used), (0x30000510, 0xFFAE8, Free)] = Some (0x30000510, ?cs)"
    "amalloc 120 ?cs = Some (0x30000720, ?ds)" by simp_all
  have card: "2 * (card {0x300004A0, 0x30000218 :: nat} + 1) < 2 ^ 32 - 1" by simp
  obtain s' c' where 1: "xTaskCreate 0x30000600 None 128 9 2 demo2 = Some (Some (0x30000720 + 8), s')"
    "sched_ok {..10} (insert (0x30000720 + 8) {0x300004A0, 0x30000218}) c' s'"
    "created 0x30000600 128 9 2 (0x30000720 + 8) demo2 s'" "uxSchedulerSuspended s' = uxSchedulerSuspended demo2"
    "pxCurrentTCB s' = Some (if prio demo2 0x300004A0 \<le> min 2 4 then 0x30000720 + 8 else 0x300004A0)"
    "\<forall>u\<in>{0x300004A0, 0x30000218}. ready s' u = ready demo2 u \<and> prio s' u = prio demo2 u \<and>
       cont (kls s') (Ev u) = cont (kls demo2) (Ev u)"
    by (rule create_at[OF d(1,2) card d(4,5) d(9) al])
  have "ready s' 0x30000728" "prio s' 0x30000728 = 2" using 1(3) by (simp_all add: created_def)
  moreover have "demo3 = s'" using 1(1) by (simp add: demo3_def)
  ultimately show thesis using 1 d p by (intro that[of c']) simp_all
qed

theorem time_slicing_round_robin_witness:
  "\<exists>a b s'. slices 4 (demo3\<lparr>xSchedulerRunning := True\<rparr>) = Some ([a, b, a, b], s') \<and> {a, b} = {0x30000728, 0x300004A0}"
proof -
  let ?i = "0x30000218 :: nat" and ?t = "0x300004A0 :: nat" and ?u = "0x30000728 :: nat"
  let ?T = "{?u, ?t, ?i}" and ?s = "demo3\<lparr>xSchedulerRunning := True\<rparr>"
  obtain c where d: "sched_ok {..10} ?T c demo3" "uxSchedulerSuspended demo3 = 0"
    "ready demo3 ?u" "ready demo3 ?t" "prio demo3 ?u = 2" "prio demo3 ?t = 2" "prio demo3 ?i = 0"
    "pxCurrentTCB demo3 = Some ?u" "ready demo3 ?i"
    by (rule demo3_ok)
  have s: "sched_ok {..10} ?T c ?s" "uxSchedulerSuspended ?s = 0" "pxCurrentTCB ?s = Some ?u" "(2 :: nat) < 5" "\<And>v. ready ?s v = ready demo3 v"
    using d(1,2,8) by (simp_all add: ready_def)
  obtain ts where ts: "order (kls ?s) 2 (c 2) = map St ts" "distinct ts" "set ts = {t \<in> ?T. ready ?s t \<and> unat (prio ?s t) = 2}"
    by (rule ready_list_tasks[OF s(1,4)])
  have st: "set ts = {?u, ?t}" unfolding ts(3) using d(3-7) s(5) by auto
  have nb: "\<not> blocked ?s v" if v: "v \<in> ?T" for v
  proof -
    have "ready ?s v" using v d(3,4,9) s(5) by auto
    from ready_cont[OF sched_okD(1)[OF s(1)] v this] show ?thesis by (auto simp: blocked_def xDelayedTaskList1_def xDelayedTaskList2_def)
  qed
  have "length ts = 2" using distinct_card[OF ts(2)] unfolding st by simp
  then obtain a b where ab: "ts = [a, b]" by (auto simp: length_Suc_conv numeral_2_eq_2)
  have h: "?u \<in> set ts" "\<forall>v\<in>?T. ready ?s v \<longrightarrow> unat (prio ?s v) \<le> 2" "\<forall>v\<in>?T. blocked ?s v \<and> remaining ?s v \<le> 4 \<longrightarrow> unat (prio ?s v) < 2"
    using st d(5-7) nb by auto
  have "[0..<4] = [0, 1, 2, 3 :: nat]" by (simp add: upt_rec)
  then have "map (\<lambda>i. ts ! (i mod length ts)) [0..<4] = [a, b, a, b]" using ab by (simp del: One_nat_def add: numeral_2_eq_2[symmetric])
  then show ?thesis using time_slicing_round_robin[OF s(1,2,4) ts(1) s(3) h] st ab by auto
qed

subsection \<open>The tick\<close>

text \<open>C9. Each tick takes one off the time every blocked task has left and readies exactly the tasks
  that had one tick left, whether or not the tick count wraps around (which exchanges the two delayed
  lists); it takes them off event lists and leaves all other tasks where they are. It asks for a
  context switch exactly if a readied task has a higher priority than the running one, another ready
  task shares the running task's list, or a yield is pending.\<close>

theorem xTaskIncrementTick_exact:
  assumes "sched_ok L T c s" "uxSchedulerSuspended s = 0" "pxCurrentTCB s = Some cur"
  shows "\<exists>sw s' c'. xTaskIncrementTick s = Some (sw, s') \<and> sched_ok L T c' s' \<and> xTickCount s' = xTickCount s + 1 \<and>
    (\<forall>t\<in>T. if blocked s t
       then if remaining s t = 1 then ready s' t \<and> cont (kls s') (Ev t) = None
            else blocked s' t \<and> remaining s' t = remaining s t - 1 \<and> cont (kls s') (Ev t) = cont (kls s) (Ev t)
       else cont (kls s') (St t) = cont (kls s) (St t) \<and> cont (kls s') (Ev t) = cont (kls s) (Ev t)) \<and>
    (sw \<longleftrightarrow> (\<exists>t\<in>T. blocked s t \<and> remaining s t = 1 \<and> prio s t > prio s cur) \<or>
       card {t \<in> T. cont (kls s') (St t) = Some (unat (prio s cur))} > 1 \<or> xYieldPending s)"
proof -
  obtain s' c' where 1:
    "xTaskIncrementTick s = Some ((\<exists>t\<in>expired T 1 s. prio s t > prio s cur) \<or>
       card {t \<in> T. cont (kls s') (St t) = Some (unat (prio s cur))} > 1 \<or> xYieldPending s, s')"
    "sched_ok L T c' s'" "passes T 1 s s'"
    by (rule tick_passes[OF assms])
  note e = expired_1[OF assms(1)] and task = passes_task[OF assms(1) 1(3)]
  have "if blocked s t
       then if remaining s t = 1 then ready s' t \<and> cont (kls s') (Ev t) = None
            else blocked s' t \<and> remaining s' t = remaining s t - 1 \<and> cont (kls s') (Ev t) = cont (kls s) (Ev t)
       else cont (kls s') (St t) = cont (kls s) (St t) \<and> cont (kls s') (Ev t) = cont (kls s) (Ev t)" if t: "t \<in> T" for t
  proof -
    have p: "cont (kls s') (St t) = (if t \<in> expired T 1 s then Some (unat (prio s t)) else cont (kls s) (St t))"
      "cont (kls s') (Ev t) = (if t \<in> expired T 1 s then None else cont (kls s) (Ev t))"
      using 1(3) by (simp_all add: passes_def)
    show ?thesis
    proof (cases "blocked s t")
      case b: True
      have "0 < remaining s t" by (rule remaining_pos[OF assms(1) b])
      then show ?thesis using p e task(1,2,4)[OF t] t b by (cases "remaining s t = 1") auto
    next
      case False
      then show ?thesis using p e by simp
    qed
  qed
  moreover have "xTickCount s' = xTickCount s + 1" using 1(3) by (simp add: passes_def)
  moreover have "(\<exists>t\<in>expired T 1 s. prio s t > prio s cur) \<longleftrightarrow>
      (\<exists>t\<in>T. blocked s t \<and> remaining s t = 1 \<and> prio s t > prio s cur)" using e by auto
  ultimately show ?thesis using 1(1,2) by blast
qed

text \<open>The two tasks of the demonstration with the scheduler running; the task of priority 2 is current.\<close>

definition demo_run :: kernel where
  "demo_run = demo2\<lparr>xSchedulerRunning := True, xPendedTicks := 0, xYieldPending := False\<rparr>"

lemma demo_run_ok:
  obtains c where "sched_ok {..10} {0x300004A0, 0x30000218} c demo_run" "sane 0x30000218 {..10} {0x300004A0, 0x30000218} demo_run"
    "pxCurrentTCB demo_run = Some 0x300004A0" "uxSchedulerSuspended demo_run = 0"
    "prio demo_run 0x300004A0 = 2" "prio demo_run 0x30000218 = 0" "cont (kls demo_run) (Ev 0x300004A0) = None"
    "xPendedTicks demo_run = 0" "cont (kls demo_run) (Ev 0x30000218) = None"
    "ulNotifiedValue (tcbs demo_run 0x300004A0) = [0, 0, 0]" "ucNotifyState (tcbs demo_run 0x300004A0) = [0, 0, 0]"
proof -
  let ?i = "0x30000218 :: nat" and ?t = "0x300004A0 :: nat"
  obtain c where d: "sched_ok {..10} {?t, ?i} c demo2" "created 0x30000400 128 7 2 ?t demo1 demo2"
    "pxCurrentTCB demo2 = Some ?t" "uxSchedulerSuspended demo2 = 0" "ready demo2 ?i" "prio demo2 ?i = 0"
    "cont (kls demo2) (Ev ?i) = None"
    by (rule demo2_ok)
  have d1: "created 0x30000200 128 0 0 ?i boot_kernel demo1" by (rule demo1_ok)
  have p: "ready demo2 ?t" "prio demo2 ?t = 2" "cont (kls demo2) (Ev ?t) = None"
    "ulNotifiedValue (tcbs demo2 ?t) = [0, 0, 0]" "ucNotifyState (tcbs demo2 ?t) = [0, 0, 0]"
    using d(2) by (simp_all add: created_def)
  have n: "uxCurrentNumberOfTasks demo2 = 2" using d(2) d1 by (simp add: created_def boot_kernel_def)
  have ok: "sched_ok {..10} {?t, ?i} c demo_run" using d(1) by (simp add: demo_run_def)
  have rd: "ready demo_run u = ready demo2 u" "prio demo_run u = prio demo2 u" for u by (simp_all add: demo_run_def ready_def)
  have "top_task {?t, ?i} demo_run ?t" using p d(5,6) rd by (auto simp: top_task_def)
  then have run: "running_ok {?t, ?i} demo_run" by (rule running_top[OF ok]) (simp add: demo_run_def d(3))
  have "dead {?t, ?i} demo_run = {}"
    using ready_cont[OF sched_okD(1)[OF ok]] p(1) d(5) rd by (fastforce simp: dead_def xTasksWaitingTermination_def)
  then have "sane ?i {..10} {?t, ?i} demo_run"
    using ok run rd d(5) n by (auto simp: sane_def demo_run_def)
  then show thesis using ok d p rd by (intro that[of c]) (simp_all add: demo_run_def)
qed

theorem xTaskIncrementTick_exact_witness:
  "\<exists>sw s'. xTaskIncrementTick demo_run = Some (sw, s') \<and> xTickCount s' = xTickCount demo_run + 1"
proof -
  obtain c where d: "sched_ok {..10} {0x300004A0, 0x30000218} c demo_run" "pxCurrentTCB demo_run = Some 0x300004A0"
    "uxSchedulerSuspended demo_run = 0"
    by (rule demo_run_ok)
  show ?thesis using xTaskIncrementTick_exact[OF d(1,3,2)] by blast
qed

subsection \<open>Delays\<close>

lemma sane_ticks:
  assumes "sane idle L T s"
  shows "\<exists>s'. run_ticks m s = Some s' \<and> sane idle L T s'"
  using assms
proof (induction m arbitrary: s)
  case (Suc m)
  obtain s1 where "tick_isr s = Some s1" "sane idle L T s1" using tick_call[OF Suc.prems] by (auto simp: call_result_def)
  with Suc.IH show ?case by simp
qed simp

text \<open>The tick at which a blocked task wakes runs it if no other task of its priority or above is there.\<close>

lemma wake_runs:
  assumes sane: "sane idle L T s" and susp: "uxSchedulerSuspended s = 0" and t: "t \<in> T" "blocked s t" "remaining s t = 1"
    and hi: "\<forall>u\<in>T. u \<noteq> t \<longrightarrow> prio s u < prio s t"
  shows "\<exists>s'. tick_isr s = Some s' \<and> pxCurrentTCB s' = Some t"
proof -
  obtain c cur where ok: "sched_ok L T c s" "pxCurrentTCB s = Some cur" "cur \<in> T" "xYieldPending s \<or> top_task T s cur"
    using sane by (auto simp: sane_def running_ok_def)
  have i: "idle \<in> T" "ready s idle" using sane by (simp_all add: sane_def)
  obtain s' c' cur' where k: "tick_isr s = Some s'" "sched_ok L T c' s'" "passes T 1 s s'" "uxSchedulerSuspended s' = 0"
    "pxCurrentTCB s' = Some cur'" "(\<exists>t\<in>expired T 1 s. prio s t > prio s cur) \<longrightarrow> top_task T s' cur'"
    "top_task T s' cur' \<or> cur' = cur \<and> alert T cur s s' \<and> \<not> xYieldPending s" "same_ctrl s s'"
    by (rule tick_isr_spec[OF ok(1) susp ok(2) i])
  have tc: "tcbs s' = tcbs s" using k(3) by (simp add: passes_def)
  have rt: "ready s' t" by (rule passes_task(4)[OF ok(1) k(3) t(1,2)]) (simp add: t(3))
  have "top_task T s' cur'"
  proof (rule ccontr)
    assume n: "\<not> top_task T s' cur'"
    then have "top_task T s cur" using k(7) ok(4) by blast
    then have rc: "ready s cur" by (simp add: top_task_def)
    have "cur \<noteq> t"
    proof
      assume "cur = t"
      then show False
        using rc t(2) ready_cont[OF sched_okD(1)[OF ok(1)] t(1)] by (auto simp: blocked_def xDelayedTaskList1_def xDelayedTaskList2_def)
    qed
    then have "prio s cur < prio s t" using hi ok(3) by blast
    then show False using n k(6) t by (auto simp: expired_def)
  qed
  then have "cur' \<in> T" "prio s t \<le> prio s cur'" using t(1) rt tc by (auto simp: top_task_def)
  then have "cur' = t" using hi by (auto simp: not_less[symmetric])
  with k(1,5) show ?thesis by simp
qed

text \<open>A tick does not give the processor to a task that is not ready.\<close>

lemma blocked_not_ready:
  assumes "sched_ok L T c s" "t \<in> T" "blocked s t"
  shows "\<not> ready s t"
  using ready_cont[OF sched_okD(1)[OF assms(1)] assms(2)] assms(3)
  by (auto simp: blocked_def xDelayedTaskList1_def xDelayedTaskList2_def)

lemma tick_keeps_off:
  assumes sane: "sane idle L T s" and susp: "uxSchedulerSuspended s = 0" and cur: "pxCurrentTCB s \<noteq> Some t"
    and tick: "tick_isr s = Some s'" and t: "\<not> ready s' t"
  shows "pxCurrentTCB s' \<noteq> Some t"
proof -
  obtain c cur where ok: "sched_ok L T c s" "pxCurrentTCB s = Some cur" "idle \<in> T" "ready s idle"
    using sane by (auto simp: sane_def running_ok_def)
  obtain s2 c' cur' where k: "tick_isr s = Some s2" "sched_ok L T c' s2" "passes T 1 s s2" "uxSchedulerSuspended s2 = 0"
    "pxCurrentTCB s2 = Some cur'" "(\<exists>t\<in>expired T 1 s. prio s t > prio s cur) \<longrightarrow> top_task T s2 cur'"
    "top_task T s2 cur' \<or> cur' = cur \<and> alert T cur s s2 \<and> \<not> xYieldPending s" "same_ctrl s s2"
    by (rule tick_isr_spec[OF ok(1) susp ok(2-4)])
  then show ?thesis using tick cur t ok(2) by (auto simp: top_task_def)
qed

text \<open>What blocking the running task for \<open>n\<close> ticks leads to.\<close>

lemma block_exact:
  assumes sane: "sane idle L T s" and susp: "uxSchedulerSuspended s = 0" and pend: "xPendedTicks s = 0"
    and cur: "pxCurrentTCB s = Some t" "t \<noteq> idle" "cont (kls s) (Ev t) = None" and n: "n \<noteq> 0"
  obtains s' where "Option.bind (prvAddCurrentTaskToDelayedList n False (vTaskSuspendAll s)) resume_and_yield = Some s'"
    "sane idle L T s'" "uxSchedulerSuspended s' = 0" "xPendedTicks s' = 0" "blocked s' t" "remaining s' t = unat n"
    "tcbs s' = tcbs s" "pxCurrentTCB s' \<noteq> Some t"
proof -
  let ?s = "vTaskSuspendAll s"
  obtain c where s: "sched_ok L T c ?s" "pxCurrentTCB ?s = Some t" "t \<in> T"
    using sane cur(1) by (auto simp: sane_def running_ok_def vTaskSuspendAll_def)
  have kls: "kls ?s = kls s" "tcbs ?s = tcbs s" by (simp_all add: vTaskSuspendAll_def)
  have i: "idle \<in> T" "ready s idle" "uxCurrentNumberOfTasks s > 0" using sane by (simp_all add: sane_def)
  obtain s1 c1 where 1: "prvAddCurrentTaskToDelayedList n False ?s = Some s1" "sched_ok L T c1 s1"
    "blocked s1 t" "remaining s1 t = unat n" "same_rest ?s s1"
    "\<forall>i. i \<noteq> St t \<longrightarrow> cont (kls s1) i = cont (kls ?s) i \<and> val (kls s1) i = val (kls ?s) i"
    by (rule add_to_delayed_spec[OF s(1,2) n, of False]) simp_all
  note f = same_rest_fields[OF 1(5)]
  have r1: "ready s1 idle" using i(2) cur(2) 1(6) f(1) kls by (simp add: ready_def)
  have c1: "pxCurrentTCB s1 = Some t" "uxSchedulerSuspended s1 = 1" "uxCurrentNumberOfTasks s1 > 0" "xPendedTicks s1 = 0"
    using f s(2) susp i(3) pend by (simp_all add: vTaskSuspendAll_def)
  obtain s' c' s2 c2 cur' where y: "resume_and_yield s1 = Some s'" "sched_ok L T c' s'" "unpends T s1 s2" "sched_ok L T c2 s2"
    "passes T (unat (xPendedTicks s1)) s2 s'" "uxSchedulerSuspended s' = 0" "xPendedTicks s' = 0"
    "pxCurrentTCB s' = Some cur'" "top_task T s' cur'" "same_ctrl s1 s'"
    by (rule resume_and_yield_spec[OF 1(2) c1(1-3) i(1) r1])
  have "t \<notin> pending T s1" using 1(6) cur(3) kls by (simp add: pending_def)
  then have b2: "blocked s2 t" "remaining s2 t = unat n"
    using y(3) 1(3,4) by (auto simp: unpends_def blocked_def remaining_def same_data_def)
  have e: "Option.bind (prvAddCurrentTaskToDelayedList n False ?s) resume_and_yield = Some s'" using 1(1) y(1) by simp
  have "sane idle L T s'"
    using block_result[OF sane susp _ n] cur e by (auto simp: call_result_def)
  moreover have "blocked s' t" "remaining s' t = unat n"
    using passes_task(1,2)[OF y(4,5) s(3)] b2 remaining_pos[OF y(4) b2(1)] by (simp_all add: c1(4))
  moreover have "tcbs s' = tcbs s" using y(10) f(1) kls by (simp add: same_ctrl_def)
  moreover have "pxCurrentTCB s' \<noteq> Some t"
    using blocked_not_ready[OF y(2) s(3) calculation(2)] y(8,9) by (auto simp: top_task_def)
  ultimately show thesis using that[OF e] y(6,7) by blast
qed

lemma wait_ticks:
  assumes sane: "sane idle L T s" and susp: "uxSchedulerSuspended s = 0" and t: "t \<in> T" "blocked s t"
  shows "\<exists>s'. run_ticks m s = Some s' \<and> sane idle L T s' \<and> uxSchedulerSuspended s' = 0 \<and> tcbs s' = tcbs s \<and>
    (if m < remaining s t then blocked s' t \<and> remaining s' t = remaining s t - m else ready s' t \<and> \<not> blocked s' t)"
proof -
  obtain c where ok: "sched_ok L T c s" and i: "idle \<in> T" "ready s idle" using sane by (auto simp: sane_def)
  obtain s' c' where r: "run_ticks m s = Some s'" "sched_ok L T c' s'" "passes T m s s'" "uxSchedulerSuspended s' = 0"
    using run_ticks_spec[OF ok susp i] by blast
  have "sane idle L T s'" using sane_ticks[OF sane, of m] r(1) by simp
  moreover have "tcbs s' = tcbs s" using r(3) by (simp add: passes_def)
  ultimately show ?thesis using passes_task(1,2,4)[OF ok r(3) t(1)] t(2) r(1,4) by auto
qed

lemma wait_off:
  assumes sane: "sane idle L T s" and susp: "uxSchedulerSuspended s = 0" and t: "t \<in> T" "blocked s t"
    and cur: "pxCurrentTCB s \<noteq> Some t" and m: "m < remaining s t" and r: "run_ticks m s = Some s'"
  shows "pxCurrentTCB s' \<noteq> Some t"
  using m r
proof (induction m arbitrary: s')
  case (Suc m)
  obtain s1 where 1: "run_ticks m s = Some s1" "sane idle L T s1" "uxSchedulerSuspended s1 = 0"
    using wait_ticks[OF sane susp t, of m] by blast
  obtain s2 where 2: "run_ticks (Suc m) s = Some s2" "sane idle L T s2" "blocked s2 t"
    using wait_ticks[OF sane susp t, of "Suc m"] Suc.prems(1) by auto
  obtain c where "sched_ok L T c s2" using 2(2) by (auto simp: sane_def)
  from blocked_not_ready[OF this t(1) 2(3)] have "\<not> ready s' t" using 2(1) Suc.prems(2) by simp
  moreover have "tick_isr s1 = Some s'" using Suc.prems(2) 1(1) by (simp add: run_ticks_last del: run_ticks.simps)
  moreover have "pxCurrentTCB s1 \<noteq> Some t" using Suc.IH[OF _ 1(1)] Suc.prems(1) by simp
  ultimately show ?case using tick_keeps_off[OF 1(2,3)] by blast
qed (use cur in simp)

text \<open>C10. \<^verbatim>\<open>vTaskDelay\<close> gives the processor away, and the caller sleeps for exactly the ticks it
  asked for, for every value of the tick count: when the call ends and after fewer ticks it is not the
  running task and is blocked with the rest of the time left, from the last tick on it is ready. If it
  has the highest priority of all tasks, that tick also makes it the running task.\<close>

theorem vTaskDelay_exact:
  assumes "sane idle L T s" "uxSchedulerSuspended s = 0" "xPendedTicks s = 0" "pxCurrentTCB s = Some t" "t \<noteq> idle"
    "cont (kls s) (Ev t) = None" "n > 0"
  shows "\<exists>s1. vTaskDelay n s = Some s1 \<and>
    (\<forall>m. \<exists>s2. run_ticks m s1 = Some s2 \<and>
       (if m < unat n then pxCurrentTCB s2 \<noteq> Some t \<and> blocked s2 t \<and> remaining s2 t = unat n - m
        else ready s2 t \<and> \<not> blocked s2 t)) \<and>
    ((\<forall>u\<in>T. u \<noteq> t \<longrightarrow> prio s u < prio s t) \<longrightarrow>
       (\<exists>s2. run_ticks (unat n) s1 = Some s2 \<and> pxCurrentTCB s2 = Some t))"
proof -
  have n: "n \<noteq> 0" using assms(7) by auto
  obtain s1 where 1: "Option.bind (prvAddCurrentTaskToDelayedList n False (vTaskSuspendAll s)) resume_and_yield = Some s1"
    "sane idle L T s1" "uxSchedulerSuspended s1 = 0" "xPendedTicks s1 = 0" "blocked s1 t" "remaining s1 t = unat n"
    "tcbs s1 = tcbs s" "pxCurrentTCB s1 \<noteq> Some t"
    by (rule block_exact[OF assms(1-6) n])
  have t: "t \<in> T" using assms(1,4) by (auto simp: sane_def running_ok_def)
  have e: "vTaskDelay n s = Some s1" using 1(1) assms(7) unfolding vTaskDelay_def Let_def by simp
  note w = wait_ticks[OF 1(2,3) t 1(5), unfolded 1(6)]
  have "\<exists>s2. run_ticks (unat n) s1 = Some s2 \<and> pxCurrentTCB s2 = Some t" if hi: "\<forall>u\<in>T. u \<noteq> t \<longrightarrow> prio s u < prio s t"
  proof -
    obtain k where k: "unat n = Suc k" using n by (metis unat_eq_0 not0_implies_Suc)
    obtain s2 where 2: "run_ticks k s1 = Some s2" "sane idle L T s2" "uxSchedulerSuspended s2 = 0" "tcbs s2 = tcbs s1"
        "blocked s2 t" "remaining s2 t = 1"
      using w[of k] k by auto
    have "\<exists>s3. tick_isr s2 = Some s3 \<and> pxCurrentTCB s3 = Some t"
      by (rule wake_runs[OF 2(2,3) t 2(5,6)]) (use hi 1(7) 2(4) in simp)
    then show ?thesis using 2(1) by (simp add: k run_ticks_last del: run_ticks.simps)
  qed
  moreover have "\<forall>m. \<exists>s2. run_ticks m s1 = Some s2 \<and>
       (if m < unat n then pxCurrentTCB s2 \<noteq> Some t \<and> blocked s2 t \<and> remaining s2 t = unat n - m
        else ready s2 t \<and> \<not> blocked s2 t)"
    using w wait_off[OF 1(2,3) t 1(5,8), unfolded 1(6)] by (meson option.inject)
  ultimately show ?thesis using e by blast
qed

theorem vTaskDelay_exact_witness:
  "\<exists>s1 s2. vTaskDelay 5 demo_run = Some s1 \<and> pxCurrentTCB s1 \<noteq> Some 0x300004A0 \<and>
     run_ticks 5 s1 = Some s2 \<and> pxCurrentTCB s2 = Some 0x300004A0"
proof -
  obtain c where d: "sane 0x30000218 {..10} {0x300004A0, 0x30000218} demo_run" "pxCurrentTCB demo_run = Some 0x300004A0"
    "uxSchedulerSuspended demo_run = 0" "prio demo_run 0x300004A0 = 2" "prio demo_run 0x30000218 = 0"
    "cont (kls demo_run) (Ev 0x300004A0) = None" "xPendedTicks demo_run = 0"
    by (rule demo_run_ok)
  from vTaskDelay_exact[OF d(1,3,7,2) _ d(6), of 5] d(4,5)
  obtain s1 s2 where 1: "vTaskDelay 5 demo_run = Some s1" "run_ticks 5 s1 = Some s2" "pxCurrentTCB s2 = Some 0x300004A0"
    "\<forall>m. \<exists>s2. run_ticks m s1 = Some s2 \<and> (if m < 5 then pxCurrentTCB s2 \<noteq> Some 0x300004A0 \<and>
       blocked s2 0x300004A0 \<and> remaining s2 0x300004A0 = unat (5 :: TickType_t) - m else ready s2 0x300004A0 \<and> \<not> blocked s2 0x300004A0)"
    by auto
  then show ?thesis using 1(4)[rule_format, of 0] by auto
qed

subsection \<open>Periodic tasks\<close>

lemma delay_until_decision_exact:
  "delay_until_decision now prev inc = (prev + inc, unat (now - prev) < unat inc)"
proof -
  have n: "unat (now - prev) = (if prev \<le> now then unat now - unat prev else unat now + 2 ^ 32 - unat prev)"
    by (simp add: unat_sub_if_size word_size word_le_nat_alt)
  have w: "unat (prev + inc) = (if unat prev + unat inc < 2 ^ 32 then unat prev + unat inc else unat prev + unat inc - 2 ^ 32)"
    by (simp add: unat_plus_if_size word_size)
  have b: "unat now < 2 ^ 32" "unat prev < 2 ^ 32" "unat inc < 2 ^ 32"
    by (rule unat_bounds(3))+
  show ?thesis
    using b unfolding delay_until_decision_def Let_def prod.inject word_less_nat_alt n w word_le_nat_alt
    by (auto split: if_splits)
qed

text \<open>C12. A periodic task keeps its period, whatever the tick count and however late the call comes: with
  \<open>e\<close> the ticks since the previous wake time (modulo the wrap-around), \<^verbatim>\<open>xTaskDelayUntil\<close> advances the
  wake time by the increment, delays if and only if less than one increment has passed, and then keeps
  the task off the processor and wakes it exactly one increment after the previous wake time.\<close>

theorem xTaskDelayUntil_periodic:
  fixes prev inc :: TickType_t
  assumes "sane idle L T s" "uxSchedulerSuspended s = 0" "xPendedTicks s = 0" "pxCurrentTCB s = Some t" "t \<noteq> idle"
    "cont (kls s) (Ev t) = None"
  defines "e \<equiv> unat (xTickCount s - prev)"
  shows "\<exists>s1. xTaskDelayUntil prev inc s = Some (prev + inc, e < unat inc, s1) \<and>
    (e < unat inc \<longrightarrow> (\<forall>m. \<exists>s2. run_ticks m s1 = Some s2 \<and>
       (if e + m < unat inc then pxCurrentTCB s2 \<noteq> Some t \<and> blocked s2 t \<and> e + m + remaining s2 t = unat inc
        else ready s2 t \<and> \<not> blocked s2 t)))"
proof -
  have tk: "xTickCount (vTaskSuspendAll s) = xTickCount s" by (simp add: vTaskSuspendAll_def)
  note dec = delay_until_decision_exact[of "xTickCount s" prev inc, folded e_def]
  have t: "t \<in> T" using assms(1,4) by (auto simp: sane_def running_ok_def)
  show ?thesis
  proof (cases "e < unat inc")
    case True
    let ?w = "prev + inc - xTickCount s"
    have w: "?w = inc - (xTickCount s - prev)" by simp
    have "xTickCount s - prev \<le> inc" using True by (simp add: word_le_nat_alt e_def)
    then have uw: "unat ?w = unat inc - e" unfolding w by (simp add: unat_sub e_def)
    then have "unat ?w \<noteq> 0" using True by simp
    then have n: "?w \<noteq> 0" by (metis unat_0)
    obtain s1 where 1: "Option.bind (prvAddCurrentTaskToDelayedList ?w False (vTaskSuspendAll s)) resume_and_yield = Some s1"
      "sane idle L T s1" "uxSchedulerSuspended s1 = 0" "xPendedTicks s1 = 0" "blocked s1 t" "remaining s1 t = unat ?w"
      "tcbs s1 = tcbs s" "pxCurrentTCB s1 \<noteq> Some t"
      by (rule block_exact[OF assms(1-6) n])
    have "xTaskDelayUntil prev inc s = Some (prev + inc, e < unat inc, s1)"
      unfolding xTaskDelayUntil_def Let_def tk dec prod.case using True 1(1)
      by (cases "prvAddCurrentTaskToDelayedList ?w False (vTaskSuspendAll s)") simp_all
    moreover have "\<exists>s2. run_ticks m s1 = Some s2 \<and>
       (if e + m < unat inc then pxCurrentTCB s2 \<noteq> Some t \<and> blocked s2 t \<and> e + m + remaining s2 t = unat inc
        else ready s2 t \<and> \<not> blocked s2 t)" for m
      using wait_ticks[OF 1(2,3) t 1(5), of m, unfolded 1(6) uw] wait_off[OF 1(2,3) t 1(5,8), of m, unfolded 1(6) uw]
      by (auto split: if_splits)
    ultimately show ?thesis by blast
  next
    case False
    obtain c where "sched_ok L T c (vTaskSuspendAll s)" "ready (vTaskSuspendAll s) idle" "uxSchedulerSuspended (vTaskSuspendAll s) = 1"
      using assms(1,2) by (auto simp: sane_def vTaskSuspendAll_def)
    then obtain s1 where "resume_and_yield (vTaskSuspendAll s) = Some s1"
      using resume_yield_result[OF assms(1), of c "vTaskSuspendAll s"]
      by (auto simp: call_result_def keeps_tasks_def keeps_dead_def dead_def vTaskSuspendAll_def)
    then have "xTaskDelayUntil prev inc s = Some (prev + inc, e < unat inc, s1)"
      unfolding xTaskDelayUntil_def Let_def tk dec prod.case using False by simp
    then show ?thesis using False by blast
  qed
qed

theorem xTaskDelayUntil_periodic_witness:
  "\<exists>s1 b. xTaskDelayUntil (xTickCount demo_run) 7 demo_run = Some (xTickCount demo_run + 7, b, s1) \<and>
     (\<exists>s2. run_ticks 7 s1 = Some s2 \<and> ready s2 0x300004A0)"
proof -
  obtain c where d: "sane 0x30000218 {..10} {0x300004A0, 0x30000218} demo_run" "pxCurrentTCB demo_run = Some 0x300004A0"
    "uxSchedulerSuspended demo_run = 0" "cont (kls demo_run) (Ev 0x300004A0) = None" "xPendedTicks demo_run = 0"
    by (rule demo_run_ok)
  show ?thesis using xTaskDelayUntil_periodic[OF d(1,3,5,2) _ d(4), of "xTickCount demo_run" 7] by fastforce
qed

subsection \<open>Time outs\<close>

text \<open>Only \<^verbatim>\<open>taskSWITCH_DELAYED_LISTS\<close> changes the number of overflows of the tick count.\<close>

lemma overflows_frame:
  "xNumOfOverflows (prvResetNextTaskUnblockTime s) = xNumOfOverflows s"
  "xNumOfOverflows (prvAddTaskToReadyList t s) = xNumOfOverflows s"
  "k_REMOVE i s = Some s' \<Longrightarrow> xNumOfOverflows s' = xNumOfOverflows s"
  "vTaskSwitchContext s = Some s' \<Longrightarrow> xNumOfOverflows s' = xNumOfOverflows s"
  by (auto simp: prvResetNextTaskUnblockTime_def prvAddTaskToReadyList_def taskRECORD_READY_PRIORITY_def k_INSERT_END_def
      k_REMOVE_def vTaskSwitchContext_def taskSELECT_HIGHEST_PRIORITY_TASK_def Let_def
      split: if_splits option.splits prod.splits)

lemma overflows_tick_start:
  "xNumOfOverflows (tick_start s) = xNumOfOverflows s + (if xTickCount s + 1 = 0 then 1 else 0)"
  by (simp add: tick_start_def taskSWITCH_DELAYED_LISTS_def overflows_frame Let_def)

lemma overflows_tick_loop:
  assumes "tick_loop now sw s = Some r"
  shows "xNumOfOverflows (snd r) = xNumOfOverflows s"
proof (rule tick_loop.raw_induct[OF _ assms, where P = "\<lambda>_ _ s r. xNumOfOverflows (snd r) = xNumOfOverflows s"], goal_cases)
  case (1 loop now sw s r)
  show ?case using 1(2)
    by (auto simp: Let_def overflows_frame bind_eq_Some_conv split: if_splits option.splits dest!: 1(1))
qed

text \<open>What one tick adds to the tick count, overflows included.\<close>

lemma overflows_tick:
  assumes "tick_isr s = Some s'" "uxSchedulerSuspended s = 0"
  shows "xNumOfOverflows s' = xNumOfOverflows s + (if xTickCount s + 1 = 0 then 1 else 0)"
proof -
  obtain sw u where u: "xTaskIncrementTick s = Some (sw, u)" "(if sw then vTaskSwitchContext u else Some u) = Some s'"
    using assms(1) by (auto simp: tick_isr_def bind_eq_Some_conv)
  have "xNumOfOverflows u = xNumOfOverflows (tick_start s)"
    using u(1) overflows_tick_loop unfolding xTaskIncrementTick_unfold[OF assms(2)]
    by (fastforce simp: bind_eq_Some_conv split: if_splits)
  then show ?thesis using u(2) overflows_frame(4) by (auto simp: overflows_tick_start split: if_splits)
qed

lemma of_nat_eq_0_mod: "(of_nat n :: 32 word) = 0 \<longleftrightarrow> n mod 2 ^ 32 = 0"
  by (simp add: word_of_nat_eq_0_iff dvd_eq_mod_eq_0)

lemma unat_add_of_nat: "unat (x + of_nat m :: 32 word) = (unat x + m) mod 2 ^ 32"
  by (simp add: unat_word_ariths unat_of_nat mod_add_right_eq)

lemma run_ticks_overflows:
  assumes "sched_ok L T c s" "uxSchedulerSuspended s = 0" "idle \<in> T" "ready s idle" "run_ticks m s = Some s'"
  shows "xTickCount s' = xTickCount s + of_nat m"
    "xNumOfOverflows s' = xNumOfOverflows s + of_nat ((unat (xTickCount s) + m) div 2 ^ 32)"
proof -
  have "xTickCount s' = xTickCount s + of_nat m \<and>
    xNumOfOverflows s' = xNumOfOverflows s + of_nat ((unat (xTickCount s) + m) div 2 ^ 32)"
    using assms(5)
  proof (induction m arbitrary: s')
    case 0
    have "unat (xTickCount s) div 2 ^ 32 = 0" by (rule div_less[OF unat_bounds(3)])
    with 0 show ?case by simp
  next
    case (Suc m)
    obtain s1 c1 where 1: "run_ticks m s = Some s1" "sched_ok L T c1 s1" "passes T m s s1" "uxSchedulerSuspended s1 = 0"
      using run_ticks_spec[OF assms(1-4), of m] by blast
    have i: "ready s1 idle" by (rule passes_task(3)[OF assms(1) 1(3) assms(3) assms(4)])
    have 2: "tick_isr s1 = Some s'" using Suc.prems 1(1) unfolding run_ticks_last by simp
    obtain cur where cur: "pxCurrentTCB s1 = Some cur" using 1(2) by (auto simp: sched_ok_def)
    obtain s2 c2 where "tick_isr s1 = Some s2" "passes T 1 s1 s2"
      by (rule tick_isr_spec[OF 1(2,4) cur assms(3) i])
    then have t: "xTickCount s' = xTickCount s1 + 1" using 2 by (simp add: passes_def)
    note ih = Suc.IH[OF 1(1)]
    let ?n = "unat (xTickCount s) + m"
    have z: "xTickCount s1 + 1 = 0 \<longleftrightarrow> (?n + 1) mod 2 ^ 32 = 0"
    proof -
      have "xTickCount s1 + 1 = (of_nat (?n + 1) :: 32 word)" using ih by simp
      then show ?thesis by (simp only: of_nat_eq_0_mod)
    qed
    have d: "Suc ?n div 2 ^ 32 = (if Suc ?n mod 2 ^ 32 = 0 then Suc (?n div 2 ^ 32) else ?n div 2 ^ 32)"
      by (rule div_Suc)
    show ?case using ih t overflows_tick[OF 2 1(4)] z d by simp
  qed
  then show "xTickCount s' = xTickCount s + of_nat m"
    "xNumOfOverflows s' = xNumOfOverflows s + of_nat ((unat (xTickCount s) + m) div 2 ^ 32)" by auto
qed


text \<open>C19. A time out runs for exactly the ticks asked for, across the wrap-around of the tick count.
  \<open>m\<close> ticks after \<^verbatim>\<open>vTaskSetTimeOutState\<close>, for every \<open>m\<close> up to \<open>2 ^ 32\<close> ticks and beyond that up to the second
  wrap-around, \<^verbatim>\<open>xTaskCheckForTimeOut\<close> reports a time out if and only if \<open>m\<close> has reached the block time,
  and otherwise restarts the time out with what is left of it; \<^verbatim>\<open>portMAX_DELAY\<close> never times out. Behind the second
  wrap-around the check takes one whole turn of the counter off the time passed and may miss the time out.\<close>

theorem xTaskCheckForTimeOut_exact:
  assumes "sane idle L T s" "uxSchedulerSuspended s = 0" "m < 2 ^ 33"
  shows "\<exists>s'. run_ticks m s = Some s' \<and>
    xTaskCheckForTimeOut (vTaskSetTimeOutState s) wait s' =
      (if wait = portMAX_DELAY then (False, vTaskSetTimeOutState s, wait)
       else if (if unat (xTickCount s) + m < 2 ^ 33 then m else m - 2 ^ 32) < unat wait
       then (False, vTaskSetTimeOutState s', wait - of_nat m)
       else (True, vTaskSetTimeOutState s, 0))"
proof -
  obtain c where ok: "sched_ok L T c s" "idle \<in> T" "ready s idle" using assms(1) by (auto simp: sane_def)
  obtain s' where r: "run_ticks m s = Some s'" using sane_ticks[OF assms(1)] by blast
  let ?t = "unat (xTickCount s)" and ?n = "unat (xTickCount s')"
  note k = run_ticks_overflows[OF ok(1) assms(2) ok(2,3) r]
  have b: "?t < 2 ^ 32" "unat wait < 2 ^ 32" by (rule unat_bounds(3))+
  have n: "?n = (?t + m) mod 2 ^ 32" unfolding k(1) by (rule unat_add_of_nat)
  have e: "unat (xTickCount s' - xTickCount s) = m mod 2 ^ 32" using k(1) by (simp add: unat_of_nat)
  have o: "xNumOfOverflows s' \<noteq> xNumOfOverflows s \<longleftrightarrow> ?t + m \<ge> 2 ^ 32"
  proof -
    have "(?t + m) div 2 ^ 32 < 2 ^ 32" using b(1) assms(3) by (intro less_mult_imp_div_less) simp
    then have "(of_nat ((?t + m) div 2 ^ 32) :: 32 word) = 0 \<longleftrightarrow> (?t + m) div 2 ^ 32 = 0" by (rule of_nat_eq_0_u32)
    then show ?thesis using k(2) by (auto simp: div_eq_0_iff)
  qed
  have w: "(wait :: 32 word) - (xTickCount s' - xTickCount s) = wait - of_nat m" using k(1) by simp
  have c: "xTaskCheckForTimeOut (vTaskSetTimeOutState s) wait s' =
      (if wait = portMAX_DELAY then (False, vTaskSetTimeOutState s, wait)
       else if ?t + m \<ge> 2 ^ 32 \<and> ?t \<le> ?n then (True, vTaskSetTimeOutState s, 0)
       else if m mod 2 ^ 32 < unat wait then (False, vTaskSetTimeOutState s', wait - of_nat m)
       else (True, vTaskSetTimeOutState s, 0))"
    by (simp add: xTaskCheckForTimeOut_def vTaskSetTimeOutState_def vTaskInternalSetTimeOutState_def Let_def o w
        word_less_nat_alt[of _ wait] e word_le_nat_alt[of "xTickCount s"])
  show ?thesis
  proof (cases "?t + m < 2 ^ 33")
    case True
    have "?t + m \<ge> 2 ^ 32 \<and> ?t \<le> ?n \<longleftrightarrow> m \<ge> 2 ^ 32"
      using b(1) True unfolding n by (cases "?t + m \<ge> 2 ^ 32") (auto simp: le_mod_geq)
    then show ?thesis using r c True b(2) by (auto simp: not_less)
  next
    case False
    then have m: "m \<ge> 2 ^ 32" "m mod 2 ^ 32 = m - 2 ^ 32" using b(1) assms(3) by (auto simp: mod_if le_mod_geq)
    have "?n = ?t + m - 2 ^ 33" using b(1) assms(3) False unfolding n by (simp add: le_mod_geq)
    then have "\<not> ?t \<le> ?n" using False b(1) assms(3) by simp
    then show ?thesis using r c False m by auto
  qed
qed

theorem xTaskCheckForTimeOut_exact_witness:
  "\<exists>s'. run_ticks 5 demo_run = Some s' \<and>
     xTaskCheckForTimeOut (vTaskSetTimeOutState demo_run) 8 s' = (False, vTaskSetTimeOutState s', 3) \<and>
     xTaskCheckForTimeOut (vTaskSetTimeOutState demo_run) 5 s' = (True, vTaskSetTimeOutState demo_run, 0)"
proof -
  obtain c where d: "sane 0x30000218 {..10} {0x300004A0, 0x30000218} demo_run" "uxSchedulerSuspended demo_run = 0"
    by (rule demo_run_ok)
  have b: "unat (xTickCount demo_run) + 5 < 2 ^ 33" using unat_bounds(3)[of "xTickCount demo_run"] by simp
  have m: "(5 :: nat) < 2 ^ 33" by simp
  obtain s' where s': "run_ticks 5 demo_run = Some s'"
    using sane_ticks[OF d(1)] by blast
  show ?thesis
    using xTaskCheckForTimeOut_exact[OF d m, of 8] xTaskCheckForTimeOut_exact[OF d m, of 5] b s'
    by (simp add: portMAX_DELAY_def del: run_ticks.simps)
qed

subsection \<open>New tasks\<close>

text \<open>Blocks the heap has given out are aligned and lie below \<open>2 ^ 32\<close>.\<close>

lemma tiles_dvd: "tiles a bs e \<Longrightarrow> 8 dvd a \<Longrightarrow> (p, n, k) \<in> set bs \<Longrightarrow> 8 dvd p"
  by (induction a bs e rule: tiles.induct) auto

lemma live_block:
  assumes "heap_live h H" "(r, n) \<in> set H"
  shows "8 dvd r" "r + n < 2 ^ 32"
proof -
  obtain a bs where h: "heap_ok h a bs" "lodged bs H" using assms by (auto simp: heap_live_def)
  obtain p k where b: "r = p + 8" "n + 8 \<le> k" "(p, k, Used) \<in> set bs" using h(2) assms(2) by (auto simp: lodged_def)
  have g: "heap_geom (xStart_at h) a (pxEnd h)" "tiles a bs (pxEnd h)" using h(1) by (auto simp: heap_ok_def heap_shape_def)
  have al: "8 dvd a" "pxEnd h < 2 ^ 32" using g(1) by (auto simp: heap_geom_def)
  show "8 dvd r" "r + n < 2 ^ 32"
    using tiles_mem[OF g(2) b(3)] tiles_dvd[OF g(2) al(1) b(3)] al(2) b(1,2) by auto
qed

lemma and_not_7: "unat (x AND NOT 7 :: u32_t) = unat x - unat x mod 8"
proof -
  have b: "unat x div 8 * 8 < 2 ^ 32" using unat_bounds(3)[of x] by (simp add: le_less_trans[OF div_times_less_eq_dividend])
  have "x AND NOT 7 = push_bit 3 (drop_bit 3 x)"
  proof -
    have "x AND NOT (mask 3) = push_bit 3 (drop_bit 3 x)" by (rule bit_word_eqI) (auto simp: bit_simps)
    then show ?thesis by (simp add: mask_eq_exp_minus_1)
  qed
  moreover have "unat (push_bit 3 (drop_bit 3 x)) = unat x div 8 * 8"
    using b unfolding unsigned_push_bit_eq unsigned_drop_bit_eq
    by (simp add: push_bit_eq_mult drop_bit_eq_div take_bit_eq_mod)
  ultimately have "unat (x AND NOT 7) = unat x div 8 * 8" by (simp only:)
  then show ?thesis by (simp add: minus_mod_eq_div_mult)
qed

text \<open>The start frame of a task with at least 19 words of stack lies inside its stack.\<close>

lemma start_frame:
  assumes "8 dvd stk" "stk + unat (d * 4) < 2 ^ 32" "76 \<le> unat (d * 4)"
    and p: "(p, m') = pxPortInitialiseStack ((of_nat stk + 4 * (d - 1)) AND NOT 7) f a m"
  shows "8 dvd unat p" "stk \<le> unat p" "unat p + 72 \<le> stk + unat (d * 4)" "x \<notin> frame p \<Longrightarrow> m' x = m x"
proof -
  let ?x = "of_nat stk + 4 * (d - 1) :: u32_t"
  define n where "n = stk + unat (d * 4) - 4"
  have e: "?x = of_nat n" using assms(3) by (simp add: n_def of_nat_diff algebra_simps)
  have "n < 2 ^ 32" using assms(2) by (simp add: n_def)
  then have x: "unat ?x = stk + unat (d * 4) - 4" unfolding e n_def[symmetric] by (simp add: unat_of_nat)
  have "4 dvd unat (d * 4)" by (simp add: unat_word_ariths dvd_mod)
  then obtain k where k: "unat (d * 4) = 4 * k" by blast
  obtain j where j: "stk = 8 * j" using assms(1) by blast
  have u: "unat (?x AND NOT 7) = stk + unat (d * 4) - 4 - (stk + unat (d * 4) - 4) mod 8"
    unfolding and_not_7 x by simp
  define q where "q = (?x AND NOT 7) - 72"
  obtain i where i: "k = i + 1" "18 \<le> i" using assms(3) k by (intro that[of "k - 1"]) auto
  have "stk + unat (d * 4) - 4 = 8 * j + 4 * i" using i j k by simp
  moreover have "n - n mod 8 = 8 * (n div 8)" for n :: nat by (simp add: minus_mod_eq_mult_div)
  moreover have "(8 * j + 4 * i) div 8 = j + i div 2" by (simp add: div_mult2_eq[of _ 4 2, simplified])
  ultimately have w: "unat (?x AND NOT 7) = 8 * (j + i div 2)" unfolding u by (simp only:)
  then have b: "8 * j + 72 \<le> unat (?x AND NOT 7)" "unat (?x AND NOT 7) \<le> 8 * j + 4 * k" "8 dvd unat (?x AND NOT 7)"
    using i unfolding w unfolding j k by (auto intro: dvd_triv_left)
  then have q: "unat q = unat (?x AND NOT 7) - 72" by (simp add: q_def unat_sub word_le_nat_alt)
  have "pxPortInitialiseStack (q + 72) f a m = (p, m')" using p by (simp add: q_def)
  then obtain vs where "push_down (q + 72) vs m = (p, m')" and l: "length vs = 18"
    unfolding pxPortInitialiseStack_def by (elim that) simp
  then have v: "p = q" "m' = store_words q (rev vs) m" using push_down_frame[OF l, of q m] by auto
  show "8 dvd unat p" "stk \<le> unat p" "unat p + 72 \<le> stk + unat (d * 4)"
    using q b i unfolding v(1) w j k by (auto simp: dvd_diff_nat)
  show "x \<notin> frame p \<Longrightarrow> m' x = m x" using store_words_frame(2)[of "rev vs" x q m] v l by simp
qed

text \<open>C14. \<^verbatim>\<open>xTaskCreate\<close> always returns. It fails only if the heap has no block for the stack or the
  TCB, and then changes nothing but the heap. Otherwise the new task is none of the existing ones, ready, of the
  requested priority or the highest there is; its stack and TCB are blocks of their own, its start frame is aligned
  and lies inside its stack if that has at least 19 words, and every other word of memory is as before.\<close>

theorem xTaskCreate_fresh:
  assumes "sched_ok L T c s" "mem_ok T s H" "2 * (card T + 1) < 2 ^ 32 - 1" "pxCurrentTCB s = Some cur"
  shows "\<exists>h s'. xTaskCreate f nm d a p s = Some (h, s') \<and>
    (case h of
       None \<Rightarrow> heap_full d s \<and> s' = s\<lparr>kheap := kheap s'\<rparr>
     | Some t \<Rightarrow>
         (let stk = pxStack (tcbs s' t); fp = pxTopOfStack (tcbs s' t)
          in t \<notin> T \<and> ready s' t \<and> prio s' t = min p 4 \<and>
            mem_ok (insert t T) s' ((t, sizeof_TCB_t) # (stk, unat (d * 4)) # H) \<and> (\<exists>c'. sched_ok L (insert t T) c' s') \<and>
            (unat (d * 4) \<ge> 76 \<longrightarrow>
               8 dvd unat fp \<and> stk \<le> unat fp \<and> unat fp + 72 \<le> stk + unat (d * 4) \<and>
               (\<forall>x. x \<notin> frame fp \<longrightarrow> kstack s' x = kstack s x))))"
proof (cases rule: create_spec[OF assms, of f nm d a p])
  case (1 h)
  then show ?thesis by auto
next
  case (2 t s' c' cur')
  have m: "heap_live (kheap s') ((t, sizeof_TCB_t) # (pxStack (tcbs s' t), unat (d * 4)) # H)"
    using 2(4) by (simp add: mem_ok_def)
  have b: "8 dvd pxStack (tcbs s' t)" "pxStack (tcbs s' t) + unat (d * 4) < 2 ^ 32" using live_block[OF m] by auto
  have r: "ready s' t" "prio s' t = min p 4"
    and i: "(pxTopOfStack (tcbs s' t), kstack s') =
       pxPortInitialiseStack ((of_nat (pxStack (tcbs s' t)) + 4 * (d - 1)) AND NOT 7) f a (kstack s)"
    using 2(5) by (simp_all add: created_def)
  show ?thesis using 2(1-4) r start_frame[OF b _ i] by (auto simp: Let_def)
qed

theorem xTaskCreate_fresh_witness:
  "\<exists>t s'. xTaskCreate 0x30000600 None 128 9 2 demo2 = Some (Some t, s') \<and> ready s' t \<and>
     pxStack (tcbs s' t) \<le> unat (pxTopOfStack (tcbs s' t))"
proof -
  obtain c where d: "sched_ok {..10} {0x300004A0, 0x30000218} c demo2"
    "mem_ok {0x300004A0, 0x30000218} demo2
       [(0x300004A0, sizeof_TCB_t), (0x30000290, 512), (0x30000218, sizeof_TCB_t), (0x30000008, 512)]"
    "created 0x30000400 128 7 2 0x300004A0 demo1 demo2" "pxCurrentTCB demo2 = Some 0x300004A0"
    by (rule demo2_ok)
  have card: "2 * (card {0x300004A0, 0x30000218 :: nat} + 1) < 2 ^ 32 - 1" by simp
  obtain c' where s': "xTaskCreate 0x30000600 None 128 9 2 demo2 = Some (Some 0x30000728, demo3)"
    by (rule demo3_ok)
  show ?thesis using xTaskCreate_fresh[OF d(1,2) card d(4), of "0x30000600" None 128 9 2] s' by (auto simp: Let_def)
qed

end
