(* ===== verification/Notify.thy ===== *)
theory Notify
  imports Scheduler
begin

section \<open>Task notifications (tasks.c)\<close>

text \<open>
  The notification functions of \<^verbatim>\<open>tasks.c\<close>. Each task has three notification values and states.
  Waiting is modelled in two parts: up to the yield with which the caller blocks (\<open>_block\<close>), and
  from the point where it runs again to the return (\<open>_end\<close>). An index outside the arrays is only
  reported by \<^verbatim>\<open>configASSERT\<close> and then used, which is the result \<open>None\<close>. Values returned
  through pointers are part of the results.
\<close>

subsection \<open>The functions\<close>

datatype eNotifyAction = eNoAction | eSetBits | eIncrement | eSetValueWithOverwrite | eSetValueWithoutOverwrite

abbreviation notify_index :: "UBaseType_t \<Rightarrow> bool" where
  "notify_index i \<equiv> unat i < configTASK_NOTIFICATION_ARRAY_ENTRIES"

abbreviation notified :: "kernel \<Rightarrow> nat \<Rightarrow> UBaseType_t \<Rightarrow> u32_t" where
  "notified s t i \<equiv> ulNotifiedValue (tcbs s t) ! unat i"

abbreviation notify_state :: "kernel \<Rightarrow> nat \<Rightarrow> UBaseType_t \<Rightarrow> u8_t" where
  "notify_state s t i \<equiv> ucNotifyState (tcbs s t) ! unat i"

definition set_notified :: "nat \<Rightarrow> UBaseType_t \<Rightarrow> u32_t \<Rightarrow> kernel \<Rightarrow> kernel" where
  "set_notified t i v s = upd_tcb t (ulNotifiedValue_update (\<lambda>vs. vs[unat i := v])) s"

definition set_notify_state :: "nat \<Rightarrow> UBaseType_t \<Rightarrow> u8_t \<Rightarrow> kernel \<Rightarrow> kernel" where
  "set_notify_state t i v s = upd_tcb t (ucNotifyState_update (\<lambda>vs. vs[unat i := v])) s"

definition ulTaskGenericNotifyTake_block :: "UBaseType_t \<Rightarrow> TickType_t \<Rightarrow> kernel \<Rightarrow> kernel option" where
  "ulTaskGenericNotifyTake_block uxIndexToWait xTicksToWait s =
     (if notify_index uxIndexToWait
      then do {
        cur \<leftarrow> pxCurrentTCB s;
        if notified s cur uxIndexToWait = 0
        then (let s = set_notify_state cur uxIndexToWait taskWAITING_NOTIFICATION s
              in if xTicksToWait > 0
                 then do { s \<leftarrow> prvAddCurrentTaskToDelayedList xTicksToWait True s; portYIELD_WITHIN_API s }
                 else Some s)
        else Some s
      }
      else None)"

definition ulTaskGenericNotifyTake_end :: "UBaseType_t \<Rightarrow> bool \<Rightarrow> kernel \<Rightarrow> (u32_t \<times> kernel) option" where
  "ulTaskGenericNotifyTake_end uxIndexToWait xClearCountOnExit s =
     (if notify_index uxIndexToWait
      then do {
        cur \<leftarrow> pxCurrentTCB s;
        let ulReturn = notified s cur uxIndexToWait;
        let s = (if ulReturn \<noteq> 0
                 then if xClearCountOnExit then set_notified cur uxIndexToWait 0 s
                      else set_notified cur uxIndexToWait (ulReturn - 1) s
                 else s);
        Some (ulReturn, set_notify_state cur uxIndexToWait taskNOT_WAITING_NOTIFICATION s)
      }
      else None)"

definition xTaskGenericNotifyWait_block ::
    "UBaseType_t \<Rightarrow> u32_t \<Rightarrow> TickType_t \<Rightarrow> kernel \<Rightarrow> kernel option" where
  "xTaskGenericNotifyWait_block uxIndexToWait ulBitsToClearOnEntry xTicksToWait s =
     (if notify_index uxIndexToWait
      then do {
        cur \<leftarrow> pxCurrentTCB s;
        if notify_state s cur uxIndexToWait \<noteq> taskNOTIFICATION_RECEIVED
        then (let s = set_notified cur uxIndexToWait (notified s cur uxIndexToWait AND NOT ulBitsToClearOnEntry) s;
                  s = set_notify_state cur uxIndexToWait taskWAITING_NOTIFICATION s
              in if xTicksToWait > 0
                 then do { s \<leftarrow> prvAddCurrentTaskToDelayedList xTicksToWait True s; portYIELD_WITHIN_API s }
                 else Some s)
        else Some s
      }
      else None)"

text \<open>The result holds the return value and \<^verbatim>\<open>*pulNotificationValue\<close>.\<close>

definition xTaskGenericNotifyWait_end :: "UBaseType_t \<Rightarrow> u32_t \<Rightarrow> kernel \<Rightarrow> (bool \<times> u32_t \<times> kernel) option" where
  "xTaskGenericNotifyWait_end uxIndexToWait ulBitsToClearOnExit s =
     (if notify_index uxIndexToWait
      then do {
        cur \<leftarrow> pxCurrentTCB s;
        let v = notified s cur uxIndexToWait;
        let (xReturn, s) =
          (if notify_state s cur uxIndexToWait \<noteq> taskNOTIFICATION_RECEIVED then (False, s)
           else (True, set_notified cur uxIndexToWait (v AND NOT ulBitsToClearOnExit) s));
        Some (xReturn, v, set_notify_state cur uxIndexToWait taskNOT_WAITING_NOTIFICATION s)
      }
      else None)"

text \<open>The \<^verbatim>\<open>switch\<close> over the action: the return value and the new notification value.\<close>

definition notify_action :: "eNotifyAction \<Rightarrow> u8_t \<Rightarrow> u32_t \<Rightarrow> u32_t \<Rightarrow> bool \<times> u32_t" where
  "notify_action eAction ucOriginalNotifyState ulValue v =
     (case eAction of
        eSetBits \<Rightarrow> (True, v OR ulValue)
      | eIncrement \<Rightarrow> (True, v + 1)
      | eSetValueWithOverwrite \<Rightarrow> (True, ulValue)
      | eSetValueWithoutOverwrite \<Rightarrow>
          (if ucOriginalNotifyState \<noteq> taskNOTIFICATION_RECEIVED then (True, ulValue) else (False, v))
      | eNoAction \<Rightarrow> (True, v))"

text \<open>The result holds the return value and \<^verbatim>\<open>*pulPreviousNotificationValue\<close>.\<close>

definition xTaskGenericNotify ::
    "nat \<Rightarrow> UBaseType_t \<Rightarrow> u32_t \<Rightarrow> eNotifyAction \<Rightarrow> kernel \<Rightarrow> (bool \<times> u32_t \<times> kernel) option" where
  "xTaskGenericNotify xTaskToNotify uxIndexToNotify ulValue eAction s =
     (if notify_index uxIndexToNotify
      then do {
        let prev = notified s xTaskToNotify uxIndexToNotify;
        let ucOriginalNotifyState = notify_state s xTaskToNotify uxIndexToNotify;
        let s = set_notify_state xTaskToNotify uxIndexToNotify taskNOTIFICATION_RECEIVED s;
        let (xReturn, v) = notify_action eAction ucOriginalNotifyState ulValue prev;
        let s = set_notified xTaskToNotify uxIndexToNotify v s;
        s \<leftarrow> (if ucOriginalNotifyState = taskWAITING_NOTIFICATION
             then do {
               s \<leftarrow> k_REMOVE (xStateListItem xTaskToNotify) s;
               let s = prvAddTaskToReadyList xTaskToNotify s;
               cur \<leftarrow> pxCurrentTCB s;
               if prio s xTaskToNotify > prio s cur then portYIELD_WITHIN_API s else Some s
             }
             else Some s);
        Some (xReturn, prev, s)
      }
      else None)"

text \<open>What the two functions for interrupt handlers do about a waiting task; they return whether the
  handler is to ask for a context switch (\<^verbatim>\<open>*pxHigherPriorityTaskWoken\<close>).\<close>

definition notify_wake_FromISR :: "nat \<Rightarrow> u8_t \<Rightarrow> kernel \<Rightarrow> (bool \<times> kernel) option" where
  "notify_wake_FromISR t ucOriginalNotifyState s =
     (if ucOriginalNotifyState = taskWAITING_NOTIFICATION
      then do {
        s \<leftarrow> (if uxSchedulerSuspended s = 0
             then do { s \<leftarrow> k_REMOVE (xStateListItem t) s; Some (prvAddTaskToReadyList t s) }
             else Some (k_INSERT_END xPendingReadyList (xEventListItem t) s));
        cur \<leftarrow> pxCurrentTCB s;
        Some (if prio s t > prio s cur then (True, s\<lparr>xYieldPending := True\<rparr>) else (False, s))
      }
      else Some (False, s))"

definition xTaskGenericNotifyFromISR ::
    "nat \<Rightarrow> UBaseType_t \<Rightarrow> u32_t \<Rightarrow> eNotifyAction \<Rightarrow> kernel \<Rightarrow> (bool \<times> u32_t \<times> bool \<times> kernel) option" where
  "xTaskGenericNotifyFromISR xTaskToNotify uxIndexToNotify ulValue eAction s =
     (if notify_index uxIndexToNotify
      then do {
        let prev = notified s xTaskToNotify uxIndexToNotify;
        let ucOriginalNotifyState = notify_state s xTaskToNotify uxIndexToNotify;
        let s = set_notify_state xTaskToNotify uxIndexToNotify taskNOTIFICATION_RECEIVED s;
        let (xReturn, v) = notify_action eAction ucOriginalNotifyState ulValue prev;
        let s = set_notified xTaskToNotify uxIndexToNotify v s;
        (woken, s) \<leftarrow> notify_wake_FromISR xTaskToNotify ucOriginalNotifyState s;
        Some (xReturn, prev, woken, s)
      }
      else None)"

definition vTaskGenericNotifyGiveFromISR :: "nat \<Rightarrow> UBaseType_t \<Rightarrow> kernel \<Rightarrow> (bool \<times> kernel) option" where
  "vTaskGenericNotifyGiveFromISR xTaskToNotify uxIndexToNotify s =
     (if notify_index uxIndexToNotify
      then do {
        let ucOriginalNotifyState = notify_state s xTaskToNotify uxIndexToNotify;
        let s = set_notify_state xTaskToNotify uxIndexToNotify taskNOTIFICATION_RECEIVED s;
        let s = set_notified xTaskToNotify uxIndexToNotify (notified s xTaskToNotify uxIndexToNotify + 1) s;
        notify_wake_FromISR xTaskToNotify ucOriginalNotifyState s
      }
      else None)"

definition xTaskGenericNotifyStateClear :: "nat option \<Rightarrow> UBaseType_t \<Rightarrow> kernel \<Rightarrow> (bool \<times> kernel) option" where
  "xTaskGenericNotifyStateClear xTask uxIndexToClear s =
     (if notify_index uxIndexToClear
      then do {
        t \<leftarrow> prvGetTCBFromHandle xTask s;
        Some (if notify_state s t uxIndexToClear = taskNOTIFICATION_RECEIVED
              then (True, set_notify_state t uxIndexToClear taskNOT_WAITING_NOTIFICATION s)
              else (False, s))
      }
      else None)"

definition ulTaskGenericNotifyValueClear ::
    "nat option \<Rightarrow> UBaseType_t \<Rightarrow> u32_t \<Rightarrow> kernel \<Rightarrow> (u32_t \<times> kernel) option" where
  "ulTaskGenericNotifyValueClear xTask uxIndexToClear ulBitsToClear s =
     (if notify_index uxIndexToClear
      then do {
        t \<leftarrow> prvGetTCBFromHandle xTask s;
        let v = notified s t uxIndexToClear;
        Some (v, set_notified t uxIndexToClear (v AND NOT ulBitsToClear) s)
      }
      else None)"

text \<open>\<^verbatim>\<open>xTaskNotifyGive\<close> of \<^verbatim>\<open>task.h\<close>, for an index.\<close>

definition xTaskNotifyGiveIndexed :: "nat \<Rightarrow> UBaseType_t \<Rightarrow> kernel \<Rightarrow> (bool \<times> u32_t \<times> kernel) option" where
  "xTaskNotifyGiveIndexed t i s = xTaskGenericNotify t i 0 eIncrement s"

subsection \<open>Changing notification values and states\<close>

named_theorems notify_simps

lemma set_notify_fields [notify_simps]:
  "kls (set_notified t i v s) = kls s" "kls (set_notify_state t i w s) = kls s"
  "pxCurrentTCB (set_notified t i v s) = pxCurrentTCB s" "pxCurrentTCB (set_notify_state t i w s) = pxCurrentTCB s"
  "xYieldPending (set_notified t i v s) = xYieldPending s" "xYieldPending (set_notify_state t i w s) = xYieldPending s"
  "uxSchedulerSuspended (set_notified t i v s) = uxSchedulerSuspended s"
  "uxSchedulerSuspended (set_notify_state t i w s) = uxSchedulerSuspended s"
  "xTickCount (set_notified t i v s) = xTickCount s" "xTickCount (set_notify_state t i w s) = xTickCount s"
  "xPendedTicks (set_notified t i v s) = xPendedTicks s" "xPendedTicks (set_notify_state t i w s) = xPendedTicks s"
  "prio (set_notified t i v s) u = prio s u" "prio (set_notify_state t i w s) u = prio s u"
  by (simp_all add: set_notified_def set_notify_state_def)

lemma sched_upd_tcb:
  assumes "\<And>r. uxPriority (f r) = uxPriority r"
  shows "sched_ok L T c (upd_tcb t f s) = sched_ok L T c s"
  by (simp add: sched_ok_def base_upd_tcb[OF assms] times_ok_def)

lemma sane_upd_tcb:
  assumes "\<And>r. uxPriority (f r) = uxPriority r" "\<And>r. pxStack (f r) = pxStack r"
  shows "sane idle L T (upd_tcb t f s) = sane idle L T s" "keeps_tasks T s (upd_tcb t f s)"
    "ready (upd_tcb t f s) u = ready s u"
  using assms
  by (auto simp: sane_def sched_upd_tcb running_ok_def dead_def top_task_def ready_def keeps_tasks_def keeps_dead_def)
     (simp_all add: upd_tcb_def)

lemma sane_notify:
  "sane idle L T (set_notified t i v s) = sane idle L T s" "sane idle L T (set_notify_state t i w s) = sane idle L T s"
  "keeps_tasks T s (set_notified t i v s)" "keeps_tasks T s (set_notify_state t i w s)"
  "ready (set_notified t i v s) u = ready s u" "ready (set_notify_state t i w s) u = ready s u"
  unfolding set_notified_def set_notify_state_def by (simp_all add: sane_upd_tcb)

lemma sched_notify:
  "sched_ok L T c (set_notified t i v s) = sched_ok L T c s" "sched_ok L T c (set_notify_state t i w s) = sched_ok L T c s"
  unfolding set_notified_def set_notify_state_def by (simp_all add: sched_upd_tcb)

lemma call_result_from:
  assumes "keeps_tasks T s s0" "call_result idle L T s0 r"
  shows "call_result idle L T s r"
  using assms keeps_tasks_trans unfolding call_result_def by blast

lemma move_READY_spec:
  assumes ok: "sched_ok L T c s" and t: "t \<in> T"
  obtains s1 s' c' where "k_REMOVE (St t) s = Some s1" "prvAddTaskToReadyList t s1 = s'" "sched_ok L T c' s'"
    "same_data (kls s) (kls s')" "cont (kls s') = (cont (kls s))(St t := Some (unat (prio s t)))"
    "s' = s\<lparr>kls := kls s', uxTopReadyPriority := uxTopReadyPriority s'\<rparr>"
    "\<forall>l\<in>L. 5 \<le> l \<longrightarrow> c' l = remove1 (St t) (c l)"
proof -
  obtain K' top K'' c' where 1: "k_remove (St t) s = Some (s\<lparr>kls := K'\<rparr>)" "k_REMOVE (St t) s = Some (s\<lparr>kls := K'\<rparr>)"
    "prvAddTaskToReadyList t (s\<lparr>kls := K'\<rparr>) = s\<lparr>kls := K'', uxTopReadyPriority := top\<rparr>"
    "base_ok L T {} c' (s\<lparr>kls := K'', uxTopReadyPriority := top\<rparr>)" "same_data (kls s) K''"
    "cont K'' = (cont (kls s))(St t := Some (unat (prio s t)))"
    "\<forall>l\<in>L. 5 \<le> l \<longrightarrow> c' l = remove1 (St t) (c l)"
    by (rule base_move_ready[OF sched_okD(1)[OF ok] t])
  have p5: "unat (prio s t) < 5" using base_okD(3)[OF sched_okD(1)[OF ok]] t by (simp add: tasks_ok_def)
  have "sched_ok L T c' (s\<lparr>kls := K'', uxTopReadyPriority := top\<rparr>)"
    by (rule relinked_ok[OF ok 1(4), of t]) (use 1(5,6) p5 in auto)
  then show thesis by (intro that[of "s\<lparr>kls := K'\<rparr>" "s\<lparr>kls := K'', uxTopReadyPriority := top\<rparr>"]) (use 1 in simp_all)
qed

text \<open>Waking the waiting task \<open>t\<close>.\<close>

definition notify_wake :: "nat \<Rightarrow> kernel \<Rightarrow> kernel option" where
  "notify_wake t s = do {
     s \<leftarrow> k_REMOVE (St t) s;
     let s = prvAddTaskToReadyList t s;
     cur \<leftarrow> pxCurrentTCB s;
     if prio s t > prio s cur then portYIELD_WITHIN_API s else Some s
   }"

lemma notify_wake_spec:
  assumes sane: "sane idle L T s" and t: "t \<in> T" "t \<notin> dead T s" and cur: "pxCurrentTCB s = Some cur"
  shows "\<exists>s'. notify_wake t s = Some s' \<and> sane idle L T s' \<and> keeps_tasks T s s' \<and> tcbs s' = tcbs s \<and> ready s' t \<and>
    (\<forall>u. u \<noteq> t \<longrightarrow> cont (kls s') (St u) = cont (kls s) (St u)) \<and> (\<forall>u. cont (kls s') (Ev u) = cont (kls s) (Ev u)) \<and>
    (if prio s cur < prio s t
     then if uxSchedulerSuspended s = 0 then \<exists>c. pxCurrentTCB s' = Some c \<and> top_task T s' c
          else pxCurrentTCB s' = Some cur \<and> xYieldPending s'
     else pxCurrentTCB s' = Some cur \<and> xYieldPending s' = xYieldPending s)"
proof -
  obtain c where ok: "sched_ok L T c s" using sane by (auto simp: sane_def)
  obtain s1 s2 c2 where m: "k_REMOVE (St t) s = Some s1" "prvAddTaskToReadyList t s1 = s2" "sched_ok L T c2 s2"
    "same_data (kls s) (kls s2)" "cont (kls s2) = (cont (kls s))(St t := Some (unat (prio s t)))"
    "s2 = s\<lparr>kls := kls s2, uxTopReadyPriority := uxTopReadyPriority s2\<rparr>"
    by (rule move_READY_spec[OF ok t(1)])
  have f: "tcbs s2 = tcbs s" "pxCurrentTCB s2 = pxCurrentTCB s" "xYieldPending s2 = xYieldPending s"
    "uxSchedulerSuspended s2 = uxSchedulerSuspended s" by (subst m(6), simp)+
  note r = readied_result[OF sane t m(3,5) f(1) same_ctrl_kls[OF m(6)] f(2)]
  have rt: "ready s2 t" using m(5) f(1) by (simp add: ready_def pxReadyTasksLists_def)
  have e: "notify_wake t s = (if prio s cur < prio s t then portYIELD_WITHIN_API s2 else Some s2)"
    using m(1,2) f cur by (simp add: notify_wake_def Let_def)
  show ?thesis
  proof (cases "prio s cur < prio s t")
    case True
    have i: "idle \<in> T" "ready s2 idle" using sane r(2) by (simp_all add: sane_def)
    obtain s3 cur' where y: "portYIELD_WITHIN_API s2 = Some s3" "vTaskSwitchContext s2 = Some s3" "sched_ok L T c2 s3"
      "quiet s2 s3" "pxCurrentTCB s3 = Some cur'"
      "if uxSchedulerSuspended s2 = 0 then top_task T s3 cur' else s3 = s2\<lparr>xYieldPending := True\<rparr>"
      by (rule yield_spec[OF m(3) i])
    have "call_result idle L T s (portYIELD_WITHIN_API s2)"
      by (rule yield_result[OF sane m(3) r(1,2)]) (simp add: f(2))
    then have "sane idle L T s3" "keeps_tasks T s s3" using y(1) by (simp_all add: call_result_def)
    moreover have "tcbs s3 = tcbs s" "cont (kls s3) = cont (kls s2)" "ready s3 t"
      using y(4) f(1) rt quiet_views(3)[OF y(4)] by (simp_all add: quiet_def)
    ultimately show ?thesis using True e y(1,5,6) m(5) f cur by (auto split: if_splits)
  next
    case False
    then have "running_ok T s2" using r(3) f(3) cur by fastforce
    then have "sane idle L T s2" by (rule sane_next[OF sane m(3) r(1) _ r(2)])
    then show ?thesis using False e r(1) f cur m(5) rt by auto
  qed
qed

subsection \<open>Blocking\<close>

text \<open>The task waits with \<open>n\<close> ticks left; \<^verbatim>\<open>portMAX_DELAY\<close> is for ever, on the suspended list.\<close>

definition parked :: "TickType_t \<Rightarrow> kernel \<Rightarrow> nat \<Rightarrow> bool" where
  "parked n s t \<longleftrightarrow> (if n = portMAX_DELAY then cont (kls s) (St t) = Some 9 else blocked s t \<and> remaining s t = unat n)"

lemma blocked_cont: "blocked s t \<Longrightarrow> cont (kls s) (St t) = Some 5 \<or> cont (kls s) (St t) = Some 6"
  by (auto simp: blocked_def xDelayedTaskList1_def xDelayedTaskList2_def)

lemma parked_not:
  assumes "sched_ok L T c s" "t \<in> T" "parked n s t"
  shows "\<not> ready s t" "t \<notin> dead T s"
  using ready_cont[OF sched_okD(1)[OF assms(1)] assms(2)] assms(3) blocked_cont[of s t]
  by (auto simp: parked_def dead_def xTasksWaitingTermination_def split: if_splits)

lemma park_forever:
  assumes ok: "sched_ok L T c s" and cur: "pxCurrentTCB s = Some t"
  obtains s' c' where "prvAddCurrentTaskToDelayedList portMAX_DELAY True s = Some s'" "sched_ok L T c' s'"
    "cont (kls s') = (cont (kls s))(St t := Some 9)" "s' = s\<lparr>kls := kls s'\<rparr>" "same_data (kls s) (kls s')"
proof -
  have t: "t \<in> T" using ok cur by (auto simp: sched_ok_def)
  obtain l K1 where 1: "cont (kls s) (St t) = Some l" "state_list l"
      "k_remove (St t) s = Some (s\<lparr>kls := K1\<rparr>)" "k_REMOVE (St t) s = Some (s\<lparr>kls := K1\<rparr>)"
      "base_ok L T {t} (c(l := remove1 (St t) (c l))) (s\<lparr>kls := K1\<rparr>)"
      "same_data (kls s) K1" "cont K1 = (cont (kls s))(St t := None)"
    by (rule base_remove_state[OF sched_okD(1)[OF ok] t])
  let ?s = "k_insert_end 9 (St t) (s\<lparr>kls := K1\<rparr>)"
  have l9: "(9 :: nat) = 8 \<or> (9 :: nat) = 9" by simp
  obtain zs where 2: "base_ok L T {} ((c(l := remove1 (St t) (c l)))(9 := zs)) ?s"
    "set zs = insert (St t) (set ((c(l := remove1 (St t) (c l))) 9))" "k_INSERT_END 9 (St t) (s\<lparr>kls := K1\<rparr>) = ?s"
    "?s = s\<lparr>kls := K1\<rparr>\<lparr>kls := kls ?s\<rparr>"
    "same_data (kls (s\<lparr>kls := K1\<rparr>)) (kls ?s)" "cont (kls ?s) = (cont (kls (s\<lparr>kls := K1\<rparr>)))(St t := Some 9)"
    by (rule base_insert_end_state[OF 1(5) t l9])
  define s' where "s' = s\<lparr>kls := kls ?s\<rparr>"
  have s': "?s = s'" using 2(4) by (simp add: s'_def)
  have c: "cont (kls s') = (cont (kls s))(St t := Some 9)" using 2(6) 1(7) by (auto simp: s'_def fun_eq_iff)
  have d: "same_data (kls s) (kls s')" using same_data_trans[OF 1(6)] 2(5) by (simp add: s'_def)
  then have "sched_ok L T ((c(l := remove1 (St t) (c l)))(9 := zs)) s'"
    by (rule relinked_ok[OF ok 2(1)[unfolded s'], of t]) (use c in \<open>auto simp: s'_def\<close>)
  moreover have "prvAddCurrentTaskToDelayedList portMAX_DELAY True s = Some s'"
    using cur 1(3) 2(3) s' by (simp add: prvAddCurrentTaskToDelayedList_def xSuspendedTaskList_def)
  ultimately show thesis using c d by (intro that[of s']) (simp_all add: s'_def)
qed

lemma park_current:
  assumes ok: "sched_ok L T c s" and cur: "pxCurrentTCB s = Some t" and n: "n \<noteq> 0"
  obtains s' c' where "prvAddCurrentTaskToDelayedList n True s = Some s'" "sched_ok L T c' s'" "parked n s' t"
    "same_rest s s'" "\<forall>i. i \<noteq> St t \<longrightarrow> cont (kls s') i = cont (kls s) i \<and> val (kls s') i = val (kls s) i"
proof -
  have "\<exists>s1 c1. prvAddCurrentTaskToDelayedList n True s = Some s1 \<and> sched_ok L T c1 s1 \<and> parked n s1 t \<and> same_rest s s1 \<and>
    (\<forall>i. i \<noteq> St t \<longrightarrow> cont (kls s1) i = cont (kls s) i \<and> val (kls s1) i = val (kls s) i)"
  proof (cases "n = portMAX_DELAY")
    case True
    obtain s1 c1 where "prvAddCurrentTaskToDelayedList portMAX_DELAY True s = Some s1" "sched_ok L T c1 s1"
      "cont (kls s1) = (cont (kls s))(St t := Some 9)" "s1 = s\<lparr>kls := kls s1\<rparr>" "same_data (kls s) (kls s1)"
      by (rule park_forever[OF ok cur])
    moreover from this(4) have "same_rest s s1" unfolding same_rest_def by (cases s; cases s1) simp
    ultimately show ?thesis using True by (auto simp: parked_def same_data_def)
  next
    case False
    then have f: "\<not> (n = portMAX_DELAY \<and> True)" by simp
    obtain s1 c1 where "prvAddCurrentTaskToDelayedList n True s = Some s1" "sched_ok L T c1 s1"
      "blocked s1 t" "remaining s1 t = unat n" "same_rest s s1"
      "\<forall>i. i \<noteq> St t \<longrightarrow> cont (kls s1) i = cont (kls s) i \<and> val (kls s1) i = val (kls s) i"
      by (rule add_to_delayed_spec[OF ok cur n f])
    then show ?thesis using False by (auto simp: parked_def)
  qed
  then show thesis using that by blast
qed

lemma park_spec:
  assumes sane: "sane idle L T s" and susp: "uxSchedulerSuspended s = 0"
    and cur: "pxCurrentTCB s = Some t" "t \<noteq> idle" and n: "n \<noteq> 0"
  obtains s' where "Option.bind (prvAddCurrentTaskToDelayedList n True s) portYIELD_WITHIN_API = Some s'"
    "sane idle L T s'" "keeps_tasks T s s'" "uxSchedulerSuspended s' = 0" "xPendedTicks s' = xPendedTicks s"
    "tcbs s' = tcbs s" "parked n s' t" "pxCurrentTCB s' \<noteq> Some t" "\<forall>u. cont (kls s') (Ev u) = cont (kls s) (Ev u)"
proof -
  obtain c where ok: "sched_ok L T c s" and t: "t \<in> T" "t \<notin> dead T s" and i: "idle \<in> T" "ready s idle"
    using sane cur(1) by (auto simp: sane_def running_ok_def)
  obtain s1 c1 where 1: "prvAddCurrentTaskToDelayedList n True s = Some s1" "sched_ok L T c1 s1" "parked n s1 t"
    "same_rest s s1" "\<forall>i. i \<noteq> St t \<longrightarrow> cont (kls s1) i = cont (kls s) i \<and> val (kls s1) i = val (kls s) i"
    by (rule park_current[OF ok cur(1) n])
  note f = same_rest_fields[OF 1(4)]
  have "keeps_dead T s s1"
    by (rule keeps_dead_moved[OF t(2)])
      (use 1(3,5) blocked_cont[of s1 t] in \<open>auto simp: parked_def split: if_splits\<close>)
  then have k: "keeps_tasks T s s1" using f by (simp add: keeps_tasks_def)
  have r: "ready s1 idle" using i(2) cur(2) 1(5) f(1) by (simp add: ready_def)
  obtain s2 cur' where y: "portYIELD_WITHIN_API s1 = Some s2" "vTaskSwitchContext s1 = Some s2" "sched_ok L T c1 s2"
    "quiet s1 s2" "pxCurrentTCB s2 = Some cur'"
    "if uxSchedulerSuspended s1 = 0 then top_task T s2 cur' else s2 = s1\<lparr>xYieldPending := True\<rparr>"
    by (rule yield_spec[OF 1(2) i(1) r])
  have "call_result idle L T s (portYIELD_WITHIN_API s1)"
    by (rule yield_result[OF sane 1(2) k r]) (simp add: f susp)
  then have s2: "sane idle L T s2" "keeps_tasks T s s2" using y(1) by (simp_all add: call_result_def)
  have p: "parked n s2 t" using 1(3) y(4) quiet_views[OF y(4)] by (simp add: parked_def quiet_def)
  have "top_task T s2 cur'" using y(6) f susp by simp
  then have "cur' \<noteq> t" using parked_not(1)[OF y(3) t(1) p] by (auto simp: top_task_def)
  with 1(1,5) y(1,4,5) s2 p f susp show thesis by (intro that[of s2]) (auto simp: quiet_def)
qed

text \<open>Ticks do not make a waiting task run before its time.\<close>

definition parked_for :: "TickType_t \<Rightarrow> nat \<Rightarrow> kernel \<Rightarrow> nat \<Rightarrow> bool" where
  "parked_for n m s t \<longleftrightarrow> (if n = portMAX_DELAY then cont (kls s) (St t) = Some 9 else blocked s t \<and> remaining s t = unat n - m)"

lemma parked_for_not:
  assumes "sched_ok L T c s" "t \<in> T" "parked_for n m s t"
  shows "\<not> ready s t" "t \<notin> dead T s"
  using ready_cont[OF sched_okD(1)[OF assms(1)] assms(2)] assms(3) blocked_cont[of s t]
  by (auto simp: parked_for_def dead_def xTasksWaitingTermination_def split: if_splits)

lemma parked_tick:
  assumes ok: "sched_ok L T c s" and p: "passes T 1 s s'" and t: "t \<in> T" and w: "parked_for n m s t"
    and m: "n = portMAX_DELAY \<or> Suc m < unat n"
  shows "parked_for n (Suc m) s' t"
proof (cases "n = portMAX_DELAY")
  case True
  then have c: "cont (kls s) (St t) = Some 9" using w by (simp add: parked_for_def)
  then have "\<not> blocked s t" using blocked_cont[of s t] by auto
  then have "t \<notin> expired T 1 s" by (simp add: expired_def)
  then show ?thesis using p c True by (simp add: passes_def parked_for_def)
next
  case False
  then have b: "blocked s t" "remaining s t = unat n - m" using w by (simp_all add: parked_for_def)
  show ?thesis using passes_task(1,2)[OF ok p t] b m False by (simp add: parked_for_def)
qed

lemma parked_ticks:
  assumes sane: "sane idle L T s" and susp: "uxSchedulerSuspended s = 0" and t: "t \<in> T" "parked n s t"
    and cur: "pxCurrentTCB s \<noteq> Some t" and m: "n = portMAX_DELAY \<or> m < unat n"
  shows "\<exists>s'. run_ticks m s = Some s' \<and> sane idle L T s' \<and> uxSchedulerSuspended s' = 0 \<and> tcbs s' = tcbs s \<and>
    parked_for n m s' t \<and> pxCurrentTCB s' \<noteq> Some t"
  using m
proof (induction m)
  case 0
  then show ?case using assms by (simp add: parked_def parked_for_def)
next
  case (Suc m)
  then have "n = portMAX_DELAY \<or> m < unat n" by auto
  from Suc.IH[OF this] obtain s1 where 1: "run_ticks m s = Some s1" "sane idle L T s1" "uxSchedulerSuspended s1 = 0"
    "tcbs s1 = tcbs s" "parked_for n m s1 t" "pxCurrentTCB s1 \<noteq> Some t"
    by blast
  obtain c cur where ok: "sched_ok L T c s1" "pxCurrentTCB s1 = Some cur" "idle \<in> T" "ready s1 idle"
    using 1(2) by (auto simp: sane_def running_ok_def)
  obtain s' c' cur' where k: "tick_isr s1 = Some s'" "sched_ok L T c' s'" "passes T 1 s1 s'" "uxSchedulerSuspended s' = 0"
    "pxCurrentTCB s' = Some cur'" "(\<exists>t\<in>expired T 1 s1. prio s1 t > prio s1 cur) \<longrightarrow> top_task T s' cur'"
    "top_task T s' cur' \<or> cur' = cur \<and> alert T cur s1 s' \<and> \<not> xYieldPending s1" "same_ctrl s1 s'"
    by (rule tick_isr_spec[OF ok(1) 1(3) ok(2-4)])
  have p: "parked_for n (Suc m) s' t" by (rule parked_tick[OF ok(1) k(3) t(1) 1(5) Suc.prems])
  have "pxCurrentTCB s' \<noteq> Some t" by (rule tick_keeps_off[OF 1(2,3,6) k(1) parked_for_not(1)[OF k(2) t(1) p]])
  moreover have "sane idle L T s'" using tick_call[OF 1(2)] k(1) by (auto simp: call_result_def)
  moreover have "run_ticks (Suc m) s = Some s'" using 1(1) k(1) by (simp add: run_ticks_last del: run_ticks.simps)
  moreover have "tcbs s' = tcbs s" using k(8) 1(4) by (simp add: same_ctrl_def)
  ultimately show ?case using k(4) p by simp
qed

text \<open>When its time is up, the task runs again if its priority is above all others.\<close>

lemma parked_times_out:
  assumes sane: "sane idle L T s" and susp: "uxSchedulerSuspended s = 0" and t: "t \<in> T" "parked n s t"
    and n: "n \<noteq> portMAX_DELAY" "n \<noteq> 0" and hi: "\<forall>u\<in>T. u \<noteq> t \<longrightarrow> prio s u < prio s t"
  shows "\<exists>s'. run_ticks (unat n) s = Some s' \<and> pxCurrentTCB s' = Some t \<and> sane idle L T s' \<and> tcbs s' = tcbs s \<and>
    xTickCount s' = xTickCount s + n"
proof -
  obtain c where ok: "sched_ok L T c s" "idle \<in> T" "ready s idle" using sane by (auto simp: sane_def)
  have b: "blocked s t" "remaining s t = unat n" using t(2) n(1) by (simp_all add: parked_def)
  obtain k where k: "unat n = Suc k" using n(2) by (metis unat_eq_0 not0_implies_Suc)
  obtain s2 where 2: "run_ticks k s = Some s2" "sane idle L T s2" "uxSchedulerSuspended s2 = 0" "tcbs s2 = tcbs s"
      "blocked s2 t" "remaining s2 t = 1"
    using wait_ticks[OF sane susp t(1) b(1), of k] b(2) k by auto
  obtain s3 where 3: "tick_isr s2 = Some s3" "pxCurrentTCB s3 = Some t"
    using wake_runs[OF 2(2,3) t(1) 2(5,6)] hi 2(4) by auto
  have r: "run_ticks (unat n) s = Some s3" using 2(1) 3(1) by (simp add: k run_ticks_last del: run_ticks.simps)
  have "sane idle L T s3 \<and> tcbs s3 = tcbs s" using wait_ticks[OF sane susp t(1) b(1), of "unat n"] r by auto
  moreover have "xTickCount s3 = xTickCount s + n" using run_ticks_overflows(1)[OF ok(1) susp ok(2,3) r] by simp
  ultimately show ?thesis using r 3(2) by blast
qed

subsection \<open>Notifying\<close>

definition notify_arrays :: "kernel \<Rightarrow> nat \<Rightarrow> bool" where
  "notify_arrays s t \<longleftrightarrow> length (ulNotifiedValue (tcbs s t)) = 3 \<and> length (ucNotifyState (tcbs s t)) = 3"

lemma notify_lookup:
  assumes "notify_arrays s t" "notify_index i"
  shows "notified (set_notified t i v s) t i = v" "notify_state (set_notify_state t i w s) t i = w"
    "notified (set_notify_state t i w s) t i = notified s t i" "notify_state (set_notified t i v s) t i = notify_state s t i"
    "notify_arrays (set_notified t i v s) t" "notify_arrays (set_notify_state t i w s) t"
  using assms
  by (simp_all add: notify_arrays_def configTASK_NOTIFICATION_ARRAY_ENTRIES_def set_notified_def set_notify_state_def)

lemma notify_spec:
  assumes "sane idle L T s" "t \<in> T" "t \<notin> dead T s" "notify_index i" "notify_arrays s t"
  shows "\<exists>s'. xTaskGenericNotify t i v a s =
      Some (\<not> (a = eSetValueWithoutOverwrite \<and> notify_state s t i = taskNOTIFICATION_RECEIVED), notified s t i, s') \<and>
    sane idle L T s' \<and> keeps_tasks T s s' \<and> notify_arrays s' t \<and> notify_state s' t i = taskNOTIFICATION_RECEIVED \<and>
    notified s' t i =
      (case a of eNoAction \<Rightarrow> notified s t i | eSetBits \<Rightarrow> notified s t i OR v | eIncrement \<Rightarrow> notified s t i + 1
       | eSetValueWithOverwrite \<Rightarrow> v
       | eSetValueWithoutOverwrite \<Rightarrow> if notify_state s t i = taskNOTIFICATION_RECEIVED then notified s t i else v) \<and>
    (\<forall>u. u \<noteq> t \<longrightarrow> tcbs s' u = tcbs s u \<and> cont (kls s') (St u) = cont (kls s) (St u)) \<and>
    (if notify_state s t i = taskWAITING_NOTIFICATION
     then ready s' t \<and> (uxSchedulerSuspended s = 0 \<and> pxCurrentTCB s \<noteq> Some t \<and>
         (\<forall>u\<in>T. u \<noteq> t \<and> (ready s u \<or> pxCurrentTCB s = Some u) \<longrightarrow> prio s u < prio s t) \<longrightarrow>
        pxCurrentTCB s' = Some t)
     else kls s' = kls s \<and> pxCurrentTCB s' = pxCurrentTCB s)"
proof -
  define st where "st = notify_state s t i"
  define old where "old = notified s t i"
  obtain r nv where nv: "notify_action a st v old = (r, nv)" by fastforce
  define s1 where "s1 = set_notified t i nv (set_notify_state t i taskNOTIFICATION_RECEIVED s)"
  have sane1: "sane idle L T s1" "keeps_tasks T s s1" "\<And>u. ready s1 u = ready s u"
    using assms(1) keeps_tasks_trans[OF sane_notify(4) sane_notify(3)] by (simp_all add: s1_def sane_notify)
  have f: "kls s1 = kls s" "pxCurrentTCB s1 = pxCurrentTCB s" "uxSchedulerSuspended s1 = uxSchedulerSuspended s"
    "\<And>u. prio s1 u = prio s u" "xYieldPending s1 = xYieldPending s"
    by (simp_all add: s1_def notify_simps)
  have a1: "notify_arrays s1 t" using notify_lookup(5)[OF notify_lookup(6)[OF assms(5,4)] assms(4)] by (simp add: s1_def)
  have arr: "notify_arrays s' t" if "tcbs s' = tcbs s1" for s' using a1 that by (simp add: notify_arrays_def)
  have v1: "notified s1 t i = nv" "notify_state s1 t i = taskNOTIFICATION_RECEIVED" "\<And>u. u \<noteq> t \<Longrightarrow> tcbs s1 u = tcbs s u"
    using notify_lookup[OF assms(5,4)] notify_lookup[OF notify_lookup(6)[OF assms(5,4)] assms(4)]
    by (simp_all add: s1_def) (simp add: set_notified_def set_notify_state_def)
  have r: "r = (\<not> (a = eSetValueWithoutOverwrite \<and> st = taskNOTIFICATION_RECEIVED))"
    and nv': "nv = (case a of eNoAction \<Rightarrow> old | eSetBits \<Rightarrow> old OR v | eIncrement \<Rightarrow> old + 1
       | eSetValueWithOverwrite \<Rightarrow> v | eSetValueWithoutOverwrite \<Rightarrow> if st = taskNOTIFICATION_RECEIVED then old else v)"
    using nv by (auto simp: notify_action_def split: eNotifyAction.splits if_splits)
  have e: "xTaskGenericNotify t i v a s =
      Option.bind (if st = taskWAITING_NOTIFICATION then notify_wake t s1 else Some s1) (\<lambda>s'. Some (r, old, s'))"
    using assms(4) nv unfolding xTaskGenericNotify_def Let_def st_def[symmetric] old_def[symmetric] notify_wake_def
    by (simp add: s1_def)
  show ?thesis
  proof (cases "st = taskWAITING_NOTIFICATION")
    case False
    then show ?thesis using e sane1(1,2) a1 f v1 by (cases a) (simp_all add: r nv' flip: st_def old_def)
  next
    case True
    obtain cur where cur: "pxCurrentTCB s1 = Some cur" "cur \<in> T" using sane1(1) by (auto simp: sane_def running_ok_def)
    have t1: "t \<notin> dead T s1" using assms(3) f(1) by (simp add: dead_def)
    obtain s' where w: "notify_wake t s1 = Some s'" "sane idle L T s'" "keeps_tasks T s1 s'" "tcbs s' = tcbs s1" "ready s' t"
      "\<forall>u. u \<noteq> t \<longrightarrow> cont (kls s') (St u) = cont (kls s1) (St u)"
      "if prio s1 cur < prio s1 t
       then if uxSchedulerSuspended s1 = 0 then \<exists>c. pxCurrentTCB s' = Some c \<and> top_task T s' c
          else pxCurrentTCB s' = Some cur \<and> xYieldPending s'
       else pxCurrentTCB s' = Some cur \<and> xYieldPending s' = xYieldPending s1"
      using notify_wake_spec[OF sane1(1) assms(2) t1 cur(1)] by blast
    have "pxCurrentTCB s' = Some t" if h: "uxSchedulerSuspended s = 0" "pxCurrentTCB s \<noteq> Some t"
      "\<forall>u\<in>T. u \<noteq> t \<and> (ready s u \<or> pxCurrentTCB s = Some u) \<longrightarrow> prio s u < prio s t"
    proof -
      have "cur \<noteq> t" using h(2) cur f by simp
      then have "prio s1 cur < prio s1 t" using h(3) cur f by simp
      then obtain c where c: "pxCurrentTCB s' = Some c" "c \<in> T" "ready s' c" "prio s' t \<le> prio s' c"
        using w(5,7) h(1) f(3) assms(2) by (auto simp: top_task_def)
      have "c = t"
      proof (rule ccontr)
        assume n: "c \<noteq> t"
        then have "ready s c" using c(3) w(4,6) sane1(3)[of c] by (simp add: ready_def)
        with n c(2) h(3) have "prio s c < prio s t" by blast
        with c(4) w(4) f(4) show False by simp
      qed
      with c(1) show ?thesis by simp
    qed
    then show ?thesis using True e w v1 f arr[OF w(4)] keeps_tasks_trans[OF sane1(2) w(3)] by (cases a) (simp_all add: r nv' flip: st_def old_def)
  qed
qed

text \<open>C13. A notification gets through: it leaves the notification value the action gives and the state
  received, refuses only to overwrite a value that has not been read, and returns the old value. A task
  that waits for it becomes ready, and runs at once if no other task of at least its priority is ready or running and the
  scheduler is not suspended. Nothing else changes.\<close>

theorem xTaskGenericNotify_delivers:
  assumes "sane idle L T s" "t \<in> T" "t \<notin> dead T s" "notify_index i" "notify_arrays s t"
  shows "\<exists>s'. xTaskGenericNotify t i v a s =
      Some (\<not> (a = eSetValueWithoutOverwrite \<and> notify_state s t i = taskNOTIFICATION_RECEIVED), notified s t i, s') \<and>
    sane idle L T s' \<and> notify_state s' t i = taskNOTIFICATION_RECEIVED \<and>
    notified s' t i =
      (case a of eNoAction \<Rightarrow> notified s t i | eSetBits \<Rightarrow> notified s t i OR v | eIncrement \<Rightarrow> notified s t i + 1
       | eSetValueWithOverwrite \<Rightarrow> v
       | eSetValueWithoutOverwrite \<Rightarrow> if notify_state s t i = taskNOTIFICATION_RECEIVED then notified s t i else v) \<and>
    (\<forall>u. u \<noteq> t \<longrightarrow> tcbs s' u = tcbs s u \<and> cont (kls s') (St u) = cont (kls s) (St u)) \<and>
    (if notify_state s t i = taskWAITING_NOTIFICATION
     then ready s' t \<and> (uxSchedulerSuspended s = 0 \<and> pxCurrentTCB s \<noteq> Some t \<and>
         (\<forall>u\<in>T. u \<noteq> t \<and> (ready s u \<or> pxCurrentTCB s = Some u) \<longrightarrow> prio s u < prio s t) \<longrightarrow>
        pxCurrentTCB s' = Some t)
     else kls s' = kls s \<and> pxCurrentTCB s' = pxCurrentTCB s)"
  using notify_spec[OF assms, of v a] by blast

subsection \<open>Waiting for a notification\<close>

lemma take_end:
  assumes "pxCurrentTCB s = Some t" "notify_index i" "notify_arrays s t"
  shows "\<exists>s'. ulTaskGenericNotifyTake_end i clr s = Some (notified s t i, s') \<and>
    notified s' t i = (if clr \<or> notified s t i = 0 then 0 else notified s t i - 1) \<and>
    notify_state s' t i = taskNOT_WAITING_NOTIFICATION"
  using assms notify_lookup[OF assms(3,2)] notify_lookup[OF notify_lookup(5)[OF assms(3,2)] assms(2)]
  by (auto simp: ulTaskGenericNotifyTake_end_def Let_def)

lemma take_block:
  assumes "pxCurrentTCB s = Some t" "notify_index i" "notified s t i = 0" "n > 0"
  shows "ulTaskGenericNotifyTake_block i n s =
    Option.bind (prvAddCurrentTaskToDelayedList n True (set_notify_state t i taskWAITING_NOTIFICATION s)) portYIELD_WITHIN_API"
  using assms by (simp add: ulTaskGenericNotifyTake_block_def Let_def)

text \<open>C7. A task that takes a notification when there is none sleeps until one is given, or until its
  time is up. Given at any time before that (at any time at all for \<^verbatim>\<open>portMAX_DELAY\<close>), the notification lets the task
  run at once if it has the highest priority, and the take returns 1 and leaves 0. Otherwise the take returns 0 exactly
  when the time is up.\<close>

theorem notify_take_handshake:
  assumes "sane idle L T s" "uxSchedulerSuspended s = 0" "pxCurrentTCB s = Some t" "t \<noteq> idle"
    "notify_index i" "notify_arrays s t" "notified s t i = 0" "n > 0" "\<forall>u\<in>T. u \<noteq> t \<longrightarrow> prio s u < prio s t"
  shows "\<exists>s1. ulTaskGenericNotifyTake_block i n s = Some s1 \<and>
    (\<forall>m. n = portMAX_DELAY \<or> m < unat n \<longrightarrow>
       (\<exists>s2 s3 s4. run_ticks m s1 = Some s2 \<and> pxCurrentTCB s2 \<noteq> Some t \<and>
          xTaskNotifyGiveIndexed t i s2 = Some (True, 0, s3) \<and> pxCurrentTCB s3 = Some t \<and>
          ulTaskGenericNotifyTake_end i clr s3 = Some (1, s4) \<and> notified s4 t i = 0)) \<and>
    (n \<noteq> portMAX_DELAY \<longrightarrow>
       (\<exists>s2 s4. run_ticks (unat n) s1 = Some s2 \<and> pxCurrentTCB s2 = Some t \<and>
          ulTaskGenericNotifyTake_end i clr s2 = Some (0, s4) \<and> notified s4 t i = 0))"
proof -
  let ?s = "set_notify_state t i taskWAITING_NOTIFICATION s"
  have n: "n \<noteq> 0" using assms(8) by auto
  have t: "t \<in> T" using assms(1,3) by (auto simp: sane_def running_ok_def)
  have s0: "sane idle L T ?s" "uxSchedulerSuspended ?s = 0" "pxCurrentTCB ?s = Some t"
    using assms(1-3) by (simp_all add: sane_notify notify_simps)
  obtain s1 where 1: "Option.bind (prvAddCurrentTaskToDelayedList n True ?s) portYIELD_WITHIN_API = Some s1"
    "sane idle L T s1" "keeps_tasks T ?s s1" "uxSchedulerSuspended s1 = 0" "xPendedTicks s1 = xPendedTicks ?s"
    "tcbs s1 = tcbs ?s" "parked n s1 t" "pxCurrentTCB s1 \<noteq> Some t" "\<forall>u. cont (kls s1) (Ev u) = cont (kls ?s) (Ev u)"
    by (rule park_spec[OF s0 assms(4) n])
  note look = notify_lookup[OF assms(6,5)]
  have v1: "notified s1 t i = 0" "notify_state s1 t i = taskWAITING_NOTIFICATION" "notify_arrays s1 t"
    "\<And>u. prio s1 u = prio s u"
    using look(2,3,6) assms(7) notify_simps(14) 1(6) by (simp_all add: notify_arrays_def notify_simps)
  have give: "\<exists>s3 s4. xTaskNotifyGiveIndexed t i s2 = Some (True, 0, s3) \<and> pxCurrentTCB s3 = Some t \<and>
      ulTaskGenericNotifyTake_end i clr s3 = Some (1, s4) \<and> notified s4 t i = 0"
    if 2: "sane idle L T s2" "uxSchedulerSuspended s2 = 0" "tcbs s2 = tcbs s1" "parked_for n m s2 t" "pxCurrentTCB s2 \<noteq> Some t" for s2 m
  proof -
    obtain c where "sched_ok L T c s2" using 2(1) by (auto simp: sane_def)
    then have nd: "t \<notin> dead T s2" by (rule parked_for_not(2)[OF _ t 2(4)])
    have a2: "notify_arrays s2 t" using v1(3) 2(3) by (simp add: notify_arrays_def)
    obtain s3 where 3: "xTaskNotifyGiveIndexed t i s2 = Some (True, 0, s3)" "notified s3 t i = 1" "pxCurrentTCB s3 = Some t"
      "sane idle L T s3" "notify_state s3 t i = taskNOTIFICATION_RECEIVED" "notify_arrays s3 t"
      using notify_spec[OF 2(1) t nd assms(5) a2, of 0 eIncrement] v1 2(2,3,5) assms(9)
      unfolding xTaskNotifyGiveIndexed_def by auto
    then show ?thesis using take_end[OF 3(3) assms(5) 3(6), of clr] by auto
  qed
  have timeout: "\<exists>s2 s4. run_ticks (unat n) s1 = Some s2 \<and> pxCurrentTCB s2 = Some t \<and>
      ulTaskGenericNotifyTake_end i clr s2 = Some (0, s4) \<and> notified s4 t i = 0" if fin: "n \<noteq> portMAX_DELAY"
  proof -
    obtain s3 where 3: "run_ticks (unat n) s1 = Some s3" "pxCurrentTCB s3 = Some t" "tcbs s3 = tcbs s1"
      using parked_times_out[OF 1(2,4) t 1(7) fin n] assms(9) v1(4) by auto
    moreover have "notify_arrays s3 t" "notified s3 t i = 0" using v1 3(3) by (simp_all add: notify_arrays_def)
    ultimately show ?thesis using take_end[OF 3(2) assms(5), of clr] 3(2) by auto
  qed
  have "\<exists>s2 s3 s4. run_ticks m s1 = Some s2 \<and> pxCurrentTCB s2 \<noteq> Some t \<and> xTaskNotifyGiveIndexed t i s2 = Some (True, 0, s3) \<and>
      pxCurrentTCB s3 = Some t \<and> ulTaskGenericNotifyTake_end i clr s3 = Some (1, s4) \<and> notified s4 t i = 0"
    if m: "n = portMAX_DELAY \<or> m < unat n" for m
    using parked_ticks[OF 1(2,4) t 1(7,8) m] give by blast
  moreover have "ulTaskGenericNotifyTake_block i n s = Some s1" using 1(1) take_block[OF assms(3,5,7,8)] by simp
  ultimately show ?thesis using timeout by blast
qed

subsection \<open>A task that is readied twice from interrupts\<close>

text \<open>What putting an item at the end of an empty list twice makes of the list: it points to itself.\<close>

definition snarled :: "list_store \<Rightarrow> nat \<Rightarrow> nat \<Rightarrow> UBaseType_t \<Rightarrow> list_store \<Rightarrow> bool" where
  "snarled K l i n K' \<longleftrightarrow> get_next K' (ListEnd l) = Item i \<and> get_next K' (Item i) = Item i \<and> get_prev K' (Item i) = Item i \<and>
     uxNumberOfItems (lists K' l) = n \<and> pxIndex (lists K' l) = ListEnd l \<and>
     (\<forall>p. p \<noteq> ListEnd l \<and> p \<noteq> Item i \<longrightarrow> get_next K' p = get_next K p \<and> get_prev K' p = get_prev K p) \<and>
     (\<forall>j. j \<noteq> i \<longrightarrow> cont K' j = cont K j) \<and> get_value K' = get_value K \<and> get_owner K' = get_owner K \<and>
     (\<forall>k. k \<noteq> l \<longrightarrow> uxNumberOfItems (lists K' k) = uxNumberOfItems (lists K k) \<and> pxIndex (lists K' k) = pxIndex (lists K k))"

lemma insert_twice:
  fixes i :: nat
  assumes "ring K l []"
  defines "K' \<equiv> listINSERT_END l i (listINSERT_END l i K)"
  shows "snarled K l i 2 K'" "cont K' i = Some l"
proof -
  have r: "get_next K (ListEnd l) = ListEnd l" "get_prev K (ListEnd l) = ListEnd l" "pxIndex (lists K l) = ListEnd l"
    "uxNumberOfItems (lists K l) = 0"
    using assms(1) by (simp_all add: ring_def)
  show "snarled K l i 2 K'" "cont K' i = Some l"
    unfolding snarled_def K'_def listINSERT_END_def Let_def cont_def
    by (auto simp: store_simps r fun_eq_iff)
qed

lemma snarled_remove:
  assumes "snarled K l i n K'" "cont K' i = Some l"
  shows "\<exists>K''. listREMOVE_ITEM i K' = Some K'' \<and> snarled K l i (n - 1) K'' \<and> cont K'' i = None"
  using assms unfolding snarled_def listREMOVE_ITEM_def Let_def cont_def
  by (auto simp: store_simps fun_eq_iff)

text \<open>Other rings do not notice, and what is done to them does not unsnarl the list.\<close>

lemma snarled_ring:
  assumes "snarled K l i n K'" "ring K k xs" "k \<noteq> l" "i \<notin> set xs"
  shows "ring K' k xs"
proof -
  have "ring K' k xs = ring K k xs"
    by (rule ring_cong) (use assms in \<open>auto simp: snarled_def cont_def\<close>)
  with assms(2) show ?thesis by simp
qed

definition stuck :: "nat \<Rightarrow> nat \<Rightarrow> list_store \<Rightarrow> bool" where
  "stuck l i K \<longleftrightarrow> get_next K (ListEnd l) = Item i \<and> cont K i = None \<and> uxNumberOfItems (lists K l) \<noteq> 0"

lemma stuck_remove:
  assumes "stuck l i K" "ring K k xs" "k \<noteq> l" "j \<in> set xs"
  obtains K' where "listREMOVE_ITEM j K = Some K'" "stuck l i K'" "removed k j K K'"
proof -
  obtain K' us vs where 1: "uxListRemove j K = Some (of_nat (length xs - 1), K')" "xs = us @ j # vs"
      "remove1 j xs = us @ vs" "removed k j K K'"
    by (rule uxListRemove_spec[OF assms(2,4)])
  have "get_prev K (Item j) = last (ListEnd k # map Item us)" using ring_neighbours(2)[of K k us "j # vs"] assms(2) 1(2) by simp
  then have "get_prev K (Item j) \<noteq> ListEnd l" using assms(3) by (auto simp: last_map)
  then have "stuck l i K'" using assms(1,3) 1(4) by (auto simp: stuck_def removed_def splice_out_def cont_def)
  then show thesis using that 1(1,4) by (simp add: listREMOVE_ITEM_eq)
qed

lemma stuck_insert:
  assumes "stuck l i K" "ring K k xs" "k \<noteq> l" "j \<notin> set xs" "j \<noteq> i"
  shows "stuck l i (listINSERT_END k j K)"
proof -
  obtain us vs where 1: "xs = us @ vs" "pxIndex (lists K k) = hd (map Item vs @ [ListEnd k])"
    "inserted k (last (ListEnd k # map Item us)) (hd (map Item vs @ [ListEnd k])) j K (vListInsertEnd k j K)"
    by (rule vListInsertEnd_spec[OF assms(2,4)])
  have "last (ListEnd k # map Item us) \<noteq> ListEnd l" using assms(3) by (auto simp: last_map)
  then show ?thesis using assms(1,3,5) 1(3)
    by (auto simp: stuck_def inserted_def splice_in_def cont_def listINSERT_END_eq)
qed

lemma stuck_pending:
  assumes "stuck 7 (Ev t) (kls s)" "owner (kls s) (Ev t) = t"
  shows "pending_loop moved s = None"
proof -
  have "listGET_OWNER_OF_HEAD_ENTRY 7 (kls s) = Some t"
    using assms by (simp add: listGET_OWNER_OF_HEAD_ENTRY_def stuck_def owner_def)
  moreover have "k_REMOVE (Ev t) s = None"
    using assms(1) by (simp add: k_REMOVE_def listREMOVE_ITEM_def stuck_def cont_def)
  ultimately show ?thesis
    using assms(1) by (subst pending_loop.simps) (simp add: stuck_def listLIST_IS_EMPTY_def xPendingReadyList_def)
qed

lemma snarled_pending:
  assumes ok: "lists_ok L c K0" "c 7 = []" "{..<10} \<subseteq> L" and K: "kls s = listINSERT_END 7 (Ev t) (listINSERT_END 7 (Ev t) K0)"
    and t: "cont K0 (St t) = Some 9" "cont K0 (Ev t) = None" "owner K0 (Ev t) = t" "unat (prio s t) < 5"
    and cur: "pxCurrentTCB s = Some cur"
  shows "pending_loop moved s = None"
proof -
  let ?p = "unat (prio s t)"
  have "7 \<in> L" using ok(3) by (rule subsetD) simp
  then have "ring K0 7 []" using lists_okD(1)[OF ok(1), of 7] ok(2) by simp
  note 1 = insert_twice[OF this, of "Ev t", folded K]
  have e: "\<not> listLIST_IS_EMPTY xPendingReadyList (kls s)" "listGET_OWNER_OF_HEAD_ENTRY xPendingReadyList (kls s) = Some t"
    using 1(1) t(3) by (simp_all add: snarled_def listLIST_IS_EMPTY_def listGET_OWNER_OF_HEAD_ENTRY_def xPendingReadyList_def owner_def)
  obtain K3 where 3: "listREMOVE_ITEM (Ev t) (kls s) = Some K3" "snarled K0 7 (Ev t) 1 K3" "cont K3 (Ev t) = None"
    using snarled_remove[OF 1] by auto
  have m: "9 \<in> L" "?p \<in> L" using ok(3) t(4) by auto
  have in9: "St t \<in> set (c 9)" using lists_okD(2)[OF ok(1)] t(1) by blast
  have nin: "Ev t \<notin> set (c k)" if "k \<in> L" for k using lists_okD(3)[OF ok(1), of "Ev t"] t(2) that by blast
  have r3: "ring K3 9 (c 9)" "ring K3 ?p (c ?p)"
    using snarled_ring[OF 3(2) lists_okD(1)[OF ok(1)]] nin m t(4) by auto
  have st3: "stuck 7 (Ev t) K3" using 3(2,3) by (simp add: stuck_def snarled_def)
  obtain K4 where 4: "listREMOVE_ITEM (St t) K3 = Some K4" "stuck 7 (Ev t) K4" "removed 9 (St t) K3 K4"
    by (rule stuck_remove[OF st3 r3(1) _ in9]) simp_all
  obtain us vs where uv: "c 9 = us @ St t # vs" using in9 by (meson split_list)
  have r4: "ring K4 ?p (c ?p)" by (rule removed_other_ring[OF r3(1)[unfolded uv] r3(2) _ 4(3)]) (use t(4) in simp)
  have np: "St t \<notin> set (c ?p)" using ring_disjoint[OF r3] in9 t(4) by auto
  have st5: "stuck 7 (Ev t) (listINSERT_END ?p (St t) K4)" by (rule stuck_insert[OF 4(2) r4 _ np]) (use t(4) in auto)
  have own: "owner (listINSERT_END ?p (St t) K4) (Ev t) = t"
  proof -
    have "owner K4 (Ev t) = t" using 4(3) 3(2) t(3) unfolding removed_def snarled_def owner_def
      by (metis get_owner.simps(1) option.inject)
    moreover have "get_owner (listINSERT_END ?p (St t) K4) (Item (Ev t)) = get_owner K4 (Item (Ev t))"
      by (simp add: listINSERT_END_def Let_def store_simps del: get_owner.simps)
    ultimately show ?thesis by (simp add: owner_def)
  qed
  have a: "kls (prvAddTaskToReadyList t (s\<lparr>kls := K4\<rparr>)) = listINSERT_END ?p (St t) K4"
    "pxCurrentTCB (prvAddTaskToReadyList t (s\<lparr>kls := K4\<rparr>)) = Some cur"
    by (simp_all add: prvAddTaskToReadyList_def taskRECORD_READY_PRIORITY_def k_INSERT_END_def pxReadyTasksLists_def cur)
  have n: "pending_loop m u = None" if "kls u = listINSERT_END ?p (St t) K4" for m u
    by (rule stuck_pending) (use that st5 own in simp_all)
  have k: "k_REMOVE (Ev t) s = Some (s\<lparr>kls := K3\<rparr>)" "k_REMOVE (St t) (s\<lparr>kls := K3\<rparr>) = Some (s\<lparr>kls := K4\<rparr>)"
    using 3(1) 4(1) by (simp_all add: k_REMOVE_def)
  show ?thesis
    by (subst pending_loop.simps) (simp add: e k a n Let_def)
qed

text \<open>C20. An interrupt that resumes a task and one that notifies it can together crash the kernel.
  \<^verbatim>\<open>xTaskResumeFromISR\<close> takes a task that blocks indefinitely on a notification for a suspended one. If
  that happens while the scheduler is suspended, the task goes on the list of pending tasks but still counts as waiting; a
  notification from an interrupt puts it there a second time, and \<^verbatim>\<open>xTaskResumeAll\<close> uses a null pointer.\<close>

theorem resume_then_give_crashes:
  assumes "sane idle L T s" "uxSchedulerSuspended s = 1" "t \<in> T" "cont (kls s) (St t) = Some xSuspendedTaskList"
    "cont (kls s) (Ev t) = None" "notify_index i" "notify_arrays s t" "notify_state s t i = taskWAITING_NOTIFICATION"
    "\<forall>u\<in>T. cont (kls s) (Ev u) \<noteq> Some xPendingReadyList"
  shows "\<exists>b s1 b' s2. xTaskResumeFromISR t s = Some (b, s1) \<and> vTaskGenericNotifyGiveFromISR t i s1 = Some (b', s2) \<and>
    xTaskResumeAll s2 = None"
proof -
  obtain c cur where ok: "sched_ok L T c s" "pxCurrentTCB s = Some cur" "uxCurrentNumberOfTasks s > 0"
    using assms(1) by (auto simp: sane_def running_ok_def)
  note base = sched_okD(1)[OF ok(1)]
  note lists = base_okD(1)[OF base]
  have L: "{..<10} \<subseteq> L" using base_okD(2)[OF base] by auto
  have c7: "c 7 = []"
  proof (rule ccontr)
    assume "c 7 \<noteq> []"
    then obtain x where "x \<in> set (c 7)" by (cases "c 7") auto
    then have x: "cont (kls s) x = Some 7" using lists_okD(2)[OF lists] L by auto
    have "\<not> state_list 7" by (simp add: state_list_def)
    from base_event_item[OF base x this] obtain u where "u \<in> T" "x = Ev u" .
    with x assms(9) show False by (simp add: xPendingReadyList_def)
  qed
  have t: "owner (kls s) (Ev t) = t" "unat (prio s t) < 5" using base_okD(3)[OF base] assms(3) by (auto simp: tasks_ok_def)
  have susp: "prvTaskIsTaskSuspended t s"
    using assms(4,5) by (simp add: prvTaskIsTaskSuspended_def lists_container)
  define s1 where "s1 = s\<lparr>kls := listINSERT_END 7 (Ev t) (kls s)\<rparr>"
  have 1: "xTaskResumeFromISR t s = Some (False, s1)"
    using susp assms(2) by (simp add: xTaskResumeFromISR_def k_insert_end_def s1_def xPendingReadyList_def listINSERT_END_eq)
  define u where "u = set_notified t i (notified s t i + 1) (set_notify_state t i taskNOTIFICATION_RECEIVED s1)"
  have "notify_state s1 t i = taskWAITING_NOTIFICATION" "notified s1 t i = notified s t i" "notify_arrays s1 t"
    using assms(7,8) by (simp_all add: s1_def notify_arrays_def)
  note w = this notify_lookup(3)[OF this(3) assms(6)]
  define s2 where "s2 = u\<lparr>kls := listINSERT_END 7 (Ev t) (kls s1), xYieldPending := (prio s t > prio s cur \<or> xYieldPending s)\<rparr>"
  have f: "kls u = kls s1" "uxSchedulerSuspended u = 1" "pxCurrentTCB u = Some cur" "\<And>v. prio u v = prio s v"
    "xYieldPending u = xYieldPending s"
    using assms(2) ok(2) by (simp_all add: u_def s1_def notify_simps)
  have 2: "vTaskGenericNotifyGiveFromISR t i s1 = Some (prio s t > prio s cur, s2)"
    using w assms(6) f
    by (simp add: vTaskGenericNotifyGiveFromISR_def notify_wake_FromISR_def Let_def u_def[symmetric] k_INSERT_END_def
        xPendingReadyList_def s2_def)
  have n: "uxCurrentNumberOfTasks s2 > 0"
    using ok(3) by (simp add: s2_def u_def s1_def set_notified_def set_notify_state_def)
  have "pending_loop None (s2\<lparr>uxSchedulerSuspended := 0\<rparr>) = None"
    by (rule snarled_pending[OF lists c7 L]) (use assms(4,5) t f in \<open>simp_all add: s2_def s1_def xSuspendedTaskList_def\<close>)
  then have 3: "xTaskResumeAll s2 = None"
    using n f by (simp add: xTaskResumeAll_def s2_def Let_def)
  show ?thesis using 1 2 3 by blast
qed

subsection \<open>Concrete instances\<close>

lemma demo_run_notify:
  "sane 0x30000218 {..10} {0x300004A0, 0x30000218} demo_run" "pxCurrentTCB demo_run = Some 0x300004A0"
  "uxSchedulerSuspended demo_run = 0" "xPendedTicks demo_run = 0"
  "notify_arrays demo_run 0x300004A0" "notified demo_run 0x300004A0 0 = 0" "notify_state demo_run 0x300004A0 0 = 0"
  "\<forall>u\<in>{0x300004A0, 0x30000218}. cont (kls demo_run) (Ev u) = None"
  "\<forall>u\<in>{0x300004A0, 0x30000218}. u \<noteq> 0x300004A0 \<longrightarrow> prio demo_run u < prio demo_run 0x300004A0"
proof -
  obtain c where d: "sane 0x30000218 {..10} {0x300004A0, 0x30000218} demo_run" "pxCurrentTCB demo_run = Some 0x300004A0"
    "uxSchedulerSuspended demo_run = 0" "prio demo_run 0x300004A0 = 2" "prio demo_run 0x30000218 = 0"
    "cont (kls demo_run) (Ev 0x300004A0) = None" "xPendedTicks demo_run = 0" "cont (kls demo_run) (Ev 0x30000218) = None"
    "ulNotifiedValue (tcbs demo_run 0x300004A0) = [0, 0, 0]" "ucNotifyState (tcbs demo_run 0x300004A0) = [0, 0, 0]"
    by (rule demo_run_ok)
  show "sane 0x30000218 {..10} {0x300004A0, 0x30000218} demo_run" "pxCurrentTCB demo_run = Some 0x300004A0"
  "uxSchedulerSuspended demo_run = 0" "xPendedTicks demo_run = 0"
  "notify_arrays demo_run 0x300004A0" "notified demo_run 0x300004A0 0 = 0" "notify_state demo_run 0x300004A0 0 = 0"
  "\<forall>u\<in>{0x300004A0, 0x30000218}. cont (kls demo_run) (Ev u) = None"
  "\<forall>u\<in>{0x300004A0, 0x30000218}. u \<noteq> 0x300004A0 \<longrightarrow> prio demo_run u < prio demo_run 0x300004A0"
    using d by (simp_all add: notify_arrays_def)
qed

lemma index_0: "notify_index 0"
  by (simp add: configTASK_NOTIFICATION_ARRAY_ENTRIES_def)

theorem notify_take_handshake_witness:
  "\<exists>s1 s2 s3 s4. ulTaskGenericNotifyTake_block 0 portMAX_DELAY demo_run = Some s1 \<and> run_ticks 1000 s1 = Some s2 \<and>
     xTaskNotifyGiveIndexed 0x300004A0 0 s2 = Some (True, 0, s3) \<and> ulTaskGenericNotifyTake_end 0 True s3 = Some (1, s4)"
proof -
  have n: "portMAX_DELAY > 0" by (simp add: portMAX_DELAY_def)
  show ?thesis
    using notify_take_handshake[OF demo_run_notify(1,3,2) _ index_0 demo_run_notify(5,6) n demo_run_notify(9), of True]
    by fastforce
qed

theorem xTaskGenericNotify_delivers_witness:
  "\<exists>s'. xTaskGenericNotify 0x300004A0 0 5 eSetBits demo_run = Some (True, 0, s') \<and> notified s' 0x300004A0 0 = 5"
proof -
  have nd: "0x300004A0 \<notin> dead {0x300004A0, 0x30000218} demo_run"
    using demo_run_notify(1,2) by (auto simp: sane_def running_ok_def)
  show ?thesis
    using xTaskGenericNotify_delivers[OF demo_run_notify(1) _ nd index_0 demo_run_notify(5), of 5 eSetBits]
      demo_run_notify(6) by fastforce
qed

theorem resume_then_give_crashes_witness:
  "\<exists>s b s1 b' s2. ulTaskGenericNotifyTake_block 0 portMAX_DELAY demo_run = Some s \<and>
     xTaskResumeFromISR 0x300004A0 (vTaskSuspendAll s) = Some (b, s1) \<and>
     vTaskGenericNotifyGiveFromISR 0x300004A0 0 s1 = Some (b', s2) \<and> xTaskResumeAll s2 = None"
proof -
  let ?T = "{0x300004A0, 0x30000218 :: nat}" and ?t = "0x300004A0 :: nat"
  let ?s = "set_notify_state ?t 0 taskWAITING_NOTIFICATION demo_run"
  have s0: "sane 0x30000218 {..10} ?T ?s" "uxSchedulerSuspended ?s = 0" "pxCurrentTCB ?s = Some ?t"
    using demo_run_notify(1-3) by (simp_all add: sane_notify notify_simps)
  have n: "portMAX_DELAY \<noteq> 0" by (simp add: portMAX_DELAY_def)
  obtain s1 where 1: "Option.bind (prvAddCurrentTaskToDelayedList portMAX_DELAY True ?s) portYIELD_WITHIN_API = Some s1"
    "sane 0x30000218 {..10} ?T s1" "keeps_tasks ?T ?s s1" "uxSchedulerSuspended s1 = 0" "xPendedTicks s1 = xPendedTicks ?s"
    "tcbs s1 = tcbs ?s" "parked portMAX_DELAY s1 ?t" "pxCurrentTCB s1 \<noteq> Some ?t"
    "\<forall>u. cont (kls s1) (Ev u) = cont (kls ?s) (Ev u)"
    by (rule park_spec[OF s0 _ n]) simp_all
  have n2: "portMAX_DELAY > 0" by (simp add: portMAX_DELAY_def)
  have b: "ulTaskGenericNotifyTake_block 0 portMAX_DELAY demo_run = Some s1"
    using take_block[OF demo_run_notify(2) index_0 demo_run_notify(6) n2] 1(1) by simp
  let ?u = "vTaskSuspendAll s1"
  have u: "kls ?u = kls s1" "tcbs ?u = tcbs ?s" "uxSchedulerSuspended ?u = 1" using 1(4,6) by (simp_all add: vTaskSuspendAll_def)
  have su: "sane 0x30000218 {..10} ?T ?u"
    using suspend_all_call[OF 1(2)] by (auto simp: call_result_def)
  have p: "?t \<in> ?T" "cont (kls ?u) (St ?t) = Some xSuspendedTaskList" "cont (kls ?u) (Ev ?t) = None"
    "notify_arrays ?u ?t" "notify_state ?u ?t 0 = taskWAITING_NOTIFICATION"
    "\<forall>v\<in>?T. cont (kls ?u) (Ev v) \<noteq> Some xPendingReadyList"
    using 1(7,9) demo_run_notify(8) notify_lookup(2,6)[OF demo_run_notify(5) index_0, of taskWAITING_NOTIFICATION]
    by (simp_all add: u parked_def xSuspendedTaskList_def notify_arrays_def notify_simps)
  from resume_then_give_crashes[OF su u(3) p(1-3) index_0 p(4-6)] b show ?thesis by blast
qed

end
