(* ===== verification/Queue.thy ===== *)
theory Queue
  imports Scheduler
begin

section \<open>Queues and semaphores (queue.c)\<close>

text \<open>
  \<^verbatim>\<open>src/FreeRTOS-Kernel/queue.c\<close> as the board configures it: no mutexes, queue sets, static
  allocation, tracing or co-routines. A queue is named by the address of its control block, which
  \<^verbatim>\<open>pvPortMalloc\<close> returns; the items lie behind it in the byte memory of the kernel's heap.
  Its two event lists are named by their addresses. An item that is sent is the memory at
  \<^verbatim>\<open>pvItemToQueue\<close>, an item that is received is the list of the bytes copied.

  The functions that can block are loops; their iterations are modelled in the parts between which
  the interrupts are enabled: the attempt (\<open>_try\<close>), locking the queue with the scheduler
  suspended (\<open>queue_suspend\<close>), and from there to the end of the iteration (\<open>_wait\<close>).
\<close>

subsection \<open>Data\<close>

datatype queue_position = queueSEND_TO_BACK | queueSEND_TO_FRONT | queueOVERWRITE

record Queue_t =
  pcHead :: u32_t
  pcWriteTo :: u32_t
  pcTail :: u32_t
  pcReadFrom :: u32_t
  uxMessagesWaiting :: UBaseType_t
  uxLength :: UBaseType_t
  uxItemSize :: UBaseType_t
  cRxLock :: "8 word"
  cTxLock :: "8 word"

definition sizeof_Queue_t :: nat where "sizeof_Queue_t = 72"

definition queueUNLOCKED :: "8 word" where "queueUNLOCKED = - 1"
definition queueLOCKED_UNMODIFIED :: "8 word" where "queueLOCKED_UNMODIFIED = 0"

text \<open>The addresses of the two lists in the control block.\<close>

definition xTasksWaitingToSend :: "nat \<Rightarrow> nat" where "xTasksWaitingToSend q = q + 16"
definition xTasksWaitingToReceive :: "nat \<Rightarrow> nat" where "xTasksWaitingToReceive q = q + 36"

record queue_registry_item =
  pcQueueName :: nat
  xHandle :: nat

definition configQUEUE_REGISTRY_SIZE :: nat where "configQUEUE_REGISTRY_SIZE = 10"

record qsys =
  kern :: kernel
  queues :: "nat \<Rightarrow> Queue_t"
  xQueueRegistry :: "queue_registry_item list"

subsection \<open>Copying items\<close>

definition mem_store :: "nat \<Rightarrow> (nat \<Rightarrow> u8_t) \<Rightarrow> nat \<Rightarrow> bytes \<Rightarrow> bytes" where
  "mem_store a item n m = (\<lambda>x. if a \<le> x \<and> x < a + n then item (x - a) else m x)"

definition mem_load :: "bytes \<Rightarrow> nat \<Rightarrow> nat \<Rightarrow> u8_t list" where
  "mem_load m a n = map (\<lambda>i. m (a + i)) [0..<n]"

definition prvCopyDataToQueue :: "(nat \<Rightarrow> u8_t) \<Rightarrow> queue_position \<Rightarrow> Queue_t \<Rightarrow> bytes \<Rightarrow> Queue_t \<times> bytes" where
  "prvCopyDataToQueue item xPosition q m =
     (let n = uxMessagesWaiting q;
          (n, q, m) =
            (if uxItemSize q = 0 then (n, q, m)
             else if xPosition = queueSEND_TO_BACK
             then (let m = mem_store (unat (pcWriteTo q)) item (unat (uxItemSize q)) m;
                       q = q\<lparr>pcWriteTo := pcWriteTo q + uxItemSize q\<rparr>;
                       q = (if pcWriteTo q \<ge> pcTail q then q\<lparr>pcWriteTo := pcHead q\<rparr> else q)
                   in (n, q, m))
             else (let m = mem_store (unat (pcReadFrom q)) item (unat (uxItemSize q)) m;
                       q = q\<lparr>pcReadFrom := pcReadFrom q - uxItemSize q\<rparr>;
                       q = (if pcReadFrom q < pcHead q then q\<lparr>pcReadFrom := pcTail q - uxItemSize q\<rparr> else q);
                       n = (if xPosition = queueOVERWRITE then if n > 0 then n - 1 else n else n)
                   in (n, q, m)))
      in (q\<lparr>uxMessagesWaiting := n + 1\<rparr>, m))"

definition prvCopyDataFromQueue :: "Queue_t \<Rightarrow> bytes \<Rightarrow> Queue_t \<times> u8_t list" where
  "prvCopyDataFromQueue q m =
     (if uxItemSize q \<noteq> 0
      then (let q = q\<lparr>pcReadFrom := pcReadFrom q + uxItemSize q\<rparr>;
                q = (if pcReadFrom q \<ge> pcTail q then q\<lparr>pcReadFrom := pcHead q\<rparr> else q)
            in (q, mem_load m (unat (pcReadFrom q)) (unat (uxItemSize q))))
      else (q, []))"

definition prvIsQueueEmpty :: "Queue_t \<Rightarrow> bool" where
  "prvIsQueueEmpty q \<longleftrightarrow> (if uxMessagesWaiting q = 0 then True else False)"

definition prvIsQueueFull :: "Queue_t \<Rightarrow> bool" where
  "prvIsQueueFull q \<longleftrightarrow> (if uxMessagesWaiting q = uxLength q then True else False)"

subsection \<open>The system state\<close>

definition kmem :: "qsys \<Rightarrow> bytes" where
  "kmem s = hmem (kheap (kern s))"

definition set_kmem :: "bytes \<Rightarrow> qsys \<Rightarrow> qsys" where
  "set_kmem m s = s\<lparr>kern := (kern s)\<lparr>kheap := (kheap (kern s))\<lparr>hmem := m\<rparr>\<rparr>\<rparr>"

definition upd_queue :: "nat \<Rightarrow> (Queue_t \<Rightarrow> Queue_t) \<Rightarrow> qsys \<Rightarrow> qsys" where
  "upd_queue q f s = s\<lparr>queues := (queues s)(q := f (queues s q))\<rparr>"

definition copy_in :: "nat \<Rightarrow> (nat \<Rightarrow> u8_t) \<Rightarrow> queue_position \<Rightarrow> qsys \<Rightarrow> qsys" where
  "copy_in q item pos s =
     (case prvCopyDataToQueue item pos (queues s q) (kmem s) of (r, m) \<Rightarrow> set_kmem m (upd_queue q (\<lambda>_. r) s))"

definition copy_out :: "nat \<Rightarrow> qsys \<Rightarrow> u8_t list \<times> qsys" where
  "copy_out q s = (case prvCopyDataFromQueue (queues s q) (kmem s) of (r, bs) \<Rightarrow> (bs, upd_queue q (\<lambda>_. r) s))"

definition on_kernel :: "(kernel \<Rightarrow> kernel option) \<Rightarrow> qsys \<Rightarrow> qsys option" where
  "on_kernel f s = map_option (\<lambda>k. s\<lparr>kern := k\<rparr>) (f (kern s))"

text \<open>Waking the first task of an event list, as the operations do it from a task and from an interrupt
  handler.\<close>

definition wake_and_yield :: "nat \<Rightarrow> kernel \<Rightarrow> kernel option" where
  "wake_and_yield l k =
     (if \<not> listLIST_IS_EMPTY l (kls k)
      then do {
        (b, k) \<leftarrow> xTaskRemoveFromEventList l k;
        if b then portYIELD_WITHIN_API k else Some k
      }
      else Some k)"

definition wake_FromISR :: "nat \<Rightarrow> kernel \<Rightarrow> (bool \<times> kernel) option" where
  "wake_FromISR l k = (if \<not> listLIST_IS_EMPTY l (kls k) then xTaskRemoveFromEventList l k else Some (False, k))"

subsection \<open>Creating and deleting queues\<close>

definition xQueueGenericReset :: "nat \<Rightarrow> bool \<Rightarrow> qsys \<Rightarrow> (bool \<times> qsys) option" where
  "xQueueGenericReset xQueue xNewQueue s =
     (let q = queues s xQueue
      in if xQueue \<noteq> 0 \<and> uxLength q \<ge> 1 \<and> 0xffffffff div uxLength q \<ge> uxItemSize q
         then do {
           let q = q\<lparr>pcTail := pcHead q + uxLength q * uxItemSize q\<rparr>;
           let q = q\<lparr>uxMessagesWaiting := 0\<rparr>;
           let q = q\<lparr>pcWriteTo := pcHead q\<rparr>;
           let q = q\<lparr>pcReadFrom := pcHead q + (uxLength q - 1) * uxItemSize q\<rparr>;
           let q = q\<lparr>cRxLock := queueUNLOCKED\<rparr>;
           let q = q\<lparr>cTxLock := queueUNLOCKED\<rparr>;
           let s = upd_queue xQueue (\<lambda>_. q) s;
           s \<leftarrow> (if \<not> xNewQueue then on_kernel (wake_and_yield (xTasksWaitingToSend xQueue)) s
                else (let k = kern s;
                          k = k\<lparr>kls := vListInitialise (xTasksWaitingToSend xQueue) (kls k)\<rparr>;
                          k = k\<lparr>kls := vListInitialise (xTasksWaitingToReceive xQueue) (kls k)\<rparr>
                      in Some (s\<lparr>kern := k\<rparr>)));
           Some (True, s)
         }
         else Some (False, s))"

definition prvInitialiseNewQueue :: "UBaseType_t \<Rightarrow> UBaseType_t \<Rightarrow> nat \<Rightarrow> nat \<Rightarrow> qsys \<Rightarrow> qsys option" where
  "prvInitialiseNewQueue uxQueueLength uxSize pucQueueStorage pxNewQueue s = do {
     let s = upd_queue pxNewQueue (\<lambda>q. q\<lparr>pcHead := of_nat (if uxSize = 0 then pxNewQueue else pucQueueStorage)\<rparr>) s;
     let s = upd_queue pxNewQueue (\<lambda>q. q\<lparr>uxLength := uxQueueLength\<rparr>) s;
     let s = upd_queue pxNewQueue (\<lambda>q. q\<lparr>uxItemSize := uxSize\<rparr>) s;
     (_, s) \<leftarrow> xQueueGenericReset pxNewQueue True s;
     Some s
   }"

text \<open>The result is the handle, 0 for \<^verbatim>\<open>NULL\<close>.\<close>

definition xQueueGenericCreate :: "UBaseType_t \<Rightarrow> UBaseType_t \<Rightarrow> qsys \<Rightarrow> (nat \<times> qsys) option" where
  "xQueueGenericCreate uxQueueLength uxSize s =
     (if uxQueueLength > 0 \<and> 0xffffffff div uxQueueLength \<ge> uxSize \<and>
         0xffffffff - of_nat sizeof_Queue_t \<ge> uxQueueLength * uxSize
      then do {
        let bytes = uxQueueLength * uxSize;
        (p, h) \<leftarrow> pvPortMalloc (unat (of_nat sizeof_Queue_t + bytes)) (kheap (kern s));
        let s = s\<lparr>kern := (kern s)\<lparr>kheap := h\<rparr>\<rparr>;
        if p \<noteq> 0
        then do { s \<leftarrow> prvInitialiseNewQueue uxQueueLength uxSize (p + sizeof_Queue_t) p s; Some (p, s) }
        else Some (0, s)
      }
      else Some (0, s))"

subsection \<open>Locking\<close>

definition prvLockQueue :: "nat \<Rightarrow> qsys \<Rightarrow> qsys" where
  "prvLockQueue q s =
     (let s = upd_queue q (\<lambda>r. if cRxLock r = queueUNLOCKED then r\<lparr>cRxLock := queueLOCKED_UNMODIFIED\<rparr> else r) s
      in upd_queue q (\<lambda>r. if cTxLock r = queueUNLOCKED then r\<lparr>cTxLock := queueLOCKED_UNMODIFIED\<rparr> else r) s)"

definition prvIncrementQueueTxLock :: "nat \<Rightarrow> 8 word \<Rightarrow> qsys \<Rightarrow> qsys" where
  "prvIncrementQueueTxLock q c s =
     (if (scast c :: UBaseType_t) < uxTaskGetNumberOfTasks (kern s) then upd_queue q (\<lambda>r. r\<lparr>cTxLock := c + 1\<rparr>) s else s)"

definition prvIncrementQueueRxLock :: "nat \<Rightarrow> 8 word \<Rightarrow> qsys \<Rightarrow> qsys" where
  "prvIncrementQueueRxLock q c s =
     (if (scast c :: UBaseType_t) < uxTaskGetNumberOfTasks (kern s) then upd_queue q (\<lambda>r. r\<lparr>cRxLock := c + 1\<rparr>) s else s)"

text \<open>The loops of \<^verbatim>\<open>prvUnlockQueue\<close>: at most as many tasks are woken as the lock counted.\<close>

primrec unlock_loop :: "nat \<Rightarrow> nat \<Rightarrow> kernel \<Rightarrow> kernel option" where
  "unlock_loop l 0 k = Some k"
| "unlock_loop l (Suc n) k =
     (if \<not> listLIST_IS_EMPTY l (kls k)
      then do {
        (b, k) \<leftarrow> xTaskRemoveFromEventList l k;
        unlock_loop l n (if b then vTaskMissedYield k else k)
      }
      else Some k)"

definition prvUnlockQueue :: "nat \<Rightarrow> qsys \<Rightarrow> qsys option" where
  "prvUnlockQueue q s = do {
     s \<leftarrow> on_kernel (unlock_loop (xTasksWaitingToReceive q) (nat (sint (cTxLock (queues s q))))) s;
     let s = upd_queue q (\<lambda>r. r\<lparr>cTxLock := queueUNLOCKED\<rparr>) s;
     s \<leftarrow> on_kernel (unlock_loop (xTasksWaitingToSend q) (nat (sint (cRxLock (queues s q))))) s;
     Some (upd_queue q (\<lambda>r. r\<lparr>cRxLock := queueUNLOCKED\<rparr>) s)
   }"

subsection \<open>Sending\<close>

text \<open>An attempt ends the call with a result, or goes on to wait with the time-out state.\<close>

datatype 'a attempt = Return 'a | Wait TimeOut_t

definition enter_timeout :: "TimeOut_t option \<Rightarrow> qsys \<Rightarrow> TimeOut_t" where
  "enter_timeout xTimeOut s = (case xTimeOut of None \<Rightarrow> vTaskInternalSetTimeOutState (kern s) | Some t \<Rightarrow> t)"

definition xQueueGenericSend_try ::
    "nat \<Rightarrow> (nat \<Rightarrow> u8_t) \<Rightarrow> TickType_t \<Rightarrow> queue_position \<Rightarrow> TimeOut_t option \<Rightarrow> qsys \<Rightarrow> (bool attempt \<times> qsys) option" where
  "xQueueGenericSend_try xQueue item xTicksToWait xCopyPosition xTimeOut s =
     (if uxMessagesWaiting (queues s xQueue) < uxLength (queues s xQueue) \<or> xCopyPosition = queueOVERWRITE
      then do {
        let s = copy_in xQueue item xCopyPosition s;
        s \<leftarrow> on_kernel (wake_and_yield (xTasksWaitingToReceive xQueue)) s;
        Some (Return True, s)
      }
      else if xTicksToWait = 0 then Some (Return False, s)
      else Some (Wait (enter_timeout xTimeOut s), s))"

definition queue_suspend :: "nat \<Rightarrow> qsys \<Rightarrow> qsys" where
  "queue_suspend q s = prvLockQueue q (s\<lparr>kern := vTaskSuspendAll (kern s)\<rparr>)"

definition queue_resume :: "nat \<Rightarrow> qsys \<Rightarrow> qsys option" where
  "queue_resume q s = do {
     s \<leftarrow> prvUnlockQueue q s;
     on_kernel (\<lambda>k. map_option snd (xTaskResumeAll k)) s
   }"

text \<open>Blocking on an event list: the end of the iteration is a yield, unless resuming the scheduler yielded.\<close>

definition queue_block :: "nat \<Rightarrow> nat \<Rightarrow> TickType_t \<Rightarrow> qsys \<Rightarrow> qsys option" where
  "queue_block q l xTicksToWait s = do {
     s \<leftarrow> on_kernel (vTaskPlaceOnEventList l xTicksToWait) s;
     s \<leftarrow> prvUnlockQueue q s;
     on_kernel resume_and_yield s
   }"

text \<open>\<open>None\<close> in the result ends the call with \<^verbatim>\<open>errQUEUE_FULL\<close>, otherwise the loop goes on with the
  time-out state and the ticks that are left.\<close>

definition xQueueGenericSend_wait ::
    "nat \<Rightarrow> TickType_t \<Rightarrow> TimeOut_t \<Rightarrow> qsys \<Rightarrow> ((TimeOut_t \<times> TickType_t) option \<times> qsys) option" where
  "xQueueGenericSend_wait xQueue xTicksToWait xTimeOut s =
     (case xTaskCheckForTimeOut xTimeOut xTicksToWait (kern s) of (timed_out, xTimeOut, xTicksToWait) \<Rightarrow>
        if \<not> timed_out
        then if prvIsQueueFull (queues s xQueue)
             then do {
               s \<leftarrow> queue_block xQueue (xTasksWaitingToSend xQueue) xTicksToWait s;
               Some (Some (xTimeOut, xTicksToWait), s)
             }
             else do { s \<leftarrow> queue_resume xQueue s; Some (Some (xTimeOut, xTicksToWait), s) }
        else do { s \<leftarrow> queue_resume xQueue s; Some (None, s) })"

text \<open>The result holds the return value and \<^verbatim>\<open>*pxHigherPriorityTaskWoken\<close>.\<close>

definition xQueueGenericSendFromISR ::
    "nat \<Rightarrow> (nat \<Rightarrow> u8_t) \<Rightarrow> queue_position \<Rightarrow> qsys \<Rightarrow> (bool \<times> bool \<times> qsys) option" where
  "xQueueGenericSendFromISR xQueue item xCopyPosition s =
     (if uxMessagesWaiting (queues s xQueue) < uxLength (queues s xQueue) \<or> xCopyPosition = queueOVERWRITE
      then do {
        let c = cTxLock (queues s xQueue);
        let s = copy_in xQueue item xCopyPosition s;
        if c = queueUNLOCKED
        then do {
          (woken, k) \<leftarrow> wake_FromISR (xTasksWaitingToReceive xQueue) (kern s);
          Some (True, woken, s\<lparr>kern := k\<rparr>)
        }
        else Some (True, False, prvIncrementQueueTxLock xQueue c s)
      }
      else Some (False, False, s))"

definition xQueueGiveFromISR :: "nat \<Rightarrow> qsys \<Rightarrow> (bool \<times> bool \<times> qsys) option" where
  "xQueueGiveFromISR xQueue s =
     (let n = uxMessagesWaiting (queues s xQueue)
      in if n < uxLength (queues s xQueue)
         then do {
           let c = cTxLock (queues s xQueue);
           let s = upd_queue xQueue (\<lambda>r. r\<lparr>uxMessagesWaiting := n + 1\<rparr>) s;
           if c = queueUNLOCKED
           then do {
             (woken, k) \<leftarrow> wake_FromISR (xTasksWaitingToReceive xQueue) (kern s);
             Some (True, woken, s\<lparr>kern := k\<rparr>)
           }
           else Some (True, False, prvIncrementQueueTxLock xQueue c s)
         }
         else Some (False, False, s))"

subsection \<open>Receiving\<close>

definition xQueueReceive_try ::
    "nat \<Rightarrow> TickType_t \<Rightarrow> TimeOut_t option \<Rightarrow> qsys \<Rightarrow> (u8_t list option attempt \<times> qsys) option" where
  "xQueueReceive_try xQueue xTicksToWait xTimeOut s =
     (let n = uxMessagesWaiting (queues s xQueue)
      in if n > 0
         then do {
           let (bs, s) = copy_out xQueue s;
           let s = upd_queue xQueue (\<lambda>r. r\<lparr>uxMessagesWaiting := n - 1\<rparr>) s;
           s \<leftarrow> on_kernel (wake_and_yield (xTasksWaitingToSend xQueue)) s;
           Some (Return (Some bs), s)
         }
         else if xTicksToWait = 0 then Some (Return None, s)
         else Some (Wait (enter_timeout xTimeOut s), s))"

text \<open>The waiting part of receiving, peeking and taking a semaphore. After a time-out the call ends
  only if the queue is still empty.\<close>

definition xQueueReceive_wait ::
    "nat \<Rightarrow> TickType_t \<Rightarrow> TimeOut_t \<Rightarrow> qsys \<Rightarrow> ((TimeOut_t \<times> TickType_t) option \<times> qsys) option" where
  "xQueueReceive_wait xQueue xTicksToWait xTimeOut s =
     (case xTaskCheckForTimeOut xTimeOut xTicksToWait (kern s) of (timed_out, xTimeOut, xTicksToWait) \<Rightarrow>
        if \<not> timed_out
        then if prvIsQueueEmpty (queues s xQueue)
             then do {
               s \<leftarrow> queue_block xQueue (xTasksWaitingToReceive xQueue) xTicksToWait s;
               Some (Some (xTimeOut, xTicksToWait), s)
             }
             else do { s \<leftarrow> queue_resume xQueue s; Some (Some (xTimeOut, xTicksToWait), s) }
        else do {
          s \<leftarrow> queue_resume xQueue s;
          Some (if prvIsQueueEmpty (queues s xQueue) then None else Some (xTimeOut, xTicksToWait), s)
        })"

definition xQueueSemaphoreTake_try ::
    "nat \<Rightarrow> TickType_t \<Rightarrow> TimeOut_t option \<Rightarrow> qsys \<Rightarrow> (bool attempt \<times> qsys) option" where
  "xQueueSemaphoreTake_try xQueue xTicksToWait xTimeOut s =
     (let n = uxMessagesWaiting (queues s xQueue)
      in if n > 0
         then do {
           let s = upd_queue xQueue (\<lambda>r. r\<lparr>uxMessagesWaiting := n - 1\<rparr>) s;
           s \<leftarrow> on_kernel (wake_and_yield (xTasksWaitingToSend xQueue)) s;
           Some (Return True, s)
         }
         else if xTicksToWait = 0 then Some (Return False, s)
         else Some (Wait (enter_timeout xTimeOut s), s))"

definition xQueuePeek_try ::
    "nat \<Rightarrow> TickType_t \<Rightarrow> TimeOut_t option \<Rightarrow> qsys \<Rightarrow> (u8_t list option attempt \<times> qsys) option" where
  "xQueuePeek_try xQueue xTicksToWait xTimeOut s =
     (if uxMessagesWaiting (queues s xQueue) > 0
      then do {
        let pcOriginalReadPosition = pcReadFrom (queues s xQueue);
        let (bs, s) = copy_out xQueue s;
        let s = upd_queue xQueue (\<lambda>r. r\<lparr>pcReadFrom := pcOriginalReadPosition\<rparr>) s;
        s \<leftarrow> on_kernel (wake_and_yield (xTasksWaitingToReceive xQueue)) s;
        Some (Return (Some bs), s)
      }
      else if xTicksToWait = 0 then Some (Return None, s)
      else Some (Wait (enter_timeout xTimeOut s), s))"

definition xQueueReceiveFromISR :: "nat \<Rightarrow> qsys \<Rightarrow> (u8_t list option \<times> bool \<times> qsys) option" where
  "xQueueReceiveFromISR xQueue s =
     (let n = uxMessagesWaiting (queues s xQueue)
      in if n > 0
         then do {
           let c = cRxLock (queues s xQueue);
           let (bs, s) = copy_out xQueue s;
           let s = upd_queue xQueue (\<lambda>r. r\<lparr>uxMessagesWaiting := n - 1\<rparr>) s;
           if c = queueUNLOCKED
           then do {
             (woken, k) \<leftarrow> wake_FromISR (xTasksWaitingToSend xQueue) (kern s);
             Some (Some bs, woken, s\<lparr>kern := k\<rparr>)
           }
           else Some (Some bs, False, prvIncrementQueueRxLock xQueue c s)
         }
         else Some (None, False, s))"

definition xQueuePeekFromISR :: "nat \<Rightarrow> qsys \<Rightarrow> u8_t list option \<times> qsys" where
  "xQueuePeekFromISR xQueue s =
     (if uxMessagesWaiting (queues s xQueue) > 0
      then (let pcOriginalReadPosition = pcReadFrom (queues s xQueue);
                (bs, s) = copy_out xQueue s;
                s = upd_queue xQueue (\<lambda>r. r\<lparr>pcReadFrom := pcOriginalReadPosition\<rparr>) s
            in (Some bs, s))
      else (None, s))"

subsection \<open>Queries\<close>

definition uxQueueMessagesWaiting :: "nat \<Rightarrow> qsys \<Rightarrow> UBaseType_t" where
  "uxQueueMessagesWaiting xQueue s = uxMessagesWaiting (queues s xQueue)"

definition uxQueueSpacesAvailable :: "nat \<Rightarrow> qsys \<Rightarrow> UBaseType_t" where
  "uxQueueSpacesAvailable xQueue s = uxLength (queues s xQueue) - uxMessagesWaiting (queues s xQueue)"

definition uxQueueMessagesWaitingFromISR :: "nat \<Rightarrow> qsys \<Rightarrow> UBaseType_t" where
  "uxQueueMessagesWaitingFromISR xQueue s = uxMessagesWaiting (queues s xQueue)"

definition xQueueIsQueueEmptyFromISR :: "nat \<Rightarrow> qsys \<Rightarrow> bool" where
  "xQueueIsQueueEmptyFromISR xQueue s \<longleftrightarrow> (if uxMessagesWaiting (queues s xQueue) = 0 then True else False)"

definition xQueueIsQueueFullFromISR :: "nat \<Rightarrow> qsys \<Rightarrow> bool" where
  "xQueueIsQueueFullFromISR xQueue s \<longleftrightarrow>
     (if uxMessagesWaiting (queues s xQueue) = uxLength (queues s xQueue) then True else False)"

subsection \<open>The registry\<close>

text \<open>The loops search the entries from index \<open>ux\<close> on; a name is the address of a string, 0 is \<^verbatim>\<open>NULL\<close>.\<close>

fun add_scan :: "nat \<Rightarrow> queue_registry_item list \<Rightarrow> nat \<Rightarrow> nat option \<Rightarrow> nat option" where
  "add_scan q [] ux e = e"
| "add_scan q (r # rs) ux e =
     (if q = xHandle r then Some ux
      else add_scan q rs (ux + 1) (if e = None \<and> pcQueueName r = 0 then Some ux else e))"

definition vQueueAddToRegistry :: "nat \<Rightarrow> nat \<Rightarrow> qsys \<Rightarrow> qsys" where
  "vQueueAddToRegistry xQueue name s =
     (let pxEntryToWrite = (if name \<noteq> 0 then add_scan xQueue (xQueueRegistry s) 0 None else None)
      in case pxEntryToWrite of
           None \<Rightarrow> s
         | Some ux \<Rightarrow> s\<lparr>xQueueRegistry := (xQueueRegistry s)[ux := \<lparr>pcQueueName = name, xHandle = xQueue\<rparr>]\<rparr>)"

fun name_scan :: "nat \<Rightarrow> queue_registry_item list \<Rightarrow> nat" where
  "name_scan q [] = 0"
| "name_scan q (r # rs) = (if xHandle r = q then pcQueueName r else name_scan q rs)"

definition pcQueueGetName :: "nat \<Rightarrow> qsys \<Rightarrow> nat" where
  "pcQueueGetName xQueue s = name_scan xQueue (xQueueRegistry s)"

fun clear_scan :: "nat \<Rightarrow> queue_registry_item list \<Rightarrow> queue_registry_item list" where
  "clear_scan q [] = []"
| "clear_scan q (r # rs) = (if xHandle r = q then r\<lparr>pcQueueName := 0, xHandle := 0\<rparr> # rs else r # clear_scan q rs)"

definition vQueueUnregisterQueue :: "nat \<Rightarrow> qsys \<Rightarrow> qsys" where
  "vQueueUnregisterQueue xQueue s = s\<lparr>xQueueRegistry := clear_scan xQueue (xQueueRegistry s)\<rparr>"

definition vQueueDelete :: "nat \<Rightarrow> qsys \<Rightarrow> qsys option" where
  "vQueueDelete xQueue s = do {
     let s = vQueueUnregisterQueue xQueue s;
     h \<leftarrow> vPortFree xQueue (kheap (kern s));
     Some (s\<lparr>kern := (kern s)\<lparr>kheap := h\<rparr>\<rparr>)
   }"

end
