(* ===== verification/Queue_Buffer.thy ===== *)
theory Queue_Buffer
  imports Queue
begin

subsection \<open>Bounded buffers\<close>

text \<open>The contract of a bounded buffer with two ends: items are put at the back or the front and
  taken from the front. \<open>fits\<close> and \<open>has\<close> are the provider's tests for room and for items.\<close>

datatype 'a buffer_op = Back 'a | Front 'a | Take

text \<open>Running operations: an item that does not fit is refused, an empty buffer gives nothing.\<close>

fun run_buffer :: "('s \<Rightarrow> bool) \<Rightarrow> ('s \<Rightarrow> bool) \<Rightarrow> ('a \<Rightarrow> 's \<Rightarrow> 's) \<Rightarrow> ('a \<Rightarrow> 's \<Rightarrow> 's) \<Rightarrow> ('s \<Rightarrow> 'a \<times> 's) \<Rightarrow>
    'a buffer_op list \<Rightarrow> 's \<Rightarrow> 'a option list \<times> 's" where
  "run_buffer fits has b f g [] s = ([], s)"
| "run_buffer fits has b f g (Back x # ops) s = run_buffer fits has b f g ops (if fits s then b x s else s)"
| "run_buffer fits has b f g (Front x # ops) s = run_buffer fits has b f g ops (if fits s then f x s else s)"
| "run_buffer fits has b f g (Take # ops) s =
     (if has s
      then (case g s of (x, u) \<Rightarrow> (case run_buffer fits has b f g ops u of (os, t) \<Rightarrow> (Some x # os, t)))
      else (case run_buffer fits has b f g ops s of (os, t) \<Rightarrow> (None # os, t)))"

text \<open>The same on a list.\<close>

fun run_list :: "nat \<Rightarrow> 'a buffer_op list \<Rightarrow> 'a list \<Rightarrow> 'a option list \<times> 'a list" where
  "run_list n [] xs = ([], xs)"
| "run_list n (Back x # ops) xs = run_list n ops (if length xs < n then xs @ [x] else xs)"
| "run_list n (Front x # ops) xs = run_list n ops (if length xs < n then x # xs else xs)"
| "run_list n (Take # ops) xs =
     (case xs of [] \<Rightarrow> (case run_list n ops xs of (os, t) \<Rightarrow> (None # os, t))
      | x # ys \<Rightarrow> (case run_list n ops ys of (os, t) \<Rightarrow> (Some x # os, t)))"

fun op_items :: "'a buffer_op list \<Rightarrow> 'a list" where
  "op_items [] = []"
| "op_items (Back x # ops) = x # op_items ops"
| "op_items (Front x # ops) = x # op_items ops"
| "op_items (Take # ops) = op_items ops"

locale bounded_buffer =
  fixes inv :: "'s \<Rightarrow> bool" and item_ok :: "'s \<Rightarrow> 'a \<Rightarrow> bool" and cap :: "'s \<Rightarrow> nat" and contents :: "'s \<Rightarrow> 'a list"
    and fits :: "'s \<Rightarrow> bool" and has :: "'s \<Rightarrow> bool"
    and put_back :: "'a \<Rightarrow> 's \<Rightarrow> 's" and put_front :: "'a \<Rightarrow> 's \<Rightarrow> 's" and take_first :: "'s \<Rightarrow> 'a \<times> 's"
  assumes tests: "inv s \<Longrightarrow> (fits s \<longleftrightarrow> length (contents s) < cap s) \<and> (has s \<longleftrightarrow> contents s \<noteq> [])"
    and back_law: "inv s \<Longrightarrow> item_ok s x \<Longrightarrow> fits s \<Longrightarrow>
      inv (put_back x s) \<and> contents (put_back x s) = contents s @ [x] \<and> cap (put_back x s) = cap s \<and>
      item_ok (put_back x s) = item_ok s"
    and front_law: "inv s \<Longrightarrow> item_ok s x \<Longrightarrow> fits s \<Longrightarrow>
      inv (put_front x s) \<and> contents (put_front x s) = x # contents s \<and> cap (put_front x s) = cap s \<and>
      item_ok (put_front x s) = item_ok s"
    and take_law: "inv s \<Longrightarrow> contents s = y # ys \<Longrightarrow>
      \<exists>t. take_first s = (y, t) \<and> inv t \<and> contents t = ys \<and> cap t = cap s \<and> item_ok t = item_ok s"
begin

lemma run_refines:
  "inv s \<Longrightarrow> \<forall>x\<in>set (op_items ops). item_ok s x \<Longrightarrow>
     \<exists>os t. run_buffer fits has put_back put_front take_first ops s = (os, t) \<and> inv t \<and> cap t = cap s \<and>
       run_list (cap s) ops (contents s) = (os, contents t)"
proof (induction ops arbitrary: s)
  case Nil
  then show ?case by simp
next
  case (Cons op ops)
  note tests = tests[OF Cons.prems(1)]
  show ?case
  proof (cases op)
    case (Back x)
    then show ?thesis using Cons.prems back_law[of s x] tests Cons.IH[of "if fits s then put_back x s else s"] by auto
  next
    case (Front x)
    then show ?thesis using Cons.prems front_law[of s x] tests Cons.IH[of "if fits s then put_front x s else s"] by auto
  next
    case Take
    show ?thesis
    proof (cases "contents s")
      case Nil
      then show ?thesis using Take Cons.prems tests Cons.IH[of s] by auto
    next
      case (Cons y ys)
      obtain t where t: "take_first s = (y, t)" "inv t" "contents t = ys" "cap t = cap s" "item_ok t = item_ok s"
        using take_law[OF Cons.prems(1) Cons] by blast
      then show ?thesis using Take Cons.prems tests Cons.IH[of t] Cons by auto
    qed
  qed
qed

end

subsection \<open>The ring buffer\<close>

abbreviation head_at :: "Queue_t \<Rightarrow> nat" where "head_at q \<equiv> unat (pcHead q)"
abbreviation slots :: "Queue_t \<Rightarrow> nat" where "slots q \<equiv> unat (uxLength q)"
abbreviation isize :: "Queue_t \<Rightarrow> nat" where "isize q \<equiv> unat (uxItemSize q)"
abbreviation count :: "Queue_t \<Rightarrow> nat" where "count q \<equiv> unat (uxMessagesWaiting q)"

text \<open>The slot read last; the items are in the slots after it.\<close>

definition read_slot :: "Queue_t \<Rightarrow> nat" where
  "read_slot q = (unat (pcReadFrom q) - head_at q) div isize q"

definition queue_items :: "Queue_t \<Rightarrow> bytes \<Rightarrow> u8_t list list" where
  "queue_items q m = map (\<lambda>i. mem_load m (head_at q + (read_slot q + 1 + i) mod slots q * isize q) (isize q)) [0..<count q]"

definition queue_ok :: "Queue_t \<Rightarrow> bool" where
  "queue_ok q \<longleftrightarrow> 0 < slots q \<and> count q \<le> slots q \<and> head_at q + slots q * isize q < 2 ^ 32 \<and> isize q \<le> head_at q \<and>
     unat (pcTail q) = head_at q + slots q * isize q \<and>
     (0 < isize q \<longrightarrow> (\<exists>r < slots q. unat (pcReadFrom q) = head_at q + r * isize q \<and>
        unat (pcWriteTo q) = head_at q + (r + 1 + count q) mod slots q * isize q))"

lemma read_slot_eq: "unat (pcReadFrom q) = head_at q + r * isize q \<Longrightarrow> 0 < isize q \<Longrightarrow> read_slot q = r"
  by (simp add: read_slot_def)

lemma mem_load_store_same: "mem_load (mem_store a (\<lambda>i. xs ! i) n m) a n = xs" if "length xs = n"
  using that by (auto simp: mem_load_def mem_store_def intro: nth_equalityI)

lemma mem_load_store_other: "a + n \<le> b \<or> b + l \<le> a \<Longrightarrow> mem_load (mem_store a f n m) b l = mem_load m b l"
  by (auto simp: mem_load_def mem_store_def)

lemma slot_apart: "i \<noteq> j \<Longrightarrow> h + i * z + z \<le> h + j * z \<or> h + j * z + z \<le> h + (i :: nat) * z"
proof -
  assume "i \<noteq> j"
  then have "Suc i \<le> j \<or> Suc j \<le> i" by auto
  then have "Suc i * z \<le> j * z \<or> Suc j * z \<le> i * z" using mult_le_mono1 by blast
  then show ?thesis by auto
qed

lemma slot_other: "i \<noteq> j \<Longrightarrow> mem_load (mem_store (h + i * z) f z m) (h + j * z) z = mem_load m (h + j * z) z"
  using slot_apart[of i j h z] by (intro mem_load_store_other) auto

text \<open>Different items are in different slots.\<close>

lemma mod_slots: "(a + i) mod n = (a + j) mod n \<Longrightarrow> i < n \<Longrightarrow> j < n \<Longrightarrow> i = (j :: nat)"
proof (induction i j rule: linorder_wlog)
  case (le i j)
  then have "n dvd (a + j) - (a + i)" by (subst mod_eq_dvd_iff_nat[symmetric]) simp_all
  then have "n dvd j - i" by simp
  then show ?case using le by (auto dest: dvd_imp_le)
qed simp

lemma word_add_mult:
  assumes "unat a + i * unat z < 2 ^ 32"
  shows "unat (a + of_nat i * z :: 32 word) = unat a + i * unat z"
proof -
  have "a + of_nat i * z = of_nat (unat a + i * unat z)" by simp
  then show ?thesis using assms by (simp only: unat_of_nat) simp
qed

text \<open>What the operations do to the pointers.\<close>

lemma slot_next:
  assumes "i < n" shows "(if i + 1 \<ge> n then 0 else i + 1) = (i + 1) mod (n :: nat)"
  using assms by (auto simp: mod_if)

lemma queue_bound:
  assumes "queue_ok q" "i < slots q"
  shows "head_at q + i * isize q + isize q \<le> head_at q + slots q * isize q" "head_at q + i * isize q + isize q < 2 ^ 32"
proof -
  have "Suc i * isize q \<le> slots q * isize q" using assms(2) by (intro mult_le_mono1) simp
  then show "head_at q + i * isize q + isize q \<le> head_at q + slots q * isize q" by simp
  with assms(1) show "head_at q + i * isize q + isize q < 2 ^ 32" by (simp add: queue_ok_def)
qed

text \<open>Advancing a pointer by one slot, and taking it back.\<close>

lemma advance:
  assumes ok: "queue_ok q" and p: "unat p = head_at q + i * isize q" "i < slots q" "0 < isize q"
  shows "unat (if p + uxItemSize q \<ge> pcTail q then pcHead q else p + uxItemSize q) = head_at q + (i + 1) mod slots q * isize q"
proof -
  have u: "unat (p + uxItemSize q) = head_at q + (i + 1) * isize q"
    using word_add_mult[of p 1 "uxItemSize q"] queue_bound(2)[OF ok p(2)] p(1) by simp
  have t: "unat (pcTail q) = head_at q + slots q * isize q" using ok by (simp add: queue_ok_def)
  have "p + uxItemSize q \<ge> pcTail q \<longleftrightarrow> i + 1 \<ge> slots q"
    unfolding word_le_nat_alt u t nat_add_left_cancel_le mult_le_cancel2 using p(3) by simp
  then show ?thesis using u p(2) by (auto simp: mod_if)
qed

lemma retreat:
  assumes ok: "queue_ok q" and p: "unat p = head_at q + i * isize q" "i < slots q" "0 < isize q"
  shows "unat (if p - uxItemSize q < pcHead q then pcTail q - uxItemSize q else p - uxItemSize q) =
    head_at q + (if i = 0 then slots q - 1 else i - 1) * isize q"
proof -
  have t: "unat (pcTail q) = head_at q + slots q * isize q" and z: "isize q \<le> head_at q"
    using ok by (simp_all add: queue_ok_def)
  have u: "unat (p - uxItemSize q) = head_at q + i * isize q - isize q"
    using z p(1) by (subst unat_sub) (simp_all add: word_le_nat_alt)
  have v: "unat (pcTail q - uxItemSize q) = head_at q + (slots q - 1) * isize q"
    using z t p(2) by (subst unat_sub) (auto simp: word_le_nat_alt algebra_simps diff_mult_distrib)
  have "p - uxItemSize q < pcHead q \<longleftrightarrow> i = 0"
  proof (cases i)
    case 0
    then show ?thesis unfolding word_less_nat_alt u using z p(3) by simp
  next
    case (Suc k)
    then show ?thesis unfolding word_less_nat_alt u by simp
  qed
  then show ?thesis using u v by (cases i) auto
qed

subsection \<open>The copy routines as buffer operations\<close>

text \<open>The state of a queue's buffer; the items are the lists of \<^verbatim>\<open>uxItemSize\<close> bytes.\<close>

type_synonym buffer = "Queue_t \<times> bytes"

definition buffer_back :: "u8_t list \<Rightarrow> buffer \<Rightarrow> buffer" where
  "buffer_back x b = (case b of (q, m) \<Rightarrow> prvCopyDataToQueue ((!) x) queueSEND_TO_BACK q m)"

definition buffer_front :: "u8_t list \<Rightarrow> buffer \<Rightarrow> buffer" where
  "buffer_front x b = (case b of (q, m) \<Rightarrow> prvCopyDataToQueue ((!) x) queueSEND_TO_FRONT q m)"

definition buffer_take :: "buffer \<Rightarrow> u8_t list \<times> buffer" where
  "buffer_take b = (case b of (q, m) \<Rightarrow>
     (case prvCopyDataFromQueue q m of (r, x) \<Rightarrow> (x, r\<lparr>uxMessagesWaiting := uxMessagesWaiting q - 1\<rparr>, m)))"

lemma queue_ok_sizes:
  assumes "queue_ok q" "count q < slots q"
  shows "unat (uxMessagesWaiting q + 1) = count q + 1"
  using assms(2) unat_bounds(3)[of "uxLength q"] by (subst unat_plus_if_size) (auto simp: word_size)

lemma copy_back:
  assumes ok: "queue_ok q" and x: "length x = isize q" and room: "count q < slots q"
    and e: "prvCopyDataToQueue ((!) x) queueSEND_TO_BACK q m = (q', m')"
  shows "queue_ok q'" "queue_items q' m' = queue_items q m @ [x]" "uxLength q' = uxLength q" "uxItemSize q' = uxItemSize q"
    "pcHead q' = pcHead q" "\<And>a. a < head_at q \<or> head_at q + slots q * isize q \<le> a \<Longrightarrow> m' a = m a"
    "uxMessagesWaiting q' = uxMessagesWaiting q + 1" "cRxLock q' = cRxLock q" "cTxLock q' = cTxLock q"
proof -
  note c = queue_ok_sizes[OF ok room]
  have pos: "0 < slots q" using ok by (simp add: queue_ok_def)
  define w where "w = (if pcWriteTo q + uxItemSize q \<ge> pcTail q then pcHead q else pcWriteTo q + uxItemSize q)"
  define u where "u = (if uxItemSize q = 0 then pcWriteTo q else w)"
  have q': "q' = q\<lparr>pcWriteTo := u, uxMessagesWaiting := uxMessagesWaiting q + 1\<rparr>"
    and m': "m' = (if uxItemSize q = 0 then m else mem_store (unat (pcWriteTo q)) ((!) x) (isize q) m)"
    using e by (auto simp: prvCopyDataToQueue_def Let_def u_def w_def split: if_splits)
  show "uxLength q' = uxLength q" "uxItemSize q' = uxItemSize q" "pcHead q' = pcHead q"
    "uxMessagesWaiting q' = uxMessagesWaiting q + 1" "cRxLock q' = cRxLock q" "cTxLock q' = cTxLock q"
    by (simp_all add: q')
  show "queue_ok q'" "queue_items q' m' = queue_items q m @ [x]"
     "\<And>a. a < head_at q \<or> head_at q + slots q * isize q \<le> a \<Longrightarrow> m' a = m a"
  proof (atomize(full), cases "isize q = 0")
    case True
    then have z: "uxItemSize q = 0" by (simp add: unat_eq_0)
    show "queue_ok q' \<and> queue_items q' m' = queue_items q m @ [x] \<and>
      (\<forall>a. a < head_at q \<or> head_at q + slots q * isize q \<le> a \<longrightarrow> m' a = m a)"
      using ok x True c room by (simp add: q' m' queue_ok_def queue_items_def read_slot_def mem_load_def z map_replicate_const replicate_append_same)
  next
    case False
    then have nz: "0 < isize q" "uxItemSize q \<noteq> 0" by auto
    obtain r where r: "r < slots q" "unat (pcReadFrom q) = head_at q + r * isize q"
      "unat (pcWriteTo q) = head_at q + (r + 1 + count q) mod slots q * isize q"
      using ok nz(1) by (auto simp: queue_ok_def)
    let ?i = "(r + 1 + count q) mod slots q"
    have i: "?i < slots q" using pos by simp
    have w: "unat w = head_at q + (?i + 1) mod slots q * isize q"
      unfolding w_def by (rule advance[OF ok r(3) i nz(1)])
    have wi: "(?i + 1) mod slots q = (r + 1 + (count q + 1)) mod slots q" by (simp add: mod_Suc_eq)
    have ok': "queue_ok q'"
      using ok r w[unfolded wi] c room nz by (auto simp: q' u_def queue_ok_def)
    have rs: "read_slot q = r" "read_slot q' = r" using r(2) nz(1) by (simp_all add: read_slot_def q')
    have old: "mem_load m' (head_at q + (r + 1 + k) mod slots q * isize q) (isize q) =
        mem_load m (head_at q + (r + 1 + k) mod slots q * isize q) (isize q)" if k: "k < count q" for k
    proof -
      have "?i \<noteq> (r + 1 + k) mod slots q"
        using mod_slots[of "r + 1" "count q" "slots q" k] k room by auto
      then show ?thesis using nz(2) by (simp add: m' r(3) slot_other)
    qed
    have new: "mem_load m' (head_at q + ?i * isize q) (isize q) = x"
      using nz(2) x by (simp add: m' r(3) mem_load_store_same)
    have "queue_items q' m' = queue_items q m @ [x]"
      unfolding queue_items_def rs using old new c by (simp add: q')
    moreover have "m' a = m a" if "a < head_at q \<or> head_at q + slots q * isize q \<le> a" for a
      using that queue_bound(1)[OF ok i] by (auto simp: m' mem_store_def r(3))
    ultimately show "queue_ok q' \<and> queue_items q' m' = queue_items q m @ [x] \<and>
      (\<forall>a. a < head_at q \<or> head_at q + slots q * isize q \<le> a \<longrightarrow> m' a = m a)"
      using ok' by blast
  qed
qed

lemma copy_front:
  assumes ok: "queue_ok q" and x: "length x = isize q" and pos: "pos = queueSEND_TO_FRONT \<and> count q < slots q \<or>
      pos = queueOVERWRITE \<and> slots q = 1 \<and> 0 < isize q"
    and e: "prvCopyDataToQueue ((!) x) pos q m = (q', m')"
  shows "queue_ok q'" "queue_items q' m' = x # (if pos = queueOVERWRITE then [] else queue_items q m)"
    "uxLength q' = uxLength q" "uxItemSize q' = uxItemSize q"
    "pcHead q' = pcHead q" "\<And>a. a < head_at q \<or> head_at q + slots q * isize q \<le> a \<Longrightarrow> m' a = m a"
    "uxMessagesWaiting q' = (if pos = queueOVERWRITE then 1 else uxMessagesWaiting q + 1)" "cRxLock q' = cRxLock q" "cTxLock q' = cTxLock q"
proof -
  define n where "n = (if pos = queueOVERWRITE then 0 else uxMessagesWaiting q)"
  define p where "p = (if pcReadFrom q - uxItemSize q < pcHead q then pcTail q - uxItemSize q else pcReadFrom q - uxItemSize q)"
  define u where "u = (if uxItemSize q = 0 then pcReadFrom q else p)"
  have "uxMessagesWaiting q = 0 \<or> uxMessagesWaiting q = 1" if "pos = queueOVERWRITE"
  proof -
    have "count q \<le> 1" using ok pos that by (auto simp: queue_ok_def)
    then have "count q = 0 \<or> count q = 1" by auto
    then show ?thesis by (metis unat_0 unat_1 unsigned_word_eqI)
  qed
  then have n0: "(if pos = queueOVERWRITE then if uxMessagesWaiting q > 0 then uxMessagesWaiting q - 1 else uxMessagesWaiting q
      else uxMessagesWaiting q) = n" by (auto simp: n_def)
  have nz0: "pos \<noteq> queueOVERWRITE" if "uxItemSize q = 0" using pos that by auto
  have q': "q' = q\<lparr>pcReadFrom := u, uxMessagesWaiting := n + 1\<rparr>"
    and m': "m' = (if uxItemSize q = 0 then m else mem_store (unat (pcReadFrom q)) ((!) x) (isize q) m)"
    using e nz0 pos unfolding prvCopyDataToQueue_def Let_def n0
    by (auto simp: u_def p_def n_def split: if_splits)
  show "uxLength q' = uxLength q" "uxItemSize q' = uxItemSize q" "pcHead q' = pcHead q"
    "uxMessagesWaiting q' = (if pos = queueOVERWRITE then 1 else uxMessagesWaiting q + 1)"
    "cRxLock q' = cRxLock q" "cTxLock q' = cTxLock q"
    by (simp_all add: q' n_def)
  have room: "unat n < slots q" and nq: "unat n = (if pos = queueOVERWRITE then 0 else count q)"
    using pos by (auto simp: n_def)
  have c: "unat (n + 1) = unat n + 1"
    using room unat_bounds(3)[of "uxLength q"] by (subst unat_plus_if_size) (auto simp: word_size)
  have some: "0 < slots q" using ok by (simp add: queue_ok_def)
  have cnt: "count q' = unat n + 1" by (simp add: q' c)
  show "queue_ok q'" "queue_items q' m' = x # (if pos = queueOVERWRITE then [] else queue_items q m)"
    "\<And>a. a < head_at q \<or> head_at q + slots q * isize q \<le> a \<Longrightarrow> m' a = m a"
  proof (atomize(full), cases "isize q = 0")
    case True
    then have z: "uxItemSize q = 0" by (simp add: unat_eq_0)
    then show "queue_ok q' \<and> queue_items q' m' = x # (if pos = queueOVERWRITE then [] else queue_items q m) \<and>
      (\<forall>a. a < head_at q \<or> head_at q + slots q * isize q \<le> a \<longrightarrow> m' a = m a)"
      using ok x True nz0 room nq cnt unfolding queue_items_def cnt
      by (simp add: q' m' queue_ok_def c mem_load_def map_replicate_const)
  next
    case False
    then have nz: "0 < isize q" "uxItemSize q \<noteq> 0" by auto
    obtain r where r: "r < slots q" "unat (pcReadFrom q) = head_at q + r * isize q"
      "unat (pcWriteTo q) = head_at q + (r + 1 + count q) mod slots q * isize q"
      using ok nz(1) by (auto simp: queue_ok_def)
    define r' where "r' = (if r = 0 then slots q - 1 else r - 1)"
    have p: "unat p = head_at q + r' * isize q" unfolding p_def r'_def by (rule retreat[OF ok r(2,1) nz(1)])
    have r': "r' < slots q" "(r' + 1 + j) mod slots q = (r + j) mod slots q" for j
    proof -
      show "r' < slots q" using r(1) some by (auto simp: r'_def)
      show "(r' + 1 + j) mod slots q = (r + j) mod slots q"
        using some by (cases "r = 0") (simp_all add: r'_def add.assoc)
    qed
    have rs: "read_slot q = r" "read_slot q' = r'" using r(2) p nz by (simp_all add: read_slot_def q' u_def)
    have wr: "(r' + 1 + (unat n + 1)) mod slots q = (r + 1 + count q) mod slots q"
      using r'(2)[of "unat n + 1"] nq pos by (auto simp: ac_simps)
    have ok': "queue_ok q'"
      using ok r(3) r'(1) p room c nz wr by (auto simp: q' u_def queue_ok_def intro!: exI[of _ r'])
    have old: "mem_load m' (head_at q + (r + 1 + k) mod slots q * isize q) (isize q) =
        mem_load m (head_at q + (r + 1 + k) mod slots q * isize q) (isize q)" if k: "k < unat n" for k
    proof -
      have "(r + 0) mod slots q \<noteq> (r + (1 + k)) mod slots q"
        using mod_slots[of r 0 "slots q" "1 + k"] k room by auto
      then show ?thesis using nz(2) r(1) by (simp add: m' r(2) slot_other)
    qed
    have new: "mem_load m' (head_at q + r * isize q) (isize q) = x"
      using nz(2) x by (simp add: m' r(2) mem_load_store_same)
    have "[0..<count q'] = 0 # map Suc [0..<unat n]" by (simp add: cnt map_Suc_upt upt_conv_Cons del: upt_Suc)
    then have "queue_items q' m' = x # map (\<lambda>k. mem_load m (head_at q + (r + 1 + k) mod slots q * isize q) (isize q)) [0..<unat n]"
      using new old r(1) r'(2)[of 0] r'(2)[of "Suc _"] unfolding queue_items_def rs by (simp add: q' comp_def)
    then have "queue_items q' m' = x # (if pos = queueOVERWRITE then [] else queue_items q m)"
      unfolding queue_items_def rs nq by simp
    moreover have "m' a = m a" if "a < head_at q \<or> head_at q + slots q * isize q \<le> a" for a
      using that queue_bound(1)[OF ok r(1)] by (auto simp: m' mem_store_def r(2))
    ultimately show "queue_ok q' \<and> queue_items q' m' = x # (if pos = queueOVERWRITE then [] else queue_items q m) \<and>
      (\<forall>a. a < head_at q \<or> head_at q + slots q * isize q \<le> a \<longrightarrow> m' a = m a)"
      using ok' by blast
  qed
qed

lemma copy_out_first:
  assumes ok: "queue_ok q" and n: "0 < count q"
    and e: "prvCopyDataFromQueue q m = (r, x)"
  defines "q' \<equiv> r\<lparr>uxMessagesWaiting := uxMessagesWaiting q - 1\<rparr>"
  shows "queue_ok q'" "queue_items q m = x # queue_items q' m" "uxLength q' = uxLength q" "uxItemSize q' = uxItemSize q"
    "pcHead q' = pcHead q" "uxMessagesWaiting r = uxMessagesWaiting q" "cRxLock q' = cRxLock q" "cTxLock q' = cTxLock q"
    "r\<lparr>pcReadFrom := pcReadFrom q\<rparr> = q"
proof -
  have c: "unat (uxMessagesWaiting q - 1) = count q - 1" using n by (intro unat_minus_one) auto
  have pos: "0 < slots q" using ok by (simp add: queue_ok_def)
  define p where "p = (if uxItemSize q = 0 then pcReadFrom q
    else if pcReadFrom q + uxItemSize q \<ge> pcTail q then pcHead q else pcReadFrom q + uxItemSize q)"
  have r: "r = q\<lparr>pcReadFrom := p\<rparr>" and x: "x = (if uxItemSize q = 0 then [] else mem_load m (unat p) (isize q))"
    using e by (auto simp: prvCopyDataFromQueue_def Let_def p_def split: if_splits)
  show "uxLength q' = uxLength q" "uxItemSize q' = uxItemSize q" "pcHead q' = pcHead q"
    "uxMessagesWaiting r = uxMessagesWaiting q" "cRxLock q' = cRxLock q" "cTxLock q' = cTxLock q" "r\<lparr>pcReadFrom := pcReadFrom q\<rparr> = q"
    by (simp_all add: q'_def r)
  obtain k where k: "count q = Suc k" using n by (cases "count q") auto
  show "queue_ok q'" "queue_items q m = x # queue_items q' m"
  proof (atomize(full), cases "isize q = 0")
    case True
    then have z: "uxItemSize q = 0" by (simp add: unat_eq_0)
    have "queue_items q m = replicate (Suc k) []" "queue_items q' m = replicate k []"
      using True c k by (simp_all add: queue_items_def mem_load_def q'_def r map_replicate_const del: replicate_Suc)
    moreover have "queue_ok q'" using ok True c k by (simp add: q'_def r queue_ok_def)
    ultimately show "queue_ok q' \<and> queue_items q m = x # queue_items q' m" by (simp add: x z)
  next
    case False
    then have nz: "0 < isize q" "uxItemSize q \<noteq> 0" by auto
    obtain i where i: "i < slots q" "unat (pcReadFrom q) = head_at q + i * isize q"
      "unat (pcWriteTo q) = head_at q + (i + 1 + count q) mod slots q * isize q"
      using ok nz(1) by (auto simp: queue_ok_def)
    have p: "unat p = head_at q + (i + 1) mod slots q * isize q"
      using advance[OF ok i(2,1) nz(1)] nz(2) by (simp add: p_def)
    have rs: "read_slot q = i" "read_slot q' = (i + 1) mod slots q"
      using i(2) p nz(1) by (simp_all add: read_slot_def q'_def r)
    have sh: "((i + 1) mod slots q + 1 + j) mod slots q = (i + 1 + Suc j) mod slots q" for j
      by (metis add.assoc add_Suc_right mod_add_left_eq plus_1_eq_Suc)
    have "queue_ok q'"
      using ok i p sh[of k] c k nz pos by (auto simp: q'_def r queue_ok_def intro!: exI[of _ "(i + 1) mod slots q"])
    moreover have "queue_items q m = x # queue_items q' m"
    proof -
      have "[0..<count q] = 0 # map Suc [0..<k]" by (simp add: k map_Suc_upt upt_conv_Cons del: upt_Suc)
      then have "queue_items q m = mem_load m (head_at q + (i + 1) mod slots q * isize q) (isize q) #
          map (\<lambda>j. mem_load m (head_at q + (i + 1 + Suc j) mod slots q * isize q) (isize q)) [0..<k]"
        by (simp add: queue_items_def rs comp_def)
      also have "\<dots> = x # queue_items q' m"
        using c k nz(2) sh unfolding queue_items_def rs by (simp add: q'_def r x p)
      finally show ?thesis .
    qed
    ultimately show "queue_ok q' \<and> queue_items q m = x # queue_items q' m" by blast
  qed
qed

lemma buffer_laws:
  assumes ok: "queue_ok q"
  shows "length x = isize q \<Longrightarrow> uxMessagesWaiting q < uxLength q \<Longrightarrow>
      \<exists>q' m'. buffer_back x (q, m) = (q', m') \<and> queue_ok q' \<and> queue_items q' m' = queue_items q m @ [x] \<and>
        uxLength q' = uxLength q \<and> uxItemSize q' = uxItemSize q"
    "length x = isize q \<Longrightarrow> uxMessagesWaiting q < uxLength q \<Longrightarrow>
      \<exists>q' m'. buffer_front x (q, m) = (q', m') \<and> queue_ok q' \<and> queue_items q' m' = x # queue_items q m \<and>
        uxLength q' = uxLength q \<and> uxItemSize q' = uxItemSize q"
    "queue_items q m = y # ys \<Longrightarrow>
      \<exists>q'. buffer_take (q, m) = (y, q', m) \<and> queue_ok q' \<and> queue_items q' m = ys \<and>
        uxLength q' = uxLength q \<and> uxItemSize q' = uxItemSize q"
proof -
  assume x: "length x = isize q" and room: "uxMessagesWaiting q < uxLength q"
  then have r: "count q < slots q" by (simp add: word_less_nat_alt)
  obtain q1 m1 where 1: "prvCopyDataToQueue ((!) x) queueSEND_TO_BACK q m = (q1, m1)" by fastforce
  show "\<exists>q' m'. buffer_back x (q, m) = (q', m') \<and> queue_ok q' \<and> queue_items q' m' = queue_items q m @ [x] \<and>
        uxLength q' = uxLength q \<and> uxItemSize q' = uxItemSize q"
    using copy_back[OF ok x r 1] 1 by (simp add: buffer_back_def)
  obtain q2 m2 where 2: "prvCopyDataToQueue ((!) x) queueSEND_TO_FRONT q m = (q2, m2)" by fastforce
  show "\<exists>q' m'. buffer_front x (q, m) = (q', m') \<and> queue_ok q' \<and> queue_items q' m' = x # queue_items q m \<and>
        uxLength q' = uxLength q \<and> uxItemSize q' = uxItemSize q"
    using copy_front[OF ok x _ 2] r 2 by (simp add: buffer_front_def)
next
  assume y: "queue_items q m = y # ys"
  then have n: "0 < count q" by (auto simp: queue_items_def intro: gr0I)
  obtain r x where 3: "prvCopyDataFromQueue q m = (r, x)" by fastforce
  show "\<exists>q'. buffer_take (q, m) = (y, q', m) \<and> queue_ok q' \<and> queue_items q' m = ys \<and>
        uxLength q' = uxLength q \<and> uxItemSize q' = uxItemSize q"
    using copy_out_first[OF ok n 3] y 3 by (simp add: buffer_take_def)
qed

lemma buffer_tests:
  "uxMessagesWaiting q < uxLength q \<longleftrightarrow> length (queue_items q m) < slots q" "uxMessagesWaiting q > 0 \<longleftrightarrow> queue_items q m \<noteq> []"
  by (auto simp: queue_items_def word_less_nat_alt)

interpretation ring: bounded_buffer "\<lambda>b. queue_ok (fst b)" "\<lambda>b x. length x = isize (fst b)" "\<lambda>b. slots (fst b)"
  "\<lambda>b. queue_items (fst b) (snd b)" "\<lambda>b. uxMessagesWaiting (fst b) < uxLength (fst b)" "\<lambda>b. uxMessagesWaiting (fst b) > 0"
  buffer_back buffer_front buffer_take
proof unfold_locales
  fix b :: buffer and x y :: "u8_t list" and ys
  obtain q m where b: "b = (q, m)" by (cases b)
  assume "queue_ok (fst b)"
  then have ok: "queue_ok q" by (simp add: b)
  show "(uxMessagesWaiting (fst b) < uxLength (fst b)) = (length (queue_items (fst b) (snd b)) < slots (fst b)) \<and>
     (0 < uxMessagesWaiting (fst b)) = (queue_items (fst b) (snd b) \<noteq> [])"
    using buffer_tests by (simp add: b)
  show "queue_items (fst b) (snd b) = y # ys \<Longrightarrow>
     \<exists>t. buffer_take b = (y, t) \<and> queue_ok (fst t) \<and> queue_items (fst t) (snd t) = ys \<and> slots (fst t) = slots (fst b) \<and>
       (\<lambda>x. length x = isize (fst t)) = (\<lambda>x. length x = isize (fst b))"
    using buffer_laws(3)[OF ok, of m y ys] by (auto simp: b)
  assume x: "length x = isize (fst b)" "uxMessagesWaiting (fst b) < uxLength (fst b)"
  show "queue_ok (fst (buffer_back x b)) \<and>
     queue_items (fst (buffer_back x b)) (snd (buffer_back x b)) = queue_items (fst b) (snd b) @ [x] \<and>
     slots (fst (buffer_back x b)) = slots (fst b) \<and>
     (\<lambda>xa. length xa = isize (fst (buffer_back x b))) = (\<lambda>x. length x = isize (fst b))"
    using buffer_laws(1)[OF ok, of x m] x by (auto simp: b)
  show "queue_ok (fst (buffer_front x b)) \<and>
     queue_items (fst (buffer_front x b)) (snd (buffer_front x b)) = x # queue_items (fst b) (snd b) \<and>
     slots (fst (buffer_front x b)) = slots (fst b) \<and>
     (\<lambda>xa. length xa = isize (fst (buffer_front x b))) = (\<lambda>x. length x = isize (fst b))"
    using buffer_laws(2)[OF ok, of x m] x by (auto simp: b)
qed

text \<open>C3. The ring buffer of a queue is a bounded double-ended queue: for every sequence of sends to the
  back, sends to the front and receives, the copy routines (guarded by the tests the operations make) return
  exactly the items a list of at most \<^verbatim>\<open>uxLength\<close> items would, and keep the pointers in the buffer.\<close>

theorem queue_buffer_refines:
  assumes "queue_ok q" "\<forall>x\<in>set (op_items ops). length x = isize q"
  shows "\<exists>os q' m'. run_buffer (\<lambda>b. uxMessagesWaiting (fst b) < uxLength (fst b)) (\<lambda>b. uxMessagesWaiting (fst b) > 0)
      buffer_back buffer_front buffer_take ops (q, m) = (os, q', m') \<and> queue_ok q' \<and>
    run_list (slots q) ops (queue_items q m) = (os, queue_items q' m')"
  using ring.run_refines[of "(q, m)" ops] assms by fastforce

definition demo_queue :: Queue_t where
  "demo_queue = \<lparr>pcHead = 0x30001048, pcWriteTo = 0x30001048, pcTail = 0x30001054, pcReadFrom = 0x30001050,
     uxMessagesWaiting = 0, uxLength = 3, uxItemSize = 4, cRxLock = queueUNLOCKED, cTxLock = queueUNLOCKED\<rparr>"

lemma demo_queue_ok: "queue_ok demo_queue"
  by (simp add: queue_ok_def demo_queue_def exI[of _ 2])

theorem queue_buffer_refines_witness:
  "\<exists>os q' m'. run_buffer (\<lambda>b. uxMessagesWaiting (fst b) < uxLength (fst b)) (\<lambda>b. uxMessagesWaiting (fst b) > 0)
      buffer_back buffer_front buffer_take [Back [1, 2, 3, 4], Front [5, 6, 7, 8], Take, Take, Take] (demo_queue, \<lambda>_. 0) = (os, q', m') \<and>
    queue_ok q' \<and> os = [Some [5, 6, 7, 8], Some [1, 2, 3, 4], None]"
  using queue_buffer_refines[of demo_queue "[Back [1, 2, 3, 4], Front [5, 6, 7, 8], Take, Take, Take]" "\<lambda>_. 0"] demo_queue_ok
  by (fastforce simp: demo_queue_def queue_items_def)

subsection \<open>Creating\<close>

lemma reset_ok:
  assumes "q \<noteq> 0" "uxLength r \<ge> 1" "0xffffffff div uxLength r \<ge> uxItemSize r"
    "head_at r + slots r * isize r < 2 ^ 32" "isize r \<le> head_at r" "queues s q = r"
  obtains s' r' where "xQueueGenericReset q True s = Some (True, s')" "queues s' = (queues s)(q := r')" "queue_ok r'" "count r' = 0"
    "uxLength r' = uxLength r" "uxItemSize r' = uxItemSize r" "pcHead r' = pcHead r"
    "cRxLock r' = queueUNLOCKED" "cTxLock r' = queueUNLOCKED"
    "kern s' = (kern s)\<lparr>kls := vListInitialise (xTasksWaitingToReceive q) (vListInitialise (xTasksWaitingToSend q) (kls (kern s)))\<rparr>"
    "xQueueRegistry s' = xQueueRegistry s"
proof -
  define r' where "r' = r\<lparr>pcTail := pcHead r + uxLength r * uxItemSize r, uxMessagesWaiting := 0, pcWriteTo := pcHead r,
    pcReadFrom := pcHead r + (uxLength r - 1) * uxItemSize r, cRxLock := queueUNLOCKED, cTxLock := queueUNLOCKED\<rparr>"
  define s' where "s' = s\<lparr>queues := (queues s)(q := r'),
    kern := (kern s)\<lparr>kls := vListInitialise (xTasksWaitingToReceive q) (vListInitialise (xTasksWaitingToSend q) (kls (kern s)))\<rparr>\<rparr>"
  have e: "xQueueGenericReset q True s = Some (True, s')"
    using assms(1-3,6) by (simp add: xQueueGenericReset_def Let_def upd_queue_def s'_def r'_def)
  have n: "1 \<le> slots r" using assms(2) by (simp add: word_le_nat_alt)
  have t: "unat (pcHead r + uxLength r * uxItemSize r) = head_at r + slots r * isize r"
    using word_add_mult[of "pcHead r" "slots r" "uxItemSize r"] assms(4) by simp
  have b: "head_at r + (slots r - 1) * isize r < 2 ^ 32" using assms(4) by (simp add: diff_mult_distrib)
  have p: "unat (pcHead r + (uxLength r - 1) * uxItemSize r) = head_at r + (slots r - 1) * isize r"
    using word_add_mult[of "pcHead r" "slots r - 1" "uxItemSize r"] b n by (simp add: of_nat_diff)
  have "queue_ok r'"
    using n assms(4,5) t p by (auto simp: queue_ok_def r'_def intro!: exI[of _ "slots r - 1"])
  then show thesis
    by (intro that[OF e, of r']) (simp_all add: s'_def r'_def)
qed

end
