(* ===== verification/Queue_Wait.thy ===== *)
theory Queue_Wait
  imports Notify Queue_Buffer
begin

section \<open>Waiting on queues\<close>

text \<open>
  Tasks that wait for a queue are on its event lists. The first part says what putting the running task
  on an event list and waking the first task of one do; the second follows a task through a call of
  \<^verbatim>\<open>xQueueReceive\<close> on an empty queue, to the item another task or an interrupt sends it or to its
  time-out.
\<close>

subsection \<open>Event lists\<close>

text \<open>Moving the event item of a task that is not waiting for its memory to be freed.\<close>

lemma event_moved:
  assumes sane: "sane idle L T s" and ok: "sched_ok L T c s" and t: "t \<in> T" "t \<notin> dead T s"
    and b: "base_ok L T {} c' (s\<lparr>kls := K\<rparr>)" and d: "same_data (kls s) K" and co: "cont K = (cont (kls s))(Ev t := x)"
  shows "sched_ok L T c' (s\<lparr>kls := K\<rparr>)" "sane idle L T (s\<lparr>kls := K\<rparr>)" "keeps_tasks T s (s\<lparr>kls := K\<rparr>)"
    "dead T (s\<lparr>kls := K\<rparr>) = dead T s" "ready (s\<lparr>kls := K\<rparr>) u = ready s u"
proof -
  let ?s = "s\<lparr>kls := K\<rparr>"
  have st: "cont (kls s) i = Some l" if l: "l = 5 \<or> l = 6" "cont (kls ?s) i = Some l" for i l
  proof -
    have "state_list l" using l(1) by (auto simp: state_list_def)
    with l(2) obtain u where "u \<in> T" "i = St u" by (rule base_state_item[OF b])
    with l co show ?thesis by simp
  qed
  have "times_ok ?s"
    by (rule times_mono[OF sched_okD(2)[OF ok] _ st base_okD(6)[OF sched_okD(1)[OF ok]]]) (use d in simp_all)
  then show ok': "sched_ok L T c' ?s" using b ok by (simp add: sched_ok_def)
  show dd: "dead T ?s = dead T s" by (simp add: dead_def co)
  have kd: "keeps_dead T s ?s" using t(2) dd by (auto simp: keeps_dead_def co)
  then show k: "keeps_tasks T s ?s" by (simp add: keeps_tasks_def)
  show rd: "ready ?s u = ready s u" for u by (simp add: ready_def co)
  have "running_ok T ?s"
    by (rule running_same[OF _ _ kd]) (use sane rd in \<open>auto simp: sane_def top_task_def\<close>)
  then show "sane idle L T ?s" by (rule sane_next[OF sane ok' k]) (use sane rd in \<open>simp add: sane_def\<close>)
qed

text \<open>The event list with the one waiting task \<open>t\<close>.\<close>

definition waits_alone :: "nat \<Rightarrow> kernel \<Rightarrow> nat \<Rightarrow> bool" where
  "waits_alone l s t \<longleftrightarrow> (\<forall>u. cont (kls s) (Ev u) = Some l \<longleftrightarrow> u = t)"

definition nobody_waits :: "nat \<Rightarrow> kernel \<Rightarrow> bool" where
  "nobody_waits l s \<longleftrightarrow> (\<forall>u. cont (kls s) (Ev u) \<noteq> Some l)"

lemma event_list_items:
  assumes ok: "sched_ok L T c s" and l: "l \<in> L" "\<not> state_list l" and x: "x \<in> set (c l)"
  obtains t where "t \<in> T" "x = Ev t" "cont (kls s) (Ev t) = Some l"
proof -
  have cx: "cont (kls s) x = Some l" using lists_okD(2)[OF base_okD(1)[OF sched_okD(1)[OF ok]]] l(1) x by blast
  obtain t where "t \<in> T" "x = Ev t" by (rule base_event_item[OF sched_okD(1)[OF ok] cx l(2)])
  with cx show thesis using that by simp
qed

lemma nobody_list:
  assumes "sched_ok L T c s" "l \<in> L" "\<not> state_list l" "nobody_waits l s"
  shows "c l = []" "listLIST_IS_EMPTY l (kls s)"
proof -
  show e: "c l = []"
  proof (rule ccontr)
    assume "c l \<noteq> []"
    then have "hd (c l) \<in> set (c l)" by simp
    then obtain t where "cont (kls s) (Ev t) = Some l" by (rule event_list_items[OF assms(1-3)])
    then show False using assms(4) by (simp add: nobody_waits_def)
  qed
  show "listLIST_IS_EMPTY l (kls s)"
    using lists_empty[OF base_okD(1)[OF sched_okD(1)[OF assms(1)]] assms(2)] e by simp
qed

lemma only_element: "a \<in> set xs \<Longrightarrow> (\<And>x. x \<in> set xs \<Longrightarrow> x = a) \<Longrightarrow> distinct xs \<Longrightarrow> xs = [a]"
proof (cases xs)
  case (Cons y ys)
  assume a: "\<And>x. x \<in> set xs \<Longrightarrow> x = a" "distinct xs"
  have "ys = []"
  proof (rule ccontr)
    assume "ys \<noteq> []"
    then have "hd ys \<in> set ys" by simp
    then show False using a(1)[of "hd ys"] a(1)[of y] a(2) Cons by auto
  qed
  then show ?thesis using a(1)[of y] Cons by simp
qed simp

lemma alone_list:
  assumes ok: "sched_ok L T c s" and l: "l \<in> L" "\<not> state_list l" and w: "waits_alone l s t"
  shows "c l = [Ev t]"
proof -
  show ?thesis
  proof (rule only_element)
    show "Ev t \<in> set (c l)"
      using lists_okD(2)[OF base_okD(1)[OF sched_okD(1)[OF ok]]] w by (auto simp: waits_alone_def)
    show "distinct (c l)" by (rule lists_ok_distinct[OF base_okD(1)[OF sched_okD(1)[OF ok]] l(1)])
    fix x assume x: "x \<in> set (c l)"
    obtain u where "x = Ev u" "cont (kls s) (Ev u) = Some l" by (rule event_list_items[OF ok l x])
    then show "x = Ev t" using w by (simp add: waits_alone_def)
  qed
qed

text \<open>Blocking the running task \<open>t\<close>, whose event item is on the list \<open>l\<close>, with the scheduler suspended.\<close>

lemma event_block_rest:
  assumes sane: "sane idle L T k" and susp: "uxSchedulerSuspended k = 1" and pend: "xPendedTicks k = 0"
    and cur: "pxCurrentTCB k = Some t" "t \<noteq> idle" "cont (kls k) (Ev t) = Some l" "l \<noteq> 7" and n: "n \<noteq> 0"
  obtains s1 s' where "prvAddCurrentTaskToDelayedList n True k = Some s1" "resume_and_yield s1 = Some s'"
    "sane idle L T s'" "uxSchedulerSuspended s' = 0" "xPendedTicks s' = 0" "parked n s' t" "pxCurrentTCB s' \<noteq> Some t"
    "tcbs s' = tcbs k" "kheap s' = kheap k" "xTickCount s' = xTickCount k"
    "\<forall>u. cont (kls s') (Ev u) = (if u \<in> pending T k then None else cont (kls k) (Ev u)) \<and> val (kls s') (Ev u) = val (kls k) (Ev u)"
proof -
  obtain c where ok: "sched_ok L T c k" and t: "t \<in> T" "t \<notin> dead T k" and i: "idle \<in> T" "ready k idle" "uxCurrentNumberOfTasks k > 0"
    using sane cur(1) by (auto simp: sane_def running_ok_def)
  obtain s1 c1 where 1: "prvAddCurrentTaskToDelayedList n True k = Some s1" "sched_ok L T c1 s1" "parked n s1 t"
    "same_rest k s1" "\<forall>i. i \<noteq> St t \<longrightarrow> cont (kls s1) i = cont (kls k) i \<and> val (kls s1) i = val (kls k) i"
    by (rule park_current[OF ok cur(1) n])
  note f = same_rest_fields[OF 1(4)]
  have kd: "keeps_dead T k s1"
    by (rule keeps_dead_moved[OF t(2)])
      (use 1(3,5) blocked_cont[of s1 t] in \<open>auto simp: parked_def split: if_splits\<close>)
  then have k1: "keeps_tasks T k s1" using f by (simp add: keeps_tasks_def)
  have r1: "ready s1 idle" using i(2) cur(2) 1(5) f(1) by (simp add: ready_def)
  have u1: "uxSchedulerSuspended s1 = 1" "pxCurrentTCB s1 = Some t" "xPendedTicks s1 = 0" "uxCurrentNumberOfTasks s1 > 0"
    using f susp pend cur(1) i(3) by simp_all
  obtain s' c' s2 c2 cur' where y: "resume_and_yield s1 = Some s'" "sched_ok L T c' s'" "unpends T s1 s2" "sched_ok L T c2 s2"
    "passes T (unat (xPendedTicks s1)) s2 s'" "uxSchedulerSuspended s' = 0" "xPendedTicks s' = 0"
    "pxCurrentTCB s' = Some cur'" "top_task T s' cur'" "same_ctrl s1 s'"
    by (rule resume_and_yield_spec[OF 1(2) u1(2,1,4) i(1) r1])
  have "call_result idle L T k (resume_and_yield s1)" by (rule resume_yield_result[OF sane 1(2) k1 r1 u1(1)])
  then have sane': "sane idle L T s'" using y(1) by (simp add: call_result_def)
  have pe: "pending T s1 = pending T k" using 1(5) by (simp add: pending_def)
  have tp: "t \<notin> pending T k" using cur(3,4) by (simp add: pending_def xPendingReadyList_def)
  have co: "cont (kls s') (St u) = cont (kls s2) (St u)" "cont (kls s') (Ev u) = cont (kls s2) (Ev u)"
    "same_data (kls s2) (kls s')" "xTickCount s' = xTickCount s2" for u
    using y(5) expired_0[OF y(4)] by (simp_all add: passes_def u1(3))
  have st: "cont (kls s') (St t) = cont (kls s1) (St t)" "val (kls s') i = val (kls s1) i" "xTickCount s' = xTickCount s1" for i
    using y(3) tp co by (simp_all add: unpends_def same_data_def pe)
  have p: "parked n s' t" using 1(3) st by (auto simp: parked_def blocked_def remaining_def)
  then have ct: "cur' \<noteq> t" using parked_not(1)[OF y(2) t(1) p] y(9) by (auto simp: top_task_def)
  have ev: "cont (kls s') (Ev u) = (if u \<in> pending T k then None else cont (kls k) (Ev u)) \<and> val (kls s') (Ev u) = val (kls k) (Ev u)" for u
    using y(3) co(2) st(2) 1(5) by (simp add: unpends_def pe)
  show thesis
    by (rule that[OF 1(1) y(1) sane' y(6,7) p]) (use y(8,10) ct f st ev in \<open>simp_all add: same_ctrl_def\<close>)
qed

text \<open>Putting the running task on an event list and blocking it.\<close>

lemma event_block_spec:
  assumes sane: "sane idle L T s" and susp: "uxSchedulerSuspended s = 0" and pend: "xPendedTicks s = 0"
    and cur: "pxCurrentTCB s = Some t" "t \<noteq> idle" "cont (kls s) (Ev t) = None" and n: "n \<noteq> 0"
    and l: "l \<in> L" "\<not> state_list l" "l \<noteq> 7"
  obtains s' where "Option.bind (vTaskPlaceOnEventList l n (vTaskSuspendAll s)) resume_and_yield = Some s'"
    "sane idle L T s'" "uxSchedulerSuspended s' = 0" "xPendedTicks s' = 0" "parked n s' t" "pxCurrentTCB s' \<noteq> Some t"
    "tcbs s' = tcbs s" "kheap s' = kheap s" "xTickCount s' = xTickCount s"
    "\<forall>k. k \<noteq> 7 \<longrightarrow> nobody_waits k s \<longrightarrow> (if k = l then waits_alone k s' t else nobody_waits k s')"
proof -
  let ?s = "vTaskSuspendAll s"
  have f0: "kls ?s = kls s" "tcbs ?s = tcbs s" "pxCurrentTCB ?s = Some t" "uxSchedulerSuspended ?s = 1" "xPendedTicks ?s = 0"
    "kheap ?s = kheap s" "xTickCount ?s = xTickCount s"
    using cur(1) susp pend by (simp_all add: vTaskSuspendAll_def)
  have s: "sane idle L T ?s" using suspend_all_call[OF sane] by (simp add: call_result_def)
  obtain c where ok: "sched_ok L T c ?s" and t: "t \<in> T" "t \<notin> dead T ?s" using s f0(3) by (auto simp: sane_def running_ok_def)
  note base = sched_okD(1)[OF ok]
  have nc: "cont (kls ?s) (Ev t) = None" using cur(3) f0 by simp
  obtain K where K: "vListInsert l (Ev t) (kls ?s) = Some K" "lists_ok L (c(l := insort_after (kls ?s) (Ev t) (c l))) K"
    "same_data (kls ?s) K" "cont K = (cont (kls ?s))(Ev t := Some l)"
    by (rule insert_sorted_ok[OF base_okD(1)[OF base] l(1) nc base_length[OF base l(1)]])
  let ?k = "?s\<lparr>kls := K\<rparr>"
  note m = event_moved[OF s ok t base_insert_event[OF base t(1) nc l(1,2) K(2-4)] K(3,4)]
  have k: "uxSchedulerSuspended ?k = 1" "xPendedTicks ?k = 0" "pxCurrentTCB ?k = Some t" "cont (kls ?k) (Ev t) = Some l"
    using f0 K(4) by simp_all
  obtain s1 s' where 1: "prvAddCurrentTaskToDelayedList n True ?k = Some s1" "resume_and_yield s1 = Some s'"
    "sane idle L T s'" "uxSchedulerSuspended s' = 0" "xPendedTicks s' = 0" "parked n s' t" "pxCurrentTCB s' \<noteq> Some t"
    "tcbs s' = tcbs ?k" "kheap s' = kheap ?k" "xTickCount s' = xTickCount ?k"
    "\<forall>u. cont (kls s') (Ev u) = (if u \<in> pending T ?k then None else cont (kls ?k) (Ev u)) \<and> val (kls s') (Ev u) = val (kls ?k) (Ev u)"
    by (rule event_block_rest[OF m(2) k(1-3) cur(2) k(4) l(3) n])
  have "vTaskPlaceOnEventList l n ?s = Some s1"
    using f0 K(1) 1(1) by (simp add: vTaskPlaceOnEventList_def k_insert_def)
  moreover have "t \<notin> pending T ?k" using k(4) l(3) by (simp add: pending_def xPendingReadyList_def)
  then have w: "\<forall>k. k \<noteq> 7 \<longrightarrow> nobody_waits k s \<longrightarrow> (if k = l then waits_alone k s' t else nobody_waits k s')"
    using 1(11) K(4) f0(1) by (auto simp: waits_alone_def nobody_waits_def)
  ultimately show thesis
    by (intro that[OF _ 1(3-7) _ _ _ w]) (use 1(2,8-10) f0 in simp_all)
qed

text \<open>Waking the first task of an event list.\<close>

lemma event_wake_spec:
  assumes sane: "sane idle L T s" and susp: "uxSchedulerSuspended s = 0" and ok: "sched_ok L T c s"
    and l: "l \<in> L" "\<not> state_list l" and head: "c l = Ev t # ys" and cur: "pxCurrentTCB s = Some cur"
  obtains s' c' where "xTaskRemoveFromEventList l s = Some (prio s cur < prio s t, s')" "sched_ok L T c' s'" "sane idle L T s'"
    "keeps_tasks T s s'" "cont (kls s') = (cont (kls s))(Ev t := None, St t := Some (unat (prio s t)))" "ready s' t"
    "tcbs s' = tcbs s" "pxCurrentTCB s' = Some cur" "uxSchedulerSuspended s' = 0" "xPendedTicks s' = xPendedTicks s"
    "xYieldPending s' = (xYieldPending s \<or> prio s cur < prio s t)" "t \<in> T"
proof -
  note base = sched_okD(1)[OF ok]
  have x: "Ev t \<in> set (c l)" by (simp add: head)
  obtain u where "u \<in> T" "Ev t = Ev u" "cont (kls s) (Ev u) = Some l" by (rule event_list_items[OF ok l x])
  then have t: "t \<in> T" "cont (kls s) (Ev t) = Some l" by simp_all
  have td: "t \<notin> dead T s" using t(2) sane by (auto simp: sane_def)
  have ow: "listGET_OWNER_OF_HEAD_ENTRY l (kls s) = Some t"
    using lists_head(1)[OF base_okD(1)[OF base] l(1) head] base_okD(3)[OF base] t(1) by (simp add: tasks_ok_def)
  obtain K where K: "k_REMOVE (Ev t) s = Some (s\<lparr>kls := K\<rparr>)" "base_ok L T {} (c(l := remove1 (Ev t) (c l))) (s\<lparr>kls := K\<rparr>)"
    "same_data (kls s) K" "cont K = (cont (kls s))(Ev t := None)"
    by (rule base_remove_event[OF base t(2)])
  let ?k = "s\<lparr>kls := K\<rparr>"
  note m = event_moved[OF sane ok t(1) td K(2-4)]
  obtain s1 s2 c2 where r: "k_REMOVE (St t) ?k = Some s1" "prvAddTaskToReadyList t s1 = s2" "sched_ok L T c2 s2"
    "same_data (kls ?k) (kls s2)" "cont (kls s2) = (cont (kls ?k))(St t := Some (unat (prio ?k t)))"
    "s2 = ?k\<lparr>kls := kls s2, uxTopReadyPriority := uxTopReadyPriority s2\<rparr>"
    by (rule move_READY_spec[OF m(1) t(1)])
  have f2: "tcbs s2 = tcbs s" "pxCurrentTCB s2 = pxCurrentTCB s" "xYieldPending s2 = xYieldPending s"
    "uxSchedulerSuspended s2 = uxSchedulerSuspended s" "xPendedTicks s2 = xPendedTicks s" by (subst r(6), simp)+
  define s' where "s' = (if prio s cur < prio s t then s2\<lparr>xYieldPending := True\<rparr> else s2)"
  have e: "xTaskRemoveFromEventList l s = Some (prio s cur < prio s t, s')"
    using ow K(1) r(1,2) susp cur f2 by (simp add: xTaskRemoveFromEventList_def Let_def s'_def)
  have f: "kls s' = kls s2" "tcbs s' = tcbs s" "pxCurrentTCB s' = Some cur" "uxSchedulerSuspended s' = 0" "xPendedTicks s' = xPendedTicks s"
    "xYieldPending s' = (xYieldPending s \<or> prio s cur < prio s t)"
    using f2 cur susp by (simp_all add: s'_def)
  have ok': "sched_ok L T c2 s'" using r(3) by (simp add: s'_def)
  have sc: "same_ctrl ?k s'" using same_ctrl_kls[OF r(6)] by (auto simp: s'_def same_ctrl_def)
  note q = readied_result[OF m(2) t(1) td[folded m(4)] ok' _ _ sc]
  have q1: "keeps_tasks T ?k s'" "ready s' idle" "running_ok T s'"
    using q r(5) f cur by auto
  have "sane idle L T s'" by (rule sane_next[OF m(2) ok' q1(1,3,2)])
  moreover have "keeps_tasks T s s'" by (rule keeps_tasks_trans[OF m(3) q1(1)])
  moreover have "cont (kls s') = (cont (kls s))(Ev t := None, St t := Some (unat (prio s t)))" using r(5) K(4) f(1) by simp
  moreover from this have "ready s' t" using f(2) by (simp add: ready_def pxReadyTasksLists_def)
  ultimately show thesis using that[OF e ok'] f t(1) by blast
qed


text \<open>The one waiting task of an event list is woken and runs, if its priority is above all others.\<close>

lemma wake_waiter:
  assumes sane: "sane idle L T s" and susp: "uxSchedulerSuspended s = 0" and l: "l \<in> L" "\<not> state_list l"
    and w: "waits_alone l s t" and cur: "pxCurrentTCB s \<noteq> Some t" and hi: "\<forall>u\<in>T. u \<noteq> t \<longrightarrow> prio s u < prio s t"
  obtains s' s'' where "\<not> listLIST_IS_EMPTY l (kls s)" "xTaskRemoveFromEventList l s = Some (True, s')"
    "portYIELD_WITHIN_API s' = Some s''" "pxCurrentTCB s'' = Some t" "sane idle L T s''" "uxSchedulerSuspended s'' = 0"
    "kheap s' = kheap s" "kheap s'' = kheap s" "\<forall>k. nobody_waits k s \<longrightarrow> nobody_waits k s''"
proof -
  obtain c where ok: "sched_ok L T c s" using sane by (auto simp: sane_def)
  obtain cu where cu: "pxCurrentTCB s = Some cu" "cu \<in> T" using ok by (auto simp: sched_ok_def)
  have head: "c l = Ev t # []" using alone_list[OF ok l w] by simp
  obtain s' c' where 1: "xTaskRemoveFromEventList l s = Some (prio s cu < prio s t, s')" "sched_ok L T c' s'" "sane idle L T s'"
    "keeps_tasks T s s'" "cont (kls s') = (cont (kls s))(Ev t := None, St t := Some (unat (prio s t)))" "ready s' t"
    "tcbs s' = tcbs s" "pxCurrentTCB s' = Some cu" "uxSchedulerSuspended s' = 0" "t \<in> T"
    by (rule event_wake_spec[OF sane susp ok l head cu(1)])
  have pr: "prio s cu < prio s t" using hi cu cur by auto
  have i: "idle \<in> T" "ready s' idle" using 1(3) by (simp_all add: sane_def)
  obtain s'' cur' where y: "portYIELD_WITHIN_API s' = Some s''" "vTaskSwitchContext s' = Some s''" "sched_ok L T c' s''"
    "quiet s' s''" "pxCurrentTCB s'' = Some cur'"
    "if uxSchedulerSuspended s' = 0 then top_task T s'' cur' else s'' = s'\<lparr>xYieldPending := True\<rparr>"
    by (rule yield_spec[OF 1(2) i])
  have s'': "sane idle L T s''"
    using yield_result[OF 1(3,2) _ i(2)] 1(9) y(1) by (simp add: call_result_def keeps_tasks_def keeps_dead_def)
  have "ready s'' t" using 1(6) quiet_views(3)[OF y(4)] by simp
  then have "prio s t \<le> prio s cur'" "cur' \<in> T" using y(4,6) 1(7,9,10) by (auto simp: top_task_def quiet_def)
  then have "cur' = t" using hi by (auto simp: not_less[symmetric])
  moreover have "\<not> listLIST_IS_EMPTY l (kls s)"
    using lists_empty[OF base_okD(1)[OF sched_okD(1)[OF ok]] l(1)] head by simp
  moreover have "\<forall>k. nobody_waits k s \<longrightarrow> nobody_waits k s''"
    using y(4) 1(5) by (auto simp: nobody_waits_def quiet_def)
  ultimately show thesis
    using that[of s' s''] 1(1,4,9) y(1,4,5) pr s'' by (simp add: quiet_def keeps_tasks_def)
qed

text \<open>Ticks leave the tasks that wait for an event alone until their time is up.\<close>

lemma ticks_keep:
  assumes "sane idle L T s" "run_ticks m s = Some s'"
  shows "keeps_tasks T s s'"
  using assms
proof (induction m arbitrary: s)
  case (Suc m)
  obtain s1 where 1: "tick_isr s = Some s1" "sane idle L T s1" "keeps_tasks T s s1"
    using tick_call[OF Suc.prems(1)] by (auto simp: call_result_def)
  with Suc have "keeps_tasks T s1 s'" by simp
  with 1(3) show ?case by (rule keeps_tasks_trans)
qed (simp add: keeps_tasks_def keeps_dead_def)

lemma waiting_ticks:
  assumes sane: "sane idle L T s" and susp: "uxSchedulerSuspended s = 0" and r: "run_ticks m s = Some s'"
  shows "nobody_waits k s \<Longrightarrow> nobody_waits k s'" "kheap s' = kheap s"
    "waits_alone l s t \<Longrightarrow> parked n s t \<Longrightarrow> n = portMAX_DELAY \<or> m < unat n \<Longrightarrow> waits_alone l s' t"
    "waits_alone l s t \<Longrightarrow> parked n s t \<Longrightarrow> n \<noteq> portMAX_DELAY \<Longrightarrow> m = unat n \<Longrightarrow> t \<in> T \<Longrightarrow> nobody_waits l s'"
proof -
  obtain c where ok: "sched_ok L T c s" and i: "idle \<in> T" "ready s idle" using sane by (auto simp: sane_def)
  have p: "passes T m s s'" using run_ticks_spec[OF ok susp i, of m] r by auto
  have ev: "cont (kls s') (Ev u) = (if u \<in> expired T m s then None else cont (kls s) (Ev u))" for u
    using p by (simp add: passes_def)
  show "nobody_waits k s \<Longrightarrow> nobody_waits k s'" by (simp add: nobody_waits_def ev)
  show "kheap s' = kheap s" using ticks_keep[OF sane r] by (simp add: keeps_tasks_def)
  show "waits_alone l s' t" if a: "waits_alone l s t" "parked n s t" "n = portMAX_DELAY \<or> m < unat n"
  proof -
    have "t \<notin> expired T m s" using a(2,3) blocked_cont[of s t] by (auto simp: expired_def parked_def split: if_splits)
    then show ?thesis using a(1) by (auto simp: waits_alone_def ev)
  qed
  show "nobody_waits l s'" if a: "waits_alone l s t" "parked n s t" "n \<noteq> portMAX_DELAY" "m = unat n" "t \<in> T"
  proof -
    have "t \<in> expired T m s" using a(2-5) by (simp add: expired_def parked_def)
    then show ?thesis using a(1) by (auto simp: waits_alone_def nobody_waits_def ev)
  qed
qed

subsection \<open>A call of \<^verbatim>\<open>xQueueReceive\<close>\<close>

text \<open>The queue \<open>q\<close> is not locked, its event lists are lists of the kernel, and no task waits on them.\<close>

definition queue_free :: "nat \<Rightarrow> nat set \<Rightarrow> qsys \<Rightarrow> bool" where
  "queue_free q L s \<longleftrightarrow> xTasksWaitingToSend q \<in> L \<and> xTasksWaitingToReceive q \<in> L \<and>
     nobody_waits (xTasksWaitingToSend q) (kern s) \<and> nobody_waits (xTasksWaitingToReceive q) (kern s) \<and>
     cRxLock (queues s q) = queueUNLOCKED \<and> cTxLock (queues s q) = queueUNLOCKED"

lemma event_list_ids:
  "\<not> state_list (xTasksWaitingToSend q)" "\<not> state_list (xTasksWaitingToReceive q)"
  "xTasksWaitingToSend q \<noteq> 7" "xTasksWaitingToReceive q \<noteq> 7" "xTasksWaitingToSend q \<noteq> xTasksWaitingToReceive q"
  by (simp_all add: state_list_def xTasksWaitingToSend_def xTasksWaitingToReceive_def)

text \<open>Locking and unlocking a queue that nothing happens to in between.\<close>

lemma lock_values [simp]: "queueLOCKED_UNMODIFIED \<noteq> queueUNLOCKED" "sint queueLOCKED_UNMODIFIED = 0"
  by (simp_all add: queueLOCKED_UNMODIFIED_def queueUNLOCKED_def)

lemma lock_queue:
  assumes "cRxLock (queues s q) = queueUNLOCKED" "cTxLock (queues s q) = queueUNLOCKED"
  shows "queue_suspend q s = s\<lparr>kern := vTaskSuspendAll (kern s),
    queues := (queues s)(q := (queues s q)\<lparr>cRxLock := queueLOCKED_UNMODIFIED, cTxLock := queueLOCKED_UNMODIFIED\<rparr>)\<rparr>"
  using assms by (simp add: queue_suspend_def prvLockQueue_def upd_queue_def Let_def)

lemma unlock_queue:
  assumes "cRxLock (queues s q) = queueLOCKED_UNMODIFIED" "cTxLock (queues s q) = queueLOCKED_UNMODIFIED"
  shows "prvUnlockQueue q s = Some (s\<lparr>queues := (queues s)(q := (queues s q)\<lparr>cTxLock := queueUNLOCKED, cRxLock := queueUNLOCKED\<rparr>)\<rparr>)"
  using assms by (simp add: prvUnlockQueue_def on_kernel_def upd_queue_def Let_def)

lemma relock:
  assumes "cRxLock r = queueUNLOCKED" "cTxLock r = queueUNLOCKED"
  shows "r\<lparr>cTxLock := queueUNLOCKED, cRxLock := queueUNLOCKED\<rparr> = r"
  using assms by (cases r) simp

text \<open>The call finds the queue empty and blocks.\<close>

lemma receive_blocks:
  assumes sane: "sane idle L T (kern s)" and susp: "uxSchedulerSuspended (kern s) = 0" and pend: "xPendedTicks (kern s) = 0"
    and cur: "pxCurrentTCB (kern s) = Some t" "t \<noteq> idle" "cont (kls (kern s)) (Ev t) = None" and n: "n \<noteq> 0"
    and q: "queue_free q L s" "uxMessagesWaiting (queues s q) = 0"
  defines "to \<equiv> vTaskInternalSetTimeOutState (kern s)"
  obtains s' where "xQueueReceive_try q n None s = Some (Wait to, s)"
    "xQueueReceive_wait q n to (queue_suspend q s) = Some (Some (to, n), s')"
    "queues s' = queues s" "sane idle L T (kern s')" "uxSchedulerSuspended (kern s') = 0" "xPendedTicks (kern s') = 0"
    "parked n (kern s') t" "pxCurrentTCB (kern s') \<noteq> Some t" "tcbs (kern s') = tcbs (kern s)" "kheap (kern s') = kheap (kern s)"
    "xTickCount (kern s') = xTickCount (kern s)"
    "waits_alone (xTasksWaitingToReceive q) (kern s') t" "nobody_waits (xTasksWaitingToSend q) (kern s')"
proof -
  let ?l = "xTasksWaitingToReceive q" and ?r = "queues s q"
  have l: "?l \<in> L" and u: "cRxLock ?r = queueUNLOCKED" "cTxLock ?r = queueUNLOCKED" using q(1) by (simp_all add: queue_free_def)
  obtain k where k: "Option.bind (vTaskPlaceOnEventList ?l n (vTaskSuspendAll (kern s))) resume_and_yield = Some k"
    "sane idle L T k" "uxSchedulerSuspended k = 0" "xPendedTicks k = 0" "parked n k t" "pxCurrentTCB k \<noteq> Some t"
    "tcbs k = tcbs (kern s)" "kheap k = kheap (kern s)" "xTickCount k = xTickCount (kern s)"
    "\<forall>j. j \<noteq> 7 \<longrightarrow> nobody_waits j (kern s) \<longrightarrow> (if j = ?l then waits_alone j k t else nobody_waits j k)"
    by (rule event_block_spec[OF sane susp pend cur n l event_list_ids(2,4)])
  have w: "waits_alone ?l k t" "nobody_waits (xTasksWaitingToSend q) k"
    using k(10) q(1) event_list_ids(3-5) by (auto simp: queue_free_def)
  have "xQueueReceive_try q n None s = Some (Wait to, s)"
    using q(2) n by (simp add: xQueueReceive_try_def enter_timeout_def to_def)
  moreover
  have "xTaskCheckForTimeOut to n (vTaskSuspendAll (kern s)) = (False, to, n)"
    using n by (simp add: xTaskCheckForTimeOut_def to_def vTaskInternalSetTimeOutState_def vTaskSuspendAll_def word_neq_0_conv Let_def)
  then have "xQueueReceive_wait q n to (queue_suspend q s) = Some (Some (to, n), s\<lparr>kern := k\<rparr>)"
    using k(1) q(2) unfolding lock_queue[OF u]
    by (auto simp: xQueueReceive_wait_def prvIsQueueEmpty_def queue_block_def on_kernel_def unlock_queue relock[OF u] bind_eq_Some_conv)
  ultimately show thesis using k(2-9) w by (intro that[of "s\<lparr>kern := k\<rparr>"]) simp_all
qed

text \<open>Sending to the queue the task waits on, from another task and from an interrupt.\<close>

lemma sane_heap: "sane idle L T (s\<lparr>kheap := h\<rparr>) = sane idle L T s"
  by (simp add: sane_def running_ok_def dead_def top_task_def ready_def)

lemma send_wakes:
  assumes sane: "sane idle L T (kern s)" and susp: "uxSchedulerSuspended (kern s) = 0"
    and q: "queue_ok (queues s q)" "uxMessagesWaiting (queues s q) = 0" "cTxLock (queues s q) = queueUNLOCKED" "length x = isize (queues s q)"
    and l: "xTasksWaitingToReceive q \<in> L" "xTasksWaitingToSend q \<in> L"
    and w: "waits_alone (xTasksWaitingToReceive q) (kern s) t" "nobody_waits (xTasksWaitingToSend q) (kern s)"
    and cur: "pxCurrentTCB (kern s) \<noteq> Some t" and hi: "\<forall>u\<in>T. u \<noteq> t \<longrightarrow> prio (kern s) u < prio (kern s) t"
  shows "\<exists>s' s'' k. xQueueGenericSend_try q ((!) x) n queueSEND_TO_BACK to s = Some (Return True, s') \<and> pxCurrentTCB (kern s') = Some t \<and>
    xQueueReceive_try q n' to' s' = Some (Return (Some x), s'') \<and>
    xQueueGenericSendFromISR q ((!) x) queueSEND_TO_BACK s = Some (True, True, s'\<lparr>kern := k\<rparr>) \<and> portYIELD_WITHIN_API k = Some (kern s')"
proof -
  let ?r = "queues s q" and ?l = "xTasksWaitingToReceive q"
  have room: "count ?r < slots ?r" "uxMessagesWaiting ?r < uxLength ?r"
    using q(1,2) by (auto simp: queue_ok_def word_less_nat_alt)
  obtain r m where c: "prvCopyDataToQueue ((!) x) queueSEND_TO_BACK ?r (kmem s) = (r, m)" by fastforce
  note cb = copy_back[OF q(1,4) room(1) c]
  define s1 where "s1 = set_kmem m (upd_queue q (\<lambda>_. r) s)"
  have k1: "kern s1 = (kern s)\<lparr>kheap := (kheap (kern s))\<lparr>hmem := m\<rparr>\<rparr>" "queues s1 = (queues s)(q := r)" "kmem s1 = m"
    by (simp_all add: s1_def set_kmem_def upd_queue_def kmem_def)
  have p1: "sane idle L T (kern s1)" "uxSchedulerSuspended (kern s1) = 0" "waits_alone ?l (kern s1) t"
    "nobody_waits (xTasksWaitingToSend q) (kern s1)" "pxCurrentTCB (kern s1) \<noteq> Some t"
    "\<forall>u\<in>T. u \<noteq> t \<longrightarrow> prio (kern s1) u < prio (kern s1) t"
    using sane susp w cur hi by (simp_all add: k1 sane_heap waits_alone_def nobody_waits_def)
  obtain k2 k3 where 3: "\<not> listLIST_IS_EMPTY ?l (kls (kern s1))" "xTaskRemoveFromEventList ?l (kern s1) = Some (True, k2)"
    "portYIELD_WITHIN_API k2 = Some k3" "pxCurrentTCB k3 = Some t" "sane idle L T k3" "uxSchedulerSuspended k3 = 0"
    "kheap k2 = kheap (kern s1)" "kheap k3 = kheap (kern s1)" "\<forall>k. nobody_waits k (kern s1) \<longrightarrow> nobody_waits k k3"
    by (rule wake_waiter[OF p1(1,2) l(1) event_list_ids(2) p1(3,5,6)])
  define s' where "s' = s1\<lparr>kern := k3\<rparr>"
  have ci: "copy_in q ((!) x) queueSEND_TO_BACK s = s1" using c by (simp add: copy_in_def s1_def)
  have send: "xQueueGenericSend_try q ((!) x) n queueSEND_TO_BACK to s = Some (Return True, s')"
    using room(2) 3(1-3) by (simp add: xQueueGenericSend_try_def ci on_kernel_def wake_and_yield_def s'_def)
  have isr: "xQueueGenericSendFromISR q ((!) x) queueSEND_TO_BACK s = Some (True, True, s'\<lparr>kern := k2\<rparr>)"
    using room(2) 3(1,2) q(3) by (simp add: xQueueGenericSendFromISR_def ci wake_FromISR_def s'_def)
  have km: "kmem s' = m" using 3(8) by (simp add: s'_def kmem_def k1)
  obtain r2 y where o: "prvCopyDataFromQueue r (kmem s') = (r2, y)" by fastforce
  have n1: "count r = 1" using cb(7) q(2) by simp
  have "queue_items ?r (kmem s) = []" using q(2) by (simp add: queue_items_def)
  then have y: "y = x" using copy_out_first(2)[OF cb(1) _ o] cb(2) n1 km by simp
  obtain c3 where ok3: "sched_ok L T c3 k3" using 3(5) by (auto simp: sane_def)
  have e: "listLIST_IS_EMPTY (xTasksWaitingToSend q) (kls k3)"
    by (rule nobody_list(2)[OF ok3 l(2) event_list_ids(1) 3(9)[rule_format, OF p1(4)]])
  have nz: "0 < uxMessagesWaiting r" using n1 by (simp add: word_less_nat_alt)
  have "\<exists>s''. xQueueReceive_try q n' to' s' = Some (Return (Some x), s'')"
    using nz o y e by (simp add: xQueueReceive_try_def copy_out_def upd_queue_def on_kernel_def wake_and_yield_def s'_def k1 Let_def)
  then show ?thesis using send isr 3(3,4) by (auto simp: s'_def)
qed


text \<open>The call finds the queue empty when its time is up.\<close>

lemma receive_times_out:
  assumes sane: "sane idle L T (kern s)" and n: "n \<noteq> 0" "n \<noteq> portMAX_DELAY"
    and q: "uxMessagesWaiting (queues s q) = 0" "cRxLock (queues s q) = queueUNLOCKED" "cTxLock (queues s q) = queueUNLOCKED"
    and now: "xTickCount (kern s) = xTimeOnEntering to + n"
  shows "xQueueReceive_try q n (Some to) s = Some (Wait to, s)"
    "\<exists>s'. xQueueReceive_wait q n to (queue_suspend q s) = Some (None, s')"
proof -
  show "xQueueReceive_try q n (Some to) s = Some (Wait to, s)"
    using q(1) n(1) by (simp add: xQueueReceive_try_def enter_timeout_def)
  have t: "xTaskCheckForTimeOut to n (vTaskSuspendAll (kern s)) = (True, to, 0)"
    using n(2) now by (simp add: xTaskCheckForTimeOut_def vTaskSuspendAll_def Let_def)
  have "call_result idle L T (vTaskSuspendAll (kern s)) (map_option snd (xTaskResumeAll (vTaskSuspendAll (kern s))))"
    by (rule resume_all_call) (use suspend_all_call[OF sane] in \<open>simp add: call_result_def\<close>)
  then obtain y k where "xTaskResumeAll (vTaskSuspendAll (kern s)) = Some (y, k)" by (auto simp: call_result_def)
  then show "\<exists>s'. xQueueReceive_wait q n to (queue_suspend q s) = Some (None, s')"
    using t q(1) unfolding lock_queue[OF q(2,3)]
    by (simp add: xQueueReceive_wait_def prvIsQueueEmpty_def queue_resume_def on_kernel_def unlock_queue relock[OF q(2,3)])
qed

text \<open>C4. What \<^verbatim>\<open>xQueueReceive\<close> on an empty queue promises the task \<open>t\<close> of the highest priority: the call blocks
  it, and it does not run until an item comes or its time is up. Whichever tick an item is sent in, by a task or from
  an interrupt, the sender hands the processor to \<open>t\<close> (the interrupt at its closing yield), and \<open>t\<close> receives exactly
  this item. Without an item \<open>t\<close> runs again after exactly \<open>n\<close> ticks, and the call ends as timed out;
  \<^verbatim>\<open>portMAX_DELAY\<close> waits for ever.\<close>

theorem queue_message_delivered:
  assumes "sane idle L T (kern s)" "uxSchedulerSuspended (kern s) = 0" "xPendedTicks (kern s) = 0"
    "pxCurrentTCB (kern s) = Some t" "t \<noteq> idle" "cont (kls (kern s)) (xEventListItem t) = None" "n \<noteq> 0"
    "queue_free q L s" "queue_ok (queues s q)" "uxMessagesWaiting (queues s q) = 0" "length x = isize (queues s q)"
    "\<forall>u\<in>T. u \<noteq> t \<longrightarrow> prio (kern s) u < prio (kern s) t"
  shows "\<exists>to s1. xQueueReceive_try q n None s = Some (Wait to, s) \<and>
    xQueueReceive_wait q n to (queue_suspend q s) = Some (Some (to, n), s1) \<and>
    (\<forall>m. n = portMAX_DELAY \<or> m < unat n \<longrightarrow>
       (\<exists>k2 s3 s4 k. run_ticks m (kern s1) = Some k2 \<and> pxCurrentTCB k2 \<noteq> Some t \<and>
          xQueueGenericSend_try q ((!) x) w queueSEND_TO_BACK e (s1\<lparr>kern := k2\<rparr>) = Some (Return True, s3) \<and>
          pxCurrentTCB (kern s3) = Some t \<and> xQueueReceive_try q n (Some to) s3 = Some (Return (Some x), s4) \<and>
          xQueueGenericSendFromISR q ((!) x) queueSEND_TO_BACK (s1\<lparr>kern := k2\<rparr>) = Some (True, True, s3\<lparr>kern := k\<rparr>) \<and>
          portYIELD_WITHIN_API k = Some (kern s3))) \<and>
    (n \<noteq> portMAX_DELAY \<longrightarrow>
       (\<exists>k2 s3. run_ticks (unat n) (kern s1) = Some k2 \<and> pxCurrentTCB k2 = Some t \<and>
          xQueueReceive_try q n (Some to) (s1\<lparr>kern := k2\<rparr>) = Some (Wait to, s1\<lparr>kern := k2\<rparr>) \<and>
          xQueueReceive_wait q n to (queue_suspend q (s1\<lparr>kern := k2\<rparr>)) = Some (None, s3)))"
proof -
  define to where "to = vTaskInternalSetTimeOutState (kern s)"
  let ?l = "xTasksWaitingToReceive q"
  obtain s1 where 1: "xQueueReceive_try q n None s = Some (Wait to, s)"
    "xQueueReceive_wait q n to (queue_suspend q s) = Some (Some (to, n), s1)"
    "queues s1 = queues s" "sane idle L T (kern s1)" "uxSchedulerSuspended (kern s1) = 0" "xPendedTicks (kern s1) = 0"
    "parked n (kern s1) t" "pxCurrentTCB (kern s1) \<noteq> Some t" "tcbs (kern s1) = tcbs (kern s)" "kheap (kern s1) = kheap (kern s)"
    "xTickCount (kern s1) = xTickCount (kern s)"
    "waits_alone ?l (kern s1) t" "nobody_waits (xTasksWaitingToSend q) (kern s1)"
    unfolding to_def by (rule receive_blocks[OF assms(1-8,10)])
  have t: "t \<in> T" using assms(1,4) by (auto simp: sane_def running_ok_def)
  have l: "?l \<in> L" "xTasksWaitingToSend q \<in> L" "cRxLock (queues s q) = queueUNLOCKED" "cTxLock (queues s q) = queueUNLOCKED"
    using assms(8) by (simp_all add: queue_free_def)
  have "\<exists>k2 s3 s4 k. run_ticks m (kern s1) = Some k2 \<and> pxCurrentTCB k2 \<noteq> Some t \<and>
      xQueueGenericSend_try q ((!) x) w queueSEND_TO_BACK e (s1\<lparr>kern := k2\<rparr>) = Some (Return True, s3) \<and>
      pxCurrentTCB (kern s3) = Some t \<and> xQueueReceive_try q n (Some to) s3 = Some (Return (Some x), s4) \<and>
      xQueueGenericSendFromISR q ((!) x) queueSEND_TO_BACK (s1\<lparr>kern := k2\<rparr>) = Some (True, True, s3\<lparr>kern := k\<rparr>) \<and>
      portYIELD_WITHIN_API k = Some (kern s3)"
    if m: "n = portMAX_DELAY \<or> m < unat n" for m
  proof -
    obtain k2 where 2: "run_ticks m (kern s1) = Some k2" "sane idle L T k2" "uxSchedulerSuspended k2 = 0" "tcbs k2 = tcbs (kern s1)"
      "pxCurrentTCB k2 \<noteq> Some t"
      using parked_ticks[OF 1(4,5) t 1(7,8) m] by blast
    note w = waiting_ticks[OF 1(4,5) 2(1)]
    let ?s = "s1\<lparr>kern := k2\<rparr>"
    have "\<forall>u\<in>T. u \<noteq> t \<longrightarrow> prio (kern ?s) u < prio (kern ?s) t" using assms(12) 1(9) 2(4) by simp
    from send_wakes[of idle L T ?s q x t w e n "Some to"] this 2 assms(9-11) l w(1)[OF 1(13)] w(3)[OF 1(12,7) m] 1(3)
    show ?thesis by (auto simp del: run_ticks.simps)
  qed
  moreover have "\<exists>k2 s3. run_ticks (unat n) (kern s1) = Some k2 \<and> pxCurrentTCB k2 = Some t \<and>
      xQueueReceive_try q n (Some to) (s1\<lparr>kern := k2\<rparr>) = Some (Wait to, s1\<lparr>kern := k2\<rparr>) \<and>
      xQueueReceive_wait q n to (queue_suspend q (s1\<lparr>kern := k2\<rparr>)) = Some (None, s3)" if fin: "n \<noteq> portMAX_DELAY"
  proof -
    have hi: "\<forall>u\<in>T. u \<noteq> t \<longrightarrow> prio (kern s1) u < prio (kern s1) t" using assms(12) 1(9) by simp
    obtain k2 where 2: "run_ticks (unat n) (kern s1) = Some k2" "pxCurrentTCB k2 = Some t" "sane idle L T k2"
      "xTickCount k2 = xTickCount (kern s1) + n"
      using parked_times_out[OF 1(4,5) t 1(7) fin assms(7) hi] by blast
    have e: "xTickCount (kern (s1\<lparr>kern := k2\<rparr>)) = xTimeOnEntering to + n"
      using 2(4) 1(11) by (simp add: to_def vTaskInternalSetTimeOutState_def)
    show ?thesis
      using receive_times_out[of idle L T "s1\<lparr>kern := k2\<rparr>" n q to] 2(1-3) assms(7,10) fin l(3,4) 1(3) e by auto
  qed
  ultimately show ?thesis using 1(1,2) by blast
qed


text \<open>A new queue: its event lists are new lists of the kernel, and no task waits on them.\<close>

lemma sane_new_list:
  assumes sane: "sane idle L T s" and l: "l \<notin> L" "\<not> state_list l"
  shows "sane idle (insert l L) T (s\<lparr>kls := vListInitialise l (kls s)\<rparr>)" "nobody_waits l s"
    "cont (vListInitialise l (kls s)) = cont (kls s)"
proof -
  let ?s = "s\<lparr>kls := vListInitialise l (kls s)\<rparr>"
  obtain c where ok: "sched_ok L T c s" using sane by (auto simp: sane_def)
  note base = sched_okD(1)[OF ok]
  have off: "\<forall>i. cont (kls s) i \<noteq> Some l" using lists_okD(2)[OF base_okD(1)[OF base]] l(1) by auto
  then show "nobody_waits l s" by (simp add: nobody_waits_def)
  note i = initialise_ok[OF base_okD(1)[OF base] l(1)]
  have l': "l \<noteq> 5" "l \<noteq> 6" using l(2) by (auto simp: state_list_def)
  show co: "cont (vListInitialise l (kls s)) = cont (kls s)" by (rule i(3))
  have "base_ok (insert l L) T {} (c(l := [])) ?s"
    using base i l' same_dataD[OF i(2)]
    by (auto simp: base_ok_def tasks_ok_def placed_ok_def ready_ok_def delayed_ok_def)
  moreover have "times_ok ?s" using sched_okD(2)[OF ok] same_dataD(1)[OF i(2)] by (simp add: times_ok_def co)
  ultimately have "sched_ok (insert l L) T (c(l := [])) ?s" using ok by (simp add: sched_ok_def)
  then show "sane idle (insert l L) T ?s"
    using sane by (auto simp: sane_def running_ok_def top_task_def ready_def dead_def co)
qed

lemma new_queue_free:
  assumes sane: "sane idle L T (kern s)" and new: "xTasksWaitingToSend q \<notin> L" "xTasksWaitingToReceive q \<notin> L" and nz: "q \<noteq> 0"
    and r: "uxLength (queues s q) \<ge> 1" "0xffffffff div uxLength (queues s q) \<ge> uxItemSize (queues s q)"
      "head_at (queues s q) + slots (queues s q) * isize (queues s q) < 2 ^ 32" "isize (queues s q) \<le> head_at (queues s q)"
  obtains s' where "xQueueGenericReset q True s = Some (True, s')"
    "sane idle (insert (xTasksWaitingToReceive q) (insert (xTasksWaitingToSend q) L)) T (kern s')"
    "queue_free q (insert (xTasksWaitingToReceive q) (insert (xTasksWaitingToSend q) L)) s'"
    "queue_ok (queues s' q)" "uxMessagesWaiting (queues s' q) = 0" "uxItemSize (queues s' q) = uxItemSize (queues s q)"
    "kern s' = (kern s)\<lparr>kls := kls (kern s')\<rparr>" "cont (kls (kern s')) = cont (kls (kern s))"
proof -
  let ?a = "xTasksWaitingToSend q" and ?b = "xTasksWaitingToReceive q"
  obtain s' r' where 1: "xQueueGenericReset q True s = Some (True, s')" "queues s' = (queues s)(q := r')" "queue_ok r'" "count r' = 0"
    "uxItemSize r' = uxItemSize (queues s q)" "cRxLock r' = queueUNLOCKED" "cTxLock r' = queueUNLOCKED"
    "kern s' = (kern s)\<lparr>kls := vListInitialise ?b (vListInitialise ?a (kls (kern s)))\<rparr>"
    by (rule reset_ok[OF nz r refl])
  note a = sane_new_list[OF sane new(1) event_list_ids(1)]
  have nb: "?b \<notin> insert ?a L" using new(2) event_list_ids(5)[of q] by simp
  note b = sane_new_list[OF a(1) nb event_list_ids(2)]
  have co: "cont (kls (kern s')) = cont (kls (kern s))" using a(3) b(3) by (simp add: 1(8))
  have "nobody_waits ?a (kern s')" "nobody_waits ?b (kern s')" using a(2) b(2) co by (simp_all add: nobody_waits_def a(3))
  moreover have "sane idle (insert ?b (insert ?a L)) T (kern s')" using b(1) by (simp add: 1(8))
  moreover have "uxMessagesWaiting r' = 0" using 1(4) by (simp add: unat_eq_0)
  ultimately show thesis using 1 co by (intro that[of s']) (simp_all add: queue_free_def)
qed

definition demo_qsys :: qsys where
  "demo_qsys = \<lparr>kern = demo_run, queues = (\<lambda>_. demo_queue), xQueueRegistry = []\<rparr>"

theorem queue_message_delivered_witness:
  "\<exists>s to s1 k2 s3 s4. xQueueGenericReset 0x30001000 True demo_qsys = Some (True, s) \<and>
     xQueueReceive_try 0x30001000 5 None s = Some (Wait to, s) \<and>
     xQueueReceive_wait 0x30001000 5 to (queue_suspend 0x30001000 s) = Some (Some (to, 5), s1) \<and>
     run_ticks 4 (kern s1) = Some k2 \<and>
     xQueueGenericSend_try 0x30001000 ((!) [1, 2, 3, 4]) 0 queueSEND_TO_BACK None (s1\<lparr>kern := k2\<rparr>) = Some (Return True, s3) \<and>
     xQueueReceive_try 0x30001000 5 (Some to) s3 = Some (Return (Some [1, 2, 3, 4]), s4)"
proof -
  let ?q = "0x30001000 :: nat" and ?T = "{0x300004A0, 0x30000218} :: nat set"
  let ?L = "insert (xTasksWaitingToReceive ?q) (insert (xTasksWaitingToSend ?q) {..10})"
  have d: "sane 0x30000218 {..10} ?T (kern demo_qsys)" "pxCurrentTCB (kern demo_qsys) = Some 0x300004A0" "uxSchedulerSuspended (kern demo_qsys) = 0"
    "cont (kls (kern demo_qsys)) (Ev 0x300004A0) = None" "xPendedTicks (kern demo_qsys) = 0"
    "prio (kern demo_qsys) 0x300004A0 = 2" "prio (kern demo_qsys) 0x30000218 = 0"
    using demo_run_ok by (auto simp: demo_qsys_def)
  have new: "xTasksWaitingToSend ?q \<notin> {..10}" "xTasksWaitingToReceive ?q \<notin> {..10}"
    by (simp_all add: xTasksWaitingToSend_def xTasksWaitingToReceive_def)
  obtain s where s: "xQueueGenericReset ?q True demo_qsys = Some (True, s)" "sane 0x30000218 ?L ?T (kern s)" "queue_free ?q ?L s"
    "queue_ok (queues s ?q)" "uxMessagesWaiting (queues s ?q) = 0" "uxItemSize (queues s ?q) = uxItemSize (queues demo_qsys ?q)"
    "kern s = (kern demo_qsys)\<lparr>kls := kls (kern s)\<rparr>" "cont (kls (kern s)) = cont (kls (kern demo_qsys))"
    by (rule new_queue_free[OF d(1) new]) (simp_all add: demo_qsys_def demo_queue_def)
  have f: "uxSchedulerSuspended (kern s) = 0" "xPendedTicks (kern s) = 0" "pxCurrentTCB (kern s) = Some 0x300004A0"
    "tcbs (kern s) = tcbs (kern demo_qsys)"
    by (subst s(7), simp add: d)+
  have hi: "\<forall>u\<in>?T. u \<noteq> 0x300004A0 \<longrightarrow> prio (kern s) u < prio (kern s) 0x300004A0" using d(6,7) f(4) by simp
  have l: "length [1, 2, 3, 4 :: u8_t] = isize (queues s ?q)" by (simp add: s(6) demo_qsys_def demo_queue_def)
  have n: "(0x300004A0 :: nat) \<noteq> 0x30000218" "(5 :: u32_t) \<noteq> 0" "(4 :: nat) < unat (5 :: u32_t)" by simp_all
  have e: "cont (kls (kern s)) (Ev 0x300004A0) = None" using s(8) d(4) by simp
  show ?thesis
    using queue_message_delivered[OF s(2) f(1-3) n(1) e n(2) s(3-5) l hi, of 0 None] n(3) s(1) by blast
qed

end
