(* ===== verification/Event_Groups.thy ===== *)
theory Event_Groups
  imports Queue_Wait
begin

section \<open>Event groups (event_groups.c)\<close>

text \<open>
  \<^verbatim>\<open>src/FreeRTOS-Kernel/event_groups.c\<close>: tasks wait for bits of a word to be set, all or any of
  them. The bits a task waits for, with three control bits, are the value of its event item; when it
  is woken the value is replaced by the bits that woke it. A group is named by the address of its
  control block. The versions for interrupts need the timer task and are compiled out. The calls that
  can block are cut at the yield: \<open>None\<close> in the result of a \<open>_block\<close> part says that the task waits,
  and goes on with the \<open>_end\<close> part when it runs again.
\<close>

subsection \<open>Data\<close>

type_synonym EventBits_t = TickType_t

definition eventCLEAR_EVENTS_ON_EXIT_BIT :: EventBits_t where "eventCLEAR_EVENTS_ON_EXIT_BIT = 0x01000000"
definition eventUNBLOCKED_DUE_TO_BIT_SET :: EventBits_t where "eventUNBLOCKED_DUE_TO_BIT_SET = 0x02000000"
definition eventWAIT_FOR_ALL_BITS :: EventBits_t where "eventWAIT_FOR_ALL_BITS = 0x04000000"
definition eventEVENT_BITS_CONTROL_BYTES :: EventBits_t where "eventEVENT_BITS_CONTROL_BYTES = 0xff000000"

record EventGroup_t =
  uxEventBits :: EventBits_t

definition sizeof_EventGroup_t :: nat where "sizeof_EventGroup_t = 24"

text \<open>The address of the list in the control block.\<close>

definition xTasksWaitingForBits :: "nat \<Rightarrow> nat" where "xTasksWaitingForBits g = g + 4"

record esys =
  ekern :: kernel
  groups :: "nat \<Rightarrow> EventGroup_t"

abbreviation ebits :: "esys \<Rightarrow> nat \<Rightarrow> EventBits_t" where "ebits s g \<equiv> uxEventBits (groups s g)"

definition set_ebits :: "nat \<Rightarrow> EventBits_t \<Rightarrow> esys \<Rightarrow> esys" where
  "set_ebits g v s = s\<lparr>groups := (groups s)(g := (groups s g)\<lparr>uxEventBits := v\<rparr>)\<rparr>"

definition on_ekern :: "(kernel \<Rightarrow> kernel option) \<Rightarrow> esys \<Rightarrow> esys option" where
  "on_ekern f s = map_option (\<lambda>k. s\<lparr>ekern := k\<rparr>) (f (ekern s))"

text \<open>Resuming the scheduler where the result is not used.\<close>

definition resume_quietly :: "kernel \<Rightarrow> kernel option" where
  "resume_quietly k = map_option snd (xTaskResumeAll k)"

definition listGET_HEAD_ENTRY :: "nat \<Rightarrow> list_store \<Rightarrow> item_ptr" where
  "listGET_HEAD_ENTRY l K = get_next K (ListEnd l)"

subsection \<open>Creating and deleting\<close>

definition xEventGroupCreate :: "esys \<Rightarrow> (nat \<times> esys) option" where
  "xEventGroupCreate s = do {
     (p, h) \<leftarrow> pvPortMalloc sizeof_EventGroup_t (kheap (ekern s));
     let s = s\<lparr>ekern := (ekern s)\<lparr>kheap := h\<rparr>\<rparr>;
     if p \<noteq> 0
     then do {
       let s = set_ebits p 0 s;
       let s = s\<lparr>ekern := (ekern s)\<lparr>kls := vListInitialise (xTasksWaitingForBits p) (kls (ekern s))\<rparr>\<rparr>;
       Some (p, s)
     }
     else Some (0, s)
   }"

text \<open>The event item behind a pointer into the list.\<close>

fun remove_unordered :: "item_ptr \<Rightarrow> TickType_t \<Rightarrow> kernel \<Rightarrow> kernel option" where
  "remove_unordered (Item i) v k = vTaskRemoveFromUnorderedEventList i v k"
| "remove_unordered (ListEnd l) v k = None"

partial_function (option) delete_loop :: "nat \<Rightarrow> kernel \<Rightarrow> kernel option" where
  "delete_loop l k =
     (if listCURRENT_LIST_LENGTH l (kls k) > 0
      then do {
        k \<leftarrow> remove_unordered (get_next (kls k) (ListEnd l)) eventUNBLOCKED_DUE_TO_BIT_SET k;
        delete_loop l k
      }
      else Some k)"

definition vEventGroupDelete :: "nat \<Rightarrow> esys \<Rightarrow> esys option" where
  "vEventGroupDelete g s = do {
     let s = s\<lparr>ekern := vTaskSuspendAll (ekern s)\<rparr>;
     s \<leftarrow> on_ekern (delete_loop (xTasksWaitingForBits g)) s;
     s \<leftarrow> on_ekern resume_quietly s;
     h \<leftarrow> vPortFree g (kheap (ekern s));
     Some (s\<lparr>ekern := (ekern s)\<lparr>kheap := h\<rparr>\<rparr>)
   }"

subsection \<open>Setting and clearing bits\<close>

text \<open>The loop over the waiting tasks; \<open>clr\<close> is \<^verbatim>\<open>uxBitsToClear\<close>.\<close>

partial_function (option) set_scan ::
    "nat \<Rightarrow> EventBits_t \<Rightarrow> item_ptr \<Rightarrow> EventBits_t \<Rightarrow> kernel \<Rightarrow> (EventBits_t \<times> kernel) option" where
  "set_scan l bits p clr k =
     (if p \<noteq> ListEnd l
      then do {
        let pxNext = get_next (kls k) p;
        let uxBitsWaitedFor = get_value (kls k) p;
        let uxControlBits = uxBitsWaitedFor AND eventEVENT_BITS_CONTROL_BYTES;
        let uxBitsWaitedFor = uxBitsWaitedFor AND NOT eventEVENT_BITS_CONTROL_BYTES;
        let xMatchFound =
          (if uxControlBits AND eventWAIT_FOR_ALL_BITS = 0 then uxBitsWaitedFor AND bits \<noteq> 0
           else uxBitsWaitedFor AND bits = uxBitsWaitedFor);
        if xMatchFound
        then do {
          let clr = (if uxControlBits AND eventCLEAR_EVENTS_ON_EXIT_BIT \<noteq> 0 then clr OR uxBitsWaitedFor else clr);
          k \<leftarrow> remove_unordered p (bits OR eventUNBLOCKED_DUE_TO_BIT_SET) k;
          set_scan l bits pxNext clr k
        }
        else set_scan l bits pxNext clr k
      }
      else Some (clr, k))"

definition xEventGroupSetBits :: "nat \<Rightarrow> EventBits_t \<Rightarrow> esys \<Rightarrow> esys option" where
  "xEventGroupSetBits g uxBitsToSet s = do {
     let l = xTasksWaitingForBits g;
     let s = s\<lparr>ekern := vTaskSuspendAll (ekern s)\<rparr>;
     let p = listGET_HEAD_ENTRY l (kls (ekern s));
     let s = set_ebits g (ebits s g OR uxBitsToSet) s;
     (clr, k) \<leftarrow> set_scan l (ebits s g) p 0 (ekern s);
     let s = s\<lparr>ekern := k\<rparr>;
     let s = set_ebits g (ebits s g AND NOT clr) s;
     on_ekern resume_quietly s
   }"

text \<open>The value returned is read after resuming the scheduler, which may run other tasks first.\<close>

definition xEventGroupSetBits_end :: "nat \<Rightarrow> esys \<Rightarrow> EventBits_t" where
  "xEventGroupSetBits_end g s = ebits s g"

definition xEventGroupClearBits :: "nat \<Rightarrow> EventBits_t \<Rightarrow> esys \<Rightarrow> EventBits_t \<times> esys" where
  "xEventGroupClearBits g uxBitsToClear s = (ebits s g, set_ebits g (ebits s g AND NOT uxBitsToClear) s)"

definition xEventGroupGetBitsFromISR :: "nat \<Rightarrow> esys \<Rightarrow> EventBits_t" where
  "xEventGroupGetBitsFromISR g s = ebits s g"

definition vEventGroupSetBitsCallback :: "nat \<Rightarrow> u32_t \<Rightarrow> esys \<Rightarrow> esys option" where
  "vEventGroupSetBitsCallback g v s = xEventGroupSetBits g v s"

definition vEventGroupClearBitsCallback :: "nat \<Rightarrow> u32_t \<Rightarrow> esys \<Rightarrow> esys" where
  "vEventGroupClearBitsCallback g v s = snd (xEventGroupClearBits g v s)"

subsection \<open>Waiting\<close>

definition prvTestWaitCondition :: "EventBits_t \<Rightarrow> EventBits_t \<Rightarrow> bool \<Rightarrow> bool" where
  "prvTestWaitCondition uxCurrentEventBits uxBitsToWaitFor xWaitForAllBits =
     (if \<not> xWaitForAllBits then (if uxCurrentEventBits AND uxBitsToWaitFor \<noteq> 0 then True else False)
      else (if uxCurrentEventBits AND uxBitsToWaitFor = uxBitsToWaitFor then True else False))"

definition xEventGroupWaitBits_block ::
    "nat \<Rightarrow> EventBits_t \<Rightarrow> bool \<Rightarrow> bool \<Rightarrow> TickType_t \<Rightarrow> esys \<Rightarrow> (EventBits_t option \<times> esys) option" where
  "xEventGroupWaitBits_block g uxBitsToWaitFor xClearOnExit xWaitForAllBits xTicksToWait s =
     (let s = s\<lparr>ekern := vTaskSuspendAll (ekern s)\<rparr>;
          uxCurrentEventBits = ebits s g
      in if prvTestWaitCondition uxCurrentEventBits uxBitsToWaitFor xWaitForAllBits
         then do {
           let s = (if xClearOnExit then set_ebits g (ebits s g AND NOT uxBitsToWaitFor) s else s);
           s \<leftarrow> on_ekern resume_quietly s;
           Some (Some uxCurrentEventBits, s)
         }
         else if xTicksToWait = 0
         then do { s \<leftarrow> on_ekern resume_quietly s; Some (Some uxCurrentEventBits, s) }
         else do {
           let uxControlBits = 0;
           let uxControlBits = (if xClearOnExit then uxControlBits OR eventCLEAR_EVENTS_ON_EXIT_BIT else uxControlBits);
           let uxControlBits = (if xWaitForAllBits then uxControlBits OR eventWAIT_FOR_ALL_BITS else uxControlBits);
           s \<leftarrow> on_ekern (vTaskPlaceOnUnorderedEventList (xTasksWaitingForBits g) (uxBitsToWaitFor OR uxControlBits) xTicksToWait) s;
           s \<leftarrow> on_ekern resume_and_yield s;
           Some (None, s)
         })"

definition xEventGroupWaitBits_end :: "nat \<Rightarrow> EventBits_t \<Rightarrow> bool \<Rightarrow> bool \<Rightarrow> esys \<Rightarrow> (EventBits_t \<times> esys) option" where
  "xEventGroupWaitBits_end g uxBitsToWaitFor xClearOnExit xWaitForAllBits s = do {
     (uxReturn, k) \<leftarrow> uxTaskResetEventItemValue (ekern s);
     let s = s\<lparr>ekern := k\<rparr>;
     let (uxReturn, s) =
       (if uxReturn AND eventUNBLOCKED_DUE_TO_BIT_SET = 0
        then (let uxReturn = ebits s g;
                  s = (if prvTestWaitCondition uxReturn uxBitsToWaitFor xWaitForAllBits \<and> xClearOnExit
                       then set_ebits g (ebits s g AND NOT uxBitsToWaitFor) s else s)
              in (uxReturn, s))
        else (uxReturn, s));
     Some (uxReturn AND NOT eventEVENT_BITS_CONTROL_BYTES, s)
   }"

definition xEventGroupSync_block ::
    "nat \<Rightarrow> EventBits_t \<Rightarrow> EventBits_t \<Rightarrow> TickType_t \<Rightarrow> esys \<Rightarrow> (EventBits_t option \<times> esys) option" where
  "xEventGroupSync_block g uxBitsToSet uxBitsToWaitFor xTicksToWait s = do {
     let s = s\<lparr>ekern := vTaskSuspendAll (ekern s)\<rparr>;
     let uxOriginalBitValue = ebits s g;
     s \<leftarrow> xEventGroupSetBits g uxBitsToSet s;
     if (uxOriginalBitValue OR uxBitsToSet) AND uxBitsToWaitFor = uxBitsToWaitFor
     then do {
       let s = set_ebits g (ebits s g AND NOT uxBitsToWaitFor) s;
       s \<leftarrow> on_ekern resume_quietly s;
       Some (Some (uxOriginalBitValue OR uxBitsToSet), s)
     }
     else if xTicksToWait \<noteq> 0
     then do {
       s \<leftarrow> on_ekern (vTaskPlaceOnUnorderedEventList (xTasksWaitingForBits g)
              (uxBitsToWaitFor OR eventCLEAR_EVENTS_ON_EXIT_BIT OR eventWAIT_FOR_ALL_BITS) xTicksToWait) s;
       s \<leftarrow> on_ekern resume_and_yield s;
       Some (None, s)
     }
     else do {
       let uxReturn = ebits s g;
       s \<leftarrow> on_ekern resume_quietly s;
       Some (Some uxReturn, s)
     }
   }"

definition xEventGroupSync_end :: "nat \<Rightarrow> EventBits_t \<Rightarrow> esys \<Rightarrow> (EventBits_t \<times> esys) option" where
  "xEventGroupSync_end g uxBitsToWaitFor s = do {
     (uxReturn, k) \<leftarrow> uxTaskResetEventItemValue (ekern s);
     let s = s\<lparr>ekern := k\<rparr>;
     let (uxReturn, s) =
       (if uxReturn AND eventUNBLOCKED_DUE_TO_BIT_SET = 0
        then (let uxReturn = ebits s g;
                  s = (if uxReturn AND uxBitsToWaitFor = uxBitsToWaitFor
                       then set_ebits g (ebits s g AND NOT uxBitsToWaitFor) s else s)
              in (uxReturn, s))
        else (uxReturn, s));
     Some (uxReturn AND NOT eventEVENT_BITS_CONTROL_BYTES, s)
   }"

subsection \<open>Waking the tasks whose bits are set\<close>

lemma sane_set_event_value:
  assumes sane: "sane idle L T s"
  shows "sane idle L T (k_set_value (Ev t) v s)" "keeps_tasks T s (k_set_value (Ev t) v s)"
    "dead T (k_set_value (Ev t) v s) = dead T s"
proof -
  let ?s = "k_set_value (Ev t) v s"
  obtain c where ok: "sched_ok L T c s" using sane by (auto simp: sane_def)
  note e = sched_set_event_value[OF ok, of t v]
  have f: "tcbs ?s = tcbs s" "pxCurrentTCB ?s = pxCurrentTCB s" "xYieldPending ?s = xYieldPending s" by (simp_all add: k_set_value_def)
  show d: "dead T ?s = dead T s" by (simp add: dead_def e(3))
  have rd: "ready ?s u = ready s u" for u by (simp add: ready_def e(3) f)
  have kd: "keeps_dead T s ?s" by (simp add: keeps_dead_def d e(3))
  then show k: "keeps_tasks T s ?s" by (simp add: keeps_tasks_def k_set_value_def)
  have "running_ok T ?s"
    by (rule running_same[OF _ f(2) kd]) (use sane rd f in \<open>auto simp: sane_def top_task_def\<close>)
  then show "sane idle L T ?s" by (rule sane_next[OF sane e(1) k]) (use sane rd in \<open>simp add: sane_def\<close>)
qed

lemma unordered_wake_spec:
  assumes sane: "sane idle L T s" and ok: "sched_ok L T c s" and t: "cont (kls s) (Ev t) = Some l"
  obtains s' c' where "vTaskRemoveFromUnorderedEventList (Ev t) v s = Some s'" "sched_ok L T c' s'" "sane idle L T s'"
    "c' l = remove1 (Ev t) (c l)" "keeps_tasks T s s'" "tcbs s' = tcbs s"
    "cont (kls s') = (cont (kls s))(Ev t := None, St t := Some (unat (prio s t)))"
    "\<forall>u. val (kls s') (Ev u) = (if u = t then v OR taskEVENT_LIST_ITEM_VALUE_IN_USE else val (kls s) (Ev u))"
    "uxSchedulerSuspended s' = uxSchedulerSuspended s" "xPendedTicks s' = xPendedTicks s" "pxCurrentTCB s' = pxCurrentTCB s" "t \<in> T"
proof -
  have nd: "t \<notin> dead T s" using t sane by (auto simp: sane_def)
  let ?v = "v OR taskEVENT_LIST_ITEM_VALUE_IN_USE"
  define s1 where "s1 = k_set_value (Ev t) ?v s"
  note e = sched_set_event_value[OF ok, of t ?v, folded s1_def]
  note se = sane_set_event_value[OF sane, of t ?v, folded s1_def]
  have f1: "tcbs s1 = tcbs s" "pxCurrentTCB s1 = pxCurrentTCB s" "uxSchedulerSuspended s1 = uxSchedulerSuspended s" "xPendedTicks s1 = xPendedTicks s"
    "\<And>i. val (kls s1) i = (if i = Ev t then ?v else val (kls s) i)" "owner (kls s1) = owner (kls s)"
    using set_value_ok[OF base_okD(1)[OF sched_okD(1)[OF ok]], of "Ev t" ?v] by (simp_all add: s1_def k_set_value_def)
  note base = sched_okD(1)[OF e(1)]
  have t1: "cont (kls s1) (Ev t) = Some l" using t e(3) by simp
  obtain K where K: "\<not> state_list l" "t \<in> T" "l \<in> L" "k_REMOVE (Ev t) s1 = Some (s1\<lparr>kls := K\<rparr>)"
    "base_ok L T {} (c(l := remove1 (Ev t) (c l))) (s1\<lparr>kls := K\<rparr>)"
    "same_data (kls s1) K" "cont K = (cont (kls s1))(Ev t := None)"
    by (rule base_remove_event[OF base t1])
  have td: "t \<notin> dead T s1" using nd se(3) by simp
  have ow: "pvOwner (items (kls s1) (Ev t)) = t"
    using base_okD(3)[OF base] K(2) by (simp add: tasks_ok_def owner_def get_owner.simps)
  let ?k = "s1\<lparr>kls := K\<rparr>"
  note m = event_moved[OF se(1) e(1) K(2) td K(5-7)]
  obtain s2 s3 c3 where r: "k_REMOVE (St t) ?k = Some s2" "prvAddTaskToReadyList t s2 = s3" "sched_ok L T c3 s3"
    "same_data (kls ?k) (kls s3)" "cont (kls s3) = (cont (kls ?k))(St t := Some (unat (prio ?k t)))"
    "s3 = ?k\<lparr>kls := kls s3, uxTopReadyPriority := uxTopReadyPriority s3\<rparr>"
    "\<forall>j\<in>L. 5 \<le> j \<longrightarrow> c3 j = remove1 (St t) ((c(l := remove1 (Ev t) (c l))) j)"
    by (rule move_READY_spec[OF m(1) K(2)])
  have f3: "tcbs s3 = tcbs s" "pxCurrentTCB s3 = pxCurrentTCB s" "xYieldPending s3 = xYieldPending s1"
    "uxSchedulerSuspended s3 = uxSchedulerSuspended s" "xPendedTicks s3 = xPendedTicks s" by (subst r(6), simp add: f1)+
  obtain cur where cur: "pxCurrentTCB s = Some cur" using ok by (auto simp: sched_ok_def)
  define s' where "s' = (if prio s cur < prio s t then s3\<lparr>xYieldPending := True\<rparr> else s3)"
  have ex: "vTaskRemoveFromUnorderedEventList (Ev t) v s = Some s'"
    using ow K(4) r(1,2) cur f3
    by (simp add: vTaskRemoveFromUnorderedEventList_def Let_def s'_def s1_def[symmetric])
  have f: "kls s' = kls s3" "tcbs s' = tcbs s" "pxCurrentTCB s' = Some cur" "uxSchedulerSuspended s' = uxSchedulerSuspended s"
    "xPendedTicks s' = xPendedTicks s" "xYieldPending s' = (xYieldPending s1 \<or> prio s cur < prio s t)"
    using f3 cur by (simp_all add: s'_def)
  have ok': "sched_ok L T c3 s'" using r(3) by (simp add: s'_def)
  have sc: "same_ctrl ?k s'" using same_ctrl_kls[OF r(6)] by (auto simp: s'_def same_ctrl_def)
  note q = readied_result[OF m(2) K(2) td[folded m(4)] ok' _ _ sc]
  have q1: "keeps_tasks T ?k s'" "ready s' idle" "running_ok T s'"
    using q r(5) f f1 cur by auto
  have sane': "sane idle L T s'" by (rule sane_next[OF m(2) ok' q1(1,3,2)])
  have kt: "keeps_tasks T s s'" by (rule keeps_tasks_trans[OF se(2) keeps_tasks_trans[OF m(3) q1(1)]])
  have co: "cont (kls s') = (cont (kls s))(Ev t := None, St t := Some (unat (prio s t)))" using r(5) K(7) f(1) f1 e(3) by simp
  have vl: "\<forall>u. val (kls s') (Ev u) = (if u = t then ?v else val (kls s) (Ev u))"
    using same_dataD(1)[OF same_data_trans[OF K(6) r(4)[simplified]]] f(1) f1(5) by simp
  have l5: "5 \<le> l" using K(1) by (auto simp: state_list_def)
  have "St t \<notin> set (c l)"
  proof
    assume x: "St t \<in> set (c l)"
    obtain u where "St t = Ev u" by (rule event_list_items[OF ok K(3,1) x])
    then show False by simp
  qed
  then have "c3 l = remove1 (Ev t) (c l)" using r(7) K(3) l5 by (simp add: remove1_idem notin_set_remove1)
  then show thesis by (intro that[OF ex ok' sane' _ kt f(2) co vl f(4,5) _ K(2)]) (use f(3) cur in simp_all)
qed

text \<open>When a waiting task with the event value \<open>w\<close> is woken by the bits \<open>v\<close>, and the bits that clears.\<close>

definition met :: "EventBits_t \<Rightarrow> EventBits_t \<Rightarrow> bool" where
  "met v w \<longleftrightarrow> (if w AND eventWAIT_FOR_ALL_BITS = 0 then (w AND NOT eventEVENT_BITS_CONTROL_BYTES) AND v \<noteq> 0
     else (w AND NOT eventEVENT_BITS_CONTROL_BYTES) AND v = w AND NOT eventEVENT_BITS_CONTROL_BYTES)"

definition clears :: "EventBits_t \<Rightarrow> EventBits_t" where
  "clears w = (if w AND eventCLEAR_EVENTS_ON_EXIT_BIT = 0 then 0 else w AND NOT eventEVENT_BITS_CONTROL_BYTES)"

lemma control_bits:
  "w AND eventEVENT_BITS_CONTROL_BYTES AND eventWAIT_FOR_ALL_BITS = w AND eventWAIT_FOR_ALL_BITS"
  "w AND eventEVENT_BITS_CONTROL_BYTES AND eventCLEAR_EVENTS_ON_EXIT_BIT = w AND eventCLEAR_EVENTS_ON_EXIT_BIT"
  by (simp_all add: and.assoc eventEVENT_BITS_CONTROL_BYTES_def eventWAIT_FOR_ALL_BITS_def eventCLEAR_EVENTS_ON_EXIT_BIT_def)

lemma notin_bits: "(w AND eventEVENT_BITS_CONTROL_BYTES AND eventCLEAR_EVENTS_ON_EXIT_BIT \<noteq> 0) = (w AND eventCLEAR_EVENTS_ON_EXIT_BIT \<noteq> 0)"
  by (simp add: control_bits)

lemma set_scan_step:
  assumes "p \<noteq> ListEnd l"
  shows "set_scan l v p clr k =
    (if met v (get_value (kls k) p)
     then do {
       k' \<leftarrow> remove_unordered p (v OR eventUNBLOCKED_DUE_TO_BIT_SET) k;
       set_scan l v (get_next (kls k) p) (clr OR clears (get_value (kls k) p)) k'
     }
     else set_scan l v (get_next (kls k) p) clr k)"
  using assms by (subst set_scan.simps) (simp add: Let_def met_def clears_def and.assoc control_bits)

text \<open>What waking the tasks of \<open>ws\<close> whose bits are set makes of the kernel and of the bits to clear.\<close>

definition wakes_met :: "nat set \<Rightarrow> EventBits_t \<Rightarrow> nat list \<Rightarrow> kernel \<Rightarrow> EventBits_t \<Rightarrow> EventBits_t \<Rightarrow> kernel \<Rightarrow> bool" where
  "wakes_met T v ws s clr clr' s' \<longleftrightarrow> keeps_tasks T s s' \<and> tcbs s' = tcbs s \<and>
     uxSchedulerSuspended s' = uxSchedulerSuspended s \<and> xPendedTicks s' = xPendedTicks s \<and> pxCurrentTCB s' = pxCurrentTCB s \<and>
     (\<forall>u. let m = (u \<in> set ws \<and> met v (val (kls s) (Ev u)))
          in cont (kls s') (St u) = (if m then Some (unat (prio s u)) else cont (kls s) (St u)) \<and>
             cont (kls s') (Ev u) = (if m then None else cont (kls s) (Ev u)) \<and>
             val (kls s') (Ev u) = (if m then v OR eventUNBLOCKED_DUE_TO_BIT_SET OR taskEVENT_LIST_ITEM_VALUE_IN_USE else val (kls s) (Ev u))) \<and>
     (\<forall>i. bit clr' i \<longleftrightarrow> bit clr i \<or> (\<exists>u\<in>set ws. met v (val (kls s) (Ev u)) \<and> bit (clears (val (kls s) (Ev u))) i))"

lemma wakes_met_skip:
  assumes "wakes_met T v ws s clr clr' s'" "\<not> met v (val (kls s) (Ev t))"
  shows "wakes_met T v (t # ws) s clr clr' s'"
proof -
  have w: "u \<in> set (t # ws) \<and> met v (val (kls s) (Ev u)) \<longleftrightarrow> u \<in> set ws \<and> met v (val (kls s) (Ev u))" for u
    using assms(2) by auto
  have b: "(\<exists>u\<in>set (t # ws). met v (val (kls s) (Ev u)) \<and> bit (clears (val (kls s) (Ev u))) i) \<longleftrightarrow>
      (\<exists>u\<in>set ws. met v (val (kls s) (Ev u)) \<and> bit (clears (val (kls s) (Ev u))) i)" for i
    using assms(2) by simp
  show ?thesis using assms(1) unfolding wakes_met_def w b .
qed

lemma wakes_met_wake:
  assumes w: "wakes_met T v ws s1 (clr OR clears (val (kls s) (Ev t))) clr' s'" and m: "met v (val (kls s) (Ev t))" and t: "t \<notin> set ws"
    and 1: "keeps_tasks T s s1" "tcbs s1 = tcbs s" "uxSchedulerSuspended s1 = uxSchedulerSuspended s" "xPendedTicks s1 = xPendedTicks s"
      "pxCurrentTCB s1 = pxCurrentTCB s" "cont (kls s1) = (cont (kls s))(Ev t := None, St t := Some (unat (prio s t)))"
      "\<forall>u. val (kls s1) (Ev u) = (if u = t then v OR eventUNBLOCKED_DUE_TO_BIT_SET OR taskEVENT_LIST_ITEM_VALUE_IN_USE else val (kls s) (Ev u))"
  shows "wakes_met T v (t # ws) s clr clr' s'"
proof -
  have vs: "val (kls s1) (Ev u) = val (kls s) (Ev u)" if "u \<in> set ws" for u using 1(7) t that by auto
  have e: "u \<in> set ws \<and> met v (val (kls s1) (Ev u)) \<longleftrightarrow> u \<in> set ws \<and> met v (val (kls s) (Ev u))" for u using vs by auto
  have b: "(\<exists>u\<in>set ws. met v (val (kls s1) (Ev u)) \<and> bit (clears (val (kls s1) (Ev u))) i) \<longleftrightarrow>
      (\<exists>u\<in>set ws. met v (val (kls s) (Ev u)) \<and> bit (clears (val (kls s) (Ev u))) i)" for i
    by (rule bex_cong[OF refl]) (simp add: vs)
  note w = w[unfolded wakes_met_def Let_def e b]
  have k: "keeps_tasks T s s'" using keeps_tasks_trans[OF 1(1)] w by blast
  have u: "cont (kls s') (St u) = (if u \<in> set (t # ws) \<and> met v (val (kls s) (Ev u)) then Some (unat (prio s u)) else cont (kls s) (St u))"
    "cont (kls s') (Ev u) = (if u \<in> set (t # ws) \<and> met v (val (kls s) (Ev u)) then None else cont (kls s) (Ev u))"
    "val (kls s') (Ev u) = (if u \<in> set (t # ws) \<and> met v (val (kls s) (Ev u))
       then v OR eventUNBLOCKED_DUE_TO_BIT_SET OR taskEVENT_LIST_ITEM_VALUE_IN_USE else val (kls s) (Ev u))" for u
  proof -
    have "cont (kls s') (St u) = (if u \<in> set ws \<and> met v (val (kls s) (Ev u)) then Some (unat (prio s1 u)) else cont (kls s1) (St u))"
      "cont (kls s') (Ev u) = (if u \<in> set ws \<and> met v (val (kls s) (Ev u)) then None else cont (kls s1) (Ev u))"
      "val (kls s') (Ev u) = (if u \<in> set ws \<and> met v (val (kls s) (Ev u))
         then v OR eventUNBLOCKED_DUE_TO_BIT_SET OR taskEVENT_LIST_ITEM_VALUE_IN_USE else val (kls s1) (Ev u))"
      using w by blast+
    then show "cont (kls s') (St u) = (if u \<in> set (t # ws) \<and> met v (val (kls s) (Ev u)) then Some (unat (prio s u)) else cont (kls s) (St u))"
      "cont (kls s') (Ev u) = (if u \<in> set (t # ws) \<and> met v (val (kls s) (Ev u)) then None else cont (kls s) (Ev u))"
      "val (kls s') (Ev u) = (if u \<in> set (t # ws) \<and> met v (val (kls s) (Ev u))
         then v OR eventUNBLOCKED_DUE_TO_BIT_SET OR taskEVENT_LIST_ITEM_VALUE_IN_USE else val (kls s) (Ev u))"
      using m t 1(2,6,7) by (cases "u = t"; simp)+
  qed
  have c: "bit clr' i \<longleftrightarrow> bit clr i \<or> (\<exists>u\<in>set (t # ws). met v (val (kls s) (Ev u)) \<and> bit (clears (val (kls s) (Ev u))) i)" for i
    using w m by (simp add: bit_or_iff disj_assoc)
  have f: "tcbs s' = tcbs s" "uxSchedulerSuspended s' = uxSchedulerSuspended s" "xPendedTicks s' = xPendedTicks s" "pxCurrentTCB s' = pxCurrentTCB s"
    using w 1(2-5) by simp_all
  show ?thesis unfolding wakes_met_def Let_def by (intro conjI allI k f u c)
qed

text \<open>The loop wakes the tasks of the rest of the list whose bits are set, and no others.\<close>

lemma set_scan_spec:
  assumes "sane idle L T s" "sched_ok L T c s" "l \<in> L" "\<not> state_list l" "c l = us @ map Ev ws"
  shows "\<exists>clr' s'. set_scan l v (hd (map Item (map Ev ws) @ [ListEnd l])) clr s = Some (clr', s') \<and>
    sane idle L T s' \<and> wakes_met T v ws s clr clr' s'"
  using assms
proof (induction ws arbitrary: us c s clr)
  case Nil
  have "set_scan l v (ListEnd l) clr s = Some (clr, s)" by (subst set_scan.simps) simp
  with Nil show ?case by (simp add: wakes_met_def keeps_tasks_def keeps_dead_def)
next
  case (Cons t ws)
  note lok = base_okD(1)[OF sched_okD(1)[OF Cons.prems(2)]]
  have r: "ring (kls s) l ((us @ [Ev t]) @ map Ev ws)" using lists_okD(1)[OF lok Cons.prems(3)] Cons.prems(5) by simp
  have nx: "get_next (kls s) (Item (Ev t)) = hd (map Item (map Ev ws) @ [ListEnd l])"
    using ring_neighbours(1)[OF r] by simp
  have "Item (Ev t) \<noteq> ListEnd l" by simp
  from set_scan_step[OF this, of v clr s, unfolded nx]
  have step: "set_scan l v (hd (map Item (map Ev (t # ws)) @ [ListEnd l])) clr s =
    (if met v (val (kls s) (Ev t))
     then remove_unordered (Item (Ev t)) (v OR eventUNBLOCKED_DUE_TO_BIT_SET) s \<bind>
       set_scan l v (hd (map Item (map Ev ws) @ [ListEnd l])) (clr OR clears (val (kls s) (Ev t)))
     else set_scan l v (hd (map Item (map Ev ws) @ [ListEnd l])) clr s)"
    by (simp only: list.map append_Cons list.sel)
  have d: "distinct (us @ Ev t # map Ev ws)" using lists_ok_distinct[OF lok Cons.prems(3)] Cons.prems(5) by simp
  then have tw: "t \<notin> set ws" by auto
  have ct: "cont (kls s) (Ev t) = Some l" using lists_okD(2)[OF lok] Cons.prems(3,5) by simp
  show ?case
  proof (cases "met v (val (kls s) (Ev t))")
    case False
    have "c l = (us @ [Ev t]) @ map Ev ws" using Cons.prems(5) by simp
    from Cons.IH[OF Cons.prems(1-4) this, of clr] obtain clr' s' where
      2: "set_scan l v (hd (map Item (map Ev ws) @ [ListEnd l])) clr s = Some (clr', s')"
      "sane idle L T s'" "wakes_met T v ws s clr clr' s'"
      by blast
    have "set_scan l v (hd (map Item (map Ev (t # ws)) @ [ListEnd l])) clr s = Some (clr', s')"
      using step 2(1) by (simp only: if_not_P[OF False])
    then show ?thesis by (intro exI[of _ clr'] exI[of _ s'] conjI 2(2) wakes_met_skip[OF 2(3) False])
  next
    case True
    obtain s1 c1 where 1: "vTaskRemoveFromUnorderedEventList (Ev t) (v OR eventUNBLOCKED_DUE_TO_BIT_SET) s = Some s1"
      "sched_ok L T c1 s1" "sane idle L T s1" "c1 l = remove1 (Ev t) (c l)" "keeps_tasks T s s1" "tcbs s1 = tcbs s"
      "cont (kls s1) = (cont (kls s))(Ev t := None, St t := Some (unat (prio s t)))"
      "\<forall>u. val (kls s1) (Ev u) = (if u = t then v OR eventUNBLOCKED_DUE_TO_BIT_SET OR taskEVENT_LIST_ITEM_VALUE_IN_USE else val (kls s) (Ev u))"
      "uxSchedulerSuspended s1 = uxSchedulerSuspended s" "xPendedTicks s1 = xPendedTicks s" "pxCurrentTCB s1 = pxCurrentTCB s" "t \<in> T"
      by (rule unordered_wake_spec[OF Cons.prems(1,2) ct, of "v OR eventUNBLOCKED_DUE_TO_BIT_SET", unfolded or.assoc])
    have c1: "c1 l = us @ map Ev ws" using 1(4) Cons.prems(5) d by (simp add: remove1_append)
    from Cons.IH[OF 1(3,2) Cons.prems(3,4) c1, of "clr OR clears (val (kls s) (Ev t))"] obtain clr' s' where
      2: "set_scan l v (hd (map Item (map Ev ws) @ [ListEnd l])) (clr OR clears (val (kls s) (Ev t))) s1 = Some (clr', s')"
      "sane idle L T s'" "wakes_met T v ws s1 (clr OR clears (val (kls s) (Ev t))) clr' s'"
      by blast
    have "set_scan l v (hd (map Item (map Ev (t # ws)) @ [ListEnd l])) clr s = Some (clr', s')"
      using step 2(1) by (simp only: if_P[OF True] remove_unordered.simps 1(1) Option.bind.simps)
    then show ?thesis
      by (intro exI[of _ clr'] exI[of _ s'] conjI 2(2) wakes_met_wake[OF 2(3) True tw 1(5,6,9,10,11,7,8)])
  qed
qed

text \<open>The tasks that wait on the group.\<close>

definition waiters :: "nat \<Rightarrow> nat set \<Rightarrow> kernel \<Rightarrow> nat set" where
  "waiters g T s = {t \<in> T. cont (kls s) (xEventListItem t) = Some (xTasksWaitingForBits g)}"

definition woken_by :: "nat \<Rightarrow> nat set \<Rightarrow> EventBits_t \<Rightarrow> kernel \<Rightarrow> nat set" where
  "woken_by g T v s = {t \<in> waiters g T s. met v (val (kls s) (xEventListItem t))}"

lemma map_Ev: "set xs \<subseteq> range Ev \<Longrightarrow> \<exists>ts. xs = map Ev ts"
  by (auto simp: subset_range_map)

lemma quiet_resume:
  assumes sane: "sane idle L T s" and susp: "uxSchedulerSuspended s = 1" and pend: "xPendedTicks s = 0" "nobody_waits xPendingReadyList s"
  obtains s' where "resume_quietly s = Some s'" "sane idle L T s'" "keeps_tasks T s s'" "uxSchedulerSuspended s' = 0" "xPendedTicks s' = 0"
    "\<forall>u. cont (kls s') (St u) = cont (kls s) (St u) \<and> cont (kls s') (Ev u) = cont (kls s) (Ev u) \<and> val (kls s') (Ev u) = val (kls s) (Ev u)"
    "tcbs s' = tcbs s" "\<exists>cur. pxCurrentTCB s' = Some cur \<and> top_task T s' cur"
proof -
  obtain c cur where ok: "sched_ok L T c s" and cur: "pxCurrentTCB s = Some cur" and i: "idle \<in> T" "ready s idle" "uxCurrentNumberOfTasks s > 0"
    using sane by (auto simp: sane_def running_ok_def)
  obtain y s' c' c1 s1 cur' where r: "xTaskResumeAll s = Some (y, s')" "sched_ok L T c' s'" "unpends T s s1"
    "sched_ok L T c1 s1" "passes T (unat (xPendedTicks s)) s1 s'" "uxSchedulerSuspended s' = 0" "xPendedTicks s' = 0"
    "pxCurrentTCB s' = Some cur'" "if y then top_task T s' cur' else cur' = cur \<and> \<not> xYieldPending s' \<and> alert T cur s s'" "ready s' idle"
    "same_ctrl s s'"
    by (rule resume_spec[OF ok cur susp i(3,1,2)])
  have n: "pending T s = {}" using pend(2) by (auto simp: pending_def nobody_waits_def)
  have x: "expired T (unat (xPendedTicks s)) s1 = {}" using expired_0[OF r(4)] pend(1) by simp
  have q: "resume_quietly s = Some s'" using r(1) by (simp add: resume_quietly_def)
  have k: "sane idle L T s'" "keeps_tasks T s s'" using resume_all_call[OF sane] r(1) by (simp_all add: call_result_def)
  have d: "same_data (kls s) (kls s')" using r(3,5) same_data_trans by (auto simp: unpends_def passes_def)
  have "cont (kls s') (St u) = cont (kls s) (St u) \<and> cont (kls s') (Ev u) = cont (kls s) (Ev u)" for u
    using r(3,5) by (simp add: unpends_def passes_def n x)
  moreover have "top_task T s' cur'" using r(8,9) k(1) by (auto simp: sane_def running_ok_def split: if_splits)
  ultimately show thesis using q k r(6,7,8,11) same_dataD(1)[OF d] by (intro that[of s']) (simp_all add: same_ctrl_def)
qed

lemma set_bits_spec:
  fixes b :: EventBits_t
  assumes "sane idle L T (ekern s)" "uxSchedulerSuspended (ekern s) = 0" "xPendedTicks (ekern s) = 0"
    "nobody_waits xPendingReadyList (ekern s)" "xTasksWaitingForBits g \<in> L" "10 \<le> xTasksWaitingForBits g"
  defines "v \<equiv> ebits s g OR b"
  defines "W \<equiv> woken_by g T v (ekern s)"
  obtains s' where "xEventGroupSetBits g b s = Some s'" "sane idle L T (ekern s')" "uxSchedulerSuspended (ekern s') = 0"
    "\<forall>t\<in>W. ready (ekern s') t \<and> cont (kls (ekern s')) (Ev t) = None \<and>
       val (kls (ekern s')) (Ev t) = v OR eventUNBLOCKED_DUE_TO_BIT_SET OR taskEVENT_LIST_ITEM_VALUE_IN_USE"
    "\<forall>t. t \<notin> W \<longrightarrow> cont (kls (ekern s')) (St t) = cont (kls (ekern s)) (St t) \<and>
       cont (kls (ekern s')) (Ev t) = cont (kls (ekern s)) (Ev t) \<and> val (kls (ekern s')) (Ev t) = val (kls (ekern s)) (Ev t)"
    "\<forall>i. bit (ebits s' g) i \<longleftrightarrow> bit v i \<and> \<not> (\<exists>t\<in>W. bit (clears (val (kls (ekern s)) (Ev t))) i)"
    "tcbs (ekern s') = tcbs (ekern s)" "\<exists>cur. pxCurrentTCB (ekern s') = Some cur \<and> top_task T (ekern s') cur"
proof -
  let ?l = "xTasksWaitingForBits g" and ?k = "vTaskSuspendAll (ekern s)"
  have l: "?l \<in> L" "\<not> state_list ?l" using assms(5,6) by (simp_all add: state_list_def)
  have f0: "kls ?k = kls (ekern s)" "tcbs ?k = tcbs (ekern s)" "uxSchedulerSuspended ?k = 1" "xPendedTicks ?k = 0"
    using assms(2,3) by (simp_all add: vTaskSuspendAll_def)
  have s0: "sane idle L T ?k" using suspend_all_call[OF assms(1)] by (simp add: call_result_def)
  obtain c where ok: "sched_ok L T c ?k" using s0 by (auto simp: sane_def)
  have "set (c ?l) \<subseteq> range Ev" using event_list_items[OF ok l] by blast
  then obtain ws where ws: "c ?l = map Ev ws" using map_Ev by blast
  have wm: "u \<in> set ws \<longleftrightarrow> u \<in> waiters g T (ekern s)" for u
  proof -
    have "cont (kls ?k) (Ev u) = Some ?l \<longleftrightarrow> u \<in> set ws"
      using lists_okD(2)[OF base_okD(1)[OF sched_okD(1)[OF ok]], of "Ev u" ?l] l(1) ws by auto
    moreover have "u \<in> T" if "cont (kls ?k) (Ev u) = Some ?l"
    proof -
      have "Ev u \<in> set (c ?l)" using lists_okD(2)[OF base_okD(1)[OF sched_okD(1)[OF ok]], of "Ev u" ?l] that by blast
      then obtain t where "t \<in> T" "Ev u = Ev t" by (rule event_list_items[OF ok l])
      then show ?thesis by simp
    qed
    ultimately show ?thesis using f0(1) by (auto simp: waiters_def)
  qed
  have hd: "listGET_HEAD_ENTRY ?l (kls ?k) = hd (map Item (map Ev ws) @ [ListEnd ?l])"
    using ring_neighbours(1)[of "kls ?k" ?l "[]" "map Ev ws"] lists_okD(1)[OF base_okD(1)[OF sched_okD(1)[OF ok]] l(1)] ws
    by (simp add: listGET_HEAD_ENTRY_def)
  obtain clr k1 where 1: "set_scan ?l v (hd (map Item (map Ev ws) @ [ListEnd ?l])) 0 ?k = Some (clr, k1)"
    "sane idle L T k1" "wakes_met T v ws ?k 0 clr k1"
    using set_scan_spec[OF s0 ok l, of "[]" ws v 0] ws by auto
  note w = 1(3)[unfolded wakes_met_def Let_def wm f0(1)]
  have f1: "uxSchedulerSuspended k1 = 1" "xPendedTicks k1 = 0" "tcbs k1 = tcbs (ekern s)" using w f0 by simp_all
  have nw: "nobody_waits xPendingReadyList k1"
    using w assms(4) unfolding nobody_waits_def by (auto split: if_splits)
  obtain k2 where 2: "resume_quietly k1 = Some k2" "sane idle L T k2" "keeps_tasks T k1 k2" "uxSchedulerSuspended k2 = 0" "xPendedTicks k2 = 0"
    "\<forall>u. cont (kls k2) (St u) = cont (kls k1) (St u) \<and> cont (kls k2) (Ev u) = cont (kls k1) (Ev u) \<and> val (kls k2) (Ev u) = val (kls k1) (Ev u)"
    "tcbs k2 = tcbs k1" "\<exists>cur. pxCurrentTCB k2 = Some cur \<and> top_task T k2 cur"
    by (rule quiet_resume[OF 1(2) f1(1,2) nw])
  define s' where "s' = set_ebits g (v AND NOT clr) s\<lparr>ekern := k2\<rparr>"
  have e: "xEventGroupSetBits g b s = Some s'"
    using 1(1) 2(1) hd by (simp add: xEventGroupSetBits_def Let_def set_ebits_def v_def on_ekern_def s'_def)
  have m: "u \<in> waiters g T (ekern s) \<and> met v (val (kls (ekern s)) (Ev u)) \<longleftrightarrow> u \<in> W" for u
    by (simp add: W_def woken_by_def)
  note w = w[unfolded m]
  have tasks: "cont (kls k2) (St u) = (if u \<in> W then Some (unat (prio (ekern s) u)) else cont (kls (ekern s)) (St u))"
    "cont (kls k2) (Ev u) = (if u \<in> W then None else cont (kls (ekern s)) (Ev u))"
    "val (kls k2) (Ev u) = (if u \<in> W
       then v OR eventUNBLOCKED_DUE_TO_BIT_SET OR taskEVENT_LIST_ITEM_VALUE_IN_USE else val (kls (ekern s)) (Ev u))" for u
    using w 2(6) f0(2) by simp_all
  have clr: "bit clr i \<longleftrightarrow> (\<exists>u\<in>W. bit (clears (val (kls (ekern s)) (Ev u))) i)" for i
  proof -
    have "set ws = waiters g T (ekern s)" using wm by auto
    then show ?thesis using w by (auto simp: W_def woken_by_def)
  qed
  have bits: "bit (ebits s' g) i \<longleftrightarrow> bit v i \<and> \<not> (\<exists>t\<in>W. bit (clears (val (kls (ekern s)) (Ev t))) i)" for i
    using clr[of i] by (auto simp: s'_def set_ebits_def bit_and_iff bit_not_iff_eq dest: bit_imp_le_length)
  have k: "ekern s' = k2" by (simp add: s'_def)
  have rd: "ready k2 t" if "t \<in> W" for t using tasks(1)[of t] that 2(7) f1(3) by (simp add: ready_def pxReadyTasksLists_def)
  show thesis
    by (rule that[OF e]) (use k 2(2,4,7,8) tasks rd bits f1(3) in simp_all)
qed

text \<open>C6. \<^verbatim>\<open>xEventGroupSetBits\<close> wakes exactly the tasks whose wait it ends: those of the group that wait for any of some
  bits of which one is set now, or for all of some bits that are all set now. Each of them is ready and finds the bits
  of the group that woke it in its event item; the other tasks stay as they are. The bits of the group are then
  those before and those set, less the bits that tasks just woken asked to be cleared. The call keeps the kernel's
  invariant, so that a woken task of higher priority runs.\<close>

theorem xEventGroupSetBits_wakes:
  assumes "sane idle L T (ekern s)" "uxSchedulerSuspended (ekern s) = 0" "xPendedTicks (ekern s) = 0"
    "nobody_waits xPendingReadyList (ekern s)" "xTasksWaitingForBits g \<in> L" "10 \<le> xTasksWaitingForBits g"
  shows "\<exists>s'. xEventGroupSetBits g b s = Some s' \<and> sane idle L T (ekern s') \<and> uxSchedulerSuspended (ekern s') = 0 \<and>
    (let v = ebits s g OR b; W = woken_by g T v (ekern s)
     in (\<forall>t\<in>W. ready (ekern s') t \<and> cont (kls (ekern s')) (xEventListItem t) = None \<and>
           val (kls (ekern s')) (xEventListItem t) = v OR eventUNBLOCKED_DUE_TO_BIT_SET OR taskEVENT_LIST_ITEM_VALUE_IN_USE) \<and>
        (\<forall>t. t \<notin> W \<longrightarrow> cont (kls (ekern s')) (xStateListItem t) = cont (kls (ekern s)) (xStateListItem t) \<and>
           cont (kls (ekern s')) (xEventListItem t) = cont (kls (ekern s)) (xEventListItem t) \<and>
           val (kls (ekern s')) (xEventListItem t) = val (kls (ekern s)) (xEventListItem t)) \<and>
        (\<forall>i. bit (ebits s' g) i \<longleftrightarrow> bit v i \<and>
           \<not> (\<exists>t\<in>W. bit (clears (val (kls (ekern s)) (xEventListItem t))) i)))"
  by (rule set_bits_spec[OF assms, of b]) (simp add: Let_def)

end
