(* ===== verification/Event_Wait.thy ===== *)
theory Event_Wait
  imports Event_Groups
begin

section \<open>Waiting on event groups\<close>

text \<open>
  What a call of \<^verbatim>\<open>xEventGroupWaitBits\<close> (\<^verbatim>\<open>src/FreeRTOS-Kernel/event_groups.c\<close>) does from its block to its
  return: the value it leaves in the event item, and its end when it was woken and when its time is up.
\<close>

subsection \<open>A call of \<^verbatim>\<open>xEventGroupWaitBits\<close>\<close>

text \<open>The value a waiting task puts into its event item.\<close>

definition wait_value :: "EventBits_t \<Rightarrow> bool \<Rightarrow> bool \<Rightarrow> EventBits_t" where
  "wait_value w clr all = w OR ((if clr then eventCLEAR_EVENTS_ON_EXIT_BIT else 0) OR
     ((if all then eventWAIT_FOR_ALL_BITS else 0) OR taskEVENT_LIST_ITEM_VALUE_IN_USE))"

lemmas event_consts = eventCLEAR_EVENTS_ON_EXIT_BIT_def eventUNBLOCKED_DUE_TO_BIT_SET_def eventWAIT_FOR_ALL_BITS_def
  eventEVENT_BITS_CONTROL_BYTES_def taskEVENT_LIST_ITEM_VALUE_IN_USE_def

lemma no_control:
  assumes "w AND eventEVENT_BITS_CONTROL_BYTES = 0"
  shows "w AND eventCLEAR_EVENTS_ON_EXIT_BIT = 0" "w AND eventUNBLOCKED_DUE_TO_BIT_SET = 0" "w AND eventWAIT_FOR_ALL_BITS = 0"
    "w AND NOT eventEVENT_BITS_CONTROL_BYTES = w"
proof -
  have z: "w AND c = 0" if "eventEVENT_BITS_CONTROL_BYTES AND c = c" for c
  proof -
    have "w AND c = w AND (eventEVENT_BITS_CONTROL_BYTES AND c)" using that by (simp only:)
    also have "\<dots> = (w AND eventEVENT_BITS_CONTROL_BYTES) AND c" by (simp only: and.assoc)
    finally show ?thesis using assms by simp
  qed
  show "w AND eventCLEAR_EVENTS_ON_EXIT_BIT = 0" "w AND eventUNBLOCKED_DUE_TO_BIT_SET = 0" "w AND eventWAIT_FOR_ALL_BITS = 0"
    by (rule z, simp add: event_consts)+
  have "w AND (eventEVENT_BITS_CONTROL_BYTES OR NOT eventEVENT_BITS_CONTROL_BYTES) = w" by simp
  then have "(w AND eventEVENT_BITS_CONTROL_BYTES) OR (w AND NOT eventEVENT_BITS_CONTROL_BYTES) = w"
    by (simp only: bit.conj_disj_distrib)
  then show "w AND NOT eventEVENT_BITS_CONTROL_BYTES = w" using assms by simp
qed

lemma wait_value_bits:
  assumes "w AND eventEVENT_BITS_CONTROL_BYTES = 0"
  shows "wait_value w clr all AND eventWAIT_FOR_ALL_BITS = 0 \<longleftrightarrow> \<not> all"
    "wait_value w clr all AND eventCLEAR_EVENTS_ON_EXIT_BIT = 0 \<longleftrightarrow> \<not> clr"
    "wait_value w clr all AND eventUNBLOCKED_DUE_TO_BIT_SET = 0"
    "wait_value w clr all AND NOT eventEVENT_BITS_CONTROL_BYTES = w"
  using no_control[OF assms]
  by (cases clr; cases all; simp add: wait_value_def bit.conj_disj_distrib2; simp add: event_consts)+

lemma met_wait_value:
  assumes "w AND eventEVENT_BITS_CONTROL_BYTES = 0"
  shows "met v (wait_value w clr all) \<longleftrightarrow> prvTestWaitCondition v w all" "clears (wait_value w clr all) = (if clr then w else 0)"
  by (simp_all add: met_def clears_def prvTestWaitCondition_def wait_value_bits[OF assms] and.commute[of v])

lemma woken_value:
  "(v OR eventUNBLOCKED_DUE_TO_BIT_SET OR taskEVENT_LIST_ITEM_VALUE_IN_USE) AND eventUNBLOCKED_DUE_TO_BIT_SET \<noteq> 0"
  "(v OR eventUNBLOCKED_DUE_TO_BIT_SET OR taskEVENT_LIST_ITEM_VALUE_IN_USE) AND NOT eventEVENT_BITS_CONTROL_BYTES =
     v AND NOT eventEVENT_BITS_CONTROL_BYTES"
  by (simp_all add: bit.conj_disj_distrib2 event_consts)

text \<open>The task puts its event item on the group's list and blocks.\<close>

lemma wait_blocks:
  assumes sane: "sane idle L T (ekern s)" and susp: "uxSchedulerSuspended (ekern s) = 0" and pend: "xPendedTicks (ekern s) = 0"
    "nobody_waits xPendingReadyList (ekern s)"
    and cur: "pxCurrentTCB (ekern s) = Some t" "t \<noteq> idle" "cont (kls (ekern s)) (Ev t) = None" and n: "n \<noteq> 0"
    and l: "xTasksWaitingForBits g \<in> L" "10 \<le> xTasksWaitingForBits g"
    and w: "\<not> prvTestWaitCondition (ebits s g) w all"
  obtains s' where "xEventGroupWaitBits_block g w clr all n s = Some (None, s')" "groups s' = groups s" "sane idle L T (ekern s')"
    "uxSchedulerSuspended (ekern s') = 0" "xPendedTicks (ekern s') = 0" "nobody_waits xPendingReadyList (ekern s')"
    "parked n (ekern s') t" "pxCurrentTCB (ekern s') \<noteq> Some t" "tcbs (ekern s') = tcbs (ekern s)"
    "cont (kls (ekern s')) (Ev t) = Some (xTasksWaitingForBits g)" "val (kls (ekern s')) (Ev t) = wait_value w clr all"
proof -
  let ?l = "xTasksWaitingForBits g" and ?s = "vTaskSuspendAll (ekern s)"
  let ?v = "(if all then (if clr then 0 OR eventCLEAR_EVENTS_ON_EXIT_BIT else 0) OR eventWAIT_FOR_ALL_BITS
             else (if clr then 0 OR eventCLEAR_EVENTS_ON_EXIT_BIT else 0))"
  have v: "(w OR ?v) OR taskEVENT_LIST_ITEM_VALUE_IN_USE = wait_value w clr all"
    by (simp add: wait_value_def or.assoc)
  have l': "\<not> state_list ?l" "?l \<noteq> 7" using l(2) by (simp_all add: state_list_def)
  have f0: "kls ?s = kls (ekern s)" "tcbs ?s = tcbs (ekern s)" "pxCurrentTCB ?s = Some t" "uxSchedulerSuspended ?s = 1" "xPendedTicks ?s = 0"
    using cur(1) susp pend by (simp_all add: vTaskSuspendAll_def)
  have s0: "sane idle L T ?s" using suspend_all_call[OF sane] by (simp add: call_result_def)
  define s1 where "s1 = k_set_value (Ev t) (wait_value w clr all) ?s"
  note se = sane_set_event_value[OF s0, of t "wait_value w clr all", folded s1_def]
  obtain c0 where ok0: "sched_ok L T c0 ?s" using s0 by (auto simp: sane_def)
  note e = sched_set_event_value[OF ok0, of t "wait_value w clr all", folded s1_def]
  have f1: "tcbs s1 = tcbs (ekern s)" "pxCurrentTCB s1 = Some t" "uxSchedulerSuspended s1 = 1" "xPendedTicks s1 = 0"
    "val (kls s1) (Ev t) = wait_value w clr all"
    using f0 set_value_ok(2)[OF base_okD(1)[OF sched_okD(1)[OF ok0]], of "Ev t" "wait_value w clr all" "Ev t"]
    by (simp_all add: s1_def k_set_value_def)
  have t: "t \<in> T" "t \<notin> dead T s1" using se(1) f1(2) by (auto simp: sane_def running_ok_def)
  have nc: "cont (kls s1) (Ev t) = None" using cur(3) e(3) f0(1) by simp
  obtain zs where z: "base_ok L T {} (c0(?l := zs)) (k_insert_end ?l (Ev t) s1)"
    "k_INSERT_END ?l (Ev t) s1 = k_insert_end ?l (Ev t) s1" "k_insert_end ?l (Ev t) s1 = s1\<lparr>kls := kls (k_insert_end ?l (Ev t) s1)\<rparr>"
    "same_data (kls s1) (kls (k_insert_end ?l (Ev t) s1))" "cont (kls (k_insert_end ?l (Ev t) s1)) = (cont (kls s1))(Ev t := Some ?l)"
    by (rule base_insert_end_event[OF sched_okD(1)[OF e(1)] t(1) nc l(1) l'(1)])
  define K where "K = kls (k_insert_end ?l (Ev t) s1)"
  let ?k = "s1\<lparr>kls := K\<rparr>"
  note z = z[folded K_def, unfolded z(3)[folded K_def]]
  note m = event_moved[OF se(1) e(1) t z(1,4,5)]
  have k: "uxSchedulerSuspended ?k = 1" "xPendedTicks ?k = 0" "pxCurrentTCB ?k = Some t" "cont (kls ?k) (Ev t) = Some ?l"
    using f1 z(5) by simp_all
  obtain s2 s' where 1: "prvAddCurrentTaskToDelayedList n True ?k = Some s2" "resume_and_yield s2 = Some s'"
    "sane idle L T s'" "uxSchedulerSuspended s' = 0" "xPendedTicks s' = 0" "parked n s' t" "pxCurrentTCB s' \<noteq> Some t"
    "tcbs s' = tcbs ?k"
    "\<forall>u. cont (kls s') (Ev u) = (if u \<in> pending T ?k then None else cont (kls ?k) (Ev u)) \<and> val (kls s') (Ev u) = val (kls ?k) (Ev u)"
    by (rule event_block_rest[OF m(2) k(1-3) cur(2) k(4) l'(2) n])
  have place: "vTaskPlaceOnUnorderedEventList ?l (w OR ?v) n ?s = Some s2"
    using f0(3) 1(1) z(2) unfolding vTaskPlaceOnUnorderedEventList_def Let_def v
    by (simp add: s1_def[symmetric])
  have tp: "t \<notin> pending T ?k" using k(4) l'(2) by (simp add: pending_def xPendingReadyList_def)
  have "val K (Ev t) = wait_value w clr all" using same_dataD(1)[OF z(4)] f1(5) by simp
  then have ev: "cont (kls s') (Ev t) = Some ?l" "val (kls s') (Ev t) = wait_value w clr all" using 1(9) tp k(4) by simp_all
  have nw: "nobody_waits xPendingReadyList s'"
    using 1(9) pend(2) z(5) e(3) f0(1) l'(2) by (auto simp: nobody_waits_def xPendingReadyList_def)
  have "xEventGroupWaitBits_block g w clr all n s = Some (None, s\<lparr>ekern := s'\<rparr>)"
    using w n place 1(2) by (simp add: xEventGroupWaitBits_block_def Let_def on_ekern_def)
  then show thesis using 1 f1(1) ev nw by (intro that[of "s\<lparr>ekern := s'\<rparr>"]) simp_all
qed

text \<open>The end of the call, woken by the bits \<open>v\<close> or at the time-out.\<close>

lemma wait_end_woken:
  assumes "pxCurrentTCB (ekern s) = Some t"
    "val (kls (ekern s)) (Ev t) = v OR eventUNBLOCKED_DUE_TO_BIT_SET OR taskEVENT_LIST_ITEM_VALUE_IN_USE"
  shows "\<exists>s'. xEventGroupWaitBits_end g w clr all s = Some (v AND NOT eventEVENT_BITS_CONTROL_BYTES, s') \<and> groups s' = groups s"
proof -
  have "uxTaskResetEventItemValue (ekern s) = Some (v OR eventUNBLOCKED_DUE_TO_BIT_SET OR taskEVENT_LIST_ITEM_VALUE_IN_USE,
      k_set_value (Ev t) (of_nat configMAX_PRIORITIES - prio (ekern s) t) (ekern s))"
    using assms by (simp add: uxTaskResetEventItemValue_def lists_value)
  then show ?thesis using woken_value by (simp add: xEventGroupWaitBits_end_def Let_def)
qed

lemma wait_end_timeout:
  assumes "pxCurrentTCB (ekern s) = Some t" "val (kls (ekern s)) (Ev t) = wait_value w clr all"
    "w AND eventEVENT_BITS_CONTROL_BYTES = 0" "\<not> prvTestWaitCondition (ebits s g) w all"
  shows "\<exists>s'. xEventGroupWaitBits_end g w clr all s = Some (ebits s g AND NOT eventEVENT_BITS_CONTROL_BYTES, s') \<and> groups s' = groups s"
proof -
  have "uxTaskResetEventItemValue (ekern s) = Some (wait_value w clr all,
      k_set_value (Ev t) (of_nat configMAX_PRIORITIES - prio (ekern s) t) (ekern s))"
    using assms(1,2) by (simp add: uxTaskResetEventItemValue_def lists_value)
  then show ?thesis using wait_value_bits(3)[OF assms(3)] assms(4) by (simp add: xEventGroupWaitBits_end_def Let_def)
qed

text \<open>A tick with the scheduler running holds no ticks back.\<close>

lemma pended_frame:
  "xPendedTicks (prvResetNextTaskUnblockTime s) = xPendedTicks s" "xPendedTicks (prvAddTaskToReadyList t s) = xPendedTicks s"
  "k_REMOVE i s = Some s' \<Longrightarrow> xPendedTicks s' = xPendedTicks s" "vTaskSwitchContext s = Some s' \<Longrightarrow> xPendedTicks s' = xPendedTicks s"
  "xPendedTicks (tick_start s) = xPendedTicks s"
  by (auto simp: prvResetNextTaskUnblockTime_def prvAddTaskToReadyList_def taskRECORD_READY_PRIORITY_def k_INSERT_END_def
      k_REMOVE_def vTaskSwitchContext_def taskSELECT_HIGHEST_PRIORITY_TASK_def tick_start_def taskSWITCH_DELAYED_LISTS_def Let_def
      split: if_splits option.splits prod.splits)

lemma pended_tick_loop:
  assumes "tick_loop now sw s = Some r"
  shows "xPendedTicks (snd r) = xPendedTicks s"
proof (rule tick_loop.raw_induct[OF _ assms, where P = "\<lambda>_ _ s r. xPendedTicks (snd r) = xPendedTicks s"], goal_cases)
  case (1 loop now sw s r)
  show ?case using 1(2)
    by (auto simp: Let_def pended_frame bind_eq_Some_conv split: if_splits option.splits dest!: 1(1))
qed

lemma ticks_pended:
  assumes "sane idle L T s" "uxSchedulerSuspended s = 0" "run_ticks m s = Some s'"
  shows "xPendedTicks s' = xPendedTicks s"
  using assms
proof (induction m arbitrary: s)
  case (Suc m)
  obtain s1 where 1: "tick_isr s = Some s1" "run_ticks m s1 = Some s'" using Suc.prems(3) by (auto simp: bind_eq_Some_conv)
  obtain sw u where u: "xTaskIncrementTick s = Some (sw, u)" "(if sw then vTaskSwitchContext u else Some u) = Some s1"
    using 1(1) by (auto simp: tick_isr_def bind_eq_Some_conv)
  have "xPendedTicks u = xPendedTicks s"
    using u(1) pended_tick_loop pended_frame(5)[of s] unfolding xTaskIncrementTick_unfold[OF Suc.prems(2)]
    by (fastforce simp: bind_eq_Some_conv split: if_splits)
  then have p: "xPendedTicks s1 = xPendedTicks s" using u(2) pended_frame(4) by (auto split: if_splits)
  obtain s2 where s2: "run_ticks 1 s = Some s2" "sane idle L T s2" using sane_ticks[OF Suc.prems(1), of 1] by blast
  obtain c where ok: "sched_ok L T c s" and i: "idle \<in> T" "ready s idle" using Suc.prems(1) by (auto simp: sane_def)
  have "uxSchedulerSuspended s1 = 0" using run_ticks_spec[OF ok Suc.prems(2) i, of 1] 1(1) by auto
  with Suc.IH[OF _ this 1(2)] s2 1(1) p show ?case by simp
qed simp

text \<open>C5. What \<^verbatim>\<open>xEventGroupWaitBits\<close> promises the task \<open>t\<close> of the highest priority when its condition is not met: the
  call blocks it, and it does not run until bits are set that meet the condition or its time is up. Whichever tick such bits are
  set in, the call that sets them hands the processor to \<open>t\<close>, whose call returns the bits of the group at that moment,
  and the bits it waited for are then cleared if it asked for that. Otherwise \<open>t\<close> runs again after exactly \<open>n\<close>
  ticks and returns the current bits. Other tasks may wait on the same group.\<close>

theorem event_group_handshake:
  assumes "sane idle L T (ekern s)" "uxSchedulerSuspended (ekern s) = 0" "xPendedTicks (ekern s) = 0"
    "nobody_waits xPendingReadyList (ekern s)" "pxCurrentTCB (ekern s) = Some t" "t \<noteq> idle"
    "cont (kls (ekern s)) (xEventListItem t) = None" "n \<noteq> 0"
    "xTasksWaitingForBits g \<in> L" "10 \<le> xTasksWaitingForBits g"
    "\<not> prvTestWaitCondition (ebits s g) w all" "w AND eventEVENT_BITS_CONTROL_BYTES = 0"
    "\<forall>u\<in>T. u \<noteq> t \<longrightarrow> prio (ekern s) u < prio (ekern s) t"
  shows "\<exists>s1. xEventGroupWaitBits_block g w clr all n s = Some (None, s1) \<and>
    (\<forall>m b. (n = portMAX_DELAY \<or> m < unat n) \<longrightarrow> prvTestWaitCondition (ebits s g OR b) w all \<longrightarrow>
       (\<exists>k2 s3 s4. run_ticks m (ekern s1) = Some k2 \<and> pxCurrentTCB k2 \<noteq> Some t \<and>
          xEventGroupSetBits g b (s1\<lparr>ekern := k2\<rparr>) = Some s3 \<and> pxCurrentTCB (ekern s3) = Some t \<and>
          (clr \<longrightarrow> ebits s3 g AND w = 0) \<and>
          xEventGroupWaitBits_end g w clr all s3 = Some ((ebits s g OR b) AND NOT eventEVENT_BITS_CONTROL_BYTES, s4))) \<and>
    (n \<noteq> portMAX_DELAY \<longrightarrow>
       (\<exists>k2 s3. run_ticks (unat n) (ekern s1) = Some k2 \<and> pxCurrentTCB k2 = Some t \<and>
          xEventGroupWaitBits_end g w clr all (s1\<lparr>ekern := k2\<rparr>) = Some (ebits s g AND NOT eventEVENT_BITS_CONTROL_BYTES, s3)))"
proof -
  let ?l = "xTasksWaitingForBits g"
  obtain s1 where 1: "xEventGroupWaitBits_block g w clr all n s = Some (None, s1)" "groups s1 = groups s" "sane idle L T (ekern s1)"
    "uxSchedulerSuspended (ekern s1) = 0" "xPendedTicks (ekern s1) = 0" "nobody_waits xPendingReadyList (ekern s1)"
    "parked n (ekern s1) t" "pxCurrentTCB (ekern s1) \<noteq> Some t" "tcbs (ekern s1) = tcbs (ekern s)"
    "cont (kls (ekern s1)) (Ev t) = Some ?l" "val (kls (ekern s1)) (Ev t) = wait_value w clr all"
    by (rule wait_blocks[OF assms(1-11)])
  have t: "t \<in> T" using assms(1,5) by (auto simp: sane_def running_ok_def)
  obtain c where ok: "sched_ok L T c (ekern s1)" and i: "idle \<in> T" "ready (ekern s1) idle" using 1(3) by (auto simp: sane_def)
  have pass: "passes T m (ekern s1) k" if "run_ticks m (ekern s1) = Some k" for m k
    using run_ticks_spec[OF ok 1(4) i, of m] that by auto
  have vl: "val (kls k) (Ev t) = wait_value w clr all" if "run_ticks m (ekern s1) = Some k" for m k
    using pass[OF that] 1(11) by (simp add: passes_def same_data_def)
  have "\<exists>k2 s3 s4. run_ticks m (ekern s1) = Some k2 \<and> pxCurrentTCB k2 \<noteq> Some t \<and>
      xEventGroupSetBits g b (s1\<lparr>ekern := k2\<rparr>) = Some s3 \<and> pxCurrentTCB (ekern s3) = Some t \<and> (clr \<longrightarrow> ebits s3 g AND w = 0) \<and>
      xEventGroupWaitBits_end g w clr all s3 = Some ((ebits s g OR b) AND NOT eventEVENT_BITS_CONTROL_BYTES, s4)"
    if m: "n = portMAX_DELAY \<or> m < unat n" and met: "prvTestWaitCondition (ebits s g OR b) w all" for m b
  proof -
    let ?v = "ebits s g OR b"
    obtain k2 where 2: "run_ticks m (ekern s1) = Some k2" "sane idle L T k2" "uxSchedulerSuspended k2 = 0"
      "tcbs k2 = tcbs (ekern s1)" "pxCurrentTCB k2 \<noteq> Some t"
      using parked_ticks[OF 1(3,4) t 1(7,8) m] by blast
    let ?s = "s1\<lparr>ekern := k2\<rparr>"
    have "t \<notin> expired T m (ekern s1)" using 1(7) m blocked_cont[of "ekern s1" t] by (auto simp: expired_def parked_def split: if_splits)
    then have ct: "cont (kls k2) (Ev t) = Some ?l" using pass[OF 2(1)] 1(10) by (simp add: passes_def)
    have W: "t \<in> woken_by g T ?v k2"
      using t ct vl[OF 2(1)] met met_wait_value(1)[OF assms(12)] by (simp add: woken_by_def waiters_def)
    have p: "sane idle L T (ekern ?s)" "uxSchedulerSuspended (ekern ?s) = 0" "xPendedTicks (ekern ?s) = 0"
      "nobody_waits xPendingReadyList (ekern ?s)"
      using 2(2,3) ticks_pended[OF 1(3,4) 2(1)] 1(5) waiting_ticks(1)[OF 1(3,4) 2(1) 1(6)] by simp_all
    have v: "ebits ?s g OR b = ?v" "ekern ?s = k2" using 1(2) by simp_all
    obtain s3 where 3: "xEventGroupSetBits g b ?s = Some s3" "sane idle L T (ekern s3)" "uxSchedulerSuspended (ekern s3) = 0"
      "\<forall>u\<in>woken_by g T ?v k2. ready (ekern s3) u \<and> cont (kls (ekern s3)) (Ev u) = None \<and>
         val (kls (ekern s3)) (Ev u) = ?v OR eventUNBLOCKED_DUE_TO_BIT_SET OR taskEVENT_LIST_ITEM_VALUE_IN_USE"
      "\<forall>i. bit (ebits s3 g) i \<longleftrightarrow> bit ?v i \<and> \<not> (\<exists>u\<in>woken_by g T ?v k2. bit (clears (val (kls k2) (Ev u))) i)"
      "tcbs (ekern s3) = tcbs k2" "\<exists>cur. pxCurrentTCB (ekern s3) = Some cur \<and> top_task T (ekern s3) cur"
      by (rule set_bits_spec[OF p assms(9,10), of b, unfolded v])
    obtain cur where cur: "pxCurrentTCB (ekern s3) = Some cur" "top_task T (ekern s3) cur" using 3(7) by blast
    have "ready (ekern s3) t" using 3(4) W by blast
    then have "prio (ekern s3) t \<le> prio (ekern s3) cur" "cur \<in> T" using cur(2) t by (auto simp: top_task_def)
    then have ce: "pxCurrentTCB (ekern s3) = Some t"
      using assms(13) 3(6) 2(4) 1(9) cur(1) by (auto simp: not_less[symmetric])
    have cl: "ebits s3 g AND w = 0" if clr
    proof (rule bit_eqI)
      fix i
      have "clears (val (kls k2) (Ev t)) = w" using vl[OF 2(1)] met_wait_value(2)[OF assms(12), of clr all] that by simp
      then have "bit w i \<Longrightarrow> \<exists>u\<in>woken_by g T ?v k2. bit (clears (val (kls k2) (Ev u))) i" using W by (intro bexI[of _ t]) simp_all
      then have "bit w i \<Longrightarrow> \<not> bit (ebits s3 g) i" using 3(5) by blast
      then show "bit (ebits s3 g AND w) i \<longleftrightarrow> bit 0 i" by (auto simp: bit_and_iff)
    qed
    show ?thesis using 2(1,5) 3(1) ce cl wait_end_woken[OF ce, of ?v g w clr all] 3(4) W by auto
  qed
  moreover have "\<exists>k2 s3. run_ticks (unat n) (ekern s1) = Some k2 \<and> pxCurrentTCB k2 = Some t \<and>
      xEventGroupWaitBits_end g w clr all (s1\<lparr>ekern := k2\<rparr>) = Some (ebits s g AND NOT eventEVENT_BITS_CONTROL_BYTES, s3)"
    if fin: "n \<noteq> portMAX_DELAY"
  proof -
    have hi: "\<forall>u\<in>T. u \<noteq> t \<longrightarrow> prio (ekern s1) u < prio (ekern s1) t" using assms(13) 1(9) by simp
    obtain k2 where 2: "run_ticks (unat n) (ekern s1) = Some k2" "pxCurrentTCB k2 = Some t"
      using parked_times_out[OF 1(3,4) t 1(7) fin assms(8) hi] by blast
    show ?thesis
      using 2 wait_end_timeout[of "s1\<lparr>ekern := k2\<rparr>" t w clr all g] vl[OF 2(1)] assms(11,12) 1(2) by auto
  qed
  ultimately show ?thesis using 1(1) by blast
qed

definition demo_esys :: esys where
  "demo_esys = \<lparr>ekern = demo_run\<lparr>kls := vListInitialise 0x30001004 (kls demo_run)\<rparr>, groups = (\<lambda>_. \<lparr>uxEventBits = 1\<rparr>)\<rparr>"

lemma demo_esys_ok:
  "sane 0x30000218 (insert 0x30001004 {..10}) {0x300004A0, 0x30000218} (ekern demo_esys)" "uxSchedulerSuspended (ekern demo_esys) = 0"
  "xPendedTicks (ekern demo_esys) = 0" "nobody_waits xPendingReadyList (ekern demo_esys)"
  "pxCurrentTCB (ekern demo_esys) = Some 0x300004A0" "cont (kls (ekern demo_esys)) (Ev 0x300004A0) = None"
  "prio (ekern demo_esys) 0x300004A0 = 2" "prio (ekern demo_esys) 0x30000218 = 0" "cont (kls (ekern demo_esys)) (Ev 0x30000218) = None"
proof -
  let ?T = "{0x300004A0, 0x30000218} :: nat set"
  obtain c where d: "sched_ok {..10} ?T c demo_run" "sane 0x30000218 {..10} ?T demo_run"
    "pxCurrentTCB demo_run = Some 0x300004A0" "uxSchedulerSuspended demo_run = 0"
    "prio demo_run 0x300004A0 = 2" "prio demo_run 0x30000218 = 0" "cont (kls demo_run) (Ev 0x300004A0) = None"
    "xPendedTicks demo_run = 0" "cont (kls demo_run) (Ev 0x30000218) = None"
    by (rule demo_run_ok)
  have n: "(0x30001004 :: nat) \<notin> {..10}" "\<not> state_list 0x30001004" by (simp_all add: state_list_def)
  note e = sane_new_list[OF d(2) n]
  have "u \<in> ?T" if u: "cont (kls demo_run) (Ev u) = Some l" for u l
  proof -
    obtain t where "t \<in> ?T" "Ev u = (if state_list l then St t else Ev t)" by (rule base_item[OF sched_okD(1)[OF d(1)] u])
    then show ?thesis by (auto split: if_splits)
  qed
  then have "nobody_waits xPendingReadyList demo_run" using d(7,9) by (fastforce simp: nobody_waits_def)
  then show "sane 0x30000218 (insert 0x30001004 {..10}) ?T (ekern demo_esys)" "uxSchedulerSuspended (ekern demo_esys) = 0"
    "xPendedTicks (ekern demo_esys) = 0" "nobody_waits xPendingReadyList (ekern demo_esys)"
    "pxCurrentTCB (ekern demo_esys) = Some 0x300004A0" "cont (kls (ekern demo_esys)) (Ev 0x300004A0) = None"
    "prio (ekern demo_esys) 0x300004A0 = 2" "prio (ekern demo_esys) 0x30000218 = 0" "cont (kls (ekern demo_esys)) (Ev 0x30000218) = None"
    using e(1) d(3-9) by (simp_all add: demo_esys_def nobody_waits_def e(3))
qed

theorem event_group_handshake_witness:
  "\<exists>s1 k2 s3 s4. xEventGroupWaitBits_block 0x30001000 6 True True 9 demo_esys = Some (None, s1) \<and> run_ticks 3 (ekern s1) = Some k2 \<and>
     xEventGroupSetBits 0x30001000 14 (s1\<lparr>ekern := k2\<rparr>) = Some s3 \<and> pxCurrentTCB (ekern s3) = Some 0x300004A0 \<and>
     ebits s3 0x30001000 AND 6 = 0 \<and> xEventGroupWaitBits_end 0x30001000 6 True True s3 = Some (15, s4)"
proof -
  have l: "xTasksWaitingForBits 0x30001000 \<in> insert 0x30001004 {..10}" "10 \<le> xTasksWaitingForBits 0x30001000"
    by (simp_all add: xTasksWaitingForBits_def)
  have w: "\<not> prvTestWaitCondition (ebits demo_esys 0x30001000) 6 True" "(6 :: u32_t) AND eventEVENT_BITS_CONTROL_BYTES = 0"
    "prvTestWaitCondition (ebits demo_esys 0x30001000 OR 14) 6 True" "(ebits demo_esys 0x30001000 OR 14) AND NOT eventEVENT_BITS_CONTROL_BYTES = 15"
    by (simp_all add: prvTestWaitCondition_def demo_esys_def eventEVENT_BITS_CONTROL_BYTES_def)
  have n: "(0x300004A0 :: nat) \<noteq> 0x30000218" "(9 :: u32_t) \<noteq> 0" "(3 :: nat) < unat (9 :: u32_t)" by simp_all
  have hi: "\<forall>u\<in>{0x300004A0, 0x30000218}. u \<noteq> 0x300004A0 \<longrightarrow> prio (ekern demo_esys) u < prio (ekern demo_esys) 0x300004A0"
    using demo_esys_ok(7,8) by simp
  from event_group_handshake[OF demo_esys_ok(1-5) n(1) demo_esys_ok(6) n(2) l w(1,2) hi, of True]
  obtain s1 where s1: "xEventGroupWaitBits_block 0x30001000 6 True True 9 demo_esys = Some (None, s1)"
    "\<forall>m b. (9 = portMAX_DELAY \<or> m < unat (9 :: u32_t)) \<longrightarrow> prvTestWaitCondition (ebits demo_esys 0x30001000 OR b) 6 True \<longrightarrow>
       (\<exists>k2 s3 s4. run_ticks m (ekern s1) = Some k2 \<and> pxCurrentTCB k2 \<noteq> Some 0x300004A0 \<and>
          xEventGroupSetBits 0x30001000 b (s1\<lparr>ekern := k2\<rparr>) = Some s3 \<and> pxCurrentTCB (ekern s3) = Some 0x300004A0 \<and>
          (True \<longrightarrow> ebits s3 0x30001000 AND 6 = 0) \<and>
          xEventGroupWaitBits_end 0x30001000 6 True True s3 =
            Some ((ebits demo_esys 0x30001000 OR b) AND NOT eventEVENT_BITS_CONTROL_BYTES, s4))"
    by (elim exE conjE)
  show ?thesis using s1(1) s1(2)[rule_format, OF disjI2[OF n(3)] w(3)] unfolding w(4) by blast
qed

theorem xEventGroupSetBits_wakes_witness:
  "\<exists>s1 s2. xEventGroupWaitBits_block 0x30001000 6 True False 9 demo_esys = Some (None, s1) \<and>
     xEventGroupSetBits 0x30001000 2 s1 = Some s2 \<and> ready (ekern s2) 0x300004A0 \<and>
     \<not> bit (ebits s2 0x30001000) 1"
proof -
  let ?t = "0x300004A0 :: nat" and ?g = "0x30001000 :: nat" and ?T = "{0x300004A0, 0x30000218} :: nat set"
  have l: "xTasksWaitingForBits ?g \<in> insert 0x30001004 {..10}" "10 \<le> xTasksWaitingForBits ?g"
    by (simp_all add: xTasksWaitingForBits_def)
  have w: "\<not> prvTestWaitCondition (ebits demo_esys ?g) 6 False" "(6 :: u32_t) AND eventEVENT_BITS_CONTROL_BYTES = 0"
    by (simp_all add: prvTestWaitCondition_def demo_esys_def eventEVENT_BITS_CONTROL_BYTES_def)
  have n: "?t \<noteq> 0x30000218" "(9 :: u32_t) \<noteq> 0" by simp_all
  obtain s1 where 1: "xEventGroupWaitBits_block ?g 6 True False 9 demo_esys = Some (None, s1)" "groups s1 = groups demo_esys"
    "sane 0x30000218 (insert 0x30001004 {..10}) ?T (ekern s1)" "uxSchedulerSuspended (ekern s1) = 0" "xPendedTicks (ekern s1) = 0"
    "nobody_waits xPendingReadyList (ekern s1)" "cont (kls (ekern s1)) (Ev ?t) = Some (xTasksWaitingForBits ?g)"
    "val (kls (ekern s1)) (Ev ?t) = wait_value 6 True False"
    by (rule wait_blocks[OF demo_esys_ok(1-5) n(1) demo_esys_ok(6) n(2) l w(1)])
  have v: "ebits s1 ?g OR 2 = 3" using 1(2) by (simp add: demo_esys_def)
  have W: "?t \<in> woken_by ?g ?T 3 (ekern s1)"
    using 1(7,8) met_wait_value(1)[OF w(2), of 3 True False] by (simp add: woken_by_def waiters_def prvTestWaitCondition_def)
  from xEventGroupSetBits_wakes[OF 1(3-6) l, of 2, unfolded v Let_def]
  obtain s2 where 2: "xEventGroupSetBits ?g 2 s1 = Some s2" "\<forall>t\<in>woken_by ?g ?T 3 (ekern s1). ready (ekern s2) t \<and>
      cont (kls (ekern s2)) (Ev t) = None \<and> val (kls (ekern s2)) (Ev t) = 3 OR eventUNBLOCKED_DUE_TO_BIT_SET OR taskEVENT_LIST_ITEM_VALUE_IN_USE"
    "\<forall>i. bit (ebits s2 ?g) i \<longleftrightarrow> bit (3 :: u32_t) i \<and> \<not> (\<exists>t\<in>woken_by ?g ?T 3 (ekern s1). bit (clears (val (kls (ekern s1)) (Ev t))) i)"
    by (elim exE conjE)
  have "clears (val (kls (ekern s1)) (Ev ?t)) = 6" using 1(8) met_wait_value(2)[OF w(2), of True False] by simp
  then have "\<exists>t\<in>woken_by ?g ?T 3 (ekern s1). bit (clears (val (kls (ekern s1)) (Ev t))) 1" using W by (intro bexI[of _ ?t]) (simp_all add: bit_numeral_rec)
  then have "\<not> bit (ebits s2 ?g) 1" using 2(3) by blast
  then show ?thesis using 1(1) 2(1,2) W by blast
qed

end
