(* ===== verification/Spec2Isabelle.thy ===== *)
theory Spec2Isabelle
  imports FreeRTOS_List Heap4_Alloc Port Irq Nand Dm9000 Ip_Addr Pbuf_Alloc Pbuf_Chksum Event_Wait
begin

text \<open>
  \<^bold>\<open>Verification of the lwIP / FreeRTOS system for the TQ2440 board (S3C2440, ARM9)\<close>

  \<^bold>\<open>The program.\<close> \<^verbatim>\<open>src/2440bsp\<close> is the board support: start-up, interrupt dispatch, timers, serial
  port, NAND flash, the DM9000 Ethernet driver and \<^verbatim>\<open>main.c\<close>, which creates tasks and starts the
  scheduler. \<^verbatim>\<open>src/FreeRTOS-Kernel\<close> is the kernel; the build compiles \<^verbatim>\<open>list.c\<close>, \<^verbatim>\<open>tasks.c\<close>,
  \<^verbatim>\<open>queue.c\<close>, \<^verbatim>\<open>event_groups.c\<close>, \<^verbatim>\<open>heap_4.c\<close> and the port \<^verbatim>\<open>ARM9_s3c2440\<close>. \<^verbatim>\<open>src/lwip-1.4.1\<close> is the network stack,
  run from one thread (\<^verbatim>\<open>NO_SYS\<close> is 1). The models are those of the configuration in
  \<^verbatim>\<open>FreeRTOSConfig.h\<close> and \<^verbatim>\<open>lwipopts.h\<close>; code it compiles out is not modelled.

  The parts meet as follows. The tick and the external interrupts enter through the port, which saves
  the context of the task, and end with a context switch if the kernel asks for one. The kernel keeps
  its tasks on the lists of \<^verbatim>\<open>list.c\<close>, takes stacks and control blocks from \<^verbatim>\<open>heap_4.c\<close> and builds the
  first stack frame with the port's \<^verbatim>\<open>pxPortInitialiseStack\<close>. Queues keep waiting tasks on event lists
  and their items in heap memory. The Ethernet interrupt announces a frame to the service loop of
  \<^verbatim>\<open>main.c\<close>, the driver copies it into memory, and lwIP keeps it in chains of buffers taken from its
  own heap and pools, over which the checksums are computed.

  \<^bold>\<open>Conventions.\<close> Machine integers keep their width (\<^verbatim>\<open>w word\<close>, wrap-around included). Addresses of
  blocks, tasks, queues and lists are natural numbers; 0 is \<^verbatim>\<open>NULL\<close>. A function that can fail to
  return (an endless loop, a failed \<^verbatim>\<open>LWIP_ASSERT\<close>, which loops, or a null pointer that is followed)
  returns an \<^verbatim>\<open>option\<close>, \<^verbatim>\<open>None\<close> when it does not return; loops without a structural bound are
  \<^verbatim>\<open>partial_function (option)\<close>, with no fuel anywhere, so each theorem that gives a result also says
  that the loop ends. \<^verbatim>\<open>configASSERT\<close> only prints and is left out. A kernel call is one
  step of the model, and where it can block it is cut into the parts between which other tasks and
  interrupts run. This is what the code does inside a critical section; \<^verbatim>\<open>vTaskSuspend\<close>, \<^verbatim>\<open>vTaskDelay\<close> and
  \<^verbatim>\<open>vTaskDelete\<close> also enable interrupts between their sections, and interrupts that arrive there are
  taken before or after the whole call in the model. Control blocks, stacks, list items and the bytes of the heap are separate
  stores, as are the packet structures, payloads, heap and pools of lwIP: writes that leave an object are seen in
  the theorems that bound them (a start frame stays in its stack, a frame in \<^verbatim>\<open>PktBuf\<close>) and do not
  reach other stores.

  \<^bold>\<open>Parameters.\<close> What is not code of the repository is an argument: the hardware behind registers
  (\<^verbatim>\<open>'d world\<close> in \<open>Board\<close>, with the behaviour a theorem relies on as a named hypothesis, such as a
  transmitter that becomes ready or a chip that delivers its pages), the handlers that \<open>Port\<close> calls,
  the sizes of lwIP's pool elements, and the free functions of custom buffers. Each theorem with such
  a hypothesis has a witness on a concrete device.

  \<^bold>\<open>The theories.\<close>

  \<^item> \<open>Prelude\<close>: C integer types, byte memory, collections of rules, and the interfaces \<open>round_robin\<close>
    (a server that keeps clients in a queue) and \<open>allocator\<close> (a memory a client can rely on).
  \<^item> \<open>FreeRTOS_List\<close> (\<^verbatim>\<open>list.c\<close>, \<^verbatim>\<open>list.h\<close>): lists over a store of items; \<open>ring\<close> relates a list to
    its contents. Insertion, removal and the round robin of \<^verbatim>\<open>listGET_OWNER_OF_NEXT_ENTRY\<close>, an
    interpretation of \<open>round_robin\<close>. \<open>Kernel_Lists\<close>: many lists over one store (\<open>lists_ok\<close>).
  \<^item> \<open>Heap4\<close>, \<open>Heap4_Shape\<close>, \<open>Heap4_Alloc\<close> (\<^verbatim>\<open>heap_4.c\<close>): the allocator over byte memory, with the
    headers in it; the heap as a list of blocks; the refinement of first fit with coalescing, and
    the interpretation of \<open>allocator\<close>.
  \<^item> \<open>Port\<close> (\<^verbatim>\<open>port.c\<close>, \<^verbatim>\<open>portISR.c\<close>, \<^verbatim>\<open>portmacro.h\<close>): registers and stack memory, the context macros
    instruction by instruction, the first stack frame, critical sections.
  \<^item> \<open>Tasks\<close>, \<open>Tasks_Create\<close>, \<open>Tasks_Start\<close> (\<^verbatim>\<open>tasks.c\<close>): the record \<open>kernel\<close> holds the file's static
    variables, the control blocks, the lists and the heap. \<open>Tasks_Inv\<close> (\<open>base_ok\<close>: every task has its
    state item on exactly one list, sorted delayed lists, the top ready priority), \<open>Tasks_Time\<close>
    (\<open>times_ok\<close>: wake times across the wrap-around), \<open>Tasks_Delay\<close> (what ticks, blocking and resuming
    do), \<open>Tasks_Calls\<close> and \<open>Tasks_Delete\<close> (\<open>sane\<close>: every call returns and keeps the invariant).
    \<open>Tasks_Start\<close> ends with \<open>scheduler_sound\<close>, over all sequences of calls from power-on.
  \<^item> \<open>Scheduler\<close>: what the scheduler promises a task: selection, ticks that pass the processor round among tasks of
    equal priority, the exact time of delays, periods and time-outs, fresh memory of new tasks.
  \<^item> \<open>Notify\<close> (the notification functions of \<^verbatim>\<open>tasks.c\<close>): delivery, the handshake of waiting and
    giving, and a sequence of interrupts that corrupts the list of pending tasks.
  \<^item> \<open>Queue\<close>, \<open>Queue_Buffer\<close>, \<open>Queue_Wait\<close> (\<^verbatim>\<open>queue.c\<close>): the operations; the ring buffer as an
    interpretation of the interface \<open>bounded_buffer\<close>; event lists and the delivery of a message to a
    waiting task.
  \<^item> \<open>Event_Groups\<close>, \<open>Event_Wait\<close> (\<^verbatim>\<open>event_groups.c\<close>): which tasks a call that sets bits wakes, and what
    a task that waits for bits gets and when.
  \<^item> \<open>Board\<close>, \<open>Irq\<close>, \<open>Nand\<close>, \<open>Dm9000\<close> (\<^verbatim>\<open>2440bsp\<close>): drivers over a parametric device; the interrupt
    handshake as a step relation (\<open>run\<close>, \<open>reach\<close>) with its invariant; the page reader; the Ethernet
    driver from initialisation to sending, with two defects proved as theorems.
  \<^item> \<open>Inet\<close>, \<open>Ip_Addr\<close> (\<^verbatim>\<open>def.c\<close>, \<^verbatim>\<open>inet_chksum.c\<close>, \<^verbatim>\<open>ip_addr.c\<close>): the Internet checksum against the
    ones' complement sum, and the text form of addresses.
  \<^item> \<open>Mem\<close>, \<open>Mem_Heap\<close>, \<open>Memp\<close> (\<^verbatim>\<open>mem.c\<close>, \<^verbatim>\<open>memp.c\<close>): lwIP's heap and pools; both interpret
    \<open>allocator\<close>.
  \<^item> \<open>Pbuf\<close>, \<open>Pbuf_Chain\<close>, \<open>Pbuf_Alloc\<close>, \<open>Pbuf_Chksum\<close> (\<^verbatim>\<open>pbuf.c\<close>, \<^verbatim>\<open>inet_chksum.c\<close>): packets as chains
    of reference counted buffers; copying, joining, releasing and allocating them, and checksums
    that do not depend on the division into buffers.

  \<^bold>\<open>Bounds.\<close> The theorems on tasks allow any number of tasks below \<^verbatim>\<open>2 ^ 30\<close>, so that item counts do not
  wrap; the checksum holds for up to \<^verbatim>\<open>0x20000\<close> bytes, behind which the 32-bit accumulator may
  overflow; time-outs are exact up to \<^verbatim>\<open>2 ^ 33\<close> ticks.

  \<^bold>\<open>Not modelled.\<close> The TCP, UDP, IP, ARP and timer layers of lwIP and its Ethernet glue:
  the tasks that would run them are commented out in \<^verbatim>\<open>main.c\<close>, and the development stops at the
  memory, packet and address layers they stand on. DHCP, DNS, IGMP, AUTOIP, SNMP, the sequential API
  and the contributed applications are not part of the configuration or the build, nor are the other
  ports and allocators of FreeRTOS, co-routines, stream buffers and software timers. Assembly start-up code and the
  hardware are parameters or left out.
\<close>

end
